(* ===== verification/Prelude.thy ===== *)
theory Prelude
  imports Main "HOL-Library.Signed_Division"
begin

text \<open>
  Shared vocabulary of the development.

  \<^item> \<open>ErrorCode\<close> is the enumeration of \<open>include/MNN/ErrorCode.hpp\<close> (without the
    numbers).
  \<^item> \<open>UP_DIV\<close>, \<open>ALIMAX\<close>, \<open>ALIMIN\<close> are the macros of \<open>source/core/Macro.h\<close>, once on
    \<open>nat\<close> (for \<open>size_t\<close> operands) and once on \<open>int\<close> (for \<open>int\<close> operands, where
    \<open>/\<close> truncates towards zero: \<open>sdiv\<close>).
  \<^item> \<open>size_t_sub\<close> is the subtraction of two \<open>size_t\<close> values, which wraps at \<open>2 ^ 64\<close>.
  \<^item> The collection \<open>list_calc\<close> gathers the facts on sums and updates of lists which the
    component proofs share.
\<close>

section \<open>Error codes\<close>

datatype ErrorCode =
    NO_ERROR
  | OUT_OF_MEMORY
  | NOT_SUPPORT
  | COMPUTE_SIZE_ERROR
  | NO_EXECUTION
  | INVALID_VALUE
  | INPUT_DATA_ERROR
  | CALL_BACK_STOP
  | TENSOR_NOT_SUPPORT
  | TENSOR_NEED_DIVIDE
  | FILE_CREATE_FAILED
  | FILE_REMOVE_FAILED
  | FILE_OPEN_FAILED
  | FILE_CLOSE_FAILED
  | FILE_RESIZE_FAILED
  | FILE_SEEK_FAILED
  | FILE_NOT_EXIST
  | FILE_UNMAP_FAILED

section \<open>Macros\<close>

definition UP_DIV :: "nat \<Rightarrow> nat \<Rightarrow> nat" where
  "UP_DIV x y = (x + y - 1) div y"

definition ROUND_UP :: "nat \<Rightarrow> nat \<Rightarrow> nat" where
  "ROUND_UP x y = (x + y - 1) div y * y"

definition ALIMAX :: "'a::linorder \<Rightarrow> 'a \<Rightarrow> 'a" where
  "ALIMAX x y = (if x > y then x else y)"

definition ALIMIN :: "'a::linorder \<Rightarrow> 'a \<Rightarrow> 'a" where
  "ALIMIN x y = (if x < y then x else y)"

definition UP_DIVi :: "int \<Rightarrow> int \<Rightarrow> int" where
  "UP_DIVi x y = (x + y - 1) sdiv y"

definition size_t_sub :: "nat \<Rightarrow> nat \<Rightarrow> nat" where
  "size_t_sub a b = (if b \<le> a then a - b else 2 ^ 64 - (b - a))"

lemma ALIMAX_max [simp]: "ALIMAX x y = max x y"
  by (auto simp: ALIMAX_def max_def)

lemma ALIMIN_min [simp]: "ALIMIN x y = min x y"
  by (auto simp: ALIMIN_def min_def)

lemma size_t_sub_le [simp]: "b \<le> a \<Longrightarrow> size_t_sub a b = a - b"
  by (simp add: size_t_sub_def)

lemma ROUND_UP_UP_DIV: "ROUND_UP x y = UP_DIV x y * y"
  by (simp add: ROUND_UP_def UP_DIV_def)

text \<open>Division of \<open>int\<close> values.\<close>

lemma le_zdiv_iff: "0 < (s :: int) \<Longrightarrow> i \<le> x div s \<longleftrightarrow> i * s \<le> x"
proof
  assume s: "0 < s" and "i \<le> x div s"
  then have "i * s \<le> x div s * s" by simp
  also have "\<dots> \<le> x" using s by (simp add: minus_mod_eq_div_mult [symmetric])
  finally show "i * s \<le> x" .
next
  assume s: "0 < s" and "i * s \<le> x"
  then show "i \<le> x div s" using zdiv_mono1 [of "i * s" x s] by simp
qed

lemma ceil_zdiv: "0 < (s :: int) \<Longrightarrow> - (- (m + 1) div s) = m div s + 1"
proof -
  assume s: "0 < s"
  have "- (m + 1) = s * (- (m div s) - 1) + (s - 1 - m mod s)"
    using div_mult_mod_eq [of m s] by (simp add: algebra_simps)
  moreover have "0 \<le> s - 1 - m mod s" "s - 1 - m mod s < s" using pos_mod_bound [OF s, of m] pos_mod_sign [OF s, of m] by linarith+
  ultimately show ?thesis using int_div_pos_eq [of "- (m + 1)" s "- (m div s) - 1" "s - 1 - m mod s"] by simp
qed

text \<open>Rounding up: the least multiple of the alignment that is not below the value.\<close>

lemma UP_DIV_mult_ge:
  assumes "0 < y"
  shows "x \<le> UP_DIV x y * y"
proof -
  have "(x + y - 1) div y * y + (x + y - 1) mod y = x + y - 1"
    by simp
  moreover have "(x + y - 1) mod y < y"
    using assms by simp
  ultimately show ?thesis
    using assms unfolding UP_DIV_def by linarith
qed

lemma UP_DIV_mult_less:
  assumes "0 < y" "0 < x"
  shows "UP_DIV x y * y < x + y"
proof -
  have "(x + y - 1) div y * y \<le> x + y - 1"
    by simp
  then show ?thesis
    using assms unfolding UP_DIV_def by linarith
qed

lemma UP_DIV_mult_id:
  assumes "0 < y" "y dvd x"
  shows "UP_DIV x y * y = x"
proof -
  obtain k where k: "x = y * k"
    using assms(2) by (elim dvdE)
  have "(y * k + y - 1) div y = k"
  proof -
    have "y * k + y - 1 = (y - 1) + y * k"
      using assms(1) by simp
    then show ?thesis
      using assms(1) by (simp del: add_diff_assoc add_diff_assoc2)
  qed
  then show ?thesis
    by (simp add: UP_DIV_def k)
qed

lemma UP_DIV_0 [simp]: "UP_DIV 0 y = 0"
  by (cases y) (auto simp: UP_DIV_def)

lemma UP_DIV_pos:
  assumes "0 < y" "0 < x"
  shows "0 < UP_DIV x y * y"
  using UP_DIV_mult_ge [OF assms(1), of x] assms(2) by linarith

section \<open>Lists\<close>

named_theorems list_calc "sums, updates and splits of lists"

lemma sum_list_split_nth:
  "k < length xs \<Longrightarrow> sum_list xs = sum_list (take k xs) + xs ! k + sum_list (drop (Suc k) xs)"
  for xs :: "nat list"
  by (metis add.assoc append_take_drop_id Cons_nth_drop_Suc sum_list.Cons sum_list_append)

lemma sum_list_take_Suc [list_calc]:
  "k < length xs \<Longrightarrow> sum_list (take (Suc k) xs) = sum_list (take k xs) + xs ! k"
  for xs :: "nat list"
  by (simp add: take_Suc_conv_app_nth)

lemma sum_list_take_le: "sum_list (take k xs) \<le> sum_list xs"
  for xs :: "nat list"
proof -
  have "sum_list xs = sum_list (take k xs) + sum_list (drop k xs)"
    by (metis append_take_drop_id sum_list_append)
  then show ?thesis by simp
qed

lemma sum_list_take_mono: "k \<le> l \<Longrightarrow> sum_list (take k xs) \<le> sum_list (take l xs)"
  for xs :: "nat list"
  using sum_list_take_le [of k "take l xs"] by (simp add: min_def)

end
