(* ===== verification/SizeIndex.thy ===== *)
theory SizeIndex
  imports Prelude "HOL-Library.Multiset"
begin

text \<open>
  The two allocators of \<open>source/core/BufferAllocator.cpp\<close> keep their free memory in ordered
  containers of the C++ library: \<open>std::multiset<ChunkBySize>\<close> and
  \<open>std::multimap<size_t, SharedPtr<Node>>\<close>. Both order their elements by a size key and put an
  element after those of equal key. The model is the list of elements in iteration order, with
  the operations the allocators call: \<open>insert\<close>, \<open>lower_bound\<close>, and the erasure of one
  element of an \<open>equal_range\<close>.

  The locale \<open>size_index\<close> is the interface the allocators rely on; it is interpreted on the list
  operations at the end of the theory.
\<close>

section \<open>The operations of the ordered containers\<close>

fun index_insert :: "('e \<Rightarrow> nat) \<Rightarrow> 'e \<Rightarrow> 'e list \<Rightarrow> 'e list" where
  "index_insert key x [] = [x]"
| "index_insert key x (y # ys) =
     (if key x < key y then x # y # ys else y # index_insert key x ys)"

fun index_lower_bound :: "('e \<Rightarrow> nat) \<Rightarrow> nat \<Rightarrow> 'e list \<Rightarrow> 'e option" where
  "index_lower_bound key k [] = None"
| "index_lower_bound key k (y # ys) =
     (if k \<le> key y then Some y else index_lower_bound key k ys)"

definition index_erase :: "('e \<Rightarrow> nat) \<Rightarrow> 'e \<Rightarrow> 'e list \<Rightarrow> 'e list" where
  \<comment> \<open>find \<open>x\<close> by identity inside the \<open>equal_range\<close> of its key and erase it\<close>
  "index_erase key x xs =
     (let before = takeWhile (\<lambda>y. key y < key x) xs;
          rest = dropWhile (\<lambda>y. key y < key x) xs;
          same = takeWhile (\<lambda>y. key y \<le> key x) rest;
          after = dropWhile (\<lambda>y. key y \<le> key x) rest
      in before @ remove1 x same @ after)"

definition sorted_by :: "('e \<Rightarrow> nat) \<Rightarrow> 'e list \<Rightarrow> bool" where
  "sorted_by key xs = sorted (map key xs)"

section \<open>What they do to the contents\<close>

lemma mset_index_insert [simp]: "mset (index_insert key x xs) = add_mset x (mset xs)"
  by (induction xs) auto

lemma set_index_insert [simp]: "set (index_insert key x xs) = insert x (set xs)"
  by (induction xs) auto

lemma length_index_insert [simp]: "length (index_insert key x xs) = Suc (length xs)"
  by (induction xs) auto

lemma sorted_by_insert: "sorted_by key xs \<Longrightarrow> sorted_by key (index_insert key x xs)"
  unfolding sorted_by_def
  by (induction xs) auto

lemma sorted_by_cong: "(\<And>x. x \<in> set xs \<Longrightarrow> key x = key' x) \<Longrightarrow> sorted_by key xs = sorted_by key' xs"
  unfolding sorted_by_def by (metis map_cong)

lemma sorted_dropWhile_greater:
  "sorted (map key xs) \<Longrightarrow> \<forall>y \<in> set (dropWhile (\<lambda>y. key y \<le> key x) xs). key x < key y"
proof (induction xs)
  case Nil
  then show ?case by simp
next
  case (Cons z zs)
  then show ?case by (cases "key z \<le> key x") (auto intro: less_le_trans)
qed

lemma index_erase_remove1:
  assumes "sorted_by key xs" "x \<in> set xs"
  shows "index_erase key x xs = remove1 x xs"
proof -
  let ?b = "takeWhile (\<lambda>y. key y < key x) xs"
  let ?r = "dropWhile (\<lambda>y. key y < key x) xs"
  let ?s = "takeWhile (\<lambda>y. key y \<le> key x) ?r"
  let ?a = "dropWhile (\<lambda>y. key y \<le> key x) ?r"
  have xs: "xs = ?b @ ?s @ ?a" by simp
  have nb: "x \<notin> set ?b" by (auto dest: set_takeWhileD)
  have "sorted (map key ?r)"
    using assms(1) sorted_append [of "map key ?b" "map key ?r"]
    unfolding sorted_by_def by (metis map_append takeWhile_dropWhile_id)
  then have "\<forall>y \<in> set ?a. key x < key y"
    by (rule sorted_dropWhile_greater)
  then have na: "x \<notin> set ?a" by auto
  have ins: "x \<in> set ?s"
    using assms(2) nb na xs by (metis UnE set_append)
  have "remove1 x (b @ s @ a) = b @ remove1 x s @ a" if "x \<notin> set b" "x \<in> set s" for b s a :: "'a list"
    using that by (simp add: remove1_append)
  from this [OF nb ins, of ?a] show ?thesis
    unfolding index_erase_def Let_def xs [symmetric] by (rule sym)
qed

lemma index_lower_bound_None:
  "index_lower_bound key k xs = None \<longleftrightarrow> (\<forall>x \<in> set xs. key x < k)"
  by (induction xs) auto

lemma index_lower_bound_Some:
  "index_lower_bound key k xs = Some x \<Longrightarrow> x \<in> set xs \<and> k \<le> key x"
  by (induction xs) (auto split: if_splits)

lemma index_lower_bound_least:
  "sorted_by key xs \<Longrightarrow> index_lower_bound key k xs = Some x \<Longrightarrow> y \<in> set xs \<Longrightarrow> k \<le> key y
    \<Longrightarrow> key x \<le> key y"
  unfolding sorted_by_def
  by (induction xs) (auto split: if_splits)

lemma sorted_by_last:
  "sorted_by key xs \<Longrightarrow> y \<in> set xs \<Longrightarrow> key y \<le> key (last xs)"
  unfolding sorted_by_def
  by (induction xs) (auto split: if_splits)

lemma sorted_by_remove1: "sorted_by key xs \<Longrightarrow> sorted_by key (remove1 x xs)"
  unfolding sorted_by_def
  by (induction xs) (auto dest: notin_set_remove1)

section \<open>The interface\<close>

text \<open>
  An index of free memory: a collection of elements with a size key, from which the smallest
  element that fits can be taken.
\<close>

locale size_index =
  fixes key :: "'e \<Rightarrow> nat"
    and invar :: "'l \<Rightarrow> bool"
    and elems :: "'l \<Rightarrow> 'e multiset"
    and ins :: "'e \<Rightarrow> 'l \<Rightarrow> 'l"
    and del :: "'e \<Rightarrow> 'l \<Rightarrow> 'l"
    and best :: "nat \<Rightarrow> 'l \<Rightarrow> 'e option"
  assumes ins_invar: "invar l \<Longrightarrow> invar (ins x l)"
    and ins_elems: "elems (ins x l) = add_mset x (elems l)"
    and del_invar: "invar l \<Longrightarrow> x \<in># elems l \<Longrightarrow> invar (del x l)"
    and del_elems: "invar l \<Longrightarrow> x \<in># elems l \<Longrightarrow> elems (del x l) = elems l - {#x#}"
    and best_None: "best k l = None \<longleftrightarrow> (\<forall>x \<in># elems l. key x < k)"
    and best_Some: "best k l = Some x \<Longrightarrow> x \<in># elems l \<and> k \<le> key x"
    and best_least: "invar l \<Longrightarrow> best k l = Some x \<Longrightarrow> y \<in># elems l \<Longrightarrow> k \<le> key y \<Longrightarrow> key x \<le> key y"
begin

text \<open>Taking a fitting element out and putting another one back.\<close>

lemma swap_elems:
  assumes "invar l" "best k l = Some x"
  shows "elems (ins y (del x l)) = add_mset y (elems l - {#x#})"
  using assms best_Some del_elems ins_elems by metis

lemma swap_invar:
  assumes "invar l" "best k l = Some x"
  shows "invar (ins y (del x l))"
  using assms best_Some del_invar ins_invar by metis

lemma best_fits:
  assumes "y \<in># elems l" "k \<le> key y"
  shows "\<exists>x. best k l = Some x \<and> k \<le> key x"
proof (cases "best k l")
  case None
  then have "key y < k"
    using assms(1) best_None by blast
  with assms(2) show ?thesis by simp
next
  case (Some x)
  then show ?thesis using best_Some by blast
qed

text \<open>Removing and re-inserting the same element leaves the contents as they were.\<close>

lemma del_ins_elems:
  assumes "invar l" "x \<in># elems l"
  shows "elems (ins x (del x l)) = elems l"
  using assms by (simp add: ins_elems del_elems)

end

interpretation list_index: size_index key "sorted_by key" mset "index_insert key" "index_erase key" "index_lower_bound key"
proof (unfold_locales, goal_cases)
  case (1 l x)
  then show ?case by (rule sorted_by_insert)
next
  case (2 x l)
  show ?case by simp
next
  case (3 l x)
  then show ?case by (simp add: index_erase_remove1 sorted_by_remove1)
next
  case (4 l x)
  then show ?case by (simp add: index_erase_remove1)
next
  case (5 k l)
  show ?case by (simp add: index_lower_bound_None)
next
  case (6 k l x)
  then show ?case using index_lower_bound_Some by fastforce
next
  case (7 l k x y)
  then show ?case using index_lower_bound_least by fastforce
qed

end
