(* ===== verification/DeferAllocator.thy ===== *)
theory DeferAllocator
  imports SizeIndex
begin

text \<open>
  \<open>DeferBufferAllocator\<close> of \<open>source/core/BufferAllocator.cpp\<close>: requests are recorded during
  resize as nodes of a doubly linked list, and addresses are handed out only when \<open>compute\<close>
  runs, after everything was freed and fused into one node.

  A \<open>MemNode*\<close> into the vector \<open>mChunks\<close> is the node's index in that vector (the vector
  only grows until \<open>reset\<close> empties it), a null \<open>MemNode*\<close> is \<open>None\<close>. Raw addresses
  (\<open>void*\<close>) are numbers, the null address is 0. The allocator behind
  \<open>SingleBufferWithAllocator::root\<close> is code outside this class (a backend's allocator):
  what it returns for a size and an alignment, an address and an offset, is the parameter
  \<open>onAlloc\<close>. Sizes are natural
  numbers (no \<open>size_t\<close> overflow in the sums).
\<close>

section \<open>Data\<close>

record MemNode =
  mn_size :: nat
  mn_offset :: nat
  mn_base :: nat
  mn_usage :: bool
  mn_left :: "nat option"
  mn_right :: "nat option"
  mn_children :: "nat list"
  mn_tensors :: "nat list"

definition newMemNode :: "nat \<Rightarrow> MemNode" where
  "newMemNode sz = \<lparr>mn_size = sz, mn_offset = 0, mn_base = 0, mn_usage = True,
     mn_left = None, mn_right = None, mn_children = [], mn_tensors = []\<rparr>"

record MemChunk =
  ch_first :: nat
  ch_second :: nat
  ch_node :: "nat option"

definition nodeChunk :: "nat \<Rightarrow> MemChunk" where
  "nodeChunk i = \<lparr>ch_first = 0, ch_second = 0, ch_node = Some i\<rparr>"

definition rawChunk :: "nat \<Rightarrow> nat \<Rightarrow> MemChunk" where
  "rawChunk base off = \<lparr>ch_first = base, ch_second = off, ch_node = None\<rparr>"

definition nullChunk :: MemChunk where
  "nullChunk = rawChunk 0 0"

definition chunk_invalid :: "MemChunk \<Rightarrow> bool" where
  "chunk_invalid c = (ch_node c = None \<and> ch_first c = 0)"

definition chunk_base :: "MemNode list \<Rightarrow> MemChunk \<Rightarrow> nat" where
  "chunk_base ns c = (case ch_node c of Some i \<Rightarrow> mn_base (ns ! i) | None \<Rightarrow> ch_first c)"

definition chunk_offset :: "MemNode list \<Rightarrow> MemChunk \<Rightarrow> nat" where
  "chunk_offset ns c =
     (case ch_node c of Some i \<Rightarrow> mn_offset (ns ! i) + ch_second c | None \<Rightarrow> ch_second c)"

definition chunk_ptr :: "MemNode list \<Rightarrow> MemChunk \<Rightarrow> nat" where
  "chunk_ptr ns c =
     (case ch_node c of
        Some i \<Rightarrow> mn_base (ns ! i) + mn_offset (ns ! i) + ch_second c
      | None \<Rightarrow> ch_first c + ch_second c)"

definition chunk_plus :: "MemChunk \<Rightarrow> nat \<Rightarrow> MemChunk" where
  "chunk_plus c off = c\<lparr>ch_second := ch_second c + off\<rparr>"

definition chunk_attach :: "nat \<Rightarrow> MemChunk \<Rightarrow> MemNode list \<Rightarrow> MemNode list" where
  "chunk_attach t c ns =
     (case ch_node c of
        Some i \<Rightarrow> ns[i := (ns ! i)\<lparr>mn_tensors := mn_tensors (ns ! i) @ [t]\<rparr>]
      | None \<Rightarrow> ns)"

record SingleBuffer =
  sb_current :: MemChunk
  sb_currentSize :: nat
  sb_released :: "MemChunk list" \<comment> \<open>the calls of \<open>root->onRelease\<close> so far\<close>

record DeferAlloc =
  mChunks :: "MemNode list"
  mHead :: "nat option"
  mTail :: "nat option"
  mFreeList :: "nat list"
  mPtr :: MemChunk
  mAlign :: nat
  mBarrier :: bool
  mBarrierFreeChunks :: "MemChunk list"
  mTotalSize :: nat
  mParent :: SingleBuffer
  mHost :: "(nat \<times> nat) list" \<comment> \<open>the writes of \<open>buffer().host\<close> of a tensor, newest first\<close>

definition freshBuffer :: SingleBuffer where
  "freshBuffer = \<lparr>sb_current = nullChunk, sb_currentSize = 0, sb_released = []\<rparr>"

definition newDefer :: "SingleBuffer \<Rightarrow> nat \<Rightarrow> DeferAlloc" where
  "newDefer root align = \<lparr>mChunks = [], mHead = None, mTail = None, mFreeList = [],
     mPtr = nullChunk, mAlign = align, mBarrier = False, mBarrierFreeChunks = [],
     mTotalSize = 0, mParent = root, mHost = []\<rparr>"

section \<open>The shared buffer\<close>

definition sb_release :: "SingleBuffer \<Rightarrow> SingleBuffer" where
  "sb_release b =
     (if ch_first (sb_current b) \<noteq> 0
      then b\<lparr>sb_released := sb_released b @ [sb_current b],
             sb_current := (sb_current b)\<lparr>ch_first := 0, ch_second := 0\<rparr>,
             sb_currentSize := 0\<rparr>
      else b)"

definition sb_realloc ::
  "(nat \<Rightarrow> nat \<Rightarrow> nat \<times> nat) \<Rightarrow> nat \<Rightarrow> nat \<Rightarrow> SingleBuffer \<Rightarrow> ErrorCode \<times> SingleBuffer" where
  "sb_realloc onAlloc sz align b =
     (if sb_currentSize b < sz
      then
        (let b1 = (if ch_first (sb_current b) \<noteq> 0
                   then b\<lparr>sb_released := sb_released b @ [sb_current b]\<rparr> else b);
             b2 = b1\<lparr>sb_current := rawChunk (fst (onAlloc sz align)) (snd (onAlloc sz align))\<rparr>
         in if ch_first (sb_current b2) = 0 then (OUT_OF_MEMORY, b2)
            else (NO_ERROR, b2\<lparr>sb_currentSize := sz\<rparr>))
      else (NO_ERROR, b))"

section \<open>List surgery\<close>

definition upd_node :: "nat \<Rightarrow> (MemNode \<Rightarrow> MemNode) \<Rightarrow> DeferAlloc \<Rightarrow> DeferAlloc" where
  "upd_node i f s = s\<lparr>mChunks := (mChunks s)[i := f (mChunks s ! i)]\<rparr>"

definition createMemNode :: "nat \<Rightarrow> DeferAlloc \<Rightarrow> nat \<times> DeferAlloc" where
  "createMemNode sz s = (length (mChunks s), s\<lparr>mChunks := mChunks s @ [newMemNode sz]\<rparr>)"

definition insert_after :: "nat \<Rightarrow> nat option \<Rightarrow> DeferAlloc \<Rightarrow> DeferAlloc" where
  "insert_after chunk pos s =
     (case pos of
        Some p \<Rightarrow>
          (let right = mn_right (mChunks s ! p);
               s1 = (case right of
                       Some r \<Rightarrow> upd_node r (\<lambda>n. n\<lparr>mn_left := Some chunk\<rparr>) s
                     | None \<Rightarrow> s);
               s2 = upd_node chunk (\<lambda>n. n\<lparr>mn_right := right\<rparr>) s1;
               s3 = upd_node chunk (\<lambda>n. n\<lparr>mn_left := Some p\<rparr>) s2;
               s4 = upd_node p (\<lambda>n. n\<lparr>mn_right := Some chunk\<rparr>) s3
           in if mTail s4 = Some p then s4\<lparr>mTail := Some chunk\<rparr> else s4)
      | None \<Rightarrow>
          (case mTail s of
             Some t \<Rightarrow>
               (let s1 = upd_node t (\<lambda>n. n\<lparr>mn_right := Some chunk\<rparr>) s;
                    s2 = upd_node chunk (\<lambda>n. n\<lparr>mn_left := Some t\<rparr>) s1
                in s2\<lparr>mTail := Some chunk\<rparr>)
           | None \<Rightarrow> s\<lparr>mHead := Some chunk, mTail := Some chunk\<rparr>))"

definition erase_node :: "nat \<Rightarrow> DeferAlloc \<Rightarrow> DeferAlloc" where
  "erase_node chunk s =
     (let left = mn_left (mChunks s ! chunk); right = mn_right (mChunks s ! chunk)
      in case left of
           Some l \<Rightarrow>
             (case right of
                Some r \<Rightarrow>
                  upd_node r (\<lambda>n. n\<lparr>mn_left := Some l\<rparr>)
                    (upd_node l (\<lambda>n. n\<lparr>mn_right := Some r\<rparr>) s)
              | None \<Rightarrow> (upd_node l (\<lambda>n. n\<lparr>mn_right := None\<rparr>) s)\<lparr>mTail := Some l\<rparr>)
         | None \<Rightarrow>
             (case right of
                Some r \<Rightarrow> (upd_node r (\<lambda>n. n\<lparr>mn_left := None\<rparr>) s)\<lparr>mHead := Some r\<rparr>
              | None \<Rightarrow> s\<lparr>mHead := None, mTail := None\<rparr>))"

definition fuse_to_left :: "nat \<Rightarrow> nat \<Rightarrow> DeferAlloc \<Rightarrow> nat \<times> DeferAlloc" where
  "fuse_to_left left right s =
     (let s1 = upd_node right (\<lambda>n. n\<lparr>mn_offset := mn_size (mChunks s ! left)\<rparr>) s;
          s2 = upd_node left (\<lambda>n. n\<lparr>mn_size := mn_size n + mn_size (mChunks s1 ! right)\<rparr>) s1;
          s3 = upd_node left (\<lambda>n. n\<lparr>mn_children := mn_children n @ [right]\<rparr>) s2
      in (left, erase_node right s3))"

definition node_size :: "DeferAlloc \<Rightarrow> nat \<Rightarrow> nat" where
  "node_size s i = mn_size (mChunks s ! i)"

definition insertFree :: "nat \<Rightarrow> DeferAlloc \<Rightarrow> DeferAlloc" where
  "insertFree chunk s = s\<lparr>mFreeList := index_insert (node_size s) chunk (mFreeList s)\<rparr>"

definition eraseFree :: "nat \<Rightarrow> DeferAlloc \<Rightarrow> DeferAlloc" where
  "eraseFree chunk s = s\<lparr>mFreeList := index_erase (node_size s) chunk (mFreeList s)\<rparr>"

section \<open>Requests\<close>

definition defer_alloc :: "nat \<Rightarrow> bool \<Rightarrow> nat \<Rightarrow> DeferAlloc \<Rightarrow> MemChunk \<times> DeferAlloc" where
  "defer_alloc size0 separate align0 s =
     (let align = (if align0 = 0 then mAlign s else align0);
          sz = UP_DIV size0 align * align
      in if mFreeList s = [] \<or> separate
         then (let (newChunk, s1) = createMemNode sz s
               in (nodeChunk newChunk, insert_after newChunk None s1))
         else
           (let selectChunk = (case index_lower_bound (node_size s) sz (mFreeList s) of
                                 Some c \<Rightarrow> c
                               | None \<Rightarrow> last (mFreeList s));
                s1 = s\<lparr>mFreeList := remove1 selectChunk (mFreeList s)\<rparr>;
                s2 = upd_node selectChunk (\<lambda>n. n\<lparr>mn_usage := True\<rparr>) s1;
                s3 = (if mn_size (mChunks s2 ! selectChunk) > sz
                      then (let (restChunk, t1) =
                                  createMemNode (mn_size (mChunks s2 ! selectChunk) - sz) s2;
                                t2 = upd_node restChunk (\<lambda>n. n\<lparr>mn_usage := False\<rparr>) t1;
                                t3 = insert_after restChunk (Some selectChunk) t2
                            in insertFree restChunk t3)
                      else s2);
                s4 = upd_node selectChunk (\<lambda>n. n\<lparr>mn_size := sz\<rparr>) s3
            in (nodeChunk selectChunk, s4)))"

definition free_node :: "nat \<Rightarrow> DeferAlloc \<Rightarrow> DeferAlloc" where
  "free_node node0 s =
     (let left = mn_left (mChunks s ! node0);
          right = mn_right (mChunks s ! node0);
          (node1, s1) =
            (case left of
               Some l \<Rightarrow> (if \<not> mn_usage (mChunks s ! l)
                          then fuse_to_left l node0 (eraseFree l s) else (node0, s))
             | None \<Rightarrow> (node0, s));
          (node2, s2) =
            (case right of
               Some r \<Rightarrow> (if \<not> mn_usage (mChunks s1 ! r)
                          then fuse_to_left node1 r (eraseFree r s1) else (node1, s1))
             | None \<Rightarrow> (node1, s1));
          s3 = upd_node node2 (\<lambda>n. n\<lparr>mn_usage := False\<rparr>) s2
      in insertFree node2 s3)"

definition defer_free :: "MemChunk \<Rightarrow> DeferAlloc \<Rightarrow> bool \<times> DeferAlloc" where
  "defer_free c s =
     (if mBarrier s then (True, s\<lparr>mBarrierFreeChunks := mBarrierFreeChunks s @ [c]\<rparr>)
      else (case ch_node c of
              None \<Rightarrow> (False, s)
            | Some node \<Rightarrow> (True, free_node node s)))"

definition defer_barrierBegin :: "DeferAlloc \<Rightarrow> DeferAlloc" where
  "defer_barrierBegin s = s\<lparr>mBarrier := True\<rparr>"

definition defer_barrierEnd :: "DeferAlloc \<Rightarrow> DeferAlloc" where
  "defer_barrierEnd s =
     (let s1 = s\<lparr>mBarrier := False\<rparr>;
          s2 = fold (\<lambda>c t. snd (defer_free c t)) (mBarrierFreeChunks s1) s1
      in s2\<lparr>mBarrierFreeChunks := []\<rparr>)"

definition defer_reset :: "DeferAlloc \<Rightarrow> DeferAlloc" where
  "defer_reset s = s\<lparr>mTotalSize := 0, mChunks := [], mFreeList := [],
     mPtr := (mPtr s)\<lparr>ch_first := 0, ch_second := 0\<rparr>, mHead := None, mTail := None,
     mBarrier := False, mBarrierFreeChunks := []\<rparr>"

definition defer_release :: "bool \<Rightarrow> DeferAlloc \<Rightarrow> DeferAlloc" where
  "defer_release allRelease s = (if allRelease then defer_reset s else s)"

section \<open>Layout\<close>

text \<open>
  The recursion over the fusion tree is bounded by fuel: each visited node spends one unit.
  \<open>None\<close> is a visit that did not end; \<open>visitKids_total\<close> in theory \<open>DeferRun\<close> shows that
  the length of \<open>mChunks\<close> is enough.
\<close>

fun visitKids :: "nat \<Rightarrow> nat \<Rightarrow> nat list \<Rightarrow> MemNode list \<Rightarrow> MemNode list option" where
  "visitKids fuel p [] ns = Some ns"
| "visitKids 0 p (c # cs) ns = None"
| "visitKids (Suc fuel) p (c # cs) ns =
     (let ns1 = ns[c := (ns ! c)\<lparr>mn_offset := mn_offset (ns ! c) + mn_offset (ns ! p)\<rparr>]
      in case visitKids fuel c (mn_children (ns1 ! c)) ns1 of
           None \<Rightarrow> None
         | Some ns2 \<Rightarrow> visitKids fuel p cs ns2)"

definition visiChildren :: "nat \<Rightarrow> nat \<Rightarrow> MemNode list \<Rightarrow> MemNode list option" where
  "visiChildren fuel chunk ns = visitKids fuel chunk (mn_children (ns ! chunk)) ns"

fun compute_loop :: "nat \<Rightarrow> nat option \<Rightarrow> nat \<Rightarrow> MemNode list \<Rightarrow> (nat \<times> MemNode list) option" where
  "compute_loop fuel None acc ns = Some (acc, ns)"
| "compute_loop 0 (Some chunk) acc ns = None"
| "compute_loop (Suc fuel) (Some chunk) acc ns =
     (let ns1 = ns[chunk := (ns ! chunk)\<lparr>mn_offset := acc\<rparr>]
      in case visiChildren (length ns) chunk ns1 of
           None \<Rightarrow> None
         | Some ns2 \<Rightarrow>
             compute_loop fuel (mn_right (ns2 ! chunk)) (acc + mn_size (ns2 ! chunk)) ns2)"

definition applyNode ::
  "MemChunk \<Rightarrow> MemNode list \<Rightarrow> MemNode \<Rightarrow> (nat \<times> nat) list \<Rightarrow> (nat \<times> nat) list" where
  "applyNode ptr ns n host =
     fold (\<lambda>t h. (t, chunk_base ns ptr + (mn_offset n + chunk_offset ns ptr)) # h) (mn_tensors n) host"

definition defer_apply :: "(nat \<Rightarrow> nat \<Rightarrow> nat \<times> nat) \<Rightarrow> DeferAlloc \<Rightarrow> ErrorCode \<times> DeferAlloc" where
  "defer_apply onAlloc s =
     (if mFreeList s = [] then (NO_ERROR, s)
      else
        (let small = sb_currentSize (mParent s) < mTotalSize s;
             (code, b) = (if small then sb_realloc onAlloc (mTotalSize s) (mAlign s) (mParent s)
                          else (NO_ERROR, mParent s));
             s1 = s\<lparr>mParent := b\<rparr>
         in if code \<noteq> NO_ERROR then (code, s1)
            else if \<not> small \<and> ch_first (mPtr s) = ch_first (sb_current b)
                    \<and> ch_second (mPtr s) = ch_second (sb_current b)
            then (NO_ERROR, s1)
            else
              (let ptr = sb_current b;
                   ns = map (\<lambda>n. n\<lparr>mn_base := chunk_ptr (mChunks s1) ptr\<rparr>) (mChunks s1)
               in (NO_ERROR, s1\<lparr>mPtr := ptr, mChunks := ns,
                                mHost := fold (applyNode ptr ns) ns (mHost s1)\<rparr>))))"

definition defer_compute :: "(nat \<Rightarrow> nat \<Rightarrow> nat \<times> nat) \<Rightarrow> DeferAlloc \<Rightarrow> (ErrorCode \<times> DeferAlloc) option" where
  "defer_compute onAlloc s =
     (if mTotalSize s > 0 then Some (NO_ERROR, s)
      else
        (let s0 = s\<lparr>mTotalSize := 0\<rparr>
         in if mFreeList s0 = [] then Some (NO_ERROR, s0)
            else if length (mFreeList s0) \<noteq> 1 \<or> mHead s0 \<noteq> mTail s0 then Some (INVALID_VALUE, s0)
            else (case compute_loop (length (mChunks s0)) (mHead s0) 0 (mChunks s0) of
                    None \<Rightarrow> None
                  | Some (sz, ns) \<Rightarrow>
                      Some (defer_apply onAlloc (s0\<lparr>mTotalSize := sz, mChunks := ns\<rparr>)))))"

end
