(* ===== verification/DeferRefine.thy ===== *)
theory DeferRefine
  imports DeferAllocator
begin

text \<open>
  The pointer structure of \<open>DeferBufferAllocator\<close> refines a plain list of blocks. A block
  records the node's index, its size, whether it is in use, and the nodes fused into it, each with
  its offset from the block's start. \<open>struct_rep\<close> says that the doubly linked list, the head and
  tail pointers and the fusion trees of a state represent such a list; the lemmas of this theory
  show what each surgery of the code does to the list.
\<close>

section \<open>Blocks\<close>

datatype block = Block (bid: nat) (bsize: nat) (bused: bool) (bmem: "(nat \<times> nat) list")

definition bids :: "block \<Rightarrow> nat list" where
  "bids b = bid b # map fst (bmem b)"

definition all_ids :: "block list \<Rightarrow> nat list" where
  "all_ids bl = concat (map bids bl)"

definition shift_mem :: "nat \<Rightarrow> (nat \<times> nat) list \<Rightarrow> (nat \<times> nat) list" where
  "shift_mem d = map (\<lambda>(i, r). (i, d + r))"

definition fuse_blocks :: "block \<Rightarrow> block \<Rightarrow> block" where
  "fuse_blocks l r = Block (bid l) (bsize l + bsize r) (bused l)
     (bmem l @ (bid r, bsize l) # shift_mem (bsize l) (bmem r))"

lemma bids_simps [simp]: "bids (Block i n u ms) = i # map fst ms"
  by (simp add: bids_def)

lemma map_fst_shift_mem [simp]: "map fst (shift_mem d ms) = map fst ms"
  by (simp add: shift_mem_def case_prod_beta comp_def)

lemma set_shift_mem: "(i, r) \<in> set (shift_mem d ms) \<longleftrightarrow> (\<exists>r'. (i, r') \<in> set ms \<and> r = d + r')"
  by (auto simp: shift_mem_def)

lemma fst_set_shift_mem [simp]: "fst ` set (shift_mem d ms) = fst ` set ms"
  by (metis list.set_map map_fst_shift_mem)

lemma bid_in_bids [simp]: "bid b \<in> set (bids b)"
  by (simp add: bids_def)

lemma bids_fuse_blocks: "bids (fuse_blocks l r) = bids l @ bids r"
  by (simp add: bids_def fuse_blocks_def)

lemma all_ids_simps [simp]:
  "all_ids [] = []"
  "all_ids (b # bl) = bids b @ all_ids bl"
  "all_ids (bl @ bl') = all_ids bl @ all_ids bl'"
  by (simp_all add: all_ids_def)

lemma bid_in_all_ids: "b \<in> set bl \<Longrightarrow> bid b \<in> set (all_ids bl)"
  by (auto simp: all_ids_def intro!: bexI [of _ b])

lemma mem_in_all_ids: "b \<in> set bl \<Longrightarrow> i \<in> fst ` set (bmem b) \<Longrightarrow> i \<in> set (all_ids bl)"
  by (auto simp: all_ids_def bids_def intro!: bexI [of _ b])

section \<open>The doubly linked list\<close>

definition node_matches :: "MemNode list \<Rightarrow> block \<Rightarrow> bool" where
  "node_matches ns b = (mn_size (ns ! bid b) = bsize b \<and> mn_usage (ns ! bid b) = bused b)"

definition first_id :: "block list \<Rightarrow> nat option \<Rightarrow> nat option" where
  "first_id bl q = (case bl of [] \<Rightarrow> q | b # _ \<Rightarrow> Some (bid b))"

definition last_id :: "nat option \<Rightarrow> block list \<Rightarrow> nat option" where
  "last_id p bl = (if bl = [] then p else Some (bid (last bl)))"

fun dseg :: "MemNode list \<Rightarrow> nat option \<Rightarrow> block list \<Rightarrow> nat option \<Rightarrow> bool" where
  "dseg ns p [] q = True"
| "dseg ns p (b # bl) q =
     (node_matches ns b \<and> mn_left (ns ! bid b) = p \<and> mn_right (ns ! bid b) = first_id bl q
      \<and> dseg ns (Some (bid b)) bl q)"

lemma first_id_simps [simp]:
  "first_id [] q = q" "first_id (b # bl) q = Some (bid b)"
  by (simp_all add: first_id_def)

lemma first_id_append: "first_id (A @ B) q = first_id A (first_id B q)"
  by (cases A) auto

lemma last_id_simps [simp]:
  "last_id p [] = p" "last_id p (bl @ [b]) = Some (bid b)"
  "last_id p (b # bl) = last_id (Some (bid b)) bl"
  by (auto simp: last_id_def)

lemma last_id_append: "last_id p (A @ B) = last_id (last_id p A) B"
  by (auto simp: last_id_def)

lemma dseg_append:
  "dseg ns p (A @ B) q \<longleftrightarrow> dseg ns p A (first_id B q) \<and> dseg ns (last_id p A) B q"
  by (induction A arbitrary: p) (auto simp: first_id_append)

lemma dseg_cong:
  "(\<And>b. b \<in> set bl \<Longrightarrow> ns ! bid b = ns' ! bid b) \<Longrightarrow> dseg ns p bl q = dseg ns' p bl q"
  by (induction bl arbitrary: p) (auto simp: node_matches_def)

lemma dseg_upd_other:
  assumes "i \<notin> bid ` set bl"
  shows "dseg (ns[i := n]) p bl q = dseg ns p bl q"
proof (rule dseg_cong)
  fix b
  assume "b \<in> set bl"
  then have "i \<noteq> bid b" using assms by blast
  then show "ns[i := n] ! bid b = ns ! bid b" by simp
qed

text \<open>Re-pointing the two ends of a segment.\<close>

lemma dseg_set_right:
  assumes "dseg ns p (A @ [b]) q" "bid b < length ns" "distinct (map bid (A @ [b]))"
  shows "dseg (ns[bid b := (ns ! bid b)\<lparr>mn_right := q'\<rparr>]) p (A @ [b]) q'"
  using assms by (auto simp: dseg_append dseg_upd_other node_matches_def)

lemma dseg_set_left:
  assumes "dseg ns p (b # B) q" "bid b < length ns" "distinct (map bid (b # B))"
  shows "dseg (ns[bid b := (ns ! bid b)\<lparr>mn_left := p'\<rparr>]) p' (b # B) q"
  using assms by (auto simp: dseg_upd_other node_matches_def)

section \<open>Fusion trees\<close>

inductive kids_rep :: "MemNode list \<Rightarrow> nat list \<Rightarrow> (nat \<times> nat) list \<Rightarrow> bool" for ns where
  kids_Nil: "kids_rep ns [] []"
| kids_Cons: "kids_rep ns (mn_children (ns ! c)) mc \<Longrightarrow> kids_rep ns cs ms \<Longrightarrow>
     kids_rep ns (c # cs) ((c, mn_offset (ns ! c)) # shift_mem (mn_offset (ns ! c)) mc @ ms)"

inductive_cases kids_NilE: "kids_rep ns [] ms"
inductive_cases kids_ConsE: "kids_rep ns (c # cs) ms"

lemma kids_rep_append:
  "kids_rep ns cs ms \<Longrightarrow> kids_rep ns ds ms' \<Longrightarrow> kids_rep ns (cs @ ds) (ms @ ms')"
proof (induction rule: kids_rep.induct)
  case kids_Nil
  then show ?case by simp
next
  case (kids_Cons c mc cs ms)
  then show ?case
    using kids_rep.kids_Cons [of ns c mc "cs @ ds" "ms @ ms'"] by simp
qed

definition tree_eq :: "MemNode \<Rightarrow> MemNode \<Rightarrow> bool" where
  "tree_eq n n' = (mn_children n = mn_children n' \<and> mn_offset n = mn_offset n')"

lemma kids_rep_cong:
  "kids_rep ns cs ms \<Longrightarrow> (\<And>i. i \<in> fst ` set ms \<Longrightarrow> tree_eq (ns ! i) (ns' ! i)) \<Longrightarrow> kids_rep ns' cs ms"
proof (induction rule: kids_rep.induct)
  case kids_Nil
  show ?case by (rule kids_rep.kids_Nil)
next
  case (kids_Cons c mc cs ms)
  have "mn_offset (ns ! c) = mn_offset (ns' ! c)" "mn_children (ns ! c) = mn_children (ns' ! c)"
    using kids_Cons.prems [of c] by (simp_all add: tree_eq_def)
  moreover have "kids_rep ns' (mn_children (ns ! c)) mc"
    using kids_Cons.prems by (intro kids_Cons.IH(1)) (simp add: image_Un)
  moreover have "kids_rep ns' cs ms"
    using kids_Cons.prems by (intro kids_Cons.IH(2)) (simp add: image_Un)
  ultimately show ?case
    using kids_rep.kids_Cons [of ns' c mc cs ms] by simp
qed

section \<open>The representation relation\<close>

definition struct_rep :: "DeferAlloc \<Rightarrow> block list \<Rightarrow> bool" where
  "struct_rep s bl \<longleftrightarrow>
     distinct (all_ids bl) \<and> (\<forall>i \<in> set (all_ids bl). i < length (mChunks s)) \<and>
     dseg (mChunks s) None bl None \<and>
     mHead s = first_id bl None \<and> mTail s = last_id None bl \<and>
     (\<forall>b \<in> set bl. kids_rep (mChunks s) (mn_children (mChunks s ! bid b)) (bmem b))"

lemma distinct_bids: "distinct (all_ids bl) \<Longrightarrow> distinct (map bid bl)"
proof (induction bl)
  case Nil
  then show ?case by simp
next
  case (Cons b bl)
  then show ?case using bid_in_all_ids by (fastforce simp: bids_def)
qed

lemma struct_rep_new [simp]: "struct_rep (newDefer b a) []"
  by (simp add: struct_rep_def newDefer_def)

lemma struct_repD:
  assumes "struct_rep s bl"
  shows "distinct (all_ids bl)" "distinct (map bid bl)"
    "\<And>i. i \<in> set (all_ids bl) \<Longrightarrow> i < length (mChunks s)"
    "\<And>b. b \<in> set bl \<Longrightarrow> bid b < length (mChunks s)"
    "dseg (mChunks s) None bl None"
    "mHead s = first_id bl None" "mTail s = last_id None bl"
    "\<And>b. b \<in> set bl \<Longrightarrow> kids_rep (mChunks s) (mn_children (mChunks s ! bid b)) (bmem b)"
  using assms distinct_bids bid_in_all_ids unfolding struct_rep_def by blast+

text \<open>Updates that keep every node's children and offset keep the fusion trees.\<close>

definition same_trees :: "MemNode list \<Rightarrow> MemNode list \<Rightarrow> bool" where
  "same_trees ns ns' = (length ns' = length ns \<and> (\<forall>i. tree_eq (ns ! i) (ns' ! i)))"

lemma same_trees_refl [simp]: "same_trees ns ns"
  by (simp add: same_trees_def tree_eq_def)

lemma same_trees_trans: "same_trees a b \<Longrightarrow> same_trees b c \<Longrightarrow> same_trees a c"
  by (simp add: same_trees_def tree_eq_def)

lemma same_trees_upd:
  assumes "same_trees ns ns'" "tree_eq (ns' ! i) n"
  shows "same_trees ns (ns'[i := n])"
proof -
  have "tree_eq (ns ! j) (ns'[i := n] ! j)" for j
    using assms by (cases "i < length ns'"; cases "i = j")
      (auto simp: same_trees_def tree_eq_def list_update_beyond)
  then show ?thesis using assms(1) by (simp add: same_trees_def)
qed

lemma same_trees_kids:
  assumes "same_trees ns ns'" "kids_rep ns (mn_children (ns ! i)) ms"
  shows "kids_rep ns' (mn_children (ns' ! i)) ms"
proof -
  have "mn_children (ns' ! i) = mn_children (ns ! i)"
    using assms(1) by (simp add: same_trees_def tree_eq_def)
  then show ?thesis
    using assms kids_rep_cong by (metis same_trees_def)
qed

lemma tree_eq_fields [simp]:
  "tree_eq n (n\<lparr>mn_left := x\<rparr>)" "tree_eq n (n\<lparr>mn_right := x\<rparr>)"
  "tree_eq n (n\<lparr>mn_usage := u\<rparr>)" "tree_eq n (n\<lparr>mn_size := k\<rparr>)"
  by (simp_all add: tree_eq_def)

section \<open>What the surgery does to the blocks\<close>

lemma upd_node_simps [simp]:
  "mChunks (upd_node i f s) = (mChunks s)[i := f (mChunks s ! i)]"
  "mHead (upd_node i f s) = mHead s" "mTail (upd_node i f s) = mTail s"
  "mFreeList (upd_node i f s) = mFreeList s" "mAlign (upd_node i f s) = mAlign s"
  "mBarrier (upd_node i f s) = mBarrier s" "mTotalSize (upd_node i f s) = mTotalSize s"
  "mBarrierFreeChunks (upd_node i f s) = mBarrierFreeChunks s"
  "mParent (upd_node i f s) = mParent s" "mPtr (upd_node i f s) = mPtr s"
  by (simp_all add: upd_node_def)

lemma struct_rep_block:
  assumes rep: "struct_rep s (A @ b # B)"
    and b': "bid b' = bid b" "bmem b' = bmem b" "node_matches ns b'"
    and ns: "ns = (mChunks s)[bid b := n]" "tree_eq (mChunks s ! bid b) n"
      "mn_left n = mn_left (mChunks s ! bid b)" "mn_right n = mn_right (mChunks s ! bid b)"
  shows "struct_rep (s\<lparr>mChunks := ns\<rparr>) (A @ b' # B)"
proof -
  note r = struct_repD [OF rep]
  have same: "same_trees (mChunks s) ns"
    unfolding ns(1) using ns(2) by (intro same_trees_upd) auto
  have len: "bid b < length (mChunks s)" using r(4) [of b] by simp
  have ids: "all_ids (A @ b' # B) = all_ids (A @ b # B)"
    by (simp add: bids_def b')
  have dis: "bid b \<notin> bid ` set A" "bid b \<notin> bid ` set B"
    using r(2) by auto
  have seg: "dseg (mChunks s) None A (Some (bid b))" "dseg (mChunks s) (Some (bid b)) B None"
    "mn_left (mChunks s ! bid b) = last_id None A" "mn_right (mChunks s ! bid b) = first_id B None"
    using r(5) by (simp_all add: dseg_append)
  have "dseg ns None (A @ b' # B) None"
    using seg dis len ns(3,4) b' unfolding ns(1) by (simp add: dseg_append dseg_upd_other)
  moreover have "kids_rep ns (mn_children (ns ! bid x)) (bmem x)" if "x \<in> set (A @ b' # B)" for x
  proof (cases "x = b'")
    case True
    then show ?thesis using same_trees_kids [OF same r(8) [of b]] b' by simp
  next
    case False
    then show ?thesis using that same_trees_kids [OF same r(8) [of x]] by simp
  qed
  moreover have "mHead s = first_id (A @ b' # B) None" "mTail s = last_id None (A @ b' # B)"
    using r(6,7) b'(1) by (simp_all add: first_id_append last_id_append)
  ultimately show ?thesis
    using r(1,3) ids by (simp add: struct_rep_def ns(1))
qed

lemma struct_rep_set_usage:
  assumes "struct_rep s (A @ b # B)"
  shows "struct_rep (upd_node (bid b) (\<lambda>n. n\<lparr>mn_usage := u\<rparr>) s)
           (A @ Block (bid b) (bsize b) u (bmem b) # B)"
  unfolding upd_node_def
  using struct_repD(4,5) [OF assms]
  by (intro struct_rep_block [OF assms _ _ _ refl]) (simp_all add: node_matches_def dseg_append)

lemma struct_rep_set_size:
  assumes "struct_rep s (A @ b # B)"
  shows "struct_rep (upd_node (bid b) (\<lambda>n. n\<lparr>mn_size := k\<rparr>) s)
           (A @ Block (bid b) k (bused b) (bmem b) # B)"
  unfolding upd_node_def
  using struct_repD(4,5) [OF assms]
  by (intro struct_rep_block [OF assms _ _ _ refl]) (simp_all add: node_matches_def dseg_append)

text \<open>Fields outside the structure do not matter.\<close>

lemma struct_rep_fields [simp]:
  "struct_rep (s\<lparr>mFreeList := f\<rparr>) bl = struct_rep s bl"
  "struct_rep (s\<lparr>mBarrier := b\<rparr>) bl = struct_rep s bl"
  "struct_rep (s\<lparr>mBarrierFreeChunks := c\<rparr>) bl = struct_rep s bl"
  "struct_rep (s\<lparr>mTotalSize := k\<rparr>) bl = struct_rep s bl"
  "struct_rep (insertFree i s) bl = struct_rep s bl"
  "struct_rep (eraseFree i s) bl = struct_rep s bl"
  by (simp_all add: struct_rep_def insertFree_def eraseFree_def)

lemma struct_rep_create:
  assumes "struct_rep s bl" "createMemNode k s = (c, s')"
  shows "struct_rep s' bl" "c = length (mChunks s)" "mChunks s' = mChunks s @ [newMemNode k]"
    "c \<notin> set (all_ids bl)"
proof -
  note r = struct_repD [OF assms(1)]
  show c: "c = length (mChunks s)" and ns: "mChunks s' = mChunks s @ [newMemNode k]"
    using assms(2) by (auto simp: createMemNode_def)
  show "c \<notin> set (all_ids bl)" using r(3) c by blast
  have "dseg (mChunks s') None bl None"
    using r(5) dseg_cong [of bl "mChunks s'" "mChunks s"] r(4) by (simp add: ns nth_append)
  moreover have "kids_rep (mChunks s') (mn_children (mChunks s' ! bid b)) (bmem b)" if "b \<in> set bl" for b
  proof -
    have "i < length (mChunks s)" if "i \<in> fst ` set (bmem b)" for i
      using r(3) mem_in_all_ids [OF \<open>b \<in> set bl\<close> that] by blast
    then show ?thesis
      using r(4) [OF that]
      by (intro kids_rep_cong [OF r(8) [OF that], THEN back_subst [where P = "\<lambda>k. kids_rep _ k _"]])
        (simp_all add: ns nth_append tree_eq_def)
  qed
  moreover have "mHead s' = mHead s" "mTail s' = mTail s"
    using assms(2) by (auto simp: createMemNode_def)
  ultimately show "struct_rep s' bl"
    using r by (auto simp: struct_rep_def ns less_Suc_eq)
qed

text \<open>Linking a fresh node behind a block, or at the end of the list.\<close>

lemma struct_rep_insert_after:
  assumes rep: "struct_rep s (A @ b # B)"
    and c: "c \<notin> set (all_ids (A @ b # B))" "c < length (mChunks s)"
    and nc: "mn_children (mChunks s ! c) = []" "node_matches (mChunks s) (Block c k u [])"
  shows "struct_rep (insert_after c (Some (bid b)) s) (A @ b # Block c k u [] # B)"
proof -
  note r = struct_repD [OF rep]
  let ?s' = "insert_after c (Some (bid b)) s"
  let ?R = "first_id B None"
  let ?upR = "\<lambda>ns. (case ?R of None \<Rightarrow> ns | Some x \<Rightarrow> ns[x := (ns ! x)\<lparr>mn_left := Some c\<rparr>])"
  let ?n1 = "?upR (mChunks s)"
  let ?n2 = "?n1[c := (?n1 ! c)\<lparr>mn_right := ?R\<rparr>]"
  let ?n3 = "?n2[c := (?n2 ! c)\<lparr>mn_left := Some (bid b)\<rparr>]"
  let ?n4 = "?n3[bid b := (?n3 ! bid b)\<lparr>mn_right := Some c\<rparr>]"
  have seg: "dseg (mChunks s) None (A @ [b]) ?R" "dseg (mChunks s) (Some (bid b)) B None"
    "mn_right (mChunks s ! bid b) = ?R"
    using r(5) by (simp_all add: dseg_append)
  have ids: "bid b < length (mChunks s)" "c \<noteq> bid b" "c \<notin> bid ` set A" "c \<notin> bid ` set B"
    "bid b \<notin> bid ` set A" "bid b \<notin> bid ` set B" "distinct (map bid (A @ [b]))" "distinct (map bid B)"
    using r(2,4) c(1) bid_in_all_ids [of _ "A @ b # B"] by auto
  have n4: "mChunks ?s' = ?n4"
    by (cases B) (simp_all add: insert_after_def Let_def seg(3))
  have s1: "dseg ?n1 (Some c) B None" and s1A: "dseg ?n1 None (A @ [b]) ?R"
  proof -
    show "dseg ?n1 (Some c) B None"
      using dseg_set_left [of "mChunks s" "Some (bid b)" _ _ None "Some c"] seg(2) ids(8) r(4)
      by (cases B) (simp_all del: dseg.simps(2))
    have "bid (hd B) \<notin> bid ` set (A @ [b])" if "B \<noteq> []"
      using r(2) that by (cases B) auto
    then show "dseg ?n1 None (A @ [b]) ?R"
      using seg(1) by (cases B) (simp_all add: dseg_upd_other)
  qed
  have len1: "length ?n1 = length (mChunks s)" by (cases B) simp_all
  have c1: "?n1 ! c = mChunks s ! c" using ids(4) by (cases B) auto
  have "dseg ?n3 (Some c) B None" "dseg ?n3 None (A @ [b]) ?R"
    using s1 s1A ids(2-4) by (simp_all add: dseg_upd_other)
  then have "dseg ?n4 (Some c) B None" "dseg ?n4 None (A @ [b]) (Some c)"
    using ids len1 dseg_set_right [of ?n3 None A b ?R "Some c"] by (simp_all add: dseg_upd_other)
  moreover have "?n4 ! c = (mChunks s ! c)\<lparr>mn_right := ?R, mn_left := Some (bid b)\<rparr>"
    using ids(2) c(2) len1 c1 by simp
  ultimately have dseg4: "dseg ?n4 None (A @ b # Block c k u [] # B) None"
    using nc(2) by (simp add: dseg_append node_matches_def)
  have "same_trees (mChunks s) ?n1"
    by (cases B) (auto intro: same_trees_upd)
  then have same: "same_trees (mChunks s) ?n4"
    by (intro same_trees_upd) (auto simp: tree_eq_def)
  have kids: "kids_rep ?n4 (mn_children (?n4 ! bid x)) (bmem x)"
    if "x \<in> set (A @ b # Block c k u [] # B)" for x
  proof (cases "x = Block c k u []")
    case True
    then show ?thesis using same nc(1) kids_Nil by (simp add: same_trees_def tree_eq_def)
  next
    case False
    then show ?thesis using that same_trees_kids [OF same r(8)] by auto
  qed
  have ht: "mHead ?s' = first_id (A @ b # Block c k u [] # B) None"
    "mTail ?s' = last_id None (A @ b # Block c k u [] # B)"
  proof -
    have "mTail s = Some (bid b) \<longleftrightarrow> B = []"
      using r(7) ids(6) by (cases B rule: rev_cases) (auto simp: last_id_append)
    then show "mTail ?s' = last_id None (A @ b # Block c k u [] # B)"
      using r(7) by (cases B rule: rev_cases)
        (auto simp: insert_after_def Let_def last_id_append split: option.splits)
    show "mHead ?s' = first_id (A @ b # Block c k u [] # B) None"
      using r(6) by (auto simp: insert_after_def Let_def first_id_append split: option.splits)
  qed
  show ?thesis
    using dseg4 kids ht r(1,3) c len1 unfolding struct_rep_def n4 by auto
qed

lemma struct_rep_insert_tail:
  assumes rep: "struct_rep s bl"
    and c: "c \<notin> set (all_ids bl)" "c < length (mChunks s)"
    and nc: "mn_children (mChunks s ! c) = []" "node_matches (mChunks s) (Block c k u [])"
      "mn_left (mChunks s ! c) = None" "mn_right (mChunks s ! c) = None"
  shows "struct_rep (insert_after c None s) (bl @ [Block c k u []])"
proof (cases bl rule: rev_cases)
  case Nil
  then show ?thesis
    using struct_repD(6,7) [OF rep] c nc kids_Nil
    by (simp add: insert_after_def struct_rep_def)
next
  case (snoc A b)
  note r = struct_repD [OF rep]
  let ?s' = "insert_after c None s"
  let ?n1 = "(mChunks s)[bid b := (mChunks s ! bid b)\<lparr>mn_right := Some c\<rparr>]"
  let ?n2 = "?n1[c := (?n1 ! c)\<lparr>mn_left := Some (bid b)\<rparr>]"
  have tl: "mTail s = Some (bid b)" using r(7) snoc by simp
  have n2: "mChunks ?s' = ?n2" "mTail ?s' = Some c" "mHead ?s' = mHead s"
    by (simp_all add: insert_after_def tl Let_def)
  have ids: "c \<notin> bid ` set (A @ [b])" "bid b < length (mChunks s)" "distinct (map bid (A @ [b]))"
    using c(1) r(2,4) bid_in_all_ids [of _ bl] snoc by auto
  have "dseg ?n1 None (A @ [b]) (Some c)"
    using dseg_set_right [of "mChunks s" None A b None "Some c"] r(5) ids snoc by simp
  then have "dseg ?n2 None (A @ [b]) (Some c)"
    using ids(1) by (simp add: dseg_upd_other)
  then have seg: "dseg ?n2 None (bl @ [Block c k u []]) None"
    using snoc nc c(2) ids(1) by (simp add: dseg_append node_matches_def)
  have same: "same_trees (mChunks s) ?n2"
    by (intro same_trees_upd) (auto simp: tree_eq_def)
  have "kids_rep ?n2 (mn_children (?n2 ! bid x)) (bmem x)" if "x \<in> set (bl @ [Block c k u []])" for x
  proof (cases "x = Block c k u []")
    case True
    then show ?thesis using same nc(1) kids_Nil by (simp add: same_trees_def tree_eq_def)
  next
    case False
    then show ?thesis using that same_trees_kids [OF same r(8)] by auto
  qed
  then show ?thesis
    using seg r(1,3,6) c n2 snoc unfolding struct_rep_def n2
    by (auto simp: first_id_append last_id_append)
qed

text \<open>Fusing a block into its left neighbour.\<close>

lemma struct_rep_fuse:
  assumes rep: "struct_rep s (A @ l # r # B)"
  shows "fst (fuse_to_left (bid l) (bid r) s) = bid l"
    and "struct_rep (snd (fuse_to_left (bid l) (bid r) s)) (A @ fuse_blocks l r # B)"
proof -
  show "fst (fuse_to_left (bid l) (bid r) s) = bid l"
    by (simp add: fuse_to_left_def Let_def)
  note d = struct_repD [OF rep]
  let ?s' = "snd (fuse_to_left (bid l) (bid r) s)"
  let ?R = "first_id B None"
  let ?ns = "mChunks s"
  let ?n1 = "?ns[bid r := (?ns ! bid r)\<lparr>mn_offset := mn_size (?ns ! bid l)\<rparr>]"
  let ?n2 = "?n1[bid l := (?n1 ! bid l)\<lparr>mn_size := mn_size (?n1 ! bid l) + mn_size (?n1 ! bid r)\<rparr>]"
  let ?n3 = "?n2[bid l := (?n2 ! bid l)\<lparr>mn_children := mn_children (?n2 ! bid l) @ [bid r]\<rparr>]"
  let ?n4 = "?n3[bid l := (?n3 ! bid l)\<lparr>mn_right := ?R\<rparr>]"
  define n5 where "n5 = (case ?R of None \<Rightarrow> ?n4 | Some x \<Rightarrow> ?n4[x := (?n4 ! x)\<lparr>mn_left := Some (bid l)\<rparr>])"
  have ids: "bid l < length ?ns" "bid r < length ?ns" "bid l \<noteq> bid r"
    "bid l \<notin> bid ` set A" "bid r \<notin> bid ` set A" "bid l \<notin> bid ` set B" "bid r \<notin> bid ` set B"
    "distinct (map bid B)"
    using d(2,4) by auto
  have hdB: "bid (hd B) \<notin> bid ` set A" "bid (hd B) \<noteq> bid l" "bid (hd B) \<noteq> bid r" if "B \<noteq> []"
    using d(2) that by (cases B; auto)+
  have seg: "dseg ?ns None A (Some (bid l))" "dseg ?ns (Some (bid r)) B None"
    "node_matches ?ns l" "node_matches ?ns r"
    "mn_left (?ns ! bid l) = last_id None A" "mn_left (?ns ! bid r) = Some (bid l)"
    "mn_right (?ns ! bid r) = ?R"
    using d(5) by (simp_all add: dseg_append)
  have n5: "mChunks ?s' = n5"
    using seg(6,7) ids(1-3)
    by (cases B) (simp_all add: n5_def fuse_to_left_def erase_node_def Let_def)
  have len: "length n5 = length ?ns" by (cases B) (simp_all add: n5_def)
  have l5: "n5 ! bid l = (?ns ! bid l)\<lparr>mn_size := bsize l + bsize r,
      mn_children := mn_children (?ns ! bid l) @ [bid r], mn_right := ?R\<rparr>"
    using ids(1-3) hdB(2) seg(3,4) by (cases B) (auto simp: n5_def node_matches_def)
  have r5: "n5 ! bid r = (?ns ! bid r)\<lparr>mn_offset := bsize l\<rparr>"
    using ids(1-3) hdB(3) seg(3) by (cases B) (auto simp: n5_def node_matches_def)
  have oth: "tree_eq (?ns ! i) (n5 ! i)" if "i \<noteq> bid l" "i \<noteq> bid r" for i
    using that by (cases B; cases "i = bid (hd B)"; cases "i < length ?ns")
      (auto simp: n5_def tree_eq_def list_update_beyond)
  have segA: "dseg n5 None A (Some (bid l))"
    using seg(1) ids hdB(1) by (cases B) (simp_all add: n5_def dseg_upd_other)
  have segB: "dseg n5 (Some (bid l)) B None"
  proof -
    have "dseg ?n4 (Some (bid r)) B None"
      using seg(2) ids by (simp add: dseg_upd_other)
    then show ?thesis
      using dseg_set_left [of ?n4 "Some (bid r)" _ _ None "Some (bid l)"] ids(8) d(4)
      by (cases B) (simp_all add: n5_def del: dseg.simps(2))
  qed
  have dseg5: "dseg n5 None (A @ fuse_blocks l r # B) None"
    using segA segB l5 seg(3,5) by (simp add: dseg_append fuse_blocks_def node_matches_def)
  have mem: "bid l \<notin> fst ` set (bmem x)" "bid r \<notin> fst ` set (bmem x)"
    if "x \<in> set (A @ l # r # B)" for x
  proof -
    have "distinct (bids l @ bids r)" using d(1) by auto
    then show "bid l \<notin> fst ` set (bmem x)" "bid r \<notin> fst ` set (bmem x)"
      using d(1) that mem_in_all_ids [of x A] mem_in_all_ids [of x B] by (auto simp: bids_def)
  qed
  have old: "kids_rep n5 (mn_children (?ns ! bid x)) (bmem x)" if "x \<in> set (A @ l # r # B)" for x
    by (rule kids_rep_cong [OF d(8) [OF that]]) (use mem [OF that] oth in metis)
  have kids: "kids_rep n5 (mn_children (n5 ! bid x)) (bmem x)"
    if x: "x \<in> set (A @ fuse_blocks l r # B)" for x
  proof (cases "x = fuse_blocks l r")
    case True
    have "kids_rep n5 (mn_children (n5 ! bid r)) (bmem r)"
      using old [of r] r5 by simp
    then have "kids_rep n5 [bid r] ((bid r, bsize l) # shift_mem (bsize l) (bmem r) @ [])"
      using kids_Cons [OF _ kids_Nil, of n5 "bid r" "bmem r"] r5 by simp
    then show ?thesis
      using kids_rep_append [OF old [of l]] l5 True by (simp add: fuse_blocks_def)
  next
    case False
    then have x': "x \<in> set A \<or> x \<in> set B" using x by auto
    then have "bid x \<in> bid ` set A \<or> bid x \<in> bid ` set B" by blast
    then have "bid x \<noteq> bid l" "bid x \<noteq> bid r" using ids(4-7) by metis+
    moreover have "x \<in> set (A @ l # r # B)" using x' by auto
    ultimately show ?thesis using old [of x] oth [of "bid x"] by (simp add: tree_eq_def)
  qed
  have ht: "mHead ?s' = first_id (A @ fuse_blocks l r # B) None"
    "mTail ?s' = last_id None (A @ fuse_blocks l r # B)"
    using d(6,7) seg(6,7) ids(1-3)
    by (cases B; simp add: fuse_to_left_def erase_node_def Let_def first_id_append last_id_append
          fuse_blocks_def)+
  show "struct_rep ?s' (A @ fuse_blocks l r # B)"
    using dseg5 kids ht d(1,3) len unfolding struct_rep_def n5
    by (auto simp: bids_fuse_blocks)
qed

text \<open>A node that no block mentions may change freely.\<close>

lemma kids_rep_update_other:
  assumes "kids_rep ns cs ms" "i \<notin> fst ` set ms"
  shows "kids_rep (ns[i := n]) cs ms"
proof (rule kids_rep_cong [OF assms(1)])
  fix j
  assume "j \<in> fst ` set ms"
  then have "i \<noteq> j" using assms(2) by blast
  then show "tree_eq (ns ! j) (ns[i := n] ! j)" by (simp add: tree_eq_def)
qed

lemma struct_rep_upd_fresh:
  assumes rep: "struct_rep s bl" and c: "c \<notin> set (all_ids bl)"
  shows "struct_rep (upd_node c f s) bl"
proof -
  note r = struct_repD [OF rep]
  have "c \<notin> bid ` set bl" using c bid_in_all_ids by blast
  moreover have "kids_rep ((mChunks s)[c := n]) (mn_children ((mChunks s)[c := n] ! bid b)) (bmem b)"
    if b: "b \<in> set bl" for b n
  proof -
    have "c \<noteq> bid b" "c \<notin> fst ` set (bmem b)"
      using c b bid_in_all_ids mem_in_all_ids by blast+
    then show ?thesis using kids_rep_update_other [OF r(8) [OF b]] by simp
  qed
  ultimately show ?thesis using r by (simp add: struct_rep_def dseg_upd_other)
qed

lemma insert_after_simps [simp]:
  "mFreeList (insert_after c p s) = mFreeList s" "mAlign (insert_after c p s) = mAlign s"
  "mBarrier (insert_after c p s) = mBarrier s" "mTotalSize (insert_after c p s) = mTotalSize s"
  "mBarrierFreeChunks (insert_after c p s) = mBarrierFreeChunks s"
  "length (mChunks (insert_after c p s)) = length (mChunks s)"
  by (auto simp: insert_after_def Let_def split: option.splits)

end
