(* ===== verification/DeferPlan.thy ===== *)
theory DeferPlan
  imports DeferRefine
begin

text \<open>
  What \<open>alloc\<close> and \<open>free\<close> of \<open>DeferBufferAllocator\<close> do to the list of blocks: the relation
  \<open>plan_alloc\<close> and the function \<open>free_at\<close> are the abstract allocator, and \<open>defer_alloc_refines\<close>,
  \<open>defer_free_refines\<close> show that the code's list surgery and free index implement it. The
  invariant \<open>defer_inv\<close> adds to \<open>struct_rep\<close> that the free index holds exactly the unused blocks,
  sorted by size, and that no two neighbours are both unused.
\<close>

section \<open>The abstract allocator\<close>

inductive plan_alloc :: "block list \<Rightarrow> nat \<Rightarrow> nat \<Rightarrow> block list \<Rightarrow> bool" where
  plan_tail: "c \<notin> set (all_ids bl) \<Longrightarrow> plan_alloc bl k c (bl @ [Block c k True []])"
| plan_reuse: "\<not> bused b \<Longrightarrow> bsize b \<le> k \<Longrightarrow>
     plan_alloc (A @ b # B) k (bid b) (A @ Block (bid b) k True (bmem b) # B)"
| plan_split: "\<not> bused b \<Longrightarrow> k < bsize b \<Longrightarrow> c \<notin> set (all_ids (A @ b # B)) \<Longrightarrow>
     plan_alloc (A @ b # B) k (bid b)
       (A @ Block (bid b) k True (bmem b) # Block c (bsize b - k) False [] # B)"

definition fuse_left :: "block list \<Rightarrow> block \<Rightarrow> block list \<times> block" where
  "fuse_left A b =
     (if A \<noteq> [] \<and> \<not> bused (last A) then (butlast A, fuse_blocks (last A) b) else (A, b))"

definition fuse_right :: "block \<Rightarrow> block list \<Rightarrow> block \<times> block list" where
  "fuse_right b B =
     (case B of [] \<Rightarrow> (b, []) | r # B' \<Rightarrow> if bused r then (b, B) else (fuse_blocks b r, B'))"

definition mark_free :: "block \<Rightarrow> block" where
  "mark_free b = Block (bid b) (bsize b) False (bmem b)"

definition free_at :: "block list \<Rightarrow> block \<Rightarrow> block list \<Rightarrow> block list" where
  "free_at A b B =
     (let (A', b1) = fuse_left A b; (b2, B') = fuse_right b1 B in A' @ mark_free b2 # B')"

section \<open>The invariant\<close>

definition free_ids :: "block list \<Rightarrow> nat list" where
  "free_ids bl = map bid (filter (\<lambda>b. \<not> bused b) bl)"

definition no_free_pair :: "block list \<Rightarrow> bool" where
  "no_free_pair = successively (\<lambda>a b. bused a \<or> bused b)"

definition defer_inv :: "DeferAlloc \<Rightarrow> block list \<Rightarrow> bool" where
  "defer_inv s bl \<longleftrightarrow>
     struct_rep s bl \<and> mset (mFreeList s) = mset (free_ids bl) \<and>
     sorted_by (node_size s) (mFreeList s) \<and> no_free_pair bl"

lemma free_ids_simps [simp]:
  "free_ids [] = []"
  "free_ids (b # bl) = (if bused b then free_ids bl else bid b # free_ids bl)"
  "free_ids (A @ B) = free_ids A @ free_ids B"
  by (simp_all add: free_ids_def)

lemma free_idsE: "x \<in> set (free_ids bl) \<Longrightarrow> \<exists>b \<in> set bl. \<not> bused b \<and> x = bid b"
  by (auto simp: free_ids_def)

lemma free_ids_subset: "set (free_ids bl) \<subseteq> bid ` set bl"
  by (auto simp: free_ids_def)

lemma defer_inv_new: "defer_inv (newDefer b a) []"
  by (simp add: defer_inv_def no_free_pair_def sorted_by_def newDefer_def struct_rep_def)

lemma struct_rep_size:
  assumes "struct_rep s bl" "b \<in> set bl"
  shows "node_size s (bid b) = bsize b" "mn_usage (mChunks s ! bid b) = bused b"
proof -
  obtain A B where "bl = A @ b # B"
    using assms(2) by (meson split_list)
  then have "node_matches (mChunks s) b"
    using struct_repD(5) [OF assms(1)] by (simp add: dseg_append)
  then show "node_size s (bid b) = bsize b" "mn_usage (mChunks s ! bid b) = bused b"
    by (simp_all add: node_matches_def node_size_def)
qed

lemma node_size_fields [simp]:
  "node_size (s\<lparr>mFreeList := F\<rparr>) = node_size s"
  "node_size (insertFree i s) = node_size s"
  by (simp_all add: node_size_def insertFree_def fun_eq_iff)

lemma sorted_by_transfer:
  assumes "struct_rep s bl" "struct_rep s' bl'" "set F \<subseteq> bid ` (set bl \<inter> set bl')"
  shows "sorted_by (node_size s) F = sorted_by (node_size s') F"
proof (rule sorted_by_cong)
  fix x
  assume "x \<in> set F"
  then obtain b where "b \<in> set bl" "b \<in> set bl'" "x = bid b" using assms(3) by auto
  then show "node_size s x = node_size s' x" using assms(1,2) struct_rep_size by metis
qed

lemma struct_rep_links:
  assumes "struct_rep s (A @ b # B)"
  shows "mn_left (mChunks s ! bid b) = last_id None A" "mn_right (mChunks s ! bid b) = first_id B None"
  using struct_repD(5) [OF assms] by (simp_all add: dseg_append)

section \<open>Freeing\<close>

text \<open>The two halves of \<open>free\<close>: fusing with an unused left, then with an unused right neighbour.\<close>

lemma free_left_phase:
  assumes rep: "struct_rep s (A @ b # B)"
    and F: "mset (mFreeList s) = mset (free_ids (A @ B))" "sorted_by (node_size s) (mFreeList s)"
    and res: "(n1, s1) = (case last_id None A of
               Some l \<Rightarrow> (if \<not> mn_usage (mChunks s ! l)
                          then fuse_to_left l (bid b) (eraseFree l s) else (bid b, s))
             | None \<Rightarrow> (bid b, s))"
    and A1: "fuse_left A b = (A1, b1)"
  shows "n1 = bid b1 \<and> struct_rep s1 (A1 @ b1 # B) \<and>
     mset (mFreeList s1) = mset (free_ids (A1 @ B)) \<and> sorted_by (node_size s1) (mFreeList s1)"
proof (cases "A \<noteq> [] \<and> \<not> bused (last A)")
  case False
  then have "A1 = A" "b1 = b" using A1 by (auto simp: fuse_left_def)
  moreover have "n1 = bid b" "s1 = s"
    using False res struct_rep_size(2) [OF rep, of "last A"] by (auto simp: last_id_def split: if_splits)
  ultimately show ?thesis
    using rep F by simp
next
  case True
  then obtain C l where A: "A = C @ [l]" and l: "\<not> bused l"
    by (metis append_butlast_last_id)
  have b1: "A1 = C" "b1 = fuse_blocks l b" using A1 A l by (auto simp: fuse_left_def)
  have use: "\<not> mn_usage (mChunks s ! bid l)"
    using struct_rep_size(2) [OF rep, of l] A l by simp
  let ?s0 = "eraseFree (bid l) s"
  have rep0: "struct_rep ?s0 (C @ l # b # B)" using rep A by simp
  have s1: "n1 = bid l" "s1 = snd (fuse_to_left (bid l) (bid b) ?s0)"
    using res A use struct_rep_fuse(1) [OF rep0] by (simp_all add: prod_eq_iff)
  have rep1: "struct_rep s1 (C @ fuse_blocks l b # B)"
    unfolding s1(2) by (rule struct_rep_fuse(2) [OF rep0])
  have inF: "bid l \<in> set (mFreeList s)"
    using F(1) A l by (metis free_ids_simps list.set_intros(1) mset_eq_setD set_append UnCI)
  have fl: "mFreeList s1 = remove1 (bid l) (mFreeList s)"
    using index_erase_remove1 [OF F(2) inF]
    by (simp add: s1(2) fuse_to_left_def erase_node_def Let_def eraseFree_def split: option.splits)
  have ms: "mset (mFreeList s1) = mset (free_ids (C @ B))"
    using F(1) A l by (simp add: fl)
  then have "set (mFreeList s1) \<subseteq> bid ` (set (A @ b # B) \<inter> set (C @ fuse_blocks l b # B))"
    using free_ids_subset [of "C @ B"] mset_eq_setD [OF ms] A by auto
  then have "sorted_by (node_size s1) (mFreeList s1)"
    by (metis fl sorted_by_remove1 [OF F(2)] sorted_by_transfer [OF rep rep1])
  then show ?thesis
    using rep1 s1(1) ms A b1 by (simp add: fuse_blocks_def)
qed

lemma free_right_phase:
  assumes rep: "struct_rep s (A @ b # B)"
    and F: "mset (mFreeList s) = mset (free_ids (A @ B))" "sorted_by (node_size s) (mFreeList s)"
    and res: "(n1, s1) = (case first_id B None of
               Some r \<Rightarrow> (if \<not> mn_usage (mChunks s ! r)
                          then fuse_to_left (bid b) r (eraseFree r s) else (bid b, s))
             | None \<Rightarrow> (bid b, s))"
    and B1: "fuse_right b B = (b1, B1)"
  shows "n1 = bid b1 \<and> struct_rep s1 (A @ b1 # B1) \<and>
     mset (mFreeList s1) = mset (free_ids (A @ B1)) \<and> sorted_by (node_size s1) (mFreeList s1)"
proof (cases "B \<noteq> [] \<and> \<not> bused (hd B)")
  case False
  then have "B1 = B" "b1 = b" using B1 by (auto simp: fuse_right_def split: list.splits)
  moreover have "n1 = bid b" "s1 = s"
    using False res struct_rep_size(2) [OF rep, of "hd B"] by (cases B; auto)+
  ultimately show ?thesis
    using rep F by simp
next
  case True
  then obtain r D where B: "B = r # D" and r: "\<not> bused r" by (cases B) auto
  have b1: "B1 = D" "b1 = fuse_blocks b r" using B1 B r by (auto simp: fuse_right_def)
  have use: "\<not> mn_usage (mChunks s ! bid r)"
    using struct_rep_size(2) [OF rep, of r] B r by simp
  let ?s0 = "eraseFree (bid r) s"
  have rep0: "struct_rep ?s0 (A @ b # r # D)" using rep B by simp
  have s1: "n1 = bid b" "s1 = snd (fuse_to_left (bid b) (bid r) ?s0)"
    using res B use struct_rep_fuse(1) [OF rep0] by (simp_all add: prod_eq_iff)
  have rep1: "struct_rep s1 (A @ fuse_blocks b r # D)"
    unfolding s1(2) by (rule struct_rep_fuse(2) [OF rep0])
  have inF: "bid r \<in> set (mFreeList s)"
    using F(1) B r by (metis free_ids_simps list.set_intros(1) mset_eq_setD set_append UnCI)
  have fl: "mFreeList s1 = remove1 (bid r) (mFreeList s)"
    using index_erase_remove1 [OF F(2) inF]
    by (simp add: s1(2) fuse_to_left_def erase_node_def Let_def eraseFree_def split: option.splits)
  have ms: "mset (mFreeList s1) = mset (free_ids (A @ D))"
    using F(1) B r by (simp add: fl)
  then have "set (mFreeList s1) \<subseteq> bid ` (set (A @ b # B) \<inter> set (A @ fuse_blocks b r # D))"
    using free_ids_subset [of "A @ D"] mset_eq_setD [OF ms] B by auto
  then have "sorted_by (node_size s1) (mFreeList s1)"
    by (metis fl sorted_by_remove1 [OF F(2)] sorted_by_transfer [OF rep rep1])
  then show ?thesis
    using rep1 s1(1) ms B b1 by (simp add: fuse_blocks_def)
qed

text \<open>A released block leaves no two unused neighbours.\<close>

lemma no_free_pair_free_at:
  assumes "no_free_pair (A @ b # B)"
  shows "no_free_pair (free_at A b B)"
proof -
  have AB: "no_free_pair A" "no_free_pair B"
    using assms by (cases B; simp add: no_free_pair_def successively_append_iff successively_Cons)+
  obtain A' b1 where l: "fuse_left A b = (A', b1)" by fastforce
  obtain b2 B' where r: "fuse_right b1 B = (b2, B')" by fastforce
  have A': "no_free_pair A'" "A' \<noteq> [] \<Longrightarrow> bused (last A')"
  proof -
    have "A' = A \<or> A = A' @ [last A]" using l by (auto simp: fuse_left_def split: if_splits)
    then show "no_free_pair A'" using AB(1) unfolding no_free_pair_def
      by (metis successively_append_iff)
    show "bused (last A')" if "A' \<noteq> []"
    proof (cases "A \<noteq> [] \<and> \<not> bused (last A)")
      case True
      then have "A = A' @ [last A]" using l by (auto simp: fuse_left_def)
      then show ?thesis using AB(1) True that unfolding no_free_pair_def
        by (metis list.sel(1) not_Cons_self2 successively_append_iff)
    next
      case False
      then show ?thesis using l that by (auto simp: fuse_left_def split: if_splits)
    qed
  qed
  have B': "no_free_pair B'" "B' \<noteq> [] \<Longrightarrow> bused (hd B')"
    using AB(2) r
    by (auto simp: fuse_right_def no_free_pair_def successively_Cons split: list.splits if_splits)
  show ?thesis
    using l r A' B'
    by (cases B') (auto simp: free_at_def no_free_pair_def mark_free_def successively_append_iff successively_Cons)
qed

theorem free_node_refines:
  assumes inv: "defer_inv s (A @ b # B)" and used: "bused b"
  shows "defer_inv (free_node (bid b) s) (free_at A b B)"
proof -
  have rep: "struct_rep s (A @ b # B)"
    and F: "mset (mFreeList s) = mset (free_ids (A @ B))" "sorted_by (node_size s) (mFreeList s)"
    using inv used by (simp_all add: defer_inv_def)
  note lk = struct_rep_links [OF rep]
  define q1 where "q1 = (case last_id None A of
               Some l \<Rightarrow> (if \<not> mn_usage (mChunks s ! l)
                          then fuse_to_left l (bid b) (eraseFree l s) else (bid b, s))
             | None \<Rightarrow> (bid b, s))"
  obtain n1 s1 where e1: "(n1, s1) = q1" by (metis surj_pair)
  obtain A1 b1 where l: "fuse_left A b = (A1, b1)" by fastforce
  from free_left_phase [OF rep F e1 [unfolded q1_def] l]
  have p1: "n1 = bid b1" "struct_rep s1 (A1 @ b1 # B)"
    "mset (mFreeList s1) = mset (free_ids (A1 @ B))" "sorted_by (node_size s1) (mFreeList s1)"
    by blast+
  define q2 where "q2 = (case first_id B None of
               Some r \<Rightarrow> (if \<not> mn_usage (mChunks s1 ! r)
                          then fuse_to_left (bid b1) r (eraseFree r s1) else (bid b1, s1))
             | None \<Rightarrow> (bid b1, s1))"
  obtain n2 s2 where e2: "(n2, s2) = q2" by (metis surj_pair)
  obtain b2 B1 where r: "fuse_right b1 B = (b2, B1)" by fastforce
  from free_right_phase [OF p1(2-4) e2 [unfolded q2_def] r]
  have p2: "n2 = bid b2" "struct_rep s2 (A1 @ b2 # B1)"
    "mset (mFreeList s2) = mset (free_ids (A1 @ B1))" "sorted_by (node_size s2) (mFreeList s2)"
    by blast+
  let ?s3 = "upd_node (bid b2) (\<lambda>n. n\<lparr>mn_usage := False\<rparr>) s2"
  have eq: "free_node (bid b) s = insertFree (bid b2) ?s3"
    unfolding free_node_def Let_def lk q1_def [symmetric] e1 [symmetric] prod.case p1(1)
      q2_def [symmetric] e2 [symmetric] p2(1) ..
  have fa: "free_at A b B = A1 @ mark_free b2 # B1"
    by (simp add: free_at_def l r)
  have rep3: "struct_rep ?s3 (A1 @ mark_free b2 # B1)"
    unfolding mark_free_def by (rule struct_rep_set_usage [OF p2(2)])
  have "set (mFreeList s2) \<subseteq> bid ` (set (A1 @ b2 # B1) \<inter> set (A1 @ mark_free b2 # B1))"
    using free_ids_subset [of "A1 @ B1"] mset_eq_setD [OF p2(3)] by auto
  then have "sorted_by (node_size ?s3) (mFreeList s2)"
    using sorted_by_transfer [OF p2(2) rep3] p2(4) by simp
  then have "sorted_by (node_size ?s3) (index_insert (node_size ?s3) (bid b2) (mFreeList s2))"
    by (rule sorted_by_insert)
  then show ?thesis
    using rep3 p2(3) no_free_pair_free_at [of A b B] inv
    by (simp add: eq fa defer_inv_def insertFree_def mark_free_def)
qed

section \<open>Allocating\<close>

lemma defer_alloc_tail_refines:
  assumes inv: "defer_inv s bl"
    and res: "createMemNode k s = (c, s1)" "s' = insert_after c None s1"
  shows "plan_alloc bl k c (bl @ [Block c k True []])" "defer_inv s' (bl @ [Block c k True []])"
proof -
  have rep: "struct_rep s bl" using inv by (simp add: defer_inv_def)
  note cr = struct_rep_create [OF rep res(1)]
  show "plan_alloc bl k c (bl @ [Block c k True []])"
    by (rule plan_tail) (rule cr(4))
  have rep': "struct_rep s' (bl @ [Block c k True []])"
    unfolding res(2) using cr
    by (intro struct_rep_insert_tail) (simp_all add: newMemNode_def node_matches_def)
  have fl: "mFreeList s' = mFreeList s" using res by (auto simp: createMemNode_def)
  have "set (mFreeList s) \<subseteq> bid ` (set bl \<inter> set (bl @ [Block c k True []]))"
    using inv free_ids_subset [of bl] unfolding defer_inv_def by (auto dest: mset_eq_setD)
  then have "sorted_by (node_size s') (mFreeList s)"
    using sorted_by_transfer [OF rep rep'] inv unfolding defer_inv_def by metis
  then show "defer_inv s' (bl @ [Block c k True []])"
    using rep' fl inv by (auto simp: defer_inv_def no_free_pair_def successively_append_iff)
qed

lemma defer_alloc_reuse_refines:
  assumes inv: "defer_inv s bl" and x: "x \<in> set (mFreeList s)"
    and s2: "s2 = upd_node x (\<lambda>n. n\<lparr>mn_usage := True\<rparr>) (s\<lparr>mFreeList := remove1 x (mFreeList s)\<rparr>)"
    and s3: "s3 = (if mn_size (mChunks s2 ! x) > k
                      then (let (restChunk, t1) = createMemNode (mn_size (mChunks s2 ! x) - k) s2;
                                t2 = upd_node restChunk (\<lambda>n. n\<lparr>mn_usage := False\<rparr>) t1;
                                t3 = insert_after restChunk (Some x) t2
                            in insertFree restChunk t3)
                      else s2)"
    and s4: "s4 = upd_node x (\<lambda>n. n\<lparr>mn_size := k\<rparr>) s3"
  shows "\<exists>bl'. plan_alloc bl k x bl' \<and> defer_inv s4 bl'"
proof -
  have rep: "struct_rep s bl" and F: "mset (mFreeList s) = mset (free_ids bl)"
    and srt: "sorted_by (node_size s) (mFreeList s)" and nfp: "no_free_pair bl"
    using inv by (simp_all add: defer_inv_def)
  obtain b where b: "b \<in> set bl" "\<not> bused b" "x = bid b"
    using x free_idsE mset_eq_setD [OF F] by metis
  then obtain A B where bl: "bl = A @ b # B" by (meson split_list)
  let ?bT = "Block x (bsize b) True (bmem b)"
  let ?F = "remove1 x (mFreeList s)"
  have F2: "mset ?F = mset (free_ids (A @ B))" using F b by (simp add: bl)
  have sub: "set ?F \<subseteq> bid ` (set A \<union> set B)"
    using free_ids_subset [of "A @ B"] mset_eq_setD [OF F2] by simp
  have rep2: "struct_rep s2 (A @ ?bT # B)"
    unfolding s2 b(3) by (rule struct_rep_set_usage) (use rep bl in simp)
  have fl2: "mFreeList s2 = ?F" by (simp add: s2)
  have sz: "mn_size (mChunks s2 ! x) = bsize b"
    using struct_rep_size(1) [OF rep2, of ?bT] by (simp add: node_size_def)
  have usedAB: "A \<noteq> [] \<Longrightarrow> bused (last A)" "B \<noteq> [] \<Longrightarrow> bused (hd B)"
    "no_free_pair A" "no_free_pair B"
    using nfp b(2) by (cases B; auto simp: bl no_free_pair_def successively_append_iff successively_Cons)+
  show ?thesis
  proof (cases "bsize b > k")
    case False
    let ?b' = "Block x k True (bmem b)"
    have e4: "s4 = upd_node x (\<lambda>n. n\<lparr>mn_size := k\<rparr>) s2" using s4 s3 sz False by simp
    have rep4: "struct_rep s4 (A @ ?b' # B)"
      using struct_rep_set_size [OF rep2, of k] by (simp add: e4)
    have "sorted_by (node_size s4) ?F"
      using sorted_by_transfer [OF rep rep4, of ?F] sub sorted_by_remove1 [OF srt] bl by auto
    then have "defer_inv s4 (A @ ?b' # B)"
      using rep4 F2 fl2 usedAB
      by (cases B) (auto simp: e4 defer_inv_def no_free_pair_def successively_append_iff successively_Cons)
    moreover have "plan_alloc bl k x (A @ ?b' # B)"
      using plan_reuse [of b k A B] b False by (simp add: bl)
    ultimately show ?thesis by blast
  next
    case True
    obtain c t1 where cr: "createMemNode (bsize b - k) s2 = (c, t1)" by fastforce
    define t2 where "t2 = upd_node c (\<lambda>n. n\<lparr>mn_usage := False\<rparr>) t1"
    define t3 where "t3 = insert_after c (Some x) t2"
    note c = struct_rep_create [OF rep2 cr]
    let ?cb = "Block c (bsize b - k) False []"
    have rep3: "struct_rep t3 (A @ ?bT # ?cb # B)"
      using struct_rep_insert_after [of t2 A ?bT B c "bsize b - k" False] struct_rep_upd_fresh [OF c(1,4)] c
      by (simp add: t2_def t3_def node_matches_def newMemNode_def)
    have e3: "s3 = insertFree c t3"
      using s3 sz True cr by (simp add: t2_def t3_def)
    have rep4: "struct_rep s4 (A @ Block x k True (bmem b) # ?cb # B)"
      using struct_rep_set_size [of s3 A ?bT "?cb # B" k] rep3 by (simp add: s4 e3)
    have fl1: "mFreeList t3 = ?F"
      using cr fl2 by (auto simp: t3_def t2_def createMemNode_def)
    have "sorted_by (node_size t3) ?F"
      using sorted_by_transfer [OF rep rep3, of ?F] sub sorted_by_remove1 [OF srt] bl by auto
    then have "sorted_by (node_size t3) (index_insert (node_size t3) c ?F)"
      by (rule sorted_by_insert)
    moreover have "set (index_insert (node_size t3) c ?F) \<subseteq>
        bid ` (set (A @ ?bT # ?cb # B) \<inter> set (A @ Block x k True (bmem b) # ?cb # B))"
    proof -
      have "bid ?cb \<in> bid ` (set (A @ ?bT # ?cb # B) \<inter> set (A @ Block x k True (bmem b) # ?cb # B))"
        by (rule imageI) simp
      then show ?thesis using sub by auto
    qed
    ultimately have "sorted_by (node_size s4) (index_insert (node_size t3) c ?F)"
      using sorted_by_transfer [OF rep3 rep4] by metis
    moreover have "mFreeList s4 = index_insert (node_size t3) c ?F"
      by (simp add: s4 e3 insertFree_def fl1)
    ultimately have "defer_inv s4 (A @ Block x k True (bmem b) # ?cb # B)"
      using rep4 F2 usedAB
      by (cases B) (auto simp: defer_inv_def no_free_pair_def successively_append_iff successively_Cons)
    moreover have "plan_alloc bl k x (A @ Block x k True (bmem b) # ?cb # B)"
      using plan_split [of b k c A B] b True c(4) by (simp add: bl bids_def)
    ultimately show ?thesis by blast
  qed
qed

theorem defer_alloc_refines:
  assumes inv: "defer_inv s bl"
    and res: "defer_alloc size0 separate align0 s = (ch, s')"
    and k: "k = UP_DIV size0 (if align0 = 0 then mAlign s else align0) * (if align0 = 0 then mAlign s else align0)"
  shows "\<exists>i bl'. ch = nodeChunk i \<and> plan_alloc bl k i bl' \<and> defer_inv s' bl'"
proof (cases "mFreeList s = [] \<or> separate")
  case True
  obtain c s1 where cr: "createMemNode k s = (c, s1)" by fastforce
  then have "ch = nodeChunk c" "s' = insert_after c None s1"
    using res True by (auto simp: defer_alloc_def Let_def k)
  then show ?thesis using defer_alloc_tail_refines [OF inv cr] by blast
next
  case False
  define x where "x = (case index_lower_bound (node_size s) k (mFreeList s) of
                         Some c \<Rightarrow> c | None \<Rightarrow> last (mFreeList s))"
  have x: "x \<in> set (mFreeList s)"
    using False index_lower_bound_Some [of "node_size s" k "mFreeList s"]
    by (auto simp: x_def split: option.splits)
  have "ch = nodeChunk x"
    using res False unfolding defer_alloc_def Let_def k [symmetric] x_def [symmetric] by simp
  moreover have "\<exists>bl'. plan_alloc bl k x bl' \<and> defer_inv s' bl'"
    by (rule defer_alloc_reuse_refines [OF inv x refl refl])
       (use res False in \<open>unfold defer_alloc_def Let_def k [symmetric] x_def [symmetric], simp\<close>)
  ultimately show ?thesis by blast
qed

end
