(* ===== verification/DeferLayout.thy ===== *)
theory DeferLayout
  imports DeferPlan
begin

text \<open>
  The layout that \<open>compute\<close> derives from the recorded requests. Every block has a position: the
  sum of the sizes before it. A node fused into a block keeps its distance from the block's start.
  \<open>apart\<close> says that one allocation lies before another one, \<open>inside\<close> that it lies within the
  total; \<open>moves\<close> describes what an operation may do to positions (shift them to the right, later
  blocks at least as far as earlier ones), and both facts survive every such move. The second half
  shows that the traversal of \<open>compute\<close> writes exactly these positions.
\<close>

section \<open>Positions\<close>

definition pre :: "block list \<Rightarrow> nat \<Rightarrow> nat" where
  "pre bl k = sum_list (take k (map bsize bl))"

definition extent :: "block list \<Rightarrow> nat" where
  "extent bl = sum_list (map bsize bl)"

definition rel :: "block \<Rightarrow> nat \<Rightarrow> nat \<Rightarrow> bool" where
  "rel b i r = ((i = bid b \<and> r = 0) \<or> (i, r) \<in> set (bmem b))"

definition apart :: "block list \<Rightarrow> nat \<Rightarrow> nat \<Rightarrow> nat \<Rightarrow> bool" where
  "apart bl i n j = (\<exists>k l r r'. k \<le> l \<and> l < length bl \<and> rel (bl ! k) i r \<and> rel (bl ! l) j r' \<and>
      pre bl k + r + n \<le> pre bl l + r')"

definition inside :: "block list \<Rightarrow> nat \<Rightarrow> nat \<Rightarrow> bool" where
  "inside bl i n = (\<exists>k r. k < length bl \<and> rel (bl ! k) i r \<and> pre bl k + r + n \<le> extent bl)"

definition moves :: "block list \<Rightarrow> block list \<Rightarrow> bool" where
  "moves bl bl' = (\<exists>f d. mono f \<and> mono d \<and>
     (\<forall>k < length bl. f k < length bl' \<and> extent bl + d k \<le> extent bl' \<and>
        (\<forall>i r. rel (bl ! k) i r \<longrightarrow> (\<exists>r'. rel (bl' ! f k) i r' \<and> pre bl' (f k) + r' = pre bl k + r + d k))))"

lemma movesI:
  assumes "mono f" "mono d"
    and "\<And>k. k < length bl \<Longrightarrow> f k < length bl' \<and> extent bl + d k \<le> extent bl'"
    and "\<And>k i r. k < length bl \<Longrightarrow> rel (bl ! k) i r \<Longrightarrow>
           \<exists>r'. rel (bl' ! f k) i r' \<and> pre bl' (f k) + r' = pre bl k + r + d k"
  shows "moves bl bl'"
  unfolding moves_def using assms by blast

lemma apartI:
  "k \<le> l \<Longrightarrow> l < length bl \<Longrightarrow> rel (bl ! k) i r \<Longrightarrow> rel (bl ! l) j r' \<Longrightarrow>
     pre bl k + r + n \<le> pre bl l + r' \<Longrightarrow> apart bl i n j"
  unfolding apart_def by blast

lemma moves_apart:
  assumes "moves bl bl'" "apart bl i n j"
  shows "apart bl' i n j"
proof -
  obtain f d where fd: "mono f" "mono d"
    "\<And>k. k < length bl \<Longrightarrow> f k < length bl'"
    "\<And>k i r. k < length bl \<Longrightarrow> rel (bl ! k) i r \<Longrightarrow>
       \<exists>r'. rel (bl' ! f k) i r' \<and> pre bl' (f k) + r' = pre bl k + r + d k"
    using assms(1) unfolding moves_def by blast
  obtain k l r r' where kl: "k \<le> l" "l < length bl" "rel (bl ! k) i r" "rel (bl ! l) j r'"
    "pre bl k + r + n \<le> pre bl l + r'"
    using assms(2) unfolding apart_def by blast
  obtain q where q: "rel (bl' ! f k) i q" "pre bl' (f k) + q = pre bl k + r + d k"
    using fd(4) [of k] kl by force
  obtain q' where q': "rel (bl' ! f l) j q'" "pre bl' (f l) + q' = pre bl l + r' + d l"
    using fd(4) [of l] kl by force
  have "f k \<le> f l" "d k \<le> d l"
    using fd(1,2) kl(1) by (simp_all add: monoD)
  moreover have "f l < length bl'" using fd(3) kl(2) .
  ultimately show ?thesis
    using q q' kl(5) by (intro apartI [of "f k" "f l" _ _ q _ q']) auto
qed

lemma moves_inside:
  assumes "moves bl bl'" "inside bl i n"
  shows "inside bl' i n"
proof -
  obtain f d where fd:
    "\<And>k. k < length bl \<Longrightarrow> f k < length bl' \<and> extent bl + d k \<le> extent bl'"
    "\<And>k i r. k < length bl \<Longrightarrow> rel (bl ! k) i r \<Longrightarrow>
       \<exists>r'. rel (bl' ! f k) i r' \<and> pre bl' (f k) + r' = pre bl k + r + d k"
    using assms(1) unfolding moves_def by blast
  obtain k r where k: "k < length bl" "rel (bl ! k) i r" "pre bl k + r + n \<le> extent bl"
    using assms(2) unfolding inside_def by blast
  obtain q where "rel (bl' ! f k) i q" "pre bl' (f k) + q = pre bl k + r + d k"
    using fd(2) [OF k(1,2)] by blast
  then show ?thesis
    using fd(1) [OF k(1)] k(3) unfolding inside_def by (intro exI [of _ "f k"] exI [of _ q]) auto
qed

lemma moves_refl [simp]: "moves bl bl"
  by (rule movesI [of id "\<lambda>_. 0"]) (auto simp: mono_def)

lemma moves_trans:
  assumes "moves a b" "moves b c"
  shows "moves a c"
proof -
  obtain f d where fd: "mono f" "mono d"
    "\<And>k. k < length a \<Longrightarrow> f k < length b \<and> extent a + d k \<le> extent b"
    "\<And>k i r. k < length a \<Longrightarrow> rel (a ! k) i r \<Longrightarrow>
       \<exists>r'. rel (b ! f k) i r' \<and> pre b (f k) + r' = pre a k + r + d k"
    using assms(1) unfolding moves_def by blast
  obtain g e where ge: "mono g" "mono e"
    "\<And>k. k < length b \<Longrightarrow> g k < length c \<and> extent b + e k \<le> extent c"
    "\<And>k i r. k < length b \<Longrightarrow> rel (b ! k) i r \<Longrightarrow>
       \<exists>r'. rel (c ! g k) i r' \<and> pre c (g k) + r' = pre b k + r + e k"
    using assms(2) unfolding moves_def by blast
  show ?thesis
  proof (rule movesI [of "g \<circ> f" "\<lambda>k. d k + e (f k)"])
    show "mono (g \<circ> f)" "mono (\<lambda>k. d k + e (f k))"
      using fd(1,2) ge(1,2) by (auto simp: mono_def intro: add_mono)
    show "(g \<circ> f) k < length c \<and> extent a + (d k + e (f k)) \<le> extent c" if "k < length a" for k
      using fd(3) [OF that] ge(3) [of "f k"] by auto
    show "\<exists>r'. rel (c ! (g \<circ> f) k) i r' \<and> pre c ((g \<circ> f) k) + r' = pre a k + r + (d k + e (f k))"
      if k: "k < length a" "rel (a ! k) i r" for k i r
    proof -
      obtain q where q: "rel (b ! f k) i q" "pre b (f k) + q = pre a k + r + d k"
        using fd(4) [OF k] by blast
      then obtain q' where "rel (c ! g (f k)) i q'" "pre c (g (f k)) + q' = pre b (f k) + q + e (f k)"
        using ge(4) [of "f k" i q] fd(3) [OF k(1)] by blast
      with q show ?thesis by (intro exI [of _ q']) auto
    qed
  qed
qed

subsection \<open>Positions in lists that differ around one place\<close>

lemma pre_le: "k \<le> length A \<Longrightarrow> pre (A @ B) k = pre A k"
  by (simp add: pre_def)

lemma pre_append: "pre (A @ B) (length A + k) = extent A + pre B k"
  by (simp add: pre_def extent_def)

lemma pre_Cons [simp]: "pre (b # B) (Suc k) = bsize b + pre B k"
  by (simp add: pre_def)

lemma pre_0 [simp]: "pre bl 0 = 0"
  by (simp add: pre_def)

lemma extent_simps [simp]:
  "extent [] = 0" "extent (b # B) = bsize b + extent B" "extent (A @ B) = extent A + extent B"
  by (simp_all add: extent_def)

text \<open>An index into \<open>A @ M @ B\<close> is in one of the three parts.\<close>

lemma index_cases3 [consumes 1, case_names left mid right]:
  assumes "k < length (A @ M @ B)"
    and "k < length A \<Longrightarrow> P"
    and "\<And>m. k = length A + m \<Longrightarrow> m < length M \<Longrightarrow> P"
    and "\<And>m. k = length A + length M + m \<Longrightarrow> m < length B \<Longrightarrow> P"
  shows P
proof (cases "k < length A")
  case False
  then show ?thesis
    using assms(1) assms(3) [of "k - length A"] assms(4) [of "k - length A - length M"]
    by (cases "k - length A < length M") auto
qed (rule assms(2))

text \<open>
  The general move: a middle part \<open>M\<close> is replaced by \<open>M'\<close>, which is at least as long in
  extent, and in which every node of \<open>M\<close> keeps its position.
\<close>

lemma moves_middle:
  assumes len: "M' \<noteq> []" "M \<noteq> []"
    and ext: "extent M \<le> extent M'"
    and g: "mono g" "\<And>m. m < length M \<Longrightarrow> g m < length M'"
    and keep: "\<And>m i r. m < length M \<Longrightarrow> rel (M ! m) i r \<Longrightarrow>
                 \<exists>r'. rel (M' ! g m) i r' \<and> pre M' (g m) + r' = pre M m + r"
  shows "moves (A @ M @ B) (A @ M' @ B)"
proof (rule movesI [of "\<lambda>k. if k < length A then k
                            else if k < length A + length M then length A + g (k - length A)
                            else k - length M + length M'"
                       "\<lambda>k. if k < length A + length M then 0 else extent M' - extent M"])
  have gl: "g m < length M'" if "m < length M" for m using g(2) that .
  show "mono (\<lambda>k. if k < length A then k else if k < length A + length M
      then length A + g (k - length A) else k - length M + length M')"
  proof (rule monoI)
    fix x y :: nat
    assume xy: "x \<le> y"
    have "g (x - length A) \<le> g (y - length A)" using g(1) xy by (simp add: mono_def)
    moreover have "x < length A \<or> length A + length M \<le> x \<or> g (x - length A) < length M'"
      using gl [of "x - length A"] by (cases "x - length A < length M") auto
    moreover have "length A + length M' \<le> y - length M + length M'"
      if "\<not> y < length A + length M" using that by simp
    ultimately show "(if x < length A then x else if x < length A + length M
        then length A + g (x - length A) else x - length M + length M')
      \<le> (if y < length A then y else if y < length A + length M
        then length A + g (y - length A) else y - length M + length M')"
      using xy by auto
  qed
  show "mono (\<lambda>k. if k < length A + length M then 0 else extent M' - extent M)"
    by (auto simp: mono_def)
next
  fix k
  assume "k < length (A @ M @ B)"
  then show "(if k < length A then k else if k < length A + length M
        then length A + g (k - length A) else k - length M + length M') < length (A @ M' @ B) \<and>
      extent (A @ M @ B) + (if k < length A + length M then 0 else extent M' - extent M)
        \<le> extent (A @ M' @ B)"
    using ext g(2) [of "k - length A"] by (cases rule: index_cases3) auto
next
  fix k i r
  assume k: "k < length (A @ M @ B)" and r: "rel ((A @ M @ B) ! k) i r"
  show "\<exists>r'. rel ((A @ M' @ B) ! (if k < length A then k else if k < length A + length M
        then length A + g (k - length A) else k - length M + length M')) i r' \<and>
      pre (A @ M' @ B) (if k < length A then k else if k < length A + length M
        then length A + g (k - length A) else k - length M + length M') + r' =
      pre (A @ M @ B) k + r + (if k < length A + length M then 0 else extent M' - extent M)"
    using k
  proof (cases rule: index_cases3)
    case left
    then show ?thesis using r by (intro exI [of _ r]) (auto simp: nth_append pre_le)
  next
    case (mid m)
    then obtain r' where r': "rel (M' ! g m) i r'" "pre M' (g m) + r' = pre M m + r"
      using keep [of m i r] r by (auto simp: nth_append)
    have "pre (A @ M' @ B) (length A + g m) = extent A + pre M' (g m)"
      "pre (A @ M @ B) (length A + m) = extent A + pre M m"
      using mid g(2) [of m] by (simp_all add: pre_append pre_le less_imp_le)
    then show ?thesis using mid r' g(2) [of m] by (intro exI [of _ r']) (auto simp: nth_append)
  next
    case (right m)
    have "pre (A @ M' @ B) (length A + m + length M') = extent A + extent M' + pre B m"
      "pre (A @ M @ B) (length A + length M + m) = extent A + extent M + pre B m"
      using pre_append [of "A @ M'" B m] pre_append [of "A @ M" B m] by (simp_all add: ac_simps)
    then show ?thesis using right r ext by (intro exI [of _ r]) (auto simp: nth_append)
  qed
qed

section \<open>Every operation only moves\<close>

lemma moves_tail: "moves bl (bl @ B)"
  by (rule movesI [of id "\<lambda>_. 0"]) (auto simp: mono_def nth_append pre_le)

lemma moves_resize:
  assumes "bsize b \<le> k"
  shows "moves (A @ b # B) (A @ Block (bid b) k u (bmem b) # B)"
  using moves_middle [of "[Block (bid b) k u (bmem b)]" "[b]" id A B] assms
  by (auto simp: rel_def mono_def)

lemma moves_mark: "moves (A @ b # B) (A @ mark_free b # B)"
  unfolding mark_free_def by (rule moves_resize) simp

lemma moves_split:
  assumes "k < bsize b"
  shows "moves (A @ b # B) (A @ Block (bid b) k u (bmem b) # Block c (bsize b - k) v [] # B)"
  using moves_middle [of "[Block (bid b) k u (bmem b), Block c (bsize b - k) v []]" "[b]" "\<lambda>_. 0" A B] assms
  by (auto simp: rel_def mono_def)

lemma moves_fuse: "moves (A @ l # r # B) (A @ fuse_blocks l r # B)"
proof -
  have "moves (A @ [l, r] @ B) (A @ [fuse_blocks l r] @ B)"
  proof (rule moves_middle [of _ _ "\<lambda>_. 0"])
    fix m i q
    assume m: "m < length [l, r]" and q: "rel ([l, r] ! m) i q"
    then consider "m = 0" | "m = 1" by force
    then show "\<exists>r'. rel ([fuse_blocks l r] ! 0) i r' \<and> pre [fuse_blocks l r] 0 + r' = pre [l, r] m + q"
    proof cases
      case 1
      then show ?thesis using q by (intro exI [of _ q]) (auto simp: rel_def fuse_blocks_def)
    next
      case 2
      then have "rel (fuse_blocks l r) i (bsize l + q)"
        using q by (auto simp: rel_def fuse_blocks_def set_shift_mem)
      then show ?thesis using 2 by (intro exI [of _ "bsize l + q"]) (simp add: pre_def)
    qed
  qed (auto simp: mono_def fuse_blocks_def)
  then show ?thesis by simp
qed

lemma plan_alloc_moves: "plan_alloc bl k i bl' \<Longrightarrow> moves bl bl'"
  by (induction rule: plan_alloc.induct) (auto intro: moves_tail moves_resize moves_split)

lemma free_at_moves: "moves (A @ b # B) (free_at A b B)"
proof -
  obtain A' b1 where l: "fuse_left A b = (A', b1)" by fastforce
  obtain b2 B' where r: "fuse_right b1 B = (b2, B')" by fastforce
  have "moves (A @ b # B) (A' @ b1 # B)"
  proof (cases "A \<noteq> [] \<and> \<not> bused (last A)")
    case True
    then have "A = A' @ [last A]" "b1 = fuse_blocks (last A) b"
      using l by (auto simp: fuse_left_def)
    then show ?thesis using moves_fuse [of A' "last A" b B] by (metis append.assoc append_Cons append_Nil)
  next
    case False
    then show ?thesis using l by (auto simp: fuse_left_def split: if_splits)
  qed
  also have "moves (A' @ b1 # B) (A' @ b2 # B')"
    using r moves_fuse [of A' b1] by (auto simp: fuse_right_def split: list.splits if_splits)
  finally (moves_trans) have "moves (A @ b # B) (A' @ b2 # B')" .
  then show ?thesis
    using moves_trans [OF _ moves_mark] l r by (simp add: free_at_def)
qed

section \<open>Two blocks of one list\<close>

lemma blocks_apart:
  assumes "a \<in> set bl" "b \<in> set bl" "a \<noteq> b"
  shows "apart bl (bid a) (bsize a) (bid b) \<or> apart bl (bid b) (bsize b) (bid a)"
proof -
  obtain k l where kl: "k < length bl" "bl ! k = a" "l < length bl" "bl ! l = b"
    using assms(1,2) by (metis in_set_conv_nth)
  have step: "apart bl (bid (bl ! x)) (bsize (bl ! x)) (bid (bl ! y))" if "x < y" "y < length bl" for x y
  proof -
    have "sum_list (take (Suc x) (map bsize bl)) \<le> sum_list (take y (map bsize bl))"
      using that by (intro sum_list_take_mono) simp
    then have "pre bl x + bsize (bl ! x) \<le> pre bl y"
      using that by (simp add: pre_def sum_list_take_Suc)
    then show ?thesis
      using that by (intro apartI [of x y _ _ 0 _ 0]) (auto simp: rel_def)
  qed
  show ?thesis
    using step [of k l] step [of l k] kl assms(3) by (cases k l rule: linorder_cases) auto
qed

lemma block_inside:
  assumes "b \<in> set bl"
  shows "inside bl (bid b) (bsize b)"
proof -
  obtain k where k: "k < length bl" "bl ! k = b"
    using assms by (metis in_set_conv_nth)
  have "pre bl k + bsize b \<le> extent bl"
    using sum_list_take_le [of "Suc k" "map bsize bl"] k
    by (simp add: pre_def extent_def sum_list_take_Suc)
  then show ?thesis
    using k unfolding inside_def rel_def by (intro exI [of _ k] exI [of _ 0]) simp
qed

section \<open>Alignment\<close>

text \<open>All sizes and all distances are multiples of a common alignment.\<close>

definition aligned :: "nat \<Rightarrow> block list \<Rightarrow> bool" where
  "aligned a bl = (\<forall>b \<in> set bl. a dvd bsize b \<and> (\<forall>(i, r) \<in> set (bmem b). a dvd r))"

lemma aligned_simps [simp]:
  "aligned a []"
  "aligned a (b # bl) = ((a dvd bsize b \<and> (\<forall>(i, r) \<in> set (bmem b). a dvd r)) \<and> aligned a bl)"
  "aligned a (A @ B) = (aligned a A \<and> aligned a B)"
  by (auto simp: aligned_def)

lemma plan_alloc_aligned: "plan_alloc bl k i bl' \<Longrightarrow> a dvd k \<Longrightarrow> aligned a bl \<Longrightarrow> aligned a bl'"
  by (induction rule: plan_alloc.induct) (auto simp: dvd_diff_nat)

lemma fuse_blocks_aligned:
  "aligned a [l] \<Longrightarrow> aligned a [r] \<Longrightarrow> aligned a [fuse_blocks l r]"
  by (fastforce simp: fuse_blocks_def set_shift_mem intro: dvd_add)

lemma free_at_aligned:
  assumes "aligned a (A @ b # B)"
  shows "aligned a (free_at A b B)"
proof -
  obtain A' b1 where l: "fuse_left A b = (A', b1)" by fastforce
  obtain b2 B' where r: "fuse_right b1 B = (b2, B')" by fastforce
  have "aligned a (A' @ [b1])"
  proof (cases "A \<noteq> [] \<and> \<not> bused (last A)")
    case True
    then have "A = A' @ [last A]" "b1 = fuse_blocks (last A) b" using l by (auto simp: fuse_left_def)
    then show ?thesis
      using assms fuse_blocks_aligned [of a "last A" b]
      by (metis aligned_simps(1,2,3) append.assoc append_Cons append_Nil)
  next
    case False
    then show ?thesis using l assms by (auto simp: fuse_left_def split: if_splits)
  qed
  moreover from this have "aligned a (b2 # B')"
    using r assms fuse_blocks_aligned [of a b1]
    by (auto simp: fuse_right_def split: list.splits if_splits)
  ultimately show ?thesis by (simp add: free_at_def l r mark_free_def)
qed

end
