(* ===== verification/DeferRun.thy ===== *)
theory DeferRun
  imports DeferLayout
begin

text \<open>
  Sequences of requests against one \<open>DeferBufferAllocator\<close>, and what \<open>compute\<close> makes of them. A
  client holds the chunks it got and has not given back; a chunk given back inside a barrier stays
  reserved until the barrier ends. \<open>run_inv\<close> is the invariant of every run.
\<close>

section \<open>The traversal writes the positions\<close>

lemma visitKids_total:
  "kids_rep ns cs ms \<Longrightarrow>
   (\<And>i. i \<in> fst ` set ms \<Longrightarrow> tree_eq (ns ! i) (cur ! i) \<and> i < length cur) \<Longrightarrow>
   distinct (map fst ms) \<Longrightarrow> p \<notin> fst ` set ms \<Longrightarrow> length ms \<le> fuel \<Longrightarrow>
   \<exists>ns'. visitKids fuel p cs cur = Some ns' \<and> length ns' = length cur \<and>
     (\<forall>(i, r) \<in> set ms. mn_offset (ns' ! i) = mn_offset (cur ! p) + r) \<and>
     (\<forall>i. i \<notin> fst ` set ms \<longrightarrow> ns' ! i = cur ! i) \<and>
     (\<forall>i. mn_size (ns' ! i) = mn_size (cur ! i) \<and> mn_right (ns' ! i) = mn_right (cur ! i))"
proof (induction arbitrary: cur p fuel rule: kids_rep.induct)
  case kids_Nil
  then show ?case by simp
next
  case (kids_Cons c mc cs ms)
  let ?o = "mn_offset (ns ! c)"
  define cur1 where "cur1 = cur[c := (cur ! c)\<lparr>mn_offset := mn_offset (cur ! c) + mn_offset (cur ! p)\<rparr>]"
  have c: "tree_eq (ns ! c) (cur ! c)" "c < length cur"
    using kids_Cons.prems(1) [of c] by simp_all
  have dis: "c \<notin> fst ` set mc" "c \<notin> fst ` set ms" "distinct (map fst mc)" "distinct (map fst ms)"
    "fst ` set mc \<inter> fst ` set ms = {}" "p \<noteq> c" "p \<notin> fst ` set mc" "p \<notin> fst ` set ms"
    using kids_Cons.prems(2,3) by (auto simp: image_Un)
  obtain f where f: "fuel = Suc f" using kids_Cons.prems(4) by (cases fuel) auto
  have cc: "mn_offset (cur1 ! c) = ?o + mn_offset (cur ! p)" "mn_children (cur1 ! c) = mn_children (ns ! c)"
    using c by (simp_all add: cur1_def tree_eq_def)
  have oth: "cur1 ! i = cur ! i" if "i \<noteq> c" for i using that by (simp add: cur1_def)
  have pre1: "tree_eq (ns ! i) (cur1 ! i) \<and> i < length cur1" if "i \<in> fst ` set mc" for i
  proof -
    have "i \<noteq> c" using that dis(1) by blast
    then show ?thesis using kids_Cons.prems(1) [of i] that oth [of i] by (simp add: image_Un cur1_def)
  qed
  obtain ns2 where ns2: "visitKids f c (mn_children (cur1 ! c)) cur1 = Some ns2"
    "length ns2 = length cur1" "\<forall>(i, r) \<in> set mc. mn_offset (ns2 ! i) = mn_offset (cur1 ! c) + r"
    "\<forall>i. i \<notin> fst ` set mc \<longrightarrow> ns2 ! i = cur1 ! i"
    "\<forall>i. mn_size (ns2 ! i) = mn_size (cur1 ! i) \<and> mn_right (ns2 ! i) = mn_right (cur1 ! i)"
    using kids_Cons.IH(1) [OF pre1 dis(3) dis(1), of f] kids_Cons.prems(4) f cc(2)
    by (auto simp: shift_mem_def)
  have pre2: "tree_eq (ns ! i) (ns2 ! i) \<and> i < length ns2" if "i \<in> fst ` set ms" for i
  proof -
    have "ns2 ! i = cur ! i" using ns2(4) oth that dis(2,5) by (metis disjoint_iff)
    then show ?thesis
      using kids_Cons.prems(1) [of i] that ns2(2) by (simp add: image_Un cur1_def)
  qed
  have p2: "ns2 ! p = cur ! p" using ns2(4) oth dis(6,7) by metis
  obtain ns3 where ns3: "visitKids f p cs ns2 = Some ns3" "length ns3 = length ns2"
    "\<forall>(i, r) \<in> set ms. mn_offset (ns3 ! i) = mn_offset (ns2 ! p) + r"
    "\<forall>i. i \<notin> fst ` set ms \<longrightarrow> ns3 ! i = ns2 ! i"
    "\<forall>i. mn_size (ns3 ! i) = mn_size (ns2 ! i) \<and> mn_right (ns3 ! i) = mn_right (ns2 ! i)"
    using kids_Cons.IH(2) [OF pre2 dis(4) dis(8), of f] kids_Cons.prems(4) f
    by (auto simp: shift_mem_def)
  have res: "visitKids fuel p (c # cs) cur = Some ns3"
    using ns2(1) ns3(1) by (simp add: f Let_def cur1_def [symmetric])
  have offc: "mn_offset (ns3 ! c) = mn_offset (cur ! p) + ?o"
    using ns3(4) ns2(4) dis(1,2) cc(1) by simp
  have offmc: "mn_offset (ns3 ! i) = mn_offset (cur ! p) + r" if ir: "(i, r) \<in> set (shift_mem ?o mc)" for i r
  proof -
    obtain r' where r': "(i, r') \<in> set mc" "r = ?o + r'" using ir by (auto simp: set_shift_mem)
    then have "ns3 ! i = ns2 ! i" using ns3(4) dis(5) by (metis disjoint_iff fst_conv image_eqI)
    then show ?thesis using ns2(3) r' cc(1) by auto
  qed
  have flds: "mn_size (cur1 ! i) = mn_size (cur ! i) \<and> mn_right (cur1 ! i) = mn_right (cur ! i)" for i
    using c(2) by (cases "i = c") (simp_all add: cur1_def)
  have keep: "ns3 ! i = cur ! i" if "i \<notin> fst ` set ((c, ?o) # shift_mem ?o mc @ ms)" for i
    using that ns3(4) ns2(4) oth [of i] by (auto simp: image_Un)
  have off: "\<forall>(i, r) \<in> set ((c, ?o) # shift_mem ?o mc @ ms). mn_offset (ns3 ! i) = mn_offset (cur ! p) + r"
    using offc offmc ns3(3) p2 by auto
  show ?case
    using res off keep ns3(2,5) ns2(2,5) flds
    by (intro exI [of _ ns3]) (simp add: cur1_def)
qed

text \<open>\<open>compute\<close>'s loop over a list of one block: enough fuel, and every node gets its position.\<close>

lemma compute_loop_single:
  assumes rep: "struct_rep s [b]"
  shows "\<exists>ns'. compute_loop (length (mChunks s)) (mHead s) 0 (mChunks s) = Some (bsize b, ns') \<and>
     length ns' = length (mChunks s) \<and> (\<forall>i r. rel b i r \<longrightarrow> mn_offset (ns' ! i) = r)"
proof -
  note r = struct_repD [OF rep]
  let ?ns = "mChunks s"
  let ?b = "bid b"
  have b: "?b < length ?ns" "mHead s = Some ?b" "mn_right (?ns ! ?b) = None" "mn_size (?ns ! ?b) = bsize b"
    using r(4-6) by (simp_all add: node_matches_def)
  define ns1 where "ns1 = ?ns[?b := (?ns ! ?b)\<lparr>mn_offset := 0\<rparr>]"
  have dis: "distinct (map fst (bmem b))" "?b \<notin> fst ` set (bmem b)"
    using r(1) by (simp_all add: bids_def)
  have "length (map fst (bmem b)) \<le> length ?ns"
  proof -
    have "set (map fst (bmem b)) \<subseteq> {..<length ?ns}" using r(3) by (auto simp: bids_def)
    then have "card (set (map fst (bmem b))) \<le> card {..<length ?ns}" by (intro card_mono) auto
    then show ?thesis using distinct_card [OF dis(1)] by simp
  qed
  then have fuel: "length (bmem b) \<le> length ?ns" by simp
  have pre: "tree_eq (?ns ! i) (ns1 ! i) \<and> i < length ns1" if "i \<in> fst ` set (bmem b)" for i
  proof -
    have "i \<noteq> ?b" using that dis(2) by blast
    then show ?thesis using that r(3) [of i] by (simp add: ns1_def tree_eq_def bids_def)
  qed
  have kb: "mn_children (ns1 ! ?b) = mn_children (?ns ! ?b)" "mn_offset (ns1 ! ?b) = 0"
    using b(1) by (simp_all add: ns1_def)
  obtain ns2 where ns2: "visitKids (length ?ns) ?b (mn_children (?ns ! ?b)) ns1 = Some ns2"
    "length ns2 = length ns1"
    "\<forall>(i, q) \<in> set (bmem b). mn_offset (ns2 ! i) = mn_offset (ns1 ! ?b) + q"
    "\<forall>i. i \<notin> fst ` set (bmem b) \<longrightarrow> ns2 ! i = ns1 ! i"
    "\<forall>i. mn_size (ns2 ! i) = mn_size (ns1 ! i) \<and> mn_right (ns2 ! i) = mn_right (ns1 ! i)"
    using visitKids_total [OF r(8) [of b] pre dis fuel] by auto
  have flds: "mn_right (ns2 ! ?b) = None" "mn_size (ns2 ! ?b) = bsize b"
    using ns2(5) b by (simp_all add: ns1_def)
  obtain f where f: "length ?ns = Suc f" using b(1) by (cases "length ?ns") auto
  have "visiChildren (Suc f) ?b ns1 = Some ns2"
    using ns2(1) kb f by (simp add: visiChildren_def)
  then have "compute_loop (Suc f) (Some ?b) 0 ?ns = Some (bsize b, ns2)"
    using flds f by (simp add: ns1_def [symmetric])
  moreover have "mn_offset (ns2 ! i) = q" if "rel b i q" for i q
    using that ns2(3,4) dis(2) kb(2) by (auto simp: rel_def)
  ultimately show ?thesis
    using b(2) f ns2(2) by (intro exI [of _ ns2]) (simp add: ns1_def)
qed

section \<open>Runs\<close>

datatype defer_op = OpAlloc nat bool nat | OpFree nat | OpBarrierBegin | OpBarrierEnd

type_synonym defer_state = "DeferAlloc \<times> nat list" \<comment> \<open>with the nodes the client holds\<close>

fun defer_step :: "defer_op \<Rightarrow> defer_state \<Rightarrow> defer_state option" where
  "defer_step (OpAlloc n separate align) (s, held) =
     (let (ch, s') = defer_alloc n separate align s in Some (s', the (ch_node ch) # held))"
| "defer_step (OpFree i) (s, held) =
     (if i \<in> set held then Some (snd (defer_free (nodeChunk i) s), removeAll i held) else None)"
| "defer_step OpBarrierBegin (s, held) =
     (if mBarrier s then None else Some (defer_barrierBegin s, held))"
| "defer_step OpBarrierEnd (s, held) = Some (defer_barrierEnd s, held)"

fun defer_run :: "defer_op list \<Rightarrow> defer_state \<Rightarrow> defer_state option" where
  "defer_run [] st = Some st"
| "defer_run (op # ops) st =
     (case defer_step op st of None \<Rightarrow> None | Some st' \<Rightarrow> defer_run ops st')"

lemma defer_run_append:
  "defer_run (ops @ ops') st = (case defer_run ops st of None \<Rightarrow> None | Some st' \<Rightarrow> defer_run ops' st')"
  by (induction ops arbitrary: st) (auto split: option.splits)

definition queued :: "DeferAlloc \<Rightarrow> nat list" where
  "queued s = map (\<lambda>c. the (ch_node c)) (mBarrierFreeChunks s)"

definition live :: "defer_state \<Rightarrow> nat set" where
  "live st = set (snd st) \<union> set (queued (fst st))"

definition used_ids :: "block list \<Rightarrow> nat list" where
  "used_ids bl = map bid (filter bused bl)"

definition run_inv :: "defer_state \<Rightarrow> block list \<Rightarrow> bool" where
  "run_inv st bl \<longleftrightarrow>
     (case st of (s, held) \<Rightarrow>
        defer_inv s bl \<and> mTotalSize s = 0 \<and>
        distinct (held @ queued s) \<and> set (held @ queued s) = set (used_ids bl) \<and>
        (\<forall>c \<in> set (mBarrierFreeChunks s). \<exists>i. c = nodeChunk i) \<and>
        (\<not> mBarrier s \<longrightarrow> mBarrierFreeChunks s = []))"

lemma used_ids_simps [simp]:
  "used_ids [] = []" "used_ids (b # bl) = (if bused b then bid b # used_ids bl else used_ids bl)"
  "used_ids (A @ B) = used_ids A @ used_ids B"
  by (simp_all add: used_ids_def)

lemma used_idsE: "i \<in> set (used_ids bl) \<Longrightarrow> \<exists>b \<in> set bl. bused b \<and> bid b = i"
  by (auto simp: used_ids_def)

lemma used_ids_all: "set (used_ids bl) \<subseteq> set (all_ids bl)"
  using bid_in_all_ids by (auto simp: used_ids_def)

lemma used_ids_free_at: "used_ids (free_at A b B) = used_ids (A @ B)"
proof -
  obtain A' b1 where l: "fuse_left A b = (A', b1)" by fastforce
  obtain b2 B' where r: "fuse_right b1 B = (b2, B')" by fastforce
  have "used_ids A' = used_ids A"
  proof (cases "A \<noteq> [] \<and> \<not> bused (last A)")
    case True
    then have "A = A' @ [last A]" using l by (auto simp: fuse_left_def)
    then have "used_ids A = used_ids A' @ used_ids [last A]" by (metis used_ids_simps(3))
    then show ?thesis using True by simp
  next
    case False
    then show ?thesis using l by (auto simp: fuse_left_def split: if_splits)
  qed
  moreover have "used_ids B' = used_ids B"
    using r by (auto simp: fuse_right_def split: list.splits if_splits)
  ultimately show ?thesis by (simp add: free_at_def l r mark_free_def)
qed

lemma plan_alloc_used:
  "plan_alloc bl k i bl' \<Longrightarrow> distinct (all_ids bl) \<Longrightarrow>
     i \<notin> set (used_ids bl) \<and> set (used_ids bl') = insert i (set (used_ids bl)) \<and>
     Block i k True (if i \<in> set (map bid bl) then bmem (the (find (\<lambda>b. bid b = i) bl)) else []) \<in> set bl'"
proof (induction rule: plan_alloc.induct)
  case (plan_tail c bl k)
  then have "c \<notin> bid ` set bl" using bid_in_all_ids by blast
  then show ?case using plan_tail used_ids_all [of bl] by auto
next
  case (plan_reuse b k A B)
  then have "bid b \<notin> bid ` set A" "bid b \<notin> set (used_ids A)" "bid b \<notin> set (used_ids B)"
    using used_ids_all [of A] used_ids_all [of B] bid_in_all_ids [of _ A] by (auto simp: bids_def)
  moreover from this(1) have "find (\<lambda>x. bid x = bid b) (A @ b # B) = Some b"
    by (induction A) auto
  ultimately show ?case using plan_reuse by auto
next
  case (plan_split b k c A B)
  then have "bid b \<notin> bid ` set A" "bid b \<notin> set (used_ids A)" "bid b \<notin> set (used_ids B)"
    using used_ids_all [of A] used_ids_all [of B] bid_in_all_ids [of _ A] by (auto simp: bids_def)
  moreover from this(1) have "find (\<lambda>x. bid x = bid b) (A @ b # B) = Some b"
    by (induction A) auto
  ultimately show ?case using plan_split by auto
qed

section \<open>Fields the operations leave alone\<close>

lemma upd_node_queue [simp]: "queued (upd_node i f s) = queued s"
  by (simp add: queued_def)

lemma fuse_to_left_fields [simp]:
  "mTotalSize (snd (fuse_to_left l r s)) = mTotalSize s"
  "mBarrier (snd (fuse_to_left l r s)) = mBarrier s"
  "mAlign (snd (fuse_to_left l r s)) = mAlign s"
  "mBarrierFreeChunks (snd (fuse_to_left l r s)) = mBarrierFreeChunks s"
  by (simp_all add: fuse_to_left_def erase_node_def Let_def split: option.splits)

lemma free_node_fields [simp]:
  "mTotalSize (free_node i s) = mTotalSize s" "mBarrier (free_node i s) = mBarrier s"
  "mAlign (free_node i s) = mAlign s"
  "mBarrierFreeChunks (free_node i s) = mBarrierFreeChunks s"
  by (auto simp: free_node_def Let_def insertFree_def eraseFree_def case_prod_beta split: option.splits)

lemma defer_alloc_fields [simp]:
  "mTotalSize (snd (defer_alloc n separate align s)) = mTotalSize s"
  "mBarrier (snd (defer_alloc n separate align s)) = mBarrier s"
  "mAlign (snd (defer_alloc n separate align s)) = mAlign s"
  "mBarrierFreeChunks (snd (defer_alloc n separate align s)) = mBarrierFreeChunks s"
  by (simp_all add: defer_alloc_def Let_def createMemNode_def insertFree_def)

section \<open>The invariant of a run\<close>

lemma run_inv_init: "run_inv (newDefer root align, []) []"
  by (simp add: run_inv_def defer_inv_new queued_def) (simp add: newDefer_def)

lemma run_inv_free_at:
  assumes inv: "run_inv (s, held) (A @ b # B)" and b: "bused b" and nb: "\<not> mBarrier s"
  shows "run_inv (free_node (bid b) s, removeAll (bid b) held) (free_at A b B)"
proof -
  have di: "defer_inv s (A @ b # B)" and q: "mBarrierFreeChunks s = []" "distinct held"
      "set held = set (used_ids (A @ b # B))"
    using inv nb by (auto simp: run_inv_def queued_def)
  have rf: "defer_inv (free_node (bid b) s) (free_at A b B)"
    using free_node_refines [of s A b B] di b by simp
  have "distinct (all_ids (A @ b # B))" using di by (simp add: defer_inv_def struct_rep_def)
  then have "bid b \<notin> set (used_ids (A @ B))"
    using used_ids_all [of A] used_ids_all [of B] b by (auto simp: bids_def)
  then have "set (removeAll (bid b) held) = set (used_ids (free_at A b B))"
    using q(3) b by (auto simp: used_ids_free_at)
  then show ?thesis
    using rf q(1,2) inv by (simp add: run_inv_def queued_def distinct_removeAll)
qed

lemma run_inv_free:
  assumes inv: "run_inv (s, held) bl" and i: "i \<in> set held" and nb: "\<not> mBarrier s"
  shows "\<exists>bl'. run_inv (free_node i s, removeAll i held) bl' \<and> moves bl bl' \<and> extent bl' = extent bl \<and>
     (\<forall>a. aligned a bl \<longrightarrow> aligned a bl')"
proof -
  have "i \<in> set (used_ids bl)" using i inv by (auto simp: run_inv_def)
  then obtain b where "b \<in> set bl" "bused b" "bid b = i" using used_idsE by metis
  then obtain A B where b: "bl = A @ b # B" "bused b" "bid b = i" by (meson split_list)
  have "run_inv (free_node i s, removeAll i held) (free_at A b B)"
    using run_inv_free_at [of s held A b B] inv b nb by simp
  moreover have "moves bl (free_at A b B)" "\<forall>a. aligned a bl \<longrightarrow> aligned a (free_at A b B)"
    using free_at_moves free_at_aligned b(1) by simp_all
  moreover have "extent (free_at A b B) = extent bl"
  proof -
    obtain A' b1 where l: "fuse_left A b = (A', b1)" by fastforce
    obtain b2 B' where r: "fuse_right b1 B = (b2, B')" by fastforce
    have "extent A' + bsize b1 = extent A + bsize b"
    proof (cases "A \<noteq> [] \<and> \<not> bused (last A)")
      case True
      then have "A = A' @ [last A]" "b1 = fuse_blocks (last A) b" using l by (auto simp: fuse_left_def)
      then have "extent A = extent A' + bsize (last A)" by (metis extent_simps add_0_right)
      then show ?thesis using \<open>b1 = _\<close> by (simp add: fuse_blocks_def)
    next
      case False
      then show ?thesis using l by (auto simp: fuse_left_def split: if_splits)
    qed
    moreover have "bsize b2 + extent B' = bsize b1 + extent B"
      using r by (auto simp: fuse_right_def fuse_blocks_def split: list.splits if_splits)
    ultimately show ?thesis by (simp add: free_at_def l r b(1) mark_free_def)
  qed
  ultimately show ?thesis by blast
qed

lemma run_inv_free_all:
  assumes "run_inv (s, held @ is) bl" "\<not> mBarrier s"
  shows "\<exists>bl'. run_inv (fold free_node is s, held) bl' \<and> moves bl bl' \<and> extent bl' = extent bl \<and>
     (\<forall>a. aligned a bl \<longrightarrow> aligned a bl')"
  using assms
proof (induction "is" arbitrary: s bl)
  case Nil
  then show ?case using moves_refl by auto
next
  case (Cons i "is")
  have d: "distinct (held @ i # is)" using Cons.prems(1) by (simp add: run_inv_def)
  obtain bl1 where bl1: "run_inv (free_node i s, removeAll i (held @ i # is)) bl1" "moves bl bl1"
    "extent bl1 = extent bl" "\<forall>a. aligned a bl \<longrightarrow> aligned a bl1"
    using run_inv_free [OF Cons.prems(1) _ Cons.prems(2), of i] by auto
  have "removeAll i (held @ i # is) = held @ is" using d by (simp add: removeAll_id)
  then obtain bl2 where "run_inv (fold free_node is (free_node i s), held) bl2" "moves bl1 bl2"
    "extent bl2 = extent bl1" "\<forall>a. aligned a bl1 \<longrightarrow> aligned a bl2"
    using Cons.IH [of "free_node i s" bl1] bl1(1) Cons.prems(2) by auto
  then show ?case using bl1(2-4) moves_trans by (intro exI [of _ bl2]) auto
qed

text \<open>Clearing the barrier queue commutes with freeing.\<close>

lemma free_node_queue:
  "free_node i (s\<lparr>mBarrierFreeChunks := q\<rparr>) = (free_node i s)\<lparr>mBarrierFreeChunks := q\<rparr>"
proof -
  have upd: "upd_node j f (t\<lparr>mBarrierFreeChunks := q\<rparr>) = (upd_node j f t)\<lparr>mBarrierFreeChunks := q\<rparr>" for j f t
    by (simp add: upd_node_def)
  have er: "erase_node j (t\<lparr>mBarrierFreeChunks := q\<rparr>) = (erase_node j t)\<lparr>mBarrierFreeChunks := q\<rparr>" for j t
    by (simp add: erase_node_def Let_def upd split: option.splits)
  have fu: "fuse_to_left l r (t\<lparr>mBarrierFreeChunks := q\<rparr>) =
      (l, (snd (fuse_to_left l r t))\<lparr>mBarrierFreeChunks := q\<rparr>)" for l r t
    by (simp add: fuse_to_left_def Let_def upd er)
  have fl: "fst (fuse_to_left l r t) = l" for l r t by (simp add: fuse_to_left_def Let_def)
  have ns: "node_size (t\<lparr>mBarrierFreeChunks := q\<rparr>) = node_size t" for t
    by (simp add: node_size_def fun_eq_iff)
  have ef: "eraseFree j (t\<lparr>mBarrierFreeChunks := q\<rparr>) = (eraseFree j t)\<lparr>mBarrierFreeChunks := q\<rparr>" for j t
    by (simp add: eraseFree_def ns)
  have inf: "insertFree j (t\<lparr>mBarrierFreeChunks := q\<rparr>) = (insertFree j t)\<lparr>mBarrierFreeChunks := q\<rparr>" for j t
    by (simp add: insertFree_def ns)
  show ?thesis
    by (simp add: free_node_def Let_def upd fu ef inf fl case_prod_beta split: option.splits)
qed

lemma defer_barrierEnd_eq:
  assumes "\<forall>c \<in> set (mBarrierFreeChunks s). \<exists>i. c = nodeChunk i"
  shows "defer_barrierEnd s = fold free_node (queued s) (s\<lparr>mBarrier := False, mBarrierFreeChunks := []\<rparr>)"
proof -
  have fold1: "\<forall>c \<in> set cs. \<exists>i. c = nodeChunk i \<Longrightarrow> \<not> mBarrier t \<Longrightarrow>
      fold (\<lambda>c t. snd (defer_free c t)) cs t = fold free_node (map (\<lambda>c. the (ch_node c)) cs) t" for cs t
    by (induction cs arbitrary: t) (auto simp: defer_free_def nodeChunk_def)
  have fold2: "(fold free_node is t)\<lparr>mBarrierFreeChunks := []\<rparr> =
      fold free_node is (t\<lparr>mBarrierFreeChunks := []\<rparr>)" for "is" t
    by (induction "is" arbitrary: t) (simp_all add: free_node_queue)
  show ?thesis
    using fold1 [of "mBarrierFreeChunks s" "s\<lparr>mBarrier := False\<rparr>"] assms
    by (simp add: defer_barrierEnd_def Let_def queued_def fold2)
qed

definition op_bytes :: "nat \<Rightarrow> defer_op \<Rightarrow> nat" where
  "op_bytes a op = (case op of
     OpAlloc n separate al \<Rightarrow> UP_DIV n (if al = 0 then a else al) * (if al = 0 then a else al)
   | _ \<Rightarrow> 0)"

lemma plan_alloc_extent: "plan_alloc bl k i bl' \<Longrightarrow> extent bl \<le> extent bl' \<and> extent bl' \<le> extent bl + k"
  by (induction rule: plan_alloc.induct) auto

lemma defer_inv_fields [simp]:
  "defer_inv (s\<lparr>mBarrier := b\<rparr>) bl = defer_inv s bl"
  "defer_inv (s\<lparr>mBarrierFreeChunks := q\<rparr>) bl = defer_inv s bl"
proof -
  have "node_size (s\<lparr>mBarrier := b\<rparr>) = node_size s" "node_size (s\<lparr>mBarrierFreeChunks := q\<rparr>) = node_size s"
    by (simp_all add: node_size_def fun_eq_iff)
  then show "defer_inv (s\<lparr>mBarrier := b\<rparr>) bl = defer_inv s bl"
    "defer_inv (s\<lparr>mBarrierFreeChunks := q\<rparr>) bl = defer_inv s bl"
    by (simp_all add: defer_inv_def)
qed

lemma run_inv_plan:
  assumes inv: "run_inv (s, held) bl" and i: "defer_inv s' bl'" "plan_alloc bl k i bl'"
    and fields: "mTotalSize s' = mTotalSize s" "mBarrier s' = mBarrier s" "mBarrierFreeChunks s' = mBarrierFreeChunks s"
  shows "run_inv (s', i # held) bl'"
proof -
  have "distinct (all_ids bl)" using inv by (simp add: run_inv_def defer_inv_def struct_rep_def)
  then have "i \<notin> set (used_ids bl)" "set (used_ids bl') = insert i (set (used_ids bl))"
    using plan_alloc_used [OF i(2)] by auto
  then show ?thesis using inv i(1) fields by (auto simp: run_inv_def queued_def)
qed

lemma run_inv_alloc:
  assumes inv: "run_inv (s, held) bl" and res: "defer_alloc n separate al s = (ch, s')"
  shows "\<exists>i bl'. ch = nodeChunk i \<and> run_inv (s', i # held) bl' \<and>
     plan_alloc bl (op_bytes (mAlign s) (OpAlloc n separate al)) i bl'"
proof -
  have di: "defer_inv s bl" using inv by (simp add: run_inv_def)
  obtain i bl' where i: "ch = nodeChunk i" "defer_inv s' bl'"
    "plan_alloc bl (op_bytes (mAlign s) (OpAlloc n separate al)) i bl'"
    using defer_alloc_refines [OF di res refl] by (auto simp: op_bytes_def)
  have "run_inv (s', i # held) bl'"
    using run_inv_plan [OF inv i(2,3)] defer_alloc_fields [of n separate al s] res by simp
  then show ?thesis using i by blast
qed

lemma run_inv_step:
  assumes inv: "run_inv st bl" and step: "defer_step op st = Some st'"
  shows "\<exists>bl'. run_inv st' bl' \<and> moves bl bl' \<and> extent bl \<le> extent bl' \<and>
     extent bl' \<le> extent bl + op_bytes (mAlign (fst st)) op \<and> mAlign (fst st') = mAlign (fst st) \<and>
     (\<forall>a. a dvd op_bytes (mAlign (fst st)) op \<longrightarrow> aligned a bl \<longrightarrow> aligned a bl')"
proof -
  obtain s held where st: "st = (s, held)" by fastforce
  show ?thesis
  proof (cases op)
    case (OpAlloc n separate al)
    obtain ch s' where a: "defer_alloc n separate al s = (ch, s')" by fastforce
    obtain i bl' where "ch = nodeChunk i" "run_inv (s', i # held) bl'"
      "plan_alloc bl (op_bytes (mAlign s) op) i bl'"
      using run_inv_alloc [OF inv [unfolded st] a] OpAlloc by auto
    moreover have "mAlign s' = mAlign s" using defer_alloc_fields(3) [of n separate al s] a by simp
    ultimately show ?thesis
      using step a plan_alloc_moves plan_alloc_extent plan_alloc_aligned
      by (intro exI [of _ bl']) (auto simp: st OpAlloc nodeChunk_def)
  next
    case (OpFree i)
    then have i: "i \<in> set held" and st': "st' = (snd (defer_free (nodeChunk i) s), removeAll i held)"
      using step st by (auto split: if_splits)
    show ?thesis
    proof (cases "mBarrier s")
      case True
      then have "st' = (s\<lparr>mBarrierFreeChunks := mBarrierFreeChunks s @ [nodeChunk i]\<rparr>, removeAll i held)"
        using st' by (simp add: defer_free_def)
      moreover have "run_inv \<dots> bl"
        using inv st True i
        by (auto simp: run_inv_def queued_def nodeChunk_def distinct_removeAll)
      ultimately show ?thesis using st by (intro exI [of _ bl]) auto
    next
      case False
      then have e: "st' = (free_node i s, removeAll i held)"
        using st' by (simp add: defer_free_def nodeChunk_def)
      show ?thesis
        using run_inv_free [OF inv [unfolded st] i False] st e by auto
    qed
  next
    case OpBarrierBegin
    then have "st' = (s\<lparr>mBarrier := True\<rparr>, held)"
      using step st by (auto simp: defer_barrierBegin_def split: if_splits)
    moreover have "run_inv \<dots> bl" using inv st by (auto simp: run_inv_def queued_def)
    ultimately show ?thesis using st by (intro exI [of _ bl]) auto
  next
    case OpBarrierEnd
    let ?s1 = "s\<lparr>mBarrier := False, mBarrierFreeChunks := []\<rparr>"
    have e: "st' = (fold free_node (queued s) ?s1, held)"
      using step inv OpBarrierEnd defer_barrierEnd_eq [of s] by (simp add: st run_inv_def)
    have "run_inv (?s1, held @ queued s) bl"
      using inv by (simp add: st run_inv_def queued_def)
    then obtain bl' where "run_inv (fold free_node (queued s) ?s1, held) bl'" "moves bl bl'"
      "extent bl' = extent bl" "\<forall>a. aligned a bl \<longrightarrow> aligned a bl'"
      using run_inv_free_all [of ?s1 held "queued s" bl] by auto
    moreover have "mAlign (fold free_node is t) = mAlign t" for "is" t
      by (induction "is" arbitrary: t) simp_all
    ultimately show ?thesis using st e by (intro exI [of _ bl']) auto
  qed
qed

lemma run_inv_run:
  assumes "run_inv st bl" "defer_run ops st = Some st'"
  shows "\<exists>bl'. run_inv st' bl' \<and> moves bl bl' \<and> extent bl \<le> extent bl' \<and>
     extent bl' \<le> extent bl + sum_list (map (op_bytes (mAlign (fst st))) ops) \<and>
     mAlign (fst st') = mAlign (fst st) \<and>
     (\<forall>a. (\<forall>op \<in> set ops. a dvd op_bytes (mAlign (fst st)) op) \<longrightarrow> aligned a bl \<longrightarrow> aligned a bl')"
  using assms
proof (induction ops arbitrary: st bl)
  case Nil
  then show ?case by (intro exI [of _ bl]) auto
next
  case (Cons op ops)
  obtain st1 where st1: "defer_step op st = Some st1" "defer_run ops st1 = Some st'"
    using Cons.prems(2) by (auto split: option.splits)
  obtain bl1 where bl1: "run_inv st1 bl1" "moves bl bl1" "extent bl \<le> extent bl1"
     "extent bl1 \<le> extent bl + op_bytes (mAlign (fst st)) op" "mAlign (fst st1) = mAlign (fst st)"
     "\<forall>a. a dvd op_bytes (mAlign (fst st)) op \<longrightarrow> aligned a bl \<longrightarrow> aligned a bl1"
    using run_inv_step [OF Cons.prems(1) st1(1)] by blast
  obtain bl2 where "run_inv st' bl2" "moves bl1 bl2" "extent bl1 \<le> extent bl2"
     "extent bl2 \<le> extent bl1 + sum_list (map (op_bytes (mAlign (fst st1))) ops)"
     "mAlign (fst st') = mAlign (fst st1)"
     "\<forall>a. (\<forall>op \<in> set ops. a dvd op_bytes (mAlign (fst st1)) op) \<longrightarrow> aligned a bl1 \<longrightarrow> aligned a bl2"
    using Cons.IH [OF bl1(1) st1(2)] by blast
  then show ?case using bl1 moves_trans by (intro exI [of _ bl2]) auto
qed

lemma run_inv_live: "run_inv st bl \<Longrightarrow> live st = set (used_ids bl)"
  by (auto simp: run_inv_def live_def)

lemma run_inv_live_block:
  assumes "run_inv st bl" "i \<in> live st"
  obtains b where "b \<in> set bl" "bid b = i" "bsize b = node_size (fst st) i"
proof -
  obtain b where b: "b \<in> set bl" "bid b = i"
    using assms run_inv_live used_idsE by metis
  have "struct_rep (fst st) bl" using assms(1) by (auto simp: run_inv_def defer_inv_def)
  then show thesis using that [OF b] struct_rep_size(1) [OF _ b(1)] b(2) by auto
qed

section \<open>Planning ends in one block\<close>

lemma all_free_single:
  assumes "no_free_pair bl" "used_ids bl = []"
  shows "bl = [] \<or> (\<exists>b. bl = [b] \<and> \<not> bused b)"
proof (cases bl)
  case (Cons b B)
  then show ?thesis
    using assms by (cases B) (auto simp: no_free_pair_def successively_Cons split: if_splits)
qed simp

lemma compute_result:
  assumes inv: "run_inv (s, held) bl" and none: "live (s, held) = {}"
  shows "(bl = [] \<and> defer_compute onAlloc s = Some (NO_ERROR, s)) \<or>
    (\<exists>b ns. bl = [b] \<and> length ns = length (mChunks s) \<and> (\<forall>i r. rel b i r \<longrightarrow> mn_offset (ns ! i) = r) \<and>
       defer_compute onAlloc s = Some (defer_apply onAlloc (s\<lparr>mTotalSize := bsize b, mChunks := ns\<rparr>)))"
proof -
  have u: "used_ids bl = []" using run_inv_live [OF inv] none by simp
  have di: "struct_rep s bl" "mset (mFreeList s) = mset (free_ids bl)" "no_free_pair bl" "mTotalSize s = 0"
    using inv by (simp_all add: run_inv_def defer_inv_def)
  consider "bl = []" | b where "bl = [b]" "\<not> bused b"
    using all_free_single [OF di(3) u] by blast
  then show ?thesis
  proof cases
    case 1
    then have "defer_compute onAlloc s = Some (NO_ERROR, s)"
      using di by (simp add: defer_compute_def)
    with 1 show ?thesis by simp
  next
    case (2 b)
    then have fl: "mFreeList s = [bid b]" using di(2) by simp
    have ht: "mHead s = mTail s" using struct_repD(6,7) [OF di(1)] 2 by simp
    obtain ns where ns: "compute_loop (length (mChunks s)) (mHead s) 0 (mChunks s) = Some (bsize b, ns)"
      "length ns = length (mChunks s)" "\<forall>i r. rel b i r \<longrightarrow> mn_offset (ns ! i) = r"
      using compute_loop_single di(1) 2(1) by blast
    have "defer_compute onAlloc s = Some (defer_apply onAlloc (s\<lparr>mTotalSize := bsize b, mChunks := ns\<rparr>))"
      using di(4) fl ht ns(1) by (simp add: defer_compute_def)
    then show ?thesis using 2 ns by blast
  qed
qed

lemma defer_apply_fields:
  assumes "defer_apply onAlloc s = (code, s')"
  shows "mTotalSize s' = mTotalSize s" "length (mChunks s') = length (mChunks s)"
    "i < length (mChunks s) \<Longrightarrow> mn_offset (mChunks s' ! i) = mn_offset (mChunks s ! i)"
  using assms by (auto simp: defer_apply_def Let_def split: if_splits prod.splits)

lemma compute_total_size:
  assumes "run_inv (s, held) bl" "live (s, held) = {}"
    and "defer_compute onAlloc s = Some (NO_ERROR, s3)"
  shows "mTotalSize s3 = extent bl"
  using compute_result [OF assms(1,2), of onAlloc]
proof (elim disjE conjE exE)
  assume "bl = []" "defer_compute onAlloc s = Some (NO_ERROR, s)"
  then show ?thesis using assms(1,3) by (simp add: run_inv_def)
next
  fix b ns
  assume b: "bl = [b]"
    "defer_compute onAlloc s = Some (defer_apply onAlloc (s\<lparr>mTotalSize := bsize b, mChunks := ns\<rparr>))"
  then have "defer_apply onAlloc (s\<lparr>mTotalSize := bsize b, mChunks := ns\<rparr>) = (NO_ERROR, s3)"
    using assms(3) by simp
  from defer_apply_fields(1) [OF this] show ?thesis using b(1) by simp
qed

end
