(* ===== verification/DeferSafety.thy ===== *)
theory DeferSafety
  imports DeferRun
begin

text \<open>
  What \<open>DeferBufferAllocator\<close> promises its clients, as theorems about whole runs: the addresses
  it computes keep simultaneously live chunks apart, planning always ends, the total is bounded on
  both sides, and with one common alignment every offset is aligned. The last section holds the
  places where the code's behaviour is less than that.
\<close>

section \<open>Safety of the computed layout\<close>

definition layout_offset :: "DeferAlloc \<Rightarrow> nat \<Rightarrow> nat" where
  "layout_offset s i = mn_offset (mChunks s ! i)"

lemma final_offset:
  assumes inv: "run_inv st bl" and none: "live st = {}"
    and comp: "defer_compute onAlloc (fst st) = Some (NO_ERROR, s3)"
    and ne: "bl \<noteq> []"
  obtains b where "bl = [b]" "\<And>i r. rel b i r \<Longrightarrow> layout_offset s3 i = r" "mTotalSize s3 = bsize b"
proof -
  obtain s held where st: "st = (s, held)" by fastforce
  obtain b ns where b: "bl = [b]" "length ns = length (mChunks s)"
    "\<forall>i r. rel b i r \<longrightarrow> mn_offset (ns ! i) = r"
    "defer_compute onAlloc s = Some (defer_apply onAlloc (s\<lparr>mTotalSize := bsize b, mChunks := ns\<rparr>))"
    using compute_result [of s held bl onAlloc] inv none st ne by auto
  have ap: "defer_apply onAlloc (s\<lparr>mTotalSize := bsize b, mChunks := ns\<rparr>) = (NO_ERROR, s3)"
    using comp b(4) st by simp
  have "layout_offset s3 i = r" if r: "rel b i r" for i r
  proof -
    have "i \<in> set (all_ids bl)" using r b(1) by (force simp: rel_def bids_def)
    then have "i < length ns" using inv st b(2) by (auto simp: run_inv_def defer_inv_def struct_rep_def)
    then show ?thesis
      using defer_apply_fields(3) [OF ap, of i] b(3) r by (simp add: layout_offset_def)
  qed
  then show thesis using that b(1) defer_apply_fields(1) [OF ap] by simp
qed

lemma final_position:
  assumes inv: "run_inv st bl" and none: "live st = {}"
    and comp: "defer_compute onAlloc (fst st) = Some (NO_ERROR, s3)"
    and in_: "inside bl i n"
  shows "layout_offset s3 i + n \<le> mTotalSize s3"
    "apart bl i n j \<Longrightarrow> layout_offset s3 i + n \<le> layout_offset s3 j"
    "apart bl j m i \<Longrightarrow> layout_offset s3 j + m \<le> layout_offset s3 i"
proof -
  have "bl \<noteq> []" using in_ by (auto simp: inside_def)
  then obtain b where b: "bl = [b]" "\<And>i r. rel b i r \<Longrightarrow> layout_offset s3 i = r" "mTotalSize s3 = bsize b"
    using final_offset [OF inv none comp] by blast
  show "layout_offset s3 i + n \<le> mTotalSize s3" using in_ b by (auto simp: inside_def)
  show "layout_offset s3 i + n \<le> layout_offset s3 j" if "apart bl i n j"
    using that b by (auto simp: apart_def)
  show "layout_offset s3 j + m \<le> layout_offset s3 i" if "apart bl j m i"
    using that b by (auto simp: apart_def)
qed

text \<open>C3: Two chunks that are live at the same moment of a run (held by the client, or given back
  inside a barrier that has not ended) get disjoint address ranges from \<open>compute\<close>, whatever
  requests, reuses, splits and fusions follow, and each range lies within the total size.\<close>

theorem defer_live_disjoint:
  assumes "defer_run ops1 (newDefer root align, []) = Some st1"
    and "defer_run ops2 st1 = Some st2"
    and "live st2 = {}"
    and "defer_compute onAlloc (fst st2) = Some (NO_ERROR, s3)"
    and "i \<in> live st1" "j \<in> live st1" "i \<noteq> j"
  shows "(layout_offset s3 i + node_size (fst st1) i \<le> layout_offset s3 j \<or>
          layout_offset s3 j + node_size (fst st1) j \<le> layout_offset s3 i) \<and>
         layout_offset s3 i + node_size (fst st1) i \<le> mTotalSize s3"
proof -
  obtain bl1 where bl1: "run_inv st1 bl1"
    using run_inv_run [OF run_inv_init assms(1)] by blast
  obtain bl2 where bl2: "run_inv st2 bl2" "moves bl1 bl2"
    using run_inv_run [OF bl1 assms(2)] by blast
  obtain b where b: "b \<in> set bl1" "bid b = i" "bsize b = node_size (fst st1) i"
    using run_inv_live_block [OF bl1 assms(5)] by blast
  obtain c where c: "c \<in> set bl1" "bid c = j" "bsize c = node_size (fst st1) j"
    using run_inv_live_block [OF bl1 assms(6)] by blast
  have "b \<noteq> c" using b(2) c(2) assms(7) by blast
  then have ap: "apart bl2 i (node_size (fst st1) i) j \<or> apart bl2 j (node_size (fst st1) j) i"
    using blocks_apart [OF b(1) c(1)] moves_apart [OF bl2(2)] b c by metis
  have "inside bl2 i (node_size (fst st1) i)"
    using block_inside [OF b(1)] moves_inside [OF bl2(2)] b by metis
  note fp = final_position [OF bl2(1) assms(3,4) this]
  show ?thesis using fp(1) fp(2) [of j] fp(3) [of j] ap by blast
qed

text \<open>The run of the witnesses: two chunks live together, then freed and reused in parts.\<close>

definition demo_ops1 :: "defer_op list" where
  "demo_ops1 = [OpAlloc 100 False 0, OpAlloc 50 False 0]"

definition demo_ops2 :: "defer_op list" where
  "demo_ops2 = [OpFree 0, OpAlloc 20 False 0, OpFree 1, OpFree 0]"

definition demo_init :: defer_state where
  "demo_init = (newDefer freshBuffer 64, [])"

definition demo_alloc :: "nat \<Rightarrow> nat \<Rightarrow> nat \<times> nat" where
  "demo_alloc n a = (4096, 0)"

definition demo_st1 :: defer_state where
  "demo_st1 = the (defer_run demo_ops1 demo_init)"

definition demo_st2 :: defer_state where
  "demo_st2 = the (defer_run demo_ops2 demo_st1)"

definition demo_s3 :: DeferAlloc where
  "demo_s3 = snd (the (defer_compute demo_alloc (fst demo_st2)))"

lemma demo_run:
  "defer_run demo_ops1 (newDefer freshBuffer 64, []) = Some demo_st1"
  "defer_run demo_ops2 demo_st1 = Some demo_st2"
  "live demo_st2 = {}"
  "defer_compute demo_alloc (fst demo_st2) = Some (NO_ERROR, demo_s3)"
  "0 \<in> live demo_st1" "1 \<in> live demo_st1"
  "layout_offset demo_s3 1 = 128"
  by code_simp+

theorem defer_live_disjoint_witness:
  "layout_offset demo_s3 0 + node_size (fst demo_st1) 0 \<le> layout_offset demo_s3 1 \<or>
   layout_offset demo_s3 1 + node_size (fst demo_st1) 1 \<le> layout_offset demo_s3 0"
  using defer_live_disjoint [OF demo_run(1-6)] by simp

section \<open>Planning ends, within bounds\<close>

text \<open>C12: Once every chunk was given back, \<open>compute\<close> ends and never reports
  \<open>INVALID_VALUE\<close>: the unused memory was fused into a single node. It reports \<open>NO_ERROR\<close> unless
  the backing allocator is out of memory.\<close>

theorem defer_compute_succeeds:
  assumes "defer_run ops (newDefer root align, []) = Some st" and "live st = {}"
  shows "\<exists>code s3. defer_compute onAlloc (fst st) = Some (code, s3) \<and>
    (code = NO_ERROR \<or> code = OUT_OF_MEMORY) \<and>
    (\<not> (\<exists>n a. fst (onAlloc n a) = 0) \<longrightarrow> code = NO_ERROR)"
proof -
  obtain s held where st: "st = (s, held)" by fastforce
  obtain bl where bl: "run_inv (s, held) bl"
    using run_inv_run [OF run_inv_init assms(1)] st by blast
  have ap: "fst (defer_apply onAlloc t) = NO_ERROR \<or>
      fst (defer_apply onAlloc t) = OUT_OF_MEMORY \<and> fst (onAlloc (mTotalSize t) (mAlign t)) = 0" for t
    by (simp add: defer_apply_def sb_realloc_def rawChunk_def Let_def)
  have "live (s, held) = {}" using assms(2) st by simp
  from compute_result [OF bl this, of onAlloc]
  consider "defer_compute onAlloc s = Some (NO_ERROR, s)"
    | t where "defer_compute onAlloc s = Some (defer_apply onAlloc t)" by blast
  then show ?thesis
  proof cases
    case 1
    then show ?thesis using st by simp
  next
    case (2 t)
    then show ?thesis
      using ap [of t] st
      by (intro exI [of _ "fst (defer_apply onAlloc t)"] exI [of _ "snd (defer_apply onAlloc t)"])
        (auto simp del: neq0_conv)
  qed
qed

theorem defer_compute_succeeds_witness:
  "\<exists>s3. defer_compute demo_alloc (fst demo_st2) = Some (NO_ERROR, s3)"
proof -
  have r: "defer_run (demo_ops1 @ demo_ops2) (newDefer freshBuffer 64, []) = Some demo_st2"
    using demo_run(1,2) by (simp add: defer_run_append)
  have "\<not> (\<exists>n a. fst (demo_alloc n a) = 0)" by (simp add: demo_alloc_def)
  then show ?thesis
    using defer_compute_succeeds [OF r demo_run(3), of demo_alloc] by auto
qed

text \<open>C15: The planned total is at least the sum of the sizes that were live at any one
  moment, and at most the sum of all rounded requests: reuse never costs more than no reuse.\<close>

theorem defer_total_bounds:
  assumes "defer_run ops1 (newDefer root align, []) = Some st1"
    and "defer_run ops2 st1 = Some st2" and "live st2 = {}"
    and "defer_compute onAlloc (fst st2) = Some (NO_ERROR, s3)"
  shows "(\<Sum>i \<in> live st1. node_size (fst st1) i) \<le> mTotalSize s3 \<and>
    mTotalSize s3 \<le> sum_list (map (op_bytes align) (ops1 @ ops2))"
proof -
  obtain s2 held2 where st2: "st2 = (s2, held2)" by fastforce
  obtain bl1 where bl1: "run_inv st1 bl1" "extent bl1 \<le> sum_list (map (op_bytes align) ops1)"
     "mAlign (fst st1) = align"
    using run_inv_run [OF run_inv_init assms(1)] by (auto simp: newDefer_def)
  obtain bl2 where bl2: "run_inv st2 bl2" "extent bl1 \<le> extent bl2"
    "extent bl2 \<le> extent bl1 + sum_list (map (op_bytes align) ops2)"
    using run_inv_run [OF bl1(1) assms(2)] bl1(3) by auto
  have tot: "mTotalSize s3 = extent bl2"
    using compute_total_size bl2(1) assms(3,4) st2 by simp
  have rep: "struct_rep (fst st1) bl1" using bl1(1) by (auto simp: run_inv_def defer_inv_def)
  have "distinct (used_ids bl1)"
    unfolding used_ids_def using struct_repD(2) [OF rep] by (rule distinct_map_filter)
  then have "(\<Sum>i \<in> live st1. node_size (fst st1) i) = sum_list (map (node_size (fst st1)) (used_ids bl1))"
    by (simp add: run_inv_live [OF bl1(1)] sum_list_distinct_conv_sum_set)
  also have "\<dots> = sum_list (map bsize (filter bused bl1))"
    unfolding used_ids_def map_map comp_def
    using struct_rep_size(1) [OF rep] by (intro arg_cong [where f = sum_list] map_cong) auto
  also have "\<dots> \<le> extent bl1"
    unfolding extent_def by (induction bl1) auto
  finally show ?thesis using tot bl1(2) bl2(2,3) by simp
qed

theorem defer_total_bounds_witness:
  "(\<Sum>i \<in> live demo_st1. node_size (fst demo_st1) i) \<le> mTotalSize demo_s3 \<and>
   mTotalSize demo_s3 \<le> 256"
proof -
  have "sum_list (map (op_bytes 64) (demo_ops1 @ demo_ops2)) = 256" by code_simp
  then show ?thesis using defer_total_bounds [OF demo_run(1-4)] by simp
qed

section \<open>Alignment\<close>

lemma rel_aligned: "aligned a bl \<Longrightarrow> b \<in> set bl \<Longrightarrow> rel b i r \<Longrightarrow> a dvd r"
  by (auto simp: aligned_def rel_def)

text \<open>C16: If every request uses the allocator's own alignment (the default argument 0, or the
  same value), the offset of every chunk that was ever live is a multiple of it.\<close>

theorem defer_offsets_aligned:
  assumes "defer_run ops1 (newDefer root align, []) = Some st1"
    and "defer_run ops2 st1 = Some st2" and "live st2 = {}"
    and "defer_compute onAlloc (fst st2) = Some (NO_ERROR, s3)"
    and "\<forall>n separate al. OpAlloc n separate al \<in> set (ops1 @ ops2) \<longrightarrow> al = 0 \<or> al = align"
    and "i \<in> live st1"
  shows "align dvd layout_offset s3 i"
proof -
  have dv: "align dvd op_bytes align op" if "op \<in> set (ops1 @ ops2)" for op
    using assms(5) that by (cases op) (force simp: op_bytes_def)+
  obtain bl1 where bl1: "run_inv st1 bl1" "mAlign (fst st1) = align" "aligned align bl1"
    using run_inv_run [OF run_inv_init assms(1)] dv by (auto simp: newDefer_def)
  obtain bl2 where bl2: "run_inv st2 bl2" "moves bl1 bl2" "aligned align bl2"
    using run_inv_run [OF bl1(1) assms(2)] dv bl1(2,3) by auto
  obtain b where b: "b \<in> set bl1" "bid b = i" using run_inv_live_block [OF bl1(1) assms(6)] by blast
  obtain k r where k: "k < length bl2" "rel (bl2 ! k) i r"
    using moves_inside [OF bl2(2) block_inside [OF b(1)]] b(2) by (auto simp: inside_def)
  then have "bl2 \<noteq> []" by auto
  then obtain c where c: "bl2 = [c]" "\<And>i r. rel c i r \<Longrightarrow> layout_offset s3 i = r"
    using final_offset [OF bl2(1) assms(3,4)] by blast
  have "rel c i r" using k c(1) by auto
  then show ?thesis using rel_aligned [OF bl2(3)] c by auto
qed

theorem defer_offsets_aligned_witness: "64 dvd layout_offset demo_s3 1"
proof -
  have "\<forall>n separate al. OpAlloc n separate al \<in> set (demo_ops1 @ demo_ops2) \<longrightarrow> al = 0 \<or> al = 64"
    by (auto simp: demo_ops1_def demo_ops2_def)
  then show ?thesis
    using defer_offsets_aligned [OF demo_run(1-4) _ demo_run(6)] by simp
qed

section \<open>One request\<close>

text \<open>C13: \<open>alloc\<close> refines the abstract allocator on blocks: from a state that represents
  the blocks \<open>bl\<close> it hands out a block that was not in use, resized to the rounded request (a
  fresh one at the end, an unused one grown, or an unused one split), and the pointer structure and
  the free index of the new state represent the new blocks.\<close>

theorem defer_alloc_refines_plan:
  assumes "defer_inv s bl" and "defer_alloc n separate al s = (ch, s')"
  shows "\<exists>i bl'. ch = nodeChunk i \<and> plan_alloc bl (op_bytes (mAlign s) (OpAlloc n separate al)) i bl' \<and>
    defer_inv s' bl' \<and> i \<notin> set (used_ids bl) \<and> set (used_ids bl') = insert i (set (used_ids bl))"
proof -
  obtain i bl' where i: "ch = nodeChunk i" "defer_inv s' bl'"
    "plan_alloc bl (op_bytes (mAlign s) (OpAlloc n separate al)) i bl'"
    using defer_alloc_refines [OF assms refl] by (auto simp: op_bytes_def)
  have "distinct (all_ids bl)" using assms(1) by (simp add: defer_inv_def struct_rep_def)
  then show ?thesis using i plan_alloc_used [OF i(3)] by blast
qed

theorem defer_alloc_refines_plan_witness:
  "\<exists>i bl'. plan_alloc [] 64 i bl' \<and> set (used_ids bl') = {i}"
proof -
  have "op_bytes (mAlign (newDefer freshBuffer 64)) (OpAlloc 10 False 0) = 64"
    by (simp add: op_bytes_def newDefer_def UP_DIV_def)
  then show ?thesis
    using defer_alloc_refines_plan [OF defer_inv_new, of 10 False 0 freshBuffer 64] 
    by (metis insert_is_Un list.set(1) prod.collapse sup_bot.right_neutral used_ids_simps(1))
qed

text \<open>C14: \<open>free\<close> refines the abstract allocator: the block goes out of use and is fused with
  an unused left and an unused right neighbour, so that no two unused blocks are ever neighbours,
  the other blocks stay in use, and the free index holds exactly the unused blocks by size.\<close>

theorem defer_free_refines_plan:
  assumes "defer_inv s (A @ b # B)" and "bused b" and "\<not> mBarrier s"
  shows "\<exists>s'. defer_free (nodeChunk (bid b)) s = (True, s') \<and> defer_inv s' (free_at A b B) \<and>
    used_ids (free_at A b B) = used_ids (A @ B)"
  using free_node_refines [OF assms(1,2)] assms(3)
  by (simp add: defer_free_def nodeChunk_def used_ids_free_at)

theorem defer_free_refines_plan_witness:
  "\<exists>s'. defer_free (nodeChunk 0) (snd (defer_alloc 10 False 0 (newDefer freshBuffer 64))) = (True, s') \<and>
     defer_inv s' [Block 0 64 False []]"
proof -
  let ?s = "snd (defer_alloc 10 False 0 (newDefer freshBuffer 64))"
  obtain c s1 where cr: "createMemNode 64 (newDefer freshBuffer 64) = (c, s1)" by fastforce
  then have c: "c = 0" "?s = insert_after c None s1"
    by (simp_all add: defer_alloc_def Let_def newDefer_def UP_DIV_def createMemNode_def)
  have inv: "defer_inv ?s ([] @ Block 0 64 True [] # [])"
    using defer_alloc_tail_refines(2) [OF defer_inv_new cr c(2)] c(1) by simp
  have nb: "\<not> mBarrier ?s" by (simp add: newDefer_def)
  have "free_at [] (Block 0 64 True []) [] = [Block 0 64 False []]"
    by (simp add: free_at_def fuse_left_def fuse_right_def mark_free_def)
  then show ?thesis
    using defer_free_refines_plan [OF inv _ nb] by auto
qed

text \<open>What inserting a node into the list leaves of the sizes and the usage.\<close>

lemma upd_node_other: "(\<And>n. g (f n) = g n) \<Longrightarrow> g (mChunks (upd_node i f s) ! j) = g (mChunks s ! j)"
  by (cases "i < length (mChunks s)"; cases "i = j"; simp add: list_update_beyond)

lemma insert_after_node:
  shows "mn_size (mChunks (insert_after c p s) ! j) = mn_size (mChunks s ! j)"
    "mn_usage (mChunks (insert_after c p s) ! j) = mn_usage (mChunks s ! j)"
  by (simp_all add: insert_after_def Let_def upd_node_other [where g = mn_size] upd_node_other [where g = mn_usage] del: upd_node_simps(1)
      split: option.splits)

lemma defer_alloc_fresh:
  assumes "defer_alloc n separate al s = (ch, s')" and "mFreeList s = [] \<or> separate"
    and "k = op_bytes (mAlign s) (OpAlloc n separate al)"
  shows "ch = nodeChunk (length (mChunks s)) \<and> mFreeList s' = mFreeList s \<and>
    node_size s' (length (mChunks s)) = k \<and> mn_usage (mChunks s' ! length (mChunks s)) \<and>
    (\<forall>j < length (mChunks s). node_size s' j = node_size s j \<and> mn_usage (mChunks s' ! j) = mn_usage (mChunks s ! j))"
proof -
  let ?s1 = "s\<lparr>mChunks := mChunks s @ [newMemNode k]\<rparr>"
  have "ch = nodeChunk (length (mChunks s))" "s' = insert_after (length (mChunks s)) None ?s1"
    using assms by (auto simp: defer_alloc_def Let_def createMemNode_def op_bytes_def)
  then show ?thesis
    using insert_after_node [of "length (mChunks s)" None ?s1] by (simp add: node_size_def nth_append newMemNode_def)
qed

lemma defer_alloc_reuse:
  assumes "defer_alloc n False al s = (ch, s')" and "mFreeList s \<noteq> []" and "k = op_bytes (mAlign s) (OpAlloc n False al)"
    and "i = (case index_lower_bound (node_size s) k (mFreeList s) of Some c \<Rightarrow> c | None \<Rightarrow> last (mFreeList s))"
    and "i < length (mChunks s)"
  shows "ch = nodeChunk i \<and> node_size s' i = k \<and> mn_usage (mChunks s' ! i) \<and>
    (\<forall>j < length (mChunks s). j \<noteq> i \<longrightarrow> node_size s' j = node_size s j \<and> mn_usage (mChunks s' ! j) = mn_usage (mChunks s ! j)) \<and>
    (if k < node_size s i
     then mset (mFreeList s') = add_mset (length (mChunks s)) (mset (remove1 i (mFreeList s))) \<and>
       node_size s' (length (mChunks s)) = node_size s i - k \<and> \<not> mn_usage (mChunks s' ! length (mChunks s))
     else mFreeList s' = remove1 i (mFreeList s))"
proof -
  let ?c = "length (mChunks s)"
  let ?s2 = "upd_node i (\<lambda>n. n\<lparr>mn_usage := True\<rparr>) (s\<lparr>mFreeList := remove1 i (mFreeList s)\<rparr>)"
  let ?t2 = "upd_node ?c (\<lambda>n. n\<lparr>mn_usage := False\<rparr>) (?s2\<lparr>mChunks := mChunks ?s2 @ [newMemNode (node_size s i - k)]\<rparr>)"
  let ?t4 = "insertFree ?c (insert_after ?c (Some i) ?t2)"
  have alloc: "ch = nodeChunk i" "s' = upd_node i (\<lambda>n. n\<lparr>mn_size := k\<rparr>) (if k < node_size s i then ?t4 else ?s2)"
    using assms by (auto simp: defer_alloc_def Let_def createMemNode_def op_bytes_def node_size_def)
  show ?thesis
  proof (cases "k < node_size s i")
    case True
    note at = insert_after_node [of ?c "Some i" ?t2]
    show ?thesis using True alloc assms(5) at
      by (simp add: insertFree_def node_size_def nth_list_update nth_append newMemNode_def)
  next
    case False
    then show ?thesis using alloc assms(5) by (simp add: node_size_def nth_list_update)
  qed
qed

lemma best_chunk:
  assumes "xs \<noteq> []" "sorted_by key xs" and i_def: "i = (case index_lower_bound key k xs of Some c \<Rightarrow> c | None \<Rightarrow> last xs)"
  shows "i \<in> set xs \<and> (if \<exists>j \<in> set xs. k \<le> key j
    then k \<le> key i \<and> (\<forall>j \<in> set xs. k \<le> key j \<longrightarrow> key i \<le> key j) else \<forall>j \<in> set xs. key j \<le> key i)"
proof (cases "index_lower_bound key k xs")
  case None
  then have "\<not> (\<exists>j \<in> set xs. k \<le> key j)" using list_index.best_None [of key k xs] by (metis leD set_mset_mset)
  then show ?thesis using None assms(1) sorted_by_last [OF assms(2)] by (simp add: i_def)
next
  case (Some c)
  then have c: "c \<in> set xs" "k \<le> key c" using list_index.best_Some [OF Some] by simp_all
  then have "\<exists>j \<in> set xs. k \<le> key j" by blast
  moreover have "\<forall>j \<in> set xs. k \<le> key j \<longrightarrow> key c \<le> key j" using list_index.best_least [OF assms(2) Some] by simp
  ultimately show ?thesis using Some c by (simp add: i_def)
qed

text \<open>C17: Reuse is best fit. With nothing unused, or when a chunk of its own is asked for, \<open>alloc\<close> appends a new chunk of the
  rounded size. Otherwise it takes a smallest unused chunk that is large enough, or a largest one if none is; the chunk then
  has the rounded size, is in use and is out of the free index, what was left of a larger one is a new unused chunk in the
  index, and every other chunk stays as it was.\<close>

theorem defer_alloc_best_fit:
  assumes "defer_inv s bl" and "defer_alloc n separate al s = (ch, s')"
    and "k = op_bytes (mAlign s) (OpAlloc n separate al)"
  shows "\<exists>i. ch = nodeChunk i \<and> node_size s' i = k \<and> mn_usage (mChunks s' ! i) \<and> i \<notin> set (mFreeList s') \<and>
    (\<forall>j < length (mChunks s). j \<noteq> i \<longrightarrow> node_size s' j = node_size s j \<and> mn_usage (mChunks s' ! j) = mn_usage (mChunks s ! j)) \<and>
    (if mFreeList s = [] \<or> separate then i = length (mChunks s) \<and> mFreeList s' = mFreeList s
     else i \<in> set (mFreeList s) \<and>
       (if \<exists>j \<in> set (mFreeList s). k \<le> node_size s j
        then k \<le> node_size s i \<and> (\<forall>j \<in> set (mFreeList s). k \<le> node_size s j \<longrightarrow> node_size s i \<le> node_size s j)
        else \<forall>j \<in> set (mFreeList s). node_size s j \<le> node_size s i) \<and>
       (if k < node_size s i
        then mset (mFreeList s') = add_mset (length (mChunks s)) (mset (remove1 i (mFreeList s))) \<and>
          node_size s' (length (mChunks s)) = node_size s i - k \<and> \<not> mn_usage (mChunks s' ! length (mChunks s))
        else mFreeList s' = remove1 i (mFreeList s)))"
proof -
  have free: "mset (mFreeList s) = mset (free_ids bl)" and srt: "sorted_by (node_size s) (mFreeList s)"
    and rep: "struct_rep s bl" using assms(1) by (simp_all add: defer_inv_def)
  have "set (mFreeList s) = set (free_ids bl)" using free by (rule mset_eq_setD)
  then have bound: "\<forall>j \<in> set (mFreeList s). j < length (mChunks s)"
    using free_ids_subset [of bl] struct_repD(4) [OF rep] by auto
  have dist: "distinct (mFreeList s)"
    using struct_repD(2) [OF rep] mset_eq_imp_distinct_iff [OF free] by (simp add: free_ids_def distinct_map_filter)
  show ?thesis
  proof (cases "mFreeList s = [] \<or> separate")
    case True
    then show ?thesis using defer_alloc_fresh [OF assms(2) _ assms(3)] bound by (intro exI [of _ "length (mChunks s)"]) auto
  next
    case False
    define i where "i = (case index_lower_bound (node_size s) k (mFreeList s) of Some c \<Rightarrow> c | None \<Rightarrow> last (mFreeList s))"
    have best: "i \<in> set (mFreeList s) \<and> (if \<exists>j \<in> set (mFreeList s). k \<le> node_size s j
        then k \<le> node_size s i \<and> (\<forall>j \<in> set (mFreeList s). k \<le> node_size s j \<longrightarrow> node_size s i \<le> node_size s j)
        else \<forall>j \<in> set (mFreeList s). node_size s j \<le> node_size s i)"
      by (rule best_chunk [OF _ srt i_def]) (use False in auto)
    then have i: "i < length (mChunks s)" using bound by blast
    have "\<not> separate" "mFreeList s \<noteq> []" using False by auto
    then have r: "ch = nodeChunk i \<and> node_size s' i = k \<and> mn_usage (mChunks s' ! i) \<and>
      (\<forall>j < length (mChunks s). j \<noteq> i \<longrightarrow> node_size s' j = node_size s j \<and> mn_usage (mChunks s' ! j) = mn_usage (mChunks s ! j)) \<and>
      (if k < node_size s i
       then mset (mFreeList s') = add_mset (length (mChunks s)) (mset (remove1 i (mFreeList s))) \<and>
         node_size s' (length (mChunks s)) = node_size s i - k \<and> \<not> mn_usage (mChunks s' ! length (mChunks s))
       else mFreeList s' = remove1 i (mFreeList s))"
      using defer_alloc_reuse [OF _ _ _ i_def i] assms(2,3) by simp
    then have out: "i \<notin> set (mFreeList s')"
      using i dist mset_eq_setD [of "mFreeList s'" "length (mChunks s) # remove1 i (mFreeList s)"] by (auto split: if_splits)
    show ?thesis unfolding if_not_P [OF False] by (intro exI [of _ i]) (use r best out in blast)
  qed
qed

theorem defer_alloc_best_fit_witness:
  "\<exists>i. fst (defer_alloc 20 False 0 (fst demo_st2)) = nodeChunk i \<and> i \<in> set (mFreeList (fst demo_st2)) \<and>
    64 \<le> node_size (fst demo_st2) i \<and> node_size (snd (defer_alloc 20 False 0 (fst demo_st2))) i = 64"
proof -
  obtain bl where "run_inv demo_st2 bl"
    using run_inv_run [OF run_inv_init demo_run(1)] run_inv_run [OF _ demo_run(2)] by blast
  then have inv: "defer_inv (fst demo_st2) bl" by (simp add: run_inv_def case_prod_beta)
  have f: "mFreeList (fst demo_st2) \<noteq> []" "mAlign (fst demo_st2) = 64"
    "\<exists>j \<in> set (mFreeList (fst demo_st2)). 64 \<le> node_size (fst demo_st2) j"
    by code_simp+
  have k: "64 = op_bytes (mAlign (fst demo_st2)) (OpAlloc 20 False 0)"
    by (simp add: f(2) op_bytes_def UP_DIV_def)
  show ?thesis
    using defer_alloc_best_fit [OF inv prod.collapse [symmetric] k] f(1,3) by auto
qed

section \<open>Where the code promises less\<close>

text \<open>The \<open>align\<close> argument of \<open>DeferBufferAllocator::alloc\<close> only rounds the size: a
  chunk requested with alignment 128 is laid out at offset 64 when a smaller request precedes it.\<close>

theorem defer_align_argument_ignored:
  "\<exists>st s3. defer_run [OpAlloc 10 False 0, OpAlloc 10 False 128, OpFree 0, OpFree 1] demo_init = Some st \<and>
     defer_compute demo_alloc (fst st) = Some (NO_ERROR, s3) \<and> layout_offset s3 1 = 64 \<and>
     \<not> 128 dvd layout_offset s3 1"
proof -
  define st where "st = the (defer_run [OpAlloc 10 False 0, OpAlloc 10 False 128, OpFree 0, OpFree 1] demo_init)"
  define s3 where "s3 = snd (the (defer_compute demo_alloc (fst st)))"
  have "defer_run [OpAlloc 10 False 0, OpAlloc 10 False 128, OpFree 0, OpFree 1] demo_init = Some st"
    unfolding st_def by code_simp
  moreover have "defer_compute demo_alloc (fst st) = Some (NO_ERROR, s3)"
    unfolding st_def s3_def by code_simp
  moreover have "layout_offset s3 1 = 64"
    unfolding st_def s3_def by code_simp
  ultimately show ?thesis by (intro exI [of _ st] exI [of _ s3]) simp
qed

text \<open>C37: After the backing allocator failed once, the buffer keeps its old size next to a null
  pointer: a later plan that fits into the old size is reported as applied, and every chunk of it
  gets the null base address.\<close>

theorem sb_realloc_stale_after_oom:
  assumes "sb_realloc onAlloc sz al b = (OUT_OF_MEMORY, b')"
    and "mParent s = b'" and "mTotalSize s \<le> sb_currentSize b" and "mFreeList s \<noteq> []"
    and "ch_first (mPtr s) \<noteq> 0"
  shows "\<exists>s'. defer_apply onAlloc' s = (NO_ERROR, s') \<and> ch_first (mPtr s') = 0 \<and>
    (\<forall>n \<in> set (mChunks s'). mn_base n = ch_second (sb_current b'))"
proof -
  have b': "ch_first (sb_current b') = 0" "sb_currentSize b' = sb_currentSize b" "ch_node (sb_current b') = None"
    using assms(1) by (auto simp: sb_realloc_def Let_def rawChunk_def split: if_splits)
  show ?thesis
    using assms(2-5) b' by (auto simp: defer_apply_def Let_def chunk_ptr_def)
qed

definition oom_buffer :: SingleBuffer where
  "oom_buffer = \<lparr>sb_current = rawChunk 4096 0, sb_currentSize = 128, sb_released = []\<rparr>"

definition oom_state :: DeferAlloc where
  "oom_state = (newDefer (snd (sb_realloc (\<lambda>n a. (0, 0)) 256 64 oom_buffer)) 64)
     \<lparr>mTotalSize := 64, mFreeList := [0], mChunks := [newMemNode 64], mPtr := rawChunk 4096 0\<rparr>"

theorem sb_realloc_stale_after_oom_witness:
  "\<exists>s'. defer_apply (\<lambda>n a. (8192, 0)) oom_state = (NO_ERROR, s') \<and> ch_first (mPtr s') = 0"
proof -
  let ?b' = "snd (sb_realloc (\<lambda>n a. (0, 0)) 256 64 oom_buffer)"
  have r: "sb_realloc (\<lambda>n a. (0, 0)) 256 64 oom_buffer = (OUT_OF_MEMORY, ?b')"
    by (simp add: sb_realloc_def oom_buffer_def rawChunk_def)
  have h: "mParent oom_state = ?b'" "mTotalSize oom_state \<le> sb_currentSize oom_buffer"
    "mFreeList oom_state \<noteq> []" "ch_first (mPtr oom_state) \<noteq> 0"
    by (simp_all add: oom_state_def newDefer_def oom_buffer_def rawChunk_def)
  show ?thesis
    using sb_realloc_stale_after_oom [OF r h, of "\<lambda>n a. (8192, 0)"] by blast
qed

text \<open>A plan with one chunk that was never given back is skipped silently: \<open>compute\<close>
  answers \<open>NO_ERROR\<close> and leaves the total at 0 and the chunk at the null address.\<close>

theorem defer_compute_skips_held_chunk:
  "defer_compute onAlloc (snd (defer_alloc (Suc n) separate 0 (newDefer root align))) =
     Some (NO_ERROR, snd (defer_alloc (Suc n) separate 0 (newDefer root align))) \<and>
   mTotalSize (snd (defer_alloc (Suc n) separate 0 (newDefer root align))) = 0 \<and>
   chunk_ptr (mChunks (snd (defer_alloc (Suc n) separate 0 (newDefer root align)))) (nodeChunk 0) = 0"
  by (simp add: defer_alloc_def newDefer_def Let_def createMemNode_def insert_after_def
      defer_compute_def chunk_ptr_def nodeChunk_def newMemNode_def)

end
