(* ===== verification/EagerAllocator.thy ===== *)
theory EagerAllocator
  imports SizeIndex
begin

text \<open>
  \<open>EagerBufferAllocator\<close> of \<open>source/core/BufferAllocator.cpp\<close>: memory is taken from the parent
  allocator on demand, kept in a free list ordered by size, split on reuse and merged again when
  all parts of a split node are free.

  A \<open>SharedPtr<Node>\<close> is an index into \<open>eNodes\<close>, the nodes ever created; nodes no list refers to
  stay there unused (the destructor's call of \<open>outside->onRelease\<close> is modelled for
  \<open>release(false)\<close> only, in \<open>eReleased\<close>). A pointer of the code is a pair of a base address and an
  offset, the null pointer has base 0. \<open>mUsedList\<close> is an association list, \<open>FREELIST\<close> a list
  sorted by size (theory \<open>SizeIndex\<close>). \<open>mCurrentFreeList\<close> is the index of the current group.
  What the parent allocator answers to \<open>onAlloc(size, align)\<close> is a parameter. Reference counts
  wrap at \<open>2 ^ 64\<close> when decremented (\<open>size_t_sub\<close>), as does the size of the rest of a split.
\<close>

section \<open>Data\<close>

record ENode =
  en_base :: nat
  en_off :: nat
  en_size :: nat
  en_parent :: "nat option"
  en_useCount :: nat

type_synonym freelist = "(nat \<times> nat) list" \<comment> \<open>size and node\<close>

record EagerAlloc =
  eNodes :: "ENode list"
  eUsed :: "((nat \<times> nat) \<times> nat) list"
  eFree :: freelist
  eGroups :: "freelist list"
  eCurrent :: "nat option"
  eAlign :: nat
  eMinAlloc :: nat
  eTotal :: nat
  eReleased :: "(nat \<times> nat) list"

definition newEager :: "nat \<Rightarrow> nat \<Rightarrow> EagerAlloc" where
  "newEager align minAlloc = \<lparr>eNodes = [], eUsed = [], eFree = [], eGroups = [], eCurrent = None,
     eAlign = align, eMinAlloc = minAlloc, eTotal = 0, eReleased = []\<rparr>"

definition newENode :: "nat \<Rightarrow> nat \<Rightarrow> nat \<Rightarrow> nat option \<Rightarrow> ENode" where
  "newENode base off sz parent =
     \<lparr>en_base = base, en_off = off, en_size = sz, en_parent = parent, en_useCount = 0\<rparr>"

definition add_use :: "nat \<Rightarrow> ENode list \<Rightarrow> ENode list" where
  "add_use i ns = ns[i := (ns ! i)\<lparr>en_useCount := en_useCount (ns ! i) + 1\<rparr>]"

definition sub_use :: "nat \<Rightarrow> ENode list \<Rightarrow> ENode list" where
  "sub_use i ns = ns[i := (ns ! i)\<lparr>en_useCount := size_t_sub (en_useCount (ns ! i)) 1\<rparr>]"

definition used_insert ::
  "nat \<times> nat \<Rightarrow> nat \<Rightarrow> ((nat \<times> nat) \<times> nat) list \<Rightarrow> ((nat \<times> nat) \<times> nat) list" where
  \<comment> \<open>\<open>std::map::insert\<close>: keeps an entry that is already there\<close>
  "used_insert k v m = (case map_of m k of Some w \<Rightarrow> m | None \<Rightarrow> (k, v) # m)"

definition used_erase :: "nat \<times> nat \<Rightarrow> ((nat \<times> nat) \<times> nat) list \<Rightarrow> ((nat \<times> nat) \<times> nat) list" where
  "used_erase k m = filter (\<lambda>e. fst e \<noteq> k) m"

definition free_insert :: "ENode list \<Rightarrow> nat \<Rightarrow> freelist \<Rightarrow> freelist" where
  "free_insert ns i fl = index_insert fst (en_size (ns ! i), i) fl"

section \<open>Taking memory from a free list\<close>

definition getFromFreeList ::
  "freelist \<Rightarrow> nat \<Rightarrow> bool \<Rightarrow> nat \<Rightarrow> EagerAlloc \<Rightarrow> (nat \<times> nat) option \<times> freelist \<times> EagerAlloc" where
  "getFromFreeList fl sz permitSplit align s =
     (let needExtraSize = (eAlign s mod align \<noteq> 0);
          realSize0 = (if needExtraSize then sz + align - 1 else sz)
      in case index_lower_bound fst realSize0 fl of
           None \<Rightarrow> (None, fl, s)
         | Some x \<Rightarrow>
             (let i = snd x;
                  n = eNodes s ! i;
                  off = (if needExtraSize then UP_DIV (en_off n) align * align else en_off n);
                  realSize = (if needExtraSize then sz + off - en_off n else realSize0);
                  ns1 = (case en_parent n of
                           Some p \<Rightarrow> if permitSplit then add_use p (eNodes s) else eNodes s
                         | None \<Rightarrow> eNodes s);
                  sizeAlign = UP_DIV realSize (eAlign s) * eAlign s
              in if sizeAlign \<ge> fst x \<or> \<not> permitSplit
                 then (Some (en_base n, off), remove1 x fl,
                       s\<lparr>eNodes := ns1, eUsed := used_insert (en_base n, off) i (eUsed s)\<rparr>)
                 else
                   (let c1 = length ns1;
                        ns2 = add_use i ns1 @
                          [newENode (en_base n) (en_off n) sizeAlign (Some i),
                           newENode (en_base n) (en_off n + sizeAlign) (en_size n - sizeAlign) (Some i)]
                    in (Some (en_base n, off), free_insert ns2 (c1 + 1) (remove1 x fl),
                        s\<lparr>eNodes := ns2, eUsed := used_insert (en_base n, off) c1 (eUsed s)\<rparr>))))"

section \<open>Returning memory\<close>

text \<open>
  The loop that merges upwards, bounded by fuel (every round goes to the parent, whose index is
  smaller); \<open>None\<close> is a loop that did not end.
\<close>

fun merge_up :: "nat \<Rightarrow> nat \<Rightarrow> freelist \<Rightarrow> ENode list \<Rightarrow> (freelist \<times> ENode list) option" where
  "merge_up 0 p fl ns = None"
| "merge_up (Suc fuel) p fl ns =
     (let fl1 = filter (\<lambda>e. en_parent (ns ! snd e) \<noteq> Some p) fl;
          fl2 = free_insert ns p fl1
      in case en_parent (ns ! p) of
           None \<Rightarrow> Some (fl2, ns)
         | Some q \<Rightarrow>
             (let ns1 = sub_use q ns
              in if en_useCount (ns1 ! q) = 0 then merge_up fuel q fl2 ns1 else Some (fl2, ns1)))"

definition returnMemory ::
  "freelist \<Rightarrow> nat \<Rightarrow> bool \<Rightarrow> ENode list \<Rightarrow> (freelist \<times> ENode list) option" where
  "returnMemory fl i permitMerge ns =
     (let fl1 = free_insert ns i fl
      in case en_parent (ns ! i) of
           None \<Rightarrow> Some (fl1, ns)
         | Some p \<Rightarrow>
             (if \<not> permitMerge then Some (fl1, ns)
              else (let ns1 = sub_use p ns
                    in if en_useCount (ns1 ! p) = 0 then merge_up (length ns) p fl1 ns1
                       else Some (fl1, ns1))))"

section \<open>The operations\<close>

definition eager_alloc ::
  "(nat \<Rightarrow> nat \<Rightarrow> nat \<times> nat) \<Rightarrow> nat \<Rightarrow> bool \<Rightarrow> nat \<Rightarrow> EagerAlloc \<Rightarrow> (nat \<times> nat) \<times> EagerAlloc" where
  "eager_alloc onAlloc sz separate align0 s =
     (let align = (if align0 = 0 then eAlign s else align0);
          try1 = (if separate then (None, [], s)
                  else case eCurrent s of
                         None \<Rightarrow> (None, [], s)
                       | Some g \<Rightarrow>
                           (case getFromFreeList (eGroups s ! g) sz False align s of
                              (r, fl, t) \<Rightarrow> (r, fl, t\<lparr>eGroups := (eGroups t)[g := fl]\<rparr>)))
      in case fst try1 of
           Some ptr \<Rightarrow> (ptr, snd (snd try1))
         | None \<Rightarrow>
             (case (if separate then (None, [], s) else getFromFreeList (eFree s) sz True align s) of
                (Some ptr, fl, t) \<Rightarrow> (ptr, t\<lparr>eFree := fl\<rparr>)
              | (None, _, _) \<Rightarrow>
                  (let allocSize = (if eMinAlloc s \<noteq> 0 then ALIMAX (eMinAlloc s) sz else sz);
                       ptr = onAlloc allocSize align;
                       node = length (eNodes s);
                       root = newENode (fst ptr) (snd ptr) allocSize None
                   in if fst ptr = 0 then (ptr, s)
                      else if allocSize > sz
                      then
                        (let sz1 = UP_DIV sz (eAlign s) * eAlign s;
                             rest = size_t_sub allocSize sz1;
                             ns = eNodes s @ [root\<lparr>en_useCount := 1\<rparr>,
                                    newENode (fst ptr) (snd ptr) sz1 (Some node),
                                    newENode (fst ptr) (snd ptr + sz1) rest (Some node)];
                             s1 = s\<lparr>eTotal := eTotal s + allocSize, eNodes := ns,
                                    eUsed := used_insert ptr (node + 1) (eUsed s)\<rparr>
                         in (ptr, case eCurrent s of
                                    Some g \<Rightarrow> s1\<lparr>eGroups := (eGroups s1)
                                                [g := free_insert ns (node + 2) (eGroups s1 ! g)]\<rparr>
                                  | None \<Rightarrow> s1\<lparr>eFree := free_insert ns (node + 2) (eFree s1)\<rparr>))
                      else (ptr, s\<lparr>eTotal := eTotal s + allocSize, eNodes := eNodes s @ [root],
                                   eUsed := (ptr, node) # used_erase ptr (eUsed s)\<rparr>))))"

definition eager_free :: "nat \<times> nat \<Rightarrow> EagerAlloc \<Rightarrow> (bool \<times> EagerAlloc) option" where
  "eager_free ptr s =
     (case map_of (eUsed s) ptr of
        None \<Rightarrow> Some (False, s)
      | Some i \<Rightarrow>
          (let s1 = s\<lparr>eUsed := used_erase ptr (eUsed s)\<rparr>
           in case eCurrent s of
                Some g \<Rightarrow>
                  (case returnMemory (eGroups s ! g) i False (eNodes s) of
                     None \<Rightarrow> None
                   | Some (fl, ns) \<Rightarrow> Some (True, s1\<lparr>eGroups := (eGroups s)[g := fl], eNodes := ns\<rparr>))
              | None \<Rightarrow>
                  (case returnMemory (eFree s) i True (eNodes s) of
                     None \<Rightarrow> None
                   | Some (fl, ns) \<Rightarrow> Some (True, s1\<lparr>eFree := fl, eNodes := ns\<rparr>))))"

definition eager_release :: "bool \<Rightarrow> EagerAlloc \<Rightarrow> EagerAlloc" where
  "eager_release allRelease s =
     (if allRelease then s\<lparr>eUsed := [], eFree := [], eTotal := 0\<rparr>
      else
        (let roots = filter (\<lambda>e. en_parent (eNodes s ! snd e) = None) (eFree s)
         in s\<lparr>eFree := filter (\<lambda>e. en_parent (eNodes s ! snd e) \<noteq> None) (eFree s),
              eTotal := fold (\<lambda>e t. size_t_sub t (fst e)) roots (eTotal s),
              eReleased := eReleased s @
                map (\<lambda>e. (en_base (eNodes s ! snd e), en_off (eNodes s ! snd e))) roots\<rparr>))"

definition eager_barrierBegin :: "EagerAlloc \<Rightarrow> EagerAlloc" where
  "eager_barrierBegin s = s"

fun return_all :: "freelist \<Rightarrow> freelist \<times> ENode list \<Rightarrow> (freelist \<times> ENode list) option" where
  "return_all [] st = Some st"
| "return_all (e # es) (fl, ns) =
     (case returnMemory fl (snd e) True ns of None \<Rightarrow> None | Some st \<Rightarrow> return_all es st)"

definition eager_barrierEnd :: "EagerAlloc \<Rightarrow> EagerAlloc option" where
  "eager_barrierEnd s =
     (case return_all (concat (eGroups s)) (eFree s, eNodes s) of
        None \<Rightarrow> None
      | Some (fl, ns) \<Rightarrow> Some (s\<lparr>eFree := fl, eNodes := ns, eGroups := []\<rparr>))"

definition eager_beginGroup :: "EagerAlloc \<Rightarrow> EagerAlloc" where
  "eager_beginGroup s = s\<lparr>eCurrent := Some (length (eGroups s)), eGroups := eGroups s @ [[]]\<rparr>"

definition eager_endGroup :: "EagerAlloc \<Rightarrow> EagerAlloc" where
  "eager_endGroup s = s\<lparr>eCurrent := None\<rparr>"

end
