(* ===== verification/EagerForest.thy ===== *)
theory EagerForest
  imports EagerAllocator
begin

text \<open>
  The splitting forest of \<open>EagerBufferAllocator\<close>. \<open>forest a ns L I F z\<close> says: \<open>L\<close> are the nodes
  that some list owns, \<open>I\<close> the split nodes above them, \<open>F\<close> the nodes in the main free list; every
  split node is cut into exactly two parts, its \<open>useCount\<close> is the number of its parts that are not
  in the main free list, and the owned nodes have disjoint ranges. \<open>z\<close> names a node whose
  \<open>useCount\<close> may be 0 while a merge is pending. The lemmas follow the node surgery of the code.
\<close>

section \<open>Ranges and parts\<close>

definition sep :: "ENode \<Rightarrow> ENode \<Rightarrow> bool" where
  "sep m n = (en_base m \<noteq> en_base n \<or> en_off m + en_size m \<le> en_off n \<or> en_off n + en_size n \<le> en_off m)"

definition parts :: "ENode list \<Rightarrow> nat set \<Rightarrow> nat \<Rightarrow> nat set" where
  "parts ns A p = {c \<in> A. en_parent (ns ! c) = Some p}"

definition halves :: "ENode \<Rightarrow> ENode \<Rightarrow> ENode \<Rightarrow> bool" where
  "halves p m n = (en_base m = en_base p \<and> en_base n = en_base p \<and> en_off m = en_off p \<and>
     en_off n = en_off p + en_size m \<and> en_size m + en_size n = en_size p)"

definition same_shape :: "ENode \<Rightarrow> ENode \<Rightarrow> bool" where
  "same_shape m n = (en_base m = en_base n \<and> en_off m = en_off n \<and> en_size m = en_size n
     \<and> en_parent m = en_parent n)"

definition forest :: "nat \<Rightarrow> ENode list \<Rightarrow> nat set \<Rightarrow> nat set \<Rightarrow> nat set \<Rightarrow> nat option \<Rightarrow> bool" where
  "forest a ns L I F z \<longleftrightarrow>
     L \<union> I \<subseteq> {..<length ns} \<and> L \<inter> I = {} \<and> F \<subseteq> L \<and>
     (\<forall>c \<in> L \<union> I. \<forall>p. en_parent (ns ! c) = Some p \<longrightarrow> p \<in> I \<and> p < c) \<and>
     (\<forall>p \<in> I. \<exists>c d. c \<noteq> d \<and> parts ns (L \<union> I) p = {c, d} \<and> halves (ns ! p) (ns ! c) (ns ! d)) \<and>
     (\<forall>p \<in> I. en_useCount (ns ! p) = card (parts ns (L \<union> I) p - F)) \<and>
     (\<forall>p \<in> I. Some p \<noteq> z \<longrightarrow> 0 < en_useCount (ns ! p)) \<and>
     (\<forall>i \<in> L. en_useCount (ns ! i) = 0) \<and>
     (\<forall>i \<in> L. \<forall>j \<in> L. i \<noteq> j \<longrightarrow> sep (ns ! i) (ns ! j)) \<and>
     (\<forall>i \<in> L \<union> I. 0 < en_size (ns ! i) \<and> a dvd en_off (ns ! i))"

lemma forestD:
  assumes "forest a ns L I F z"
  shows "\<And>i. i \<in> L \<or> i \<in> I \<Longrightarrow> i < length ns" "L \<inter> I = {}" "F \<subseteq> L"
    "\<And>c p. c \<in> L \<or> c \<in> I \<Longrightarrow> en_parent (ns ! c) = Some p \<Longrightarrow> p \<in> I \<and> p < c"
    "\<And>p. p \<in> I \<Longrightarrow> \<exists>c d. c \<noteq> d \<and> parts ns (L \<union> I) p = {c, d} \<and> halves (ns ! p) (ns ! c) (ns ! d)"
    "\<And>p. p \<in> I \<Longrightarrow> en_useCount (ns ! p) = card (parts ns (L \<union> I) p - F)"
    "\<And>p. p \<in> I \<Longrightarrow> Some p \<noteq> z \<Longrightarrow> 0 < en_useCount (ns ! p)"
    "\<And>i. i \<in> L \<Longrightarrow> en_useCount (ns ! i) = 0"
    "\<And>i j. i \<in> L \<Longrightarrow> j \<in> L \<Longrightarrow> i \<noteq> j \<Longrightarrow> sep (ns ! i) (ns ! j)"
    "\<And>i. i \<in> L \<or> i \<in> I \<Longrightarrow> 0 < en_size (ns ! i)" "\<And>i. i \<in> L \<or> i \<in> I \<Longrightarrow> a dvd en_off (ns ! i)"
proof -
  have f: "L \<union> I \<subseteq> {..<length ns}" "L \<inter> I = {}" "F \<subseteq> L"
    "\<forall>c \<in> L \<union> I. \<forall>p. en_parent (ns ! c) = Some p \<longrightarrow> p \<in> I \<and> p < c"
    "\<forall>p \<in> I. \<exists>c d. c \<noteq> d \<and> parts ns (L \<union> I) p = {c, d} \<and> halves (ns ! p) (ns ! c) (ns ! d)"
    "\<forall>p \<in> I. en_useCount (ns ! p) = card (parts ns (L \<union> I) p - F)"
    "\<forall>p \<in> I. Some p \<noteq> z \<longrightarrow> 0 < en_useCount (ns ! p)"
    "\<forall>i \<in> L. en_useCount (ns ! i) = 0"
    "\<forall>i \<in> L. \<forall>j \<in> L. i \<noteq> j \<longrightarrow> sep (ns ! i) (ns ! j)"
    "\<forall>i \<in> L \<union> I. 0 < en_size (ns ! i) \<and> a dvd en_off (ns ! i)"
    using assms unfolding forest_def by - (elim conjE, assumption)+
  show "\<And>i. i \<in> L \<or> i \<in> I \<Longrightarrow> i < length ns" using f(1) by blast
  show "L \<inter> I = {}" "F \<subseteq> L" by (rule f)+
  show "\<And>c p. c \<in> L \<or> c \<in> I \<Longrightarrow> en_parent (ns ! c) = Some p \<Longrightarrow> p \<in> I \<and> p < c" using f(4) by blast
  show "\<And>p. p \<in> I \<Longrightarrow> \<exists>c d. c \<noteq> d \<and> parts ns (L \<union> I) p = {c, d} \<and> halves (ns ! p) (ns ! c) (ns ! d)"
    by (rule bspec [OF f(5)])
  show "\<And>p. p \<in> I \<Longrightarrow> en_useCount (ns ! p) = card (parts ns (L \<union> I) p - F)" by (rule bspec [OF f(6)])
  show "\<And>p. p \<in> I \<Longrightarrow> Some p \<noteq> z \<Longrightarrow> 0 < en_useCount (ns ! p)" using f(7) by blast
  show "\<And>i. i \<in> L \<Longrightarrow> en_useCount (ns ! i) = 0" by (rule bspec [OF f(8)])
  show "\<And>i j. i \<in> L \<Longrightarrow> j \<in> L \<Longrightarrow> i \<noteq> j \<Longrightarrow> sep (ns ! i) (ns ! j)" using f(9) by blast
  show "\<And>i. i \<in> L \<or> i \<in> I \<Longrightarrow> 0 < en_size (ns ! i)" "\<And>i. i \<in> L \<or> i \<in> I \<Longrightarrow> a dvd en_off (ns ! i)"
    using f(10) by blast+
qed

lemma forestI:
  assumes "\<And>i. i \<in> L \<or> i \<in> I \<Longrightarrow> i < length ns" "L \<inter> I = {}" "F \<subseteq> L"
    "\<And>c p. c \<in> L \<or> c \<in> I \<Longrightarrow> en_parent (ns ! c) = Some p \<Longrightarrow> p \<in> I \<and> p < c"
    "\<And>p. p \<in> I \<Longrightarrow> \<exists>c d. c \<noteq> d \<and> parts ns (L \<union> I) p = {c, d} \<and> halves (ns ! p) (ns ! c) (ns ! d)"
    "\<And>p. p \<in> I \<Longrightarrow> en_useCount (ns ! p) = card (parts ns (L \<union> I) p - F)"
    "\<And>p. p \<in> I \<Longrightarrow> Some p \<noteq> z \<Longrightarrow> 0 < en_useCount (ns ! p)"
    "\<And>i. i \<in> L \<Longrightarrow> en_useCount (ns ! i) = 0"
    "\<And>i j. i \<in> L \<Longrightarrow> j \<in> L \<Longrightarrow> i \<noteq> j \<Longrightarrow> sep (ns ! i) (ns ! j)"
    "\<And>i. i \<in> L \<or> i \<in> I \<Longrightarrow> 0 < en_size (ns ! i)" "\<And>i. i \<in> L \<or> i \<in> I \<Longrightarrow> a dvd en_off (ns ! i)"
  shows "forest a ns L I F z"
  using assms unfolding forest_def by (intro conjI; blast)

lemma forest_empty [simp]: "forest a ns {} {} {} None"
  by (simp add: forest_def)

lemma parts_finite: "finite A \<Longrightarrow> finite (parts ns A p)"
  by (simp add: parts_def)

lemma parts_cong: "(\<And>c. c \<in> A \<Longrightarrow> en_parent (ns ! c) = en_parent (ns' ! c)) \<Longrightarrow> parts ns A p = parts ns' A p"
  by (auto simp: parts_def)

lemma sep_sym: "sep m n = sep n m"
  by (auto simp: sep_def)

lemma sep_cong: "same_shape m m' \<Longrightarrow> same_shape n n' \<Longrightarrow> sep m n = sep m' n'"
  by (simp add: sep_def same_shape_def)

lemma halves_cong:
  "same_shape p p' \<Longrightarrow> same_shape m m' \<Longrightarrow> same_shape n n' \<Longrightarrow> halves p m n = halves p' m' n'"
  by (simp add: halves_def same_shape_def)

lemma add_use_simps [simp]:
  "length (add_use i ns) = length ns" "same_shape (add_use i ns ! j) (ns ! j)"
  by (cases "i < length ns"; cases "i = j"; simp add: add_use_def same_shape_def list_update_beyond)+

lemma sub_use_simps [simp]:
  "length (sub_use i ns) = length ns" "same_shape (sub_use i ns ! j) (ns ! j)"
  by (cases "i < length ns"; cases "i = j"; simp add: sub_use_def same_shape_def list_update_beyond)+

lemma add_use_count:
  "i < length ns \<Longrightarrow> en_useCount (add_use i ns ! j) = en_useCount (ns ! j) + (if i = j then 1 else 0)"
  by (simp add: add_use_def)

lemma sub_use_count:
  "i < length ns \<Longrightarrow> en_useCount (sub_use i ns ! j) =
     (if i = j then size_t_sub (en_useCount (ns ! j)) 1 else en_useCount (ns ! j))"
  by (simp add: sub_use_def)

lemma same_shape_fields:
  "same_shape m n \<Longrightarrow> en_base m = en_base n \<and> en_off m = en_off n \<and> en_size m = en_size n
     \<and> en_parent m = en_parent n"
  by (simp add: same_shape_def)

text \<open>Reference counts do not change the shape; a forest with new counts needs only the counting part.\<close>

lemma forest_recount:
  assumes f: "forest a ns L I F z"
    and len: "length ns' = length ns" and sh: "\<And>i. same_shape (ns' ! i) (ns ! i)" and F': "F' \<subseteq> L"
    and cnt: "\<And>p. p \<in> I \<Longrightarrow> en_useCount (ns' ! p) = card (parts ns (L \<union> I) p - F')"
      "\<And>p. p \<in> I \<Longrightarrow> Some p \<noteq> z' \<Longrightarrow> 0 < en_useCount (ns' ! p)"
      "\<And>i. i \<in> L \<Longrightarrow> en_useCount (ns' ! i) = 0"
  shows "forest a ns' L I F' z'"
proof -
  note d = forestD [OF f]
  have pa: "parts ns' (L \<union> I) p = parts ns (L \<union> I) p" for p
    using sh by (intro parts_cong) (simp add: same_shape_def)
  have "\<exists>c d. c \<noteq> d \<and> parts ns' (L \<union> I) p = {c, d} \<and> halves (ns' ! p) (ns' ! c) (ns' ! d)"
    if "p \<in> I" for p
    using d(5) [OF that] halves_cong [OF sh sh sh] unfolding pa by metis
  moreover have "sep (ns' ! i) (ns' ! j)" if "i \<in> L" "j \<in> L" "i \<noteq> j" for i j
    using d(9) [OF that] sep_cong [OF sh sh] by blast
  moreover have "en_size (ns' ! i) = en_size (ns ! i)" "en_off (ns' ! i) = en_off (ns ! i)"
    "en_parent (ns' ! i) = en_parent (ns ! i)" for i
    using sh [of i] by (simp_all add: same_shape_def)
  ultimately show ?thesis
    using d cnt F' len unfolding forest_def pa by (auto simp: subset_iff)
qed

lemma card_parts_le: "p \<in> I \<Longrightarrow> forest a ns L I F z \<Longrightarrow> card (parts ns (L \<union> I) p - G) \<le> 2"
proof -
  assume "p \<in> I" "forest a ns L I F z"
  then obtain c d where "parts ns (L \<union> I) p = {c, d}" using forestD(5) by metis
  then have "card (parts ns (L \<union> I) p - G) \<le> card {c, d}" by (intro card_mono) auto
  also have "\<dots> \<le> 2" by (simp add: card_insert_if)
  finally show ?thesis .
qed

section \<open>Taking a node out of the free list\<close>

definition use_parent :: "nat \<Rightarrow> ENode list \<Rightarrow> ENode list" where
  "use_parent i ns = (case en_parent (ns ! i) of Some p \<Rightarrow> add_use p ns | None \<Rightarrow> ns)"

lemma forest_finite: "forest a ns L I F z \<Longrightarrow> finite (L \<union> I)"
  by (rule finite_subset [of _ "{..<length ns}"]) (auto simp: forest_def)

lemma forest_take:
  assumes f: "forest a ns L I F None" and i: "i \<in> F"
  shows "forest a (use_parent i ns) L I (F - {i}) None"
proof -
  note d = forestD [OF f]
  have iL: "i \<in> L" using d(3) i by blast
  have other: "parts ns (L \<union> I) p - (F - {i}) = parts ns (L \<union> I) p - F"
    if "en_parent (ns ! i) \<noteq> Some p" for p
    using that by (auto simp: parts_def)
  show ?thesis
  proof (cases "en_parent (ns ! i)")
    case None
    then show ?thesis
      using d other unfolding use_parent_def by (intro forest_recount [OF f]) (auto simp: same_shape_def)
  next
    case (Some q)
    have q: "q \<in> I" "q < length ns" using d(1,4) iL Some by blast+
    have in_q: "i \<in> parts ns (L \<union> I) q" using Some iL by (simp add: parts_def)
    have "card (parts ns (L \<union> I) q - (F - {i})) = Suc (card (parts ns (L \<union> I) q - F))"
    proof -
      have "parts ns (L \<union> I) q - (F - {i}) = insert i (parts ns (L \<union> I) q - F)" using in_q by blast
      then show ?thesis
        using i parts_finite [OF forest_finite [OF f], of ns q] by simp
    qed
    then show ?thesis
      using d other q Some unfolding use_parent_def
      by (intro forest_recount [OF f]) (auto simp: add_use_count)
  qed
qed

section \<open>Splitting an owned node\<close>

lemma forest_split:
  assumes f: "forest a ns L I F None" and i: "i \<in> L" "i \<notin> F"
    and s: "0 < k" "k < en_size (ns ! i)" "a dvd k"
    and ns': "ns' = add_use i ns @ [newENode (en_base (ns ! i)) (en_off (ns ! i)) k (Some i),
                newENode (en_base (ns ! i)) (en_off (ns ! i) + k) (en_size (ns ! i) - k) (Some i)]"
  shows "forest a ns' (L - {i} \<union> {length ns, length ns + 1}) (insert i I) (insert (length ns + 1) F) None"
proof -
  note d = forestD [OF f]
  let ?c = "length ns" and ?e = "length ns + 1"
  let ?L = "L - {i} \<union> {?c, ?e}" and ?I = "insert i I"
  have il: "i < length ns" using d(1) i by blast
  have LI: "?L \<union> ?I = L \<union> I \<union> {?c, ?e}" using i by blast
  have old: "same_shape (ns' ! j) (ns ! j)" "en_useCount (ns' ! j) = en_useCount (ns ! j) + (if j = i then 1 else 0)"
    if "j < length ns" for j
    using that il by (auto simp: ns' nth_append add_use_count)
  have new: "ns' ! ?c = newENode (en_base (ns ! i)) (en_off (ns ! i)) k (Some i)"
    "ns' ! ?e = newENode (en_base (ns ! i)) (en_off (ns ! i) + k) (en_size (ns ! i) - k) (Some i)"
    by (simp_all add: ns' nth_append)
  have fresh: "?c \<notin> L \<union> I" "?e \<notin> L \<union> I" using d(1) by fastforce+
  have noi: "en_parent (ns ! j) \<noteq> Some i" if "j \<in> L \<or> j \<in> I" for j
    using d(2,4) that i(1) by blast
  have par: "parts ns' (?L \<union> ?I) p = (if p = i then {?c, ?e} else parts ns (L \<union> I) p)" for p
  proof -
    have "parts ns' (L \<union> I \<union> {?c, ?e}) p = parts ns' (L \<union> I) p \<union> (if p = i then {?c, ?e} else {})"
      using new by (auto simp: parts_def newENode_def)
    moreover have "parts ns' (L \<union> I) p = parts ns (L \<union> I) p"
      using old(1) d(1) by (intro parts_cong) (auto simp: same_shape_def)
    moreover have "parts ns (L \<union> I) i = {}" using noi by (auto simp: parts_def)
    ultimately show ?thesis unfolding LI by auto
  qed
  have pa: "p \<in> I \<or> p = i" "p < c" if c: "c \<in> ?L \<union> ?I" "en_parent (ns' ! c) = Some p" for c p
  proof (atomize (full), cases "c \<in> L \<union> I")
    case True
    then show "(p \<in> I \<or> p = i) \<and> p < c"
      using c(2) d(1,4) old(1) [of c] by (auto simp: same_shape_def)
  next
    case False
    then have "c = ?c \<or> c = ?e" using c(1) i(1) by blast
    then show "(p \<in> I \<or> p = i) \<and> p < c" using c(2) new il by (auto simp: newENode_def)
  qed
  have hv: "\<exists>c d. c \<noteq> d \<and> parts ns' (?L \<union> ?I) p = {c, d} \<and> halves (ns' ! p) (ns' ! c) (ns' ! d)"
    if p: "p \<in> ?I" for p
  proof (cases "p = i")
    case True
    have "halves (ns' ! i) (ns' ! ?c) (ns' ! ?e)"
      using old(1) [OF il] new s by (simp add: halves_def same_shape_def newENode_def)
    then show ?thesis unfolding par using True by (intro exI [of _ ?c] exI [of _ ?e]) simp
  next
    case False
    then have pI: "p \<in> I" using p by blast
    then obtain c e where ce: "c \<noteq> e" "parts ns (L \<union> I) p = {c, e}" "halves (ns ! p) (ns ! c) (ns ! e)"
      using d(5) by blast
    then have "c \<in> L \<union> I" "e \<in> L \<union> I" by (auto simp: parts_def)
    then have "halves (ns' ! p) (ns' ! c) (ns' ! e)"
      using halves_cong [OF old(1) old(1) old(1), of p c e] d(1) ce(3) pI by auto
    then show ?thesis unfolding par using False ce(1,2) by auto
  qed
  have cnt: "en_useCount (ns' ! p) = card (parts ns' (?L \<union> ?I) p - insert ?e F) \<and> 0 < en_useCount (ns' ! p)"
    if p: "p \<in> ?I" for p
  proof (cases "p = i")
    case True
    have "{?c, ?e} - insert ?e F = {?c}" using fresh(1) d(3) by auto
    moreover have "parts ns' (?L \<union> ?I) i = {?c, ?e}" using par [of i] by (simp only: if_True simp_thms)
    ultimately show ?thesis using True old(2) [OF il] d(8) [OF i(1)] by (simp only:) simp
  next
    case False
    then have pI: "p \<in> I" using p by blast
    have "?e \<notin> parts ns (L \<union> I) p" using fresh by (simp add: parts_def)
    then have "parts ns (L \<union> I) p - insert ?e F = parts ns (L \<union> I) p - F" by auto
    moreover have "parts ns' (?L \<union> ?I) p = parts ns (L \<union> I) p" using par [of p] False by (simp only: if_False)
    ultimately show ?thesis using False old(2) [of p] d(1,6,7) pI by simp
  qed
  have sp: "sep (ns' ! x) (ns' ! y)" if xy: "x \<in> ?L" "y \<in> ?L" "x \<noteq> y" for x y
  proof -
    have in_i: "sep (ns' ! u) (ns' ! w)" if "u \<in> L - {i}" "w = ?c \<or> w = ?e" for u w
    proof -
      have "sep (ns ! u) (ns ! i)" "same_shape (ns' ! u) (ns ! u)"
        using d(9) [of u i] i that old(1) [of u] d(1) by auto
      then show ?thesis using that(2) new s by (auto simp: sep_def same_shape_def newENode_def)
    qed
    have "sep (ns' ! ?c) (ns' ! ?e)" using new by (simp add: sep_def newENode_def)
    moreover have "sep (ns' ! x) (ns' ! y)" if "x \<in> L - {i}" "y \<in> L - {i}"
      using sep_cong [OF old(1) old(1), of x y] d(1,9) that xy(3) by auto
    ultimately show ?thesis using xy in_i [of x y] in_i [of y x] sep_sym by blast
  qed
  have sz: "0 < en_size (ns' ! x) \<and> a dvd en_off (ns' ! x)" if x: "x \<in> ?L \<union> ?I" for x
  proof (cases "x \<in> L \<union> I")
    case True
    then show ?thesis using d(1,10,11) old(1) [of x] by (auto simp: same_shape_def)
  next
    case False
    then have "x = ?c \<or> x = ?e" using x i(1) by blast
    then show ?thesis using new s d(11) [of i] i by (auto simp: newENode_def)
  qed
  have lf: "en_useCount (ns' ! x) = 0" if x: "x \<in> ?L" for x
    using x old(2) [of x] d(1,8) new by (auto simp: newENode_def)
  have bd: "x < length ns'" if "x \<in> ?L \<or> x \<in> ?I" for x
    using that d(1) [of x] il by (auto simp: ns')
  have dj: "?L \<inter> ?I = {}" using d(2) fresh il by auto
  have fs: "insert ?e F \<subseteq> ?L" using d(3) i by blast
  show ?thesis
  proof (rule forestI, goal_cases)
    case 1 then show ?case by (rule bd)
  next
    case 2 show ?case by (rule dj)
  next
    case 3 show ?case by (rule fs)
  next
    case (4 c p) then show ?case using pa [of c p] by blast
  next
    case 5 then show ?case by (rule hv)
  next
    case 6 then show ?case using cnt by blast
  next
    case 7 then show ?case using cnt by blast
  next
    case 8 then show ?case by (rule lf)
  next
    case 9 then show ?case by (rule sp)
  next
    case 10 then show ?case using sz by blast
  next
    case 11 then show ?case using sz by blast
  qed
qed

section \<open>Putting a node back and merging\<close>

definition unuse_parent :: "nat \<Rightarrow> ENode list \<Rightarrow> ENode list" where
  "unuse_parent i ns = (case en_parent (ns ! i) of Some p \<Rightarrow> sub_use p ns | None \<Rightarrow> ns)"

definition pending :: "nat \<Rightarrow> ENode list \<Rightarrow> nat option" where
  "pending i ns = (case en_parent (ns ! i) of
     Some p \<Rightarrow> if en_useCount (ns ! p) = 0 then Some p else None | None \<Rightarrow> None)"

lemma unuse_parent_simps [simp]:
  "length (unuse_parent i ns) = length ns" "same_shape (unuse_parent i ns ! j) (ns ! j)"
proof -
  show "length (unuse_parent i ns) = length ns" by (cases "en_parent (ns ! i)") (simp_all add: unuse_parent_def)
  show "same_shape (unuse_parent i ns ! j) (ns ! j)"
  proof (cases "en_parent (ns ! i)")
    case None then show ?thesis by (simp add: unuse_parent_def same_shape_def)
  next
    case (Some p) then show ?thesis using sub_use_simps(2) by (simp add: unuse_parent_def)
  qed
qed

lemma forest_put:
  assumes f: "forest a ns L I F None" and i: "i \<in> L" "i \<notin> F"
  shows "forest a (unuse_parent i ns) L I (insert i F) (pending i (unuse_parent i ns))"
proof -
  note d = forestD [OF f]
  have other: "parts ns (L \<union> I) p - insert i F = parts ns (L \<union> I) p - F"
    if "en_parent (ns ! i) \<noteq> Some p" for p
    using that by (auto simp: parts_def)
  show ?thesis
  proof (cases "en_parent (ns ! i)")
    case None
    then have "unuse_parent i ns = ns" "pending i ns = None" by (simp_all add: unuse_parent_def pending_def)
    then show ?thesis
      using d i other None by (intro forest_recount [OF f]) (auto simp: same_shape_def)
  next
    case (Some q)
    have q: "q \<in> I" "q < length ns" using d(1,4) i Some by blast+
    have in_q: "i \<in> parts ns (L \<union> I) q" using Some i by (simp add: parts_def)
    have card: "card (parts ns (L \<union> I) q - insert i F) = card (parts ns (L \<union> I) q - F) - 1"
    proof -
      have "parts ns (L \<union> I) q - insert i F = parts ns (L \<union> I) q - F - {i}" by blast
      then show ?thesis
        using i in_q parts_finite [OF forest_finite [OF f], of ns q] by simp
    qed
    have pos: "0 < en_useCount (ns ! q)" using d(7) q by simp
    let ?n = "sub_use q ns"
    have un: "unuse_parent i ns = ?n" using Some by (simp add: unuse_parent_def)
    have par: "en_parent (?n ! i) = Some q" using Some sub_use_simps(2) [of q ns i] by (simp add: same_shape_def)
    have cnt: "en_useCount (?n ! p) = (if q = p then en_useCount (ns ! p) - 1 else en_useCount (ns ! p))" for p
      using q pos by (auto simp: sub_use_count)
    have pen: "pending i ?n = (if en_useCount (?n ! q) = 0 then Some q else None)"
      using par by (simp add: pending_def)
    show ?thesis unfolding un
    proof (rule forest_recount [OF f])
      show "en_useCount (?n ! p) = card (parts ns (L \<union> I) p - insert i F)" if "p \<in> I" for p
        using that card other [of p] Some d(6) [of p] cnt [of p] by (cases "q = p") simp_all
      show "0 < en_useCount (?n ! p)" if "p \<in> I" "Some p \<noteq> pending i ?n" for p
        using that d(7) [of p] unfolding pen cnt by (auto split: if_splits)
      show "en_useCount (?n ! j) = 0" if "j \<in> L" for j
        using that d(2,8) q(1) by (auto simp: cnt)
    qed (use d(3) i in auto)
  qed
qed

lemma forest_merge:
  assumes f: "forest a ns L I F (Some p)" and p: "p \<in> I" "en_useCount (ns ! p) = 0"
  shows "\<exists>c d. c \<noteq> d \<and> {j \<in> F. en_parent (ns ! j) = Some p} = {c, d} \<and> {c, d} \<subseteq> F \<and>
      en_size (ns ! c) + en_size (ns ! d) = en_size (ns ! p) \<and>
      forest a ns (insert p (L - {c, d})) (I - {p}) (F - {c, d}) None"
proof -
  note d = forestD [OF f]
  obtain c e where ce: "c \<noteq> e" "parts ns (L \<union> I) p = {c, e}" "halves (ns ! p) (ns ! c) (ns ! e)"
    using d(5) [OF p(1)] by blast
  have "card ({c, e} - F) = 0" using d(6) [OF p(1)] p(2) ce(2) by simp
  then have sub: "{c, e} \<subseteq> F" by simp
  have ceL: "c \<in> L" "e \<in> L" using sub d(3) by blast+
  have own: "{j \<in> F. en_parent (ns ! j) = Some p} = {c, e}"
  proof
    show "{j \<in> F. en_parent (ns ! j) = Some p} \<subseteq> {c, e}" using ce(2) d(3) by (auto simp: parts_def)
    show "{c, e} \<subseteq> {j \<in> F. en_parent (ns ! j) = Some p}" using ce(2) sub by (auto simp: parts_def)
  qed
  have pL: "p \<notin> L" using d(2) p(1) by blast
  let ?L = "insert p (L - {c, e})" and ?I = "I - {p}"
  have ceI: "c \<notin> I" "e \<notin> I" using d(2) ceL by blast+
  have LI: "?L \<union> ?I = (L \<union> I) - {c, e}" using p(1) ceI ceL pL by blast
  have pc: "en_parent (ns ! c) = Some p" "en_parent (ns ! e) = Some p"
    using ce(2) by (auto simp: parts_def)
  have pa: "parts ns (?L \<union> ?I) q = parts ns (L \<union> I) q" if "q \<noteq> p" for q
    unfolding LI using that pc by (auto simp: parts_def)
  have noF: "parts ns (L \<union> I) q - (F - {c, e}) = parts ns (L \<union> I) q - F" if "q \<noteq> p" for q
    using that pc by (auto simp: parts_def)
  have sp: "sep (ns ! p) (ns ! j)" if j: "j \<in> L - {c, e}" for j
  proof -
    have "sep (ns ! c) (ns ! j)" "sep (ns ! e) (ns ! j)" using d(9) ceL j by auto
    moreover have "0 < en_size (ns ! c)" "0 < en_size (ns ! e)" "0 < en_size (ns ! j)"
      using d(10) ceL j by blast+
    ultimately show ?thesis using ce(3) unfolding sep_def halves_def by auto
  qed
  have "forest a ns ?L ?I (F - {c, e}) None"
  proof (rule forestI, goal_cases)
    case (1 i) then show ?case using d(1) p(1) by blast
  next
    case 2 show ?case using d(2) by blast
  next
    case 3 show ?case using d(3) by blast
  next
    case (4 i q)
    have "i \<in> L \<or> i \<in> I" using 4 p(1) by blast
    then have "q \<in> I" "q < i" using d(4) 4(2) by blast+
    moreover have "q \<noteq> p"
    proof
      assume "q = p"
      then have "i \<in> parts ns (L \<union> I) p" using 4 \<open>i \<in> L \<or> i \<in> I\<close> by (simp add: parts_def)
      then show False using ce(2) 4(1) ceI pL ceL by auto
    qed
    ultimately show ?case by blast
  next
    case (5 q) then show ?case using d(5) [of q] pa [of q] by auto
  next
    case (6 q) then show ?case using d(6) [of q] pa [of q] noF [of q] by auto
  next
    case (7 q) then show ?case using d(7) [of q] by auto
  next
    case (8 i) then show ?case using d(8) [of i] p(2) by auto
  next
    case (9 i j) then show ?case using d(9) [of i j] sp sep_sym by blast
  next
    case (10 i) then show ?case using d(10) p(1) by blast
  next
    case (11 i) then show ?case using d(11) p(1) by blast
  qed
  moreover have "en_size (ns ! c) + en_size (ns ! e) = en_size (ns ! p)" using ce(3) by (simp add: halves_def)
  ultimately show ?thesis using ce(1) own sub by blast
qed

section \<open>Roots\<close>

lemma forest_fresh:
  assumes f: "forest a ns L I F None" and sz: "0 < sz" "a dvd off"
    and fresh: "\<And>i. i \<in> L \<Longrightarrow> sep (ns ! i) (newENode base off sz None)"
  shows "forest a (ns @ [newENode base off sz None]) (insert (length ns) L) I F None"
proof -
  note d = forestD [OF f]
  let ?n = "ns @ [newENode base off sz None]" and ?r = "length ns"
  have r: "?r \<notin> L" "?r \<notin> I" using d(1) by blast+
  have old: "?n ! j = ns ! j" if "j \<in> L \<or> j \<in> I" for j using d(1) [OF that] by (simp add: nth_append)
  have new: "?n ! ?r = newENode base off sz None" by (simp add: nth_append)
  have pa: "parts ?n (insert ?r L \<union> I) q = parts ns (L \<union> I) q" for q
    using old new by (auto simp: parts_def newENode_def)
  show ?thesis
  proof (rule forestI, goal_cases)
    case (1 i) then show ?case using d(1) by fastforce
  next
    case 2 show ?case using d(2) r by blast
  next
    case 3 show ?case using d(3) by blast
  next
    case (4 i q) then show ?case using d(4) [of i q] old [of i] new by (auto simp: newENode_def)
  next
    case (5 q)
    obtain c e where ce: "c \<noteq> e" "parts ns (L \<union> I) q = {c, e}" "halves (ns ! q) (ns ! c) (ns ! e)"
      using d(5) [OF 5] by blast
    then have "c \<in> L \<or> c \<in> I" "e \<in> L \<or> e \<in> I" by (auto simp: parts_def)
    then have "halves (?n ! q) (?n ! c) (?n ! e)" using ce(3) old 5 by simp
    then show ?case unfolding pa using ce(1,2) by blast
  next
    case (6 q) then show ?case using d(6) [of q] old [of q] unfolding pa by simp
  next
    case (7 q) then show ?case using d(7) [of q] old [of q] by simp
  next
    case (8 i) then show ?case using d(8) [of i] old [of i] new by (auto simp: newENode_def)
  next
    case (9 i j) then show ?case using d(9) [of i j] old new fresh sep_sym by auto
  next
    case (10 i) then show ?case using d(10) [of i] old [of i] new sz by (auto simp: newENode_def)
  next
    case (11 i) then show ?case using d(11) [of i] old [of i] new sz by (auto simp: newENode_def)
  qed
qed

lemma forest_drop:
  assumes f: "forest a ns L I F None" and R: "R \<subseteq> F" "\<And>i. i \<in> R \<Longrightarrow> en_parent (ns ! i) = None"
  shows "forest a ns (L - R) I (F - R) None"
proof -
  note d = forestD [OF f]
  have RI: "i \<notin> I" if "i \<in> R" for i using that R(1) d(2,3) by blast
  have pa: "parts ns (L - R \<union> I) q = parts ns (L \<union> I) q" for q
    using R(2) RI by (auto simp: parts_def)
  have pF: "parts ns (L \<union> I) q - (F - R) = parts ns (L \<union> I) q - F" for q
    using R(2) by (auto simp: parts_def)
  show ?thesis
  proof (rule forestI, goal_cases)
    case (5 q) then show ?case unfolding pa by (rule d(5))
  next
    case (6 q) then show ?case unfolding pa pF by (rule d(6))
  next
    case (7 q) then show ?case by (intro d(7)) auto
  qed (use d(1-4,8-11) in blast)+
qed

text \<open>When every owned node is in the main free list, nothing is split any more.\<close>

lemma forest_all_free:
  assumes f: "forest a ns L I L None"
  shows "I = {}" "\<And>i. i \<in> L \<Longrightarrow> en_parent (ns ! i) = None"
proof -
  note d = forestD [OF f]
  show I: "I = {}"
  proof (rule ccontr)
    assume ne: "I \<noteq> {}"
    have fin: "finite I" using forest_finite [OF f] by blast
    let ?p = "Max I"
    have p: "?p \<in> I" using ne fin by simp
    then have "0 < card (parts ns (L \<union> I) ?p - L)" using d(6,7) by fastforce
    then obtain c where "c \<in> parts ns (L \<union> I) ?p - L" by (metis card_gt_0_iff ex_in_conv)
    then have "c \<in> I" "en_parent (ns ! c) = Some ?p" by (auto simp: parts_def)
    then have "?p < c" "c \<le> ?p" using d(4) fin by auto
    then show False by simp
  qed
  show "en_parent (ns ! i) = None" if "i \<in> L" for i
    using d(4) [of i] that I by (cases "en_parent (ns ! i)") auto
qed

end
