(* ===== verification/EagerRun.thy ===== *)
theory EagerRun
  imports EagerForest
begin

text \<open>
  The operations of \<open>EagerBufferAllocator\<close> keep its invariant: \<open>eager_inv\<close> ties the used list, the
  free list and the group lists to the splitting forest of theory \<open>EagerForest\<close> and says that the
  owned nodes tile exactly the memory counted in \<open>mTotalSize\<close>. The step relation \<open>estep\<close> is a
  client that allocates, frees, groups and releases in any order.
\<close>

section \<open>Free lists\<close>

definition ids :: "freelist \<Rightarrow> nat set" where
  "ids fl = snd ` set fl"

definition fl_ok :: "ENode list \<Rightarrow> freelist \<Rightarrow> bool" where
  "fl_ok ns fl \<longleftrightarrow> distinct (map snd fl) \<and> sorted_by fst fl \<and> (\<forall>e \<in> set fl. fst e = en_size (ns ! snd e))"

lemma fl_ok_Nil [simp]: "fl_ok ns []" "ids [] = {}"
  by (simp_all add: fl_ok_def sorted_by_def ids_def)

lemma distinct_map_mset: "mset xs = mset ys \<Longrightarrow> distinct (map f xs) = distinct (map f ys)"
  by (metis mset_eq_imp_distinct_iff mset_map)

lemma ids_insert [simp]: "ids (free_insert ns i fl) = insert i (ids fl)"
  by (simp add: ids_def free_insert_def)

lemma fl_ok_insert: "fl_ok ns fl \<Longrightarrow> i \<notin> ids fl \<Longrightarrow> fl_ok ns (free_insert ns i fl)"
  using distinct_map_mset [of "free_insert ns i fl" "(en_size (ns ! i), i) # fl" snd]
  by (auto simp: fl_ok_def free_insert_def ids_def sorted_by_insert)

lemma fl_ok_cong:
  "fl_ok ns fl \<Longrightarrow> (\<And>i. i \<in> ids fl \<Longrightarrow> en_size (ns' ! i) = en_size (ns ! i)) \<Longrightarrow> fl_ok ns' fl"
  by (auto simp: fl_ok_def ids_def)

lemma fl_ok_filter: "fl_ok ns fl \<Longrightarrow> fl_ok ns (filter P fl)"
  by (auto simp: fl_ok_def sorted_by_def sorted_filter distinct_map_filter)

lemma ids_filter: "ids (filter (\<lambda>e. P (snd e)) fl) = {i \<in> ids fl. P i}"
  by (auto simp: ids_def)

lemma fl_ok_remove1: "fl_ok ns fl \<Longrightarrow> fl_ok ns (remove1 x fl)"
  by (auto simp: fl_ok_def sorted_by_remove1 distinct_map inj_on_def dest: notin_set_remove1)

lemma ids_remove1: "fl_ok ns fl \<Longrightarrow> x \<in> set fl \<Longrightarrow> ids (remove1 x fl) = ids fl - {snd x}"
proof -
  assume *: "fl_ok ns fl" "x \<in> set fl"
  then have "distinct fl" "inj_on snd (set fl)" by (simp_all add: fl_ok_def distinct_map)
  then show ?thesis using *(2) inj_on_image_set_diff [of snd "set fl" "set fl" "{x}"]
    by (simp add: ids_def set_remove1_eq)
qed

lemma fl_ok_nth: "fl_ok ns fl \<Longrightarrow> x \<in> set fl \<Longrightarrow> fst x = en_size (ns ! snd x) \<and> snd x \<in> ids fl"
  by (auto simp: fl_ok_def ids_def)

section \<open>Merging\<close>

definition weight :: "ENode list \<Rightarrow> nat set \<Rightarrow> nat" where
  "weight ns A = (\<Sum>i\<in>A. en_size (ns ! i))"

lemma weight_cong: "(\<And>i. i \<in> A \<Longrightarrow> en_size (ns ! i) = en_size (ns' ! i)) \<Longrightarrow> weight ns A = weight ns' A"
  unfolding weight_def by (rule sum.cong) auto

lemma same_size: "same_shape m n \<Longrightarrow> en_size m = en_size n"
  by (simp add: same_shape_def)

lemma merge_up_ok:
  assumes "forest a ns L I F (Some p)" "p \<in> I" "en_useCount (ns ! p) = 0" "fl_ok ns fl" "ids fl = F" "p < fuel"
  shows "\<exists>fl' ns' L' I'. merge_up fuel p fl ns = Some (fl', ns') \<and> forest a ns' L' I' (ids fl') None \<and>
    fl_ok ns' fl' \<and> L' - ids fl' = L - F \<and> length ns' = length ns \<and>
    (\<forall>i. same_shape (ns' ! i) (ns ! i)) \<and> weight ns L' = weight ns L"
  using assms
proof (induction fuel arbitrary: p fl ns L I F)
  case 0
  then show ?case by simp
next
  case (Suc fuel)
  note d = forestD [OF Suc.prems(1)]
  obtain c e where ce: "c \<noteq> e" "{j \<in> F. en_parent (ns ! j) = Some p} = {c, e}" "{c, e} \<subseteq> F"
      "en_size (ns ! c) + en_size (ns ! e) = en_size (ns ! p)"
      "forest a ns (insert p (L - {c, e})) (I - {p}) (F - {c, e}) None"
    using forest_merge [OF Suc.prems(1-3)] by (elim exE conjE) (rule that)
  let ?L = "insert p (L - {c, e})" and ?I = "I - {p}"
  have pL: "p \<notin> L" "p \<notin> F" using d(2,3) Suc.prems(2) by blast+
  have finL: "finite L" using forest_finite [OF Suc.prems(1)] by blast
  define fl1 where "fl1 = filter (\<lambda>e. en_parent (ns ! snd e) \<noteq> Some p) fl"
  have ids1: "ids fl1 = F - {c, e}"
    unfolding fl1_def using Suc.prems(5) ce(2,3)
    by (subst ids_filter [where P = "\<lambda>j. en_parent (ns ! j) \<noteq> Some p"]) blast
  have ok1: "fl_ok ns fl1" unfolding fl1_def by (rule fl_ok_filter [OF Suc.prems(4)])
  define fl2 where "fl2 = free_insert ns p fl1"
  have ids2: "ids fl2 = insert p (F - {c, e})" by (simp add: fl2_def ids1)
  have ok2: "fl_ok ns fl2" unfolding fl2_def using ok1 ids1 pL by (intro fl_ok_insert) auto
  have put: "forest a (unuse_parent p ns) ?L ?I (ids fl2) (pending p (unuse_parent p ns))"
    unfolding ids2 using forest_put [OF ce(5)] pL by blast
  have wt: "weight ns ?L = weight ns L"
  proof -
    have "weight ns L = weight ns (L - {c, e}) + (en_size (ns ! c) + en_size (ns ! e))"
      unfolding weight_def using finL ce(1,3) d(3)
      by (subst sum.subset_diff [of "{c, e}" L]) auto
    then show ?thesis unfolding weight_def using finL pL ce(4) by simp
  qed
  have used: "?L - ids fl2 = L - F" unfolding ids2 using pL ce(3) by blast
  show ?case
  proof (cases "en_parent (ns ! p)")
    case None
    then have "merge_up (Suc fuel) p fl ns = Some (fl2, ns)" "unuse_parent p ns = ns" "pending p ns = None"
      by (simp_all add: fl1_def fl2_def unuse_parent_def pending_def)
    then show ?thesis
      using put ok2 used wt by (intro exI [of _ fl2] exI [of _ ns] exI [of _ ?L] exI [of _ ?I])
        (simp add: same_shape_def)
  next
    case (Some q)
    define ns1 where "ns1 = sub_use q ns"
    have ns1: "unuse_parent p ns = ns1" using Some by (simp add: unuse_parent_def ns1_def)
    have sh: "same_shape (ns1 ! i) (ns ! i)" for i by (simp add: ns1_def)
    have par: "en_parent (ns1 ! p) = Some q" using Some sh [of p] by (simp add: same_shape_def)
    have ok: "fl_ok ns1 fl2" by (rule fl_ok_cong [OF ok2]) (simp add: same_size [OF sh])
    have q: "q \<in> I" "q < p" using d(4) [of p q] Suc.prems(2) Some by blast+
    show ?thesis
    proof (cases "en_useCount (ns1 ! q) = 0")
      case True
      then have f: "forest a ns1 ?L ?I (ids fl2) (Some q)"
        using put par unfolding ns1 by (simp add: pending_def)
      have "merge_up (Suc fuel) p fl ns = merge_up fuel q fl2 ns1"
        using Some True by (simp add: fl1_def fl2_def ns1_def)
      moreover obtain fl' ns' L' I' where r: "merge_up fuel q fl2 ns1 = Some (fl', ns')"
          "forest a ns' L' I' (ids fl') None" "fl_ok ns' fl'" "L' - ids fl' = ?L - ids fl2"
          "length ns' = length ns1" "\<forall>i. same_shape (ns' ! i) (ns1 ! i)" "weight ns1 L' = weight ns1 ?L"
        using Suc.IH [OF f _ True ok refl] q Suc.prems(6) by auto
      moreover have "same_shape (ns' ! i) (ns ! i)" for i
        using r(6) sh [of i] by (simp add: same_shape_def)
      moreover have "weight ns1 A = weight ns A" for A
        by (rule weight_cong) (simp add: same_size [OF sh])
      ultimately show ?thesis
        using used wt by (intro exI [of _ fl'] exI [of _ ns'] exI [of _ L'] exI [of _ I']) (simp add: ns1_def)
    next
      case False
      then have f: "forest a ns1 ?L ?I (ids fl2) None"
        using put par unfolding ns1 by (simp add: pending_def)
      have "merge_up (Suc fuel) p fl ns = Some (fl2, ns1)"
        using Some False by (simp add: fl1_def fl2_def ns1_def)
      then show ?thesis
        using f ok used wt sh by (intro exI [of _ fl2] exI [of _ ns1] exI [of _ ?L] exI [of _ ?I])
          (simp add: ns1_def)
    qed
  qed
qed

lemma returnMemory_ok:
  assumes f: "forest a ns L I (ids fl) None" and ok: "fl_ok ns fl" and i: "i \<in> L" "i \<notin> ids fl"
  shows "\<exists>fl' ns' L' I'. returnMemory fl i True ns = Some (fl', ns') \<and> forest a ns' L' I' (ids fl') None \<and>
    fl_ok ns' fl' \<and> L' - ids fl' = L - ids fl - {i} \<and> length ns' = length ns \<and>
    (\<forall>i. same_shape (ns' ! i) (ns ! i)) \<and> weight ns L' = weight ns L"
proof -
  note d = forestD [OF f]
  define fl1 where "fl1 = free_insert ns i fl"
  have ids1: "ids fl1 = insert i (ids fl)" by (simp add: fl1_def)
  have ok1: "fl_ok ns fl1" unfolding fl1_def using ok i by (intro fl_ok_insert) auto
  have put: "forest a (unuse_parent i ns) L I (ids fl1) (pending i (unuse_parent i ns))"
    unfolding ids1 by (rule forest_put [OF f i])
  have used: "L - ids fl1 = L - ids fl - {i}" unfolding ids1 by blast
  show ?thesis
  proof (cases "en_parent (ns ! i)")
    case None
    then have "returnMemory fl i True ns = Some (fl1, ns)" "unuse_parent i ns = ns" "pending i ns = None"
      by (simp_all add: fl1_def unuse_parent_def pending_def returnMemory_def)
    then show ?thesis
      using put ok1 used by (intro exI [of _ fl1] exI [of _ ns] exI [of _ L] exI [of _ I])
        (simp add: same_shape_def)
  next
    case (Some q)
    define ns1 where "ns1 = sub_use q ns"
    have ns1: "unuse_parent i ns = ns1" using Some by (simp add: unuse_parent_def ns1_def)
    have sh: "same_shape (ns1 ! j) (ns ! j)" for j by (simp add: ns1_def)
    have par: "en_parent (ns1 ! i) = Some q" using Some sh [of i] by (simp add: same_shape_def)
    have ok2: "fl_ok ns1 fl1" by (rule fl_ok_cong [OF ok1]) (simp add: same_size [OF sh])
    have q: "q \<in> I" "q < length ns" using d(4) [of i q] d(1) [of q] i(1) Some by blast+
    have wt: "weight ns1 A = weight ns A" for A
      by (rule weight_cong) (simp add: same_size [OF sh])
    show ?thesis
    proof (cases "en_useCount (ns1 ! q) = 0")
      case True
      then have f1: "forest a ns1 L I (ids fl1) (Some q)"
        using put par unfolding ns1 by (simp add: pending_def)
      have "returnMemory fl i True ns = merge_up (length ns) q fl1 ns1"
        using Some True by (simp add: fl1_def ns1_def returnMemory_def)
      moreover obtain fl' ns' L' I' where r: "merge_up (length ns) q fl1 ns1 = Some (fl', ns')"
          "forest a ns' L' I' (ids fl') None" "fl_ok ns' fl'" "L' - ids fl' = L - ids fl1"
          "length ns' = length ns1" "\<forall>i. same_shape (ns' ! i) (ns1 ! i)" "weight ns1 L' = weight ns1 L"
        using merge_up_ok [OF f1 q(1) True ok2 refl q(2)] by auto
      moreover have "same_shape (ns' ! j) (ns ! j)" for j
        using r(6) sh [of j] by (simp add: same_shape_def)
      ultimately show ?thesis
        using used wt by (intro exI [of _ fl'] exI [of _ ns'] exI [of _ L'] exI [of _ I']) (simp add: ns1_def)
    next
      case False
      then have f1: "forest a ns1 L I (ids fl1) None"
        using put par unfolding ns1 by (simp add: pending_def)
      have "returnMemory fl i True ns = Some (fl1, ns1)"
        using Some False by (simp add: fl1_def ns1_def returnMemory_def)
      then show ?thesis
        using f1 ok2 used wt sh by (intro exI [of _ fl1] exI [of _ ns1] exI [of _ L] exI [of _ I])
          (simp add: ns1_def)
    qed
  qed
qed

section \<open>The invariant\<close>

type_synonym usedlist = "((nat \<times> nat) \<times> nat) list"

definition in_node :: "ENode list \<Rightarrow> (nat \<times> nat) \<times> nat \<Rightarrow> bool" where
  "in_node ns e = (fst (fst e) = en_base (ns ! snd e) \<and> en_off (ns ! snd e) \<le> snd (fst e) \<and>
     snd (fst e) < en_off (ns ! snd e) + en_size (ns ! snd e))"

definition owners :: "usedlist \<Rightarrow> freelist list \<Rightarrow> freelist \<Rightarrow> nat multiset" where
  "owners U G F = image_mset snd (mset U) + image_mset snd (mset (concat G)) + image_mset snd (mset F)"

definition einv :: "nat \<Rightarrow> ENode list \<Rightarrow> usedlist \<Rightarrow> freelist list \<Rightarrow> freelist \<Rightarrow> nat \<Rightarrow> bool" where
  "einv a ns U G F T \<longleftrightarrow> 0 < a \<and> (\<exists>I. forest a ns (set_mset (owners U G F)) I (ids F) None) \<and>
     fl_ok ns F \<and> (\<forall>g \<in> set G. fl_ok ns g) \<and> (\<forall>i. count (owners U G F) i \<le> 1) \<and>
     (\<forall>e \<in> set U. in_node ns e) \<and> T = weight ns (set_mset (owners U G F))"

definition eager_inv :: "EagerAlloc \<Rightarrow> bool" where
  "eager_inv s \<longleftrightarrow> einv (eAlign s) (eNodes s) (eUsed s) (eGroups s) (eFree s) (eTotal s) \<and>
     (\<forall>g. eCurrent s = Some g \<longrightarrow> g < length (eGroups s))"

lemma ids_owner: "i \<in> ids F \<Longrightarrow> i \<in># owners U G F"
  by (auto simp: ids_def owners_def)

lemma forest_notin: "forest a ns L I F z \<Longrightarrow> length ns \<le> i \<Longrightarrow> i \<notin> L"
  using forestD(1) leD by blast

lemma concat_update:
  assumes "g < length G"
  shows "image_mset f (mset (concat (G[g := y]))) + image_mset f (mset (G ! g)) =
    image_mset f (mset (concat G)) + image_mset f (mset y)"
proof -
  have "concat G = concat (take g G) @ G ! g @ concat (drop (Suc g) G)"
    by (metis assms concat.simps(2) concat_append id_take_nth_drop)
  moreover have "concat (G[g := y]) = concat (take g G) @ y @ concat (drop (Suc g) G)"
    using assms by (simp add: upd_conv_take_nth_drop)
  ultimately show ?thesis by (simp add: ac_simps)
qed

lemma owners_simps [simp]:
  "owners (e # U) G F = add_mset (snd e) (owners U G F)"
  "owners U G (free_insert ns i F) = add_mset i (owners U G F)"
  "owners U ((x # g) # G) F = add_mset (snd x) (owners U (g # G) F)"
  "owners U ([] # G) F = owners U G F"
  "owners U (G @ [[]]) F = owners U G F"
  by (simp_all add: owners_def free_insert_def)

lemma owners_remove1: "x \<in> set F \<Longrightarrow> add_mset (snd x) (owners U G (remove1 x F)) = owners U G F"
proof -
  assume "x \<in> set F"
  then have "mset F = add_mset x (mset (remove1 x F))" by simp
  then show ?thesis unfolding owners_def by (metis add_mset_add_single image_mset_add_mset union_mset_add_mset_right)
qed

lemma owners_group_remove:
  assumes g: "g < length G" and x: "x \<in> set (G ! g)"
  shows "add_mset (snd x) (owners U (G[g := remove1 x (G ! g)]) F) = owners U G F"
proof -
  have m: "mset (G ! g) = add_mset x (mset (remove1 x (G ! g)))" using x by simp
  have "image_mset snd (mset (concat (G[g := remove1 x (G ! g)]))) + image_mset snd (mset (G ! g)) =
      image_mset snd (mset (concat G)) + image_mset snd (mset (remove1 x (G ! g)))"
    by (rule concat_update [OF g])
  then have "add_mset (snd x) (image_mset snd (mset (concat (G[g := remove1 x (G ! g)])))) =
      image_mset snd (mset (concat G))"
    by (subst (asm) m) simp
  then show ?thesis unfolding owners_def
    by (metis union_mset_add_mset_left union_mset_add_mset_right)
qed

lemma owners_group_insert:
  assumes g: "g < length G"
  shows "owners U (G[g := free_insert ns i (G ! g)]) F = add_mset i (owners U G F)"
proof -
  have "image_mset snd (mset (concat (G[g := free_insert ns i (G ! g)]))) + image_mset snd (mset (G ! g)) =
      image_mset snd (mset (concat G)) + image_mset snd (mset (free_insert ns i (G ! g)))"
    by (rule concat_update [OF g])
  then show ?thesis unfolding owners_def by (simp add: free_insert_def)
qed

lemma einvD:
  assumes "einv a ns U G F T"
  shows "0 < a" "fl_ok ns F" "\<And>g. g \<in> set G \<Longrightarrow> fl_ok ns g" "\<And>i. count (owners U G F) i \<le> 1"
    "\<And>e. e \<in> set U \<Longrightarrow> in_node ns e" "T = weight ns (set_mset (owners U G F))"
proof -
  have v: "0 < a" "fl_ok ns F" "\<forall>g \<in> set G. fl_ok ns g" "\<forall>i. count (owners U G F) i \<le> 1"
      "\<forall>e \<in> set U. in_node ns e" "T = weight ns (set_mset (owners U G F))"
    using assms unfolding einv_def by - (elim conjE, assumption)+
  show "0 < a" "fl_ok ns F" "T = weight ns (set_mset (owners U G F))" by (rule v)+
  show "\<And>g. g \<in> set G \<Longrightarrow> fl_ok ns g" by (rule bspec [OF v(3)])
  show "\<And>i. count (owners U G F) i \<le> 1" by (rule spec [OF v(4)])
  show "\<And>e. e \<in> set U \<Longrightarrow> in_node ns e" by (rule bspec [OF v(5)])
qed

lemma einv_forest:
  assumes "einv a ns U G F T"
  obtains I where "forest a ns (set_mset (owners U G F)) I (ids F) None"
proof -
  have "\<exists>I. forest a ns (set_mset (owners U G F)) I (ids F) None"
    using assms unfolding einv_def by (elim conjE)
  then show thesis using that by blast
qed

lemma einvI:
  assumes "0 < a" "forest a ns L I (ids F) None" "set_mset (owners U G F) = L" "fl_ok ns F"
    "\<And>g. g \<in> set G \<Longrightarrow> fl_ok ns g" "\<And>i. count (owners U G F) i \<le> 1"
    "\<And>e. e \<in> set U \<Longrightarrow> in_node ns e" "T = weight ns L"
  shows "einv a ns U G F T"
  unfolding einv_def assms(3)
proof (intro conjI ballI allI)
  show "\<exists>I. forest a ns L I (ids F) None" using assms(2) by blast
  show "0 < a" "fl_ok ns F" "T = weight ns L" by (rule assms)+
  show "\<And>x. x \<in> set G \<Longrightarrow> fl_ok ns x" by (rule assms)
  show "\<And>i. count (owners U G F) i \<le> 1" by (rule assms)
  show "\<And>x. x \<in> set U \<Longrightarrow> in_node ns x" by (rule assms)
qed

lemma einv_used_cong: "mset U = mset V \<Longrightarrow> einv a ns U G F T = einv a ns V G F T"
proof -
  assume m: "mset U = mset V"
  have "set U = set V" using m by (rule mset_eq_setD)
  then show ?thesis unfolding einv_def owners_def m by simp
qed

lemma in_node_cong: "same_shape (ns' ! snd e) (ns ! snd e) \<Longrightarrow> in_node ns' e = in_node ns e"
  by (simp add: in_node_def same_shape_def)

lemma in_node_sep: "in_node ns (k, i) \<Longrightarrow> in_node ns (k, j) \<Longrightarrow> \<not> sep (ns ! i) (ns ! j)"
  by (auto simp: in_node_def sep_def)

text \<open>Every address handed out names one node.\<close>

lemma einv_key_unique:
  assumes v: "einv a ns U G F T" and k: "in_node ns (k, i)" "i \<in># owners U G F" "i \<notin> snd ` set U"
  shows "k \<notin> fst ` set U"
proof
  assume "k \<in> fst ` set U"
  then obtain j where j: "(k, j) \<in> set U" by auto
  obtain I where I: "forest a ns (set_mset (owners U G F)) I (ids F) None"
    by (rule einv_forest [OF v])
  have "j \<in># owners U G F" using j by (force simp: owners_def)
  moreover have "j \<noteq> i" using j k(3) by force
  ultimately have "sep (ns ! i) (ns ! j)" using forestD(9) [OF I] k(2) by blast
  then show False using in_node_sep [OF k(1)] einvD(5) [OF v j] by blast
qed

lemma einv_keys:
  assumes v: "einv a ns U G F T"
  shows "distinct (map fst U)" "distinct (map snd U)"
proof -
  obtain I where I: "forest a ns (set_mset (owners U G F)) I (ids F) None"
    by (rule einv_forest [OF v])
  have "count (mset (map snd U)) i \<le> 1" for i
    using einvD(4) [OF v, of i] by (simp add: owners_def)
  then show ds: "distinct (map snd U)"
    unfolding distinct_count_atmost_1
    by (metis One_nat_def count_greater_zero_iff count_mset_0_iff le_antisym less_eq_Suc_le set_mset_mset)
  show "distinct (map fst U)"
  proof (subst distinct_map, rule conjI)
    show "distinct U" using ds by (simp add: distinct_map)
    show "inj_on fst (set U)"
    proof (rule inj_onI)
      fix x y assume xy: "x \<in> set U" "y \<in> set U" "fst x = fst y"
      have "in_node ns (fst x, snd x)" using einvD(5) [OF v xy(1)] by simp
      moreover have "in_node ns (fst x, snd y)" using einvD(5) [OF v xy(2)] xy(3) by simp
      ultimately have "\<not> sep (ns ! snd x) (ns ! snd y)" by (rule in_node_sep)
      moreover have "snd x \<in># owners U G F" "snd y \<in># owners U G F" using xy by (auto simp: owners_def)
      ultimately have "snd x = snd y" using forestD(9) [OF I] by blast
      then show "x = y" using xy(3) by (simp add: prod_eq_iff)
    qed
  qed
qed

end
