(* ===== verification/EagerOps.thy ===== *)
theory EagerOps
  imports EagerRun
begin

text \<open>
  Each piece of the operations of \<open>EagerBufferAllocator\<close> keeps the invariant \<open>einv\<close>: taking a node
  from a group list or from the free list, splitting, adding a root, returning to a group or to the
  free list, dropping the free roots. The operations themselves follow by composing the pieces in
  the order of the code.
\<close>

section \<open>Taking and splitting\<close>

lemma set_owners_remove:
  assumes "\<And>j. count (owners U G F) j \<le> 1" "add_mset i A = owners U G F"
  shows "set_mset A = set_mset (owners U G F) - {i}" "i \<notin># A" "\<And>j. count A j \<le> 1"
proof -
  have c: "count (owners U G F) j = (if j = i then Suc (count A j) else count A j)" for j
    using assms(2) by (metis count_add_mset)
  show n: "i \<notin># A" using assms(1) [of i] c [of i] by (simp add: not_in_iff)
  show "set_mset A = set_mset (owners U G F) - {i}" using n unfolding assms(2) [symmetric] by auto
  show "count A j \<le> 1" for j using assms(1) [of j] c [of j] by (auto split: if_splits)
qed

lemma einv_hit_group:
  assumes v: "einv a ns U G F T" and g: "g < length G" and x: "x \<in> set (G ! g)"
    and k: "in_node ns (k, snd x)"
  shows "einv a ns ((k, snd x) # U) (G[g := remove1 x (G ! g)]) F T"
proof -
  obtain I where f: "forest a ns (set_mset (owners U G F)) I (ids F) None" by (rule einv_forest [OF v])
  note d = einvD [OF v]
  let ?G = "G[g := remove1 x (G ! g)]"
  have o: "owners ((k, snd x) # U) ?G F = owners U G F" using owners_group_remove [OF g x] by simp
  show ?thesis
  proof (rule einvI [OF d(1) f])
    show "set_mset (owners ((k, snd x) # U) ?G F) = set_mset (owners U G F)" by (simp only: o)
    show "fl_ok ns h" if "h \<in> set ?G" for h
      using set_update_subset_insert [of G g "remove1 x (G ! g)"] that d(3) nth_mem [OF g] fl_ok_remove1 by blast
    show "count (owners ((k, snd x) # U) ?G F) i \<le> 1" for i unfolding o by (rule d(4))
    show "in_node ns e" if "e \<in> set ((k, snd x) # U)" for e
      using that k d(5) [of e] by (metis set_ConsD)
  qed (rule d)+
qed

lemma use_parent_simps [simp]:
  "length (use_parent i ns) = length ns" "same_shape (use_parent i ns ! j) (ns ! j)"
proof -
  show "length (use_parent i ns) = length ns" by (cases "en_parent (ns ! i)") (simp_all add: use_parent_def)
  show "same_shape (use_parent i ns ! j) (ns ! j)"
  proof (cases "en_parent (ns ! i)")
    case None then show ?thesis by (simp add: use_parent_def same_shape_def)
  next
    case (Some p) then show ?thesis using add_use_simps(2) by (simp add: use_parent_def)
  qed
qed

lemma einv_take:
  assumes v: "einv a ns U G F T" and x: "x \<in> set F" and k: "in_node ns (k, snd x)"
  shows "einv a (use_parent (snd x) ns) ((k, snd x) # U) G (remove1 x F) T"
proof -
  obtain I where f: "forest a ns (set_mset (owners U G F)) I (ids F) None" by (rule einv_forest [OF v])
  note d = einvD [OF v]
  let ?n = "use_parent (snd x) ns"
  have i: "snd x \<in> ids F" using x by (simp add: ids_def)
  have o: "owners ((k, snd x) # U) G (remove1 x F) = owners U G F" using owners_remove1 [OF x] by simp
  have sz: "en_size (?n ! j) = en_size (ns ! j)" for j by (rule same_size) simp
  show ?thesis
  proof (rule einvI [OF d(1)])
    show "forest a ?n (set_mset (owners U G F)) I (ids (remove1 x F)) None"
      unfolding ids_remove1 [OF d(2) x] by (rule forest_take [OF f i])
    show "set_mset (owners ((k, snd x) # U) G (remove1 x F)) = set_mset (owners U G F)" by (simp only: o)
    show "fl_ok ?n (remove1 x F)" by (rule fl_ok_cong [OF fl_ok_remove1 [OF d(2)]]) (rule sz)
    show "fl_ok ?n h" if "h \<in> set G" for h by (rule fl_ok_cong [OF d(3) [OF that]]) (rule sz)
    show "count (owners ((k, snd x) # U) G (remove1 x F)) i \<le> 1" for i unfolding o by (rule d(4))
    show "in_node ?n e" if "e \<in> set ((k, snd x) # U)" for e
      using that k d(5) in_node_cong [OF use_parent_simps(2)] by (metis set_ConsD)
    show "T = weight ?n (set_mset (owners U G F))"
      unfolding d(6) by (rule weight_cong) (rule sz [symmetric])
  qed
qed

lemma einv_split:
  assumes v: "einv a ns ((k, i) # U) G F T"
    and c: "0 < c" "c < en_size (ns ! i)" "a dvd c" "snd k < en_off (ns ! i) + c"
    and ns': "ns' = add_use i ns @ [newENode (en_base (ns ! i)) (en_off (ns ! i)) c (Some i),
                newENode (en_base (ns ! i)) (en_off (ns ! i) + c) (en_size (ns ! i) - c) (Some i)]"
  shows "einv a ns' ((k, length ns) # U) G (free_insert ns' (length ns + 1) F) T"
proof -
  let ?O = "owners ((k, i) # U) G F" and ?A = "owners U G F"
  obtain I where f: "forest a ns (set_mset ?O) I (ids F) None" by (rule einv_forest [OF v])
  note d = einvD [OF v]
  have A: "set_mset ?A = set_mset ?O - {i}" "i \<notin># ?A" "\<And>j. count ?A j \<le> 1"
    using set_owners_remove [OF d(4), of i ?A] by simp_all
  have iF: "i \<notin> ids F" using A(2) ids_owner by blast
  have iO: "i \<in># ?O" by simp
  have fs: "forest a ns' (set_mset ?O - {i} \<union> {length ns, length ns + 1}) (insert i I)
      (insert (length ns + 1) (ids F)) None"
    by (rule forest_split [OF f iO iF c(1-3) ns'])
  have il: "i < length ns" using forestD(1) [OF f] iO by blast
  have sh: "same_shape (ns' ! j) (ns ! j)" if "j < length ns" for j
    using that by (simp add: ns' nth_append)
  have lt: "j < length ns" if "j \<in># ?A" for j using forestD(1) [OF f] that A(1) by blast
  have szA: "en_size (ns' ! j) = en_size (ns ! j)" if "j \<in># ?A" for j
    using same_size [OF sh [OF lt [OF that]]] .
  let ?F = "free_insert ns' (length ns + 1) F"
  have o: "owners ((k, length ns) # U) G ?F = add_mset (length ns) (add_mset (length ns + 1) ?A)" by simp
  have new: "ns' ! length ns = newENode (en_base (ns ! i)) (en_off (ns ! i)) c (Some i)"
    "ns' ! (length ns + 1) = newENode (en_base (ns ! i)) (en_off (ns ! i) + c) (en_size (ns ! i) - c) (Some i)"
    by (simp_all add: ns' nth_append)
  have fresh: "length ns \<notin># ?A" "length ns + 1 \<notin># ?A" using lt by fastforce+
  show ?thesis
  proof (rule einvI [OF d(1)])
    show "forest a ns' (set_mset ?O - {i} \<union> {length ns, length ns + 1}) (insert i I) (ids ?F) None"
      using fs by simp
    show "set_mset (owners ((k, length ns) # U) G ?F) = set_mset ?O - {i} \<union> {length ns, length ns + 1}"
      unfolding o A(1) [symmetric] by auto
    have "fl_ok ns' F" by (rule fl_ok_cong [OF d(2)]) (rule szA, rule ids_owner)
    then show "fl_ok ns' ?F" using fresh ids_owner [of "length ns + 1" F U G] by (intro fl_ok_insert) blast+
    show "fl_ok ns' h" if "h \<in> set G" for h
    proof (rule fl_ok_cong [OF d(3) [OF that]])
      fix j assume "j \<in> ids h"
      then have "j \<in># ?A" using that by (auto simp: ids_def owners_def)
      then show "en_size (ns' ! j) = en_size (ns ! j)" by (rule szA)
    qed
    show "count (owners ((k, length ns) # U) G ?F) j \<le> 1" for j
      unfolding o using A(3) [of j] fresh by (auto simp: not_in_iff)
    show "in_node ns' e" if e: "e \<in> set ((k, length ns) # U)" for e
    proof (cases "e = (k, length ns)")
      case True
      then show ?thesis using d(5) [of "(k, i)"] new(1) c(4) by (simp add: in_node_def newENode_def)
    next
      case False
      then have "e \<in> set U" using e by simp
      then have "snd e \<in># ?A" by (auto simp: owners_def)
      then show ?thesis using d(5) [of e] \<open>e \<in> set U\<close> in_node_cong [OF sh [OF lt]] by simp
    qed
    have wA: "weight ns' (set_mset ?A) = weight ns (set_mset ?A)" by (rule weight_cong) (rule szA)
    have "T = en_size (ns ! i) + weight ns (set_mset ?A)"
      unfolding d(6) using A(2) by (simp add: weight_def)
    moreover have "weight ns' (set_mset ?A \<union> {length ns, length ns + 1}) =
        c + (en_size (ns ! i) - c) + weight ns' (set_mset ?A)"
      unfolding weight_def using fresh new by (simp add: newENode_def)
    ultimately show "T = weight ns' (set_mset ?O - {i} \<union> {length ns, length ns + 1})"
      unfolding A(1) [symmetric] using wA c(2) by simp
  qed
qed

lemma einv_fresh:
  assumes v: "einv a ns U G F T" and s: "0 < sz" "a dvd snd k"
    and fr: "\<And>i. i \<in># owners U G F \<Longrightarrow> sep (ns ! i) (newENode (fst k) (snd k) sz None)"
  shows "einv a (ns @ [newENode (fst k) (snd k) sz None]) ((k, length ns) # U) G F (T + sz)"
proof -
  let ?O = "owners U G F" and ?n = "ns @ [newENode (fst k) (snd k) sz None]"
  obtain I where f: "forest a ns (set_mset ?O) I (ids F) None" by (rule einv_forest [OF v])
  note d = einvD [OF v]
  have lt: "j < length ns" if "j \<in># ?O" for j using forestD(1) [OF f] that by blast
  have old: "?n ! j = ns ! j" if "j \<in># ?O" for j using lt [OF that] by (simp add: nth_append)
  have fresh: "length ns \<notin># ?O" using lt by blast
  show ?thesis
  proof (rule einvI [OF d(1)])
    show "forest a ?n (insert (length ns) (set_mset ?O)) I (ids F) None"
      by (rule forest_fresh [OF f s fr])
    show "set_mset (owners ((k, length ns) # U) G F) = insert (length ns) (set_mset ?O)" by simp
    show "fl_ok ?n F" by (rule fl_ok_cong [OF d(2)]) (simp add: old ids_owner)
    show "fl_ok ?n h" if "h \<in> set G" for h
    proof (rule fl_ok_cong [OF d(3) [OF that]])
      fix j assume "j \<in> ids h"
      then have "j \<in># ?O" using that by (auto simp: ids_def owners_def)
      then show "en_size (?n ! j) = en_size (ns ! j)" by (simp add: old)
    qed
    show "count (owners ((k, length ns) # U) G F) j \<le> 1" for j
      using d(4) [of j] fresh by (auto simp: not_in_iff)
    show "in_node ?n e" if e: "e \<in> set ((k, length ns) # U)" for e
    proof (cases "e = (k, length ns)")
      case True
      then show ?thesis using s(1) by (simp add: in_node_def newENode_def)
    next
      case False
      then have "e \<in> set U" using e by simp
      moreover from this have "snd e \<in># ?O" by (auto simp: owners_def)
      ultimately show ?thesis using d(5) [of e] old by (simp add: in_node_def)
    qed
    show "T + sz = weight ?n (insert (length ns) (set_mset ?O))"
      using fresh d(6) weight_cong [of "set_mset ?O" ?n ns] old
      by (simp add: weight_def newENode_def)
  qed
qed

section \<open>Returning\<close>

lemma einv_free_group:
  assumes v: "einv a ns ((k, i) # U) G F T" and g: "g < length G"
  shows "einv a ns U (G[g := free_insert ns i (G ! g)]) F T"
proof -
  let ?G = "G[g := free_insert ns i (G ! g)]" and ?O = "owners ((k, i) # U) G F"
  obtain I where f: "forest a ns (set_mset ?O) I (ids F) None" by (rule einv_forest [OF v])
  note d = einvD [OF v]
  have o: "owners U ?G F = ?O" using owners_group_insert [OF g] by simp
  have "i \<notin># owners U G F" using set_owners_remove(2) [OF d(4), of i "owners U G F"] by simp
  moreover have "G ! g \<in> set G" using g by simp
  ultimately have ni: "i \<notin> ids (G ! g)" by (auto simp: owners_def ids_def)
  show ?thesis
  proof (rule einvI [OF d(1) f])
    show "set_mset (owners U ?G F) = set_mset ?O" by (simp only: o)
    show "fl_ok ns h" if h: "h \<in> set ?G" for h
    proof -
      have "h = free_insert ns i (G ! g) \<or> h \<in> set G" using h set_update_subset_insert by fast
      then show ?thesis using fl_ok_insert [OF d(3) ni] d(3) g by auto
    qed
    show "count (owners U ?G F) j \<le> 1" for j unfolding o by (rule d(4))
  qed (use d in auto)
qed

text \<open>A node that leaves the used list or a group list for the main free list.\<close>

lemma einv_return:
  assumes f: "forest a ns (set_mset (add_mset i (owners U G F))) I (ids F) None"
    and d: "0 < a" "fl_ok ns F" "\<And>g. g \<in> set G \<Longrightarrow> fl_ok ns g" "\<And>j. count (add_mset i (owners U G F)) j \<le> 1"
      "\<And>e. e \<in> set U \<Longrightarrow> in_node ns e" "T = weight ns (set_mset (add_mset i (owners U G F)))"
  shows "\<exists>F' ns'. returnMemory F i True ns = Some (F', ns') \<and> einv a ns' U G F' T \<and>
    length ns' = length ns \<and> (\<forall>j. same_shape (ns' ! j) (ns ! j))"
proof -
  let ?L = "set_mset (add_mset i (owners U G F))"
  have iL: "i \<in> ?L" by simp
  have niO: "i \<notin># owners U G F" using d(4) [of i] by (simp add: not_in_iff)
  then have iF: "i \<notin> ids F" using ids_owner by blast
  obtain F' ns' L' I' where r: "returnMemory F i True ns = Some (F', ns')"
      "forest a ns' L' I' (ids F') None" "fl_ok ns' F'" "L' - ids F' = ?L - ids F - {i}"
      "length ns' = length ns" "\<forall>j. same_shape (ns' ! j) (ns ! j)" "weight ns L' = weight ns ?L"
    using returnMemory_ok [OF f d(2) iL iF] by (elim exE conjE) (rule that)
  have sz: "en_size (ns' ! j) = en_size (ns ! j)" for j by (rule same_size) (simp add: r(6))
  let ?K = "image_mset snd (mset U) + image_mset snd (mset (concat G))"
  have split: "owners U G X = ?K + image_mset snd (mset X)" for X by (simp add: owners_def)
  have cK: "count ?K j \<le> 1" "j \<in># ?K \<Longrightarrow> j \<notin> ids F" for j
  proof -
    have s: "count ?K j + count (image_mset snd (mset F)) j \<le> 1"
      using d(4) [of j] unfolding split by (simp split: if_splits)
    show "count ?K j \<le> 1" by (rule add_leD1 [OF s])
    assume "j \<in># ?K"
    then have "0 < count ?K j" by (rule count_greater_zero_iff [THEN iffD2])
    then have "count (image_mset snd (mset F)) j = 0" using s by linarith
    then have "j \<notin># image_mset snd (mset F)" by (rule not_in_iff [THEN iffD2])
    then show "j \<notin> ids F" by (simp add: ids_def)
  qed
  have "set_mset (owners U G F) = set_mset ?K \<union> ids F" unfolding split by (simp add: ids_def)
  moreover have "?L - {i} = set_mset (owners U G F)" using niO by auto
  ultimately have "?L - ids F - {i} = set_mset ?K" using cK(2) by blast
  then have K: "set_mset ?K = L' - ids F'" using r(4) by blast
  have sub: "ids F' \<subseteq> L'" by (rule forestD(3) [OF r(2)])
  have L': "set_mset (owners U G F') = L'" unfolding split using K sub by (auto simp: ids_def)
  have "einv a ns' U G F' T"
  proof (rule einvI [OF d(1) r(2) L' r(3)])
    show "fl_ok ns' g" if "g \<in> set G" for g by (rule fl_ok_cong [OF d(3) [OF that]]) (rule sz)
    show "count (owners U G F') j \<le> 1" for j
    proof (cases "j \<in> ids F'")
      case True
      then have "j \<notin># ?K" using K by blast
      then have "count ?K j = 0" by (rule not_in_iff [THEN iffD1])
      moreover have "count (image_mset snd (mset F')) j \<le> 1"
        using r(3) unfolding fl_ok_def by (metis distinct_count_atmost_1 le_refl less_imp_le mset_map zero_less_one)
      ultimately show ?thesis unfolding split count_union by simp
    next
      case False
      then have "count (image_mset snd (mset F')) j = 0" by (auto simp: ids_def not_in_iff [symmetric])
      then show ?thesis unfolding split count_union [of ?K] using cK(1) [of j] by simp
    qed
    show "in_node ns' e" if "e \<in> set U" for e using d(5) [OF that] in_node_cong r(6) by blast
    show "T = weight ns' L'" using d(6) r(7) weight_cong [of L' ns' ns] sz by simp
  qed
  then show ?thesis using r by blast
qed

lemma einv_free:
  assumes v: "einv a ns ((k, i) # U) G F T"
  shows "\<exists>F' ns'. returnMemory F i True ns = Some (F', ns') \<and> einv a ns' U G F' T \<and>
    length ns' = length ns \<and> (\<forall>j. same_shape (ns' ! j) (ns ! j))"
proof -
  obtain I where f: "forest a ns (set_mset (owners ((k, i) # U) G F)) I (ids F) None" by (rule einv_forest [OF v])
  note d = einvD [OF v]
  show ?thesis
    using einv_return [of a ns i U G F I T] f d by simp
qed

lemma einv_ungroup:
  assumes v: "einv a ns U ((x # g) # G) F T"
  shows "\<exists>F' ns'. returnMemory F (snd x) True ns = Some (F', ns') \<and> einv a ns' U (g # G) F' T \<and>
    length ns' = length ns \<and> (\<forall>j. same_shape (ns' ! j) (ns ! j))"
proof -
  obtain I where f: "forest a ns (set_mset (owners U ((x # g) # G) F)) I (ids F) None" by (rule einv_forest [OF v])
  note d = einvD [OF v]
  have ok: "fl_ok ns h" if "h \<in> set (g # G)" for h
  proof (cases "h = g")
    case True
    have "fl_ok ns (x # g)" by (rule d(3)) simp
    then show ?thesis unfolding True by (auto simp: fl_ok_def sorted_by_def)
  next
    case False then show ?thesis using that d(3) by simp
  qed
  show ?thesis
    using einv_return [of a ns "snd x" U "g # G" F I T] f d(1,2,4-6) ok by simp
qed

lemma einv_return_all:
  "einv a ns U G F T \<Longrightarrow> \<exists>F' ns'. return_all (concat G) (F, ns) = Some (F', ns') \<and> einv a ns' U [] F' T \<and>
    length ns' = length ns \<and> (\<forall>j. same_shape (ns' ! j) (ns ! j))"
proof (induction "length G + length (concat G)" arbitrary: ns G F)
  case 0
  then show ?case by (simp add: same_shape_def)
next
  case (Suc n)
  show ?case
  proof (cases G)
    case Nil
    then show ?thesis using Suc.hyps(2) by simp
  next
    case (Cons g G')
    show ?thesis
    proof (cases g)
      case Nil
      have "einv a ns U G' F T"
        using Suc.prems unfolding Cons Nil by (auto simp: einv_def owners_simps(4))
      then show ?thesis using Suc.hyps(1) [of G' ns F] Suc.hyps(2) Cons Nil by simp
    next
      case (Cons x g')
      note G = \<open>G = g # G'\<close> Cons
      obtain F1 ns1 where 1: "returnMemory F (snd x) True ns = Some (F1, ns1)" "einv a ns1 U (g' # G') F1 T"
          "length ns1 = length ns" "\<forall>j. same_shape (ns1 ! j) (ns ! j)"
        using einv_ungroup [of a ns U x g' G' F T] Suc.prems unfolding G by blast
      obtain F' ns' where 2: "return_all (concat (g' # G')) (F1, ns1) = Some (F', ns')" "einv a ns' U [] F' T"
          "length ns' = length ns1" "\<forall>j. same_shape (ns' ! j) (ns1 ! j)"
        using Suc.hyps(1) [OF _ 1(2)] Suc.hyps(2) G by auto
      have "return_all (concat G) (F, ns) = Some (F', ns')" using 1(1) 2(1) by (simp add: G)
      moreover have "\<forall>j. same_shape (ns' ! j) (ns ! j)" using 1(4) 2(4) by (simp add: same_shape_def)
      ultimately show ?thesis using 1(3) 2(2,3) by auto
    qed
  qed
qed

lemma einv_drop:
  assumes v: "einv a ns U G F T"
  shows "einv a ns U G (filter (\<lambda>e. en_parent (ns ! snd e) \<noteq> None) F)
    (T - sum_list (map fst (filter (\<lambda>e. en_parent (ns ! snd e) = None) F)))"
    "sum_list (map fst (filter (\<lambda>e. en_parent (ns ! snd e) = None) F)) \<le> T"
proof -
  let ?P = "\<lambda>i. en_parent (ns ! i) \<noteq> None"
  let ?K = "filter (\<lambda>e. ?P (snd e)) F" and ?R = "filter (\<lambda>e. en_parent (ns ! snd e) = None) F"
  obtain I where f: "forest a ns (set_mset (owners U G F)) I (ids F) None" by (rule einv_forest [OF v])
  note d = einvD [OF v]
  have K: "ids ?K = ids F - ids ?R"
    unfolding ids_filter [of ?P F] ids_filter [of "\<lambda>i. en_parent (ns ! i) = None" F] by auto
  have R: "ids ?R \<subseteq> ids F" "\<And>i. i \<in> ids ?R \<Longrightarrow> en_parent (ns ! i) = None" by (auto simp: ids_def)
  have dF: "distinct (map snd F)" using d(2) by (simp add: fl_ok_def)
  have part: "owners U G F = owners U G ?K + image_mset snd (mset ?R)"
  proof -
    have "mset F = mset ?K + mset ?R"
      by (subst multiset_partition [of "mset F" "\<lambda>e. ?P (snd e)"]) simp
    then have "image_mset snd (mset F) = image_mset snd (mset ?K) + image_mset snd (mset ?R)"
      by (metis image_mset_union)
    then show ?thesis unfolding owners_def by (simp only: add.assoc)
  qed
  have one: "count (owners U G ?K) i + count (image_mset snd (mset ?R)) i \<le> 1" for i
    using d(4) [of i] unfolding part by simp
  have iR: "i \<in> ids ?R \<longleftrightarrow> i \<in># image_mset snd (mset ?R)" for i by (simp add: ids_def)
  have L: "set_mset (owners U G ?K) = set_mset (owners U G F) - ids ?R"
  proof -
    have "i \<notin># owners U G ?K" if "i \<in> ids ?R" for i
    proof -
      have "0 < count (image_mset snd (mset ?R)) i" using that unfolding iR by (rule count_greater_zero_iff [THEN iffD2])
      then have "count (owners U G ?K) i = 0" using one [of i] by linarith
      then show ?thesis by (rule not_in_iff [THEN iffD2])
    qed
    then show ?thesis unfolding part set_mset_union using iR by blast
  qed
  have "weight ns (ids ?R) = sum_list (map (\<lambda>e. en_size (ns ! snd e)) ?R)"
  proof -
    have "distinct (map snd ?R)" using dF by (simp add: distinct_map_filter)
    then have "sum_list (map (\<lambda>i. en_size (ns ! i)) (map snd ?R)) = weight ns (set (map snd ?R))"
      unfolding weight_def by (rule sum_list_distinct_conv_sum_set)
    then show ?thesis by (simp add: ids_def comp_def)
  qed
  also have "\<dots> = sum_list (map fst ?R)"
    using d(2) unfolding fl_ok_def by (intro arg_cong [of _ _ sum_list] map_cong) auto
  finally have wR: "weight ns (ids ?R) = sum_list (map fst ?R)" .
  have sub: "ids ?R \<subseteq> set_mset (owners U G F)" using R(1) ids_owner by blast
  have wt: "weight ns (set_mset (owners U G F)) = weight ns (set_mset (owners U G ?K)) + weight ns (ids ?R)"
    unfolding weight_def L by (rule sum.subset_diff [OF sub]) simp
  then show "sum_list (map fst ?R) \<le> T" unfolding d(6) wR by simp
  show "einv a ns U G ?K (T - sum_list (map fst ?R))"
  proof (rule einvI [OF d(1)])
    show "forest a ns (set_mset (owners U G F) - ids ?R) I (ids ?K) None"
      unfolding K by (rule forest_drop [OF f R])
    show "fl_ok ns ?K" by (rule fl_ok_filter [OF d(2)])
    show "count (owners U G ?K) i \<le> 1" for i using one [of i] by simp
    show "T - sum_list (map fst ?R) = weight ns (set_mset (owners U G F) - ids ?R)"
      unfolding d(6) L [symmetric] wt wR by simp
  qed (use d L in auto)
qed

end
