(* ===== verification/EagerSafety.thy ===== *)
theory EagerSafety
  imports EagerOps
begin

text \<open>
  What \<open>EagerBufferAllocator\<close> guarantees to its client: a step relation \<open>estep\<close> with the requests
  the client makes and the answers of the parent allocator, the invariant of the reachable states,
  and the properties. The parent allocator is only assumed to answer with a range that is not in
  use and is aligned.
\<close>

section \<open>The operations keep the invariant\<close>

definition grant :: "ENode list \<Rightarrow> nat \<times> nat \<Rightarrow> nat \<Rightarrow> nat \<Rightarrow> bool" where
  "grant ns p sz i = (fst p = en_base (ns ! i) \<and> en_off (ns ! i) \<le> snd p \<and>
     snd p + sz \<le> en_off (ns ! i) + en_size (ns ! i))"

definition keeps :: "EagerAlloc \<Rightarrow> EagerAlloc \<Rightarrow> bool" where
  "keeps s t \<longleftrightarrow> length (eNodes s) \<le> length (eNodes t) \<and> eAlign t = eAlign s \<and>
     (\<forall>i < length (eNodes s). same_shape (eNodes t ! i) (eNodes s ! i))"

definition owned :: "EagerAlloc \<Rightarrow> nat set" where
  "owned s = set_mset (owners (eUsed s) (eGroups s) (eFree s))"

definition req_align :: "EagerAlloc \<Rightarrow> nat \<Rightarrow> nat" where
  "req_align s align = (if align = 0 then eAlign s else align)"

definition root_size :: "EagerAlloc \<Rightarrow> nat \<Rightarrow> nat" where
  "root_size s sz = (if eMinAlloc s \<noteq> 0 then ALIMAX (eMinAlloc s) sz else sz)"

text \<open>
  What the parent allocator promises: the null chunk, or a range at an aligned offset that is apart from everything the
  allocator has taken from it and not given back.
\<close>

definition answers :: "EagerAlloc \<Rightarrow> (nat \<Rightarrow> nat \<Rightarrow> nat \<times> nat) \<Rightarrow> nat \<Rightarrow> nat \<Rightarrow> bool" where
  "answers s onAlloc sz align \<longleftrightarrow>
     (let size = root_size s sz; p = onAlloc size (req_align s align)
      in fst p \<noteq> 0 \<longrightarrow> eAlign s dvd snd p \<and> req_align s align dvd snd p \<and>
            (\<forall>i \<in> owned s. sep (eNodes s ! i) (newENode (fst p) (snd p) size None)))"

text \<open>
  A request the code can split off from \<open>mMinAllocSize\<close>: outside a group (\<open>eager_group_rest_overlap\<close> is what happens
  in one), and with something left behind it (the assertion in the code, which release builds do not check).
\<close>

definition splits_off :: "EagerAlloc \<Rightarrow> nat \<Rightarrow> bool" where
  "splits_off s sz \<longleftrightarrow> (sz < root_size s sz \<longrightarrow> UP_DIV sz (eAlign s) * eAlign s < root_size s sz \<and> eCurrent s = None)"

lemma grant_in_node: "grant ns p sz i \<Longrightarrow> 0 < sz \<Longrightarrow> in_node ns (p, i)"
  by (simp add: grant_def in_node_def)

lemma fit_off:
  fixes a align v sz size :: nat
  defines "need \<equiv> a mod align \<noteq> 0"
  defines "off \<equiv> (if need then UP_DIV v align * align else v)"
  assumes "0 < align" "a dvd v" "(if need then sz + align - 1 else sz) \<le> size"
  shows "v \<le> off" "off + sz \<le> v + size" "align dvd off" "(if need then sz + off - v else sz) = off - v + sz"
proof -
  have b: "v \<le> UP_DIV v align * align" by (rule UP_DIV_mult_ge [OF assms(3)])
  have "UP_DIV v align * align \<le> v + align - 1"
    by (cases "v = 0") (use UP_DIV_mult_less [OF assms(3), of v] in auto)
  then show "v \<le> off" "off + sz \<le> v + size" "(if need then sz + off - v else sz) = off - v + sz"
    using assms(3,5) b unfolding off_def by (auto split: if_splits)
  show "align dvd off" unfolding off_def need_def using assms(4)
    by (auto intro: dvd_trans [of align a v] simp: mod_eq_0_iff_dvd)
qed

lemma used_insert_fresh: "k \<notin> fst ` set U \<Longrightarrow> used_insert k i U = (k, i) # U"
  by (auto simp: used_insert_def map_of_eq_None_iff [symmetric] split: option.split)

lemma getFromFreeList_found:
  assumes "index_lower_bound fst (if eAlign s mod align \<noteq> 0 then sz + align - 1 else sz) fl = Some x"
    and "n = eNodes s ! snd x"
    and "off = (if eAlign s mod align \<noteq> 0 then UP_DIV (en_off n) align * align else en_off n)"
    and "c = UP_DIV (if eAlign s mod align \<noteq> 0 then sz + off - en_off n else sz) (eAlign s) * eAlign s"
    and "ns1 = (if split then use_parent (snd x) (eNodes s) else eNodes s)"
    and "ns2 = add_use (snd x) ns1 @ [newENode (en_base n) (en_off n) c (Some (snd x)),
           newENode (en_base n) (en_off n + c) (en_size n - c) (Some (snd x))]"
  shows "getFromFreeList fl sz split align s =
    (Some (en_base n, off),
     if fst x \<le> c \<or> \<not> split then remove1 x fl else free_insert ns2 (length ns1 + 1) (remove1 x fl),
     if fst x \<le> c \<or> \<not> split
     then s\<lparr>eNodes := ns1, eUsed := used_insert (en_base n, off) (snd x) (eUsed s)\<rparr>
     else s\<lparr>eNodes := ns2, eUsed := used_insert (en_base n, off) (length ns1) (eUsed s)\<rparr>)"
proof -
  have up: "(case en_parent n of Some q \<Rightarrow> if split then add_use q (eNodes s) else eNodes s | None \<Rightarrow> eNodes s) = ns1"
    unfolding assms(2,5) by (simp add: use_parent_def split: option.split)
  show ?thesis
    unfolding assms(6)
    using assms(1,3,4) up unfolding getFromFreeList_def Let_def assms(2) [symmetric]
    by (cases "eAlign s mod align \<noteq> 0") (simp_all add: assms(2) [symmetric])
qed

lemma getFromFreeList_hit:
  assumes v: "einv (eAlign s) (eNodes s) (eUsed s) G F T"
    and fl: "fl_ok (eNodes s) fl" "ids fl \<subseteq> set_mset (owners (eUsed s) G F)" "ids fl \<inter> snd ` set (eUsed s) = {}"
    and sz: "0 < sz" "0 < align"
    and g: "getFromFreeList fl sz split align s = (Some p, fl', t)"
  obtains x c where "x \<in> set fl" "grant (eNodes s) p sz (snd x)" "align dvd snd p"
    "snd p - en_off (eNodes s ! snd x) + sz \<le> c" "eAlign s dvd c"
    "(let ns1 = (if split then use_parent (snd x) (eNodes s) else eNodes s);
          n = eNodes s ! snd x;
          ns2 = add_use (snd x) ns1 @ [newENode (en_base n) (en_off n) c (Some (snd x)),
                  newENode (en_base n) (en_off n + c) (en_size n - c) (Some (snd x))]
      in if en_size n \<le> c \<or> \<not> split
         then fl' = remove1 x fl \<and> t = s\<lparr>eNodes := ns1, eUsed := (p, snd x) # eUsed s\<rparr>
         else fl' = free_insert ns2 (length ns1 + 1) (remove1 x fl) \<and>
           t = s\<lparr>eNodes := ns2, eUsed := (p, length ns1) # eUsed s\<rparr>)"
proof -
  let ?need = "eAlign s mod align \<noteq> 0"
  let ?real = "if ?need then sz + align - 1 else sz"
  obtain x where x: "index_lower_bound fst ?real fl = Some x"
    using g unfolding getFromFreeList_def Let_def by (auto split: option.splits)
  let ?n = "eNodes s ! snd x"
  let ?off = "if ?need then UP_DIV (en_off ?n) align * align else en_off ?n"
  let ?c = "UP_DIV (if ?need then sz + ?off - en_off ?n else sz) (eAlign s) * eAlign s"
  have xs: "x \<in> set fl" "?real \<le> fst x" using list_index.best_Some [OF x] by auto
  have sx: "fst x = en_size ?n" "snd x \<in> ids fl" using fl_ok_nth [OF fl(1) xs(1)] by auto
  have own: "snd x \<in># owners (eUsed s) G F" using fl(2) sx(2) by blast
  obtain I where f: "forest (eAlign s) (eNodes s) (set_mset (owners (eUsed s) G F)) I (ids F) None"
    by (rule einv_forest [OF v])
  have od: "eAlign s dvd en_off ?n" using forestD(11) [OF f] own by blast
  have off: "en_off ?n \<le> ?off" "?off + sz \<le> en_off ?n + fst x" "align dvd ?off"
      "(if ?need then sz + ?off - en_off ?n else sz) = ?off - en_off ?n + sz"
    by (rule fit_off [OF sz(2) od xs(2)])+
  note found = getFromFreeList_found [OF x refl refl refl refl refl, of split, unfolded g]
  have p: "p = (en_base ?n, ?off)" using found by simp
  have gr: "grant (eNodes s) p sz (snd x)" using off p sx(1) by (simp add: grant_def)
  have key: "p \<notin> fst ` set (eUsed s)"
    using einv_key_unique [OF v grant_in_node [OF gr sz(1)] own] fl(3) sx(2) by blast
  show thesis
  proof (rule that [of x ?c, OF xs(1) gr])
    show "align dvd snd p" using off(3) p by simp
    have "?off - en_off ?n + sz \<le> ?c" unfolding off(4) by (rule UP_DIV_mult_ge [OF einvD(1) [OF v]])
    then show "snd p - en_off ?n + sz \<le> ?c" using p by simp
    show "eAlign s dvd ?c" by simp
    show "let ns1 = (if split then use_parent (snd x) (eNodes s) else eNodes s);
          n = eNodes s ! snd x;
          ns2 = add_use (snd x) ns1 @ [newENode (en_base n) (en_off n) ?c (Some (snd x)),
                  newENode (en_base n) (en_off n + ?c) (en_size n - ?c) (Some (snd x))]
      in if en_size n \<le> ?c \<or> \<not> split
         then fl' = remove1 x fl \<and> t = s\<lparr>eNodes := ns1, eUsed := (p, snd x) # eUsed s\<rparr>
         else fl' = free_insert ns2 (length ns1 + 1) (remove1 x fl) \<and>
           t = s\<lparr>eNodes := ns2, eUsed := (p, length ns1) # eUsed s\<rparr>"
      using found unfolding Let_def p [symmetric] used_insert_fresh [OF key] sx(1)
      by (simp only: prod.inject split: if_split) blast
  qed
qed

lemma keeps_refl [simp]: "keeps s s"
  by (simp add: keeps_def same_shape_def)

lemma keepsI:
  assumes "length (eNodes s) \<le> length (eNodes t)" "eAlign t = eAlign s"
    "\<And>i. i < length (eNodes s) \<Longrightarrow> same_shape (eNodes t ! i) (eNodes s ! i)"
  shows "keeps s t"
  using assms by (simp add: keeps_def)

lemma owners_disjoint:
  assumes "einv a ns U G F T"
  shows "ids F \<inter> snd ` set U = {}" "\<And>g. g \<in> set G \<Longrightarrow> ids g \<inter> snd ` set U = {}"
    "\<And>g. g \<in> set G \<Longrightarrow> ids g \<subseteq> set_mset (owners U G F)" "ids F \<subseteq> set_mset (owners U G F)"
proof -
  let ?B = "image_mset snd (mset (concat G)) + image_mset snd (mset F)"
  have n: "i \<notin># ?B" if "i \<in> snd ` set U" for i
  proof -
    have "count (image_mset snd (mset U)) i + count ?B i \<le> 1"
      using einvD(4) [OF assms, of i] by (simp add: owners_def)
    moreover have "0 < count (image_mset snd (mset U)) i"
      using that by (intro count_greater_zero_iff [THEN iffD2]) simp
    ultimately have "count ?B i = 0" by linarith
    then show ?thesis by (rule not_in_iff [THEN iffD2])
  qed
  show "ids F \<inter> snd ` set U = {}" using n by (auto simp: ids_def image_iff)
  show "ids g \<inter> snd ` set U = {}" if "g \<in> set G" for g
    using n that by (auto simp: ids_def image_iff)
  show "ids g \<subseteq> set_mset (owners U G F)" if "g \<in> set G" for g
    using that by (auto simp: ids_def owners_def)
  show "ids F \<subseteq> set_mset (owners U G F)" using ids_owner by blast
qed

lemma group_hit_ok:
  assumes v: "eager_inv s" and g: "eCurrent s = Some g" and sz: "0 < sz" "0 < al"
    and hit: "getFromFreeList (eGroups s ! g) sz False al s = (Some p, fl, t)"
  shows "eager_inv (t\<lparr>eGroups := (eGroups t)[g := fl]\<rparr>) \<and> eNodes t = eNodes s \<and> eAlign t = eAlign s \<and>
    eCurrent t = eCurrent s \<and> eGroups t = eGroups s \<and>
    (\<exists>j. eUsed t = (p, j) # eUsed s \<and> grant (eNodes s) p sz j \<and> al dvd snd p)"
proof -
  have e: "einv (eAlign s) (eNodes s) (eUsed s) (eGroups s) (eFree s) (eTotal s)" and gl: "g < length (eGroups s)"
    using v g by (auto simp: eager_inv_def)
  have gs: "eGroups s ! g \<in> set (eGroups s)" using gl by simp
  obtain x c where x: "x \<in> set (eGroups s ! g)" "grant (eNodes s) p sz (snd x)" "al dvd snd p"
      "fl = remove1 x (eGroups s ! g) \<and> t = s\<lparr>eNodes := eNodes s, eUsed := (p, snd x) # eUsed s\<rparr>"
    by (rule getFromFreeList_hit [OF e einvD(3) [OF e gs] owners_disjoint(3) [OF e gs]
          owners_disjoint(2) [OF e gs] sz hit]) (simp only: Let_def if_False not_False_eq_True simp_thms if_True)
  have "einv (eAlign s) (eNodes s) ((p, snd x) # eUsed s) ((eGroups s)[g := fl]) (eFree s) (eTotal s)"
    using einv_hit_group [OF e gl x(1) grant_in_node [OF x(2) sz(1)]] x(4) by simp
  then show ?thesis using x gl g by (auto simp: eager_inv_def)
qed

lemma free_hit_ok:
  assumes v: "eager_inv s" and sz: "0 < sz" "0 < al"
    and hit: "getFromFreeList (eFree s) sz True al s = (Some p, fl, t)"
  shows "eager_inv (t\<lparr>eFree := fl\<rparr>) \<and> keeps s t \<and> eCurrent t = eCurrent s \<and> eGroups t = eGroups s \<and>
    (\<exists>j. eUsed t = (p, j) # eUsed s \<and> grant (eNodes t) p sz j \<and> al dvd snd p)"
proof -
  have e: "einv (eAlign s) (eNodes s) (eUsed s) (eGroups s) (eFree s) (eTotal s)"
    using v by (auto simp: eager_inv_def)
  obtain x c where x: "x \<in> set (eFree s)" "grant (eNodes s) p sz (snd x)" "al dvd snd p"
      "snd p - en_off (eNodes s ! snd x) + sz \<le> c" "eAlign s dvd c"
    and r: "let ns1 = use_parent (snd x) (eNodes s); n = eNodes s ! snd x;
          ns2 = add_use (snd x) ns1 @ [newENode (en_base n) (en_off n) c (Some (snd x)),
                  newENode (en_base n) (en_off n + c) (en_size n - c) (Some (snd x))]
      in if en_size n \<le> c
         then fl = remove1 x (eFree s) \<and> t = s\<lparr>eNodes := ns1, eUsed := (p, snd x) # eUsed s\<rparr>
         else fl = free_insert ns2 (length ns1 + 1) (remove1 x (eFree s)) \<and>
           t = s\<lparr>eNodes := ns2, eUsed := (p, length ns1) # eUsed s\<rparr>"
    by (rule getFromFreeList_hit [OF e einvD(2) [OF e] owners_disjoint(4) [OF e]
          owners_disjoint(1) [OF e] sz hit]) (simp only: if_True not_True_eq_False simp_thms)
  let ?i = "snd x" and ?n = "eNodes s ! snd x"
  let ?ns1 = "use_parent ?i (eNodes s)"
  let ?ns2 = "add_use ?i ?ns1 @ [newENode (en_base ?n) (en_off ?n) c (Some ?i),
                  newENode (en_base ?n) (en_off ?n + c) (en_size ?n - c) (Some ?i)]"
  have take: "einv (eAlign s) ?ns1 ((p, ?i) # eUsed s) (eGroups s) (remove1 x (eFree s)) (eTotal s)"
    by (rule einv_take [OF e x(1) grant_in_node [OF x(2) sz(1)]])
  have sh: "same_shape (?ns1 ! j) (eNodes s ! j)" for j by simp
  have fields: "en_base (?ns1 ! ?i) = en_base ?n" "en_off (?ns1 ! ?i) = en_off ?n" "en_size (?ns1 ! ?i) = en_size ?n"
    using sh [of ?i] by (simp_all add: same_shape_def)
  have gr1: "grant ?ns1 p sz ?i" using x(2) fields by (simp add: grant_def)
  show ?thesis
  proof (cases "en_size ?n \<le> c")
    case True
    then have "fl = remove1 x (eFree s)" "t = s\<lparr>eNodes := ?ns1, eUsed := (p, ?i) # eUsed s\<rparr>"
      using r by (simp_all add: Let_def)
    then show ?thesis using take v gr1 x(3) sh by (auto simp: eager_inv_def intro!: keepsI)
  next
    case False
    then have eq: "fl = free_insert ?ns2 (length ?ns1 + 1) (remove1 x (eFree s))"
        "t = s\<lparr>eNodes := ?ns2, eUsed := (p, length ?ns1) # eUsed s\<rparr>"
      using r by (simp_all only: Let_def if_False)
    have c: "0 < c" "c < en_size (?ns1 ! ?i)" "snd p < en_off (?ns1 ! ?i) + c"
      using False x(2,4) sz fields unfolding grant_def by linarith+
    have sp: "einv (eAlign s) ?ns2 ((p, length ?ns1) # eUsed s) (eGroups s)
        (free_insert ?ns2 (length ?ns1 + 1) (remove1 x (eFree s))) (eTotal s)"
      by (rule einv_split [OF take c(1,2) x(5) c(3)]) (simp only: fields)
    obtain I where f: "forest (eAlign s) (eNodes s) (set_mset (owners (eUsed s) (eGroups s) (eFree s))) I (ids (eFree s)) None"
      by (rule einv_forest [OF e])
    have "?i < length (eNodes s)"
      using forestD(1) [OF f] owners_disjoint(4) [OF e] x(1) by (auto simp: ids_def)
    have "same_shape (?ns2 ! j) (eNodes s ! j)" if "j < length (eNodes s)" for j
    proof -
      have "same_shape (?ns2 ! j) (?ns1 ! j)" using that by (simp add: nth_append)
      then show ?thesis using sh [of j] by (simp add: same_shape_def)
    qed
    then have "keeps s t" unfolding eq(2) by (intro keepsI) (simp_all del: nth_append)
    moreover have "grant ?ns2 p sz (length ?ns1)"
      using x(2,4) by (simp add: grant_def newENode_def nth_append)
    ultimately show ?thesis using sp v x(3) unfolding eq by (simp add: eager_inv_def)
  qed
qed

lemma eager_alloc_group:
  assumes "eCurrent s = Some g"
    and "getFromFreeList (eGroups s ! g) sz False (req_align s align) s = (Some q, fl, u)"
  shows "eager_alloc onAlloc sz False align s = (q, u\<lparr>eGroups := (eGroups u)[g := fl]\<rparr>)"
  using assms unfolding eager_alloc_def Let_def req_align_def by simp

definition group_miss :: "nat \<Rightarrow> nat \<Rightarrow> EagerAlloc \<Rightarrow> bool" where
  "group_miss sz align s = (case eCurrent s of None \<Rightarrow> True
     | Some g \<Rightarrow> fst (getFromFreeList (eGroups s ! g) sz False align s) = None)"

lemma eager_alloc_miss:
  assumes "group_miss sz (req_align s align) s"
  shows "getFromFreeList (eFree s) sz True (req_align s align) s = (Some q, fl, u) \<Longrightarrow>
      eager_alloc onAlloc sz False align s = (q, u\<lparr>eFree := fl\<rparr>)"
    "fst (getFromFreeList (eFree s) sz True (req_align s align) s) = None \<Longrightarrow>
      eager_alloc onAlloc sz False align s = eager_alloc onAlloc sz True align s"
proof -
  let ?al = "req_align s align"
  have sep_False: "eager_alloc onAlloc sz False align s =
      (case getFromFreeList (eFree s) sz True ?al s of (Some q, fl, u) \<Rightarrow> (q, u\<lparr>eFree := fl\<rparr>)
       | (None, _, _) \<Rightarrow> eager_alloc onAlloc sz True align s)"
  proof (cases "getFromFreeList (eFree s) sz True ?al s")
   case fr: (fields r2 fl2 u2)
   show ?thesis
   proof (cases "eCurrent s")
    case None
    then show ?thesis using fr unfolding eager_alloc_def Let_def req_align_def [symmetric]
      by (cases r2) simp_all
   next
    case (Some g)
    obtain r gl v where h: "getFromFreeList (eGroups s ! g) sz False ?al s = (r, gl, v)" by (rule prod_cases3)
    then have "r = None" using assms Some by (simp add: group_miss_def)
    then show ?thesis using Some h fr unfolding eager_alloc_def Let_def req_align_def [symmetric]
      by (cases r2) simp_all
   qed
  qed
  show "getFromFreeList (eFree s) sz True ?al s = (Some q, fl, u) \<Longrightarrow>
      eager_alloc onAlloc sz False align s = (q, u\<lparr>eFree := fl\<rparr>)"
    by (simp add: sep_False)
  show "fst (getFromFreeList (eFree s) sz True ?al s) = None \<Longrightarrow>
      eager_alloc onAlloc sz False align s = eager_alloc onAlloc sz True align s"
    by (cases "getFromFreeList (eFree s) sz True ?al s") (simp add: sep_False)
qed

lemma fresh_alloc_ok:
  assumes v: "eager_inv s" and sz: "0 < sz" and an: "answers s onAlloc sz align" and so: "splits_off s sz"
    and al: "eager_alloc onAlloc sz True align s = (p, t)"
  shows "eager_inv t \<and> keeps s t \<and> eCurrent t = eCurrent s \<and> eGroups t = eGroups s \<and>
    (fst p = 0 \<and> t = s \<or> (\<exists>j. eUsed t = (p, j) # eUsed s \<and> grant (eNodes t) p sz j \<and> req_align s align dvd snd p))"
proof -
  let ?size = "root_size s sz" and ?al = "req_align s align" and ?n = "length (eNodes s)"
  have p: "p = onAlloc ?size ?al"
    using al unfolding eager_alloc_def Let_def root_size_def req_align_def by (simp split: if_splits option.splits)
  show ?thesis
  proof (cases "fst p = 0")
    case True
    then have "t = s"
      using al p unfolding eager_alloc_def Let_def root_size_def req_align_def by (simp split: if_splits)
    then show ?thesis using v True by simp
  next
    case nz: False
    have e: "einv (eAlign s) (eNodes s) (eUsed s) (eGroups s) (eFree s) (eTotal s)"
      using v by (auto simp: eager_inv_def)
    have ge: "sz \<le> ?size" by (simp add: root_size_def)
    then have pos: "0 < ?size" using sz by linarith
    have a: "eAlign s dvd snd p" "?al dvd snd p"
        "\<And>i. i \<in># owners (eUsed s) (eGroups s) (eFree s) \<Longrightarrow>
           sep (eNodes s ! i) (newENode (fst p) (snd p) ?size None)"
      and r: "sz < ?size \<Longrightarrow> UP_DIV sz (eAlign s) * eAlign s < ?size \<and> eCurrent s = None"
      using an so nz unfolding answers_def splits_off_def Let_def p [symmetric] owned_def by auto
    let ?root = "newENode (fst p) (snd p) ?size None"
    have fr: "einv (eAlign s) (eNodes s @ [?root]) ((p, ?n) # eUsed s) (eGroups s) (eFree s) (eTotal s + ?size)"
      by (rule einv_fresh [OF e pos a(1,3)])
    have key: "p \<notin> fst ` set (eUsed s)" using einv_keys(1) [OF fr] by simp
    then have er: "used_erase p (eUsed s) = eUsed s"
      unfolding used_erase_def by (intro filter_True) force
    show ?thesis
    proof (cases "sz < ?size")
      case False
      then have eq: "?size = sz" using ge by simp
      have t: "t = s\<lparr>eTotal := eTotal s + sz, eNodes := eNodes s @ [?root], eUsed := (p, ?n) # eUsed s\<rparr>"
        using al nz p er unfolding eager_alloc_def Let_def root_size_def [symmetric] req_align_def [symmetric]
        by (simp add: eq)
      then show ?thesis using fr v a(2) eq
        by (auto simp: eager_inv_def grant_def newENode_def nth_append same_shape_def intro!: keepsI)
    next
      case True
      let ?c = "UP_DIV sz (eAlign s) * eAlign s"
      let ?ns = "add_use ?n (eNodes s @ [?root]) @ [newENode (fst p) (snd p) ?c (Some ?n),
         newENode (fst p) (snd p + ?c) (?size - ?c) (Some ?n)]"
      have au: "add_use ?n (eNodes s @ [?root]) = eNodes s @ [?root\<lparr>en_useCount := 1\<rparr>]"
        by (simp add: add_use_def newENode_def)
      have nth: "(eNodes s @ [?root]) ! ?n = ?root" by simp
      have c: "0 < ?c" "?c < ?size" "sz \<le> ?c" "eCurrent s = None"
        using UP_DIV_pos [OF einvD(1) [OF e] sz] UP_DIV_mult_ge [OF einvD(1) [OF e], of sz] r True by auto
      have sp: "einv (eAlign s) ?ns ((p, length (eNodes s @ [?root])) # eUsed s) (eGroups s)
          (free_insert ?ns (length (eNodes s @ [?root]) + 1) (eFree s)) (eTotal s + ?size)"
      proof (rule einv_split [OF fr])
        show "0 < ?c" "eAlign s dvd ?c" using c(1) by simp_all
        show "?c < en_size ((eNodes s @ [?root]) ! ?n)" unfolding nth using c(2) by (simp add: newENode_def)
        show "snd p < en_off ((eNodes s @ [?root]) ! ?n) + ?c" unfolding nth using c(1) by (simp add: newENode_def)
      qed (simp only: nth, simp add: newENode_def)
      have ss: "size_t_sub ?size ?c = ?size - ?c" using c(2) by simp
      have t: "t = s\<lparr>eTotal := eTotal s + ?size, eNodes := ?ns, eUsed := (p, ?n + 1) # eUsed s,
          eFree := free_insert ?ns (?n + 2) (eFree s)\<rparr>"
        using al nz p ss True unfolding eager_alloc_def Let_def root_size_def [symmetric] req_align_def [symmetric]
        unfolding au used_insert_fresh [OF key] p [symmetric] by (simp add: c(4))
      have "same_shape (?ns ! i) (eNodes s ! i)" if "i < length (eNodes s)" for i
        using that unfolding au by (simp add: nth_append same_shape_def)
      then have k: "keeps s t" unfolding t by (intro keepsI) (simp_all del: nth_append)
      have g: "grant ?ns p sz (?n + 1)" using c(3) unfolding au by (simp add: grant_def newENode_def nth_append)
      show ?thesis using sp k g a(2) c(4) unfolding t eager_inv_def by simp
    qed
  qed
qed

lemma eager_alloc_ok:
  assumes v: "eager_inv s" and sz: "0 < sz" and an: "answers s onAlloc sz align" and so: "splits_off s sz"
    and al: "eager_alloc onAlloc sz separate align s = (p, t)"
  shows "eager_inv t \<and> keeps s t \<and> eCurrent t = eCurrent s \<and>
    (fst p = 0 \<and> t = s \<or> (\<exists>j. eUsed t = (p, j) # eUsed s \<and> grant (eNodes t) p sz j \<and> req_align s align dvd snd p))"
proof -
  let ?al = "req_align s align"
  have e: "einv (eAlign s) (eNodes s) (eUsed s) (eGroups s) (eFree s) (eTotal s)"
    using v by (auto simp: eager_inv_def)
  have al0: "0 < ?al" using einvD(1) [OF e] by (simp add: req_align_def)
  have miss: ?thesis if m: "separate \<or> group_miss sz ?al s"
  proof (cases "separate \<or> fst (getFromFreeList (eFree s) sz True ?al s) = None")
    case True
    then have "eager_alloc onAlloc sz True align s = (p, t)"
      using al m eager_alloc_miss(2) by (cases separate) auto
    then show ?thesis using fresh_alloc_ok [OF v sz an so] by blast
  next
    case False
    then obtain q fl u where hit: "getFromFreeList (eFree s) sz True ?al s = (Some q, fl, u)"
      by (metis fst_conv option.exhaust prod_cases3)
    then have "p = q" "t = u\<lparr>eFree := fl\<rparr>"
      using al m False eager_alloc_miss(1) [OF _ hit] by auto
    then show ?thesis using free_hit_ok [OF v sz al0 hit] by (simp add: keeps_def)
  qed
  show ?thesis
  proof (cases "separate \<or> group_miss sz ?al s")
    case True then show ?thesis by (rule miss)
  next
    case False
    then obtain g q where g: "eCurrent s = Some g" "\<not> separate"
        "fst (getFromFreeList (eGroups s ! g) sz False ?al s) = Some q"
      unfolding group_miss_def by (auto split: option.splits)
    then obtain fl u where hit: "getFromFreeList (eGroups s ! g) sz False ?al s = (Some q, fl, u)"
      by (metis fst_conv prod_cases3)
    then have "p = q" "t = u\<lparr>eGroups := (eGroups u)[g := fl]\<rparr>"
      using al g(2) eager_alloc_group [OF g(1) hit] by auto
    then show ?thesis using group_hit_ok [OF v g(1) sz al0 hit] by (auto simp: keeps_def same_shape_def)
  qed
qed

end
