(* ===== verification/EagerClient.thy ===== *)
theory EagerClient
  imports EagerSafety
begin

text \<open>
  The client's view of \<open>EagerBufferAllocator\<close>: every interleaving of \<open>alloc\<close>, \<open>free\<close>, \<open>beginGroup\<close>, \<open>endGroup\<close>,
  \<open>barrierEnd\<close> and \<open>release\<close> as the step relation \<open>estep\<close>, with the ranges the client holds and the requests it has
  made, and the properties of every reachable state. A request below the minimal allocation size that is made inside a group,
  or that rounds up to that size, breaks them: the properties name the requests they are about (\<open>above_minimum\<close>), and the
  last section shows the overlap such a request leads to.
\<close>

section \<open>The client\<close>

type_synonym client = "EagerAlloc \<times> ((nat \<times> nat) \<times> nat) list \<times> (nat \<times> bool) list"
  \<comment> \<open>the allocator, the ranges that are held with their sizes, the requests so far: their sizes, and if a group was open\<close>

text \<open>
  Each step is one call. The parent keeps its promise (\<open>answers\<close>). \<open>barrierEnd\<close> comes after \<open>endGroup\<close>: it destroys the
  list \<open>mCurrentFreeList\<close> points to. \<open>release(true)\<close> drops everything the client holds and comes when there are no groups,
  as the code asserts.
\<close>

inductive estep :: "client \<Rightarrow> client \<Rightarrow> bool" where
  alloc: "0 < sz \<Longrightarrow> answers s onAlloc sz align \<Longrightarrow> eager_alloc onAlloc sz separate align s = (p, t) \<Longrightarrow>
    estep (s, live, reqs) (t, if fst p = 0 then live else (p, sz) # live, (sz, eCurrent s \<noteq> None) # reqs)"
| free: "(p, sz) \<in> set live \<Longrightarrow> eager_free p s = Some (True, t) \<Longrightarrow>
    estep (s, live, reqs) (t, filter (\<lambda>e. fst e \<noteq> p) live, reqs)"
| beginGroup: "estep (s, live, reqs) (eager_beginGroup s, live, reqs)"
| endGroup: "estep (s, live, reqs) (eager_endGroup s, live, reqs)"
| barrierEnd: "eCurrent s = None \<Longrightarrow> eager_barrierEnd s = Some t \<Longrightarrow> estep (s, live, reqs) (t, live, reqs)"
| release: "estep (s, live, reqs) (eager_release False s, live, reqs)"
| releaseAll: "eGroups s = [] \<Longrightarrow> estep (s, live, reqs) (eager_release True s, [], reqs)"

definition reached :: "nat \<Rightarrow> nat \<Rightarrow> client \<Rightarrow> bool" where
  "reached align minAlloc st = estep\<^sup>*\<^sup>* (newEager align minAlloc, [], []) st"

definition above_minimum :: "nat \<Rightarrow> nat \<Rightarrow> (nat \<times> bool) list \<Rightarrow> bool" where
  \<comment> \<open>no request below the minimal allocation size is made inside a group, or rounds up to that size\<close>
  "above_minimum align minAlloc reqs \<longleftrightarrow>
     (\<forall>(sz, grouped) \<in> set reqs. sz < minAlloc \<longrightarrow> \<not> grouped \<and> UP_DIV sz align * align < minAlloc)"

definition backed :: "EagerAlloc \<Rightarrow> ((nat \<times> nat) \<times> nat) list \<Rightarrow> bool" where
  "backed s live \<longleftrightarrow> distinct (map fst live) \<and>
     (\<forall>(p, sz) \<in> set live. 0 < sz \<and> (\<exists>j. (p, j) \<in> set (eUsed s) \<and> grant (eNodes s) p sz j))"

inductive_cases estepE: "estep (s, live, reqs) (t, live', reqs')"

lemma newEager_inv: "0 < align \<Longrightarrow> eager_inv (newEager align minAlloc)"
  using forest_empty [of align "[]"]
  by (auto simp: eager_inv_def newEager_def einv_def owners_def weight_def simp del: forest_empty)

lemma eager_inv_einv: "eager_inv s \<Longrightarrow> einv (eAlign s) (eNodes s) (eUsed s) (eGroups s) (eFree s) (eTotal s)"
  by (simp add: eager_inv_def)

lemma used_erase_mset:
  assumes "distinct (map fst U)" "map_of U p = Some i"
  shows "mset U = mset ((p, i) # used_erase p U)"
  using assms
proof (induction U)
  case (Cons e U)
  show ?case
  proof (cases "fst e = p")
    case True
    then have "used_erase p U = U" using Cons.prems(1) unfolding used_erase_def
      using True by (intro filter_True) (auto simp: image_iff)
    then show ?thesis using True Cons.prems(2) by (cases e) (simp add: used_erase_def)
  next
    case False
    then show ?thesis using Cons by (simp add: used_erase_def)
  qed
qed simp

lemma eager_free_ok:
  assumes v: "eager_inv s" and p: "map_of (eUsed s) p = Some i"
  shows "\<exists>t. eager_free p s = Some (True, t) \<and> eager_inv t \<and> keeps s t \<and> eUsed t = used_erase p (eUsed s)"
proof -
  note e = eager_inv_einv [OF v]
  have m: "mset (eUsed s) = mset ((p, i) # used_erase p (eUsed s))"
    by (rule used_erase_mset [OF einv_keys(1) [OF e] p])
  have e2: "einv (eAlign s) (eNodes s) ((p, i) # used_erase p (eUsed s)) (eGroups s) (eFree s) (eTotal s)"
    using e unfolding einv_used_cong [OF m] .
  show ?thesis
  proof (cases "eCurrent s")
    case None
    obtain F ns where r: "returnMemory (eFree s) i True (eNodes s) = Some (F, ns)"
        "einv (eAlign s) ns (used_erase p (eUsed s)) (eGroups s) F (eTotal s)"
        "length ns = length (eNodes s)" "\<forall>j. same_shape (ns ! j) (eNodes s ! j)"
      using einv_free [OF e2] by blast
    have "eager_free p s = Some (True, s\<lparr>eUsed := used_erase p (eUsed s), eFree := F, eNodes := ns\<rparr>)"
      using p None r(1) by (simp add: eager_free_def)
    then show ?thesis using r v None by (auto simp: eager_inv_def intro!: keepsI)
  next
    case (Some g)
    then have gl: "g < length (eGroups s)" using v by (simp add: eager_inv_def)
    let ?t = "s\<lparr>eUsed := used_erase p (eUsed s), eGroups := (eGroups s)[g := free_insert (eNodes s) i (eGroups s ! g)],
        eNodes := eNodes s\<rparr>"
    have "returnMemory (eGroups s ! g) i False (eNodes s) = Some (free_insert (eNodes s) i (eGroups s ! g), eNodes s)"
      unfolding returnMemory_def Let_def by (cases "en_parent (eNodes s ! i)") simp_all
    then have "eager_free p s = Some (True, ?t)"
      using p Some by (simp add: eager_free_def)
    moreover have "eager_inv ?t" using einv_free_group [OF e2 gl] Some gl by (simp add: eager_inv_def)
    ultimately show ?thesis by (auto simp: keeps_def same_shape_def)
  qed
qed

lemma eager_barrierEnd_ok:
  assumes v: "eager_inv s" and c: "eCurrent s = None"
  shows "\<exists>t. eager_barrierEnd s = Some t \<and> eager_inv t \<and> keeps s t \<and> eUsed t = eUsed s \<and> eGroups t = []
    \<and> eCurrent t = None"
proof -
  obtain F ns where r: "return_all (concat (eGroups s)) (eFree s, eNodes s) = Some (F, ns)"
      "einv (eAlign s) ns (eUsed s) [] F (eTotal s)"
      "length ns = length (eNodes s)" "\<forall>j. same_shape (ns ! j) (eNodes s ! j)"
    using einv_return_all [OF eager_inv_einv [OF v]] by blast
  then show ?thesis using c by (auto simp: eager_barrierEnd_def eager_inv_def intro!: keepsI)
qed

lemma fold_sub: "sum_list (map fst R) \<le> T \<Longrightarrow> fold (\<lambda>e t. size_t_sub t (fst e)) R T = T - sum_list (map fst R)"
  by (induction R arbitrary: T) simp_all

lemma eager_release_ok:
  assumes v: "eager_inv s"
  shows "eager_inv (eager_release False s) \<and> keeps s (eager_release False s) \<and>
    eUsed (eager_release False s) = eUsed s"
  using einv_drop [OF eager_inv_einv [OF v]] v
  by (simp add: eager_inv_def eager_release_def Let_def fold_sub keeps_def same_shape_def)

lemma einv_empty: "0 < a \<Longrightarrow> einv a ns [] [] [] 0"
  using forest_empty [of a ns] by (auto simp: einv_def owners_def weight_def simp del: forest_empty)

lemma eager_release_all_ok:
  assumes v: "eager_inv s" and g: "eGroups s = []"
  shows "eager_inv (eager_release True s)"
  using einv_empty [OF einvD(1) [OF eager_inv_einv [OF v]]] v g by (simp add: eager_inv_def eager_release_def)

text \<open>The settings of the allocator stay as they are.\<close>

lemma getFromFreeList_settings:
  assumes "getFromFreeList fl sz b align s = (r, fl', t)"
  shows "eAlign t = eAlign s" "eMinAlloc t = eMinAlloc s" "eCurrent t = eCurrent s"
  using assms by (auto simp: getFromFreeList_def Let_def split: option.splits if_splits)

lemma eager_alloc_settings:
  assumes "eager_alloc onAlloc sz separate align s = (p, t)"
  shows "eAlign t = eAlign s" "eMinAlloc t = eMinAlloc s" "eCurrent t = eCurrent s"
proof -
  have "eAlign t = eAlign s \<and> eMinAlloc t = eMinAlloc s \<and> eCurrent t = eCurrent s"
    using assms unfolding eager_alloc_def Let_def
    by (auto dest: getFromFreeList_settings split: option.splits if_splits prod.splits)
  then show "eAlign t = eAlign s" "eMinAlloc t = eMinAlloc s" "eCurrent t = eCurrent s" by blast+
qed

lemma estep_settings:
  "estep (s, live, reqs) (t, live', reqs') \<Longrightarrow> eAlign t = eAlign s \<and> eMinAlloc t = eMinAlloc s \<and> set reqs \<subseteq> set reqs'"
  by (elim estepE) (auto dest: eager_alloc_settings simp: eager_free_def eager_barrierEnd_def eager_beginGroup_def
      eager_endGroup_def eager_release_def Let_def split: option.splits)

section \<open>Reachable states\<close>

lemma grant_keeps: "keeps s t \<Longrightarrow> grant (eNodes s) p sz j \<Longrightarrow> j < length (eNodes s) \<Longrightarrow> grant (eNodes t) p sz j"
  by (simp add: keeps_def grant_def same_shape_def)

lemma used_in_range:
  assumes "eager_inv s" "(p, j) \<in> set (eUsed s)"
  shows "j < length (eNodes s)"
proof -
  obtain I where f: "forest (eAlign s) (eNodes s) (set_mset (owners (eUsed s) (eGroups s) (eFree s))) I (ids (eFree s)) None"
    by (rule einv_forest [OF eager_inv_einv [OF assms(1)]])
  have "j \<in># owners (eUsed s) (eGroups s) (eFree s)" using assms(2) by (force simp: owners_def)
  then show ?thesis using forestD(1) [OF f] by blast
qed

lemma backed_keeps:
  assumes "eager_inv s" "keeps s t" "backed s live" "set live' \<subseteq> set live" "distinct (map fst live')"
    "\<And>p sz j. (p, sz) \<in> set live' \<Longrightarrow> (p, j) \<in> set (eUsed s) \<Longrightarrow> (p, j) \<in> set (eUsed t)"
  shows "backed t live'"
proof -
  have "0 < sz \<and> (\<exists>j. (p, j) \<in> set (eUsed t) \<and> grant (eNodes t) p sz j)" if e: "(p, sz) \<in> set live'" for p sz
  proof -
    have "(p, sz) \<in> set live" using e assms(4) by blast
    then obtain j where j: "0 < sz" "(p, j) \<in> set (eUsed s)" "grant (eNodes s) p sz j"
      using assms(3) unfolding backed_def by blast
    then show ?thesis
      using grant_keeps [OF assms(2) j(3) used_in_range [OF assms(1) j(2)]] assms(6) [OF e j(2)] by blast
  qed
  then show ?thesis using assms(5) unfolding backed_def by blast
qed

lemma above_splits_off:
  "above_minimum (eAlign s) (eMinAlloc s) ((sz, eCurrent s \<noteq> None) # reqs) \<Longrightarrow> splits_off s sz"
  by (auto simp: above_minimum_def splits_off_def root_size_def max_def split: if_splits)

lemma estep_inv:
  assumes "estep st st'" "eager_inv (fst st)" "backed (fst st) (fst (snd st))"
    "above_minimum (eAlign (fst st)) (eMinAlloc (fst st)) (snd (snd st'))"
  shows "eager_inv (fst st') \<and> backed (fst st') (fst (snd st'))"
  using assms
proof (induction rule: estep.induct)
  case (alloc sz s onAlloc align separate p t live reqs)
  have v: "eager_inv s" and b: "backed s live" using alloc.prems by simp_all
  have so: "splits_off s sz" using above_splits_off [of s sz "[]"] alloc.prems(3) by (simp add: above_minimum_def)
  have ok: "eager_inv t" "keeps s t"
      "fst p = 0 \<and> t = s \<or> (\<exists>j. eUsed t = (p, j) # eUsed s \<and> grant (eNodes t) p sz j)"
    using eager_alloc_ok [OF v alloc.hyps(1,2) so alloc.hyps(3)] by blast+
  show ?case
  proof (cases "fst p = 0")
    case True
    have "backed t live"
    proof (rule backed_keeps [OF v ok(2) b])
      show "distinct (map fst live)" using b by (simp add: backed_def)
    qed (use ok(3) in auto)
    then show ?thesis using True ok(1) by simp
  next
    case False
    then obtain j where j: "eUsed t = (p, j) # eUsed s" "grant (eNodes t) p sz j" using ok(3) by metis
    have "backed t live"
    proof (rule backed_keeps [OF v ok(2) b])
      show "distinct (map fst live)" using b by (simp add: backed_def)
    qed (use j in auto)
    moreover have "p \<notin> fst ` set live"
    proof
      assume "p \<in> fst ` set live"
      then have "p \<in> fst ` set (eUsed s)" using b unfolding backed_def by force
      then show False using einv_keys(1) [OF eager_inv_einv [OF ok(1)]] j(1) by simp
    qed
    ultimately show ?thesis using False ok(1) j alloc.hyps(1) by (auto simp: backed_def)
  qed
next
  case (free p sz live s t reqs)
  have v: "eager_inv s" and b: "backed s live" using free.prems by simp_all
  obtain j where "(p, j) \<in> set (eUsed s)" using b free.hyps(1) unfolding backed_def by blast
  then obtain i where "map_of (eUsed s) p = Some i" by (metis weak_map_of_SomeI)
  then have t: "eager_inv t" "keeps s t" "eUsed t = used_erase p (eUsed s)"
    using eager_free_ok [OF v, of p i] free.hyps(2) by auto
  have "backed t (filter (\<lambda>e. fst e \<noteq> p) live)"
  proof (rule backed_keeps [OF v t(2) b])
    show "distinct (map fst (filter (\<lambda>e. fst e \<noteq> p) live))"
      using b by (simp add: backed_def distinct_map_filter)
  qed (auto simp: t(3) used_erase_def)
  then show ?case using t(1) by simp
next
  case (beginGroup s live reqs)
  have v: "eager_inv s" and b: "backed s live" using beginGroup by simp_all
  have "eager_inv (eager_beginGroup s)"
    using v unfolding eager_inv_def eager_beginGroup_def einv_def by auto
  then show ?case using b by (simp add: backed_def eager_beginGroup_def)
next
  case (endGroup s live reqs)
  then show ?case by (simp add: backed_def eager_endGroup_def eager_inv_def)
next
  case (barrierEnd s t live reqs)
  have v: "eager_inv s" and b: "backed s live" using barrierEnd.prems by simp_all
  have t: "eager_inv t" "keeps s t" "eUsed t = eUsed s"
    using eager_barrierEnd_ok [OF v barrierEnd.hyps(1)] barrierEnd.hyps(2) by auto
  have "backed t live"
  proof (rule backed_keeps [OF v t(2) b])
    show "distinct (map fst live)" using b by (simp add: backed_def)
  qed (auto simp: t(3))
  then show ?case using t(1) by simp
next
  case (release s live reqs)
  have v: "eager_inv s" and b: "backed s live" using release.prems by simp_all
  have t: "eager_inv (eager_release False s)" "keeps s (eager_release False s)"
      "eUsed (eager_release False s) = eUsed s"
    using eager_release_ok [OF v] by auto
  have "backed (eager_release False s) live"
  proof (rule backed_keeps [OF v t(2) b])
    show "distinct (map fst live)" using b by (simp add: backed_def)
  qed (auto simp: t(3))
  then show ?case using t(1) by simp
next
  case (releaseAll s live reqs)
  then have "eager_inv (eager_release True s)" using eager_release_all_ok by simp
  then show ?case by (simp add: backed_def)
qed

lemma reached_run:
  assumes "reached align minAlloc st" "0 < align"
  shows "eAlign (fst st) = align \<and> eMinAlloc (fst st) = minAlloc \<and>
    (above_minimum align minAlloc (snd (snd st)) \<longrightarrow> eager_inv (fst st) \<and> backed (fst st) (fst (snd st)))"
  using assms(1) unfolding reached_def
proof (induction rule: rtranclp_induct)
  case base
  show ?case using newEager_inv [OF assms(2)] by (simp add: backed_def newEager_def)
next
  case (step y z)
  obtain s live reqs where y: "y = (s, live, reqs)" by (cases y)
  obtain t live' reqs' where z: "z = (t, live', reqs')" by (cases z)
  have same: "eAlign t = eAlign s" "eMinAlloc t = eMinAlloc s" "set reqs \<subseteq> set reqs'"
    using estep_settings step.hyps(2) unfolding y z by blast+
  have "eager_inv t \<and> backed t live'" if m: "above_minimum align minAlloc reqs'"
  proof -
    have "above_minimum align minAlloc reqs" using m same(3) by (auto simp: above_minimum_def)
    then show ?thesis using estep_inv [OF step.hyps(2)] step.IH m unfolding y z by simp
  qed
  then show ?case using step.IH same unfolding y z by simp
qed

lemma reached_inv:
  assumes "reached align minAlloc (s, live, reqs)" "0 < align" "above_minimum align minAlloc reqs"
  shows "eager_inv s" "backed s live" "eAlign s = align" "eMinAlloc s = minAlloc"
  using reached_run [OF assms(1,2)] assms(3) by simp_all

section \<open>A run\<close>

definition demo0 :: EagerAlloc where
  "demo0 = snd (eager_alloc (\<lambda>_ _. (1, 0)) 32 False 0 (newEager 4 0))"

definition demo1 :: EagerAlloc where
  "demo1 = (case eager_free (1, 0) demo0 of Some (b, t) \<Rightarrow> t | None \<Rightarrow> demo0)"

definition demo2 :: EagerAlloc where
  "demo2 = snd (eager_alloc (\<lambda>_ _. (0, 0)) 8 False 0 demo1)"

definition demo3 :: EagerAlloc where
  "demo3 = snd (eager_alloc (\<lambda>_ _. (0, 0)) 11 False 0 demo2)"

lemmas eager_eval = eager_alloc_def eager_free_def getFromFreeList_def newEager_def newENode_def
  used_insert_def used_erase_def free_insert_def returnMemory_def add_use_def sub_use_def UP_DIV_def Let_def

lemma demo0_val: "demo0 = \<lparr>eNodes = [newENode 1 0 32 None], eUsed = [((1, 0), 0)], eFree = [], eGroups = [],
    eCurrent = None, eAlign = 4, eMinAlloc = 0, eTotal = 32, eReleased = []\<rparr>"
  by (simp add: demo0_def eager_eval)

lemma demo1_val: "demo1 = demo0\<lparr>eUsed := [], eFree := [(32, 0)]\<rparr>"
  by (simp add: demo1_def demo0_val eager_eval)

lemma demo2_val: "demo2 = demo1\<lparr>eNodes := [(newENode 1 0 32 None)\<lparr>en_useCount := 1\<rparr>, newENode 1 0 8 (Some 0),
    newENode 1 8 24 (Some 0)], eUsed := [((1, 0), 1)], eFree := [(24, 2)]\<rparr>"
  by (simp add: demo2_def demo1_val demo0_val eager_eval numeral_2_eq_2)

lemma demo3_val: "demo3 = demo2\<lparr>eNodes := [(newENode 1 0 32 None)\<lparr>en_useCount := 2\<rparr>, newENode 1 0 8 (Some 0),
    (newENode 1 8 24 (Some 0))\<lparr>en_useCount := 1\<rparr>, newENode 1 8 12 (Some 2), newENode 1 20 12 (Some 2)],
    eUsed := [((1, 8), 3), ((1, 0), 1)], eFree := [(12, 4)]\<rparr>"
  by code_simp

lemmas demo_vals = demo3_val demo2_val demo1_val demo0_val

lemma demo_reached:
  "reached 4 0 (demo1, [], [(32, False)])" "reached 4 0 (demo2, [((1, 0), 8)], [(8, False), (32, False)])"
  "reached 4 0 (demo3, [((1, 8), 11), ((1, 0), 8)], [(11, False), (8, False), (32, False)])"
proof -
  have "estep (newEager 4 0, [], []) (demo0, if fst (1 :: nat, 0 :: nat) = 0 then [] else [((1, 0), 32)], [(32, eCurrent (newEager 4 0) \<noteq> None)])"
    by (rule estep.alloc [where onAlloc = "\<lambda>_ _. (1, 0)" and separate = False and align = 0])
      (simp_all add: answers_def root_size_def owned_def owners_def newEager_def demo0_def eager_eval)
  moreover have "estep (demo0, [((1, 0), 32)], [(32, False)]) (demo1, filter (\<lambda>e. fst e \<noteq> (1, 0)) [((1, 0), 32)], [(32, False)])"
    by (rule estep.free) (simp_all add: demo_vals eager_eval)
  ultimately show r1: "reached 4 0 (demo1, [], [(32, False)])"
    unfolding reached_def by (auto simp: newEager_def intro: rtranclp_trans)
  have a1: "eager_alloc (\<lambda>_ _. (0, 0)) 8 False 0 demo1 = ((1, 0), demo2)"
    by (simp add: demo2_def) (simp add: demo_vals eager_eval)
  have "estep (demo1, [], [(32, False)]) (demo2, if fst (1 :: nat, 0 :: nat) = 0 then [] else [((1, 0), 8)], [(8, eCurrent demo1 \<noteq> None), (32, False)])"
    by (rule estep.alloc [OF _ _ a1]) (simp_all add: answers_def root_size_def demo_vals)
  then show r2: "reached 4 0 (demo2, [((1, 0), 8)], [(8, False), (32, False)])"
    using r1 unfolding reached_def by (auto simp: demo_vals intro: rtranclp.rtrancl_into_rtrancl)
  have a2: "eager_alloc (\<lambda>_ _. (0, 0)) 11 False 0 demo2 = ((1, 8), demo3)"
    by (simp add: demo3_def) (simp add: demo_vals eager_eval)
  have "estep (demo2, [((1, 0), 8)], [(8, False), (32, False)]) (demo3, if fst (1 :: nat, 8 :: nat) = 0 then [((1, 0), 8)] else [((1, 8), 11), ((1, 0), 8)], [(11, eCurrent demo2 \<noteq> None), (8, False), (32, False)])"
    by (rule estep.alloc [OF _ _ a2]) (simp_all add: answers_def root_size_def demo_vals)
  then show "reached 4 0 (demo3, [((1, 8), 11), ((1, 0), 8)], [(11, False), (8, False), (32, False)])"
    using r2 unfolding reached_def by (auto simp: demo_vals intro: rtranclp.rtrancl_into_rtrancl)
qed

section \<open>Properties\<close>

definition apart_ranges :: "(nat \<times> nat) \<times> nat \<Rightarrow> (nat \<times> nat) \<times> nat \<Rightarrow> bool" where
  "apart_ranges x y = (fst (fst x) \<noteq> fst (fst y) \<or> snd (fst x) + snd x \<le> snd (fst y) \<or>
     snd (fst y) + snd y \<le> snd (fst x))"

lemma backed_apart:
  assumes v: "eager_inv s" and b: "backed s live" and ij: "i < length live" "j < length live" "i \<noteq> j"
  shows "apart_ranges (live ! i) (live ! j)"
proof -
  obtain p k q l where e: "live ! i = (p, k)" "live ! j = (q, l)" by (metis prod.exhaust)
  have m: "(p, k) \<in> set live" "(q, l) \<in> set live" using ij e nth_mem by metis+
  have pq: "p \<noteq> q"
    using b ij e nth_eq_iff_index_eq [of "map fst live" i j] unfolding backed_def by auto
  obtain x where x: "(p, x) \<in> set (eUsed s)" "grant (eNodes s) p k x" using b m(1) unfolding backed_def by blast
  obtain y where y: "(q, y) \<in> set (eUsed s)" "grant (eNodes s) q l y" using b m(2) unfolding backed_def by blast
  note ev = eager_inv_einv [OF v]
  have "x \<noteq> y"
  proof
    assume "x = y"
    then have "(p, x) = (q, y)"
      using einv_keys(2) [OF ev] x(1) y(1) unfolding distinct_map inj_on_def by fastforce
    then show False using pq by simp
  qed
  moreover obtain I where f: "forest (eAlign s) (eNodes s) (set_mset (owners (eUsed s) (eGroups s) (eFree s))) I (ids (eFree s)) None"
    by (rule einv_forest [OF ev])
  moreover have "x \<in># owners (eUsed s) (eGroups s) (eFree s)" "y \<in># owners (eUsed s) (eGroups s) (eFree s)"
    using x(1) y(1) by (force simp: owners_def)+
  ultimately have "sep (eNodes s ! x) (eNodes s ! y)" using forestD(9) [OF f] by blast
  then show ?thesis
    using x(2) y(2) e unfolding sep_def grant_def apart_ranges_def by auto
qed

text \<open>
  C4: whatever the client asks for and in whatever order, no two ranges it holds from
  \<open>EagerBufferAllocator\<close> overlap: splitting, reuse at a larger alignment, merging, groups and
  release included; provided no request below the minimal allocation size (if there is one) is made inside a group or rounds up
  to that size.
\<close>

theorem eager_live_disjoint:
  assumes "reached align minAlloc (s, live, reqs)" "0 < align" "above_minimum align minAlloc reqs"
    and "i < length live" "j < length live" "i \<noteq> j"
  shows "apart_ranges (live ! i) (live ! j)"
  using backed_apart assms(4-6) reached_inv [OF assms(1-3)] by simp

theorem eager_live_disjoint_witness:
  "apart_ranges ([((1, 8), 11), ((1, 0), 8)] ! 0) ([((1, 8), 11), ((1, 0), 8)] ! 1)"
  using eager_live_disjoint [OF demo_reached(3), of 0 1] by (simp add: above_minimum_def)

text \<open>
  C18: an allocation that is no request below the minimal allocation size inside a group or next to that size, in a state
  reached without one, returns the null chunk and changes nothing, or a range whose offset is a multiple of
  the requested alignment and that overlaps no range the client holds; \<open>free\<close> of the new range returns true.
\<close>

theorem eager_alloc_sound:
  assumes "reached align minAlloc (s, live, reqs)" "0 < align" "0 < sz" "answers s onAlloc sz al"
    and "above_minimum align minAlloc ((sz, eCurrent s \<noteq> None) # reqs)"
    and "eager_alloc onAlloc sz separate al s = (p, t)"
  shows "fst p = 0 \<and> t = s \<or>
    req_align s al dvd snd p \<and> (\<forall>q \<in> set live. apart_ranges (p, sz) q) \<and> (\<exists>u. eager_free p t = Some (True, u))"
proof (cases "fst p = 0 \<and> t = s")
  case False
  have am: "above_minimum align minAlloc reqs" using assms(5) by (simp add: above_minimum_def)
  note v = reached_inv(1) [OF assms(1,2) am] and b = reached_inv(2) [OF assms(1,2) am]
  have so: "splits_off s sz" by (rule above_splits_off) (use assms(5) reached_inv(3,4) [OF assms(1,2) am] in simp)
  obtain j where j: "eager_inv t" "eUsed t = (p, j) # eUsed s" "grant (eNodes t) p sz j" "req_align s al dvd snd p"
    "keeps s t"
    using eager_alloc_ok [OF v assms(3,4) so assms(6)] False by metis
  have "backed t ((p, sz) # live)"
  proof -
    have "backed t live"
    proof (rule backed_keeps [OF v j(5) b])
      show "distinct (map fst live)" using b by (simp add: backed_def)
    qed (use j(2) in auto)
    moreover have "p \<notin> fst ` set (eUsed s)" using einv_keys(1) [OF eager_inv_einv [OF j(1)]] j(2) by simp
    then have "p \<notin> fst ` set live" using b unfolding backed_def by force
    ultimately show ?thesis using j(2,3) assms(3) by (auto simp: backed_def)
  qed
  then have "apart_ranges (p, sz) q" if "q \<in> set live" for q
    using that backed_apart [OF j(1), of "(p, sz) # live" 0] by (metis Suc_less_eq Zero_not_Suc
        in_set_conv_nth length_Cons nth_Cons_0 nth_Cons_Suc zero_less_Suc)
  moreover have "map_of (eUsed t) p = Some j" by (simp add: j(2))
  ultimately show ?thesis using eager_free_ok [OF j(1)] j(4) by blast
qed simp

theorem eager_alloc_sound_witness:
  "fst (fst (eager_alloc (\<lambda>_ _. (0, 0)) 11 False 0 demo2)) = 0 \<and> demo3 = demo2 \<or>
    4 dvd (8 :: nat) \<and> apart_ranges ((1, 8), 11) ((1, 0), 8)"
proof -
  have a: "answers demo2 (\<lambda>_ _. (0, 0)) 11 0" by (simp add: answers_def root_size_def demo_vals)
  have e: "eager_alloc (\<lambda>_ _. (0, 0)) 11 False 0 demo2 = ((1, 8), demo3)"
    by (simp add: demo3_def) (simp add: demo_vals eager_eval)
  show ?thesis using eager_alloc_sound [OF demo_reached(2) _ _ a _ e] by (simp add: above_minimum_def demo_vals)
qed



section \<open>A group together with a minimal allocation size\<close>

definition group_run :: "nat \<Rightarrow> nat \<Rightarrow> (nat \<times> nat) \<Rightarrow> nat \<Rightarrow> nat \<Rightarrow> ((nat \<times> nat) \<times> nat) list option" where
  \<comment> \<open>one request inside a group, the group ended and returned, and one request more; what is held then\<close>
  "group_run align minAlloc block sz sz' =
    (let s0 = eager_beginGroup (newEager align minAlloc);
         (p, s1) = eager_alloc (\<lambda>_ _. block) sz False 0 s0;
         s2 = eager_endGroup s1
     in case eager_barrierEnd s2 of
          None \<Rightarrow> None
        | Some s3 \<Rightarrow> (let (q, s4) = eager_alloc (\<lambda>_ _. (0, 0)) sz' False 0 s3 in Some [(p, sz), (q, sz')]))"

text \<open>
  C38: whatever the alignment and the minimal allocation size, a request inside a group that is split off from a block of the
  minimal size leaves the block to be merged by \<open>barrierEnd\<close> while the request is held, because its rest went to the group
  without being counted in \<open>useCount\<close>: the next request that fits the minimal size gets the same memory.
\<close>

theorem eager_group_rest_overlap:
  assumes "0 < align" "0 < sz" "UP_DIV sz align * align < minAlloc" "fst block \<noteq> 0" "0 < sz'" "sz' \<le> minAlloc"
  shows "\<exists>h h'. group_run align minAlloc block sz sz' = Some [h, h'] \<and> fst h = block \<and> fst h' = block \<and> \<not> apart_ranges h h'"
proof -
  obtain b off where block: "block = (b, off)" by (cases block)
  let ?c = "UP_DIV sz align * align"
  let ?ns = "\<lambda>use. [(newENode b off minAlloc None)\<lparr>en_useCount := use\<rparr>, newENode b off ?c (Some 0),
      newENode b (off + ?c) (minAlloc - ?c) (Some 0)]"
  have c: "sz \<le> ?c" by (rule UP_DIV_mult_ge [OF assms(1)])
  then have lt: "sz < minAlloc" "minAlloc \<noteq> 0" "max minAlloc sz = minAlloc" "size_t_sub minAlloc ?c = minAlloc - ?c" using assms(3) by auto
  define s1 where "s1 = \<lparr>eNodes = ?ns 1, eUsed = [((b, off), 1)], eFree = [], eGroups = [[(minAlloc - ?c, 2)]], eCurrent = Some 0,
      eAlign = align, eMinAlloc = minAlloc, eTotal = minAlloc, eReleased = []\<rparr>"
  have one: "eager_alloc (\<lambda>_ _. block) sz False 0 (eager_beginGroup (newEager align minAlloc)) = (block, s1)"
    using assms(4) lt by (simp add: s1_def block eager_beginGroup_def eager_eval numeral_2_eq_2)
  define s3 where "s3 = s1\<lparr>eNodes := ?ns 0, eFree := [(minAlloc, 0)], eGroups := [], eCurrent := None\<rparr>"
  have two: "eager_barrierEnd (eager_endGroup s1) = Some s3"
    by (simp add: s3_def s1_def eager_endGroup_def eager_barrierEnd_def eager_eval numeral_2_eq_2 numeral_3_eq_3)
  have three: "fst (eager_alloc (\<lambda>_ _. (0, 0)) sz' False 0 s3) = block"
    using assms(1,6) by (simp add: s3_def s1_def block eager_eval)
  have "group_run align minAlloc block sz sz' = Some [(block, sz), (block, sz')]"
    using one two three by (simp add: group_run_def Let_def split_beta)
  then show ?thesis using assms(2,5) by (simp add: apart_ranges_def)
qed

theorem eager_group_rest_overlap_witness:
  "\<exists>h h'. group_run 4 16 (1, 0) 4 8 = Some [h, h'] \<and> fst h = (1, 0) \<and> fst h' = (1, 0) \<and> \<not> apart_ranges h h'"
  using eager_group_rest_overlap [of 4 4 16 "(1, 0)" 8] by (simp add: UP_DIV_def)

end
