(* ===== verification/EagerEnd.thy ===== *)
theory EagerEnd
  imports EagerClient
begin

text \<open>
  The operations of \<open>EagerBufferAllocator\<close> return, in every state any calls lead to: this needs no promise of the parent
  allocator and no discipline of the client, only that a node is made after its parent.
\<close>

section \<open>Any calls\<close>

inductive any_call :: "EagerAlloc \<Rightarrow> EagerAlloc \<Rightarrow> bool" where
  alloc: "eager_alloc onAlloc sz separate align s = (p, t) \<Longrightarrow> any_call s t"
| free: "eager_free p s = Some (found, t) \<Longrightarrow> any_call s t"
| beginGroup: "any_call s (eager_beginGroup s)"
| endGroup: "any_call s (eager_endGroup s)"
| barrierEnd: "eCurrent s = None \<Longrightarrow> eager_barrierEnd s = Some t \<Longrightarrow> any_call s t"
| release: "any_call s (eager_release allRelease s)"

section \<open>Parents are made before their parts\<close>

definition older_parents :: "ENode list \<Rightarrow> bool" where
  "older_parents ns \<longleftrightarrow> (\<forall>i < length ns. \<forall>p. en_parent (ns ! i) = Some p \<longrightarrow> p < i)"

definition in_nodes :: "ENode list \<Rightarrow> freelist \<Rightarrow> bool" where
  "in_nodes ns fl \<longleftrightarrow> (\<forall>e \<in> set fl. snd e < length ns)"

definition ordered :: "EagerAlloc \<Rightarrow> bool" where
  "ordered s \<longleftrightarrow> older_parents (eNodes s) \<and> (\<forall>e \<in> set (eUsed s). snd e < length (eNodes s)) \<and>
     in_nodes (eNodes s) (eFree s) \<and> (\<forall>g \<in> set (eGroups s). in_nodes (eNodes s) g) \<and>
     (\<forall>g. eCurrent s = Some g \<longrightarrow> g < length (eGroups s))"

lemma use_parents [simp]:
  "length (sub_use i ns) = length ns" "older_parents (sub_use i ns) = older_parents ns" "older_parents (add_use i ns) = older_parents ns"
  "in_nodes (sub_use i ns) fl = in_nodes ns fl" "in_nodes (add_use i ns) fl = in_nodes ns fl"
proof -
  have "en_parent (sub_use i ns ! j) = en_parent (ns ! j)" "en_parent (add_use i ns ! j) = en_parent (ns ! j)" for j
    by (cases "i < length ns"; cases "i = j"; simp add: sub_use_def add_use_def list_update_beyond)+
  moreover show len: "length (sub_use i ns) = length ns" by (simp add: sub_use_def)
  ultimately show "older_parents (sub_use i ns) = older_parents ns" "older_parents (add_use i ns) = older_parents ns"
    by (simp_all add: older_parents_def)
  show "in_nodes (sub_use i ns) fl = in_nodes ns fl" "in_nodes (add_use i ns) fl = in_nodes ns fl" using len by (simp_all add: in_nodes_def)
qed

lemma in_nodes_insert [simp]: "in_nodes ns (free_insert ns' i fl) \<longleftrightarrow> i < length ns \<and> in_nodes ns fl"
  by (auto simp: in_nodes_def free_insert_def)

lemma in_nodes_mono: "in_nodes ns fl \<Longrightarrow> length ns \<le> length ns' \<Longrightarrow> set fl' \<subseteq> set fl \<Longrightarrow> in_nodes ns' fl'"
  unfolding in_nodes_def by (meson less_le_trans subsetD)

lemma older_append2:
  assumes "older_parents ns" "\<And>p. en_parent m = Some p \<Longrightarrow> p < length ns" "\<And>p. en_parent n = Some p \<Longrightarrow> p < length ns"
  shows "older_parents (ns @ [m, n])"
  using assms by (auto simp: older_parents_def nth_append nth_Cons' less_Suc_eq)

section \<open>Merging ends\<close>

lemma merge_up_ends:
  assumes "older_parents ns" "p < length ns" "p < fuel" "in_nodes ns fl"
  shows "\<exists>fl' ns'. merge_up fuel p fl ns = Some (fl', ns') \<and> length ns' = length ns \<and> older_parents ns' \<and> in_nodes ns' fl'"
  using assms
proof (induction fuel p fl ns rule: merge_up.induct)
  case (2 fuel p fl ns)
  define fl2 where "fl2 = free_insert ns p (filter (\<lambda>e. en_parent (ns ! snd e) \<noteq> Some p) fl)"
  have fl2: "in_nodes ns fl2" using 2(3,5) by (auto simp: fl2_def in_nodes_def free_insert_def)
  show ?case
  proof (cases "en_parent (ns ! p)")
    case None
    then show ?thesis using 2(2) fl2 by (simp add: Let_def fl2_def)
  next
    case (Some q)
    have q: "q < p" using 2(2,3) Some by (auto simp: older_parents_def)
    show ?thesis
    proof (cases "en_useCount (sub_use q ns ! q) = 0")
      case True
      have "\<exists>fl' ns'. merge_up fuel q fl2 (sub_use q ns) = Some (fl', ns') \<and> length ns' = length (sub_use q ns) \<and> older_parents ns' \<and> in_nodes ns' fl'"
        unfolding fl2_def by (rule 2(1) [OF refl refl Some refl True]) (use 2(2-4) q fl2 in \<open>simp_all add: fl2_def\<close>)
      then show ?thesis using True Some by (simp add: Let_def fl2_def)
    next
      case False
      then show ?thesis using Some 2(2) fl2 by (simp add: Let_def fl2_def)
    qed
  qed
qed simp

lemma returnMemory_ends:
  assumes "older_parents ns" "i < length ns" "in_nodes ns fl"
  shows "\<exists>fl' ns'. returnMemory fl i merge ns = Some (fl', ns') \<and> length ns' = length ns \<and> older_parents ns' \<and> in_nodes ns' fl'"
proof (cases "en_parent (ns ! i)")
  case (Some p)
  then have p: "p < length ns" using assms(1,2) by (fastforce simp: older_parents_def)
  show ?thesis
  proof (cases "merge \<and> en_useCount (sub_use p ns ! p) = 0")
    case True
    have "\<exists>fl' ns'. merge_up (length ns) p (free_insert ns i fl) (sub_use p ns) = Some (fl', ns') \<and>
        length ns' = length (sub_use p ns) \<and> older_parents ns' \<and> in_nodes ns' fl'"
      by (rule merge_up_ends) (use assms p in simp_all)
    then show ?thesis using True Some by (simp add: returnMemory_def Let_def)
  next
    case False
    then show ?thesis using Some assms by (auto simp: returnMemory_def Let_def)
  qed
qed (use assms in \<open>simp add: returnMemory_def Let_def\<close>)

lemma return_all_ends:
  assumes "older_parents ns" "in_nodes ns es" "in_nodes ns fl"
  shows "\<exists>fl' ns'. return_all es (fl, ns) = Some (fl', ns') \<and> length ns' = length ns \<and> older_parents ns' \<and> in_nodes ns' fl'"
  using assms
proof (induction es arbitrary: fl ns)
  case (Cons e es)
  then have "snd e < length ns" by (simp add: in_nodes_def)
  then obtain fl1 ns1 where one: "returnMemory fl (snd e) True ns = Some (fl1, ns1)" "length ns1 = length ns" "older_parents ns1" "in_nodes ns1 fl1"
    using returnMemory_ends Cons.prems(1,3) by blast
  then have "in_nodes ns1 es" using Cons.prems(2) by (simp add: in_nodes_def)
  then show ?case using Cons.IH [OF one(3) _ one(4)] one(1,2) by simp
qed simp

section \<open>The operations\<close>

lemma eager_free_ends:
  assumes "ordered s"
  shows "\<exists>t. eager_free p s = Some (p \<in> fst ` set (eUsed s), t) \<and> ordered t"
proof (cases "map_of (eUsed s) p")
  case None
  then have "p \<notin> fst ` set (eUsed s)" by (simp add: map_of_eq_None_iff)
  then show ?thesis using assms None by (simp add: eager_free_def)
next
  case (Some i)
  then have i: "(p, i) \<in> set (eUsed s)" by (rule map_of_SomeD)
  then have found: "p \<in> fst ` set (eUsed s)" "i < length (eNodes s)" using assms by (force simp: ordered_def)+
  have used: "set (used_erase p (eUsed s)) \<subseteq> set (eUsed s)" by (auto simp: used_erase_def)
  show ?thesis
  proof (cases "eCurrent s")
    case None
    obtain fl ns where r: "returnMemory (eFree s) i True (eNodes s) = Some (fl, ns)" "length ns = length (eNodes s)" "older_parents ns" "in_nodes ns fl"
      using returnMemory_ends found(2) assms unfolding ordered_def by blast
    then show ?thesis using Some None found(1) used assms
      by (auto simp: eager_free_def ordered_def Let_def in_nodes_def)
  next
    case (Some g)
    then have g: "g < length (eGroups s)" "in_nodes (eNodes s) (eGroups s ! g)" using assms by (auto simp: ordered_def)
    obtain fl ns where r: "returnMemory (eGroups s ! g) i False (eNodes s) = Some (fl, ns)" "length ns = length (eNodes s)" "older_parents ns" "in_nodes ns fl"
      using returnMemory_ends found(2) g(2) assms unfolding ordered_def by blast
    have "\<forall>h \<in> set ((eGroups s)[g := fl]). in_nodes ns h"
    proof
      fix h assume "h \<in> set ((eGroups s)[g := fl])"
      then have "h = fl \<or> h \<in> set (eGroups s)" using set_update_subset_insert [of "eGroups s" g fl] by blast
      then show "in_nodes ns h" using r(2,4) assms by (auto simp: ordered_def in_nodes_def)
    qed
    then show ?thesis using r \<open>map_of (eUsed s) p = Some i\<close> Some found(1) used assms
      by (auto simp: eager_free_def ordered_def Let_def in_nodes_def)
  qed
qed

lemma eager_barrierEnd_ends:
  assumes "ordered s"
  shows "\<exists>t. eager_barrierEnd s = Some t \<and> eGroups t = [] \<and> (eCurrent s = None \<longrightarrow> ordered t)"
proof -
  have "in_nodes (eNodes s) (concat (eGroups s))" using assms by (auto simp: ordered_def in_nodes_def)
  then obtain fl ns where "return_all (concat (eGroups s)) (eFree s, eNodes s) = Some (fl, ns)" "length ns = length (eNodes s)" "older_parents ns" "in_nodes ns fl"
    using return_all_ends assms unfolding ordered_def by blast
  then show ?thesis using assms by (auto simp: eager_barrierEnd_def ordered_def)
qed

lemma getFromFreeList_ordered:
  assumes "getFromFreeList fl sz split_it align s = (Some q, fl', t)" "ordered s" "in_nodes (eNodes s) fl"
  shows "older_parents (eNodes t) \<and> (\<forall>e \<in> set (eUsed t). snd e < length (eNodes t)) \<and> length (eNodes s) \<le> length (eNodes t) \<and>
    in_nodes (eNodes t) fl' \<and> eFree t = eFree s \<and> eGroups t = eGroups s \<and> eCurrent t = eCurrent s"
proof -
  obtain x where x: "index_lower_bound fst (if eAlign s mod align \<noteq> 0 then sz + align - 1 else sz) fl = Some x"
    using assms(1) by (auto simp: getFromFreeList_def Let_def split: option.splits if_splits)
  define n where "n = eNodes s ! snd x"
  define off where "off = (if eAlign s mod align \<noteq> 0 then UP_DIV (en_off n) align * align else en_off n)"
  define c where "c = UP_DIV (if eAlign s mod align \<noteq> 0 then sz + off - en_off n else if eAlign s mod align \<noteq> 0 then sz + align - 1 else sz) (eAlign s) * eAlign s"
  define ns1 where "ns1 = (case en_parent n of Some p \<Rightarrow> if split_it then add_use p (eNodes s) else eNodes s | None \<Rightarrow> eNodes s)"
  define ns2 where "ns2 = add_use (snd x) ns1 @ [newENode (en_base n) (en_off n) c (Some (snd x)), newENode (en_base n) (en_off n + c) (en_size n - c) (Some (snd x))]"
  have "x \<in> set fl" using index_lower_bound_Some [OF x] by blast
  then have i: "snd x < length (eNodes s)" using assms(3) by (simp add: in_nodes_def)
  have ns1: "older_parents ns1" "length ns1 = length (eNodes s)" using assms(2) by (auto simp: ns1_def ordered_def split: option.splits)
  have used: "set (used_insert k v (eUsed s)) \<subseteq> insert (k, v) (set (eUsed s))" for k v by (auto simp: used_insert_def split: option.splits)
  have eq: "getFromFreeList fl sz split_it align s = (if c \<ge> fst x \<or> \<not> split_it
      then (Some (en_base n, off), remove1 x fl, s\<lparr>eNodes := ns1, eUsed := used_insert (en_base n, off) (snd x) (eUsed s)\<rparr>)
      else (Some (en_base n, off), free_insert ns2 (length ns1 + 1) (remove1 x fl), s\<lparr>eNodes := ns2, eUsed := used_insert (en_base n, off) (length ns1) (eUsed s)\<rparr>))"
    unfolding getFromFreeList_def Let_def x option.case ns2_def c_def ns1_def off_def n_def by (rule refl)
  consider "t = s\<lparr>eNodes := ns1, eUsed := used_insert (en_base n, off) (snd x) (eUsed s)\<rparr>" "fl' = remove1 x fl"
    | "t = s\<lparr>eNodes := ns2, eUsed := used_insert (en_base n, off) (length ns1) (eUsed s)\<rparr>" "fl' = free_insert ns2 (length ns1 + 1) (remove1 x fl)"
    using assms(1) unfolding eq by (cases "c \<ge> fst x \<or> \<not> split_it") auto
  then show ?thesis
  proof cases
    case 1
    have "in_nodes ns1 fl'" using in_nodes_mono [OF assms(3)] ns1(2) 1(2) set_remove1_subset [of x fl] by simp
    then show ?thesis using 1 ns1 i used [of "(en_base n, off)" "snd x"] assms(2) by (fastforce simp: ordered_def)
  next
    case 2
    have len: "length ns2 = length (eNodes s) + 2" using ns1(2) by (simp add: ns2_def add_use_def)
    have "older_parents ns2"
      unfolding ns2_def by (intro older_append2) (use ns1 i in \<open>auto simp: newENode_def\<close>)
    moreover have "in_nodes ns2 (remove1 x fl)" using in_nodes_mono [OF assms(3)] len set_remove1_subset [of x fl] by simp
    ultimately show ?thesis using 2 ns1(2) len used [of "(en_base n, off)" "length ns1"] assms(2) by (fastforce simp: ordered_def)
  qed
qed

lemma group_update:
  assumes "\<forall>h \<in> set G. in_nodes ns h" "in_nodes ns fl"
  shows "\<forall>h \<in> set (G[g := fl]). in_nodes ns h"
  using assms set_update_subset_insert [of G g fl] by blast

lemma older_append1: "older_parents ns \<Longrightarrow> en_parent m = None \<Longrightarrow> older_parents (ns @ [m])"
  by (auto simp: older_parents_def nth_append less_Suc_eq)

lemma fresh_ordered:
  assumes "eager_alloc onAlloc sz True align s = (p, t)" "ordered s"
  shows "ordered t"
proof -
  let ?n = "length (eNodes s)"
  define size where "size = (if eMinAlloc s \<noteq> 0 then ALIMAX (eMinAlloc s) sz else sz)"
  define q where "q = onAlloc size (if align = 0 then eAlign s else align)"
  define root where "root = newENode (fst q) (snd q) size None"
  define c where "c = UP_DIV sz (eAlign s) * eAlign s"
  define rest where "rest = newENode (fst q) (snd q + c) (size_t_sub size c) (Some ?n)"
  define ns where "ns = eNodes s @ [root\<lparr>en_useCount := 1\<rparr>, newENode (fst q) (snd q) c (Some ?n), rest]"
  define s1 where "s1 = s\<lparr>eTotal := eTotal s + size, eNodes := ns, eUsed := used_insert q (?n + 1) (eUsed s)\<rparr>"
  have eq: "eager_alloc onAlloc sz True align s = (if fst q = 0 then (q, s) else if size > sz then (q, case eCurrent s of
        Some g \<Rightarrow> s1\<lparr>eGroups := (eGroups s1)[g := free_insert ns (?n + 2) (eGroups s1 ! g)]\<rparr>
      | None \<Rightarrow> s1\<lparr>eFree := free_insert ns (?n + 2) (eFree s1)\<rparr>)
      else (q, s\<lparr>eTotal := eTotal s + size, eNodes := eNodes s @ [root], eUsed := (q, ?n) # used_erase q (eUsed s)\<rparr>))"
    unfolding eager_alloc_def Let_def if_True fst_conv option.case prod.case s1_def ns_def rest_def c_def root_def q_def size_def by (rule refl)
  have o: "older_parents (eNodes s)" using assms(2) by (simp add: ordered_def)
  have "ns = (eNodes s @ [root\<lparr>en_useCount := 1\<rparr>]) @ [newENode (fst q) (snd q) c (Some ?n), rest]" by (simp add: ns_def)
  moreover have "older_parents ((eNodes s @ [root\<lparr>en_useCount := 1\<rparr>]) @ [newENode (fst q) (snd q) c (Some ?n), rest])"
    by (rule older_append2, rule older_append1 [OF o]) (simp_all add: root_def rest_def newENode_def)
  ultimately have ns: "older_parents ns" by simp
  have len: "length ns = ?n + 3" by (simp add: ns_def)
  have one: "older_parents (eNodes s @ [root])" by (rule older_append1 [OF o]) (simp add: root_def newENode_def)
  have used: "set (used_insert k v U) \<subseteq> insert (k, v) (set U)" for k v U by (auto simp: used_insert_def split: option.splits)
  have mono: "in_nodes ns fl" "in_nodes (eNodes s @ [root]) fl" if "in_nodes (eNodes s) fl" for fl
    using in_nodes_mono [OF that] len by simp_all
  have groups: "\<forall>h \<in> set (eGroups s). in_nodes ns h" "\<forall>h \<in> set (eGroups s). in_nodes (eNodes s @ [root]) h" using mono assms(2) by (auto simp: ordered_def)
  have at: "in_nodes ns (eGroups s ! g)" if "eCurrent s = Some g" for g using that groups(1) assms(2) by (auto simp: ordered_def)
  have u2: "\<forall>e \<in> set (used_insert q (?n + 1) (eUsed s)). snd e < ?n + 3" using used [of q "?n + 1" "eUsed s"] assms(2) by (fastforce simp: ordered_def)
  have s1: "eGroups s1 = eGroups s" "eFree s1 = eFree s" by (simp_all add: s1_def)
  consider "t = s" | "t = s\<lparr>eTotal := eTotal s + size, eNodes := eNodes s @ [root], eUsed := (q, ?n) # used_erase q (eUsed s)\<rparr>"
    | g where "eCurrent s = Some g" "t = s1\<lparr>eGroups := (eGroups s)[g := free_insert ns (?n + 2) (eGroups s ! g)]\<rparr>"
    | "eCurrent s = None" "t = s1\<lparr>eFree := free_insert ns (?n + 2) (eFree s)\<rparr>"
    using assms(1) unfolding eq s1 by (cases "eCurrent s"; cases "fst q = 0"; cases "size > sz") simp_all
  then show ?thesis
  proof cases
    case 2
    then show ?thesis using assms(2) one mono(2) groups(2) by (auto simp: ordered_def used_erase_def less_Suc_eq)
  next
    case (3 g)
    have "\<forall>h \<in> set ((eGroups s)[g := free_insert ns (?n + 2) (eGroups s ! g)]). in_nodes ns h"
      by (rule group_update [OF groups(1)]) (use at [OF 3(1)] len in simp)
    then show ?thesis using 3 assms(2) ns len mono(1) u2 by (simp add: ordered_def s1_def)
  next
    case 4
    then show ?thesis using assms(2) ns len mono(1) groups(1) u2 by (simp add: ordered_def s1_def)
  qed (use assms(2) in simp)
qed

lemma eager_alloc_ordered:
  assumes "eager_alloc onAlloc sz separate align s = (p, t)" "ordered s"
  shows "ordered t"
proof -
  let ?al = "req_align s align"
  have miss: "ordered t" if m: "separate \<or> group_miss sz ?al s"
  proof (cases "separate \<or> fst (getFromFreeList (eFree s) sz True ?al s) = None")
    case True
    then have "eager_alloc onAlloc sz True align s = (p, t)"
      using assms(1) m eager_alloc_miss(2) by (cases separate) auto
    then show ?thesis using fresh_ordered assms(2) by blast
  next
    case False
    then obtain q fl u where hit: "getFromFreeList (eFree s) sz True ?al s = (Some q, fl, u)"
      by (metis fst_conv option.exhaust prod_cases3)
    then have t: "t = u\<lparr>eFree := fl\<rparr>" using assms(1) m False eager_alloc_miss(1) [OF _ hit] by auto
    have "in_nodes (eNodes s) (eFree s)" using assms(2) by (simp add: ordered_def)
    note g = getFromFreeList_ordered [OF hit assms(2) this]
    have "\<forall>h \<in> set (eGroups s). in_nodes (eNodes u) h" using g assms(2) in_nodes_mono [of "eNodes s" _ "eNodes u"] by (auto simp: ordered_def)
    then show ?thesis using g assms(2) unfolding t by (simp add: ordered_def)
  qed
  show ?thesis
  proof (cases "separate \<or> group_miss sz ?al s")
    case False
    then obtain g q where g: "eCurrent s = Some g" "\<not> separate" "fst (getFromFreeList (eGroups s ! g) sz False ?al s) = Some q"
      unfolding group_miss_def by (auto split: option.splits)
    then obtain fl u where hit: "getFromFreeList (eGroups s ! g) sz False ?al s = (Some q, fl, u)" by (metis fst_conv prod_cases3)
    then have t: "t = u\<lparr>eGroups := (eGroups u)[g := fl]\<rparr>" using assms(1) g(2) eager_alloc_group [OF g(1) hit] by auto
    have "in_nodes (eNodes s) (eGroups s ! g)" using assms(2) g(1) by (auto simp: ordered_def)
    note k = getFromFreeList_ordered [OF hit assms(2) this]
    have "\<forall>h \<in> set (eGroups s). in_nodes (eNodes u) h" using k assms(2) in_nodes_mono [of "eNodes s" _ "eNodes u"] by (auto simp: ordered_def)
    then have "\<forall>h \<in> set ((eGroups u)[g := fl]). in_nodes (eNodes u) h" using k by (intro group_update) auto
    moreover have "in_nodes (eNodes u) (eFree s)" using k assms(2) in_nodes_mono [of "eNodes s" _ "eNodes u"] by (auto simp: ordered_def)
    ultimately show ?thesis using k assms(2) unfolding t by (simp add: ordered_def)
  qed (rule miss)
qed

lemma any_call_ordered: "any_call s t \<Longrightarrow> ordered s \<Longrightarrow> ordered t"
proof (induction rule: any_call.induct)
  case (free p s found t)
  then show ?case using eager_free_ends [of s p] by auto
next
  case (barrierEnd s t)
  then show ?case using eager_barrierEnd_ends [of s] by auto
next
  case (alloc onAlloc sz separate align s p t)
  then show ?case by (rule eager_alloc_ordered)
qed (auto simp: eager_beginGroup_def eager_endGroup_def eager_release_def Let_def ordered_def in_nodes_def)

lemma any_calls_ordered: "any_call\<^sup>*\<^sup>* (newEager align minAlloc) s \<Longrightarrow> ordered s"
proof (induction rule: rtranclp_induct)
  case base
  show ?case by (simp add: ordered_def newEager_def older_parents_def in_nodes_def)
qed (rule any_call_ordered)

section \<open>Termination\<close>

text \<open>
  C19: after any calls at all, whatever the parent allocator answers, \<open>free\<close> returns, true if and only if the range is in the
  used list, and \<open>barrierEnd\<close> returns and leaves no group: the upward merge of \<open>returnMemory\<close> ends within as many rounds as
  there are nodes.
\<close>

theorem eager_merge_terminates:
  assumes "any_call\<^sup>*\<^sup>* (newEager align minAlloc) s"
  shows "(\<exists>t. eager_free p s = Some (p \<in> fst ` set (eUsed s), t)) \<and> (\<exists>t. eager_barrierEnd s = Some t \<and> eGroups t = [])"
  using eager_free_ends [OF any_calls_ordered [OF assms]] eager_barrierEnd_ends [OF any_calls_ordered [OF assms]] by blast

lemma demo_calls: "any_call\<^sup>*\<^sup>* (newEager 4 0) demo3"
proof -
  have "any_call (newEager 4 0) demo0"
    by (rule any_call.alloc [where onAlloc = "\<lambda>_ _. (1, 0)" and sz = 32 and separate = False and align = 0 and p = "(1, 0)"])
      (simp add: demo0_def eager_eval)
  moreover have "any_call demo0 demo1" by (rule any_call.free [of "(1, 0)" _ True]) (simp add: demo_vals eager_eval)
  moreover have "any_call demo1 demo2"
    by (rule any_call.alloc [where onAlloc = "\<lambda>_ _. (0, 0)" and sz = 8 and separate = False and align = 0 and p = "(1, 0)"])
      (simp add: demo2_def, simp add: demo_vals eager_eval)
  moreover have "any_call demo2 demo3"
    by (rule any_call.alloc [where onAlloc = "\<lambda>_ _. (0, 0)" and sz = 11 and separate = False and align = 0 and p = "(1, 8)"])
      (simp add: demo3_def, simp add: demo_vals eager_eval)
  ultimately show ?thesis by (meson rtranclp.rtrancl_into_rtrancl rtranclp.rtrancl_refl)
qed

theorem eager_merge_terminates_witness: "\<exists>t. eager_free (1, 8) demo3 = Some (True, t)"
  using eager_merge_terminates [OF demo_calls, of "(1, 8)"] by (simp add: demo_vals)

end
