(* ===== verification/Tensor.thy ===== *)
theory Tensor
  imports Prelude "HOL-Library.Monad_Syntax"
begin

text \<open>
  The tensor descriptor on which shape inference works (\<open>include/MNN/Tensor.hpp\<close>,
  \<open>source/core/Tensor.cpp\<close>, \<open>source/core/TensorUtils.cpp\<close>).

  \<open>halide_buffer_t\<close> keeps its dimensions in the fixed array \<open>dims[MNN_MAX_TENSOR_DIM]\<close> of the
  description; \<open>t_extent\<close> and \<open>t_stride\<close> are that array (always of length 9, see
  \<open>tensor_wf\<close>), \<open>t_dimensions\<close> the number of entries in use. \<open>t_host\<close> is the int32 content of
  a tensor whose content decides a shape. \<open>int\<close> values are unbounded: products are supposed to stay
  below \<open>2 ^ 31\<close> (in C++ an overflow would be undefined).

  A result of type \<open>'a option\<close> is a computation that may access an array out of range or divide
  by zero: \<open>None\<close> is undefined behaviour of the code. A shape computer returns
  \<open>'a option option\<close>: \<open>Some None\<close> is its \<open>return false\<close>, \<open>Some (Some outs)\<close> its
  \<open>return true\<close> with the outputs as they are then. \<open>MNN_ASSERT\<close> does nothing in a release build
  and is not modelled, except where a comment says so.
\<close>

section \<open>The descriptor\<close>

datatype halide_type_code = halide_type_int | halide_type_uint | halide_type_float | halide_type_handle | halide_type_bfloat

record halide_type =
  ht_code :: halide_type_code
  ht_bits :: nat

datatype MNN_DATA_FORMAT = MNN_NCHW | MNN_NHWC | MNN_NC4HW4 | MNN_NHWC4 | MNN_UNKNOWN

datatype DataType = DT_INVALID | DT_FLOAT | DT_DOUBLE | DT_INT32 | DT_UINT8 | DT_INT16 | DT_INT8 | DT_STRING
  | DT_COMPLEX64 | DT_INT64 | DT_BOOL | DT_QINT8 | DT_QUINT8 | DT_QINT32 | DT_BFLOAT16 | DT_QINT16 | DT_QUINT16
  | DT_UINT16 | DT_COMPLEX128 | DT_HALF | DT_RESOURCE | DT_VARIANT

datatype DimensionType = TENSORFLOW | CAFFE | CAFFE_C4

record Tensor =
  t_extent :: "int list"
  t_stride :: "int list"
  t_dimensions :: int
  t_type :: halide_type
  t_format :: MNN_DATA_FORMAT
  t_host :: "int list"

definition MNN_MAX_TENSOR_DIM :: nat where
  "MNN_MAX_TENSOR_DIM = 9"

definition ht_of :: "halide_type_code \<Rightarrow> nat \<Rightarrow> halide_type" where
  "ht_of c b = \<lparr>ht_code = c, ht_bits = b\<rparr>"

definition ht_bytes :: "halide_type \<Rightarrow> nat" where
  "ht_bytes t = (ht_bits t + 7) div 8"

definition tensor_wf :: "Tensor \<Rightarrow> bool" where
  "tensor_wf t \<longleftrightarrow> length (t_extent t) = MNN_MAX_TENSOR_DIM \<and> length (t_stride t) = MNN_MAX_TENSOR_DIM \<and>
     0 \<le> t_dimensions t \<and> t_dimensions t \<le> int MNN_MAX_TENSOR_DIM"

text \<open>A tensor with the given dimensions, format and int32 content (for the evaluated examples).\<close>

definition tensor_of :: "int list \<Rightarrow> MNN_DATA_FORMAT \<Rightarrow> int list \<Rightarrow> Tensor" where
  "tensor_of dims fmt content = \<lparr>t_extent = dims @ replicate (9 - length dims) 0, t_stride = replicate 9 0,
     t_dimensions = int (length dims), t_type = ht_of halide_type_int 32, t_format = fmt, t_host = content\<rparr>"

section \<open>Array access and loops\<close>

definition arr_at :: "'a list \<Rightarrow> int \<Rightarrow> 'a option" where
  "arr_at xs i = (if 0 \<le> i \<and> i < int (length xs) then Some (xs ! nat i) else None)"

definition arr_put :: "'a list \<Rightarrow> int \<Rightarrow> 'a \<Rightarrow> 'a list option" where
  "arr_put xs i v = (if 0 \<le> i \<and> i < int (length xs) then Some (xs[nat i := v]) else None)"

definition idiv :: "int \<Rightarrow> int \<Rightarrow> int option" where
  "idiv a b = (if b = 0 then None else Some (a sdiv b))"

definition imod :: "int \<Rightarrow> int \<Rightarrow> int option" where
  "imod a b = (if b = 0 then None else Some (a smod b))"

fun foldM :: "('x \<Rightarrow> 's \<Rightarrow> 's option) \<Rightarrow> 'x list \<Rightarrow> 's \<Rightarrow> 's option" where
  "foldM f [] s = Some s"
| "foldM f (x # xs) s = do { t \<leftarrow> f x s; foldM f xs t }"

definition loop :: "int \<Rightarrow> int \<Rightarrow> (int \<Rightarrow> 's \<Rightarrow> 's option) \<Rightarrow> 's \<Rightarrow> 's option" where
  "loop lo hi f s = foldM f [lo..hi - 1] s"

text \<open>A loop whose body may \<open>return false\<close>.\<close>

fun foldC :: "('x \<Rightarrow> 's \<Rightarrow> 's option option) \<Rightarrow> 'x list \<Rightarrow> 's \<Rightarrow> 's option option" where
  "foldC f [] s = Some (Some s)"
| "foldC f (x # xs) s = do { r \<leftarrow> f x s; case r of None \<Rightarrow> Some None | Some t \<Rightarrow> foldC f xs t }"

definition loopC :: "int \<Rightarrow> int \<Rightarrow> (int \<Rightarrow> 's \<Rightarrow> 's option option) \<Rightarrow> 's \<Rightarrow> 's option option" where
  "loopC lo hi f s = foldC f [lo..hi - 1] s"

definition andThen :: "'a option option \<Rightarrow> ('a \<Rightarrow> 'b option option) \<Rightarrow> 'b option option" where
  "andThen r f = do { x \<leftarrow> r; case x of None \<Rightarrow> Some None | Some y \<Rightarrow> f y }"

section \<open>Accessors of \<open>Tensor\<close>\<close>

definition tlength :: "Tensor \<Rightarrow> int \<Rightarrow> int option" where
  "tlength t i = arr_at (t_extent t) i"

definition setLength :: "int \<Rightarrow> int \<Rightarrow> Tensor \<Rightarrow> Tensor option" where
  "setLength i v t = do { e \<leftarrow> arr_put (t_extent t) i v; Some (t\<lparr>t_extent := e\<rparr>) }"

definition tshape :: "Tensor \<Rightarrow> int list" where
  "tshape t = take (nat (t_dimensions t)) (t_extent t)"

definition getDimensionType :: "Tensor \<Rightarrow> DimensionType" where
  "getDimensionType t = (if t_format t = MNN_NHWC then TENSORFLOW else CAFFE)"

definition getDimType :: "Tensor \<Rightarrow> DimensionType" where
  "getDimType t = (case t_format t of MNN_NCHW \<Rightarrow> CAFFE | MNN_NC4HW4 \<Rightarrow> CAFFE_C4 | MNN_NHWC \<Rightarrow> TENSORFLOW
     | MNN_NHWC4 \<Rightarrow> TENSORFLOW | MNN_UNKNOWN \<Rightarrow> TENSORFLOW)"

definition twidth :: "Tensor \<Rightarrow> int option" where
  "twidth t = (if getDimensionType t = TENSORFLOW then tlength t 2 else tlength t 3)"

definition theight :: "Tensor \<Rightarrow> int option" where
  "theight t = (if getDimensionType t = TENSORFLOW then tlength t 1 else tlength t 2)"

definition tchannel :: "Tensor \<Rightarrow> int option" where
  "tchannel t = (if getDimensionType t = TENSORFLOW then tlength t 3 else tlength t 1)"

definition tbatch :: "Tensor \<Rightarrow> int option" where
  "tbatch t = tlength t 0"

definition ALIGN_UP4 :: "int \<Rightarrow> int" where
  "ALIGN_UP4 x = ((x + 3) sdiv 4) * 4"

definition usize :: "Tensor \<Rightarrow> int option" where
  "usize t = loop 0 (t_dimensions t)
     (\<lambda>i size. do { d \<leftarrow> tlength t i;
        Some (size * (if t_format t = MNN_NC4HW4 \<and> i = 1 then ALIGN_UP4 d else d)) }) (int (ht_bytes (t_type t)))"

definition elementSize :: "Tensor \<Rightarrow> int option" where
  "elementSize t = do { s \<leftarrow> usize t; idiv s (int (ht_bytes (t_type t))) }"

definition setType :: "DataType \<Rightarrow> Tensor \<Rightarrow> Tensor" where
  "setType d t =
     (if d \<in> {DT_DOUBLE, DT_FLOAT} then t\<lparr>t_type := ht_of halide_type_float 32\<rparr>
      else if d = DT_BFLOAT16 then t\<lparr>t_type := ht_of halide_type_bfloat 16\<rparr>
      else if d \<in> {DT_QINT32, DT_INT32, DT_BOOL, DT_INT64} then t\<lparr>t_type := ht_of halide_type_int 32\<rparr>
      else if d \<in> {DT_QINT8, DT_INT8} then t\<lparr>t_type := ht_of halide_type_int 8\<rparr>
      else if d \<in> {DT_QUINT8, DT_UINT8} then t\<lparr>t_type := ht_of halide_type_uint 8\<rparr>
      else if d \<in> {DT_QUINT16, DT_UINT16} then t\<lparr>t_type := ht_of halide_type_uint 16\<rparr>
      else if d \<in> {DT_QINT16, DT_INT16} then t\<lparr>t_type := ht_of halide_type_int 16\<rparr>
      else t)"

section \<open>\<open>TensorUtils\<close>\<close>

definition copyDims :: "Tensor \<Rightarrow> Tensor \<Rightarrow> Tensor option" where
  \<comment> \<open>\<open>memcpy(ob.dim, ib.dim, ib.dimensions * sizeof(halide_dimension_t))\<close>\<close>
  "copyDims src dst =
     (let n = nat (t_dimensions src)
      in if 0 \<le> t_dimensions src \<and> n \<le> length (t_extent src) \<and> n \<le> length (t_stride src)
           \<and> n \<le> length (t_extent dst) \<and> n \<le> length (t_stride dst)
         then Some (dst\<lparr>t_extent := take n (t_extent src) @ drop n (t_extent dst),
                        t_stride := take n (t_stride src) @ drop n (t_stride dst)\<rparr>)
         else None)"

definition adjustTensorForCompability :: "Tensor \<Rightarrow> Tensor option" where
  "adjustTensorForCompability t =
     (if t_dimensions t < 4 then loop (t_dimensions t) 4 (\<lambda>n. setLength n 1) t else Some t)"

definition copyShape :: "Tensor \<Rightarrow> Tensor \<Rightarrow> bool \<Rightarrow> Tensor option" where
  "copyShape src dst copyFormat = do {
     d \<leftarrow> copyDims src (dst\<lparr>t_dimensions := t_dimensions src\<rparr>);
     adjustTensorForCompability (if copyFormat then d\<lparr>t_format := t_format src\<rparr> else d) }"

definition setShape :: "int list \<Rightarrow> Tensor \<Rightarrow> Tensor option" where
  "setShape alldims t = do {
     r \<leftarrow> foldM (\<lambda>i (u, stride). do {
            d \<leftarrow> arr_at alldims i;
            e \<leftarrow> arr_put (t_extent u) i d;
            s \<leftarrow> arr_put (t_stride u) i stride;
            Some (u\<lparr>t_extent := e, t_stride := s\<rparr>, stride * d) })
          (rev [0..int (length alldims) - 1]) (t\<lparr>t_dimensions := int (length alldims)\<rparr>, 1);
     Some (fst r) }"

definition setLinearLayout :: "Tensor \<Rightarrow> Tensor option" where
  "setLinearLayout t = do {
     r \<leftarrow> loop 0 (t_dimensions t) (\<lambda>i (u, size). do {
            let index = t_dimensions t - i - 1;
            e \<leftarrow> arr_at (t_extent u) index;
            let extent = (if index = 1 \<and> t_format u = MNN_NC4HW4 then UP_DIVi e 4 * 4 else e);
            s \<leftarrow> arr_put (t_stride u) index size;
            Some (u\<lparr>t_stride := s\<rparr>, size * extent) }) (t, 1);
     Some (fst r) }"

definition setupTensorInfo :: "Tensor \<Rightarrow> Tensor \<Rightarrow> MNN_DATA_FORMAT \<Rightarrow> Tensor option" where
  "setupTensorInfo tensor wrapTensor0 mMidFormat = (
     let wrapTensor = wrapTensor0\<lparr>t_format := mMidFormat\<rparr>;
         tensorFormat = t_format tensor;
         originCaffe = (tensorFormat = MNN_NCHW \<or> tensorFormat = MNN_NC4HW4);
         wrapCaffe = (mMidFormat = MNN_NCHW \<or> mMidFormat = MNN_NC4HW4);
         originTf = (tensorFormat = MNN_NHWC \<or> tensorFormat = MNN_NHWC4);
         wrapTf = (mMidFormat = MNN_NHWC \<or> mMidFormat = MNN_NHWC4)
     in do {
       w \<leftarrow> (if originCaffe \<and> wrapCaffe \<or> originTf \<and> wrapTf then copyShape tensor wrapTensor False
             else if originCaffe \<and> wrapTf then do {
               u \<leftarrow> loop 1 (t_dimensions wrapTensor - 1)
                      (\<lambda>i u. do { d \<leftarrow> tlength tensor (i + 1); setLength i d u }) wrapTensor;
               d0 \<leftarrow> tlength tensor 0; u \<leftarrow> setLength 0 d0 u;
               d1 \<leftarrow> tlength tensor 1; setLength (t_dimensions wrapTensor - 1) d1 u }
             else if originTf \<and> wrapCaffe then do {
               u \<leftarrow> loop 2 (t_dimensions wrapTensor)
                      (\<lambda>i u. do { d \<leftarrow> tlength tensor (i - 1); setLength i d u }) wrapTensor;
               d0 \<leftarrow> tlength tensor 0; u \<leftarrow> setLength 0 d0 u;
               d1 \<leftarrow> tlength tensor (t_dimensions tensor - 1); setLength 1 d1 u }
             else Some wrapTensor);
       w \<leftarrow> setLinearLayout w;
       Some (w\<lparr>t_type := t_type tensor\<rparr>) })"

abbreviation ret_false :: "'a option option" where
  "ret_false \<equiv> Some None"

abbreviation ret :: "'a \<Rightarrow> 'a option option" where
  "ret x \<equiv> Some (Some x)"

lemma tensor_of_simps [simp]:
  "length dims \<le> 9 \<Longrightarrow> tensor_wf (tensor_of dims fmt c)" "t_dimensions (tensor_of dims fmt c) = int (length dims)"
  "length dims \<le> 9 \<Longrightarrow> tshape (tensor_of dims fmt c) = dims" "t_host (tensor_of dims fmt c) = c"
  "t_format (tensor_of dims fmt c) = fmt" "t_type (tensor_of dims fmt c) = ht_of halide_type_int 32"
  by (simp_all add: tensor_of_def tensor_wf_def tshape_def MNN_MAX_TENSOR_DIM_def)

lemma tensor_upd_simps [simp]:
  "tensor_wf (t\<lparr>t_type := ty\<rparr>) = tensor_wf t" "tensor_wf (t\<lparr>t_format := f\<rparr>) = tensor_wf t"
  "tshape (t\<lparr>t_type := ty\<rparr>) = tshape t" "tshape (t\<lparr>t_format := f\<rparr>) = tshape t"
  by (simp_all add: tensor_wf_def tshape_def)

section \<open>Rules for loops\<close>

named_theorems access "array accesses that are in range"

lemma arr_at_nth [access]: "0 \<le> i \<Longrightarrow> i < int (length xs) \<Longrightarrow> arr_at xs i = Some (xs ! nat i)"
  by (simp add: arr_at_def)

lemma arr_put_upd [access]: "0 \<le> i \<Longrightarrow> i < int (length xs) \<Longrightarrow> arr_put xs i v = Some (xs[nat i := v])"
  by (simp add: arr_put_def)

lemma setLength_upd [access]:
  "0 \<le> i \<Longrightarrow> i < int (length (t_extent t)) \<Longrightarrow> setLength i v t = Some (t\<lparr>t_extent := (t_extent t)[nat i := v]\<rparr>)"
  by (simp add: setLength_def arr_put_def)

lemma tlength_nth [access]: "0 \<le> i \<Longrightarrow> i < int (length (t_extent t)) \<Longrightarrow> tlength t i = Some (t_extent t ! nat i)"
  by (simp add: tlength_def arr_at_def)

lemma idiv_nz [access]: "b \<noteq> 0 \<Longrightarrow> idiv a b = Some (a sdiv b)"
  by (simp add: idiv_def)

lemma foldM_append: "foldM f (xs @ ys) s = do { t \<leftarrow> foldM f xs s; foldM f ys t }"
  by (induction xs arbitrary: s) (auto split: bind_splits)

lemma foldM_cong: "(\<And>x s. x \<in> set xs \<Longrightarrow> f x s = g x s) \<Longrightarrow> foldM f xs s = foldM g xs s"
  by (induction xs arbitrary: s) (auto split: bind_splits)

lemma foldM_pure: "foldM (\<lambda>x s. Some (h x s)) xs s = Some (fold h xs s)"
  by (induction xs arbitrary: s) simp_all

lemma loop_empty [simp]: "hi \<le> lo \<Longrightarrow> loop lo hi f s = Some s"
  by (simp add: loop_def)

lemma loop_last: "lo \<le> hi \<Longrightarrow> loop lo (hi + 1) f s = do { t \<leftarrow> loop lo hi f s; f hi t }"
  by (auto simp: loop_def upto_rec2 foldM_append split: bind_splits)

lemma loop_first: "lo < hi \<Longrightarrow> loop lo hi f s = do { t \<leftarrow> f lo s; loop (lo + 1) hi f t }"
  by (simp add: loop_def upto_rec1)

text \<open>Total correctness of a counting loop.\<close>

lemma loop_rule:
  assumes "lo \<le> hi" "P lo s" "\<And>i t. lo \<le> i \<Longrightarrow> i < hi \<Longrightarrow> P i t \<Longrightarrow> \<exists>u. f i t = Some u \<and> P (i + 1) u"
  shows "\<exists>t. loop lo hi f s = Some t \<and> P hi t"
  using assms
proof (induction "nat (hi - lo)" arbitrary: lo s)
  case 0
  then show ?case by (simp add: order_antisym)
next
  case (Suc n)
  obtain u where u: "f lo s = Some u" "P (lo + 1) u" proof -
    have "lo < hi" using Suc.hyps(2) by linarith
    then show thesis using Suc.prems(3) [of lo s] Suc.prems(2) that by auto
  qed
  obtain t where "loop (lo + 1) hi f u = Some t" "P hi t"
  proof -
    have "n = nat (hi - (lo + 1))" "lo + 1 \<le> hi" using Suc.hyps(2) by linarith+
    then show thesis using Suc.hyps(1) [of "lo + 1" u] Suc.prems(3) u(2) that by auto
  qed
  then show ?case using loop_first [of lo hi f s] Suc.hyps(2) u(1) by simp
qed

lemma loop_partial:
  assumes "loop lo hi f s = Some t" "lo \<le> hi" "P lo s"
    "\<And>i s t. lo \<le> i \<Longrightarrow> i < hi \<Longrightarrow> P i s \<Longrightarrow> f i s = Some t \<Longrightarrow> P (i + 1) t"
  shows "P hi t"
  using assms
proof (induction "nat (hi - lo)" arbitrary: lo s)
  case 0
  then show ?case by simp
next
  case (Suc n)
  have lt: "lo < hi" using Suc.hyps(2) by linarith
  then obtain u where u: "f lo s = Some u" "loop (lo + 1) hi f u = Some t"
    using loop_first [OF lt, of f s] Suc.prems(1) by (auto split: bind_splits)
  show ?case
  proof (rule Suc.hyps(1) [OF _ u(2)])
    show "P (lo + 1) u" using Suc.prems(3,4) lt u(1) by blast
  qed (use Suc.prems(4) Suc.hyps(2) lt in auto)
qed

lemma loopC_empty [simp]: "hi \<le> lo \<Longrightarrow> loopC lo hi f s = Some (Some s)"
  by (simp add: loopC_def)

lemma loopC_first: "lo < hi \<Longrightarrow> loopC lo hi f s =
    do { r \<leftarrow> f lo s; case r of None \<Rightarrow> Some None | Some t \<Rightarrow> loopC (lo + 1) hi f t }"
  by (auto simp: loopC_def upto_rec1 split: bind_splits option.splits)

lemma loopC_rule:
  assumes "lo \<le> hi" "P lo s"
    "\<And>i t. lo \<le> i \<Longrightarrow> i < hi \<Longrightarrow> P i t \<Longrightarrow> (\<exists>u. f i t = Some (Some u) \<and> P (i + 1) u) \<or> (f i t = Some None \<and> Q)"
  shows "(\<exists>t. loopC lo hi f s = Some (Some t) \<and> P hi t) \<or> (loopC lo hi f s = Some None \<and> Q)"
  using assms
proof (induction "nat (hi - lo)" arbitrary: lo s)
  case 0
  then show ?case by (simp add: order_antisym)
next
  case (Suc n)
  have lt: "lo < hi" using Suc.hyps(2) by simp
  show ?case
  proof (cases "f lo s = Some None")
    case True
    then show ?thesis using Suc.prems(3) [of lo s] lt Suc.prems(2) loopC_first [OF lt, of f s] by auto
  next
    case False
    then obtain u where u: "f lo s = Some (Some u)" "P (lo + 1) u"
      using Suc.prems(3) [of lo s] lt Suc.prems(2) by auto
    then show ?thesis
      using Suc.hyps(1) [of "lo + 1" u] Suc.hyps(2) Suc.prems(3) loopC_first [OF lt, of f s] by auto
  qed
qed

lemma loop_setLength:
  assumes "0 \<le> lo" "lo \<le> hi" "hi \<le> int (length (t_extent t))"
    and f: "\<And>i u. lo \<le> i \<Longrightarrow> i < hi \<Longrightarrow> f i u = setLength i (g i) u"
  shows "loop lo hi f t =
    Some (t\<lparr>t_extent := take (nat lo) (t_extent t) @ map g [lo..hi - 1] @ drop (nat hi) (t_extent t)\<rparr>)"
proof -
  let ?P = "\<lambda>i u. u = t\<lparr>t_extent := take (nat lo) (t_extent t) @ map g [lo..i - 1] @ drop (nat i) (t_extent t)\<rparr>"
  have "\<exists>u. loop lo hi f t = Some u \<and> ?P hi u"
  proof (rule loop_rule [OF assms(2)])
    show "?P lo t" by simp
    fix i u assume i: "lo \<le> i" "i < hi" "?P i u"
    let ?a = "take (nat lo) (t_extent t)" and ?b = "map g [lo..i - 1]" and ?d = "drop (nat i) (t_extent t)"
    have len: "length ?a + length ?b = nat i" using assms(1,3) i(1,2) by simp
    have d: "?d = t_extent t ! nat i # drop (nat (i + 1)) (t_extent t)"
      using i assms by (simp add: Cons_nth_drop_Suc nat_add_distrib)
    have lu: "length (t_extent u) = length (t_extent t)" using i assms len by simp
    have "(?a @ ?b @ ?d)[nat i := g i] = ?a @ map g [lo..i] @ drop (nat (i + 1)) (t_extent t)"
    proof -
      have "length ?b = nat i - length ?a" using len by simp
      then have "(?a @ ?b @ ?d)[nat i := g i] = ?a @ (?b @ ?d)[length ?b := g i]"
        by (metis add_diff_cancel_left' len length_append list_update_append nat_less_le
            le_add1 linorder_not_le list_update_append1 diff_add_inverse not_add_less1)
      also have "\<dots> = ?a @ ?b @ g i # drop (nat (i + 1)) (t_extent t)" unfolding d by (simp only: list_update_length)
      also have "\<dots> = ?a @ map g [lo..i] @ drop (nat (i + 1)) (t_extent t)"
        using i(1) by (simp add: upto_rec2)
      finally show ?thesis .
    qed
    then have "f i u = Some (t\<lparr>t_extent := ?a @ map g [lo..i + 1 - 1] @ drop (nat (i + 1)) (t_extent t)\<rparr>)"
      using f [OF i(1,2)] setLength_upd [of i u "g i"] lu i assms by simp
    then show "\<exists>v. f i u = Some v \<and> ?P (i + 1) v" by blast
  qed
  then show ?thesis by blast
qed

lemma upto_nat: "0 \<le> hi \<Longrightarrow> map f [0..hi - 1] = map (\<lambda>i. f (int i)) [0..<nat hi]"
proof -
  assume h: "0 \<le> hi"
  have "map int [0..<nat hi] = [0..hi - 1]"
    by (rule nth_equalityI) (use h in auto)
  then show ?thesis by (metis (no_types, lifting) comp_apply map_eq_conv map_map)
qed

lemma loop_copy_prefix:
  assumes "0 \<le> hi" "hi \<le> int (length (t_extent t))" "\<And>i u. 0 \<le> i \<Longrightarrow> i < hi \<Longrightarrow> f i u = setLength i (xs ! nat i) u"
    and "hi \<le> int (length xs)"
  shows "loop 0 hi f t = Some (t\<lparr>t_extent := take (nat hi) xs @ drop (nat hi) (t_extent t)\<rparr>)"
proof -
  have "map (\<lambda>i. xs ! nat i) [0..hi - 1] = take (nat hi) xs"
    using assms(1,4) by (simp add: upto_nat list_eq_iff_nth_eq)
  then show ?thesis using loop_setLength [OF order_refl assms(1,2), of f "\<lambda>i. xs ! nat i"] assms(3) by simp
qed

end
