(* ===== verification/ShapeReshape.thy ===== *)
theory ShapeReshape
  imports Tensor
begin

text \<open>
  The computers of \<open>source/shape\<close> that rearrange the dimensions of one tensor: flatten, reshape,
  squeeze, unsqueeze, expand, permute, transpose, broadcast. Each definition takes what the
  operator's parameters hold (an absent flatbuffers field is \<open>None\<close>), the inputs, and the output
  as it is before the call, and follows the statements of \<open>onComputeSize\<close> in their order.
\<close>

section \<open>Flatten and Reshape (\<open>ShapeReshape.cpp\<close>)\<close>

definition realAxis :: "int \<Rightarrow> int \<Rightarrow> int" where
  "realAxis axis n = (if axis < 0 then axis + n else axis)"

definition FlattenComputer :: "(int \<times> int) option \<Rightarrow> Tensor list \<Rightarrow> Tensor list \<Rightarrow> Tensor list option option" where
  "FlattenComputer flatten inputs outputs =
     (case (flatten, inputs, outputs) of
        (Some (axis0, endAxis0), input # _, output # outs) \<Rightarrow>
          (let dim = t_dimensions input;
               axis = (if axis0 < 0 then axis0 + dim else axis0);
               endAxis = (if endAxis0 < 0 then endAxis0 + dim else endAxis0)
           in do {
             output \<leftarrow>
               (if endAxis = 0 then do {
                  outside \<leftarrow> loop 0 axis (\<lambda>i p. do { l \<leftarrow> tlength input i; Some (p * l) }) 1;
                  inside \<leftarrow> loop axis dim (\<lambda>i p. do { l \<leftarrow> tlength input i; Some (p * l) }) 1;
                  o1 \<leftarrow> setLength 0 outside (output\<lparr>t_dimensions := 2\<rparr>);
                  setLength 1 inside o1 }
                else do {
                  o1 \<leftarrow> loop 0 axis (\<lambda>i u. do { l \<leftarrow> tlength input i; setLength i l u })
                         (output\<lparr>t_dimensions := dim - endAxis + axis\<rparr>);
                  outside \<leftarrow> loop axis (endAxis + 1) (\<lambda>i p. do { l \<leftarrow> tlength input i; Some (p * l) }) 1;
                  o2 \<leftarrow> setLength axis outside o1;
                  (if dim > endAxis + 1
                   then loop (endAxis + 1) dim (\<lambda>i u. do { l \<leftarrow> tlength input i; setLength i l u }) o2
                   else Some o2) });
             ret (output\<lparr>t_type := t_type input, t_format := t_format input\<rparr> # outs) })
      | _ \<Rightarrow> ret_false)"

text \<open>The new shape: the operator's own (\<open>Reshape\<close> or \<open>QuantizedReshape\<close>), or the content of the second input.\<close>

definition reshape_target :: "int list \<Rightarrow> MNN_DATA_FORMAT \<Rightarrow> MNN_DATA_FORMAT \<Rightarrow> Tensor option \<Rightarrow> (int \<times> int list \<times> bool) option" where
  "reshape_target dims dimType inputFormat shapeInput =
     (case shapeInput of
        None \<Rightarrow> if length dims \<le> MNN_MAX_TENSOR_DIM then Some (int (length dims), dims, False) else None
      | Some inputShape \<Rightarrow> do {
          dimSize \<leftarrow> elementSize inputShape;
          let fromTf = (t_format inputShape = MNN_NHWC);
          let dim = t_host inputShape;
          shapes \<leftarrow>
            (if inputFormat = MNN_NC4HW4 \<and> dimType = MNN_NHWC then do {
               d0 \<leftarrow> arr_at dim 0; d3 \<leftarrow> arr_at dim 3; d1 \<leftarrow> arr_at dim 1; d2 \<leftarrow> arr_at dim 2;
               Some [d0, d3, d1, d2] }
             else if dimSize \<le> int (length dim) \<and> dimSize \<le> int MNN_MAX_TENSOR_DIM
             then Some (take (nat dimSize) dim) else None);
          Some (dimSize, shapes, fromTf) })"

definition ReshapeComputer ::
  "int list \<Rightarrow> MNN_DATA_FORMAT \<Rightarrow> Tensor \<Rightarrow> Tensor option \<Rightarrow> Tensor \<Rightarrow> Tensor option option" where
  "ReshapeComputer dims dimType input shapeInput output = do {
     (dimSize, shapes, fromTf) \<leftarrow> reshape_target dims dimType (t_format input) shapeInput;
     let output1 = output\<lparr>t_type := t_type input, t_dimensions := dimSize\<rparr>;
     totalSizeInput \<leftarrow> loop 0 (t_dimensions input) (\<lambda>i p. do { l \<leftarrow> tlength input i; Some (p * l) }) 1;
     (determinAxis, output2) \<leftarrow>
       loop 0 dimSize (\<lambda>i (a, u). do {
         reshapeDim \<leftarrow> arr_at shapes i;
         if reshapeDim = -1 then do { v \<leftarrow> setLength i 1 u; Some (i, v) }
         else if reshapeDim = 0 \<and> \<not> fromTf then do { l \<leftarrow> tlength input i; v \<leftarrow> setLength i l u; Some (a, v) }
         else do { v \<leftarrow> setLength i reshapeDim u; Some (a, v) } }) (-1, output1);
     totalSizeOutput \<leftarrow> loop 0 dimSize (\<lambda>i p. do { l \<leftarrow> tlength output2 i; Some (p * l) }) 1;
     (totalSizeOutput, output3) \<leftarrow>
       (if determinAxis \<ge> 0 then do {
          let q = (if totalSizeOutput \<noteq> 0 then totalSizeInput sdiv totalSizeOutput else 0);
          v \<leftarrow> setLength determinAxis q output2;
          Some (totalSizeOutput * q, v) }
        else Some (totalSizeOutput, output2));
     if totalSizeInput \<noteq> totalSizeOutput then ret_false
     else ret (output3\<lparr>t_format := t_format input\<rparr>) }"

section \<open>Squeeze and Unsqueeze (\<open>ShapeSqueeze.cpp\<close>)\<close>

text \<open>
  The axes come from the operator when \<open>squeezeDims\<close> is there, else from the content of the
  second input, else there are none.
\<close>

definition squeeze_axes :: "int list option \<Rightarrow> Tensor list \<Rightarrow> int list option" where
  "squeeze_axes squeezeDims inputs =
     (case squeezeDims of
        Some ds \<Rightarrow> Some ds
      | None \<Rightarrow>
          (if length inputs > 1 then do {
             n \<leftarrow> elementSize (inputs ! 1);
             if n \<le> int (length (t_host (inputs ! 1))) then Some (take (nat n) (t_host (inputs ! 1))) else None }
           else Some []))"

definition UnSqueezeSizeComputer :: "int list option \<Rightarrow> Tensor list \<Rightarrow> Tensor \<Rightarrow> Tensor option option" where
  "UnSqueezeSizeComputer squeezeDims inputs output = do {
     squeezeDim \<leftarrow> squeeze_axes squeezeDims inputs;
     let ib = hd inputs;
     let dims = t_dimensions ib + int (length squeezeDim);
     mask \<leftarrow> foldM (\<lambda>axis m. arr_put m (if axis < 0 then axis + dims else axis) True)
        squeezeDim (replicate MNN_MAX_TENSOR_DIM False);
     (ob, oDim) \<leftarrow> loop 0 dims (\<lambda>i (u, oDim). do {
         v \<leftarrow> setLength i 1 u;
         mk \<leftarrow> arr_at mask i;
         if \<not> mk then do { l \<leftarrow> tlength ib oDim; w \<leftarrow> setLength i l v; Some (w, oDim + 1) }
         else Some (v, oDim) }) (output\<lparr>t_dimensions := dims\<rparr>, 0);
     ret (ob\<lparr>t_type := t_type ib, t_format := t_format ib\<rparr>) }"

definition SqueezeSizeComputer :: "int list option \<Rightarrow> Tensor list \<Rightarrow> Tensor \<Rightarrow> Tensor option option" where
  "SqueezeSizeComputer squeezeDims inputs output = do {
     squeezeDim \<leftarrow> squeeze_axes squeezeDims inputs;
     let ib = hd inputs;
     andThen
       (foldC (\<lambda>axis0 m. do {
          let axis = (if axis0 < 0 then axis0 + t_dimensions ib else axis0);
          l \<leftarrow> tlength ib axis;
          if l \<noteq> 1 then ret_false else do { n \<leftarrow> arr_put m axis True; ret n } })
          squeezeDim (replicate MNN_MAX_TENSOR_DIM False))
       (\<lambda>mask0. do {
          (mask, size) \<leftarrow>
            (if squeezeDim = []
             then loop 0 (t_dimensions ib) (\<lambda>i (m, n). do {
                    l \<leftarrow> tlength ib i;
                    if l = 1 then do { m' \<leftarrow> arr_put m i True; Some (m', n + 1) } else Some (m, n) }) (mask0, 0)
             else Some (mask0, int (length squeezeDim)));
          (ob, oDim) \<leftarrow> loop 0 (t_dimensions ib) (\<lambda>i (u, oDim). do {
              mk \<leftarrow> arr_at mask i;
              if \<not> mk then do { l \<leftarrow> tlength ib i; v \<leftarrow> setLength oDim l u; Some (v, oDim + 1) }
              else Some (u, oDim) }) (output\<lparr>t_dimensions := t_dimensions ib - size\<rparr>, 0);
          ret (ob\<lparr>t_type := t_type ib, t_format := t_format ib\<rparr>) }) }"

section \<open>ExpandDims (\<open>ShapeExpandDims.cpp\<close>)\<close>

definition ExpandDimsComputer :: "int \<Rightarrow> Tensor list \<Rightarrow> Tensor \<Rightarrow> Tensor option option" where
  "ExpandDimsComputer axis inputs output = do {
     let input = hd inputs;
     dim0 \<leftarrow> (if length inputs = 2 then arr_at (t_host (inputs ! 1)) 0 else Some axis);
     let dim = (if dim0 < 0 then t_dimensions input + 1 + dim0 else dim0);
     (u, n) \<leftarrow> loop 0 (t_dimensions input) (\<lambda>i (u, n). do {
         (v, k) \<leftarrow> (if i = dim then do { v \<leftarrow> setLength n 1 u; Some (v, n + 1) } else Some (u, n));
         l \<leftarrow> tlength input i;
         w \<leftarrow> setLength k l v;
         Some (w, k + 1) }) (output\<lparr>t_type := t_type input\<rparr>, 0);
     (u, n) \<leftarrow> (if dim = t_dimensions input then do { v \<leftarrow> setLength n 1 u; Some (v, n + 1) } else Some (u, n));
     ret (u\<lparr>t_dimensions := n, t_format := t_format input\<rparr>) }"

section \<open>Permute and Transpose (\<open>ShapePermute.cpp\<close>, \<open>ShapeTranspose.cpp\<close>)\<close>

definition PermuteComputer :: "int list option \<Rightarrow> Tensor \<Rightarrow> Tensor \<Rightarrow> Tensor option option" where
  "PermuteComputer dims input output = (
     let dimSize = t_dimensions input
     in do {
       u \<leftarrow> (case dims of
               Some shape \<Rightarrow> loop 0 dimSize (\<lambda>i u. do { p \<leftarrow> arr_at shape i; l \<leftarrow> tlength input p; setLength i l u })
                  (output\<lparr>t_dimensions := dimSize\<rparr>)
             | None \<Rightarrow> loop 0 dimSize (\<lambda>i u. do { l \<leftarrow> tlength input (dimSize - i - 1); setLength i l u })
                  (output\<lparr>t_dimensions := dimSize\<rparr>));
       ret (u\<lparr>t_format := t_format input, t_type := t_type input\<rparr>) })"

definition TransposeComputer :: "Tensor \<Rightarrow> Tensor \<Rightarrow> Tensor \<Rightarrow> Tensor option option" where
  "TransposeComputer input perm output = do {
     let dims = t_dimensions input;
     p0 \<leftarrow> tlength perm 0;
     if ht_code (t_type perm) \<noteq> halide_type_int \<or> ht_bits (t_type perm) \<noteq> 32 \<or> dims \<noteq> p0 then ret_false
     else andThen
       (loopC 0 dims (\<lambda>i u. do {
          d \<leftarrow> arr_at (t_host perm) i;
          if d < 0 \<or> d \<ge> dims then ret_false
          else do { l \<leftarrow> tlength input d; v \<leftarrow> setLength i l u; ret v } })
          (output\<lparr>t_dimensions := dims, t_type := t_type input\<rparr>))
       (\<lambda>u. ret (u\<lparr>t_format := t_format input\<rparr>)) }"

section \<open>Broadcasting (\<open>SizeComputer.cpp\<close>, \<open>ShapeBroadcastTo.cpp\<close>, \<open>ShapeBinaryOp.cpp\<close>)\<close>

definition max_index :: "Tensor list \<Rightarrow> int \<times> int" where
  \<comment> \<open>the first input with the most dimensions: its number of dimensions and its index\<close>
  "max_index inputs = fold (\<lambda>index (m, k).
       if t_dimensions (inputs ! nat index) > m then (t_dimensions (inputs ! nat index), index) else (m, k))
     [1..int (length inputs) - 1] (t_dimensions (inputs ! 0), 0)"

definition broadcast_one :: "int \<Rightarrow> Tensor \<Rightarrow> int list \<Rightarrow> int list option option" where
  "broadcast_one maxDimensions input1 outputDims =
     loopC (maxDimensions - t_dimensions input1) maxDimensions (\<lambda>i od. do {
       dim1 \<leftarrow> tlength input1 (i - (maxDimensions - t_dimensions input1));
       oi \<leftarrow> arr_at od i;
       if dim1 \<noteq> oi \<and> (dim1 \<noteq> 1 \<and> oi \<noteq> 1) then ret_false
       else if dim1 = oi then ret od
       else do { od' \<leftarrow> arr_put od i (oi * dim1); ret od' } }) outputDims"

definition computeBroadCastDims :: "Tensor list \<Rightarrow> Tensor \<Rightarrow> Tensor option option" where
  "computeBroadCastDims inputs output = do {
     let (maxDimensions, maxIndex) = max_index inputs;
     outputDims \<leftarrow> loop 0 maxDimensions
        (\<lambda>i od. do { l \<leftarrow> tlength (inputs ! nat maxIndex) i; arr_put od i l }) (replicate MNN_MAX_TENSOR_DIM 0);
     andThen
       (loopC 0 (int (length inputs)) (\<lambda>index od.
          if index = maxIndex then ret od else broadcast_one maxDimensions (inputs ! nat index) od) outputDims)
       (\<lambda>od. do {
          u \<leftarrow> loop 0 maxDimensions (\<lambda>i u. do { d \<leftarrow> arr_at od i; setLength i d u })
                 (output\<lparr>t_dimensions := maxDimensions\<rparr>);
          ret u }) }"

definition BinaryOpComputer :: "bool \<Rightarrow> Tensor \<Rightarrow> Tensor \<Rightarrow> Tensor \<Rightarrow> Tensor option option" where
  \<comment> \<open>\<open>cmp\<close> is \<open>outputBool(opType)\<close>: greater, less, equal and their negations\<close>
  "BinaryOpComputer cmp input0 input1 output = (
     let out1 = output\<lparr>t_type := (if cmp then ht_of halide_type_int 32 else t_type input0)\<rparr>
     in if ht_code (t_type input0) \<noteq> ht_code (t_type input1) then ret_false
        else computeBroadCastDims [input0, input1]
               (out1\<lparr>t_format := t_format (if t_dimensions input0 < t_dimensions input1 then input1 else input0)\<rparr>))"

definition ShapeBroadcastTo :: "bool \<Rightarrow> Tensor \<Rightarrow> Tensor \<Rightarrow> Tensor \<Rightarrow> Tensor option option" where
  \<comment> \<open>\<open>axisSet\<close> is \<open>op->main() && op->main_as_Axis()->axis()\<close>\<close>
  "ShapeBroadcastTo axisSet input shape output = do {
     let inputDims = t_dimensions input;
     shapeDims \<leftarrow> elementSize shape;
     let dimension = (if inputDims > shapeDims then inputDims else shapeDims);
     let out0 = output\<lparr>t_dimensions := dimension\<rparr>;
     andThen
       (if axisSet then do {
          u \<leftarrow> loop 0 dimension (\<lambda>i u. do { d \<leftarrow> arr_at (t_host shape) i; setLength i d u }) out0; ret u }
        else do {
          (u, alignShape, offset) \<leftarrow>
            (if inputDims > shapeDims then do {
               u \<leftarrow> loop 0 inputDims (\<lambda>i u. do { l \<leftarrow> tlength input i; setLength i l u }) out0;
               al \<leftarrow> loop 0 shapeDims (\<lambda>i al. do { d \<leftarrow> arr_at (t_host shape) i; arr_put al i d })
                       (replicate MNN_MAX_TENSOR_DIM 0);
               Some (u, al, inputDims - shapeDims) }
             else do {
               u \<leftarrow> loop 0 shapeDims (\<lambda>i u. do { d \<leftarrow> arr_at (t_host shape) i; setLength i d u }) out0;
               al \<leftarrow> loop 0 inputDims (\<lambda>i al. do { l \<leftarrow> tlength input i; arr_put al i l })
                       (replicate MNN_MAX_TENSOR_DIM 0);
               Some (u, al, shapeDims - inputDims) });
          loopC offset dimension (\<lambda>i u. do {
            dim1 \<leftarrow> arr_at alignShape (i - offset);
            dim2 \<leftarrow> tlength u i;
            if dim1 \<noteq> dim2 \<and> (dim1 \<noteq> 1 \<and> dim2 \<noteq> 1) then ret_false
            else if dim1 = dim2 then ret u
            else if dim1 \<noteq> 1 then do { v \<leftarrow> setLength i dim1 u; ret v }
            else ret u }) u })
       (\<lambda>u. ret (u\<lparr>t_type := t_type input, t_format := t_format input\<rparr>)) }"

end
