(* ===== verification/ReshapeFacts.thy ===== *)
theory ReshapeFacts
  imports ShapeReshape "HOL-Library.Multiset"
begin

text \<open>
  What the computers of theory \<open>ShapeReshape\<close> compute: the number of elements a reshape keeps, the
  shapes of expand, squeeze, permute and transpose as list expressions and their round trips, and
  broadcasting as a recursive reference definition on reversed shapes. The array accesses of each
  computer are in range under the stated conditions (its result is not \<open>None\<close>).
\<close>

section \<open>Products and updates over a shape\<close>

lemma tshape_length: "tensor_wf t \<Longrightarrow> length (tshape t) = nat (t_dimensions t)"
  by (auto simp: tshape_def tensor_wf_def)

lemma tshape_nth: "k < nat (t_dimensions t) \<Longrightarrow> tshape t ! k = t_extent t ! k"
  by (simp add: tshape_def)

lemma prod_list_snoc: "prod_list (xs @ [x]) = prod_list xs * (x :: int)"
  by simp

lemma loop_prod:
  assumes "0 \<le> lo" "lo \<le> hi" "hi \<le> int (length (t_extent t))"
  shows "loop lo hi (\<lambda>i p. do { l \<leftarrow> tlength t i; Some (p * l) }) c =
    Some (c * prod_list (drop (nat lo) (take (nat hi) (t_extent t))))"
proof -
  let ?P = "\<lambda>i p. p = c * prod_list (drop (nat lo) (take (nat i) (t_extent t)))"
  have "\<exists>p. loop lo hi (\<lambda>i p. do { l \<leftarrow> tlength t i; Some (p * l) }) c = Some p \<and> ?P hi p"
  proof (rule loop_rule [OF assms(2)])
    show "?P lo c" by simp
    fix i p assume i: "lo \<le> i" "i < hi" "?P i p"
    have "take (nat (i + 1)) (t_extent t) = take (nat i) (t_extent t) @ [t_extent t ! nat i]"
      using i assms take_Suc_conv_app_nth [of "nat i" "t_extent t"] by (simp add: nat_add_distrib)
    then have "?P (i + 1) (p * t_extent t ! nat i)"
      using i assms by simp
    then show "\<exists>q. do { l \<leftarrow> tlength t i; Some (p * l) } = Some q \<and> ?P (i + 1) q"
      using i assms by (simp add: tlength_nth)
  qed
  then show ?thesis by blast
qed

lemma loop_prod_all:
  "tensor_wf t \<Longrightarrow> loop 0 (t_dimensions t) (\<lambda>i p. do { l \<leftarrow> tlength t i; Some (p * l) }) 1 = Some (prod_list (tshape t))"
  using loop_prod [of 0 "t_dimensions t" t 1] by (simp add: tensor_wf_def tshape_def)

lemma prod_list_update1:
  "k < length xs \<Longrightarrow> xs ! k = 1 \<Longrightarrow> prod_list (xs[k := q]) = prod_list xs * (q :: int)"
  by (induction xs arbitrary: k) (auto split: nat.split simp: nth_Cons)

lemma loopC_update:
  assumes "0 \<le> lo" "lo \<le> hi" "hi \<le> int (length xs)"
    and f: "\<And>i ys. lo \<le> i \<Longrightarrow> i < hi \<Longrightarrow> length ys = length xs \<Longrightarrow>
      f i ys = (if ok i (ys ! nat i) then ret (ys[nat i := g i (ys ! nat i)]) else ret_false)"
  shows "loopC lo hi f xs =
    (if \<forall>i. lo \<le> i \<and> i < hi \<longrightarrow> ok i (xs ! nat i)
     then ret (map (\<lambda>k. if lo \<le> int k \<and> int k < hi then g (int k) (xs ! k) else xs ! k) [0..<length xs])
     else ret_false)"
  using assms
proof (induction "nat (hi - lo)" arbitrary: lo xs)
  case 0
  then have "hi = lo" by simp
  then have "map (\<lambda>k. if lo \<le> int k \<and> int k < hi then g (int k) (xs ! k) else xs ! k) [0..<length xs] = xs"
    by (intro nth_equalityI) auto
  then show ?case using \<open>hi = lo\<close> by simp
next
  case (Suc n)
  have lt: "lo < hi" using Suc.hyps(2) by linarith
  show ?case
  proof (cases "ok lo (xs ! nat lo)")
    case False
    then show ?thesis using loopC_first [OF lt, of f xs] Suc.prems(4) [of lo xs] lt by auto
  next
    case True
    let ?ys = "xs[nat lo := g lo (xs ! nat lo)]"
    have st: "loopC lo hi f xs = loopC (lo + 1) hi f ?ys"
      using loopC_first [OF lt, of f xs] Suc.prems(4) [of lo xs] lt True by simp
    have ih: "loopC (lo + 1) hi f ?ys =
      (if \<forall>i. lo + 1 \<le> i \<and> i < hi \<longrightarrow> ok i (?ys ! nat i)
       then ret (map (\<lambda>k. if lo + 1 \<le> int k \<and> int k < hi then g (int k) (?ys ! k) else ?ys ! k) [0..<length ?ys])
       else ret_false)"
      using Suc.prems lt Suc.hyps(2) by (intro Suc.hyps(1)) auto
    have ys: "?ys ! nat i = xs ! nat i" if "lo < i" for i using that Suc.prems(1) by simp
    have all: "(\<forall>i. lo + 1 \<le> i \<and> i < hi \<longrightarrow> ok i (?ys ! nat i)) = (\<forall>i. lo \<le> i \<and> i < hi \<longrightarrow> ok i (xs ! nat i))"
      using True ys by (metis add1_zle_eq order_le_less)
    have "map (\<lambda>k. if lo + 1 \<le> int k \<and> int k < hi then g (int k) (?ys ! k) else ?ys ! k) [0..<length ?ys] =
        map (\<lambda>k. if lo \<le> int k \<and> int k < hi then g (int k) (xs ! k) else xs ! k) [0..<length xs]"
    proof (rule nth_equalityI)
      fix k assume "k < length (map (\<lambda>k. if lo + 1 \<le> int k \<and> int k < hi then g (int k) (?ys ! k) else ?ys ! k) [0..<length ?ys])"
      then have k: "k < length xs" by simp
      consider "int k = lo" | "int k \<noteq> lo" by blast
      then show "map (\<lambda>k. if lo + 1 \<le> int k \<and> int k < hi then g (int k) (?ys ! k) else ?ys ! k) [0..<length ?ys] ! k =
        map (\<lambda>k. if lo \<le> int k \<and> int k < hi then g (int k) (xs ! k) else xs ! k) [0..<length xs] ! k"
      proof cases
        case 1
        then have "nat lo = k" by simp
        then show ?thesis using k lt 1 by simp
      next
        case 2
        then have "nat lo \<noteq> k" using Suc.prems(1) by auto
        then show ?thesis using k 2 by auto
      qed
    qed simp
    then show ?thesis unfolding st ih all by simp
  qed
qed

section \<open>Reshape\<close>

lemma loop_prod_partial:
  assumes "loop 0 hi (\<lambda>i p. do { l \<leftarrow> tlength t i; Some (p * l) }) c = Some p"
  shows "p = c * prod_list (take (nat hi) (t_extent t))"
proof (cases "0 \<le> hi")
  case True
  show ?thesis
  proof (rule loop_partial [OF assms True])
    fix i q r assume i: "0 \<le> i" "i < hi" "q = c * prod_list (take (nat i) (t_extent t))"
      "do { l \<leftarrow> tlength t i; Some (q * l) } = Some r"
    then have "i < int (length (t_extent t))" "r = q * t_extent t ! nat i"
      by (auto simp: tlength_def arr_at_def split: bind_splits if_splits)
    then show "r = c * prod_list (take (nat (i + 1)) (t_extent t))"
      using i take_Suc_conv_app_nth [of "nat i" "t_extent t"] by (simp add: nat_add_distrib)
  qed simp
qed (use assms in simp)

text \<open>
  C10: a reshape that returns true keeps the number of elements, whatever the target contains:
  zeros that copy an input dimension, one or several \<open>-1\<close>, and shapes read from a second input.
\<close>

theorem reshape_keeps_elements:
  assumes "ReshapeComputer dims dimType input shapeInput output = ret out"
  shows "prod_list (tshape out) = prod_list (tshape input)"
proof -
  obtain dimSize shapes fromTf where tg: "reshape_target dims dimType (t_format input) shapeInput = Some (dimSize, shapes, fromTf)"
    using assms unfolding ReshapeComputer_def by (auto split: bind_splits)
  let ?o = "output\<lparr>t_type := t_type input, t_dimensions := dimSize\<rparr>"
  let ?f = "\<lambda>i (a, u). do {
         reshapeDim \<leftarrow> arr_at shapes i;
         if reshapeDim = -1 then do { v \<leftarrow> setLength i 1 u; Some (i, v) }
         else if reshapeDim = 0 \<and> \<not> fromTf then do { l \<leftarrow> tlength input i; v \<leftarrow> setLength i l u; Some (a, v) }
         else do { v \<leftarrow> setLength i reshapeDim u; Some (a, v) } }"
  let ?prod = "\<lambda>t n. loop 0 n (\<lambda>i p. do { l \<leftarrow> tlength t i; Some (p * l) }) 1"
  obtain pin a u pout where st: "?prod input (t_dimensions input) = Some pin"
      "loop 0 dimSize ?f (-1, ?o) = Some (a, u)" "?prod u dimSize = Some pout"
    using assms unfolding ReshapeComputer_def tg by (auto split: bind_splits)
  have pin: "pin = prod_list (tshape input)" using loop_prod_partial [OF st(1)] by (simp add: tshape_def)
  have pout: "pout = prod_list (take (nat dimSize) (t_extent u))" using loop_prod_partial [OF st(3)] by simp
  have inv: "t_dimensions u = dimSize \<and>
      (a \<ge> 0 \<longrightarrow> a < dimSize \<and> nat a < length (t_extent u) \<and> t_extent u ! nat a = 1)"
  proof (cases "0 \<le> dimSize")
    case True
    let ?P = "\<lambda>i s. t_dimensions (snd s) = dimSize \<and>
      (fst s \<ge> 0 \<longrightarrow> fst s < i \<and> nat (fst s) < length (t_extent (snd s)) \<and> t_extent (snd s) ! nat (fst s) = 1)"
    have "?P dimSize (a, u)"
    proof (rule loop_partial [where P = ?P, OF st(2) True])
      fix i s t assume "0 \<le> i" "i < dimSize" "?P i s" "?f i s = Some t"
      then show "?P (i + 1) t"
        by (cases s) (auto simp: setLength_def arr_put_def nth_list_update split: bind_splits if_splits)
    qed simp
    then show ?thesis by simp
  qed (use st(2) in auto)
  show ?thesis
  proof (cases "a \<ge> 0")
    case False
    then have "pin = pout" "t_dimensions out = dimSize" "t_extent out = t_extent u"
      using assms inv unfolding ReshapeComputer_def tg by (auto simp: st split: if_splits)
    then show ?thesis using pin pout by (simp add: tshape_def)
  next
    case True
    let ?q = "if pout \<noteq> 0 then pin sdiv pout else 0"
    have v: "setLength a ?q u = Some (u\<lparr>t_extent := (t_extent u)[nat a := ?q]\<rparr>)"
      using True inv by (intro setLength_upd) auto
    have "pin = pout * ?q" "t_dimensions out = dimSize" "t_extent out = (t_extent u)[nat a := ?q]"
      using assms inv True v unfolding ReshapeComputer_def tg by (auto simp: st Let_def simp del: mult_eq_0_iff split: if_splits)
    moreover have "take (nat dimSize) ((t_extent u)[nat a := ?q]) = (take (nat dimSize) (t_extent u))[nat a := ?q]"
      by (rule take_update_swap)
    moreover have "prod_list ((take (nat dimSize) (t_extent u))[nat a := ?q]) = pout * ?q"
      unfolding pout using inv True by (intro prod_list_update1) auto
    ultimately show ?thesis unfolding tshape_def [of out] using pin by simp
  qed
qed

theorem reshape_keeps_elements_witness:
  "prod_list (tshape (tensor_of [6, 4] MNN_NCHW [])) = prod_list (tshape (tensor_of [2, 3, 4] MNN_NCHW []))"
proof -
  have "ReshapeComputer [-1, 4] MNN_NCHW (tensor_of [2, 3, 4] MNN_NCHW []) None (tensor_of [] MNN_NCHW []) =
      ret (tensor_of [6, 4] MNN_NCHW [])"
    by code_simp
  then show ?thesis by (rule reshape_keeps_elements)
qed

section \<open>Flatten\<close>

text \<open>
  Flattening the axes \<open>axis\<close> to \<open>endAxis\<close>, more than one and not the last, leaves the
  dimension after the flattened one as it was in the output before the call: the remaining dimensions
  are written at their input index \<open>i\<close>, not at \<open>i - (endAxis - axis)\<close>.
\<close>

theorem flatten_middle_stale:
  assumes "tensor_wf input" "tensor_wf output" "0 \<le> axis" "axis < endAxis" "endAxis + 1 < t_dimensions input"
  shows "\<exists>out. FlattenComputer (Some (axis, endAxis)) [input] [output] = ret [out] \<and>
    t_dimensions out = t_dimensions input - endAxis + axis \<and> axis + 1 < t_dimensions out \<and>
    tlength out (axis + 1) = tlength output (axis + 1)"
proof -
  let ?dim = "t_dimensions input" and ?body = "\<lambda>i u. do { l \<leftarrow> tlength input i; setLength i l u }"
  have lens: "length (t_extent input) = 9" "length (t_extent output) = 9" "?dim \<le> 9"
    using assms(1,2) by (simp_all add: tensor_wf_def MNN_MAX_TENSOR_DIM_def)
  have body: "?body i u = setLength i (t_extent input ! nat i) u" if "0 \<le> i" "i < ?dim" for i u
    using that lens by (simp add: tlength_nth)
  let ?o0 = "output\<lparr>t_dimensions := ?dim - endAxis + axis\<rparr>"
  let ?g = "\<lambda>i. t_extent input ! nat i"
  obtain o1 where o1: "loop 0 axis ?body ?o0 = Some o1" "o1 = ?o0\<lparr>t_extent := map ?g [0..axis - 1] @ drop (nat axis) (t_extent output)\<rparr>"
    using loop_setLength [of 0 axis ?o0 ?body ?g] assms body lens by simp
  have l1: "length (t_extent o1) = 9" using o1(2) assms lens by simp
  obtain p where p: "loop axis (endAxis + 1) (\<lambda>i p. do { l \<leftarrow> tlength input i; Some (p * l) }) 1 = Some p"
    using loop_prod [of axis "endAxis + 1" input 1] assms lens by simp
  let ?o2 = "o1\<lparr>t_extent := (t_extent o1)[nat axis := p]\<rparr>"
  have o2: "setLength axis p o1 = Some ?o2" using assms lens l1 by (intro setLength_upd) auto
  obtain o3 where o3: "loop (endAxis + 1) ?dim ?body ?o2 = Some o3"
      "o3 = ?o2\<lparr>t_extent := take (nat (endAxis + 1)) (t_extent ?o2) @ map ?g [endAxis + 1..?dim - 1] @ drop (nat ?dim) (t_extent ?o2)\<rparr>"
    using loop_setLength [of "endAxis + 1" ?dim ?o2 ?body ?g] assms body lens l1 by simp
  let ?out = "o3\<lparr>t_type := t_type input, t_format := t_format input\<rparr>"
  have run: "FlattenComputer (Some (axis, endAxis)) [input] [output] = ret [?out]"
    using assms o1(1) p o2 o3(1) unfolding FlattenComputer_def by (simp add: Let_def)
  have "t_extent ?out ! nat (axis + 1) = t_extent output ! nat (axis + 1)"
    using assms lens unfolding o3(2) o1(2)
    by (simp add: nth_append nat_add_distrib nat_less_iff)
  moreover have "length (t_extent ?out) = 9" using o3(2) l1 assms lens by simp
  moreover have "t_dimensions ?out = ?dim - endAxis + axis" using o3(2) o1(2) by simp
  ultimately show ?thesis
    using run assms lens by (intro exI [of _ ?out] conjI) (simp_all add: tlength_nth)
qed

theorem flatten_middle_stale_witness:
  "\<exists>out. FlattenComputer (Some (1, 2)) [tensor_of [2, 3, 4, 5] MNN_NCHW []] [tensor_of [7, 7, 7] MNN_NCHW []] = ret [out] \<and>
    t_dimensions out = 3 \<and> 2 < t_dimensions out \<and> tlength out 2 = tlength (tensor_of [7, 7, 7] MNN_NCHW []) 2"
  using flatten_middle_stale [of "tensor_of [2, 3, 4, 5] MNN_NCHW []" "tensor_of [7, 7, 7] MNN_NCHW []" 1 2]
  by simp

section \<open>Permute and transpose\<close>

lemma setLength_loop_shape:
  assumes "tensor_wf t" "0 \<le> n" "n \<le> 9" "\<And>i u. 0 \<le> i \<Longrightarrow> i < n \<Longrightarrow> f i u = setLength i (g i) u"
  shows "loop 0 n f (t\<lparr>t_dimensions := n\<rparr>) =
    Some (t\<lparr>t_dimensions := n, t_extent := map g [0..n - 1] @ drop (nat n) (t_extent t)\<rparr>)"
  using loop_setLength [of 0 n "t\<lparr>t_dimensions := n\<rparr>" f g] assms
  by (simp add: tensor_wf_def MNN_MAX_TENSOR_DIM_def)

lemma tshape_prefix: "0 \<le> n \<Longrightarrow> t_dimensions t = n \<Longrightarrow> t_extent t = xs @ ys \<Longrightarrow> length xs = nat n \<Longrightarrow> tshape t = xs"
  by (simp add: tshape_def)

definition is_perm :: "int list \<Rightarrow> nat \<Rightarrow> bool" where
  "is_perm p n \<longleftrightarrow> length p = n \<and> mset p = mset [0..int n - 1]"

lemma is_perm_range: "is_perm p n \<Longrightarrow> k < n \<Longrightarrow> 0 \<le> p ! k \<and> p ! k < int n"
proof -
  assume p: "is_perm p n" "k < n"
  then have "p ! k \<in> set p" by (simp add: is_perm_def)
  also have "set p = set [0..int n - 1]" using p(1) by (metis is_perm_def mset_eq_setD)
  finally show ?thesis by simp
qed

text \<open>
  \<open>Permute\<close> and \<open>Transpose\<close> with a permutation of the axes succeed and give the permuted shape,
  so the number of elements is kept.
\<close>

theorem permute_shape:
  assumes "tensor_wf input" "tensor_wf output" "is_perm p (nat (t_dimensions input))"
  shows "\<exists>out. PermuteComputer (Some p) input output = ret out \<and> tensor_wf out \<and>
      tshape out = map (\<lambda>d. tshape input ! nat d) p \<and> prod_list (tshape out) = prod_list (tshape input) \<and>
      t_format out = t_format input \<and> t_type out = t_type input"
proof -
  let ?n = "t_dimensions input" and ?g = "\<lambda>i. t_extent input ! nat (p ! nat i)"
  have n: "0 \<le> ?n" "?n \<le> 9" "length (t_extent input) = 9" "length (t_extent output) = 9" "length (t_stride output) = 9"
    using assms(1,2) by (simp_all add: tensor_wf_def MNN_MAX_TENSOR_DIM_def)
  have lp: "length p = nat ?n" using assms(3) by (simp add: is_perm_def)
  have rng: "0 \<le> p ! nat i" "p ! nat i < 9" if "0 \<le> i" "i < ?n" for i
    using is_perm_range [OF assms(3), of "nat i"] that n by auto
  let ?out = "output\<lparr>t_dimensions := ?n, t_extent := map ?g [0..?n - 1] @ drop (nat ?n) (t_extent output),
     t_format := t_format input, t_type := t_type input\<rparr>"
  have "loop 0 ?n (\<lambda>i u. do { d \<leftarrow> arr_at p i; l \<leftarrow> tlength input d; setLength i l u }) (output\<lparr>t_dimensions := ?n\<rparr>) =
      Some (output\<lparr>t_dimensions := ?n, t_extent := map ?g [0..?n - 1] @ drop (nat ?n) (t_extent output)\<rparr>)"
    by (intro setLength_loop_shape [OF assms(2)]) (simp_all add: access rng n lp)
  then have run: "PermuteComputer (Some p) input output = ret ?out"
    by (simp add: PermuteComputer_def Let_def)
  have "tshape ?out = map ?g [0..?n - 1]" using n(1) by (intro tshape_prefix [OF n(1)]) auto
  also have "\<dots> = map (\<lambda>d. tshape input ! nat d) p"
    using n lp is_perm_range [OF assms(3)]
    by (intro nth_equalityI) (auto simp: tshape_nth nat_less_iff)
  finally have sh: "tshape ?out = map (\<lambda>d. tshape input ! nat d) p" .
  have "mset (map (\<lambda>d. tshape input ! nat d) p) = mset (map (\<lambda>d. tshape input ! nat d) [0..?n - 1])"
    using assms(3) n(1) by (simp add: is_perm_def)
  also have "map (\<lambda>d. tshape input ! nat d) [0..?n - 1] = tshape input"
    using n tshape_length [OF assms(1)] by (intro nth_equalityI) auto
  finally have "prod_list (map (\<lambda>d. tshape input ! nat d) p) = prod_list (tshape input)"
    by (metis prod_mset_prod_list)
  then show ?thesis
    using run sh n by (intro exI [of _ ?out]) (simp add: tensor_wf_def MNN_MAX_TENSOR_DIM_def)
qed

theorem permute_shape_witness:
  "\<exists>out. PermuteComputer (Some [2, 0, 1]) (tensor_of [2, 3, 4] MNN_NCHW []) (tensor_of [] MNN_NHWC []) = ret out \<and>
    tensor_wf out \<and> tshape out = [4, 2, 3]"
  using permute_shape [of "tensor_of [2, 3, 4] MNN_NCHW []" "tensor_of [] MNN_NHWC []" "[2, 0, 1]"]
  by (force simp: is_perm_def eval_nat_numeral upto_rec1)

section \<open>Expand and squeeze\<close>

text \<open>Loops that append to the dimensions of the output.\<close>

definition filled :: "int list \<Rightarrow> int list \<Rightarrow> int list" where
  "filled A Y = A @ drop (length A) Y"

lemma setLength_filled:
  assumes "t_extent u = filled A Y" "length A < length Y"
  shows "setLength (int (length A)) v u = Some (u\<lparr>t_extent := filled (A @ [v]) Y\<rparr>)"
proof -
  have d: "drop (length A) Y = Y ! length A # drop (Suc (length A)) Y"
    using assms(2) by (simp add: Cons_nth_drop_Suc)
  have "(A @ drop (length A) Y)[length A := v] = filled (A @ [v]) Y"
    unfolding filled_def d by (simp add: list_update_append)
  then show ?thesis using assms by (subst setLength_upd) (simp_all add: filled_def)
qed

lemma filled_Nil: "filled [] Y = Y"
  by (simp add: filled_def)

lemma tshape_filled: "t_extent t = filled A Y \<Longrightarrow> t_dimensions t = int (length A) \<Longrightarrow> tshape t = A"
  by (simp add: tshape_def filled_def)

lemma length_filled: "length A \<le> length Y \<Longrightarrow> length (filled A Y) = length Y"
  by (simp add: filled_def)

lemma tlength_shape: "tensor_wf t \<Longrightarrow> k < length (tshape t) \<Longrightarrow> tlength t (int k) = Some (tshape t ! k)"
  by (simp add: tlength_def arr_at_def tensor_wf_def tshape_def MNN_MAX_TENSOR_DIM_def nat_less_iff)

lemma expand_shape:
  assumes wf: "tensor_wf input" "tensor_wf output" and n: "t_dimensions input < 9"
    and d: "- t_dimensions input - 1 \<le> axis" "axis \<le> t_dimensions input"
    and dim: "dim = nat (if axis < 0 then t_dimensions input + 1 + axis else axis)"
  shows "\<exists>out. ExpandDimsComputer axis [input] output = ret out \<and> tensor_wf out \<and>
    tshape out = take dim (tshape input) @ [1] @ drop dim (tshape input) \<and>
    t_dimensions out = t_dimensions input + 1"
proof -
  let ?X = "tshape input" and ?Y = "t_extent output" and ?n = "t_dimensions input"
  define A where "A i = (if i \<le> dim then take i ?X else take dim ?X @ 1 # drop dim (take i ?X))" for i
  have lX: "length ?X = nat ?n" by (rule tshape_length [OF wf(1)])
  have lY: "length ?Y = 9" using wf by (simp add: tensor_wf_def MNN_MAX_TENSOR_DIM_def)
  have n0: "0 \<le> ?n" using wf by (simp add: tensor_wf_def)
  have dle: "dim \<le> nat ?n" using d dim by auto
  have dint: "(if axis < 0 then ?n + 1 + axis else axis) = int dim" using d dim by auto
  let ?f = "\<lambda>i (u, n). do {
         (v, k) \<leftarrow> (if i = int dim then do { v \<leftarrow> setLength n 1 u; Some (v, n + 1) } else Some (u, n));
         l \<leftarrow> tlength input i;
         w \<leftarrow> setLength k l v;
         Some (w, k + 1) }"
  let ?o = "output\<lparr>t_type := t_type input\<rparr>"
  let ?P = "\<lambda>i s. s = (?o\<lparr>t_extent := filled (A (nat i)) ?Y\<rparr>, int (length (A (nat i))))"
  have lA: "length (A i) = (if i \<le> dim then i else Suc i)" if "i \<le> nat ?n" for i
    using that lX by (simp add: A_def)
  have step: "\<exists>s'. ?f i s = Some s' \<and> ?P (i + 1) s'" if i: "0 \<le> i" "i < ?n" "?P i s" for i s
  proof -
    define j where "j = nat i"
    have ij: "i = int j" "j < nat ?n" "nat (i + 1) = Suc j" using i by (auto simp: j_def)
    have t: "tlength input i = Some (?X ! j)" using tlength_shape [OF wf(1)] ij lX by simp
    have tk: "take (Suc j) ?X = take j ?X @ [?X ! j]" using ij lX by (simp add: take_Suc_conv_app_nth)
    show ?thesis
    proof (cases "j = dim")
      case True
      have A1: "A j @ [1] @ [?X ! j] = A (Suc j)" using True ij lX by (simp add: A_def tk [unfolded True])
      have l1: "length (A j) < 8" using lA [of j] ij n True by simp
      have "setLength (int (length (A j))) 1 (?o\<lparr>t_extent := filled (A j) ?Y\<rparr>) =
          Some (?o\<lparr>t_extent := filled (A j @ [1]) ?Y\<rparr>)"
        using l1 lY by (subst setLength_filled [where A = "A j" and Y = ?Y]) auto
      moreover have "setLength (int (length (A j @ [1]))) (?X ! j) (?o\<lparr>t_extent := filled (A j @ [1]) ?Y\<rparr>) =
          Some (?o\<lparr>t_extent := filled (A (Suc j)) ?Y\<rparr>)"
        using l1 lY by (subst setLength_filled [where A = "A j @ [1]" and Y = ?Y]) (auto simp: A1 [symmetric])
      ultimately show ?thesis
        using t i(3) True ij A1 [THEN arg_cong, of length] by (simp add: j_def [symmetric] ac_simps)
    next
      case False
      have A1: "A j @ [?X ! j] = A (Suc j)" using False ij lX by (auto simp: A_def tk)
      have l1: "length (A j) < 9" using lA [of j] ij n by (auto split: if_splits)
      have "setLength (int (length (A j))) (?X ! j) (?o\<lparr>t_extent := filled (A j) ?Y\<rparr>) =
          Some (?o\<lparr>t_extent := filled (A (Suc j)) ?Y\<rparr>)"
        using l1 lY by (subst setLength_filled [where A = "A j" and Y = ?Y]) (auto simp: A1)
      then show ?thesis
        using t i(3) False ij A1 [THEN arg_cong, of length] by (simp add: j_def [symmetric] ac_simps)
    qed
  qed
  obtain s where s: "loop 0 ?n ?f (?o, 0) = Some s" "?P ?n s"
  proof -
    have "?P 0 (?o, 0)" by (simp add: A_def filled_Nil)
    then show thesis using loop_rule [where P = ?P and f = ?f, OF n0 _ step] that by blast
  qed
  let ?R = "take dim ?X @ [1] @ drop dim ?X"
  let ?fin = "?o\<lparr>t_extent := filled ?R ?Y, t_dimensions := ?n + 1, t_format := t_format input\<rparr>"
  have "ExpandDimsComputer axis [input] output = ret ?fin"
  proof (cases "dim = nat ?n")
    case True
    then have "A (nat ?n) = ?X" "?R = ?X @ [1]" using lX by (simp_all add: A_def)
    moreover have "setLength (int (length ?X)) 1 (?o\<lparr>t_extent := filled ?X ?Y\<rparr>) = Some (?o\<lparr>t_extent := filled (?X @ [1]) ?Y\<rparr>)"
      using lX lY n n0 by (subst setLength_filled [where A = ?X and Y = ?Y]) auto
    ultimately show ?thesis
      using s True n0 lX unfolding ExpandDimsComputer_def
      by (simp add: dint Let_def ac_simps)
  next
    case False
    then have "A (nat ?n) = ?R" "int dim \<noteq> ?n" using lX dle n0 by (auto simp: A_def)
    moreover have "int (length ?R) = ?n + 1" using lX dle n0 by simp
    ultimately show ?thesis
      using s unfolding ExpandDimsComputer_def by (simp add: dint Let_def)
  qed
  moreover have "tshape ?fin = ?R"
    using lX dle n0 by (intro tshape_filled [where Y = ?Y]) auto
  moreover have "tensor_wf ?fin"
    using wf n n0 lX dle by (auto simp: tensor_wf_def MNN_MAX_TENSOR_DIM_def filled_def)
  ultimately show ?thesis by (intro exI [of _ ?fin]) simp
qed

lemma squeeze_shape:
  assumes wf: "tensor_wf input" "tensor_wf output"
    and axes: "axes = map (\<lambda>a. nat (if a < 0 then a + t_dimensions input else a)) ds" "ds \<noteq> []" "distinct axes"
    and ok: "\<And>a. a \<in> set ds \<Longrightarrow> - t_dimensions input \<le> a \<and> a < t_dimensions input"
      "\<And>k. k \<in> set axes \<Longrightarrow> tshape input ! k = 1"
  shows "\<exists>out. SqueezeSizeComputer (Some ds) [input] output = ret out \<and> tensor_wf out \<and>
    tshape out = map ((!) (tshape input)) (filter (\<lambda>k. k \<notin> set axes) [0..<nat (t_dimensions input)]) \<and>
    t_dimensions out = t_dimensions input - int (length ds)"
proof -
  let ?X = "tshape input" and ?Y = "t_extent output" and ?n = "t_dimensions input"
  have lX: "length ?X = nat ?n" by (rule tshape_length [OF wf(1)])
  have lY: "length ?Y = 9" using wf by (simp add: tensor_wf_def MNN_MAX_TENSOR_DIM_def)
  have n0: "0 \<le> ?n" "?n \<le> 9" using wf by (simp_all add: tensor_wf_def MNN_MAX_TENSOR_DIM_def)
  let ?norm = "\<lambda>a. if a < 0 then a + ?n else a"
  have na: "0 \<le> ?norm a \<and> ?norm a < ?n" if "a \<in> set ds" for a using ok(1) [OF that] by auto
  let ?mask = "\<lambda>S. map (\<lambda>k. k \<in> S) [0..<9]"
  have upd: "(?mask S)[k := True] = ?mask (insert k S)" if "k < 9" for S k
    using that by (intro nth_equalityI) (auto simp: nth_list_update)
  have chk: "foldC (\<lambda>axis0 m. do {
        let axis = (if axis0 < 0 then axis0 + ?n else axis0);
        l \<leftarrow> tlength input axis;
        if l \<noteq> 1 then ret_false else do { n \<leftarrow> arr_put m axis True; ret n } }) es (?mask S) =
      ret (?mask (S \<union> set (map (\<lambda>a. nat (?norm a)) es)))" if "set es \<subseteq> set ds" for es S
    using that
  proof (induction es arbitrary: S)
    case (Cons a es)
    let ?k = "nat (?norm a)"
    have a: "a \<in> set ds" using Cons.prems by simp
    have k: "0 \<le> ?norm a" "?norm a < 9" "?norm a = int ?k" "?k < 9" "?k < length ?X" using na [OF a] n0 lX by auto
    have "?X ! ?k = 1" using ok(2) a axes(1) by auto
    then have l: "tlength input (?norm a) = Some 1" using tlength_shape [OF wf(1) k(5)] k(3) by simp
    have p: "arr_put (?mask S) (?norm a) True = Some (?mask (insert ?k S))"
      using k upd [OF k(4), of S] by (simp only: arr_put_def) simp
    show ?case using Cons.IH [of "insert ?k S"] Cons.prems l p by (simp add: Let_def)
  qed simp
  have rep: "replicate MNN_MAX_TENSOR_DIM False = ?mask {}"
    by (simp add: MNN_MAX_TENSOR_DIM_def map_replicate_const)
  let ?M = "set axes"
  have m1: "foldC (\<lambda>axis0 m. do {
        let axis = (if axis0 < 0 then axis0 + ?n else axis0);
        l \<leftarrow> tlength input axis;
        if l \<noteq> 1 then ret_false else do { n \<leftarrow> arr_put m axis True; ret n } }) ds (replicate MNN_MAX_TENSOR_DIM False) =
      ret (?mask ?M)"
    unfolding rep using chk [of ds "{}"] axes(1) by simp
  define A where "A i = map ((!) ?X) (filter (\<lambda>k. k \<notin> ?M) [0..<i])" for i
  have lA: "length (A i) \<le> i" for i unfolding A_def by (metis diff_zero length_filter_le length_map length_upt)
  let ?f = "\<lambda>i (u, oDim). do {
              mk \<leftarrow> arr_at (?mask ?M) i;
              if \<not> mk then do { l \<leftarrow> tlength input i; v \<leftarrow> setLength oDim l u; Some (v, oDim + 1) }
              else Some (u, oDim) }"
  let ?o = "output\<lparr>t_dimensions := ?n - int (length ds)\<rparr>"
  let ?P = "\<lambda>i s. s = (?o\<lparr>t_extent := filled (A (nat i)) ?Y\<rparr>, int (length (A (nat i))))"
  have step: "\<exists>s'. ?f i s = Some s' \<and> ?P (i + 1) s'" if i: "0 \<le> i" "i < ?n" "?P i s" for i s
  proof -
    define j where "j = nat i"
    have ij: "i = int j" "j < nat ?n" "j < 9" "nat (i + 1) = Suc j" using i n0 by (auto simp: j_def)
    have t: "tlength input i = Some (?X ! j)" using tlength_shape [OF wf(1)] ij lX by simp
    have mk: "arr_at (?mask ?M) i = Some (j \<in> ?M)" using ij by (simp add: arr_at_def)
    have "setLength (int (length (A j))) (?X ! j) (?o\<lparr>t_extent := filled (A j) ?Y\<rparr>) =
        Some (?o\<lparr>t_extent := filled (A j @ [?X ! j]) ?Y\<rparr>)"
      using lA [of j] ij lY by (subst setLength_filled [where A = "A j" and Y = ?Y]) auto
    then show ?thesis using i(3) mk t ij(1,4) by (cases "j \<in> ?M") (simp_all add: A_def ac_simps)
  qed
  obtain s where s: "loop 0 ?n ?f (?o, 0) = Some s" "?P ?n s"
  proof -
    have "?P 0 (?o, 0)" by (simp add: A_def filled_Nil)
    then show thesis using loop_rule [where P = ?P and f = ?f, OF n0(1) _ step] that by blast
  qed
  have sub: "?M \<subseteq> {0..<nat ?n}" using na axes(1) by fastforce
  have cardA: "length (A (nat ?n)) = nat ?n - length ds"
  proof -
    have "length (A (nat ?n)) = card ({0..<nat ?n} - ?M)"
      unfolding A_def length_map using distinct_card [of "filter (\<lambda>k. k \<notin> ?M) [0..<nat ?n]"]
      by (simp add: set_diff_eq)
    also have "\<dots> = nat ?n - card ?M" using sub by (simp add: card_Diff_subset)
    also have "card ?M = length ds" using distinct_card [OF axes(3)] axes(1) by (metis length_map)
    finally show ?thesis .
  qed
  have lds: "int (length ds) \<le> ?n"
  proof -
    have "card ?M \<le> nat ?n" using card_mono [OF _ sub] by simp
    moreover have "card ?M = length ds" using distinct_card [OF axes(3)] axes(1) by (metis length_map)
    ultimately show ?thesis using n0 by simp
  qed
  let ?fin = "?o\<lparr>t_extent := filled (A (nat ?n)) ?Y, t_type := t_type input, t_format := t_format input\<rparr>"
  have "SqueezeSizeComputer (Some ds) [input] output = ret ?fin"
    using s m1 axes(2) unfolding SqueezeSizeComputer_def squeeze_axes_def andThen_def
    by (simp add: Let_def)
  moreover have "tshape ?fin = A (nat ?n)"
    using cardA lds n0 by (intro tshape_filled [where Y = ?Y]) auto
  moreover have "tensor_wf ?fin"
    using wf n0 cardA lds by (auto simp: tensor_wf_def MNN_MAX_TENSOR_DIM_def filled_def)
  ultimately show ?thesis by (intro exI [of _ ?fin]) (simp add: A_def)
qed

text \<open>\<open>ExpandDims\<close> inserts a dimension of extent 1 at the axis, negative axes counted from the end,
  and squeezing that axis again gives back the shape of the input.
\<close>

theorem expand_squeeze_roundtrip:
  assumes "tensor_wf input" "tensor_wf output" "tensor_wf output2" "t_dimensions input < 9"
    and "- t_dimensions input - 1 \<le> axis" "axis \<le> t_dimensions input"
  shows "\<exists>mid out. ExpandDimsComputer axis [input] output = ret mid \<and>
    SqueezeSizeComputer (Some [axis]) [mid] output2 = ret out \<and> tshape out = tshape input"
proof -
  let ?X = "tshape input"
  define dim where "dim = nat (if axis < 0 then t_dimensions input + 1 + axis else axis)"
  have n0: "0 \<le> t_dimensions input" using assms(1) by (simp add: tensor_wf_def)
  have dle: "dim \<le> length ?X" using tshape_length [OF assms(1)] assms(5,6) n0 by (auto simp: dim_def)
  obtain mid where mid: "ExpandDimsComputer axis [input] output = ret mid" "tensor_wf mid"
      "tshape mid = take dim ?X @ [1] @ drop dim ?X" "t_dimensions mid = t_dimensions input + 1"
    using expand_shape [OF assms(1,2,4-6) dim_def] by blast
  have axes: "[dim] = map (\<lambda>a. nat (if a < 0 then a + t_dimensions mid else a)) [axis]"
    using mid(4) by (simp add: dim_def ac_simps)
  have rng: "- t_dimensions mid \<le> a \<and> a < t_dimensions mid" if "a \<in> set [axis]" for a
    using that assms(5,6) mid(4) by simp
  have one: "tshape mid ! k = 1" if "k \<in> set [dim]" for k
    using that mid(3) dle by (simp add: nth_append)
  obtain out where out: "SqueezeSizeComputer (Some [axis]) [mid] output2 = ret out"
      "tshape out = map ((!) (tshape mid)) (filter (\<lambda>k. k \<notin> set [dim]) [0..<nat (t_dimensions mid)])"
    using squeeze_shape [OF mid(2) assms(3) axes _ _ rng one] by auto
  have "nat (t_dimensions mid) = Suc (length ?X)"
    using mid(4) n0 tshape_length [OF assms(1)] by (simp add: nat_add_distrib)
  moreover have "filter (\<lambda>k. k \<notin> set [dim]) [0..<Suc (length ?X)] = [0..<dim] @ [Suc dim..<Suc (length ?X)]"
  proof -
    have "[0..<Suc (length ?X)] = [0..<dim] @ dim # [Suc dim..<Suc (length ?X)]"
      using dle upt_add_eq_append [of 0 dim "Suc (length ?X) - dim"] upt_conv_Cons [of dim "Suc (length ?X)"] by simp
    then show ?thesis by simp
  qed
  moreover have "map ((!) (tshape mid)) [0..<dim] = take dim ?X"
    using dle unfolding mid(3) by (intro nth_equalityI) (auto simp: nth_append)
  moreover have "map ((!) (tshape mid)) [Suc dim..<Suc (length ?X)] = drop dim ?X"
    using dle unfolding mid(3) by (intro nth_equalityI) (auto simp: nth_append simp del: upt_Suc)
  ultimately have "tshape out = ?X" unfolding out(2) by simp
  then show ?thesis using mid(1) out(1) by blast
qed

theorem expand_squeeze_roundtrip_witness:
  "\<exists>mid out. ExpandDimsComputer (-2) [tensor_of [2, 1, 4] MNN_NHWC []] (tensor_of [] MNN_NCHW []) = ret mid \<and>
    SqueezeSizeComputer (Some [-2]) [mid] (tensor_of [] MNN_NCHW []) = ret out \<and> tshape out = [2, 1, 4]"
  using expand_squeeze_roundtrip [of "tensor_of [2, 1, 4] MNN_NHWC []" "tensor_of [] MNN_NCHW []" "tensor_of [] MNN_NCHW []" "-2"]
  by simp

section \<open>Broadcasting\<close>

text \<open>The reference: compare the shapes from their last dimension, a missing dimension is 1.\<close>

fun bc_rev :: "int list \<Rightarrow> int list \<Rightarrow> int list option" where
  "bc_rev [] ys = Some ys"
| "bc_rev xs [] = Some xs"
| "bc_rev (x # xs) (y # ys) =
     (if x \<noteq> y \<and> x \<noteq> 1 \<and> y \<noteq> 1 then None
      else do { zs \<leftarrow> bc_rev xs ys; Some ((if x = 1 then y else x) # zs) })"

definition broadcast_shape :: "int list \<Rightarrow> int list \<Rightarrow> int list option" where
  "broadcast_shape xs ys = map_option rev (bc_rev (rev xs) (rev ys))"

definition bc_ok :: "int \<Rightarrow> int \<Rightarrow> bool" where
  "bc_ok x y = (x = y \<or> x = 1 \<or> y = 1)"

definition wider :: "int \<Rightarrow> int \<Rightarrow> int" where
  "wider x y = (if x = 1 then y else x)"

lemma bc_rev_Nil2: "bc_rev xs [] = Some xs"
  by (cases xs) simp_all

lemma bc_rev_comm: "bc_rev xs ys = bc_rev ys xs"
proof (induction xs ys rule: bc_rev.induct)
  case (3 x xs y ys)
  then show ?case by (auto split: bind_splits)
qed (simp_all add: bc_rev_Nil2)

lemma bc_rev_nth:
  "length ys \<le> length xs \<Longrightarrow> bc_rev xs ys =
    (if \<forall>k < length ys. bc_ok (xs ! k) (ys ! k)
     then Some (map (\<lambda>k. if k < length ys then wider (xs ! k) (ys ! k) else xs ! k) [0..<length xs]) else None)"
proof (induction xs ys rule: bc_rev.induct)
  case (1 ys)
  then show ?case by simp
next
  case (2 x xs)
  then show ?case by (simp add: map_nth [symmetric] del: upt_Suc) (metis length_Cons map_nth)
next
  case (3 x xs y ys)
  have m: "map f [0..<length (x # xs)] = f 0 # map (\<lambda>k. f (Suc k)) [0..<length xs]" for f :: "nat \<Rightarrow> int"
    by (simp add: map_upt_Suc del: upt_Suc)
  have all: "(\<forall>k < length (y # ys). bc_ok ((x # xs) ! k) ((y # ys) ! k)) \<longleftrightarrow>
      bc_ok x y \<and> (\<forall>k < length ys. bc_ok (xs ! k) (ys ! k))"
    by (auto simp: All_less_Suc2)
  show ?case
    using 3 unfolding m all by (auto simp: bc_ok_def wider_def)
qed

lemma broadcast_shape_comm: "broadcast_shape xs ys = broadcast_shape ys xs"
  by (simp add: broadcast_shape_def bc_rev_comm)

lemma broadcast_shape_nth:
  assumes "length ys \<le> length xs" "off = length xs - length ys"
  shows "broadcast_shape xs ys =
    (if \<forall>k < length ys. bc_ok (xs ! (off + k)) (ys ! k)
     then Some (map (\<lambda>k. if k < off then xs ! k else wider (xs ! k) (ys ! (k - off))) [0..<length xs]) else None)"
proof -
  have rx: "rev xs ! k = xs ! (length xs - Suc k)" if "k < length xs" for k using that by (simp add: rev_nth)
  have ry: "rev ys ! k = ys ! (length ys - Suc k)" if "k < length ys" for k using that by (simp add: rev_nth)
  have cond: "(\<forall>k < length ys. bc_ok (rev xs ! k) (rev ys ! k)) = (\<forall>k < length ys. bc_ok (xs ! (off + k)) (ys ! k))"
  proof (intro iffI allI impI)
    fix k assume a: "\<forall>k < length ys. bc_ok (rev xs ! k) (rev ys ! k)" "k < length ys"
    have "length ys - Suc k < length ys" using a(2) by simp
    then have "bc_ok (rev xs ! (length ys - Suc k)) (rev ys ! (length ys - Suc k))" using a(1) by blast
    moreover have "rev xs ! (length ys - Suc k) = xs ! (off + k)"
      using a(2) assms by (subst rx) (auto intro: arg_cong [of _ _ "(!) xs"])
    moreover have "rev ys ! (length ys - Suc k) = ys ! k" using a(2) by (subst ry) auto
    ultimately show "bc_ok (xs ! (off + k)) (ys ! k)" by simp
  next
    fix k assume a: "\<forall>k < length ys. bc_ok (xs ! (off + k)) (ys ! k)" "k < length ys"
    have "length ys - Suc k < length ys" using a(2) by simp
    then have "bc_ok (xs ! (off + (length ys - Suc k))) (ys ! (length ys - Suc k))" using a(1) by blast
    moreover have "off + (length ys - Suc k) = length xs - Suc k" using a(2) assms by simp
    ultimately show "bc_ok (rev xs ! k) (rev ys ! k)" using a(2) assms(1) by (simp only:) (simp add: rx ry)
  qed
  have "rev (map (\<lambda>k. if k < length ys then wider (rev xs ! k) (rev ys ! k) else rev xs ! k) [0..<length xs]) =
      map (\<lambda>k. if k < off then xs ! k else wider (xs ! k) (ys ! (k - off))) [0..<length xs]"
  proof (rule nth_equalityI)
    fix k assume "k < length (rev (map (\<lambda>k. if k < length ys then wider (rev xs ! k) (rev ys ! k) else rev xs ! k) [0..<length xs]))"
    then have k: "k < length xs" by simp
    let ?m = "length xs - Suc k"
    have m: "length xs - Suc ?m = k" "?m < length xs" using k by auto
    have "?m < length ys \<longleftrightarrow> \<not> k < off" using k assms by auto
    moreover have "length ys - Suc ?m = k - off" if "\<not> k < off" using that k assms by auto
    ultimately show "rev (map (\<lambda>k. if k < length ys then wider (rev xs ! k) (rev ys ! k) else rev xs ! k) [0..<length xs]) ! k =
      map (\<lambda>k. if k < off then xs ! k else wider (xs ! k) (ys ! (k - off))) [0..<length xs] ! k"
      using k m by (simp add: rev_nth rx ry)
  qed simp
  then show ?thesis
    unfolding broadcast_shape_def using bc_rev_nth [of "rev ys" "rev xs"] assms(1) cond by simp
qed

lemma loop_arr_copy:
  assumes "0 \<le> n" "n \<le> int (length xs)" "\<And>i ys. 0 \<le> i \<Longrightarrow> i < n \<Longrightarrow> f i ys = arr_put ys i (g i)"
  shows "loop 0 n f xs = Some (filled (map g [0..n - 1]) xs)"
proof -
  let ?P = "\<lambda>i ys. ys = filled (map g [0..i - 1]) xs"
  have "\<exists>ys. loop 0 n f xs = Some ys \<and> ?P n ys"
  proof (rule loop_rule [OF assms(1)])
    show "?P 0 xs" by (simp add: filled_def)
    fix i ys assume i: "0 \<le> i" "i < n" "?P i ys"
    let ?A = "map g [0..i - 1]"
    have l: "length ?A = nat i" using i by simp
    have d: "drop (length ?A) xs = xs ! nat i # drop (Suc (nat i)) xs"
      using l i assms(2) by (simp add: Cons_nth_drop_Suc)
    have "ys[nat i := g i] = ?A @ g i # drop (Suc (nat i)) xs"
      unfolding i(3) filled_def d using l by (metis list_update_length)
    also have "\<dots> = filled (map g [0..i + 1 - 1]) xs"
      using i l by (simp add: filled_def upto_rec2)
    finally have "ys[nat i := g i] = filled (map g [0..i + 1 - 1]) xs" .
    moreover have "length ys = length xs" unfolding i(3) using l i assms(2) by (simp add: filled_def)
    ultimately show "\<exists>zs. f i ys = Some zs \<and> ?P (i + 1) zs"
      using assms(3) [OF i(1,2)] i assms(2) by (simp add: arr_put_def)
  qed
  then show ?thesis by blast
qed

lemma map_upto_nth: "length xs = nat n \<Longrightarrow> map (\<lambda>i. xs ! nat i) [0..n - 1] = xs"
  by (intro nth_equalityI) auto

lemma filled_nth: "k < length A \<Longrightarrow> filled A Y ! k = A ! k"
  by (simp add: filled_def nth_append)

lemma broadcast_one_ref:
  assumes "length xs = nat m" "0 \<le> m" "m \<le> int (length Y)" "tensor_wf small" "t_dimensions small \<le> m"
  shows "broadcast_one m small (filled xs Y) =
    (case broadcast_shape xs (tshape small) of None \<Rightarrow> ret_false | Some s \<Rightarrow> ret (filled s Y))"
proof -
  let ?ys = "tshape small" and ?off = "nat (m - t_dimensions small)"
  have n: "0 \<le> t_dimensions small" "length ?ys = nat (t_dimensions small)" "length ?ys \<le> length xs"
      "?off = length xs - length ?ys" "int ?off = m - t_dimensions small"
    using assms tshape_length [OF assms(4)] by (auto simp: tensor_wf_def)
  let ?f = "\<lambda>i od. do {
       dim1 \<leftarrow> tlength small (i - (m - t_dimensions small));
       oi \<leftarrow> arr_at od i;
       if dim1 \<noteq> oi \<and> (dim1 \<noteq> 1 \<and> oi \<noteq> 1) then ret_false
       else if dim1 = oi then ret od
       else do { od' \<leftarrow> arr_put od i (oi * dim1); ret od' } }"
  let ?ok = "\<lambda>i v. bc_ok v (?ys ! (nat i - ?off))" and ?g = "\<lambda>i v. wider v (?ys ! (nat i - ?off))"
  have lf: "length (filled xs Y) = length Y" using assms(1-3) by (intro length_filled) auto
  have step: "?f i ys = (if ?ok i (ys ! nat i) then ret (ys[nat i := ?g i (ys ! nat i)]) else ret_false)"
    if i: "m - t_dimensions small \<le> i" "i < m" "length ys = length (filled xs Y)" for i ys
  proof -
    have e: "i - (m - t_dimensions small) = int (nat i - ?off)" "nat i - ?off < length ?ys"
    proof -
      have j: "i = int (nat i)" "?off \<le> nat i" using i(1,2) n(1,5) by linarith+
      show "i - (m - t_dimensions small) = int (nat i - ?off)" using j n(5) by (simp add: of_nat_diff)
      show "nat i - ?off < length ?ys" unfolding n(2) using j i(2) n(1,5) by linarith
    qed
    have "tlength small (i - (m - t_dimensions small)) = Some (?ys ! (nat i - ?off))"
      unfolding e(1) by (rule tlength_shape [OF assms(4) e(2)])
    moreover have "arr_at ys i = Some (ys ! nat i)" "arr_put ys i v = Some (ys[nat i := v])" for v
      using i n assms(2,3) lf by (auto simp: access)
    ultimately show ?thesis by (auto simp: bc_ok_def wider_def) (metis list_update_id)+
  qed
  have "broadcast_one m small (filled xs Y) = loopC (m - t_dimensions small) m ?f (filled xs Y)"
    by (simp add: broadcast_one_def)
  also have "\<dots> = (if \<forall>i. m - t_dimensions small \<le> i \<and> i < m \<longrightarrow> ?ok i (filled xs Y ! nat i)
     then ret (map (\<lambda>k. if m - t_dimensions small \<le> int k \<and> int k < m then ?g (int k) (filled xs Y ! k) else filled xs Y ! k)
       [0..<length (filled xs Y)]) else ret_false)"
    by (rule loopC_update) (use n assms lf step in auto)
  finally have lhs: "broadcast_one m small (filled xs Y) = \<dots>" .
  have fx: "filled xs Y ! k = xs ! k" if "int k < m" for k using filled_nth that assms(1) by simp
  have cond: "(\<forall>i. m - t_dimensions small \<le> i \<and> i < m \<longrightarrow> ?ok i (filled xs Y ! nat i)) =
      (\<forall>k < length ?ys. bc_ok (xs ! (?off + k)) (?ys ! k))"
  proof (intro iffI allI impI)
    fix k assume a: "\<forall>i. m - t_dimensions small \<le> i \<and> i < m \<longrightarrow> ?ok i (filled xs Y ! nat i)" "k < length ?ys"
    have "m - t_dimensions small \<le> int (?off + k)" "int (?off + k) < m" using a(2) n by auto
    then have "?ok (int (?off + k)) (filled xs Y ! nat (int (?off + k)))" using a(1) by blast
    moreover have "filled xs Y ! (?off + k) = xs ! (?off + k)" using \<open>int (?off + k) < m\<close> by (rule fx)
    ultimately show "bc_ok (xs ! (?off + k)) (?ys ! k)" by (simp only: nat_int add_diff_cancel_left')
  next
    fix i assume a: "\<forall>k < length ?ys. bc_ok (xs ! (?off + k)) (?ys ! k)" "m - t_dimensions small \<le> i \<and> i < m"
    have k: "nat i - ?off < length ?ys" "?off + (nat i - ?off) = nat i" using a(2) n by auto
    then have "bc_ok (xs ! nat i) (?ys ! (nat i - ?off))" using a(1) by metis
    then show "?ok i (filled xs Y ! nat i)" using fx [of "nat i"] a(2) assms(5) by simp
  qed
  have res: "map (\<lambda>k. if m - t_dimensions small \<le> int k \<and> int k < m then ?g (int k) (filled xs Y ! k) else filled xs Y ! k)
       [0..<length (filled xs Y)] =
      filled (map (\<lambda>k. if k < ?off then xs ! k else wider (xs ! k) (?ys ! (k - ?off))) [0..<length xs]) Y"
    (is "?l = ?r")
  proof (rule nth_equalityI)
    show "length ?l = length ?r" using assms(1,3) lf by (simp add: filled_def)
    fix k assume "k < length ?l"
    then have k: "k < length Y" using lf by simp
    show "?l ! k = ?r ! k"
    proof (cases "k < length xs")
      case True
      then have "?r ! k = (if k < ?off then xs ! k else wider (xs ! k) (?ys ! (k - ?off)))"
        by (subst filled_nth) simp_all
      moreover have "(m - t_dimensions small \<le> int k \<and> int k < m) = (\<not> k < ?off)"
        using True n(5) assms(1,2) by linarith
      ultimately show ?thesis using True k lf fx [of k] assms(1,2) by simp
    next
      case False
      then have "?r ! k = Y ! k" "\<not> int k < m" "filled xs Y ! k = Y ! k"
        using k assms(1,2) by (auto simp: filled_def nth_append)
      then show ?thesis using k lf by simp
    qed
  qed
  show ?thesis
    unfolding lhs cond res broadcast_shape_nth [OF n(3,4)] by simp
qed

lemma broadcast_shape_refl: "broadcast_shape xs xs = Some xs"
proof -
  have "bc_rev ys ys = Some ys" for ys by (induction ys) simp_all
  then show ?thesis by (simp add: broadcast_shape_def)
qed

lemma broadcast_shape_length: "broadcast_shape xs ys = Some zs \<Longrightarrow> length zs = max (length xs) (length ys)"
proof -
  assume a: "broadcast_shape xs ys = Some zs"
  show ?thesis
  proof (cases "length ys \<le> length xs")
    case True
    then show ?thesis using a broadcast_shape_nth [OF True refl] by (auto split: if_splits)
  next
    case False
    then show ?thesis using a broadcast_shape_nth [of xs ys, OF _ refl]
      by (auto simp: broadcast_shape_comm [of xs ys] split: if_splits)
  qed
qed

lemma write_dims:
  assumes "tensor_wf out" "length zs = nat n" "0 \<le> n" "n \<le> 9" "length Y = 9"
  shows "loop 0 n (\<lambda>i u. do { d \<leftarrow> arr_at (filled zs Y) i; setLength i d u }) (out\<lparr>t_dimensions := n\<rparr>) =
    Some (out\<lparr>t_dimensions := n, t_extent := filled zs (t_extent out)\<rparr>)"
proof -
  have "loop 0 n (\<lambda>i u. do { d \<leftarrow> arr_at (filled zs Y) i; setLength i d u }) (out\<lparr>t_dimensions := n\<rparr>) =
    Some (out\<lparr>t_dimensions := n, t_extent := map (\<lambda>i. zs ! nat i) [0..n - 1] @ drop (nat n) (t_extent out)\<rparr>)"
    using assms(2-5) by (intro setLength_loop_shape [OF assms(1,3,4)]) (auto simp: access length_filled filled_nth)
  then show ?thesis using map_upto_nth [OF assms(2)] assms(2) by (simp add: filled_def)
qed

text \<open>
  C23: on two inputs \<open>computeBroadCastDims\<close> is the broadcasting of the reference: it returns false
  exactly when two aligned dimensions differ and neither is 1, writes the broadcast shape otherwise,
  and accesses no array out of range.
\<close>

theorem broadcast_two_reference:
  assumes "tensor_wf a" "tensor_wf b" "tensor_wf out"
  shows "computeBroadCastDims [a, b] out =
    (case broadcast_shape (tshape a) (tshape b) of
       None \<Rightarrow> ret_false
     | Some s \<Rightarrow> ret (out\<lparr>t_dimensions := int (length s), t_extent := filled s (t_extent out)\<rparr>))"
proof -
  let ?Y = "replicate MNN_MAX_TENSOR_DIM (0 :: int)"
  have gen: "do {
     outputDims \<leftarrow> loop 0 (t_dimensions big) (\<lambda>i od. do { l \<leftarrow> tlength big i; arr_put od i l }) ?Y;
     andThen (broadcast_one (t_dimensions big) small outputDims)
       (\<lambda>od. do {
          u \<leftarrow> loop 0 (t_dimensions big) (\<lambda>i u. do { d \<leftarrow> arr_at od i; setLength i d u })
                 (out\<lparr>t_dimensions := t_dimensions big\<rparr>);
          ret u }) } =
    (case broadcast_shape (tshape big) (tshape small) of
       None \<Rightarrow> ret_false
     | Some s \<Rightarrow> ret (out\<lparr>t_dimensions := int (length s), t_extent := filled s (t_extent out)\<rparr>))"
    if wf: "tensor_wf big" "tensor_wf small" "t_dimensions small \<le> t_dimensions big" for big small
  proof -
    let ?m = "t_dimensions big"
    have lY: "length ?Y = 9" by (simp add: MNN_MAX_TENSOR_DIM_def)
    have m: "0 \<le> ?m" "?m \<le> 9" "length (t_extent big) = 9" "length (tshape big) = nat ?m"
      using wf(1) tshape_length [OF wf(1)] by (simp_all add: tensor_wf_def MNN_MAX_TENSOR_DIM_def)
    have cp: "loop 0 ?m (\<lambda>i od. do { l \<leftarrow> tlength big i; arr_put od i l }) ?Y = Some (filled (tshape big) ?Y)"
    proof -
      have "loop 0 ?m (\<lambda>i od. do { l \<leftarrow> tlength big i; arr_put od i l }) ?Y =
          Some (filled (map (\<lambda>i. tshape big ! nat i) [0..?m - 1]) ?Y)"
        using m by (intro loop_arr_copy) (auto simp: access tshape_nth MNN_MAX_TENSOR_DIM_def)
      then show ?thesis by (simp add: map_upto_nth [OF m(4)])
    qed
    have one: "broadcast_one ?m small (filled (tshape big) ?Y) =
        (case broadcast_shape (tshape big) (tshape small) of None \<Rightarrow> ret_false | Some s \<Rightarrow> ret (filled s ?Y))"
      using m wf by (intro broadcast_one_ref) (auto simp: MNN_MAX_TENSOR_DIM_def)
    show ?thesis
    proof (cases "broadcast_shape (tshape big) (tshape small)")
      case None
      then show ?thesis by (simp add: cp one andThen_def)
    next
      case (Some s)
      have ls: "length s = nat ?m"
        using broadcast_shape_length [OF Some] m tshape_length [OF wf(2)] wf(3) by simp
      then show ?thesis
        using Some m write_dims [OF assms(3) ls m(1,2), of ?Y] lY
        by (simp add: cp one andThen_def)
    qed
  qed
  show ?thesis
  proof (cases "t_dimensions a < t_dimensions b")
    case True
    then have "max_index [a, b] = (t_dimensions b, 1)" by (simp add: max_index_def)
    moreover have "loopC 0 2 (\<lambda>index od. if index = 1 then ret od else broadcast_one m ([a, b] ! nat index) od) od =
        broadcast_one m a od" for m od
      by (cases "broadcast_one m a od") (auto simp: loopC_first split: option.split)
    ultimately show ?thesis
      using gen [OF assms(2,1)] True broadcast_shape_comm [of "tshape a" "tshape b"]
      by (simp add: computeBroadCastDims_def)
  next
    case False
    then have "max_index [a, b] = (t_dimensions a, 0)" by (simp add: max_index_def)
    moreover have "loopC 0 2 (\<lambda>index od. if index = 0 then ret od else broadcast_one m ([a, b] ! nat index) od) od =
        broadcast_one m b od" for m od
      by (cases "broadcast_one m b od") (auto simp: loopC_first split: option.split)
    ultimately show ?thesis
      using gen [OF assms(1,2)] False by (simp add: computeBroadCastDims_def)
  qed
qed

theorem broadcast_two_reference_witness:
  "computeBroadCastDims [tensor_of [4, 1] MNN_NCHW [], tensor_of [2, 1, 3] MNN_NCHW []] (tensor_of [] MNN_NCHW []) =
    ret ((tensor_of [] MNN_NCHW [])\<lparr>t_dimensions := 3, t_extent := filled [2, 4, 3] (replicate 9 0)\<rparr>)"
  using broadcast_two_reference [of "tensor_of [4, 1] MNN_NCHW []" "tensor_of [2, 1, 3] MNN_NCHW []" "tensor_of [] MNN_NCHW []"]
  by (simp add: broadcast_shape_def) (simp add: tensor_of_def)

end
