(* ===== verification/ShapeSlicing.thy ===== *)
theory ShapeSlicing
  imports Tensor
begin

text \<open>
  The computers of \<open>source/shape\<close> that cut and join tensors: strided slice, slice (split), TF slice,
  concat, pack, unpack, tile, padding. Parameters, inputs and outputs as in theory \<open>ShapeReshape\<close>.
\<close>

unbundle bit_operations_syntax

section \<open>Strided slice (\<open>ShapeStridedSlice.cpp\<close>)\<close>

record SliceParam =
  sp_beginMask :: int
  sp_endMask :: int
  sp_shrinkAxisMask :: int
  sp_ellipsisMask :: int
  sp_newAxisMask :: int
  sp_fromType :: int

text \<open>The local arrays, each of length \<open>MNN_MAX_TENSOR_DIM\<close>; a mask entry is \<open>mask & (1 << i)\<close>, tested for being set.\<close>

record SliceArrays =
  sa_begin :: "int list"
  sa_end :: "int list"
  sa_stride :: "int list"
  sa_beginMask :: "bool list"
  sa_endMask :: "bool list"
  sa_shrinkMask :: "bool list"
  sa_newMask :: "bool list"
  sa_size :: int

definition mask_bits :: "int \<Rightarrow> int \<Rightarrow> bool list option" where
  "mask_bits m strideSize =
     (if strideSize \<le> int MNN_MAX_TENSOR_DIM
      then Some (map (\<lambda>i. int i < strideSize \<and> bit m i) [0..<MNN_MAX_TENSOR_DIM]) else None)"

definition slice_start :: "SliceParam \<Rightarrow> Tensor \<Rightarrow> int \<Rightarrow> SliceArrays option" where
  "slice_start prm input strideSize = do {
     bm \<leftarrow> mask_bits (sp_beginMask prm) strideSize;
     em \<leftarrow> mask_bits (sp_endMask prm) strideSize;
     sm \<leftarrow> mask_bits (sp_shrinkAxisMask prm) strideSize;
     nm \<leftarrow> mask_bits (sp_newAxisMask prm) strideSize;
     let n = nat (t_dimensions input);
     let z = replicate (MNN_MAX_TENSOR_DIM - n) 0;
     Some \<lparr>sa_begin = replicate n 0 @ z, sa_end = tshape input @ z, sa_stride = replicate n 1 @ z,
           sa_beginMask = bm, sa_endMask = em, sa_shrinkMask = sm, sa_newMask = nm, sa_size = strideSize\<rparr> }"

text \<open>\<open>fromType == 1\<close> (ONNX): axes and steps are optional inputs, negative values count from the end.\<close>

definition slice_onnx :: "Tensor \<Rightarrow> Tensor \<Rightarrow> Tensor \<Rightarrow> Tensor option \<Rightarrow> Tensor option \<Rightarrow> SliceArrays \<Rightarrow> SliceArrays option" where
  "slice_onnx input begin end axis step sa0 = (
     let inputDim = t_dimensions input;
         inputShape = tshape input @ replicate (MNN_MAX_TENSOR_DIM - nat inputDim) 0
     in do {
       sa \<leftarrow> loop 0 (sa_size sa0) (\<lambda>i sa. do {
         temp_axis \<leftarrow> (case axis of
             None \<Rightarrow> Some i
           | Some a \<Rightarrow> do { x \<leftarrow> arr_at (t_host a) i; Some (if x < 0 then x + inputDim else x) });
         sa \<leftarrow> (case step of
             None \<Rightarrow> Some sa
           | Some st \<Rightarrow> do {
               x \<leftarrow> arr_at (t_host st) i; ss \<leftarrow> arr_put (sa_stride sa) temp_axis x;
               Some (sa\<lparr>sa_stride := ss\<rparr>) });
         shape \<leftarrow> arr_at inputShape temp_axis;
         b \<leftarrow> arr_at (t_host begin) i;
         bs \<leftarrow> arr_put (sa_begin sa) temp_axis (if b < 0 then b + shape else b);
         e \<leftarrow> arr_at (t_host end) i;
         es \<leftarrow> arr_put (sa_end sa) temp_axis (if e < 0 then e + shape else e);
         Some (sa\<lparr>sa_begin := bs, sa_end := es\<rparr>) }) sa0;
       Some (sa\<lparr>sa_size := inputDim\<rparr>) })"

text \<open>\<open>fromType == 0\<close> (TensorFlow): the ellipsis is expanded to full slices.\<close>

definition slice_ellipsis ::
  "SliceParam \<Rightarrow> Tensor \<Rightarrow> Tensor \<Rightarrow> Tensor \<Rightarrow> Tensor option \<Rightarrow> SliceArrays \<Rightarrow> SliceArrays option" where
  "slice_ellipsis prm input begin end strided sa0 = (
     let inputDim = t_dimensions input;
         strideSize = sa_size sa0;
         hits = filter (\<lambda>i. bit (sp_ellipsisMask prm) (nat i)) [0..strideSize - 1];
         ellipsisPos = (if hits = [] then -1 else hd hits);
         ellpsisSize = inputDim - strideSize;
         none = replicate MNN_MAX_TENSOR_DIM False
     in do {
       (sa, strideIdx) \<leftarrow> loop 0 inputDim (\<lambda>i (sa, idx). (
         let strideIdx = (if i = ellipsisPos then idx + 1 else idx)
         in if i \<ge> ellipsisPos \<and> i \<le> ellipsisPos + ellpsisSize
            then do {
              d \<leftarrow> tlength input i;
              bs \<leftarrow> arr_put (sa_begin sa) i 0; es \<leftarrow> arr_put (sa_end sa) i d; ss \<leftarrow> arr_put (sa_stride sa) i 1;
              Some (sa\<lparr>sa_begin := bs, sa_end := es, sa_stride := ss\<rparr>, strideIdx) }
            else do {
              b \<leftarrow> arr_at (t_host begin) strideIdx; bs \<leftarrow> arr_put (sa_begin sa) i b;
              e \<leftarrow> arr_at (t_host end) strideIdx; es \<leftarrow> arr_put (sa_end sa) i e;
              ss \<leftarrow> (case strided of None \<Rightarrow> Some (sa_stride sa)
                     | Some st \<Rightarrow> do { x \<leftarrow> arr_at (t_host st) strideIdx; arr_put (sa_stride sa) i x });
              bm \<leftarrow> arr_at (sa_beginMask sa0) strideIdx; bms \<leftarrow> arr_put (sa_beginMask sa) i bm;
              em \<leftarrow> arr_at (sa_endMask sa0) strideIdx; ems \<leftarrow> arr_put (sa_endMask sa) i em;
              sm \<leftarrow> arr_at (sa_shrinkMask sa0) strideIdx; sms \<leftarrow> arr_put (sa_shrinkMask sa) i sm;
              nm \<leftarrow> arr_at (sa_newMask sa0) strideIdx; nms \<leftarrow> arr_put (sa_newMask sa) i nm;
              Some (sa\<lparr>sa_begin := bs, sa_end := es, sa_stride := ss, sa_beginMask := bms, sa_endMask := ems,
                       sa_shrinkMask := sms, sa_newMask := nms\<rparr>, strideIdx + 1) }))
         (sa0\<lparr>sa_beginMask := none, sa_endMask := none, sa_shrinkMask := none, sa_newMask := none\<rparr>, 0);
       Some (sa\<lparr>sa_size := inputDim\<rparr>) })"

definition slice_tf ::
  "SliceParam \<Rightarrow> Tensor \<Rightarrow> Tensor \<Rightarrow> Tensor \<Rightarrow> Tensor option \<Rightarrow> SliceArrays \<Rightarrow> SliceArrays option" where
  "slice_tf prm input begin end strided sa0 =
     (if sp_ellipsisMask prm > 0 then slice_ellipsis prm input begin end strided sa0
      else loop 0 (sa_size sa0) (\<lambda>i sa. do {
        b \<leftarrow> arr_at (t_host begin) i; bs \<leftarrow> arr_put (sa_begin sa) i b;
        e \<leftarrow> arr_at (t_host end) i; es \<leftarrow> arr_put (sa_end sa) i e;
        st \<leftarrow> strided;
        x \<leftarrow> arr_at (t_host st) i; ss \<leftarrow> arr_put (sa_stride sa) i x;
        Some (sa\<lparr>sa_begin := bs, sa_end := es, sa_stride := ss\<rparr>) }) sa0)"

definition beginAndEndShapeLimit :: "int \<Rightarrow> int \<Rightarrow> bool \<Rightarrow> int" where
  "beginAndEndShapeLimit shape dimSize exclusive = (
     let maxShape = (if exclusive then dimSize else dimSize - 1);
         minShape = (if exclusive then - dimSize - 1 else - dimSize);
         s1 = (if shape > maxShape then maxShape else shape);
         s2 = (if s1 < minShape then minShape else s1)
     in if s2 < 0 then s2 + dimSize else s2)"

text \<open>The body of the main loop for one axis: the length of the slice and the normalised start, end and stride.\<close>

definition slice_begin :: "int \<Rightarrow> bool \<Rightarrow> int \<Rightarrow> int \<Rightarrow> int option" where
  "slice_begin inputDim masked begin stride = do {
     let b0 = (if masked then (if stride < 0 then inputDim - 1 else 0)
               else if stride < 0 then beginAndEndShapeLimit begin inputDim False else min inputDim begin);
     if b0 < 0 then do { q \<leftarrow> idiv (- b0 + inputDim - 1) inputDim; Some (q * inputDim + b0) } else Some b0 }"

definition slice_end :: "int \<Rightarrow> bool \<Rightarrow> int \<Rightarrow> int \<Rightarrow> int" where
  "slice_end inputDim masked end stride =
     (if masked then (if stride < 0 then -1 else inputDim)
      else if stride < 0 then max (-1) (min inputDim end) else beginAndEndShapeLimit end inputDim True)"

definition slice_extent :: "int \<Rightarrow> int \<Rightarrow> int \<Rightarrow> int option" where
  "slice_extent b e s = do {
     let (b', e', s') = (if e < b then (if s < 0 then (e, b, - s) else (b, b, s)) else (b, e, s));
     q \<leftarrow> idiv (e' - b' - 1) s';
     Some (q + 1) }"

definition slice_axis :: "Tensor \<Rightarrow> SliceArrays \<Rightarrow> int \<Rightarrow> int list \<times> int \<Rightarrow> (int list \<times> int) option" where
  \<comment> \<open>state: the output shape without shrunk axes, and the next input dimension\<close>
  "slice_axis input sa i st = (
     let (out, inputDimOffset) = st;
         push = (\<lambda>x. if length out < MNN_MAX_TENSOR_DIM then Some (out @ [x]) else None)
     in do {
       nm \<leftarrow> arr_at (sa_newMask sa) i;
       if nm then do { out' \<leftarrow> push 1; Some (out', inputDimOffset) }
       else do {
         inputDim \<leftarrow> arr_at (tshape input @ replicate (MNN_MAX_TENSOR_DIM - nat (t_dimensions input)) 0) inputDimOffset;
         sm \<leftarrow> arr_at (sa_shrinkMask sa) i;
         s \<leftarrow> arr_at (sa_stride sa) i;
         let stride = (if sm then 1 else s);
         bm \<leftarrow> arr_at (sa_beginMask sa) i; bg \<leftarrow> arr_at (sa_begin sa) i;
         b \<leftarrow> slice_begin inputDim bm bg stride;
         em \<leftarrow> arr_at (sa_endMask sa) i; en \<leftarrow> arr_at (sa_end sa) i;
         let e = slice_end inputDim em en stride;
         if sm then Some (out, inputDimOffset + 1)
         else do {
           size \<leftarrow> slice_extent b e stride;
           out' \<leftarrow> push size;
           Some (out', inputDimOffset + 1) } } })"

definition StridedSliceComputer :: "SliceParam \<Rightarrow> Tensor list \<Rightarrow> Tensor \<Rightarrow> Tensor option option" where
  "StridedSliceComputer prm inputs output = (
     let input = inputs ! 0;
         inputDim = t_dimensions input;
         ellipsisMask = sp_ellipsisMask prm
     in if inputDim \<le> 0 \<or> inputDim > int MNN_MAX_TENSOR_DIM then ret_false
     else if sp_fromType prm = 0 \<and> length inputs = 5
     then do { o1 \<leftarrow> copyShape input output True; ret (o1\<lparr>t_type := t_type input, t_format := t_format input\<rparr>) }
     else if ellipsisMask \<noteq> 0 \<and> ellipsisMask AND (ellipsisMask - 1) \<noteq> 0 then ret_false
     else do {
       let begin = inputs ! 1;
       let end = inputs ! 2;
       strideSize \<leftarrow> tlength begin 0;
       sa0 \<leftarrow> slice_start prm input strideSize;
       sa \<leftarrow> (if sp_fromType prm = 1
              then slice_onnx input begin end (if length inputs \<ge> 4 then Some (inputs ! 3) else None)
                     (if length inputs = 5 then Some (inputs ! 4) else None) sa0
              else if sp_fromType prm = 0
              then slice_tf prm input begin end (if length inputs \<ge> 4 then Some (inputs ! 3) else None) sa0
              else Some sa0);
       (shrinked, strideDealDims) \<leftarrow> loop 0 (sa_size sa) (slice_axis input sa) ([], 0);
       let remained = drop (nat strideDealDims) (tshape input);
       if length shrinked + length remained \<le> MNN_MAX_TENSOR_DIM then do {
         u \<leftarrow> loop 0 (int (length (shrinked @ remained)))
                (\<lambda>i u. do { d \<leftarrow> arr_at (shrinked @ remained) i; setLength i d u })
                (output\<lparr>t_dimensions := int (length (shrinked @ remained)), t_type := t_type input\<rparr>);
         ret (u\<lparr>t_format := t_format input\<rparr>) }
       else None })"

section \<open>Slice and split (\<open>ShapeSlice.cpp\<close>)\<close>

datatype NetSource = CAFFE_SOURCE | TENSORFLOW_SOURCE | TORCH_SOURCE | OTHER_SOURCE

definition like_input :: "Tensor \<Rightarrow> int \<Rightarrow> int \<Rightarrow> Tensor \<Rightarrow> Tensor option" where
  \<comment> \<open>the dimensions of the input with another extent on the axis\<close>
  "like_input input axis len out = do {
     u \<leftarrow> copyDims input (out\<lparr>t_dimensions := t_dimensions input, t_type := t_type input\<rparr>);
     setLength axis len u }"

definition upd_out :: "int \<Rightarrow> (Tensor \<Rightarrow> Tensor option) \<Rightarrow> Tensor list \<Rightarrow> Tensor list option" where
  "upd_out i f outs = do { o0 \<leftarrow> arr_at outs i; o1 \<leftarrow> f o0; arr_put outs i o1 }"

definition slice_caffe :: "int list \<Rightarrow> int \<Rightarrow> Tensor \<Rightarrow> Tensor list \<Rightarrow> Tensor list option" where
  "slice_caffe slicePoints axis input outputs = do {
     (outs, previous) \<leftarrow> loop 0 (int (length slicePoints)) (\<lambda>i (outs, previous). do {
        sliceIndex \<leftarrow> arr_at slicePoints i;
        outs' \<leftarrow> upd_out i (like_input input axis (sliceIndex - previous)) outs;
        Some (outs', sliceIndex) }) (outputs, 0);
     l \<leftarrow> tlength input axis;
     upd_out (int (length outputs) - 1) (like_input input axis (l - previous)) outs }"

definition slice_even :: "NetSource \<Rightarrow> int list option \<Rightarrow> int \<Rightarrow> Tensor \<Rightarrow> Tensor list \<Rightarrow> Tensor list option" where
  "slice_even source slicePoints axis input outputs = (
     let outputSize = int (length outputs)
     in do {
       extent \<leftarrow> tlength input axis;
       even \<leftarrow> idiv extent outputSize;
       splitDim \<leftarrow>
         (if source = TORCH_SOURCE
          then (case slicePoints of
                  Some sp \<Rightarrow> do { s \<leftarrow> arr_at sp 0; _ \<leftarrow> idiv extent s; Some s }
                | None \<Rightarrow> do { _ \<leftarrow> idiv extent even; Some even })
          else if source = TENSORFLOW_SOURCE
          then (let numSplits = (case slicePoints of
                     Some sp \<Rightarrow> (if hd sp \<noteq> outputSize then hd sp else outputSize) | None \<Rightarrow> outputSize)
                in idiv extent numSplits)
          else Some even);
       loop 0 outputSize (\<lambda>i outs. upd_out i (like_input input axis splitDim) outs) outputs })"

definition slice_points :: "int list \<Rightarrow> int \<Rightarrow> Tensor \<Rightarrow> Tensor list \<Rightarrow> Tensor list option option" where
  "slice_points slicePoints axis input outputs = do {
     l \<leftarrow> tlength input axis;
     if sum_list slicePoints > l then ret_false
     else andThen
       (loopC 0 (min (int (length slicePoints)) (int (length outputs))) (\<lambda>i (outs, determine, maxSize). do {
          len \<leftarrow> arr_at slicePoints i;
          if len \<noteq> -1
          then do { outs' \<leftarrow> upd_out i (like_input input axis len) outs; ret (outs', determine, maxSize + len) }
          else do {
            outs' \<leftarrow> upd_out i (like_input input axis l) outs;
            if determine \<ge> 0 then ret_false else ret (outs', i, maxSize) } }) (outputs, -1, 0))
       (\<lambda>(outs, determine, maxSize).
          if determine \<ge> 0
          then do { outs' \<leftarrow> upd_out determine (setLength axis (l - maxSize)) outs; ret outs' }
          else ret outs) }"

definition SliceComputer ::
  "NetSource \<Rightarrow> int list option \<Rightarrow> int \<Rightarrow> Tensor list \<Rightarrow> Tensor list \<Rightarrow> Tensor list option option" where
  "SliceComputer source slicePoints axis0 inputs outputs = (
     let input = inputs ! 0;
         axis = (if axis0 < 0 then axis0 + t_dimensions input else axis0)
     in andThen
       (if source = CAFFE_SOURCE
        then do { sp \<leftarrow> slicePoints; outs \<leftarrow> slice_caffe sp axis input outputs; ret outs }
        else if length inputs = 1 \<and> (slicePoints = None \<or> length (the slicePoints) = 1)
        then do { outs \<leftarrow> slice_even source slicePoints axis input outputs; ret outs }
        else if length inputs = 2
        then do {
          n \<leftarrow> elementSize (inputs ! 1);
          if n \<le> int (length (t_host (inputs ! 1)))
          then slice_points (take (nat n) (t_host (inputs ! 1))) axis input outputs else None }
        else slice_points (case slicePoints of Some sp \<Rightarrow> sp | None \<Rightarrow> []) axis input outputs)
       (\<lambda>outs. ret (map (\<lambda>u. u\<lparr>t_format := t_format input\<rparr>) outs)))"

section \<open>TF slice, tile, padding\<close>

definition SliceTfComputer :: "Tensor \<Rightarrow> Tensor \<Rightarrow> Tensor \<Rightarrow> Tensor \<Rightarrow> Tensor option option" where
  "SliceTfComputer input begin_tensor size_tensor output = do {
     u \<leftarrow> loop 0 (t_dimensions input) (\<lambda>i u. do {
        dim \<leftarrow> arr_at (t_host size_tensor) i;
        l \<leftarrow> tlength input i;
        dim \<leftarrow> (if dim = -1 then do {
                  begin \<leftarrow> arr_at (t_host begin_tensor) i;
                  Some (l - (if begin < 0 then begin + l else begin)) }
               else Some dim);
        setLength i dim u }) (output\<lparr>t_dimensions := t_dimensions input, t_type := t_type input\<rparr>);
     ret (u\<lparr>t_format := t_format input\<rparr>) }"

definition TileComputer :: "Tensor \<Rightarrow> Tensor \<Rightarrow> Tensor \<Rightarrow> Tensor option option" where
  "TileComputer input multiples output = do {
     o1 \<leftarrow> copyDims input (output\<lparr>t_dimensions := t_dimensions input, t_type := t_type input\<rparr>);
     u \<leftarrow> loop 0 (t_dimensions input) (\<lambda>i u. do {
        l \<leftarrow> tlength input i; m \<leftarrow> arr_at (t_host multiples) i; setLength i (l * m) u }) o1;
     ret (u\<lparr>t_format := t_format input\<rparr>) }"

definition PaddingComputer :: "Tensor list \<Rightarrow> Tensor list \<Rightarrow> Tensor option option" where
  "PaddingComputer inputs outputs =
     (if (length inputs \<noteq> 2 \<and> length inputs \<noteq> 3) \<or> length outputs \<noteq> 1 then ret_false
      else do {
        let input = inputs ! 0;
        let paddings = inputs ! 1;
        output \<leftarrow> copyShape input ((outputs ! 0)\<lparr>t_type := t_type input\<rparr>) True;
        size \<leftarrow> elementSize paddings;
        if size < t_dimensions output * 2 then ret_false
        else do {
          u \<leftarrow> loop 0 (t_dimensions input) (\<lambda>i u. do {
             l \<leftarrow> tlength input i;
             p \<leftarrow> arr_at (t_host paddings) (2 * i); q \<leftarrow> arr_at (t_host paddings) (2 * i + 1);
             setLength i (l + p + q) u }) output;
          ret u } })"

section \<open>Concat, pack, unpack\<close>

definition ConcatSizeComputer :: "int \<Rightarrow> Tensor list \<Rightarrow> Tensor \<Rightarrow> Tensor option option" where
  "ConcatSizeComputer basicAxis inputs output = do {
     (ob, axis) \<leftarrow> (case inputs of
         [] \<Rightarrow> Some (output, basicAxis)
       | input # _ \<Rightarrow> do {
           u \<leftarrow> copyDims input output;
           Some (u\<lparr>t_dimensions := t_dimensions input, t_type := t_type input\<rparr>,
                 if basicAxis < 0 then t_dimensions input + basicAxis else basicAxis) });
     andThen
       (foldC (\<lambda>t (ob, sum). do {
          l \<leftarrow> tlength t axis;
          andThen
            (loopC 0 (t_dimensions t) (\<lambda>i s. if i = axis then ret s else do {
               a \<leftarrow> tlength t i; b \<leftarrow> tlength ob i; if a \<noteq> b then ret_false else ret s }) ())
            (\<lambda>_. ret (ob\<lparr>t_type := t_type t\<rparr>, sum + l)) }) inputs (ob, 0))
       (\<lambda>(ob, sum). do {
          u \<leftarrow> setLength axis sum ob;
          input0 \<leftarrow> arr_at inputs 0;
          ret (u\<lparr>t_format := t_format input0\<rparr>) }) }"

definition PackComputer :: "int \<Rightarrow> Tensor list \<Rightarrow> Tensor \<Rightarrow> Tensor option option" where
  "PackComputer axis0 inputs output = do {
     let input = inputs ! 0;
     let dims = t_dimensions input + 1;
     let axis = (if axis0 < 0 then axis0 + dims else axis0);
     (u, j) \<leftarrow> loop 0 dims (\<lambda>i (u, j).
        if i = axis then do { v \<leftarrow> setLength i (int (length inputs)) u; Some (v, j) }
        else do { l \<leftarrow> tlength input j; v \<leftarrow> setLength i l u; Some (v, j + 1) })
        (output\<lparr>t_dimensions := dims, t_type := t_type input\<rparr>, 0);
     ret (u\<lparr>t_format := t_format input\<rparr>) }"

definition UnpackComputer :: "int \<Rightarrow> Tensor list \<Rightarrow> Tensor list \<Rightarrow> Tensor list option option" where
  "UnpackComputer axis0 inputs outputs =
     (if inputs = [] \<or> outputs = [] then ret_false
      else do {
        let input = inputs ! 0;
        let inputDimensions = t_dimensions input;
        let axis = (if axis0 < 0 then axis0 + inputDimensions else axis0);
        l \<leftarrow> tlength input axis;
        if int (length outputs) > l then ret_false
        else do {
          d1 \<leftarrow> loop 0 axis (\<lambda>i a. do { x \<leftarrow> tlength input i; arr_put a i x }) (replicate MNN_MAX_TENSOR_DIM 0);
          outDims \<leftarrow> loop (axis + 1) inputDimensions (\<lambda>i a. do { x \<leftarrow> tlength input i; arr_put a (i - 1) x }) d1;
          outs \<leftarrow> foldM (\<lambda>u acc. do {
              v \<leftarrow> loop 0 (inputDimensions - 1) (\<lambda>j v. do { x \<leftarrow> arr_at outDims j; setLength j x v })
                     (u\<lparr>t_dimensions := inputDimensions - 1, t_type := t_type input\<rparr>);
              Some (acc @ [v\<lparr>t_format := t_format input\<rparr>]) }) outputs [];
          ret outs } })"

end
