(* ===== verification/ShapeConv.thy ===== *)
theory ShapeConv
  imports Tensor
begin

text \<open>
  The computers of \<open>source/shape\<close> for operators that slide a window over the image:
  convolution and its relatives, transposed convolution, pooling, in two and three spatial
  dimensions. A record holds the parameters of the operator, a flatbuffers vector is a list, an
  absent one is \<open>None\<close>.

  \<open>ceil((float)a / (float)b)\<close> is modelled by the exact ceiling \<open>fceil_div\<close>: for
  \<open>|a|, |b| < 2 ^ 24\<close> both operands are exact in \<open>float\<close>, and a quotient that is not an
  integer is further than half an ulp away from the next integer, so rounding does not reach it.
  A zero divisor would convert an infinity to \<open>int\<close>, which is undefined: \<open>None\<close>.
\<close>

section \<open>Parameters and shared arithmetic\<close>

datatype PadMode = PadMode_CAFFE | PadMode_VALID | PadMode_SAME

record Convolution2DCommon =
  cc_padX :: int
  cc_padY :: int
  cc_kernelX :: int
  cc_kernelY :: int
  cc_strideX :: int
  cc_strideY :: int
  cc_dilateX :: int
  cc_dilateY :: int
  cc_padMode :: PadMode
  cc_group :: int
  cc_outputCount :: int
  cc_inputCount :: int
  cc_pads :: "int list option"
  cc_outPads :: "int list option"
  cc_hasOutputShape :: bool

definition fceil_div :: "int \<Rightarrow> int \<Rightarrow> int option" where
  "fceil_div a b = (if b = 0 then None else Some (- (- a div b)))"

definition up_div :: "int \<Rightarrow> int \<Rightarrow> int option" where
  "up_div a b = idiv (a + b - 1) b"

text \<open>Channel, height and width are written behind the batch in the order of the format.\<close>

definition put_chw :: "MNN_DATA_FORMAT \<Rightarrow> int \<Rightarrow> int \<Rightarrow> int \<Rightarrow> Tensor \<Rightarrow> Tensor option" where
  "put_chw format c h w t =
     (if format = MNN_NHWC
      then do { t \<leftarrow> setLength 3 c t; t \<leftarrow> setLength 1 h t; setLength 2 w t }
      else do { t \<leftarrow> setLength 1 c t; t \<leftarrow> setLength 2 h t; setLength 3 w t })"

section \<open>Convolution (\<open>ShapeConvolution.cpp\<close>)\<close>

definition conv_valid :: "Convolution2DCommon \<Rightarrow> int \<Rightarrow> bool" where
  "conv_valid layer channel = (
     let inputCount = cc_inputCount layer;
         depthwiseMatch = (inputCount = cc_outputCount layer \<and> inputCount = cc_group layer \<and> inputCount = channel);
         commonChannelMatch = (inputCount = channel \<or> inputCount * cc_group layer = channel)
     in inputCount = 0 \<or> depthwiseMatch \<or> commonChannelMatch)"

text \<open>One spatial axis; \<open>pads\<close> is the sum of the two explicit pads of the axis, when there are any.\<close>

definition conv_extent :: "PadMode \<Rightarrow> int option \<Rightarrow> int \<Rightarrow> int \<Rightarrow> int \<Rightarrow> int \<Rightarrow> int option" where
  "conv_extent mode pads pad input kern stride =
     (case mode of
        PadMode_SAME \<Rightarrow> fceil_div input stride
      | PadMode_VALID \<Rightarrow> fceil_div (input - kern + 1) stride
      | PadMode_CAFFE \<Rightarrow>
          (case pads of
             Some p \<Rightarrow> if input + p < kern then Some 0
                       else do { q \<leftarrow> idiv (input + p - kern) stride; Some (q + 1) }
           | None \<Rightarrow> do { q \<leftarrow> idiv (input + pad * 2 - kern) stride; Some (q + 1) }))"

definition pad_sum :: "int list option \<Rightarrow> int \<Rightarrow> int \<Rightarrow> int option option" where
  \<comment> \<open>the pads at the two indices, added\<close>
  "pad_sum pads i j =
     (case pads of None \<Rightarrow> Some None
      | Some ps \<Rightarrow> do { a \<leftarrow> arr_at ps i; b \<leftarrow> arr_at ps j; Some (Some (a + b)) })"

definition ConvolutionSizeComputer ::
  "bool \<Rightarrow> DataType option \<Rightarrow> Convolution2DCommon \<Rightarrow> Tensor list \<Rightarrow> Tensor \<Rightarrow> Tensor option option" where
  \<comment> \<open>\<open>isConvolution\<close> is \<open>OpType_Convolution == op->type()\<close>, \<open>quan\<close> the output type of \<open>symmetricQuan\<close>\<close>
  "ConvolutionSizeComputer isConvolution quan layer inputs output = (
     let input = inputs ! 0
     in do {
       (outputCount, kX, kY) \<leftarrow>
         (if length inputs > 1 \<and> cc_outputCount layer = 0 then do {
            c \<leftarrow> tlength (inputs ! 1) 0; x \<leftarrow> tlength (inputs ! 1) 3; y \<leftarrow> tlength (inputs ! 1) 2; Some (c, x, y) }
          else Some (cc_outputCount layer, cc_kernelX layer, cc_kernelY layer));
       let kernel_width = cc_dilateX layer * (kX - 1) + 1;
       let kernel_height = cc_dilateY layer * (kY - 1) + 1;
       if t_dimensions input \<le> 1 then ret_false
       else do {
         channel \<leftarrow> tchannel input;
         if length inputs = 1 \<and> \<not> conv_valid layer channel \<and> isConvolution then ret_false
         else do {
           w \<leftarrow> twidth input;
           h \<leftarrow> theight input;
           px \<leftarrow> (if cc_padMode layer = PadMode_CAFFE then pad_sum (cc_pads layer) 1 3 else Some None);
           py \<leftarrow> (if cc_padMode layer = PadMode_CAFFE then pad_sum (cc_pads layer) 0 2 else Some None);
           output_width \<leftarrow> conv_extent (cc_padMode layer) px (cc_padX layer) w kernel_width (cc_strideX layer);
           output_height \<leftarrow> conv_extent (cc_padMode layer) py (cc_padY layer) h kernel_height (cc_strideY layer);
           let o1 = output\<lparr>t_dimensions := t_dimensions input, t_type := t_type input\<rparr>;
           let o2 = (case quan of None \<Rightarrow> o1 | Some dt \<Rightarrow> if dt \<noteq> DT_INT8 then setType dt o1 else o1);
           b \<leftarrow> tlength input 0;
           o3 \<leftarrow> setLength 0 b o2;
           o4 \<leftarrow> put_chw (t_format input) outputCount output_height output_width o3;
           ret (o4\<lparr>t_format := t_format input\<rparr>) } } })"

definition Dilation2DSizeComputer ::
  "DataType option \<Rightarrow> Convolution2DCommon \<Rightarrow> Tensor list \<Rightarrow> Tensor \<Rightarrow> Tensor option option" where
  "Dilation2DSizeComputer quan layer inputs output = ConvolutionSizeComputer False quan layer inputs output"

definition Conv2DBackpropFilterSizeComputer :: "Convolution2DCommon \<Rightarrow> Tensor list \<Rightarrow> Tensor \<Rightarrow> Tensor option option" where
  "Conv2DBackpropFilterSizeComputer common inputs kern = do {
     oc \<leftarrow> tchannel (inputs ! 1);
     ic \<leftarrow> tchannel (inputs ! 0);
     q \<leftarrow> idiv ic (cc_group common);
     k \<leftarrow> setLength 0 oc (kern\<lparr>t_dimensions := 4, t_type := ht_of halide_type_float 32, t_format := MNN_NCHW\<rparr>);
     k \<leftarrow> setLength 1 q k;
     k \<leftarrow> setLength 2 (cc_kernelY common) k;
     k \<leftarrow> setLength 3 (cc_kernelX common) k;
     ret k }"

text \<open>The answer of the convolution is ignored: when it is false the output is read as it was.\<close>

definition Im2ColSizeComputer ::
  "DataType option \<Rightarrow> Convolution2DCommon \<Rightarrow> Tensor \<Rightarrow> Tensor \<Rightarrow> Tensor option option" where
  "Im2ColSizeComputer quan layer input output0 = do {
     r \<leftarrow> ConvolutionSizeComputer False quan layer [input] output0;
     let output = (case r of None \<Rightarrow> output0 | Some u \<Rightarrow> u);
     oh \<leftarrow> theight output;
     ow \<leftarrow> twidth output;
     n \<leftarrow> tbatch input;
     ic \<leftarrow> tchannel input;
     u \<leftarrow> setLength 0 (ic * cc_kernelY layer * cc_kernelX layer) (output\<lparr>t_dimensions := 2\<rparr>);
     u \<leftarrow> setLength 1 (n * oh * ow) u;
     ret u }"

definition Col2ImSizeComputer :: "Convolution2DCommon \<Rightarrow> Tensor \<Rightarrow> Tensor \<Rightarrow> Tensor \<Rightarrow> Tensor option option" where
  "Col2ImSizeComputer layer input outputShape output = do {
     n \<leftarrow> elementSize outputShape;
     (oh, ow) \<leftarrow> (if n = 2 then do { a \<leftarrow> arr_at (t_host outputShape) 0; b \<leftarrow> arr_at (t_host outputShape) 1; Some (a, b) }
                 else Some (1, 1));
     let iDim = tshape input;
     first \<leftarrow> arr_at iDim 0;
     (batch, colSize) \<leftarrow>
       (if length iDim = 3 then do { c \<leftarrow> arr_at iDim 1; Some (first, c) } else Some (1, first));
     q \<leftarrow> idiv colSize (cc_kernelY layer * cc_kernelX layer);
     u \<leftarrow> setLength 0 batch (output\<lparr>t_dimensions := 4\<rparr>);
     u \<leftarrow> setLength 1 q u;
     u \<leftarrow> setLength 2 oh u;
     u \<leftarrow> setLength 3 ow u;
     ret u }"

section \<open>Transposed convolution (\<open>ShapeDeconvolution.cpp\<close>)\<close>

definition deconv_extent :: "int option \<Rightarrow> int \<Rightarrow> int \<Rightarrow> int \<Rightarrow> int \<Rightarrow> int \<Rightarrow> int \<Rightarrow> int" where
  "deconv_extent pads pad outPad input kern dilate stride =
     (input - 1) * stride + dilate * (kern - 1) + 1 - (case pads of Some p \<Rightarrow> p | None \<Rightarrow> pad * 2) + outPad"

definition DeconvolutionSizeComputer :: "Convolution2DCommon \<Rightarrow> Tensor list \<Rightarrow> Tensor \<Rightarrow> Tensor option option" where
  "DeconvolutionSizeComputer layer inputs output = (
     let inputTensor = inputs ! 0;
         outputShape = last inputs
     in do {
       (outputHeight, outputWidth) \<leftarrow>
         (if cc_hasOutputShape layer
          then do { a \<leftarrow> arr_at (t_host outputShape) 1; b \<leftarrow> arr_at (t_host outputShape) 2; Some (a, b) }
          else Some (0, 0));
       input_width \<leftarrow> twidth inputTensor;
       input_height \<leftarrow> theight inputTensor;
       (output_width, output_height) \<leftarrow>
         (if outputHeight > 0 \<and> outputWidth > 0 then Some (outputWidth, outputHeight)
          else if cc_padMode layer = PadMode_SAME
          then Some (input_width * cc_strideX layer, input_height * cc_strideY layer)
          else do {
            px \<leftarrow> pad_sum (cc_pads layer) 1 3;
            py \<leftarrow> pad_sum (cc_pads layer) 0 2;
            (oh, ow) \<leftarrow> (case cc_outPads layer of None \<Rightarrow> Some (0, 0)
               | Some op \<Rightarrow> do { w \<leftarrow> arr_at op 1; h \<leftarrow> arr_at op 0; Some (h, w) });
            Some (deconv_extent px (cc_padX layer) ow input_width (cc_kernelX layer) (cc_dilateX layer) (cc_strideX layer),
                  deconv_extent py (cc_padY layer) oh input_height (cc_kernelY layer) (cc_dilateY layer) (cc_strideY layer)) });
       b \<leftarrow> tlength inputTensor 0;
       o1 \<leftarrow> setLength 0 b (output\<lparr>t_type := t_type inputTensor, t_dimensions := t_dimensions inputTensor\<rparr>);
       o2 \<leftarrow> put_chw (t_format inputTensor) (cc_outputCount layer) output_height output_width o1;
       ret (o2\<lparr>t_format := t_format inputTensor\<rparr>) })"

section \<open>Pooling (\<open>ShapePool.cpp\<close>, \<open>ShapePool3D.cpp\<close>, quantized pooling)\<close>

datatype PoolPadType = PoolPadType_CAFFE | PoolPadType_VALID | PoolPadType_SAME

record Pool =
  pl_padX :: int
  pl_padY :: int
  pl_isGlobal :: bool
  pl_kernelX :: int
  pl_kernelY :: int
  pl_strideX :: int
  pl_strideY :: int
  pl_padType :: PoolPadType
  pl_ceilModel :: bool
  pl_pads :: "int list option"

definition pool_extent :: "PoolPadType \<Rightarrow> bool \<Rightarrow> int \<Rightarrow> int \<Rightarrow> int \<Rightarrow> int option" where
  "pool_extent padType ceilModel w kern stride =
     (case padType of
        PoolPadType_SAME \<Rightarrow> fceil_div w stride
      | PoolPadType_VALID \<Rightarrow> fceil_div (w - kern + 1) stride
      | PoolPadType_CAFFE \<Rightarrow>
          (if ceilModel then do { q \<leftarrow> up_div (w - kern) stride; Some (q + 1) }
           else do { q \<leftarrow> idiv (w - kern) stride; Some (q + 1) }))"

definition pool_padded :: "Pool \<Rightarrow> int \<Rightarrow> int \<Rightarrow> (int \<times> int) option" where
  \<comment> \<open>width and height with the pads\<close>
  "pool_padded layer w h =
     (case pl_pads layer of
        None \<Rightarrow> Some (w + pl_padX layer * 2, h + pl_padY layer * 2)
      | Some ps \<Rightarrow>
          (if length ps = 2 then do { a \<leftarrow> arr_at ps 0; b \<leftarrow> arr_at ps 1; Some (w, h + (a + b)) }
           else if length ps = 4 then do {
             a \<leftarrow> arr_at ps 1; b \<leftarrow> arr_at ps 3; c \<leftarrow> arr_at ps 0; d \<leftarrow> arr_at ps 2; Some (w + (a + b), h + (c + d)) }
           else Some (w, h)))"

definition pool_size :: "Pool \<Rightarrow> Tensor \<Rightarrow> (int \<times> int) option option" where
  "pool_size layer input =
     (if pl_isGlobal layer then ret (1, 1)
      else if (pl_padType layer = PoolPadType_VALID \<or> pl_padType layer = PoolPadType_SAME)
           \<and> (pl_padX layer \<noteq> 0 \<or> pl_padY layer \<noteq> 0) then ret_false
      else do {
        w0 \<leftarrow> twidth input;
        h0 \<leftarrow> theight input;
        (w, h) \<leftarrow> pool_padded layer w0 h0;
        outw \<leftarrow> pool_extent (pl_padType layer) (pl_ceilModel layer) w (min (pl_kernelX layer) w) (pl_strideX layer);
        outh \<leftarrow> pool_extent (pl_padType layer) (pl_ceilModel layer) h (min (pl_kernelY layer) h) (pl_strideY layer);
        ret (outw, outh) })"

definition pool_write :: "Tensor \<Rightarrow> int \<Rightarrow> int \<Rightarrow> Tensor \<Rightarrow> Tensor option" where
  "pool_write input outw outh t = do {
     u \<leftarrow> copyDims input t;
     let u = u\<lparr>t_dimensions := t_dimensions input\<rparr>;
     u \<leftarrow> (if t_format input = MNN_NHWC then do { u \<leftarrow> setLength 2 outw u; setLength 1 outh u }
          else do { u \<leftarrow> setLength 3 outw u; setLength 2 outh u });
     Some (u\<lparr>t_format := t_format input\<rparr>) }"

definition PoolSizeComputer :: "Pool \<Rightarrow> Tensor \<Rightarrow> Tensor list \<Rightarrow> Tensor list option option" where
  "PoolSizeComputer layer input outputs =
     andThen (pool_size layer input) (\<lambda>(outw, outh).
       if outw \<le> 0 \<or> outh \<le> 0 then ret_false
       else (case outputs of
           [] \<Rightarrow> None
         | output # rest \<Rightarrow> do {
             o1 \<leftarrow> pool_write input outw outh output;
             rest \<leftarrow> (if length outputs = 2 then do {
                  indice \<leftarrow> pool_write input outw outh (rest ! 0);
                  Some [indice\<lparr>t_type := ht_of halide_type_int 32\<rparr>] }
                else Some rest);
             ret (o1\<lparr>t_type := t_type input\<rparr> # rest) }))"

record Pool3D =
  p3_isGlobal :: bool
  p3_padType :: PoolPadType
  p3_kernels :: "int list"
  p3_strides :: "int list"
  p3_pads :: "int list"

definition pool3d_extent :: "Pool3D \<Rightarrow> int \<Rightarrow> int \<Rightarrow> int option" where
  "pool3d_extent layer i inputLength = do {
     kern \<leftarrow> arr_at (p3_kernels layer) i;
     stride \<leftarrow> arr_at (p3_strides layer) i;
     (case p3_padType layer of
        PoolPadType_CAFFE \<Rightarrow> do { pad \<leftarrow> arr_at (p3_pads layer) i; q \<leftarrow> idiv (inputLength + 2 * pad - kern) stride; Some (q + 1) }
      | PoolPadType_SAME \<Rightarrow> up_div inputLength stride
      | PoolPadType_VALID \<Rightarrow> do { q \<leftarrow> idiv (inputLength - kern) stride; Some (q + 1) }) }"

definition as_unsigned :: "int \<Rightarrow> int" where
  \<comment> \<open>an \<open>int\<close> compared with an \<open>unsigned int\<close>\<close>
  "as_unsigned x = x mod 2 ^ 32"

definition Pool3DSizeComputer :: "Pool3D \<Rightarrow> Tensor \<Rightarrow> Tensor \<Rightarrow> Tensor option option" where
  "Pool3DSizeComputer layer input output = (
     let maxCheckDim = (if p3_isGlobal layer then 1 else t_dimensions input - 1)
     in andThen
       (loopC 1 (as_unsigned maxCheckDim + 1) (\<lambda>i s. do { l \<leftarrow> tlength input i; if l \<le> 0 then ret_false else ret s }) ())
       (\<lambda>_. do {
          o1 \<leftarrow> copyDims input (output\<lparr>t_dimensions := t_dimensions input\<rparr>);
          andThen
            (if p3_isGlobal layer then do {
               u \<leftarrow> (if t_format input = MNN_NHWC
                    then loop 1 (t_dimensions o1 - 1) (\<lambda>d u. setLength d 1 u) o1
                    else loop 2 (t_dimensions o1) (\<lambda>d u. setLength d 1 u) o1);
               ret u }
             else loopC 0 (as_unsigned (t_dimensions input - 2)) (\<lambda>i u. do {
               inputLength \<leftarrow> tlength input (i + 2);
               outputLength \<leftarrow> pool3d_extent layer i inputLength;
               if outputLength \<le> 0 then ret_false
               else do { v \<leftarrow> setLength (i + (if t_format input = MNN_NHWC then 1 else 2)) outputLength u; ret v } }) o1)
            (\<lambda>u. ret (u\<lparr>t_format := t_format input, t_type := t_type input\<rparr>)) }))"

definition qpool_size :: "Pool \<Rightarrow> Tensor \<Rightarrow> (int \<times> int) option" where
  \<comment> \<open>quantized pooling knows the two TensorFlow modes; the assertion for any other leaves the 1s\<close>
  "qpool_size layer input = do {
     w \<leftarrow> twidth input;
     h \<leftarrow> theight input;
     (if pl_padType layer = PoolPadType_SAME
      then do { a \<leftarrow> fceil_div w (pl_strideX layer); b \<leftarrow> fceil_div h (pl_strideY layer); Some (a, b) }
      else if pl_padType layer = PoolPadType_VALID
      then do { a \<leftarrow> fceil_div (w - pl_kernelX layer + 1) (pl_strideX layer);
                b \<leftarrow> fceil_div (h - pl_kernelY layer + 1) (pl_strideY layer); Some (a, b) }
      else Some (1, 1)) }"

definition QuantizedAvgPoolComputer :: "Pool \<Rightarrow> Tensor \<Rightarrow> Tensor \<Rightarrow> Tensor option option" where
  "QuantizedAvgPoolComputer layer input output = do {
     (output_width, output_height) \<leftarrow> qpool_size layer input;
     b \<leftarrow> tlength input 0;
     u \<leftarrow> setLength 0 b (setType DT_UINT8 (output\<lparr>t_dimensions := t_dimensions input\<rparr>));
     u \<leftarrow> setLength 2 output_height u;
     u \<leftarrow> setLength 3 output_width u;
     c \<leftarrow> tlength input 1;
     u \<leftarrow> setLength 1 c u;
     u \<leftarrow> (if t_format input = MNN_NHWC then do {
            u \<leftarrow> setLength 1 output_height u;
            u \<leftarrow> setLength 2 output_width u;
            ch \<leftarrow> tchannel input;
            setLength 3 ch u }
          else Some u);
     ret (u\<lparr>t_format := t_format input\<rparr>) }"

definition QuantizedMaxPoolComputer :: "Pool \<Rightarrow> Tensor \<Rightarrow> Tensor \<Rightarrow> Tensor option option" where
  "QuantizedMaxPoolComputer layer input output = do {
     (output_width, output_height) \<leftarrow> qpool_size layer input;
     if output_width \<le> 0 \<or> output_height \<le> 0 then ret_false
     else do {
       b \<leftarrow> tlength input 0;
       u \<leftarrow> setLength 0 b (output\<lparr>t_dimensions := t_dimensions input\<rparr>);
       u \<leftarrow> setLength 1 output_height u;
       u \<leftarrow> setLength 2 output_width u;
       c \<leftarrow> tlength input 3;
       u \<leftarrow> setLength 3 c u;
       ret ((setType DT_UINT8 u)\<lparr>t_format := t_format input\<rparr>) } }"

section \<open>Three spatial dimensions (\<open>ShapeConvolution3D.cpp\<close>, \<open>ShapeConvTranspose3D.cpp\<close>)\<close>

record Convolution3DCommon =
  c3_outputCount :: int
  c3_padMode :: PadMode
  c3_strides :: "int list"
  c3_kernels :: "int list"
  c3_dilates :: "int list option"
  c3_pads :: "int list option"
  c3_outPads :: "int list option"

definition conv3d_extent :: "Convolution3DCommon \<Rightarrow> int \<Rightarrow> int \<Rightarrow> int option" where
  "conv3d_extent layer i inputLength = do {
     stride \<leftarrow> arr_at (c3_strides layer) i;
     (if c3_padMode layer = PadMode_SAME then up_div inputLength stride
      else do {
        pads \<leftarrow> c3_pads layer;
        padl \<leftarrow> arr_at pads i;
        kern \<leftarrow> arr_at (c3_kernels layer) i;
        dilates \<leftarrow> c3_dilates layer;
        dialate \<leftarrow> arr_at dilates i;
        padr \<leftarrow> (if length pads = 6 then arr_at pads (i + 3) else Some padl);
        let dialatedKernel = (kern - 1) * dialate + 1;
        q \<leftarrow> idiv (inputLength + padl + padr - dialatedKernel) stride;
        Some (q + 1) }) }"

definition Convolution3DSizeComputer :: "Convolution3DCommon \<Rightarrow> Tensor \<Rightarrow> Tensor \<Rightarrow> Tensor option option" where
  "Convolution3DSizeComputer layer input output =
     (if t_dimensions input \<noteq> 5 then ret_false
      else do {
        b \<leftarrow> tlength input 0;
        o1 \<leftarrow> setLength 0 b (output\<lparr>t_dimensions := t_dimensions input\<rparr>);
        o2 \<leftarrow> setLength 1 (c3_outputCount layer) o1;
        andThen
          (loopC 0 3 (\<lambda>i u. do {
             inputLength \<leftarrow> tlength input (i + 2);
             stride \<leftarrow> arr_at (c3_strides layer) i;
             if inputLength \<le> 0 then ret_false
             else do {
               outputLength \<leftarrow> conv3d_extent layer i inputLength;
               v \<leftarrow> setLength (i + 2) outputLength u;
               ret v } }) o2)
          (\<lambda>u. ret (u\<lparr>t_type := t_type input, t_format := t_format input\<rparr>)) })"

definition deconv3d_extent :: "Convolution3DCommon \<Rightarrow> int \<Rightarrow> int \<Rightarrow> int option" where
  "deconv3d_extent layer i inputLength = do {
     stride \<leftarrow> arr_at (c3_strides layer) i;
     (if c3_padMode layer = PadMode_SAME then Some (inputLength * stride)
      else do {
        kern \<leftarrow> arr_at (c3_kernels layer) i;
        (padL, padR) \<leftarrow> (case c3_pads layer of None \<Rightarrow> Some (0, 0)
           | Some pads \<Rightarrow> do {
               l \<leftarrow> arr_at pads i;
               r \<leftarrow> (if length pads = 6 then arr_at pads (i + 3) else Some l);
               Some (l, r) });
        dialate \<leftarrow> (case c3_dilates layer of None \<Rightarrow> Some 1 | Some ds \<Rightarrow> arr_at ds i);
        let dialatedKernel = (kern - 1) * dialate + 1;
        let outputLength = (inputLength - 1) * stride + dialatedKernel - padR - padL;
        (case c3_outPads layer of None \<Rightarrow> Some outputLength
         | Some op \<Rightarrow> do { p \<leftarrow> arr_at op i; Some (outputLength + p) }) }) }"

definition ConvTranspose3DSizeComputer :: "Convolution3DCommon \<Rightarrow> Tensor \<Rightarrow> Tensor \<Rightarrow> Tensor option option" where
  "ConvTranspose3DSizeComputer layer input output = do {
     b \<leftarrow> tlength input 0;
     o1 \<leftarrow> setLength 0 b (output\<lparr>t_dimensions := t_dimensions input\<rparr>);
     o2 \<leftarrow> setLength 1 (c3_outputCount layer) o1;
     andThen
       (loopC 0 (t_dimensions input - 2) (\<lambda>i u. do {
          inputLength \<leftarrow> tlength input (i + 2);
          stride \<leftarrow> arr_at (c3_strides layer) i;
          if inputLength \<le> 0 then ret_false
          else do {
            outputLength \<leftarrow> deconv3d_extent layer i inputLength;
            v \<leftarrow> setLength (i + 2) outputLength u;
            ret v } }) o2)
       (\<lambda>u. ret (u\<lparr>t_type := t_type input, t_format := t_format input\<rparr>)) }"

end
