(* ===== verification/ConvFacts.thy ===== *)
theory ConvFacts
  imports ShapeConv SlicingFacts
begin

text \<open>
  Facts on the computers of theory \<open>ShapeConv\<close>: the extents are numbers of window positions,
  transposed convolution is undone by convolution, and the results for windows larger than the
  image.
\<close>

section \<open>Counting window positions\<close>

definition windows :: "int \<Rightarrow> int \<Rightarrow> int \<Rightarrow> int set" where
  \<comment> \<open>the positions of a window of width \<open>k\<close> moved in steps of \<open>s\<close> over \<open>len\<close> cells\<close>
  "windows len k s = {i. 0 \<le> i \<and> i * s + k \<le> len}"

lemma windows_empty: "0 < s \<Longrightarrow> len < k \<Longrightarrow> windows len k s = {}"
proof -
  assume h: "0 < s" "len < k"
  have "\<not> i * s + k \<le> len" if "0 \<le> i" for i :: int
  proof -
    have "0 \<le> i * s" using that h(1) by simp
    then show ?thesis using h(2) by linarith
  qed
  then show ?thesis by (auto simp: windows_def)
qed

lemma windows_range: "0 < s \<Longrightarrow> windows len k s = {0..(len - k) div s}"
  by (auto simp: windows_def le_zdiv_iff)

lemma card_windows: "0 < s \<Longrightarrow> k \<le> len \<Longrightarrow> int (card (windows len k s)) = (len - k) div s + 1"
  by (simp add: windows_range pos_imp_zdiv_nonneg_iff)

lemma conv_extent_pads:
  "0 < s \<Longrightarrow> conv_extent PadMode_CAFFE (Some p) pad len k s = Some (int (card (windows (len + p) k s)))"
  by (auto simp: conv_extent_def card_windows windows_empty access sdiv_nonneg)

lemma conv_extent_nopads:
  "0 < s \<Longrightarrow> k \<le> len + pad * 2 \<Longrightarrow>
    conv_extent PadMode_CAFFE None pad len k s = Some (int (card (windows (len + pad * 2) k s)))"
  by (simp add: conv_extent_def card_windows access sdiv_nonneg)

lemma conv_extent_valid:
  "0 < s \<Longrightarrow> k \<le> len \<Longrightarrow> conv_extent PadMode_VALID p pad len k s = Some (int (card (windows len k s)))"
  using ceil_zdiv [of s "len - k"] by (simp add: conv_extent_def fceil_div_def card_windows)

section \<open>Reading and writing an image\<close>

lemma img_access:
  assumes "tensor_wf t"
  shows "tbatch t = Some (t_extent t ! 0)"
    "tchannel t = Some (t_extent t ! (if t_format t = MNN_NHWC then 3 else 1))"
    "theight t = Some (t_extent t ! (if t_format t = MNN_NHWC then 1 else 2))"
    "twidth t = Some (t_extent t ! (if t_format t = MNN_NHWC then 2 else 3))"
    "tlength t 0 = Some (t_extent t ! 0)"
  using assms by (simp_all add: tbatch_def tchannel_def theight_def twidth_def getDimensionType_def access tensor_wf_def
    MNN_MAX_TENSOR_DIM_def)

text \<open>What an image operator leaves in its output: the batch, and the three values of \<open>put_chw\<close>.\<close>

definition img :: "Tensor \<Rightarrow> int \<Rightarrow> int \<Rightarrow> int \<Rightarrow> int \<Rightarrow> bool" where
  "img t n c h w \<longleftrightarrow> tensor_wf t \<and> tbatch t = Some n \<and> tchannel t = Some c \<and> theight t = Some h \<and> twidth t = Some w"

lemma img_of_wf: "tensor_wf t \<Longrightarrow> \<exists>n c h w. img t n c h w"
  by (simp add: img_def img_access)

lemma put_chw_img:
  assumes "tensor_wf t" "t_dimensions t = 4"
  obtains u where "\<And>g. do { o3 \<leftarrow> setLength 0 n t; o4 \<leftarrow> put_chw f c h w o3; g o4 } = g u"
    "img (u\<lparr>t_format := f\<rparr>) n c h w" "t_dimensions u = 4" "t_type u = t_type t"
proof -
  obtain a0 a1 a2 a3 rest where e: "t_extent t = a0 # a1 # a2 # a3 # rest" "length rest = 5"
    using assms(1) by (auto simp: tensor_wf_def MNN_MAX_TENSOR_DIM_def eval_nat_numeral length_Suc_conv)
  show thesis
  proof (cases "f = MNN_NHWC")
    case True
    then show ?thesis using e assms that
      by (simp add: put_chw_def setLength_upd img_def tensor_wf_def MNN_MAX_TENSOR_DIM_def tbatch_def tchannel_def
        theight_def twidth_def tlength_nth getDimensionType_def)
  next
    case False
    then show ?thesis using e assms that
      by (simp add: put_chw_def setLength_upd img_def tensor_wf_def MNN_MAX_TENSOR_DIM_def tbatch_def tchannel_def
        theight_def twidth_def tlength_nth getDimensionType_def)
  qed
qed

lemma setType_simps [simp]:
  "t_extent (setType d t) = t_extent t" "t_dimensions (setType d t) = t_dimensions t"
  "t_stride (setType d t) = t_stride t" "t_format (setType d t) = t_format t"
  by (simp_all add: setType_def)

lemma setType_wf [simp]: "tensor_wf (setType d t) = tensor_wf t"
  by (simp add: tensor_wf_def)

section \<open>Convolution\<close>

definition dilated :: "int \<Rightarrow> int \<Rightarrow> int" where
  "dilated d k = d * (k - 1) + 1"

lemma conv_run:
  assumes "img input n c h w" "tensor_wf output" "t_dimensions input = 4" "isC \<longrightarrow> conv_valid layer c"
    and px: "(if cc_padMode layer = PadMode_CAFFE then pad_sum (cc_pads layer) 1 3 else Some None) = Some px"
    and py: "(if cc_padMode layer = PadMode_CAFFE then pad_sum (cc_pads layer) 0 2 else Some None) = Some py"
    and ow: "conv_extent (cc_padMode layer) px (cc_padX layer) w (dilated (cc_dilateX layer) (cc_kernelX layer)) (cc_strideX layer) = Some ow"
    and oh: "conv_extent (cc_padMode layer) py (cc_padY layer) h (dilated (cc_dilateY layer) (cc_kernelY layer)) (cc_strideY layer) = Some oh"
  shows "\<exists>out. ConvolutionSizeComputer isC quan layer [input] output = ret out \<and>
    img out n (cc_outputCount layer) oh ow \<and> t_dimensions out = 4 \<and> t_format out = t_format input"
proof -
  let ?o1 = "output\<lparr>t_dimensions := 4, t_type := t_type input\<rparr>"
  define o2 where "o2 = (case quan of None \<Rightarrow> ?o1 | Some dt \<Rightarrow> if dt \<noteq> DT_INT8 then setType dt ?o1 else ?o1)"
  have "tensor_wf o2" "t_dimensions o2 = 4"
    using assms(2,3) by (auto simp: o2_def tensor_wf_def MNN_MAX_TENSOR_DIM_def split: option.splits)
  then obtain u where u: "\<And>g. do { o3 \<leftarrow> setLength 0 n o2;
        o4 \<leftarrow> put_chw (t_format input) (cc_outputCount layer) oh ow o3; g o4 } = (g u :: Tensor option option)"
      "img (u\<lparr>t_format := t_format input\<rparr>) n (cc_outputCount layer) oh ow" "t_dimensions u = 4" "t_type u = t_type o2"
    by (rule put_chw_img [of o2 n "t_format input" "cc_outputCount layer" oh ow]) auto
  have acc: "tchannel input = Some c" "twidth input = Some w" "theight input = Some h" "tlength input 0 = Some n"
    using assms(1) by (simp_all add: img_def tbatch_def)
  have "ConvolutionSizeComputer isC quan layer [input] output = ret (u\<lparr>t_format := t_format input\<rparr>)"
    using assms(3,4) px py ow oh u(1) [unfolded o2_def]
    by (cases isC) (simp_all add: ConvolutionSizeComputer_def acc dilated_def Let_def)
  then show ?thesis using u by simp
qed

text \<open>
  C24: a convolution with explicit pads gives, in every format, a tensor of the input's batch with
  the operator's channels, and as many rows and columns as the dilated kernel has positions, moved
  by the stride over the padded image (none, when the kernel is larger than the padded image).
\<close>

theorem conv_counts_windows:
  assumes "img input n c h w" "tensor_wf output" "t_dimensions input = 4" "isC \<longrightarrow> conv_valid layer c"
    and "cc_padMode layer = PadMode_CAFFE" "cc_pads layer = Some [pt, pl, pb, pr]"
    and "0 < cc_strideX layer" "0 < cc_strideY layer"
  shows "\<exists>out. ConvolutionSizeComputer isC quan layer [input] output = ret out \<and> img out n (cc_outputCount layer)
    (int (card (windows (h + (pt + pb)) (dilated (cc_dilateY layer) (cc_kernelY layer)) (cc_strideY layer))))
    (int (card (windows (w + (pl + pr)) (dilated (cc_dilateX layer) (cc_kernelX layer)) (cc_strideX layer))))"
proof -
  have "pad_sum (cc_pads layer) 1 3 = Some (Some (pl + pr))" "pad_sum (cc_pads layer) 0 2 = Some (Some (pt + pb))"
    using assms(6) by (simp_all add: pad_sum_def arr_at_def)
  then show ?thesis
    using conv_run [OF assms(1-4), of "Some (pl + pr)" "Some (pt + pb)"] assms(5)
      conv_extent_pads [OF assms(7)] conv_extent_pads [OF assms(8)] by simp blast
qed

definition demo_conv :: Convolution2DCommon where
  "demo_conv = \<lparr>cc_padX = 0, cc_padY = 0, cc_kernelX = 3, cc_kernelY = 3, cc_strideX = 2, cc_strideY = 2,
     cc_dilateX = 1, cc_dilateY = 1, cc_padMode = PadMode_CAFFE, cc_group = 1, cc_outputCount = 8, cc_inputCount = 3,
     cc_pads = Some [0, 1, 0, 1], cc_outPads = None, cc_hasOutputShape = False\<rparr>"

lemma demo_img: "img (tensor_of [1, 3, 7, 9] MNN_NCHW []) 1 3 7 9"
  by (simp add: img_def) code_simp

theorem conv_counts_windows_witness:
  "\<exists>out. ConvolutionSizeComputer True None demo_conv [tensor_of [1, 3, 7, 9] MNN_NCHW []] (tensor_of [] MNN_NCHW []) = ret out \<and>
     img out 1 8 3 5"
proof -
  have "int (card (windows 7 3 2)) = 3" "int (card (windows 11 3 2)) = 5" by (simp_all add: card_windows)
  then show ?thesis
    using conv_counts_windows [OF demo_img, of "tensor_of [] MNN_NCHW []" True demo_conv 0 1 0 1 None]
    by (simp add: demo_conv_def conv_valid_def dilated_def)
qed

section \<open>Transposed convolution\<close>

lemma sdiv_mult_add: "0 \<le> q \<Longrightarrow> 0 \<le> r \<Longrightarrow> r < s \<Longrightarrow> (q * s + r) sdiv s = (q :: int)"
  by (simp add: sdiv_nonneg)

lemma conv_after_deconv:
  assumes "1 \<le> len" "0 \<le> opad" "opad < s"
  shows "conv_extent PadMode_CAFFE px pad (deconv_extent px pad opad len k d s) (dilated d k) s = Some len"
proof -
  have "\<not> (len - 1) * s + (1 + opad) \<le> 0"
  proof -
    have "0 \<le> (len - 1) * s" using assms by simp
    then show ?thesis using assms by linarith
  qed
  then show ?thesis
    using assms sdiv_mult_add [of "len - 1" opad s]
    by (cases px) (auto simp: conv_extent_def deconv_extent_def dilated_def access)
qed

lemma deconv_run:
  assumes "img input n c h w" "tensor_wf output" "t_dimensions input = 4"
    and "cc_padMode layer \<noteq> PadMode_SAME" "\<not> cc_hasOutputShape layer"
    and "pad_sum (cc_pads layer) 1 3 = Some px" "pad_sum (cc_pads layer) 0 2 = Some py"
    and op: "case cc_outPads layer of None \<Rightarrow> oph = 0 \<and> opw = 0 | Some op \<Rightarrow> take 2 op = [oph, opw]"
  shows "\<exists>out. DeconvolutionSizeComputer layer [input] output = ret out \<and> img out n (cc_outputCount layer)
      (deconv_extent py (cc_padY layer) oph h (cc_kernelY layer) (cc_dilateY layer) (cc_strideY layer))
      (deconv_extent px (cc_padX layer) opw w (cc_kernelX layer) (cc_dilateX layer) (cc_strideX layer)) \<and>
    t_dimensions out = 4 \<and> t_format out = t_format input"
proof -
  let ?o1 = "output\<lparr>t_type := t_type input, t_dimensions := 4\<rparr>"
  let ?h = "deconv_extent py (cc_padY layer) oph h (cc_kernelY layer) (cc_dilateY layer) (cc_strideY layer)"
  let ?w = "deconv_extent px (cc_padX layer) opw w (cc_kernelX layer) (cc_dilateX layer) (cc_strideX layer)"
  have "tensor_wf ?o1" using assms(2) by (simp add: tensor_wf_def MNN_MAX_TENSOR_DIM_def)
  then obtain u where u: "\<And>g. do { o3 \<leftarrow> setLength 0 n ?o1;
        o4 \<leftarrow> put_chw (t_format input) (cc_outputCount layer) ?h ?w o3; g o4 } = (g u :: Tensor option option)"
      "img (u\<lparr>t_format := t_format input\<rparr>) n (cc_outputCount layer) ?h ?w" "t_dimensions u = 4"
    by (rule put_chw_img [of ?o1 n "t_format input" "cc_outputCount layer" ?h ?w]) auto
  have acc: "twidth input = Some w" "theight input = Some h" "tlength input 0 = Some n"
    using assms(1) by (simp_all add: img_def tbatch_def)
  have pads: "(case cc_outPads layer of None \<Rightarrow> Some (0, 0)
      | Some op \<Rightarrow> do { w \<leftarrow> arr_at op 1; h \<leftarrow> arr_at op 0; Some (h, w) }) = Some (oph, opw)"
  proof (cases "cc_outPads layer")
    case (Some ps)
    then have "take 2 ps = [oph, opw]" using op by simp
    moreover have "ps = take 2 ps @ drop 2 ps" by simp
    ultimately obtain rest where "ps = oph # opw # rest" by (metis append_Cons append_Nil)
    then show ?thesis using Some by (simp add: arr_at_def)
  qed (use op in simp)
  have "DeconvolutionSizeComputer layer [input] output = ret (u\<lparr>t_format := t_format input\<rparr>)"
    using assms(3-7) u(1) by (simp add: DeconvolutionSizeComputer_def acc pads)
  then show ?thesis using u by simp
qed

text \<open>
  C27: convolution undoes the shape of transposed convolution: with the same kernel, stride, dilation
  and pads, explicit or symmetric, and output pads below the stride, the convolution of the result
  has the height and width of the original image.
\<close>

theorem deconv_conv_roundtrip:
  assumes "img input n c h w" "tensor_wf d0" "tensor_wf o0" "t_dimensions input = 4" "1 \<le> h" "1 \<le> w"
    and "cc_padMode layer = PadMode_CAFFE" "\<not> cc_hasOutputShape layer"
    and "pad_sum (cc_pads layer) 1 3 = Some px" "pad_sum (cc_pads layer) 0 2 = Some py"
    and "case cc_outPads layer of None \<Rightarrow> oph = 0 \<and> opw = 0 | Some op \<Rightarrow> take 2 op = [oph, opw]"
    and "0 \<le> oph" "oph < cc_strideY layer" "0 \<le> opw" "opw < cc_strideX layer"
  shows "\<exists>d e. DeconvolutionSizeComputer layer [input] d0 = ret d \<and>
    ConvolutionSizeComputer False quan layer [d] o0 = ret e \<and> img e n (cc_outputCount layer) h w"
proof -
  let ?h = "deconv_extent py (cc_padY layer) oph h (cc_kernelY layer) (cc_dilateY layer) (cc_strideY layer)"
  let ?w = "deconv_extent px (cc_padX layer) opw w (cc_kernelX layer) (cc_dilateX layer) (cc_strideX layer)"
  obtain d where d: "DeconvolutionSizeComputer layer [input] d0 = ret d" "img d n (cc_outputCount layer) ?h ?w" "t_dimensions d = 4"
    using deconv_run [OF assms(1,2,4) _ assms(8-11)] assms(7) by auto
  have "\<exists>e. ConvolutionSizeComputer False quan layer [d] o0 = ret e \<and> img e n (cc_outputCount layer) h w"
    using conv_run [OF d(2) assms(3) d(3), of False layer px py w h quan] assms(5-15) conv_after_deconv by simp blast
  then show ?thesis using d(1) by blast
qed

definition demo_deconv :: Convolution2DCommon where
  "demo_deconv = demo_conv\<lparr>cc_outPads := Some [1, 0]\<rparr>"

theorem deconv_conv_roundtrip_witness:
  "\<exists>d e. DeconvolutionSizeComputer demo_deconv [tensor_of [1, 3, 7, 9] MNN_NCHW []] (tensor_of [] MNN_NCHW []) = ret d \<and>
     ConvolutionSizeComputer False None demo_deconv [d] (tensor_of [] MNN_NCHW []) = ret e \<and> img e 1 8 7 9"
  using deconv_conv_roundtrip [OF demo_img, of "tensor_of [] MNN_NCHW []" "tensor_of [] MNN_NCHW []" demo_deconv
    "Some 2" "Some 0" 1 0 None]
  by (simp add: demo_deconv_def demo_conv_def pad_sum_def arr_at_def)

section \<open>Kernels larger than the image\<close>

text \<open>
  On a kernel that is larger than the image, by less than the stride, the three ways to give no
  padding disagree: explicit zero pads give the empty image, the absent pads give one row or column,
  because the quotient is truncated towards zero; and the mode VALID returns true with a negative
  extent once the kernel exceeds the image by more than the stride.
\<close>

theorem conv_kernel_too_large:
  assumes "0 < s" "len < k"
  shows "conv_extent PadMode_CAFFE (Some 0) 0 len k s = Some 0 \<and>
    (k < len + s \<longrightarrow> conv_extent PadMode_CAFFE None 0 len k s = Some 1) \<and>
    (len + s < k \<longrightarrow> (\<exists>e. conv_extent PadMode_VALID None 0 len k s = Some e \<and> e < 0))"
proof (intro conjI impI)
  show "conv_extent PadMode_CAFFE (Some 0) 0 len k s = Some 0" using assms by (simp add: conv_extent_def)
next
  assume "k < len + s"
  then show "conv_extent PadMode_CAFFE None 0 len k s = Some 1"
    using assms by (simp add: conv_extent_def access signed_divide_int_def sgn_if)
next
  assume "len + s < k"
  then have "1 \<le> (k - len - 1) div s" using assms by (simp add: le_zdiv_iff)
  then show "\<exists>e. conv_extent PadMode_VALID None 0 len k s = Some e \<and> e < 0"
    using assms by (simp add: conv_extent_def fceil_div_def)
qed

theorem conv_kernel_too_large_witness:
  "conv_extent PadMode_CAFFE None 0 2 3 2 = Some 1 \<and> (\<exists>e. conv_extent PadMode_VALID None 0 2 5 2 = Some e \<and> e < 0)"
  using conv_kernel_too_large [of 2 2 3] conv_kernel_too_large [of 2 2 5] by simp

section \<open>Pooling\<close>

lemma pool_write_img:
  assumes "img input n c h w" "tensor_wf t" "t_dimensions input = 4"
  shows "\<exists>u. pool_write input ow oh t = Some u \<and> img (u\<lparr>t_type := ty\<rparr>) n c oh ow"
proof -
  have wf: "tensor_wf input" using assms(1) by (simp add: img_def)
  obtain a0 a1 a2 a3 rest where e: "t_extent input = a0 # a1 # a2 # a3 # rest" "length rest = 5"
    using wf by (auto simp: tensor_wf_def MNN_MAX_TENSOR_DIM_def eval_nat_numeral length_Suc_conv)
  have n4: "nat 4 = 4" by simp
  let ?e = "[a0, a1, a2, a3] @ drop 4 (t_extent t)"
  obtain s where s: "copyDims input t = Some (t\<lparr>t_extent := ?e, t_stride := s\<rparr>)" "length s = 9"
    using copyDims_eq [OF wf assms(2)] e(1) wf assms(2,3)
    by (simp add: n4 tensor_wf_def MNN_MAX_TENSOR_DIM_def min_def eval_nat_numeral)
  have len: "length (t_extent t) = 9" using assms(2) by (simp add: tensor_wf_def MNN_MAX_TENSOR_DIM_def)
  have val: "n = a0" "c = (if t_format input = MNN_NHWC then a3 else a1)"
      "h = (if t_format input = MNN_NHWC then a1 else a2)" "w = (if t_format input = MNN_NHWC then a2 else a3)"
    using assms(1) e(1) img_access [OF wf] by (auto simp: img_def split: if_splits)
  show ?thesis
  proof (cases "t_format input = MNN_NHWC")
    case True
    then show ?thesis using s len val assms(3)
      by (simp add: pool_write_def setLength_upd img_def tensor_wf_def MNN_MAX_TENSOR_DIM_def tbatch_def tchannel_def
        theight_def twidth_def tlength_nth getDimensionType_def)
  next
    case False
    then show ?thesis using s len val assms(3)
      by (simp add: pool_write_def setLength_upd img_def tensor_wf_def MNN_MAX_TENSOR_DIM_def tbatch_def tchannel_def
        theight_def twidth_def tlength_nth getDimensionType_def)
  qed
qed

lemma pool_extent_floor:
  assumes "0 < s" "1 \<le> k" "1 \<le> len" "m = PoolPadType_VALID \<or> m = PoolPadType_CAFFE \<and> \<not> ceilModel"
  shows "pool_extent m ceilModel len (min k len) s = Some (int (card (windows len (min k len) s)))"
proof -
  have "min k len \<le> len" by simp
  then show ?thesis
    using assms ceil_zdiv [of s "len - min k len"]
    by (auto simp: pool_extent_def fceil_div_def card_windows access sdiv_nonneg)
qed

text \<open>pooling without the ceiling mode, with its result tensor and the tensor of indices, keeps batch
  and channels and has one row and column for each position of the window (cut to the padded image)
  that lies inside the padded image; there is at least one.
\<close>

theorem pool_counts_windows:
  assumes "img input n c h w" "tensor_wf o1" "tensor_wf o2" "t_dimensions input = 4" "\<not> pl_isGlobal layer"
    and "pl_padType layer = PoolPadType_VALID \<and> pl_padX layer = 0 \<and> pl_padY layer = 0 \<or>
         pl_padType layer = PoolPadType_CAFFE \<and> \<not> pl_ceilModel layer"
    and "pool_padded layer w h = Some (pw, ph)" "1 \<le> pw" "1 \<le> ph" "1 \<le> pl_kernelX layer" "1 \<le> pl_kernelY layer"
    and "0 < pl_strideX layer" "0 < pl_strideY layer"
  shows "\<exists>u v ow oh. PoolSizeComputer layer input [o1, o2] = ret [u, v] \<and> img u n c oh ow \<and> img v n c oh ow \<and>
    oh = int (card (windows ph (min (pl_kernelY layer) ph) (pl_strideY layer))) \<and>
    ow = int (card (windows pw (min (pl_kernelX layer) pw) (pl_strideX layer))) \<and> 1 \<le> oh \<and> 1 \<le> ow"
proof -
  let ?oh = "int (card (windows ph (min (pl_kernelY layer) ph) (pl_strideY layer)))"
  let ?ow = "int (card (windows pw (min (pl_kernelX layer) pw) (pl_strideX layer)))"
  have pos: "1 \<le> ?oh" "1 \<le> ?ow" using assms(8-13) by (simp_all add: card_windows pos_imp_zdiv_nonneg_iff)
  have acc: "twidth input = Some w" "theight input = Some h" using assms(1) by (simp_all add: img_def)
  have "pool_size layer input = ret (?ow, ?oh)"
    using assms(5-7) pool_extent_floor assms(8-13) by (auto simp: pool_size_def acc)
  moreover obtain u v where "pool_write input ?ow ?oh o1 = Some u" "img (u\<lparr>t_type := t_type input\<rparr>) n c ?oh ?ow"
      "pool_write input ?ow ?oh o2 = Some v" "img (v\<lparr>t_type := ht_of halide_type_int 32\<rparr>) n c ?oh ?ow"
    using pool_write_img [OF assms(1,2,4)] pool_write_img [OF assms(1,3,4)] by blast
  ultimately have "PoolSizeComputer layer input [o1, o2] =
      ret [u\<lparr>t_type := t_type input\<rparr>, v\<lparr>t_type := ht_of halide_type_int 32\<rparr>] \<and>
      img (u\<lparr>t_type := t_type input\<rparr>) n c ?oh ?ow \<and> img (v\<lparr>t_type := ht_of halide_type_int 32\<rparr>) n c ?oh ?ow"
    using pos by (simp add: PoolSizeComputer_def andThen_def)
  then show ?thesis using pos by blast
qed

definition demo_pool :: Pool where
  "demo_pool = \<lparr>pl_padX = 0, pl_padY = 0, pl_isGlobal = False, pl_kernelX = 3, pl_kernelY = 2, pl_strideX = 2,
     pl_strideY = 2, pl_padType = PoolPadType_CAFFE, pl_ceilModel = False, pl_pads = None\<rparr>"

theorem pool_counts_windows_witness:
  "\<exists>u v. PoolSizeComputer demo_pool (tensor_of [1, 3, 7, 9] MNN_NCHW []) [tensor_of [] MNN_NCHW [], tensor_of [] MNN_NCHW []] =
     ret [u, v] \<and> img u 1 3 3 4 \<and> img v 1 3 3 4"
  using pool_counts_windows [OF demo_img, of "tensor_of [] MNN_NCHW []" "tensor_of [] MNN_NCHW []" demo_pool 9 7]
  by (auto simp: demo_pool_def pool_padded_def card_windows)

text \<open>on an NHWC tensor three-dimensional pooling reads the extents one place too far to the right:
  it pools the axes height, width and channel, stores them as depth, height and width, and never
  looks at the depth.
\<close>

theorem pool3d_nhwc_reads_next_axis:
  assumes "0 < s" "0 < k" "k \<le> h" "k \<le> w" "k \<le> c" "0 < d"
  shows "\<exists>u. Pool3DSizeComputer \<lparr>p3_isGlobal = False, p3_padType = PoolPadType_VALID, p3_kernels = [k, k, k],
      p3_strides = [s, s, s], p3_pads = []\<rparr> (tensor_of [n, d, h, w, c] MNN_NHWC []) (tensor_of [] MNN_NCHW []) = ret u \<and>
    tshape u = [n, int (card (windows h k s)), int (card (windows w k s)), int (card (windows c k s)), c]"
proof -
  have pos: "0 < h" "0 < w" "0 < c" using assms by linarith+
  have q: "0 \<le> (h - k) div s" "0 \<le> (w - k) div s" "0 \<le> (c - k) div s"
    using assms by (simp_all add: pos_imp_zdiv_nonneg_iff)
  have sd: "(h - k) sdiv s = (h - k) div s" "(w - k) sdiv s = (w - k) div s" "(c - k) sdiv s = (c - k) div s"
    using assms by (simp_all add: sdiv_nonneg)
  show ?thesis
    using assms pos q
    by (simp add: Pool3DSizeComputer_def pool3d_extent_def as_unsigned_def tensor_of_def loopC_first copyDims_def andThen_def
      access sd card_windows tshape_def eval_nat_numeral)
qed

theorem pool3d_nhwc_reads_next_axis_witness:
  "\<exists>u. Pool3DSizeComputer \<lparr>p3_isGlobal = False, p3_padType = PoolPadType_VALID, p3_kernels = [2, 2, 2],
      p3_strides = [2, 2, 2], p3_pads = []\<rparr> (tensor_of [1, 4, 6, 8, 2] MNN_NHWC []) (tensor_of [] MNN_NCHW []) = ret u \<and>
    tshape u = [1, 3, 4, 1, 2]"
  using pool3d_nhwc_reads_next_axis [of 2 2 6 8 2 4 1] by (simp add: card_windows)

end
