(* ===== verification/ShapeBlocks.thy ===== *)
theory ShapeBlocks
  imports Tensor
begin

text \<open>
  The computers of \<open>source/shape\<close> for matrix products, for the operators that move blocks between
  batch, space and depth, and for cropping: \<open>ShapeMatMul.cpp\<close> with
  \<open>OpCommonUtils::computeMatMulSize\<close>, \<open>ShapeInnerProduct.cpp\<close>, \<open>ShapeSpaceToBatchND.cpp\<close>,
  \<open>ShapeBatchToSpaceND.cpp\<close>, \<open>ShapeSpaceToDepth.cpp\<close>, \<open>ShapeDepthToSpace.cpp\<close>,
  \<open>ShapeCrop.cpp\<close>, \<open>ShapeCropAndResize.cpp\<close>, \<open>ShapeGridSample.cpp\<close>.
\<close>

text \<open>A sequence of \<open>setLength\<close> (or \<open>dim[i].extent =\<close>) with consecutive indices.\<close>

fun put_dims :: "int \<Rightarrow> int list \<Rightarrow> Tensor \<Rightarrow> Tensor option" where
  "put_dims i [] t = Some t"
| "put_dims i (d # ds) t = do { u \<leftarrow> setLength i d t; put_dims (i + 1) ds u }"

section \<open>Matrix products\<close>

definition computeMatMulSize :: "bool \<Rightarrow> bool \<Rightarrow> Tensor \<Rightarrow> Tensor \<Rightarrow> (int \<times> int \<times> int) option option" where
  \<comment> \<open>\<open>(e, l, h)\<close>\<close>
  "computeMatMulSize transposeA transposeB A B = (
     let i0Dim = t_dimensions A;
         i1Dim = t_dimensions B
     in if i0Dim < 1 \<or> i1Dim < 1 then ret_false
     else do {
       (w0, h0, tA) \<leftarrow>
         (if i0Dim = 1 then do { l \<leftarrow> tlength A 0; Some (l, 1, False) }
          else do { w \<leftarrow> tlength A (i0Dim - 1); h \<leftarrow> tlength A (i0Dim - 2); Some (w, h, transposeA) });
       (w1, h1, tB) \<leftarrow>
         (if i1Dim = 1 then do { l \<leftarrow> tlength B 0; Some (1, l, False) }
          else do { w \<leftarrow> tlength B (i1Dim - 1); h \<leftarrow> tlength B (i1Dim - 2); Some (w, h, transposeB) });
       let (w0, h0) = (if tA then (h0, w0) else (w0, h0));
       let (w1, h1) = (if tB then (h1, w1) else (w1, h1));
       if w0 \<noteq> h1 then ret_false else ret (h0, w0, w1) })"

definition matmul_broadcast :: "Tensor \<Rightarrow> int \<Rightarrow> int \<Rightarrow> Tensor \<Rightarrow> Tensor option option" where
  \<comment> \<open>the batch dimensions of the input with fewer dimensions, merged into the output\<close>
  "matmul_broadcast input1 diffDimension maxDimensions output =
     loopC diffDimension maxDimensions (\<lambda>i u. do {
       dim1 \<leftarrow> tlength input1 (i - diffDimension);
       oi \<leftarrow> tlength u i;
       if dim1 \<noteq> oi \<and> (dim1 \<noteq> 1 \<and> oi \<noteq> 1) then ret_false
       else if dim1 = oi then ret u
       else do { v \<leftarrow> setLength i (oi * dim1) u; ret v } }) output"

definition MatMulSizeComputer :: "bool \<Rightarrow> bool \<Rightarrow> Tensor \<Rightarrow> Tensor \<Rightarrow> Tensor \<Rightarrow> Tensor option option" where
  "MatMulSizeComputer transposeA transposeB A B output =
     andThen (computeMatMulSize transposeA transposeB A B) (\<lambda>(e, l, h). (
       let i0Dim = t_dimensions A;
           i1Dim = t_dimensions B;
           o0Dim = (if i1Dim > i0Dim then i1Dim else i0Dim);
           input0 = (if i1Dim > i0Dim then B else A);
           input1 = (if i1Dim > i0Dim then A else B);
           maxDimensions = o0Dim - 2;
           diffDimension = t_dimensions input0 - t_dimensions input1
       in do {
         o1 \<leftarrow> loop 0 maxDimensions (\<lambda>i u. do { d \<leftarrow> tlength input0 i; setLength i d u })
                 (output\<lparr>t_type := t_type A, t_dimensions := o0Dim\<rparr>);
         andThen (matmul_broadcast input1 diffDimension maxDimensions o1) (\<lambda>o2. do {
           u \<leftarrow> setLength (o0Dim - 2) e o2;
           u \<leftarrow> setLength (o0Dim - 1) h u;
           u \<leftarrow> (if i0Dim > 1 then Some u else setLength (o0Dim - 2) h u);
           u \<leftarrow> (if i1Dim > 1 then Some u else setLength (o0Dim - 1) e u);
           let squeezeDim = (if i0Dim > 1 then 0 else 1) + (if i1Dim > 1 then 0 else 1);
           ret (u\<lparr>t_dimensions := (if squeezeDim > 0 then o0Dim - squeezeDim else o0Dim), t_format := t_format A\<rparr>) }) }))"

definition InnerProductComputer :: "int \<Rightarrow> Tensor \<Rightarrow> Tensor \<Rightarrow> Tensor option option" where
  "InnerProductComputer outputCount input output = do {
     b \<leftarrow> tlength input 0;
     u \<leftarrow> put_dims 0 [b, outputCount] (output\<lparr>t_dimensions := t_dimensions input\<rparr>);
     ret (u\<lparr>t_type := ht_of halide_type_float 32, t_format := t_format input\<rparr>) }"

section \<open>Blocks between space and batch\<close>

text \<open>
  \<open>blockData\<close> and \<open>paddingData\<close> are the content of the second and third input, or the constant
  blobs of the operator.
\<close>

definition block_params :: "(int \<times> int list \<times> int list) \<Rightarrow> Tensor list \<Rightarrow> (int \<times> int list \<times> int list) option" where
  "block_params attr inputs =
     (if length inputs = 3
      then do { n \<leftarrow> tlength (inputs ! 1) 0; Some (n, t_host (inputs ! 1), t_host (inputs ! 2)) }
      else Some attr)"

definition SpaceToBatchNDSizeComputer ::
  "(int \<times> int list \<times> int list) \<Rightarrow> Tensor list \<Rightarrow> Tensor \<Rightarrow> Tensor option option" where
  "SpaceToBatchNDSizeComputer attr inputs output = do {
     let input = inputs ! 0;
     (blockSize, blockData, paddingData) \<leftarrow> block_params attr inputs;
     b0 \<leftarrow> tbatch input;
     batch \<leftarrow> loop 0 blockSize (\<lambda>i b. do { d \<leftarrow> arr_at blockData i; Some (b * d) }) b0;
     let format = t_format input;
     let at = (if format = MNN_NHWC then 1 else 2);
     u \<leftarrow> setLength 0 batch (output\<lparr>t_type := t_type input, t_dimensions := t_dimensions input, t_format := format\<rparr>);
     u \<leftarrow> (if format \<noteq> MNN_NHWC then do { c \<leftarrow> tlength input 1; setLength 1 c u } else Some u);
     u \<leftarrow> loop 0 blockSize (\<lambda>i u. do {
            l \<leftarrow> tlength input (at + i);
            p \<leftarrow> arr_at paddingData (2 * i);
            q \<leftarrow> arr_at paddingData (2 * i + 1);
            d \<leftarrow> arr_at blockData i;
            outputLength \<leftarrow> idiv (l + p + q) d;
            setLength (i + at) outputLength u }) u;
     u \<leftarrow> (if format \<noteq> MNN_NHWC then Some u
          else do { c \<leftarrow> tlength input (1 + blockSize); setLength (1 + blockSize) c u });
     ret u }"

definition BatchToSpaceNDSizeComputer ::
  "(int \<times> int list \<times> int list) \<Rightarrow> Tensor list \<Rightarrow> Tensor \<Rightarrow> Tensor option option" where
  "BatchToSpaceNDSizeComputer attr inputs output = do {
     let input = inputs ! 0;
     (blockSize, blockData, paddingData) \<leftarrow> block_params attr inputs;
     b0 \<leftarrow> tbatch input;
     batch \<leftarrow> loop 0 blockSize (\<lambda>i b. do { d \<leftarrow> arr_at blockData i; idiv b d }) b0;
     let format = t_format input;
     let at = (if format = MNN_NHWC then 1 else 2);
     u \<leftarrow> setLength 0 batch output;
     let u = u\<lparr>t_dimensions := t_dimensions input, t_type := t_type input, t_format := format\<rparr>;
     u \<leftarrow> (if format \<noteq> MNN_NHWC then do { c \<leftarrow> tlength input 1; setLength 1 c u }
          else do { c \<leftarrow> tlength input (1 + blockSize); setLength (1 + blockSize) c u });
     u \<leftarrow> loop 0 blockSize (\<lambda>i u. do {
            l \<leftarrow> tlength input (at + i);
            d \<leftarrow> arr_at blockData i;
            p \<leftarrow> arr_at paddingData (2 * i);
            q \<leftarrow> arr_at paddingData (2 * i + 1);
            setLength (i + at) (l * d - p - q) u }) u;
     ret u }"

section \<open>Blocks between space and depth\<close>

definition SpaceToDepthSizeComputer :: "int \<Rightarrow> Tensor \<Rightarrow> Tensor \<Rightarrow> Tensor option option" where
  "SpaceToDepthSizeComputer blockSize input output = do {
     n \<leftarrow> tlength input 0; d1 \<leftarrow> tlength input 1; d2 \<leftarrow> tlength input 2; d3 \<leftarrow> tlength input 3;
     q2 \<leftarrow> idiv d2 blockSize;
     dims \<leftarrow> (if t_format input = MNN_NHWC
             then do { q1 \<leftarrow> idiv d1 blockSize; Some [n, q1, q2, d3 * (blockSize * blockSize)] }
             else do { q3 \<leftarrow> idiv d3 blockSize; Some [n, d1 * (blockSize * blockSize), q2, q3] });
     u \<leftarrow> put_dims 0 dims (output\<lparr>t_dimensions := t_dimensions input, t_type := t_type input\<rparr>);
     ret (u\<lparr>t_format := t_format input\<rparr>) }"

definition DepthToSpaceSizeComputer :: "int \<Rightarrow> Tensor \<Rightarrow> Tensor \<Rightarrow> Tensor option option" where
  "DepthToSpaceSizeComputer blockSize input output = do {
     n \<leftarrow> tlength input 0; d1 \<leftarrow> tlength input 1; d2 \<leftarrow> tlength input 2; d3 \<leftarrow> tlength input 3;
     dims \<leftarrow> (if t_format input = MNN_NHWC
             then do { q3 \<leftarrow> idiv d3 (blockSize * blockSize); Some [n, d1 * blockSize, d2 * blockSize, q3] }
             else do { q1 \<leftarrow> idiv d1 (blockSize * blockSize); Some [n, q1, d2 * blockSize, d3 * blockSize] });
     u \<leftarrow> put_dims 0 dims (output\<lparr>t_dimensions := t_dimensions input, t_type := t_type input\<rparr>);
     ret (u\<lparr>t_format := t_format input\<rparr>) }"

section \<open>Cropping and sampling\<close>

definition CropSizeComputer :: "int \<Rightarrow> Tensor \<Rightarrow> Tensor \<Rightarrow> Tensor \<Rightarrow> Tensor option option" where
  "CropSizeComputer axis input0 input1 output = do {
     o1 \<leftarrow> copyDims input1 (output\<lparr>t_dimensions := t_dimensions input1\<rparr>);
     u \<leftarrow> loop 0 (t_dimensions input1) (\<lambda>i u.
            if i < axis then do { l \<leftarrow> tlength input0 i; setLength i l u } else Some u) o1;
     ret (u\<lparr>t_type := t_type input0, t_format := t_format input0\<rparr>) }"

definition CropAndResizeComputer :: "Tensor \<Rightarrow> Tensor \<Rightarrow> Tensor \<Rightarrow> Tensor \<Rightarrow> Tensor \<Rightarrow> Tensor option option" where
  "CropAndResizeComputer img boxes box_index crop_size output = do {
     depth \<leftarrow> tlength img 3;
     l0 \<leftarrow> tlength boxes 0;
     l1 \<leftarrow> tlength box_index 0;
     let num_boxes = (if l0 = 0 \<and> l1 = 0 then 0 else l0);
     crop_height \<leftarrow> arr_at (t_host crop_size) 0;
     crop_width \<leftarrow> arr_at (t_host crop_size) 1;
     u \<leftarrow> put_dims 0 [num_boxes, crop_height, crop_width, depth] (output\<lparr>t_dimensions := 4\<rparr>);
     ret (u\<lparr>t_format := t_format img, t_type := t_type img\<rparr>) }"

definition GridSampleSizeComputer :: "Tensor list \<Rightarrow> Tensor \<Rightarrow> Tensor option option" where
  "GridSampleSizeComputer inputs output = (
     let in0 = inputs ! 0;
         in1 = inputs ! 1;
         o1 = output\<lparr>t_type := t_type in0, t_format := t_format in0\<rparr>
     in if length inputs > 2 then do {
       n \<leftarrow> tlength (inputs ! 2) 0;
       u \<leftarrow> loop 0 n (\<lambda>i u. do { d \<leftarrow> arr_at (t_host (inputs ! 2)) i; setLength i d u }) (o1\<lparr>t_dimensions := n\<rparr>);
       ret u }
     else do {
       a \<leftarrow> tlength in0 0;
       b \<leftarrow> tlength in1 0;
       if a \<noteq> b then ret_false
       else do {
         c \<leftarrow> tlength in0 1;
         d1 \<leftarrow> tlength in1 1;
         d2 \<leftarrow> tlength in1 2;
         u \<leftarrow> put_dims 0 [a, c, d1, d2] (o1\<lparr>t_dimensions := t_dimensions in1\<rparr>);
         u \<leftarrow> (if t_dimensions in1 = 5 then do { d3 \<leftarrow> tlength in1 3; setLength 4 d3 u } else Some u);
         ret u } })"

end
