(* ===== verification/BlockFacts.thy ===== *)
theory BlockFacts
  imports ShapeBlocks SlicingFacts
begin

text \<open>
  Facts on the computers of theory \<open>ShapeBlocks\<close>: the matrix product follows the reference on
  batch dimensions and contracted axes, the product of two vectors is undefined, and the operators
  that move blocks are undone by their inverses.
\<close>

section \<open>Writing the dimensions\<close>

lemma put_dims_at:
  "t_extent t = filled A Y \<Longrightarrow> length A + length ds \<le> length Y \<Longrightarrow>
    put_dims (int (length A)) ds t = Some (t\<lparr>t_extent := filled (A @ ds) Y\<rparr>)"
proof (induction ds arbitrary: A t)
  case (Cons d ds)
  have "setLength (int (length A)) d t = Some (t\<lparr>t_extent := filled (A @ [d]) Y\<rparr>)"
    using Cons.prems by (intro setLength_filled) auto
  then show ?case using Cons.IH [of "t\<lparr>t_extent := filled (A @ [d]) Y\<rparr>" "A @ [d]"] Cons.prems(2) by (simp add: add.commute)
qed (simp add: filled_def)

lemma put_dims_filled:
  "tensor_wf t \<Longrightarrow> length ds \<le> 9 \<Longrightarrow> put_dims 0 ds t = Some (t\<lparr>t_extent := filled ds (t_extent t)\<rparr>)"
  using put_dims_at [of t "[]" "t_extent t" ds] by (simp add: filled_Nil tensor_wf_def MNN_MAX_TENSOR_DIM_def)

lemma put_dims_shape:
  assumes "tensor_wf t" "length ds \<le> 9" "t_dimensions t = int (length ds)"
  shows "\<exists>u. put_dims 0 ds t = Some u \<and> tensor_wf u \<and> tshape u = ds \<and> t_dimensions u = t_dimensions t \<and>
    t_format u = t_format t \<and> t_type u = t_type t"
  using assms put_dims_filled [OF assms(1,2)]
  by (auto simp: tensor_wf_def MNN_MAX_TENSOR_DIM_def length_filled intro!: tshape_filled)

lemma shape4:
  assumes "tensor_wf t" "tshape t = [a, b, c, d]"
  shows "tlength t 0 = Some a" "tlength t 1 = Some b" "tlength t 2 = Some c" "tlength t 3 = Some d" "t_dimensions t = 4"
proof -
  show "tlength t 0 = Some a" "tlength t 1 = Some b" "tlength t 2 = Some c" "tlength t 3 = Some d"
    using tlength_shape [OF assms(1), of 0] tlength_shape [OF assms(1), of 1] tlength_shape [OF assms(1), of 2]
      tlength_shape [OF assms(1), of 3] assms(2) by simp_all
  show "t_dimensions t = 4" using tshape_length [OF assms(1)] assms by (simp add: tensor_wf_def)
qed

section \<open>Space and depth\<close>

text \<open>\<open>SpaceToDepth\<close> keeps the number of elements and \<open>DepthToSpace\<close> undoes its shape, in every
  format, when the block size divides the height and the width.
\<close>

theorem space_depth_roundtrip:
  assumes "tensor_wf input" "tensor_wf o1" "tensor_wf o2" "tshape input = [n, d1, d2, d3]" "0 < k"
    and "k dvd d2" "k dvd (if t_format input = MNN_NHWC then d1 else d3)" "\<forall>d \<in> {d1, d2, d3}. 0 \<le> d"
  shows "\<exists>u v. SpaceToDepthSizeComputer k input o1 = ret u \<and> DepthToSpaceSizeComputer k u o2 = ret v \<and>
    prod_list (tshape u) = prod_list (tshape input) \<and> tshape v = tshape input \<and> t_format v = t_format input"
proof -
  let ?nhwc = "t_format input = MNN_NHWC"
  define q2 where "q2 = d2 div k"
  define q where "q = (if ?nhwc then d1 else d3) div k"
  have d: "d2 = q2 * k" "(if ?nhwc then d1 else d3) = q * k" "0 \<le> q2" "0 \<le> q"
    using assms(5-8) by (auto simp: q2_def q_def pos_imp_zdiv_nonneg_iff)
  define c where "c = (if ?nhwc then d3 else d1)"
  have c: "0 \<le> c" using assms(8) by (auto simp: c_def)
  define sh where "sh = (if ?nhwc then [n, q, q2, c * (k * k)] else [n, c * (k * k), q2, q])"
  have l4: "length sh = 4" by (simp add: sh_def)
  have i: "idiv (x * k) k = Some x" "idiv (x * (k * k)) (k * k) = Some x" if "0 \<le> x" for x
    using that assms(5) by (simp_all add: access sdiv_nonneg)
  have wf: "tensor_wf (o1\<lparr>t_dimensions := 4, t_type := t_type input\<rparr>)"
    using assms(2) by (simp add: tensor_wf_def MNN_MAX_TENSOR_DIM_def)
  obtain u where u: "put_dims 0 sh (o1\<lparr>t_dimensions := 4, t_type := t_type input\<rparr>) = Some u" "tensor_wf u" "tshape u = sh"
    using put_dims_shape [OF wf, of sh] l4 by auto
  let ?u = "u\<lparr>t_format := t_format input\<rparr>"
  have s1: "SpaceToDepthSizeComputer k input o1 = ret ?u"
    using shape4 [OF assms(1,4)] u(1) i d by (auto simp: SpaceToDepthSizeComputer_def sh_def c_def simp del: put_dims.simps)
  have ushape: "tshape ?u = sh" "tensor_wf ?u" using u by simp_all
  have sh4: "sh = [n, sh ! 1, sh ! 2, sh ! 3]" by (simp add: sh_def)
  have orig: "tshape input = (if ?nhwc then [n, q * k, q2 * k, c] else [n, c, q2 * k, q * k])"
    using assms(4) d by (auto simp: c_def)
  have wf2: "tensor_wf (o2\<lparr>t_dimensions := 4, t_type := t_type ?u\<rparr>)"
    using assms(3) by (simp add: tensor_wf_def MNN_MAX_TENSOR_DIM_def)
  obtain v where v: "put_dims 0 (tshape input) (o2\<lparr>t_dimensions := 4, t_type := t_type ?u\<rparr>) = Some v" "tshape v = tshape input"
    using put_dims_shape [OF wf2, of "tshape input"] assms(4) by auto
  have "DepthToSpaceSizeComputer k ?u o2 = ret (v\<lparr>t_format := t_format ?u\<rparr>)"
    using shape4 [OF ushape(2), of n "sh ! 1" "sh ! 2" "sh ! 3"] ushape(1) sh4 v(1) i d c orig
    by (auto simp: DepthToSpaceSizeComputer_def sh_def simp del: put_dims.simps)
  then show ?thesis using s1 v(2) ushape(1) orig by (auto simp: sh_def)
qed

theorem space_depth_roundtrip_witness:
  "\<exists>u v. SpaceToDepthSizeComputer 2 (tensor_of [1, 3, 4, 6] MNN_NCHW []) (tensor_of [] MNN_NCHW []) = ret u \<and>
     DepthToSpaceSizeComputer 2 u (tensor_of [] MNN_NCHW []) = ret v \<and> tshape v = [1, 3, 4, 6]"
  using space_depth_roundtrip [of "tensor_of [1, 3, 4, 6] MNN_NCHW []" "tensor_of [] MNN_NCHW []" "tensor_of [] MNN_NCHW []"
    1 3 4 6 2] by auto

section \<open>Matrix products\<close>

lemma loopC_lift:
  assumes "\<And>i od. F i (u\<lparr>t_extent := od\<rparr>) = map_option (map_option (\<lambda>od'. u\<lparr>t_extent := od'\<rparr>)) (f i od)"
  shows "loopC lo hi F (u\<lparr>t_extent := od\<rparr>) = map_option (map_option (\<lambda>od'. u\<lparr>t_extent := od'\<rparr>)) (loopC lo hi f od)"
proof -
  have "foldC F js (u\<lparr>t_extent := od\<rparr>) = map_option (map_option (\<lambda>od'. u\<lparr>t_extent := od'\<rparr>)) (foldC f js od)" for js
  proof (induction js arbitrary: od)
    case (Cons i js)
    show ?case
    proof (cases "f i od")
      case (Some r)
      then show ?thesis using assms [of i od] Cons.IH by (cases r) simp_all
    qed (use assms [of i od] in simp)
  qed simp
  then show ?thesis by (simp add: loopC_def)
qed

lemma matmul_broadcast_lift:
  assumes "d = m - t_dimensions small"
  shows "matmul_broadcast small d m (u\<lparr>t_extent := od\<rparr>) =
    map_option (map_option (\<lambda>od'. u\<lparr>t_extent := od'\<rparr>)) (broadcast_one m small od)"
  unfolding matmul_broadcast_def broadcast_one_def assms
proof (rule loopC_lift)
  fix i od
  have put: "arr_put od i v \<bind> (\<lambda>e. ret (u\<lparr>t_extent := e\<rparr>)) =
      map_option (map_option (\<lambda>od'. u\<lparr>t_extent := od'\<rparr>)) (arr_put od i v \<bind> (\<lambda>od'. ret od'))" for v
    by (cases "arr_put od i v") simp_all
  show "(do {
       dim1 \<leftarrow> tlength small (i - (m - t_dimensions small));
       oi \<leftarrow> tlength (u\<lparr>t_extent := od\<rparr>) i;
       if dim1 \<noteq> oi \<and> (dim1 \<noteq> 1 \<and> oi \<noteq> 1) then ret_false
       else if dim1 = oi then ret (u\<lparr>t_extent := od\<rparr>)
       else do { v \<leftarrow> setLength i (oi * dim1) (u\<lparr>t_extent := od\<rparr>); ret v } }) =
    map_option (map_option (\<lambda>od'. u\<lparr>t_extent := od'\<rparr>)) (do {
       dim1 \<leftarrow> tlength small (i - (m - t_dimensions small));
       oi \<leftarrow> arr_at od i;
       if dim1 \<noteq> oi \<and> (dim1 \<noteq> 1 \<and> oi \<noteq> 1) then ret_false
       else if dim1 = oi then ret od
       else do { od' \<leftarrow> arr_put od i (oi * dim1); ret od' } })"
    using put by (cases "tlength small (i - (m - t_dimensions small))"; cases "arr_at od i")
      (auto simp: tlength_def setLength_def)
qed

definition batch_dims :: "Tensor \<Rightarrow> int list" where
  "batch_dims t = take (nat (t_dimensions t - 2)) (tshape t)"

lemma matmul_core:
  assumes "tensor_wf big" "tensor_wf small" "tensor_wf t" "2 \<le> t_dimensions small" "t_dimensions small \<le> t_dimensions big"
    and D: "D = t_dimensions big"
  shows "do { o1 \<leftarrow> loop 0 (D - 2) (\<lambda>i u. do { d \<leftarrow> tlength big i; setLength i d u }) t;
      andThen (matmul_broadcast small (D - t_dimensions small) (D - 2) o1) (\<lambda>o2. do {
        u \<leftarrow> setLength (D - 2) e o2; u \<leftarrow> setLength (D - 1) h u; g u }) } =
    (case broadcast_shape (batch_dims big) (batch_dims small) of None \<Rightarrow> ret_false
     | Some s \<Rightarrow> g (t\<lparr>t_extent := filled (s @ [e, h]) (t_extent t)\<rparr>))"
proof -
  let ?m = "D - 2" and ?s = "small\<lparr>t_dimensions := t_dimensions small - 2\<rparr>" and ?xs = "batch_dims big" and ?Y = "t_extent t"
  have m: "0 \<le> ?m" "?m \<le> 7" "length ?Y = 9" "length (t_extent big) = 9" "nat D - 2 = nat ?m"
    using assms by (simp_all add: tensor_wf_def MNN_MAX_TENSOR_DIM_def)
  have xs: "length ?xs = nat ?m" using tshape_length [OF assms(1)] D by (simp add: batch_dims_def)
  have swf: "tensor_wf ?s" "tshape ?s = batch_dims small" "t_dimensions ?s \<le> ?m"
    using assms by (auto simp: tensor_wf_def batch_dims_def tshape_def min_def)
  have copy: "loop 0 ?m (\<lambda>i u. do { d \<leftarrow> tlength big i; setLength i d u }) t = Some (t\<lparr>t_extent := filled ?xs ?Y\<rparr>)"
  proof -
    have "loop 0 ?m (\<lambda>i u. do { d \<leftarrow> tlength big i; setLength i d u }) t =
        Some (t\<lparr>t_extent := take (nat ?m) (t_extent big) @ drop (nat ?m) ?Y\<rparr>)"
      using m by (intro loop_copy_prefix) (auto simp: access)
    moreover have "take (nat ?m) (t_extent big) = ?xs"
      using m assms(1) D by (simp add: batch_dims_def tshape_def min_def)
    ultimately show ?thesis using xs by (simp add: filled_def)
  qed
  have bc: "matmul_broadcast small (D - t_dimensions small) ?m (t\<lparr>t_extent := filled ?xs ?Y\<rparr>) =
      (case broadcast_shape ?xs (batch_dims small) of None \<Rightarrow> ret_false | Some s \<Rightarrow> ret (t\<lparr>t_extent := filled s ?Y\<rparr>))"
  proof -
    have "matmul_broadcast small (D - t_dimensions small) ?m (t\<lparr>t_extent := filled ?xs ?Y\<rparr>) =
        matmul_broadcast ?s (D - t_dimensions small) ?m (t\<lparr>t_extent := filled ?xs ?Y\<rparr>)"
      by (simp add: matmul_broadcast_def tlength_def)
    also have "\<dots> = map_option (map_option (\<lambda>od'. t\<lparr>t_extent := od'\<rparr>)) (broadcast_one ?m ?s (filled ?xs ?Y))"
      by (rule matmul_broadcast_lift) simp
    also have "broadcast_one ?m ?s (filled ?xs ?Y) =
        (case broadcast_shape ?xs (tshape ?s) of None \<Rightarrow> ret_false | Some s \<Rightarrow> ret (filled s ?Y))"
      using xs m swf by (intro broadcast_one_ref) auto
    finally show ?thesis unfolding swf(2) by (auto split: option.split)
  qed
  show ?thesis
  proof (cases "broadcast_shape ?xs (batch_dims small)")
    case (Some s)
    have ls: "length s = nat ?m"
      using broadcast_shape_length [OF Some] xs tshape_length [OF assms(2)] assms(4,5) D by (simp add: batch_dims_def)
    have i: "?m = int (length s)" "D - 1 = int (length (s @ [e]))" using ls m(1) by simp_all
    have "setLength ?m e (t\<lparr>t_extent := filled s ?Y\<rparr>) = Some (t\<lparr>t_extent := filled (s @ [e]) ?Y\<rparr>)"
      unfolding i(1) using setLength_filled [of "t\<lparr>t_extent := filled s ?Y\<rparr>" s ?Y e] m(2,3) ls by simp
    moreover have "setLength (D - 1) h (t\<lparr>t_extent := filled (s @ [e]) ?Y\<rparr>) = Some (t\<lparr>t_extent := filled (s @ [e, h]) ?Y\<rparr>)"
      unfolding i(2) using setLength_filled [of "t\<lparr>t_extent := filled (s @ [e]) ?Y\<rparr>" "s @ [e]" ?Y h] m(2,3) ls by simp
    ultimately show ?thesis using copy bc Some by (simp add: andThen_def)
  qed (simp add: copy bc andThen_def)
qed

lemma computeMatMulSize_matrix:
  assumes "tensor_wf A" "tensor_wf B" "tshape A = bA @ [a1, a2]" "tshape B = bB @ [b1, b2]"
    "(e, l) = (if tA then (a2, a1) else (a1, a2))" "(l', h) = (if tB then (b2, b1) else (b1, b2))"
  shows "computeMatMulSize tA tB A B = (if l = l' then ret (e, l, h) else ret_false)"
proof -
  have last2: "tlength T (t_dimensions T - 2) = Some x1 \<and> tlength T (t_dimensions T - 1) = Some x2 \<and> 1 < t_dimensions T"
    if "tensor_wf T" "tshape T = bs @ [x1, x2]" for T bs x1 x2
  proof -
    have n: "t_dimensions T = int (length bs) + 2"
      using tshape_length [OF that(1)] that(1,2) by (simp add: tensor_wf_def)
    have "tlength T (int (length bs)) = Some x1" "tlength T (int (Suc (length bs))) = Some x2"
      using tlength_shape [OF that(1), of "length bs"] tlength_shape [OF that(1), of "Suc (length bs)"] that(2)
      by (simp_all add: nth_append)
    then show ?thesis using n by (simp add: algebra_simps)
  qed
  show ?thesis
    using last2 [OF assms(1,3)] last2 [OF assms(2,4)] assms(5,6)
    by (cases tA; cases tB) (auto simp: computeMatMulSize_def)
qed

text \<open>
  C26: on inputs with at least two dimensions the matrix product follows the reference: it returns
  false exactly when the contracted extents differ (after the transpositions) or the batch
  dimensions do not broadcast; otherwise the result has the broadcast batch dimensions, the rows of
  the left and the columns of the right matrix, and no access is out of range.
\<close>

theorem matmul_reference:
  assumes "tensor_wf A" "tensor_wf B" "tensor_wf out" "tshape A = bA @ [a1, a2]" "tshape B = bB @ [b1, b2]"
    and "(e, l) = (if tA then (a2, a1) else (a1, a2))" "(l', h) = (if tB then (b2, b1) else (b1, b2))"
  shows "case (if l = l' then broadcast_shape bA bB else None) of
      None \<Rightarrow> MatMulSizeComputer tA tB A B out = ret_false
    | Some s \<Rightarrow> \<exists>u. MatMulSizeComputer tA tB A B out = ret u \<and> tshape u = s @ [e, h] \<and>
        t_type u = t_type A \<and> t_format u = t_format A"
proof -
  have dims: "t_dimensions A = int (length bA) + 2" "t_dimensions B = int (length bB) + 2"
    using tshape_length [OF assms(1)] tshape_length [OF assms(2)] assms(1,2,4,5) by (simp_all add: tensor_wf_def)
  have gt: "1 < t_dimensions A" "1 < t_dimensions B" using dims by simp_all
  have batch: "batch_dims A = bA" "batch_dims B = bB" using dims assms(4,5) by (simp_all add: batch_dims_def)
  define big where "big = (if t_dimensions B > t_dimensions A then B else A)"
  define small where "small = (if t_dimensions B > t_dimensions A then A else B)"
  let ?D = "t_dimensions big"
  let ?t = "out\<lparr>t_type := t_type A, t_dimensions := ?D\<rparr>"
  have bs: "tensor_wf big" "tensor_wf small" "2 \<le> t_dimensions small" "t_dimensions small \<le> ?D"
    "broadcast_shape (batch_dims big) (batch_dims small) = broadcast_shape bA bB"
    using assms(1,2) dims batch broadcast_shape_comm by (auto simp: big_def small_def)
  have wt: "tensor_wf ?t" using assms(3) bs(1) by (simp add: tensor_wf_def)
  show ?thesis
  proof (cases "l = l'")
    case False
    then show ?thesis
      using computeMatMulSize_matrix [OF assms(1,2,4-7)] by (simp add: MatMulSizeComputer_def andThen_def)
  next
    case True
    let ?g = "\<lambda>u. ret (u\<lparr>t_dimensions := ?D, t_format := t_format A\<rparr>)"
    have "MatMulSizeComputer tA tB A B out =
        do { o1 \<leftarrow> loop 0 (?D - 2) (\<lambda>i u. do { d \<leftarrow> tlength big i; setLength i d u }) ?t;
          andThen (matmul_broadcast small (?D - t_dimensions small) (?D - 2) o1) (\<lambda>o2. do {
            u \<leftarrow> setLength (?D - 2) e o2; u \<leftarrow> setLength (?D - 1) h u; ?g u }) }"
      using computeMatMulSize_matrix [OF assms(1,2,4-7)] True gt
      by (cases "t_dimensions A < t_dimensions B")
        (simp_all add: MatMulSizeComputer_def andThen_def big_def small_def Let_def)
    also have "\<dots> = (case broadcast_shape bA bB of None \<Rightarrow> ret_false
        | Some s \<Rightarrow> ?g (?t\<lparr>t_extent := filled (s @ [e, h]) (t_extent ?t)\<rparr>))"
      using matmul_core [OF bs(1,2) wt bs(3,4) refl, of e h ?g] unfolding bs(5) .
    finally have run: "MatMulSizeComputer tA tB A B out = \<dots>" .
    show ?thesis
    proof (cases "broadcast_shape bA bB")
      case (Some s)
      let ?u = "?t\<lparr>t_extent := filled (s @ [e, h]) (t_extent ?t), t_dimensions := ?D, t_format := t_format A\<rparr>"
      have "int (length (s @ [e, h])) = ?D"
        using broadcast_shape_length [OF Some] dims by (simp add: big_def)
      then have "tshape ?u = s @ [e, h]" by (intro tshape_filled) auto
      then show ?thesis using run Some True by simp
    qed (use run True in simp)
  qed
qed

theorem matmul_reference_witness:
  "\<exists>u. MatMulSizeComputer False True (tensor_of [2, 1, 3, 4] MNN_NCHW []) (tensor_of [5, 7, 4] MNN_NCHW [])
      (tensor_of [] MNN_NCHW []) = ret u \<and> tshape u = [2, 5, 3, 7]"
  using matmul_reference [of "tensor_of [2, 1, 3, 4] MNN_NCHW []" "tensor_of [5, 7, 4] MNN_NCHW []" "tensor_of [] MNN_NCHW []"
      "[2, 1]" 3 4 "[5]" 7 4 3 4 False 4 7 True]
  by (auto simp: broadcast_shape_def)

text \<open>the product of two vectors of the same length is undefined: the extents are written at the
  indices -1 and 0, the first of which is outside the array.
\<close>

theorem matmul_two_vectors_undefined:
  assumes "tensor_wf A" "tensor_wf B" "tshape A = [k]" "tshape B = [k]"
  shows "MatMulSizeComputer tA tB A B out = None"
proof -
  have d: "t_dimensions A = 1" "t_dimensions B = 1"
    using tshape_length [OF assms(1)] tshape_length [OF assms(2)] assms by (simp_all add: tensor_wf_def)
  moreover have "tlength A 0 = Some k" "tlength B 0 = Some k"
    using tlength_shape [OF assms(1), of 0] tlength_shape [OF assms(2), of 0] assms(3,4) by simp_all
  ultimately show ?thesis
    by (simp add: MatMulSizeComputer_def computeMatMulSize_def andThen_def matmul_broadcast_def setLength_def arr_put_def)
qed

theorem matmul_two_vectors_undefined_witness:
  "MatMulSizeComputer False False (tensor_of [3] MNN_NCHW []) (tensor_of [3] MNN_NCHW []) (tensor_of [] MNN_NCHW []) = None"
  by (rule matmul_two_vectors_undefined [of _ _ 3]) simp_all

section \<open>Space and batch\<close>

lemma loop_shift: "loop 0 n (\<lambda>i. F (i + a)) s = loop a (a + n) F s"
proof -
  have "foldM (\<lambda>i. F (i + a)) js s = foldM F (map (\<lambda>i. i + a) js) s" for js
    by (induction js arbitrary: s) (auto split: bind_splits)
  moreover have "map (\<lambda>i. i + a) [0..n - 1] = [a..a + n - 1]" by (intro nth_equalityI) auto
  ultimately show ?thesis by (simp add: loop_def)
qed

lemma loop_setLength_at:
  assumes "0 \<le> a" "0 \<le> m" "a + m \<le> int (length (t_extent t))"
    and "\<And>i u. 0 \<le> i \<Longrightarrow> i < m \<Longrightarrow> f i u = setLength (i + a) (g i) u"
  shows "loop 0 m f t = Some (t\<lparr>t_extent := take (nat a) (t_extent t) @ map g [0..m - 1] @ drop (nat (a + m)) (t_extent t)\<rparr>)"
proof -
  have "loop 0 m f t = loop a (a + m) (\<lambda>j. f (j - a)) t" using loop_shift [of m "\<lambda>j. f (j - a)" a t] by simp
  also have "\<dots> = Some (t\<lparr>t_extent := take (nat a) (t_extent t) @ map (\<lambda>j. g (j - a)) [a..a + m - 1] @ drop (nat (a + m)) (t_extent t)\<rparr>)"
    by (rule loop_setLength) (use assms in auto)
  also have "map (\<lambda>j. g (j - a)) [a..a + m - 1] = map g [0..m - 1]"
    using assms(2) by (intro nth_equalityI) auto
  finally show ?thesis .
qed

definition blocked :: "bool \<Rightarrow> int \<Rightarrow> int \<Rightarrow> int list \<Rightarrow> int list" where
  \<comment> \<open>batch, channel and space in the order of the format\<close>
  "blocked nhwc n c sp = (if nhwc then n # sp @ [c] else n # c # sp)"

lemma blocked_access:
  assumes "tensor_wf t" "tshape t = blocked (t_format t = MNN_NHWC) n c sp"
  shows "tlength t 0 = Some n" "tlength t (if t_format t = MNN_NHWC then 1 + int (length sp) else 1) = Some c"
    "k < length sp \<Longrightarrow> tlength t ((if t_format t = MNN_NHWC then 1 else 2) + int k) = Some (sp ! k)"
    "t_dimensions t = int (length sp) + 2" "length sp \<le> 7"
proof -
  show d: "t_dimensions t = int (length sp) + 2"
    using tshape_length [OF assms(1)] assms by (simp add: blocked_def tensor_wf_def split: if_splits)
  show "length sp \<le> 7" using d assms(1) by (simp add: tensor_wf_def MNN_MAX_TENSOR_DIM_def)
  show "tlength t 0 = Some n" "tlength t (if t_format t = MNN_NHWC then 1 + int (length sp) else 1) = Some c"
    "k < length sp \<Longrightarrow> tlength t ((if t_format t = MNN_NHWC then 1 else 2) + int k) = Some (sp ! k)"
    using tlength_shape [OF assms(1), of 0] tlength_shape [OF assms(1), of "Suc 0"]
      tlength_shape [OF assms(1), of "Suc (length sp)"] tlength_shape [OF assms(1), of "Suc k"]
      tlength_shape [OF assms(1), of "Suc (Suc k)"] assms(2)
    by (auto simp: blocked_def nth_append add.commute)
qed

text \<open>Both operators write batch, channel and space; only the values and the order differ.\<close>

lemma blocked_write:
  assumes "tensor_wf t" "t_dimensions t = int m + 2" "m \<le> 7"
    and f: "\<And>i u. 0 \<le> i \<Longrightarrow> i < int m \<Longrightarrow> f i u = setLength (i + (if nhwc then 1 else 2)) (g i) u"
  shows "\<exists>v. do { u \<leftarrow> setLength 0 b t; u \<leftarrow> (if nhwc then Some u else setLength 1 c u); u \<leftarrow> loop 0 (int m) f u;
      u \<leftarrow> (if nhwc then setLength (1 + int m) c u else Some u); ret u } = ret v \<and>
    do { u \<leftarrow> setLength 0 b t; u \<leftarrow> (if nhwc then setLength (1 + int m) c u else setLength 1 c u); u \<leftarrow> loop 0 (int m) f u; ret u } = ret v \<and>
    tensor_wf v \<and> tshape v = blocked nhwc b c (map g [0..int m - 1]) \<and> t_format v = t_format t"
proof -
  let ?X = "t_extent t" and ?G = "map g [0..int m - 1]"
  have len: "length ?X = 9" "length (t_stride t) = 9" using assms(1) by (simp_all add: tensor_wf_def MNN_MAX_TENSOR_DIM_def)
  obtain x0 x1 X where X: "?X = x0 # x1 # X" "length X = 7" using len(1) by (auto simp: eval_nat_numeral length_Suc_conv)
  show ?thesis
  proof (cases nhwc)
    case True
    let ?mid = "b # ?G @ drop m (x1 # X)"
    have dx: "drop m (x1 # X) = (x1 # X) ! m # drop m X"
      using X(2) assms(3) Cons_nth_drop_Suc [of m "x1 # X"] by simp
    have dl: "drop m ((x1 # X)[m := c]) = c # drop m X"
      using drop_update_swap [of m m "x1 # X" c] by (simp add: dx del: list_update.simps(1))
    have l1: "loop 0 (int m) f (t\<lparr>t_extent := b # x1 # X\<rparr>) = Some (t\<lparr>t_extent := ?mid\<rparr>)"
      using loop_setLength_at [of 1 "int m" "t\<lparr>t_extent := b # x1 # X\<rparr>" f g] f True X assms(3) by (simp add: nat_add_distrib)
    have l2: "loop 0 (int m) f (t\<lparr>t_extent := b # (x1 # X)[m := c]\<rparr>) = Some (t\<lparr>t_extent := b # ?G @ c # drop m X\<rparr>)"
      using loop_setLength_at [of 1 "int m" "t\<lparr>t_extent := b # (x1 # X)[m := c]\<rparr>" f g] f True X assms(3)
      by (simp add: nat_add_distrib dl del: list_update.simps)
    have e: "?mid[Suc m := c] = b # ?G @ c # drop m X"
      unfolding dx by (simp add: list_update_append)
    let ?v = "t\<lparr>t_extent := b # ?G @ c # drop m X\<rparr>"
    have "tshape ?v = blocked nhwc b c ?G" using assms(2) True by (simp add: tshape_def blocked_def nat_add_distrib)
    moreover have "tensor_wf ?v" using assms X len by (simp add: tensor_wf_def MNN_MAX_TENSOR_DIM_def)
    ultimately show ?thesis using True X l1 l2 e assms(3)
      by (intro exI [of _ ?v]) (simp add: setLength_upd nat_add_distrib)
  next
    case False
    let ?v = "t\<lparr>t_extent := b # c # ?G @ drop m X\<rparr>"
    have l: "loop 0 (int m) f (t\<lparr>t_extent := b # c # X\<rparr>) = Some ?v"
      using loop_setLength_at [of 2 "int m" "t\<lparr>t_extent := b # c # X\<rparr>" f g] f False X assms(3)
      by (simp add: nat_add_distrib eval_nat_numeral)
    have "tshape ?v = blocked nhwc b c ?G" using assms(2) False by (simp add: tshape_def blocked_def nat_add_distrib eval_nat_numeral)
    moreover have "tensor_wf ?v" using assms X len by (simp add: tensor_wf_def MNN_MAX_TENSOR_DIM_def)
    ultimately show ?thesis using False X l by (intro exI [of _ ?v]) (simp add: setLength_upd)
  qed
qed

lemma loop_prod_arr:
  "loop 0 (int (length bs)) (\<lambda>i b. do { d \<leftarrow> arr_at bs i; Some (b * d) }) n = Some (n * prod_list bs)"
proof -
  let ?P = "\<lambda>i b. b = n * prod_list (take (nat i) bs)"
  have "\<exists>b. loop 0 (int (length bs)) (\<lambda>i b. do { d \<leftarrow> arr_at bs i; Some (b * d) }) n = Some b \<and> ?P (int (length bs)) b"
    by (rule loop_rule) (auto simp: access nat_add_distrib take_Suc_conv_app_nth prod_list_snoc mult.assoc)
  then show ?thesis by simp
qed

lemma loop_div_arr:
  assumes "0 \<le> n" "\<forall>b \<in> set bs. 0 < b"
  shows "loop 0 (int (length bs)) (\<lambda>i b. do { d \<leftarrow> arr_at bs i; idiv b d }) (n * prod_list bs) = Some n"
proof -
  let ?P = "\<lambda>i b. b = n * prod_list (drop (nat i) bs)"
  have "\<exists>b. loop 0 (int (length bs)) (\<lambda>i b. do { d \<leftarrow> arr_at bs i; idiv b d }) (n * prod_list bs) = Some b \<and> ?P (int (length bs)) b"
  proof (rule loop_rule)
    fix i b assume i: "0 \<le> i" "i < int (length bs)" "?P i b"
    have d: "drop (nat i) bs = bs ! nat i # drop (nat (i + 1)) bs"
      using i by (simp add: Cons_nth_drop_Suc nat_add_distrib)
    have pos: "0 < bs ! nat i" using assms(2) i by simp
    have "0 \<le> prod_list xs" if "\<forall>b \<in> set xs. 0 < b" for xs :: "int list" using that by (induction xs) auto
    then have "0 \<le> prod_list (drop (nat (i + 1)) bs)" using assms(2) by (metis in_set_dropD)
    then have "0 \<le> n * prod_list (drop (nat (i + 1)) bs)" using assms(1) by simp
    moreover have "b = n * prod_list (drop (nat (i + 1)) bs) * bs ! nat i" unfolding i(3) d by simp
    ultimately have "idiv b (bs ! nat i) = Some (n * prod_list (drop (nat (i + 1)) bs))"
      using pos by (simp add: access sdiv_nonneg)
    then show "\<exists>u. do { d \<leftarrow> arr_at bs i; idiv b d } = Some u \<and> ?P (i + 1) u" using i by (simp add: access)
  qed simp_all
  then show ?thesis by simp
qed

definition padded :: "int list \<Rightarrow> int list \<Rightarrow> int \<Rightarrow> int" where
  "padded sp ps i = sp ! nat i + ps ! nat (2 * i) + ps ! nat (2 * i + 1)"

lemma space_to_batch_run:
  assumes "tensor_wf input" "tensor_wf out" "tshape input = blocked (t_format input = MNN_NHWC) n c sp"
    and "length bs = length sp" "length ps = 2 * length sp" "\<forall>b \<in> set bs. 0 < b"
    and "\<forall>i. 0 \<le> i \<and> i < int (length sp) \<longrightarrow> 0 \<le> padded sp ps i"
  shows "\<exists>u. SpaceToBatchNDSizeComputer (int (length sp), bs, ps) [input] out = ret u \<and> tensor_wf u \<and> t_format u = t_format input \<and>
    tshape u = blocked (t_format input = MNN_NHWC) (n * prod_list bs) c
      (map (\<lambda>i. padded sp ps i div bs ! nat i) [0..int (length sp) - 1])"
proof -
  let ?nhwc = "t_format input = MNN_NHWC" and ?m = "length sp"
  let ?at = "if ?nhwc then 1 else (2 :: int)"
  let ?t = "out\<lparr>t_type := t_type input, t_dimensions := t_dimensions input, t_format := t_format input\<rparr>"
  let ?f = "\<lambda>i u. do { l \<leftarrow> tlength input (?at + i); p \<leftarrow> arr_at ps (2 * i); q \<leftarrow> arr_at ps (2 * i + 1); d \<leftarrow> arr_at bs i;
      outputLength \<leftarrow> idiv (l + p + q) d; setLength (i + ?at) outputLength u }"
  note acc = blocked_access [OF assms(1,3)]
  have f: "?f i u = setLength (i + ?at) (padded sp ps i div bs ! nat i) u" if i: "0 \<le> i" "i < int ?m" for i u
  proof -
    have "nat i < ?m" using i by simp
    then have "tlength input (?at + i) = Some (sp ! nat i)" using acc(3) [of "nat i"] i by simp
    moreover have "0 < bs ! nat i" "0 \<le> padded sp ps i" using assms(4,6,7) i by simp_all
    ultimately show ?thesis using i assms(4,5) by (simp add: access sdiv_nonneg padded_def)
  qed
  have wt: "tensor_wf ?t" "t_dimensions ?t = int ?m + 2"
    using assms(1,2) acc(4) by (simp_all add: tensor_wf_def)
  obtain v where v: "do { u \<leftarrow> setLength 0 (n * prod_list bs) ?t; u \<leftarrow> (if ?nhwc then Some u else setLength 1 c u);
        u \<leftarrow> loop 0 (int ?m) ?f u; u \<leftarrow> (if ?nhwc then setLength (1 + int ?m) c u else Some u); ret u } = ret v"
      "tensor_wf v" "tshape v = blocked ?nhwc (n * prod_list bs) c (map (\<lambda>i. padded sp ps i div bs ! nat i) [0..int ?m - 1])"
      "t_format v = t_format input"
    using blocked_write [OF wt acc(5), of ?f ?nhwc "\<lambda>i. padded sp ps i div bs ! nat i" "n * prod_list bs" c, OF f] by auto
  have "SpaceToBatchNDSizeComputer (int ?m, bs, ps) [input] out = ret v"
    using v(1) acc(1,2) loop_prod_arr [of bs n] assms(4)
    by (auto simp: SpaceToBatchNDSizeComputer_def block_params_def tbatch_def split: if_splits)
  then show ?thesis using v by blast
qed

lemma batch_to_space_run:
  assumes "tensor_wf input" "tensor_wf out" "tshape input = blocked (t_format input = MNN_NHWC) (n * prod_list bs) c sp"
    and "length bs = length sp" "length ps = 2 * length sp" "\<forall>b \<in> set bs. 0 < b" "0 \<le> n"
  shows "\<exists>u. BatchToSpaceNDSizeComputer (int (length sp), bs, ps) [input] out = ret u \<and> t_format u = t_format input \<and>
    tshape u = blocked (t_format input = MNN_NHWC) n c
      (map (\<lambda>i. sp ! nat i * bs ! nat i - ps ! nat (2 * i) - ps ! nat (2 * i + 1)) [0..int (length sp) - 1])"
proof -
  let ?nhwc = "t_format input = MNN_NHWC" and ?m = "length sp"
  let ?at = "if ?nhwc then 1 else (2 :: int)"
  let ?t = "out\<lparr>t_dimensions := t_dimensions input, t_type := t_type input, t_format := t_format input\<rparr>"
  let ?g = "\<lambda>i. sp ! nat i * bs ! nat i - ps ! nat (2 * i) - ps ! nat (2 * i + 1)"
  let ?f = "\<lambda>i u. do { l \<leftarrow> tlength input (?at + i); d \<leftarrow> arr_at bs i; p \<leftarrow> arr_at ps (2 * i); q \<leftarrow> arr_at ps (2 * i + 1);
      setLength (i + ?at) (l * d - p - q) u }"
  note acc = blocked_access [OF assms(1,3)]
  have f: "?f i u = setLength (i + ?at) (?g i) u" if i: "0 \<le> i" "i < int ?m" for i u
  proof -
    have "tlength input (?at + i) = Some (sp ! nat i)" using acc(3) [of "nat i"] i by simp
    then show ?thesis using i assms(4,5) by (simp add: access)
  qed
  have wt: "tensor_wf ?t" "t_dimensions ?t = int ?m + 2"
    using assms(1,2) acc(4) by (simp_all add: tensor_wf_def)
  obtain x where x: "setLength 0 n out = Some x"
      "setLength 0 n ?t = Some (x\<lparr>t_dimensions := t_dimensions input, t_type := t_type input, t_format := t_format input\<rparr>)"
    using assms(2) by (cases out) (simp add: setLength_upd tensor_wf_def MNN_MAX_TENSOR_DIM_def)
  obtain v where v: "do { u \<leftarrow> setLength 0 n ?t; u \<leftarrow> (if ?nhwc then setLength (1 + int ?m) c u else setLength 1 c u);
        u \<leftarrow> loop 0 (int ?m) ?f u; ret u } = ret v"
      "tshape v = blocked ?nhwc n c (map ?g [0..int ?m - 1])" "t_format v = t_format input"
    using blocked_write [OF wt acc(5), of ?f ?nhwc ?g n c, OF f] by auto
  have "BatchToSpaceNDSizeComputer (int ?m, bs, ps) [input] out = ret v"
    using v(1) acc(1,2) loop_div_arr [OF assms(7,6)] assms(4)
    by (auto simp: BatchToSpaceNDSizeComputer_def block_params_def tbatch_def x split: if_splits)
  then show ?thesis using v by blast
qed

text \<open>
  C25: \<open>BatchToSpaceND\<close> undoes the shape of \<open>SpaceToBatchND\<close> with the same blocks and paddings, for
  any number of spatial axes and in every format, when each block divides its padded axis.
\<close>

theorem space_batch_roundtrip:
  assumes "tensor_wf input" "tensor_wf o1" "tensor_wf o2" "tshape input = blocked (t_format input = MNN_NHWC) n c sp"
    and "length bs = length sp" "length ps = 2 * length sp" "\<forall>b \<in> set bs. 0 < b" "0 \<le> n"
    and "\<forall>i. 0 \<le> i \<and> i < int (length sp) \<longrightarrow> 0 \<le> padded sp ps i \<and> bs ! nat i dvd padded sp ps i"
  shows "\<exists>u v. SpaceToBatchNDSizeComputer (int (length sp), bs, ps) [input] o1 = ret u \<and>
    BatchToSpaceNDSizeComputer (int (length sp), bs, ps) [u] o2 = ret v \<and> tshape v = tshape input \<and>
    t_format v = t_format input"
proof -
  let ?q = "map (\<lambda>i. padded sp ps i div bs ! nat i) [0..int (length sp) - 1]"
  obtain u where u: "SpaceToBatchNDSizeComputer (int (length sp), bs, ps) [input] o1 = ret u" "tensor_wf u"
      "t_format u = t_format input" "tshape u = blocked (t_format u = MNN_NHWC) (n * prod_list bs) c ?q"
    using space_to_batch_run [OF assms(1,2,4-7)] assms(9) by auto
  have l: "length ?q = length sp" by simp
  obtain v where v: "BatchToSpaceNDSizeComputer (int (length sp), bs, ps) [u] o2 = ret v" "t_format v = t_format u"
      "tshape v = blocked (t_format u = MNN_NHWC) n c
        (map (\<lambda>i. ?q ! nat i * bs ! nat i - ps ! nat (2 * i) - ps ! nat (2 * i + 1)) [0..int (length sp) - 1])"
    using batch_to_space_run [OF u(2) assms(3) u(4), of ps, unfolded l, OF assms(5-8)] by blast
  have "map (\<lambda>i. ?q ! nat i * bs ! nat i - ps ! nat (2 * i) - ps ! nat (2 * i + 1)) [0..int (length sp) - 1] = sp"
  proof (intro nth_equalityI)
    fix i assume "i < length (map (\<lambda>i. ?q ! nat i * bs ! nat i - ps ! nat (2 * i) - ps ! nat (2 * i + 1)) [0..int (length sp) - 1])"
    then have i: "i < length sp" by simp
    then have "bs ! i dvd padded sp ps (int i)" using assms(9) [rule_format, of "int i"] by simp
    then have "padded sp ps (int i) div bs ! i * bs ! i = padded sp ps (int i)" by simp
    then show "map (\<lambda>i. ?q ! nat i * bs ! nat i - ps ! nat (2 * i) - ps ! nat (2 * i + 1)) [0..int (length sp) - 1] ! i = sp ! i"
      using i by (simp add: padded_def)
  qed simp
  then show ?thesis using u v assms(4) by auto
qed

theorem space_batch_roundtrip_witness:
  "\<exists>u v. SpaceToBatchNDSizeComputer (2, [2, 3], [0, 1, 1, 1]) [tensor_of [2, 5, 4, 7] MNN_NHWC []] (tensor_of [] MNN_NCHW []) = ret u \<and>
     BatchToSpaceNDSizeComputer (2, [2, 3], [0, 1, 1, 1]) [u] (tensor_of [] MNN_NCHW []) = ret v \<and> tshape v = [2, 5, 4, 7]"
proof -
  have "padded [5, 4] [0, 1, 1, 1] 0 = 6" "padded [5, 4] [0, 1, 1, 1] 1 = 6" by (simp_all add: padded_def)
  moreover have "i = 0 \<or> i = 1" if "0 \<le> i" "i < 2" for i :: int using that by linarith
  ultimately have "0 \<le> padded [5, 4] [0, 1, 1, 1] i \<and> [2, 3] ! nat i dvd padded [5, 4] [0, 1, 1, 1] i"
    if "0 \<le> i" "i < 2" for i :: int using that by fastforce
  then show ?thesis
    using space_batch_roundtrip [of "tensor_of [2, 5, 4, 7] MNN_NHWC []" "tensor_of [] MNN_NCHW []" "tensor_of [] MNN_NCHW []"
      2 7 "[5, 4]" "[2, 3]" "[0, 1, 1, 1]"] by (auto simp: blocked_def)
qed

end
