(* ===== verification/ShapeIndex.thy ===== *)
theory ShapeIndex
  imports ShapeBlocks
begin

text \<open>
  The computers of \<open>source/shape\<close> for operators that select, count or reduce: gathering,
  scattering, one-hot, top-k, arg-max, reduction, where, unique, set difference, ranges, fills.
  A tensor whose content decides a shape has it in \<open>t_host\<close>; where the code asks whether the host
  pointer is null, the answer is a parameter.
\<close>

definition set_dims :: "int list \<Rightarrow> Tensor \<Rightarrow> Tensor option" where
  "set_dims ds t = put_dims 0 ds (t\<lparr>t_dimensions := int (length ds)\<rparr>)"

definition host_all :: "Tensor \<Rightarrow> int list option" where
  \<comment> \<open>the elements \<open>host()[0] \<dots> host()[elementSize() - 1]\<close>\<close>
  "host_all t = do {
     n \<leftarrow> elementSize t;
     if n \<le> int (length (t_host t)) then Some (take (nat n) (t_host t)) else None }"

definition append_dims :: "int \<Rightarrow> int \<Rightarrow> Tensor \<Rightarrow> Tensor \<times> int \<Rightarrow> (Tensor \<times> int) option" where
  \<comment> \<open>\<open>setLength(outputIndex++, source->length(i))\<close> for \<open>i\<close> from \<open>lo\<close> below \<open>hi\<close>\<close>
  "append_dims lo hi source st =
     loop lo hi (\<lambda>i (u, outputIndex). do {
       l \<leftarrow> tlength source i; v \<leftarrow> setLength outputIndex l u; Some (v, outputIndex + 1) }) st"

section \<open>Gathering and scattering\<close>

definition GatherV2Computer :: "int option \<Rightarrow> Tensor list \<Rightarrow> Tensor \<Rightarrow> Tensor option option" where
  "GatherV2Computer axisParam inputs output = (
     let params = inputs ! 0;
         indices = inputs ! 1;
         dims = t_dimensions params
     in if ht_code (t_type indices) \<noteq> halide_type_int then ret_false
     else do {
       axis0 \<leftarrow> (if length inputs = 3 then arr_at (t_host (inputs ! 2)) 0 else Some 0);
       let axis1 = (case axisParam of Some a \<Rightarrow> a | None \<Rightarrow> axis0);
       if axis1 \<le> - dims \<or> axis1 \<ge> dims then ret_false
       else do {
         let axis = (if axis1 < 0 then dims + axis1 else axis1);
         let result_shape = take (nat axis) (tshape params) @ tshape indices @ drop (nat axis + 1) (tshape params);
         u \<leftarrow> set_dims result_shape (output\<lparr>t_type := t_type params\<rparr>);
         ret (u\<lparr>t_format := t_format params\<rparr>) } })"

definition GatherNDComputer :: "int option \<Rightarrow> Tensor \<Rightarrow> Tensor \<Rightarrow> Tensor \<Rightarrow> Tensor option option" where
  "GatherNDComputer axisParam params indices output =
     (if ht_code (t_type indices) \<noteq> halide_type_int then ret_false
      else if t_dimensions params < 1 \<or> t_dimensions indices < 1 then ret_false
      else do {
        let batchDim = (case axisParam of Some a \<Rightarrow> a | None \<Rightarrow> 0);
        let o1 = output\<lparr>t_type := t_type params, t_format := t_format params\<rparr>;
        n \<leftarrow> elementSize indices;
        if n = 0 then do {
          l \<leftarrow> tlength params (t_dimensions params - 1);
          u \<leftarrow> put_dims 0 [0, l] (o1\<lparr>t_dimensions := 2\<rparr>);
          ret u }
        else do {
          indiceNd \<leftarrow> tlength indices (t_dimensions indices - 1);
          if indiceNd > t_dimensions params then ret_false
          else do {
            let dims = t_dimensions params + t_dimensions indices - indiceNd - 1 - batchDim;
            st \<leftarrow> append_dims 0 (t_dimensions indices - 1) indices (o1\<lparr>t_dimensions := dims\<rparr>, 0);
            (u, k) \<leftarrow> append_dims (indiceNd + batchDim) (t_dimensions params) params st;
            ret u } } })"

definition GatherElementsComputer :: "Tensor \<Rightarrow> Tensor \<Rightarrow> Tensor \<Rightarrow> Tensor option option" where
  "GatherElementsComputer params indices output = do {
     u \<leftarrow> loop 0 (t_dimensions indices) (\<lambda>i u. do { l \<leftarrow> tlength indices i; setLength i l u })
            (output\<lparr>t_dimensions := t_dimensions indices\<rparr>);
     ret (u\<lparr>t_format := t_format params, t_type := t_type params\<rparr>) }"

definition ShapeScatterNd :: "Tensor \<Rightarrow> Tensor \<Rightarrow> Tensor \<Rightarrow> Tensor option option" where
  "ShapeScatterNd updates shape output = do {
     dimension \<leftarrow> tlength shape 0;
     u \<leftarrow> loop 0 dimension (\<lambda>i u. do { d \<leftarrow> arr_at (t_host shape) i; setLength i d u }) (output\<lparr>t_dimensions := dimension\<rparr>);
     ret (u\<lparr>t_type := t_type updates, t_format := t_format updates\<rparr>) }"

definition SegmentMeanSizeComputer :: "Tensor \<Rightarrow> Tensor \<Rightarrow> Tensor \<Rightarrow> Tensor option option" where
  "SegmentMeanSizeComputer input segmentIds output = do {
     let dataDim = t_dimensions input;
     S \<leftarrow> tlength input 0;
     x \<leftarrow> arr_at (t_host segmentIds) (S - 1);
     u \<leftarrow> setLength 0 (x + 1) (output\<lparr>t_dimensions := dataDim\<rparr>);
     u \<leftarrow> loop 1 dataDim (\<lambda>i u. do { l \<leftarrow> tlength input i; setLength i l u }) u;
     ret (u\<lparr>t_format := t_format input\<rparr>) }"

section \<open>One-hot, top-k, arg-max\<close>

definition ShapeOneHot :: "int \<Rightarrow> Tensor \<Rightarrow> Tensor \<Rightarrow> Tensor \<Rightarrow> Tensor \<Rightarrow> Tensor option option" where
  "ShapeOneHot axisParam indices depthTensor onValue output = do {
     depth \<leftarrow> arr_at (t_host depthTensor) 0;
     if depth < 0 then ret_false
     else do {
       let outputDimension = t_dimensions indices + 1;
       let axis = (if axisParam < 0 then outputDimension + axisParam else axisParam);
       u \<leftarrow> loop 0 outputDimension (\<lambda>i u.
              if i < axis then do { l \<leftarrow> tlength indices i; setLength i l u }
              else if i = axis then setLength i depth u
              else do { l \<leftarrow> tlength indices (i - 1); setLength i l u })
            (output\<lparr>t_dimensions := outputDimension, t_type := t_type onValue\<rparr>);
       ret (u\<lparr>t_format := t_format indices\<rparr>) } }"

definition TopKV2SizeComputer :: "Tensor list \<Rightarrow> Tensor \<Rightarrow> Tensor \<Rightarrow> (Tensor \<times> Tensor) option option" where
  "TopKV2SizeComputer inputs outputData outputIndices = do {
     let input = inputs ! 0;
     let kTensor = inputs ! 1;
     let inputDimension = t_dimensions input;
     k \<leftarrow> arr_at (t_host kTensor) 0;
     axis0 \<leftarrow> (if length inputs = 3 then arr_at (t_host (inputs ! 2)) 0 else Some (inputDimension - 1));
     let axis = (if axis0 < 0 then axis0 + t_dimensions input else axis0);
     u \<leftarrow> copyDims input (outputData\<lparr>t_dimensions := inputDimension\<rparr>);
     u \<leftarrow> setLength axis k u;
     v \<leftarrow> copyDims input (outputIndices\<lparr>t_dimensions := inputDimension\<rparr>);
     v \<leftarrow> setLength axis k v;
     ret (u\<lparr>t_type := t_type input, t_format := t_format input\<rparr>,
          (setType DT_INT32 v)\<lparr>t_format := t_format kTensor\<rparr>) }"

record ArgMax =
  am_axis :: int
  am_topK :: int
  am_outMaxVal :: int

definition argmax_reduce :: "int \<Rightarrow> Tensor \<Rightarrow> Tensor \<Rightarrow> Tensor option" where
  "argmax_reduce axis0 input o1 = do {
     let n = t_dimensions input;
     let axis = (if axis0 < 0 then n + axis0 else axis0);
     (u, j) \<leftarrow> loop 0 n (\<lambda>i (u, j).
         if i = axis then Some (u, j) else do { l \<leftarrow> tlength input i; v \<leftarrow> setLength j l u; Some (v, j + 1) })
         (o1\<lparr>t_dimensions := n - 1\<rparr>, 0);
     v \<leftarrow> setLength (n - 1) 0 u;
     Some (v\<lparr>t_type := ht_of halide_type_int 32\<rparr>) }"

definition ArgMaxComputer :: "ArgMax \<Rightarrow> Tensor \<Rightarrow> Tensor \<Rightarrow> Tensor option option" where
  "ArgMaxComputer argMax input output = do {
     u \<leftarrow> copyDims input (output\<lparr>t_dimensions := t_dimensions input\<rparr>);
     let o1 = u\<lparr>t_format := t_format input\<rparr>;
     v \<leftarrow> (if t_format input \<noteq> MNN_NC4HW4 then argmax_reduce (am_axis argMax) input o1
          else (
            let o2 = o1\<lparr>t_type := ht_of halide_type_float 32\<rparr>;
                topK = am_topK argMax;
                axis = am_axis argMax
            in if axis = 0 then do {
                 let keyExtent = (if am_outMaxVal argMax \<noteq> 0 then topK * 2 else topK);
                 d3 \<leftarrow> tlength input 3; d2 \<leftarrow> tlength input 2;
                 (if d3 > 1 then setLength 3 keyExtent o2
                  else if d2 > 1 then setLength 2 keyExtent o2
                  else setLength 1 keyExtent o2) }
               else if axis \<noteq> 10000 then setLength axis (if am_outMaxVal argMax \<noteq> 0 then topK * 2 else topK) o2
               else do {
                 s \<leftarrow> Some (replicate (nat (t_dimensions input)) 1);
                 d0 \<leftarrow> tlength input 0;
                 s \<leftarrow> arr_put s 0 d0;
                 s \<leftarrow> arr_put s 2 topK;
                 s \<leftarrow> (if am_outMaxVal argMax \<noteq> 0 then arr_put s 1 2 else Some s);
                 put_dims 0 s o2 }));
     ret v }"

section \<open>Reduction\<close>

definition reduce_mask :: "int list \<Rightarrow> int \<Rightarrow> bool list option" where
  "reduce_mask dims n =
     foldM (\<lambda>axis m. arr_put m (if axis < 0 then axis + n else axis) True) dims (replicate MNN_MAX_TENSOR_DIM False)"

definition ReductionComputer :: "int list option \<Rightarrow> bool \<Rightarrow> Tensor list \<Rightarrow> Tensor \<Rightarrow> Tensor option option" where
  "ReductionComputer dimParam keepDims inputs output0 = (
     let input = inputs ! 0;
         n = t_dimensions input;
         output = output0\<lparr>t_format := t_format input, t_type := t_type input\<rparr>
     in if dimParam = None \<and> length inputs = 1 then
          (if keepDims then do {
             u \<leftarrow> loop 0 n (\<lambda>i u. setLength i 1 u) (output\<lparr>t_dimensions := n\<rparr>);
             ret u }
           else ret (output\<lparr>t_dimensions := 0\<rparr>))
     else do {
       dims \<leftarrow> (case dimParam of Some ds \<Rightarrow> Some ds | None \<Rightarrow> host_all (inputs ! 1));
       reduceMask \<leftarrow> reduce_mask dims n;
       (u, offset) \<leftarrow> loop 0 n (\<lambda>i (u, offset). do {
           mk \<leftarrow> arr_at reduceMask i;
           if mk then (if keepDims then do { v \<leftarrow> setLength offset 1 u; Some (v, offset + 1) } else Some (u, offset))
           else do { l \<leftarrow> tlength input i; v \<leftarrow> setLength offset l u; Some (v, offset + 1) } }) (output, 0);
       ret (u\<lparr>t_dimensions := offset\<rparr>) })"

section \<open>Counting operators\<close>

text \<open>
  \<open>content\<close> holds, for a host pointer that is not null, which elements are greater than zero;
  \<open>oldVersion\<close> is the absence of the \<open>Extra\<close> parameter.
\<close>

definition WhereSizeComputer :: "bool \<Rightarrow> bool list option \<Rightarrow> Tensor \<Rightarrow> Tensor \<Rightarrow> Tensor option option" where
  "WhereSizeComputer oldVersion content input output = do {
     n \<leftarrow> elementSize input;
     u \<leftarrow> put_dims 0 [n, t_dimensions input] (output\<lparr>t_dimensions := 2\<rparr>);
     let o1 = u\<lparr>t_format := t_format input, t_type := ht_of halide_type_int 32\<rparr>;
     if oldVersion then ret o1
     else (case content of
         None \<Rightarrow> do { v \<leftarrow> setLength 0 0 o1; ret v }
       | Some gt0 \<Rightarrow>
           if t_type input \<notin> {ht_of halide_type_float 32, ht_of halide_type_int 32, ht_of halide_type_uint 8} then ret_false
           else if n > int (length gt0) then None
           else do {
             let count = int (length (filter id (take (nat n) gt0)));
             v \<leftarrow> (if count > 0 then setLength 0 count o1
                  else put_dims 0 [0, t_dimensions input] (o1\<lparr>t_dimensions := 2\<rparr>));
             ret v }) }"

definition ShapeUnique :: "bool \<Rightarrow> Tensor \<Rightarrow> Tensor list \<Rightarrow> Tensor list option option" where
  "ShapeUnique hostNull input outputs = (
     if ht_bytes (t_type input) \<noteq> 4 then ret_false
     else if hostNull then ret_false
     else (case outputs of
         [] \<Rightarrow> None
       | output # rest \<Rightarrow> do {
           vs \<leftarrow> host_all input;
           let values = int (length (remdups vs));
           o0 \<leftarrow> setLength 0 values (output\<lparr>t_dimensions := 1, t_format := t_format input, t_type := t_type input\<rparr>);
           let vec = (\<lambda>n t. do {
                 u \<leftarrow> setLength 0 n (t\<lparr>t_dimensions := 1\<rparr>);
                 Some (u\<lparr>t_format := t_format input, t_type := ht_of halide_type_int 32\<rparr>) });
           outs \<leftarrow> (case rest of
               [] \<Rightarrow> Some []
             | o1 # rest1 \<Rightarrow> do {
                 u1 \<leftarrow> copyShape o0 o1 True;
                 us \<leftarrow> (case rest1 of
                     [] \<Rightarrow> Some []
                   | o2 # rest2 \<Rightarrow> do {
                       u2 \<leftarrow> vec (int (length vs)) o2;
                       us \<leftarrow> (case rest2 of [] \<Rightarrow> Some [] | o3 # rest3 \<Rightarrow> do { u3 \<leftarrow> vec values o3; Some (u3 # rest3) });
                       Some (u2 # us) });
                 Some (u1\<lparr>t_type := ht_of halide_type_int 32\<rparr> # us) });
           ret (o0 # outs) }))"

definition ShapeSetDiff1D :: "bool \<Rightarrow> Tensor \<Rightarrow> Tensor \<Rightarrow> Tensor \<Rightarrow> Tensor option option" where
  "ShapeSetDiff1D hostNull input0 input1 output =
     (if ht_code (t_type input0) \<noteq> halide_type_int \<or> ht_code (t_type input1) \<noteq> halide_type_int then ret_false
      else if hostNull then ret_false
      else do {
        inputData \<leftarrow> host_all input0;
        removeData \<leftarrow> (if inputData = [] then Some [] else host_all input1);
        let outputNum = int (length (filter (\<lambda>x. x \<notin> set removeData) inputData));
        u \<leftarrow> setLength 0 outputNum (output\<lparr>t_dimensions := 1, t_format := t_format input0, t_type := t_type input0\<rparr>);
        ret u })"

definition UnravelIndexSize :: "Tensor \<Rightarrow> Tensor \<Rightarrow> Tensor \<Rightarrow> Tensor option option" where
  "UnravelIndexSize indices dims output0 = do {
     let output = setType DT_INT32 output0;
     l \<leftarrow> tlength dims 0;
     (if t_dimensions indices = 0 then do { u \<leftarrow> put_dims 0 [l] (output\<lparr>t_dimensions := 1\<rparr>); ret u }
      else do { n \<leftarrow> elementSize indices; u \<leftarrow> put_dims 0 [l, n] (output\<lparr>t_dimensions := 2\<rparr>); ret u }) }"

definition NonMaxSuppressionV2Computer :: "int option \<Rightarrow> Tensor \<Rightarrow> Tensor \<Rightarrow> Tensor option option" where
  \<comment> \<open>\<open>maxOutput\<close> is the content of the third input, when there is one\<close>
  "NonMaxSuppressionV2Computer maxOutput boxes output = do {
     num_boxes \<leftarrow> tlength boxes 0;
     let output_size = (case maxOutput of None \<Rightarrow> num_boxes | Some m \<Rightarrow> min m num_boxes);
     u \<leftarrow> setLength 0 output_size (setType DT_INT32 (output\<lparr>t_dimensions := 1\<rparr>));
     ret (u\<lparr>t_format := t_format boxes\<rparr>) }"

section \<open>Ranges and fills\<close>

text \<open>
  \<open>computeSize<int32_t>\<close>: the operands are converted to \<open>float\<close>, exact below \<open>2 ^ 24\<close>; the ceiling of
  the quotient is then exact (see theory \<open>ShapeConv\<close>). A zero step that is not caught by the
  comparison divides by zero.
\<close>

definition range_size :: "int \<Rightarrow> int \<Rightarrow> int \<Rightarrow> int option" where
  "range_size start limit delta =
     (if delta > 0 \<and> limit < start then Some 0
      else if \<not> delta > 0 \<and> limit > start then Some 0
      else if delta = 0 then None
      else Some (- ((- \<bar>limit - start\<bar>) div \<bar>delta\<bar>)))"

definition RangeComputer :: "int \<Rightarrow> Tensor list \<Rightarrow> Tensor \<Rightarrow> Tensor option option" where
  \<comment> \<open>\<open>floatSize\<close> is the size computed from \<open>float\<close> contents\<close>
  "RangeComputer floatSize inputs output = do {
     let code = ht_code (t_type (inputs ! 0));
     (output_size, o1) \<leftarrow>
       (if code = halide_type_int then do {
          a \<leftarrow> arr_at (t_host (inputs ! 0)) 0; b \<leftarrow> arr_at (t_host (inputs ! 1)) 0; c \<leftarrow> arr_at (t_host (inputs ! 2)) 0;
          n \<leftarrow> range_size a b c;
          Some (n, setType DT_INT32 output) }
        else if code = halide_type_float then Some (floatSize, setType DT_FLOAT output)
        else Some (0, output));
     u \<leftarrow> setLength 0 output_size (o1\<lparr>t_dimensions := 1\<rparr>);
     ret (u\<lparr>t_format := t_format (inputs ! 0)\<rparr>) }"

definition LinSpaceSizeComputer :: "Tensor \<Rightarrow> Tensor \<Rightarrow> Tensor \<Rightarrow> Tensor option option" where
  "LinSpaceSizeComputer start numTensor output = do {
     num \<leftarrow> arr_at (t_host numTensor) 0;
     u \<leftarrow> setLength 0 num (output\<lparr>t_dimensions := 1\<rparr>);
     ret ((setType DT_FLOAT u)\<lparr>t_format := t_format start\<rparr>) }"

definition FillComputer :: "Tensor \<Rightarrow> Tensor \<Rightarrow> Tensor \<Rightarrow> Tensor option option" where
  "FillComputer dims val output = do {
     n \<leftarrow> tlength dims 0;
     u \<leftarrow> loop 0 n (\<lambda>i u. do { d \<leftarrow> arr_at (t_host dims) i; setLength i d u })
            (output\<lparr>t_dimensions := n, t_type := t_type val, t_format := t_format val\<rparr>);
     ret u }"

definition ShapeHistogram :: "int \<Rightarrow> Tensor \<Rightarrow> Tensor \<Rightarrow> Tensor option option" where
  "ShapeHistogram binNum input output = do {
     u \<leftarrow> setLength 0 binNum (output\<lparr>t_dimensions := 1\<rparr>);
     ret (u\<lparr>t_type := ht_of halide_type_float 32, t_format := t_format input\<rparr>) }"

end
