(* ===== verification/ShapeMisc.thy ===== *)
theory ShapeMisc
  imports ShapeIndex ShapeReshape
begin

text \<open>
  The remaining computers of \<open>source/shape\<close>: shape and size queries, casts and format conversion,
  quantization, random tensors, resizing, regions of interest, detection heads, recurrent cells,
  attention and small linear algebra. A product of an extent with a \<open>float\<close> scale, truncated to
  \<open>int\<close>, is a parameter \<open>int \<Rightarrow> int\<close>; so are integers read from a \<open>float\<close> tensor.
\<close>

section \<open>Queries, casts and formats\<close>

definition ShapeSizeComputer :: "MNN_DATA_FORMAT \<Rightarrow> Tensor \<Rightarrow> Tensor \<Rightarrow> Tensor option option" where
  "ShapeSizeComputer defaultFormat input output = do {
     let o1 = (setType DT_INT32 (output\<lparr>t_dimensions := 1\<rparr>))\<lparr>t_format := defaultFormat\<rparr>;
     u \<leftarrow> setLength 0 (if t_format input = MNN_NC4HW4 \<and> defaultFormat = MNN_NHWC then 4 else t_dimensions input) o1;
     ret u }"

datatype RasterAttr =
    RasterShape "int list option"
  | RasterCode halide_type_code
  | RasterBits nat
  | RasterFormat MNN_DATA_FORMAT
  | RasterOther

fun raster_attr :: "RasterAttr \<Rightarrow> Tensor \<Rightarrow> Tensor option" where
  "raster_attr (RasterShape None) t = Some (t\<lparr>t_dimensions := 0\<rparr>)"
| "raster_attr (RasterShape (Some ds)) t = put_dims 0 ds (t\<lparr>t_dimensions := int (length ds)\<rparr>)"
| "raster_attr (RasterCode c) t = Some (t\<lparr>t_type := (t_type t)\<lparr>ht_code := c\<rparr>\<rparr>)"
| "raster_attr (RasterBits b) t = Some (t\<lparr>t_type := (t_type t)\<lparr>ht_bits := b\<rparr>\<rparr>)"
| "raster_attr (RasterFormat f) t = Some (t\<lparr>t_format := f\<rparr>)"
| "raster_attr RasterOther t = Some t"

definition ShapeRasterComputer :: "RasterAttr list option \<Rightarrow> Tensor list \<Rightarrow> Tensor \<Rightarrow> Tensor option option" where
  "ShapeRasterComputer extra inputs output =
     (case extra of
        None \<Rightarrow> do {
          input \<leftarrow> arr_at inputs 0;
          u \<leftarrow> copyShape input (output\<lparr>t_type := t_type input\<rparr>) True;
          ret u }
      | Some attrs \<Rightarrow> do {
          let o1 = (case inputs of [] \<Rightarrow> output | input # _ \<Rightarrow> output\<lparr>t_type := t_type input, t_format := t_format input\<rparr>);
          u \<leftarrow> foldM raster_attr attrs o1;
          ret u })"

definition SizeOpComputer :: "MNN_DATA_FORMAT \<Rightarrow> Tensor \<Rightarrow> Tensor option option" where
  "SizeOpComputer defaultFormat output =
     ret ((setType DT_INT32 (output\<lparr>t_dimensions := 0\<rparr>))\<lparr>t_format := defaultFormat\<rparr>)"

datatype CastOp = CastLike | FloatToInt8 | Int8ToFloat | Cast DataType

definition CastSizeComputer :: "CastOp \<Rightarrow> Tensor list \<Rightarrow> Tensor \<Rightarrow> Tensor option option" where
  "CastSizeComputer op inputs output = do {
     input \<leftarrow> arr_at inputs 0;
     u \<leftarrow> copyShape input output True;
     (case op of
        CastLike \<Rightarrow> do { like \<leftarrow> arr_at inputs 1; ret (u\<lparr>t_type := t_type like\<rparr>) }
      | FloatToInt8 \<Rightarrow> ret (u\<lparr>t_type := ht_of halide_type_int 8\<rparr>)
      | Int8ToFloat \<Rightarrow> ret (u\<lparr>t_type := ht_of halide_type_float 32\<rparr>)
      | Cast dstT \<Rightarrow> ret (setType dstT u)) }"

definition caffe_like :: "MNN_DATA_FORMAT \<Rightarrow> MNN_DATA_FORMAT" where
  "caffe_like fmt = (if fmt = MNN_NC4HW4 then MNN_NCHW else fmt)"

definition TensorConvertSizeComputer :: "MNN_DATA_FORMAT \<Rightarrow> Tensor \<Rightarrow> Tensor \<Rightarrow> Tensor option option" where
  "TensorConvertSizeComputer dest input output = do {
     let sourceFmt = caffe_like (t_format input);
     let destFmt = caffe_like dest;
     let n = t_dimensions input;
     let o1 = output\<lparr>t_format := dest, t_type := t_type input, t_dimensions := n\<rparr>;
     if n = 2 \<or> sourceFmt = destFmt then do {
       u \<leftarrow> loop 0 n (\<lambda>i u. do { l \<leftarrow> tlength input i; setLength i l u }) o1;
       ret u }
     else do {
       b \<leftarrow> tlength input 0;
       u \<leftarrow> setLength 0 b o1;
       (if sourceFmt = MNN_NCHW \<and> destFmt = MNN_NHWC then do {
          c \<leftarrow> tlength input 1;
          u \<leftarrow> setLength (n - 1) c u;
          u \<leftarrow> loop 1 (n - 1) (\<lambda>i u. do { l \<leftarrow> tlength input (i + 1); setLength i l u }) u;
          ret u }
        else if destFmt = MNN_NCHW \<and> sourceFmt = MNN_NHWC then do {
          c \<leftarrow> tlength input (n - 1);
          u \<leftarrow> setLength 1 c u;
          u \<leftarrow> loop 2 n (\<lambda>i u. do { l \<leftarrow> tlength input (i - 1); setLength i l u }) u;
          ret u }
        else ret u) } }"

definition ShapeDequantize :: "Tensor \<Rightarrow> Tensor \<Rightarrow> Tensor option option" where
  "ShapeDequantize input output = do {
     u \<leftarrow> copyShape input output True;
     ret (u\<lparr>t_type := ht_of halide_type_float 32\<rparr>) }"

definition DynamicQuantComputer :: "Tensor list \<Rightarrow> Tensor \<Rightarrow> Tensor \<Rightarrow> Tensor \<Rightarrow> (Tensor \<times> Tensor \<times> Tensor) option option" where
  \<comment> \<open>the second assignment of the output's format, at line 41, leaves the format of \<open>zeroPoint\<close> alone\<close>
  "DynamicQuantComputer inputs output scale zeroPoint =
     (case inputs of
        [input] \<Rightarrow> do {
          u \<leftarrow> loop 0 (t_dimensions input) (\<lambda>i u. do { l \<leftarrow> tlength input i; setLength i l u })
                 (output\<lparr>t_dimensions := t_dimensions input\<rparr>);
          s \<leftarrow> setLength 0 1 (scale\<lparr>t_dimensions := 1\<rparr>);
          z \<leftarrow> setLength 0 1 (zeroPoint\<lparr>t_dimensions := 1\<rparr>);
          ret (u\<lparr>t_format := t_format input, t_type := ht_of halide_type_int 8\<rparr>,
               s\<lparr>t_format := t_format input, t_type := ht_of halide_type_float 32\<rparr>,
               z\<lparr>t_type := ht_of halide_type_float 32\<rparr>) }
      | _ \<Rightarrow> ret_false)"

definition SelectSizeComputer :: "Tensor list \<Rightarrow> Tensor \<Rightarrow> Tensor option option" where
  "SelectSizeComputer inputs output = do {
     input1 \<leftarrow> arr_at inputs 1;
     andThen (computeBroadCastDims inputs (output\<lparr>t_type := t_type input1\<rparr>))
       (\<lambda>u. ret (u\<lparr>t_format := t_format input1\<rparr>)) }"

definition RandomUniformComputer :: "DataType \<Rightarrow> Tensor \<Rightarrow> Tensor \<Rightarrow> Tensor option option" where
  "RandomUniformComputer dtype shape output = do {
     n \<leftarrow> elementSize shape;
     u \<leftarrow> loop 0 n (\<lambda>i u. do { d \<leftarrow> arr_at (t_host shape) i; setLength i d u })
            ((setType dtype output)\<lparr>t_dimensions := n\<rparr>);
     v \<leftarrow> setLinearLayout u;
     ret v }"

section \<open>Resizing\<close>

definition ResizeComputer :: "(int \<Rightarrow> int) \<Rightarrow> (int \<Rightarrow> int) \<Rightarrow> Tensor \<Rightarrow> Tensor \<Rightarrow> Tensor option option" where
  "ResizeComputer xScaled yScaled input output = do {
     u \<leftarrow> copyShape input output True;
     w \<leftarrow> tlength input 3;
     u \<leftarrow> setLength 3 (xScaled w) u;
     h \<leftarrow> tlength input 2;
     u \<leftarrow> setLength 2 (yScaled h) u;
     ret (u\<lparr>t_type := t_type input\<rparr>) }"

definition ImageProcessComputer :: "int list \<Rightarrow> DataType \<Rightarrow> Tensor list \<Rightarrow> Tensor \<Rightarrow> Tensor option option" where
  "ImageProcessComputer shape outputType inputs output =
     (if length inputs = 3 then do { u \<leftarrow> setLength 0 1 (output\<lparr>t_dimensions := 1\<rparr>); ret u }
      else do {
        input \<leftarrow> arr_at inputs 0;
        u \<leftarrow> copyShape input output True;
        c \<leftarrow> arr_at shape 1;
        h \<leftarrow> arr_at shape 2;
        w \<leftarrow> arr_at shape 3;
        u \<leftarrow> put_dims 1 (if t_format input = MNN_NHWC then [h, w, c] else [c, h, w]) u;
        ret (setType outputType u) })"

text \<open>
  The parameters of \<open>InterpComputer\<close>: the output size of the operator, the scaled extents, and for a
  second input with \<open>float\<close> content the truncated values (\<open>floatShape\<close>) and scaled extents
  (\<open>floatScaled\<close>).
\<close>

record InterpParam =
  in_outputWidth :: int
  in_outputHeight :: int
  in_widthScaled :: "int \<Rightarrow> int"
  in_heightScaled :: "int \<Rightarrow> int"
  in_floatShape :: "int list"
  in_floatScaled :: "int \<Rightarrow> int \<Rightarrow> int"

definition interp_size :: "InterpParam \<Rightarrow> Tensor list \<Rightarrow> int \<Rightarrow> int \<Rightarrow> (int \<times> int) option option" where
  \<comment> \<open>width and height, from the operator or the two values of the second input\<close>
  "interp_size p inputs iw ih =
     (if length inputs = 1
      then (if in_outputWidth p = 0 \<or> in_outputHeight p = 0
            then ret (in_widthScaled p iw, in_heightScaled p ih)
            else ret (in_outputWidth p, in_outputHeight p))
      else do {
        shape \<leftarrow> arr_at inputs 1;
        l \<leftarrow> tlength shape 0;
        if l \<noteq> 2 then ret_false
        else do {
          let content = (if ht_code (t_type shape) = halide_type_float then in_floatShape p else t_host shape);
          w \<leftarrow> arr_at content 1;
          h \<leftarrow> arr_at content 0;
          ret (w, h) } })"

definition InterpComputer :: "InterpParam \<Rightarrow> Tensor list \<Rightarrow> Tensor \<Rightarrow> Tensor option option" where
  "InterpComputer p inputs output = do {
     input \<leftarrow> arr_at inputs 0;
     iw \<leftarrow> twidth input;
     ih \<leftarrow> theight input;
     u \<leftarrow> copyDims input output;
     let o1 = u\<lparr>t_dimensions := t_dimensions input, t_type := t_type input, t_format := t_format input\<rparr>;
     whole \<leftarrow> (if length inputs = 2 then do { l \<leftarrow> tlength (inputs ! 1) 0; Some (l = t_dimensions input) } else Some False);
     if whole then do {
       v \<leftarrow> (if ht_code (t_type (inputs ! 1)) = halide_type_int
            then loop 0 (t_dimensions input) (\<lambda>i v. do { d \<leftarrow> arr_at (t_host (inputs ! 1)) i; setLength i d v }) o1
            else loop 0 (t_dimensions input) (\<lambda>i v. do { d \<leftarrow> tlength input i; setLength i (in_floatScaled p i d) v }) o1);
       ret v }
     else andThen (interp_size p inputs iw ih) (\<lambda>(w, h).
       if w = 0 \<and> h = 0 then ret_false
       else do {
         v \<leftarrow> (if t_format input = MNN_NHWC then do { v \<leftarrow> setLength 2 w o1; setLength 1 h v }
              else do { v \<leftarrow> setLength 3 w o1; setLength 2 h v });
         ret v }) }"

definition StftOpComputer :: "bool \<Rightarrow> Tensor \<Rightarrow> Tensor \<Rightarrow> Tensor \<Rightarrow> Tensor \<Rightarrow> Tensor option option" where
  "StftOpComputer absParam input step window output = do {
     batch_size \<leftarrow> tlength input 0;
     signal_length \<leftarrow> tlength input 1;
     u \<leftarrow> setLength 3 2 (output\<lparr>t_dimensions := 4\<rparr>);
     u \<leftarrow> setLength 0 batch_size u;
     frame_length \<leftarrow> tlength window 0;
     hop \<leftarrow> arr_at (t_host step) 0;
     q \<leftarrow> idiv (signal_length - frame_length) hop;
     u \<leftarrow> setLength 1 (q + 1) u;
     half \<leftarrow> idiv frame_length 2;
     u \<leftarrow> setLength 2 (if absParam then half + 1 else frame_length) u;
     ret (u\<lparr>t_format := t_format input\<rparr>) }"

end
