(* ===== verification/ShapeHeads.thy ===== *)
theory ShapeHeads
  imports ShapeIndex
begin

text \<open>
  Shape computers of \<open>source/shape\<close> for detection heads, recurrent cells, attention and small linear
  algebra: \<open>ShapeROIPooling.cpp\<close>, \<open>ShapeROIAlign.cpp\<close>, \<open>ShapeProposal.cpp\<close>,
  \<open>ShapeDetectionOutput.cpp\<close>, \<open>ShapeDetectionPostProcess.cpp\<close>, \<open>ShapeRNNSequenceGRU.cpp\<close>,
  \<open>ShapeLSTM.cpp\<close>, \<open>ShapeAttention.cpp\<close>, \<open>ShapeSplitGelu.cpp\<close>, \<open>ShapeDet.cpp\<close>, \<open>ShapeSvd.cpp\<close>,
  \<open>ShapeCosineSimilarity.cpp\<close>, \<open>ShapeMoments.cpp\<close>. Several of them leave the number of dimensions or
  the type of the output alone; the model does too.
\<close>

abbreviation float32 :: halide_type where
  "float32 \<equiv> ht_of halide_type_float 32"

section \<open>Regions of interest and detection\<close>

definition roi_forward :: "int \<Rightarrow> int \<Rightarrow> Tensor \<Rightarrow> Tensor \<Rightarrow> Tensor \<Rightarrow> Tensor option option" where
  "roi_forward pooledWidth pooledHeight input rois output = do {
     u \<leftarrow> copyDims input output;
     u \<leftarrow> setLength 3 pooledWidth (u\<lparr>t_type := float32\<rparr>);
     u \<leftarrow> setLength 2 pooledHeight u;
     n \<leftarrow> tbatch rois;
     u \<leftarrow> setLength 0 n u;
     ret (u\<lparr>t_format := t_format input\<rparr>) }"

definition roi_backward :: "Tensor \<Rightarrow> Tensor \<Rightarrow> Tensor option option" where
  "roi_backward input output = do {
     u \<leftarrow> copyShape input output True;
     ret (u\<lparr>t_type := t_type input\<rparr>) }"

definition ROIPoolingComputer :: "int \<Rightarrow> int \<Rightarrow> Tensor list \<Rightarrow> Tensor \<Rightarrow> Tensor option option" where
  "ROIPoolingComputer pooledWidth pooledHeight inputs output =
     (if length inputs = 2 then roi_forward pooledWidth pooledHeight (inputs ! 0) (inputs ! 1) output
      else if length inputs = 3 then roi_backward (inputs ! 0) output
      else ret output)"

definition ROIAlignComputer :: "int \<Rightarrow> int \<Rightarrow> Tensor list \<Rightarrow> Tensor \<Rightarrow> Tensor option option" where
  "ROIAlignComputer pooledWidth pooledHeight inputs output =
     (if length inputs = 2 \<or> length inputs = 3 then roi_forward pooledWidth pooledHeight (inputs ! 0) (inputs ! 1) output
      else if length inputs = 4 then roi_backward (inputs ! 0) output
      else ret output)"

definition ProposalComputer :: "int \<Rightarrow> Tensor \<Rightarrow> Tensor list \<Rightarrow> Tensor list option option" where
  "ProposalComputer afterNmsTopN input outputs =
     (case outputs of
        [] \<Rightarrow> None
      | output # rest \<Rightarrow> do {
          b \<leftarrow> tlength input 0;
          u \<leftarrow> put_dims 0 [afterNmsTopN * b, 5, 1, 1] output;
          rest \<leftarrow> (case rest of
              [] \<Rightarrow> Some []
            | roi # others \<Rightarrow> do { v \<leftarrow> put_dims 0 [afterNmsTopN * b, 1, 1, 1] roi; Some (v # others) });
          ret (u\<lparr>t_type := float32, t_format := t_format input\<rparr> # rest) })"

definition DetectionOutputComputer :: "int \<Rightarrow> Tensor \<Rightarrow> Tensor option option" where
  "DetectionOutputComputer keepTopK output = do {
     u \<leftarrow> put_dims 0 [1, 1, keepTopK, 6] output;
     ret (u\<lparr>t_format := MNN_NC4HW4, t_type := float32\<rparr>) }"

definition DetectionPostProcessSize ::
  "int \<Rightarrow> int \<Rightarrow> Tensor list \<Rightarrow> Tensor \<Rightarrow> Tensor \<Rightarrow> Tensor \<Rightarrow> Tensor \<Rightarrow> (Tensor \<times> Tensor \<times> Tensor \<times> Tensor) option option" where
  "DetectionPostProcessSize maxDetections maxClassesPerDetection inputs boxes classes scores num = do {
     let numDetectedBoxes = maxDetections * maxClassesPerDetection;
     input \<leftarrow> arr_at inputs 0;
     batchSize \<leftarrow> tbatch input;
     b \<leftarrow> put_dims 0 [batchSize, numDetectedBoxes, 4] (boxes\<lparr>t_dimensions := 3\<rparr>);
     c \<leftarrow> put_dims 0 [batchSize, numDetectedBoxes] (classes\<lparr>t_dimensions := 2\<rparr>);
     s \<leftarrow> put_dims 0 [batchSize, numDetectedBoxes] (scores\<lparr>t_dimensions := 2\<rparr>);
     n \<leftarrow> put_dims 0 [1] (num\<lparr>t_dimensions := 1\<rparr>);
     ret (b\<lparr>t_type := float32\<rparr>, c\<lparr>t_type := float32\<rparr>, s\<lparr>t_type := float32\<rparr>, n\<lparr>t_type := float32\<rparr>) }"

section \<open>Recurrent cells\<close>

definition RNNSequenceGRUComputer :: "int \<Rightarrow> bool \<Rightarrow> bool \<Rightarrow> Tensor \<Rightarrow> Tensor list \<Rightarrow> Tensor list option option" where
  "RNNSequenceGRUComputer numUnits keepAllOutputs isBidirectionalRNN input outputs = (
     let directions = (if isBidirectionalRNN then 2 else 1)
     in case outputs of
        [] \<Rightarrow> None
      | output # rest \<Rightarrow> do {
          let o1 = output\<lparr>t_type := float32, t_format := t_format input\<rparr>;
          b \<leftarrow> tlength input 1;
          (if keepAllOutputs then do {
             s \<leftarrow> tlength input 0;
             u \<leftarrow> setShape [s, directions, b, numUnits] o1;
             rest \<leftarrow> (case rest of
                 [] \<Rightarrow> Some []
               | yh # others \<Rightarrow> do {
                   v \<leftarrow> setShape [directions, b, numUnits] yh;
                   Some (v\<lparr>t_type := t_type input, t_format := t_format input\<rparr> # others) });
             ret (u\<lparr>t_type := t_type input\<rparr> # rest) }
           else do {
             u \<leftarrow> setShape [directions, b, numUnits] o1;
             ret (u\<lparr>t_type := t_type input\<rparr> # rest) }) })"

definition rnn_output :: "Tensor \<Rightarrow> int list \<Rightarrow> Tensor \<Rightarrow> Tensor option" where
  "rnn_output X ds t = do { u \<leftarrow> set_dims ds t; Some (u\<lparr>t_format := t_format X\<rparr>) }"

definition LSTMComputer :: "int \<Rightarrow> Tensor list \<Rightarrow> Tensor list \<Rightarrow> Tensor list option option" where
  "LSTMComputer outputCount inputs outputs = do {
     X \<leftarrow> arr_at inputs 0;
     (case outputs of
        [output] \<Rightarrow> do {
          u \<leftarrow> copyDims X output;
          u \<leftarrow> setLength 3 outputCount (u\<lparr>t_dimensions := 4\<rparr>);
          u \<leftarrow> setLength 2 1 u;
          ret [u\<lparr>t_type := float32, t_format := t_format X\<rparr>] }
      | Y # ht # ct # others \<Rightarrow> do {
          seqLength \<leftarrow> tlength X 0;
          batchSize \<leftarrow> tlength X 1;
          W \<leftarrow> arr_at inputs 1;
          direction \<leftarrow> tlength W 0;
          y \<leftarrow> rnn_output X [seqLength, direction, batchSize, outputCount] Y;
          h \<leftarrow> rnn_output X [direction, batchSize, outputCount] ht;
          c \<leftarrow> rnn_output X [direction, batchSize, outputCount] ct;
          ret (y # h # c # others) }
      | _ \<Rightarrow> None) }"

definition LSTMBlockCellComputer :: "Tensor list \<Rightarrow> Tensor list \<Rightarrow> Tensor list option option" where
  "LSTMBlockCellComputer inputs outputs = do {
     us \<leftarrow> foldM (\<lambda>t acc. do { x \<leftarrow> arr_at inputs 1; u \<leftarrow> copyShape x t False; Some (acc @ [u]) }) outputs [];
     ret us }"

definition RNNComputer :: "int \<Rightarrow> Tensor list \<Rightarrow> Tensor \<Rightarrow> Tensor \<Rightarrow> (Tensor \<times> Tensor) option option" where
  "RNNComputer outputCount inputs Y ht = do {
     X \<leftarrow> arr_at inputs 0;
     seqLength \<leftarrow> tlength X 0;
     batchSize \<leftarrow> tlength X 1;
     W \<leftarrow> arr_at inputs 1;
     direction \<leftarrow> tlength W 0;
     y \<leftarrow> rnn_output X [seqLength, direction, batchSize, outputCount] Y;
     h \<leftarrow> rnn_output X [direction, batchSize, outputCount] ht;
     ret (y, h) }"

section \<open>Attention\<close>

definition three_dims :: "Tensor \<Rightarrow> int \<Rightarrow> Tensor \<Rightarrow> Tensor option option" where
  \<comment> \<open>the first two extents of the input and a third one\<close>
  "three_dims input d2 output = do {
     d0 \<leftarrow> tlength input 0;
     d1 \<leftarrow> tlength input 1;
     u \<leftarrow> put_dims 0 [d0, d1, d2] output;
     ret (u\<lparr>t_dimensions := 3, t_type := t_type input, t_format := t_format input\<rparr>) }"

definition FmhaV2SizeComputer :: "Tensor \<Rightarrow> Tensor \<Rightarrow> Tensor option option" where
  "FmhaV2SizeComputer input0 output0 = do {
     d \<leftarrow> tlength input0 2;
     q \<leftarrow> idiv d 3;
     three_dims input0 q output0 }"

definition FmhcaSizeComputer :: "Tensor \<Rightarrow> Tensor \<Rightarrow> Tensor option option" where
  "FmhcaSizeComputer input0 output0 = do { d \<leftarrow> tlength input0 2; three_dims input0 d output0 }"

definition AttentionSizeComputer :: "Tensor \<Rightarrow> Tensor \<Rightarrow> Tensor option option" where
  "AttentionSizeComputer input output = do {
     a \<leftarrow> tlength input 2;
     b \<leftarrow> tlength input 3;
     three_dims input (a * b) output }"

definition SplitGeLUSizeComputer :: "Tensor \<Rightarrow> Tensor \<Rightarrow> Tensor option option" where
  "SplitGeLUSizeComputer input0 output0 = do {
     d \<leftarrow> tlength input0 2;
     q \<leftarrow> idiv d 2;
     three_dims input0 q output0 }"

definition SeqLen2SpatialSizeComputer :: "Tensor \<Rightarrow> Tensor \<Rightarrow> Tensor option option" where
  "SeqLen2SpatialSizeComputer input output = do {
     u \<leftarrow> loop 0 (t_dimensions input) (\<lambda>i u. do { l \<leftarrow> tlength input i; setLength i l u })
            (output\<lparr>t_dimensions := t_dimensions input\<rparr>);
     ret (u\<lparr>t_type := t_type input, t_format := t_format input\<rparr>) }"

section \<open>Linear algebra\<close>

definition DetComputer :: "Tensor list \<Rightarrow> Tensor \<Rightarrow> Tensor option option" where
  "DetComputer inputs output =
     (case inputs of
        [input] \<Rightarrow> (
          let shape = tshape input;
              dim = length shape
          in if dim < 2 \<or> shape ! (dim - 1) \<noteq> shape ! (dim - 2) then ret_false
          else do {
            u \<leftarrow> (if dim > 2 then copyDims (input\<lparr>t_dimensions := int dim - 2\<rparr>) output else Some output);
            ret (u\<lparr>t_dimensions := int dim - 2, t_type := t_type input, t_format := t_format input\<rparr>) })
      | _ \<Rightarrow> ret_false)"

definition SvdComputer :: "Tensor \<Rightarrow> Tensor \<Rightarrow> Tensor \<Rightarrow> Tensor \<Rightarrow> (Tensor \<times> Tensor \<times> Tensor) option option" where
  "SvdComputer input w u vt = do {
     row \<leftarrow> arr_at (tshape input) 0;
     col \<leftarrow> arr_at (tshape input) 1;
     let single_num = col;
     let like = (\<lambda>t. t\<lparr>t_type := t_type input, t_format := t_format input\<rparr>);
     a \<leftarrow> set_dims [single_num] w;
     b \<leftarrow> set_dims [row, single_num] u;
     c \<leftarrow> set_dims [single_num, col] vt;
     ret (like a, like b, like c) }"

definition CosineSimilaritySize :: "Tensor \<Rightarrow> Tensor \<Rightarrow> Tensor \<Rightarrow> Tensor option option" where
  "CosineSimilaritySize x1 dimTensor output = do {
     dim \<leftarrow> arr_at (t_host dimTensor) 0;
     let dimensions0 = t_dimensions x1;
     u \<leftarrow> loop 0 dimensions0 (\<lambda>i u.
            if i = dim then Some u
            else do { l \<leftarrow> tlength x1 i; setLength (if i > dim then i - 1 else i) l u })
          (output\<lparr>t_dimensions := dimensions0 - 1\<rparr>);
     ret (u\<lparr>t_type := t_type x1, t_format := MNN_NCHW\<rparr>) }"

definition moments_shape :: "int list \<Rightarrow> bool \<Rightarrow> Tensor \<Rightarrow> int list" where
  "moments_shape momentsDims keepDims input =
     concat (map (\<lambda>(i, l). if i \<notin> set momentsDims then [l] else if keepDims then [1] else [])
       (zip [0 .. t_dimensions input - 1] (tshape input)))"

definition MomentsComputer :: "int list option \<Rightarrow> bool \<Rightarrow> Tensor \<Rightarrow> Tensor \<Rightarrow> Tensor \<Rightarrow> (Tensor \<times> Tensor) option option" where
  \<comment> \<open>with \<open>MNN_SUPPORT_DEPRECATED_OP\<close>\<close>
  "MomentsComputer dims keepDims input mean variance = (
     let m = mean\<lparr>t_type := t_type input\<rparr>;
         v = variance\<lparr>t_type := t_type input\<rparr>
     in case dims of
          None \<Rightarrow> ret (m\<lparr>t_dimensions := 0, t_format := MNN_NCHW\<rparr>, v\<lparr>t_dimensions := 0, t_format := MNN_NCHW\<rparr>)
        | Some ds \<Rightarrow> do {
            let outputShape = moments_shape ds keepDims input;
            m' \<leftarrow> set_dims outputShape m;
            v' \<leftarrow> set_dims outputShape v;
            ret (m'\<lparr>t_format := MNN_NC4HW4\<rparr>, v'\<lparr>t_format := MNN_NC4HW4\<rparr>) })"

end
