(* ===== verification/ShapeTensorArray.thy ===== *)
theory ShapeTensorArray
  imports ShapeIndex
begin

text \<open>
  Tensor arrays (\<open>source/shape/ShapeTensorArray.cpp\<close>): a tensor that stands for a sequence of tensors
  carries a \<open>TensorArrayAttr\<close> with the number of elements and their shapes; every operation makes a
  new tensor from the one that flows in. \<open>MNN_ASSERT\<close> is empty in a release build and has no effect
  here either; where the code then reads outside a vector, the result is \<open>None\<close>.
\<close>

record TensorArrayAttr =
  ta_isDynamicSize :: bool
  ta_isIdenticalShape :: bool
  ta_arraySize :: int  \<comment> \<open>\<open>uint32_t\<close>\<close>
  ta_elemShape :: "int list list"

type_synonym ArrayTensor = "Tensor \<times> TensorArrayAttr option"

definition u32 :: "int \<Rightarrow> int" where
  "u32 x = x mod 2 ^ 32"

definition i32 :: "int \<Rightarrow> int" where
  "i32 x = (if u32 x < 2 ^ 31 then u32 x else u32 x - 2 ^ 32)"

definition copyTensorArrayAttribute :: "ArrayTensor \<Rightarrow> Tensor \<Rightarrow> (Tensor \<times> TensorArrayAttr) option" where
  "copyTensorArrayAttribute src dst =
     map_option (\<lambda>a. (dst\<lparr>t_format := t_format (fst src)\<rparr>,
       \<lparr>ta_isDynamicSize = ta_isDynamicSize a, ta_isIdenticalShape = ta_isIdenticalShape a,
        ta_arraySize = ta_arraySize a, ta_elemShape = ta_elemShape a\<rparr>)) (snd src)"

definition array_total :: "TensorArrayAttr \<Rightarrow> int" where
  "array_total a = (
     let totalSize = (\<Sum>elem \<leftarrow> ta_elemShape a. fold (\<lambda>dim s. s * dim) elem 1);
         arraySize = i32 (ta_arraySize a)
     in if length (ta_elemShape a) = 1 \<and> arraySize > 1 then totalSize * arraySize
        else if totalSize = 0 then 1 else totalSize)"

definition updateTensorArrayDims :: "Tensor \<times> TensorArrayAttr \<Rightarrow> ArrayTensor option" where
  "updateTensorArrayDims ta = do {
     u \<leftarrow> put_dims 0 [array_total (snd ta), 1, 1, 1] ((fst ta)\<lparr>t_dimensions := 1\<rparr>);
     Some (u, Some (snd ta)) }"

section \<open>Making, sizing, reading\<close>

definition TensorArrayComputer ::
  "bool \<Rightarrow> bool \<Rightarrow> int list option \<Rightarrow> DataType \<Rightarrow> MNN_DATA_FORMAT \<Rightarrow> Tensor \<Rightarrow> Tensor list \<Rightarrow> ArrayTensor list option option" where
  "TensorArrayComputer dynamic_size identical element_shape T defaultFormat sizeTensor outputs = do {
     outs \<leftarrow> foldM (\<lambda>output acc. do {
         n \<leftarrow> arr_at (t_host sizeTensor) 0;
         let elemShape = (case element_shape of
                Some es \<Rightarrow> if es = [] then [] else [map (\<lambda>d. if d < 0 then 0 else d) es]
              | None \<Rightarrow> []);
         let a = \<lparr>ta_isDynamicSize = dynamic_size, ta_isIdenticalShape = identical,
                  ta_arraySize = u32 n, ta_elemShape = elemShape\<rparr>;
         t \<leftarrow> updateTensorArrayDims ((setType T output)\<lparr>t_format := defaultFormat\<rparr>, a);
         Some (acc @ [t]) }) outputs [];
     ret outs }"

definition TensorArraySizeComputer :: "ArrayTensor \<Rightarrow> Tensor \<Rightarrow> Tensor option option" where
  "TensorArraySizeComputer flow output = do {
     u \<leftarrow> setLength 0 1 ((setType DT_INT32 output)\<lparr>t_dimensions := 1\<rparr>);
     ret (u\<lparr>t_format := t_format (fst flow)\<rparr>) }"

definition TensorArrayReadComputer :: "Tensor \<Rightarrow> ArrayTensor \<Rightarrow> Tensor \<Rightarrow> Tensor option option" where
  "TensorArrayReadComputer index flow output =
     (case snd flow of
        None \<Rightarrow> ret_false
      | Some a \<Rightarrow> do {
          readIndex \<leftarrow> arr_at (t_host index) 0;
          let readElemShape =
            (if \<not> ta_isIdenticalShape a \<and> 0 \<le> readIndex \<and> readIndex < int (length (ta_elemShape a))
             then ta_elemShape a ! nat readIndex
             else if ta_elemShape a \<noteq> [] then ta_elemShape a ! 0 else []);
          u \<leftarrow> set_dims readElemShape (output\<lparr>t_type := t_type (fst flow)\<rparr>);
          ret (u\<lparr>t_format := t_format (fst flow)\<rparr>) })"

section \<open>Writing\<close>

definition write_shape :: "TensorArrayAttr \<Rightarrow> int \<Rightarrow> int list \<Rightarrow> TensorArrayAttr option" where
  \<comment> \<open>the update of \<open>elemShape\<close>\<close>
  "write_shape a writeIndex writeShape =
     (if ta_isIdenticalShape a
      then Some (a\<lparr>ta_elemShape := (case ta_elemShape a of [] \<Rightarrow> [writeShape] | _ # rest \<Rightarrow> writeShape # rest)\<rparr>)
      else do {
        let pushed = ta_elemShape a @ replicate (nat (writeIndex + 1) - length (ta_elemShape a)) writeShape;
        shapes \<leftarrow> arr_put pushed writeIndex writeShape;
        Some (a\<lparr>ta_elemShape := shapes\<rparr>) })"

definition TensorArrayWriteComputer ::
  "Tensor \<Rightarrow> Tensor \<Rightarrow> ArrayTensor \<Rightarrow> Tensor \<Rightarrow> ArrayTensor option option" where
  "TensorArrayWriteComputer index value flow output =
     (case snd flow of
        None \<Rightarrow> ret_false
      | Some inAttr \<Rightarrow>
          if t_format value \<noteq> t_format (fst flow) then ret_false
          else do {
            (o1, a) \<leftarrow> copyTensorArrayAttribute flow output;
            writeIndex \<leftarrow> arr_at (t_host index) 0;
            let a1 = (if ta_isDynamicSize inAttr \<and> u32 writeIndex \<ge> ta_arraySize inAttr
                      then a\<lparr>ta_arraySize := u32 (writeIndex + 1)\<rparr> else a);
            a2 \<leftarrow> write_shape a1 writeIndex (tshape value);
            r \<leftarrow> updateTensorArrayDims (o1\<lparr>t_type := t_type value\<rparr>, a2);
            ret r })"

definition TensorArrayScatterComputer ::
  "Tensor \<Rightarrow> Tensor \<Rightarrow> ArrayTensor \<Rightarrow> Tensor \<Rightarrow> ArrayTensor option option" where
  "TensorArrayScatterComputer indices value flow output =
     (case snd flow of
        None \<Rightarrow> ret_false
      | Some inAttr \<Rightarrow>
          if t_format value \<noteq> t_format (fst flow) then ret_false
          else do {
            (o1, a) \<leftarrow> copyTensorArrayAttribute flow output;
            n \<leftarrow> tlength indices 0;
            a1 \<leftarrow> loop 0 n (\<lambda>i a. do {
                writeIndex \<leftarrow> arr_at (t_host indices) i;
                let a = (if ta_isDynamicSize inAttr \<and> u32 writeIndex \<ge> ta_arraySize inAttr
                         then a\<lparr>ta_arraySize := u32 (writeIndex + 1)\<rparr> else a);
                (case tshape value of
                   [] \<Rightarrow> None
                 | _ # writeElemShape \<Rightarrow>
                     Some (a\<lparr>ta_elemShape :=
                       (case ta_elemShape a of [] \<Rightarrow> [writeElemShape] | _ # rest \<Rightarrow> writeElemShape # rest)\<rparr>)) }) a;
            r \<leftarrow> updateTensorArrayDims (o1\<lparr>t_type := t_type (fst flow)\<rparr>, a1);
            ret r })"

section \<open>Gathering\<close>

definition TensorArrayGatherComputer ::
  "DataType \<Rightarrow> int list option \<Rightarrow> Tensor \<Rightarrow> ArrayTensor \<Rightarrow> Tensor \<Rightarrow> Tensor option option" where
  "TensorArrayGatherComputer T element_shape indices flow output =
     (case snd flow of
        None \<Rightarrow> ret_false
      | Some a \<Rightarrow> do {
          l \<leftarrow> tlength indices 0;
          u \<leftarrow> setLength 0 l ((setType T output)\<lparr>t_format := t_format (fst flow), t_dimensions := t_dimensions (fst flow)\<rparr>);
          let es = (case element_shape of Some es \<Rightarrow> es | None \<Rightarrow> []);
          (if es \<noteq> [] then do {
             v \<leftarrow> loop 0 (int (length es)) (\<lambda>i v. do {
                 d \<leftarrow> arr_at es i;
                 dimValue \<leftarrow> (if d < 0 then do { e \<leftarrow> arr_at (ta_elemShape a) 0; arr_at e i } else Some d);
                 setLength (1 + i) dimValue v }) (u\<lparr>t_dimensions := int (length es) + 1\<rparr>);
             ret v }
           else if length (ta_elemShape a) = 1 then do {
             v \<leftarrow> put_dims 1 (ta_elemShape a ! 0) u;
             ret v }
           else ret u) })"

section \<open>Splitting and concatenating\<close>

definition remove_at :: "int \<Rightarrow> 'a list \<Rightarrow> 'a list option" where
  \<comment> \<open>\<open>v.erase(v.begin() + i)\<close>\<close>
  "remove_at i xs = (if 0 \<le> i \<and> i < int (length xs) then Some (take (nat i) xs @ drop (Suc (nat i)) xs) else None)"

definition insert_at :: "int \<Rightarrow> 'a \<Rightarrow> 'a list \<Rightarrow> 'a list option" where
  \<comment> \<open>\<open>v.insert(v.begin() + i, x)\<close>\<close>
  "insert_at i x xs = (if 0 \<le> i \<and> i \<le> int (length xs) then Some (take (nat i) xs @ x # drop (nat i) xs) else None)"

definition split_piece :: "bool \<Rightarrow> bool \<Rightarrow> int list \<Rightarrow> int \<Rightarrow> int \<Rightarrow> int list \<Rightarrow> int \<Rightarrow> int list option" where
  "split_piece scalarSplit keepdims lens splitAxis totalLen vShape i =
     (if scalarSplit
      then (if \<not> keepdims then remove_at splitAxis vShape
            else do { splitLen \<leftarrow> arr_at lens 0; arr_put vShape splitAxis (min splitLen (totalLen - i * splitLen)) })
      else do { l \<leftarrow> arr_at lens i; arr_put vShape splitAxis l })"

definition TensorArraySplitComputer ::
  "int \<Rightarrow> bool \<Rightarrow> DataType \<Rightarrow> Tensor \<Rightarrow> Tensor \<Rightarrow> ArrayTensor \<Rightarrow> Tensor \<Rightarrow> ArrayTensor option option" where
  "TensorArraySplitComputer axisParam keepdims T value lengths flow output =
     (case snd flow of
        None \<Rightarrow> ret_false
      | Some inAttr \<Rightarrow> do {
          splitAxis \<leftarrow> imod (axisParam + t_dimensions value) (t_dimensions value);
          (o1, a) \<leftarrow> copyTensorArrayAttribute flow output;
          let vShape = tshape value;
          a1 \<leftarrow> (if ta_isIdenticalShape a then do {
               n \<leftarrow> arr_at vShape splitAxis;
               writeElemShape \<leftarrow> (if keepdims then arr_put vShape splitAxis 1 else remove_at splitAxis vShape);
               Some (a\<lparr>ta_arraySize := u32 n, ta_elemShape := ta_elemShape a @ [writeElemShape]\<rparr>) }
             else do {
               count \<leftarrow> elementSize lengths;
               totalLen \<leftarrow> arr_at vShape splitAxis;
               let scalarSplit = (count = 1);
               splitNum \<leftarrow> (if scalarSplit then do { l \<leftarrow> arr_at (t_host lengths) 0; idiv (totalLen + l - 1) l }
                           else tlength lengths 0);
               shapes \<leftarrow> loop 0 splitNum (\<lambda>i shapes. do {
                   e \<leftarrow> split_piece scalarSplit keepdims (t_host lengths) splitAxis totalLen vShape i;
                   Some (shapes @ [e]) }) (ta_elemShape a);
               Some (a\<lparr>ta_arraySize := u32 splitNum, ta_elemShape := shapes\<rparr>) });
          r \<leftarrow> updateTensorArrayDims (setType T o1, a1);
          ret r })"

fun std_equal :: "'a list \<Rightarrow> 'a list \<Rightarrow> bool option" where
  \<comment> \<open>\<open>std::equal\<close> with three iterators: reading behind the second range is undefined\<close>
  "std_equal [] ys = Some True"
| "std_equal (x # xs) [] = None"
| "std_equal (x # xs) (y # ys) = (if x = y then std_equal xs ys else Some False)"

definition concat_join :: "int \<Rightarrow> bool \<Rightarrow> int list \<Rightarrow> int list \<Rightarrow> (int list \<times> bool) option" where
  \<comment> \<open>one element: the new \<open>outShape\<close>, and whether the element fits\<close>
  "concat_join concatAxis newAxis elemShape outShape = do {
     let same = (length outShape = length elemShape);
     (if newAxis then do { e \<leftarrow> std_equal outShape elemShape; Some (outShape, same \<and> e) }
      else if 0 \<le> concatAxis \<and> concatAxis < int (length outShape) then do {
        front \<leftarrow> std_equal (take (nat concatAxis) outShape) elemShape;
        back \<leftarrow> std_equal (drop (nat concatAxis + 1) outShape) (drop (nat concatAxis + 1) elemShape);
        a \<leftarrow> arr_at outShape concatAxis;
        b \<leftarrow> arr_at elemShape concatAxis;
        out \<leftarrow> arr_put outShape concatAxis (a + b);
        Some (out, same \<and> front \<and> back) }
      else None) }"

definition TensorArrayConcatComputer :: "int \<Rightarrow> bool \<Rightarrow> ArrayTensor \<Rightarrow> Tensor \<Rightarrow> ArrayTensor option option" where
  "TensorArrayConcatComputer concatAxis newAxis flow output =
     (case snd flow of
        None \<Rightarrow> ret_false
      | Some inAttr \<Rightarrow>
          if ta_arraySize inAttr = 0 then ret_false
          else do {
            (o1, a) \<leftarrow> copyTensorArrayAttribute flow output;
            let elemShapes = ta_elemShape inAttr;
            outShape0 \<leftarrow> arr_at elemShapes 0;
            andThen
              (loopC 1 (int (length elemShapes)) (\<lambda>i outShape. do {
                 elemShape \<leftarrow> arr_at elemShapes (if ta_isIdenticalShape inAttr then 0 else i);
                 (out, valid) \<leftarrow> concat_join concatAxis newAxis elemShape outShape;
                 if valid then ret out else ret_false }) outShape0)
              (\<lambda>outShape. do {
                 outShape \<leftarrow> (if newAxis then insert_at concatAxis (i32 (ta_arraySize inAttr)) outShape else Some outShape);
                 u \<leftarrow> set_dims outShape (o1\<lparr>t_type := t_type (fst flow)\<rparr>);
                 ret (u, Some a) }) })"

section \<open>Inserting and erasing\<close>

definition TensorArrayInsertComputer ::
  "Tensor \<Rightarrow> Tensor \<Rightarrow> ArrayTensor \<Rightarrow> Tensor \<Rightarrow> ArrayTensor option option" where
  "TensorArrayInsertComputer position value flow output =
     (case snd flow of
        None \<Rightarrow> ret_false
      | Some inAttr \<Rightarrow>
          if t_format value \<noteq> t_format (fst flow) then ret_false
          else do {
            (o1, a) \<leftarrow> copyTensorArrayAttribute flow output;
            let inSeqSize = i32 (ta_arraySize inAttr);
            p \<leftarrow> arr_at (t_host position) 0;
            let insertIndex = p + (if p < 0 then inSeqSize else 0);
            let a1 = a\<lparr>ta_arraySize := u32 (ta_arraySize a + 1)\<rparr>;
            a2 \<leftarrow> (if ta_isIdenticalShape a \<and> ta_elemShape a \<noteq> [] then Some a1
                  else do { shapes \<leftarrow> insert_at insertIndex (tshape value) (ta_elemShape a); Some (a1\<lparr>ta_elemShape := shapes\<rparr>) });
            r \<leftarrow> updateTensorArrayDims (o1\<lparr>t_type := t_type (fst flow)\<rparr>, a2);
            ret r })"

definition TensorArrayEraseComputer :: "Tensor \<Rightarrow> ArrayTensor \<Rightarrow> Tensor \<Rightarrow> ArrayTensor option option" where
  "TensorArrayEraseComputer position flow output =
     (case snd flow of
        None \<Rightarrow> ret_false
      | Some inAttr \<Rightarrow> do {
          (o1, a) \<leftarrow> copyTensorArrayAttribute flow output;
          let inSeqSize = i32 (ta_arraySize a);
          p \<leftarrow> arr_at (t_host position) 0;
          let eraseIndex = p + (if p < 0 then inSeqSize else 0);
          let a1 = a\<lparr>ta_arraySize := u32 (ta_arraySize a - 1)\<rparr>;
          a2 \<leftarrow> (if ta_isIdenticalShape a then Some a1
                else do { shapes \<leftarrow> remove_at eraseIndex (ta_elemShape a); Some (a1\<lparr>ta_elemShape := shapes\<rparr>) });
          r \<leftarrow> updateTensorArrayDims (o1\<lparr>t_type := t_type (fst flow)\<rparr>, a2);
          ret r })"

end
