(* ===== verification/TensorArrayFacts.thy ===== *)
theory TensorArrayFacts
  imports ShapeTensorArray BlockFacts
begin

text \<open>
  Facts on tensor arrays: a growing array refines the list of the shapes of its elements, splitting a
  tensor and concatenating the pieces gives its shape back, and what goes wrong when indices are
  scattered in an order that does not end with the largest one.
\<close>

section \<open>The sequence of shapes\<close>

definition index_tensor :: "int \<Rightarrow> Tensor" where
  "index_tensor p = tensor_of [] MNN_NCHW [p]"

definition elements :: "int list list \<Rightarrow> int" where
  "elements xs = (\<Sum>x \<leftarrow> xs. prod_list x)"

datatype array_op = OpWrite int Tensor | OpInsert int Tensor | OpErase int

text \<open>
  The specification: an array of at most \<open>2 ^ 31 - 1\<close> elements is a list. A write behind the end fills
  the gap with the shape that is written, insertions and erasures count a negative position from the end.
\<close>

fun spec_write :: "int \<Rightarrow> int list \<Rightarrow> int list list \<Rightarrow> int list list option" where
  "spec_write p w xs =
     (if 0 \<le> p \<and> p < 2 ^ 31 - 1
      then Some (if p < int (length xs) then xs[nat p := w] else xs @ replicate (nat p + 1 - length xs) w)
      else None)"

fun spec_insert :: "int \<Rightarrow> int list \<Rightarrow> int list list \<Rightarrow> int list list option" where
  "spec_insert p w xs =
     (if length xs < 2 ^ 31 - 1 then insert_at (if p < 0 then p + int (length xs) else p) w xs else None)"

fun spec_erase :: "int \<Rightarrow> int list list \<Rightarrow> int list list option" where
  "spec_erase p xs = remove_at (if p < 0 then p + int (length xs) else p) xs"

fun spec_step :: "array_op \<Rightarrow> int list list \<Rightarrow> int list list option" where
  "spec_step (OpWrite p v) xs = spec_write p (tshape v) xs"
| "spec_step (OpInsert p v) xs = spec_insert p (tshape v) xs"
| "spec_step (OpErase p) xs = spec_erase p xs"

fun code_step :: "Tensor \<Rightarrow> array_op \<Rightarrow> ArrayTensor \<Rightarrow> ArrayTensor option option" where
  "code_step blank (OpWrite p v) flow = TensorArrayWriteComputer (index_tensor p) v flow blank"
| "code_step blank (OpInsert p v) flow = TensorArrayInsertComputer (index_tensor p) v flow blank"
| "code_step blank (OpErase p) flow = TensorArrayEraseComputer (index_tensor p) flow blank"

fun fits :: "MNN_DATA_FORMAT \<Rightarrow> array_op \<Rightarrow> bool" where
  "fits fmt (OpWrite p v) \<longleftrightarrow> tensor_wf v \<and> t_format v = fmt"
| "fits fmt (OpInsert p v) \<longleftrightarrow> tensor_wf v \<and> t_format v = fmt"
| "fits fmt (OpErase p) \<longleftrightarrow> True"

text \<open>The flowing tensor represents a list of shapes.\<close>

definition array_rep :: "MNN_DATA_FORMAT \<Rightarrow> int list list \<Rightarrow> ArrayTensor \<Rightarrow> bool" where
  "array_rep fmt xs flow \<longleftrightarrow> (\<exists>t a. flow = (t, Some a) \<and> ta_isDynamicSize a \<and> \<not> ta_isIdenticalShape a \<and>
     ta_elemShape a = xs \<and> ta_arraySize a = int (length xs) \<and> length xs < 2 ^ 31 \<and> t_format t = fmt \<and>
     tensor_wf t \<and> tshape t = [if elements xs = 0 then 1 else elements xs] \<and> (\<forall>x \<in> set xs. length x \<le> 9))"

declare put_dims.simps [simp del]

lemma u32_small [simp]: "0 \<le> n \<Longrightarrow> n < 2 ^ 32 \<Longrightarrow> u32 n = n"
  by (simp add: u32_def)

lemma i32_small [simp]: "0 \<le> n \<Longrightarrow> n < 2 ^ 31 \<Longrightarrow> i32 n = n"
  by (simp add: i32_def)

lemma fold_prod: "fold (\<lambda>dim s. s * dim) xs (c :: int) = c * prod_list xs"
  by (induction xs arbitrary: c) (simp_all add: mult.assoc)

lemma copy_attribute [simp]:
  "copyTensorArrayAttribute (t, Some a) dst = Some (dst\<lparr>t_format := t_format t\<rparr>, a)"
  by (cases a) (simp add: copyTensorArrayAttribute_def)

lemma tshape_at_most: "tensor_wf t \<Longrightarrow> length (tshape t) \<le> 9"
  by (simp add: tshape_def tensor_wf_def MNN_MAX_TENSOR_DIM_def)

lemma remove_at_some: "remove_at i xs = Some ys \<Longrightarrow> int (length ys) = int (length xs) - 1 \<and> set ys \<subseteq> set xs"
  using set_take_subset [of "nat i" xs] set_drop_subset [of "Suc (nat i)" xs]
  by (auto simp: remove_at_def split: if_splits)

lemma insert_at_some: "insert_at i x xs = Some ys \<Longrightarrow> length ys = length xs + 1 \<and> set ys \<subseteq> insert x (set xs)"
  using set_take_subset [of "nat i" xs] set_drop_subset [of "nat i" xs]
  by (auto simp: insert_at_def split: if_splits)

lemma array_total_list:
  "ta_arraySize a = int (length (ta_elemShape a)) \<Longrightarrow> length (ta_elemShape a) < 2 ^ 31 \<Longrightarrow>
    array_total a = (if elements (ta_elemShape a) = 0 then 1 else elements (ta_elemShape a))"
  by (simp add: array_total_def fold_prod elements_def Let_def)

lemma put_total:
  assumes "tensor_wf t"
  shows "\<exists>u. put_dims 0 [n, 1, 1, 1] (t\<lparr>t_dimensions := 1\<rparr>) = Some u \<and> tensor_wf u \<and> tshape u = [n] \<and> t_format u = t_format t"
proof -
  let ?t = "t\<lparr>t_dimensions := 1\<rparr>"
  have wf: "tensor_wf ?t" using assms by (simp add: tensor_wf_def MNN_MAX_TENSOR_DIM_def)
  have "length (t_extent t) = 9" using assms by (simp add: tensor_wf_def MNN_MAX_TENSOR_DIM_def)
  then show ?thesis using put_dims_filled [OF wf, of "[n, 1, 1, 1]"] assms
    by (simp add: filled_def tshape_def tensor_wf_def MNN_MAX_TENSOR_DIM_def)
qed

lemma array_rep_update:
  assumes "tensor_wf t" "t_format t = fmt" "ta_isDynamicSize a" "\<not> ta_isIdenticalShape a"
    and "ta_arraySize a = int (length (ta_elemShape a))" "length (ta_elemShape a) < 2 ^ 31"
    and "\<forall>x \<in> set (ta_elemShape a). length x \<le> 9"
  shows "\<exists>r. updateTensorArrayDims (t, a) = Some r \<and> array_rep fmt (ta_elemShape a) r"
proof -
  obtain u where "put_dims 0 [array_total a, 1, 1, 1] (t\<lparr>t_dimensions := 1\<rparr>) = Some u" "tensor_wf u"
      "tshape u = [array_total a]" "t_format u = t_format t"
    using put_total [OF assms(1)] by blast
  then show ?thesis
    using assms array_total_list [OF assms(5,6)] by (simp add: updateTensorArrayDims_def array_rep_def)
qed

lemma array_make:
  assumes "tensor_wf blank"
  shows "\<exists>r. TensorArrayComputer True False None T fmt (index_tensor 0) [blank] = ret [r] \<and> array_rep fmt [] r"
proof -
  have wf: "tensor_wf (setType T blank)" using assms by (simp add: setType_def)
  have "\<exists>r. updateTensorArrayDims ((setType T blank)\<lparr>t_format := fmt\<rparr>, \<lparr>ta_isDynamicSize = True, ta_isIdenticalShape = False,
    ta_arraySize = 0, ta_elemShape = []\<rparr>) = Some r \<and> array_rep fmt [] r"
    using array_rep_update [of "(setType T blank)\<lparr>t_format := fmt\<rparr>" fmt "\<lparr>ta_isDynamicSize = True, ta_isIdenticalShape = False,
      ta_arraySize = 0, ta_elemShape = []\<rparr>"] wf by simp
  then show ?thesis by (auto simp: TensorArrayComputer_def index_tensor_def arr_at_def)
qed

text \<open>Every operation of the code follows the specification.\<close>

lemma write_step:
  assumes rep: "array_rep fmt xs flow" and wf: "tensor_wf blank" and fits: "fits fmt (OpWrite p v)"
    and spec: "spec_write p (tshape v) xs = Some ys"
  shows "\<exists>r. TensorArrayWriteComputer (index_tensor p) v flow blank = ret r \<and> array_rep fmt ys r"
proof -
  obtain t a where flow: "flow = (t, Some a)" and a: "ta_isDynamicSize a" "\<not> ta_isIdenticalShape a"
      "ta_elemShape a = xs" "ta_arraySize a = int (length xs)" "length xs < 2 ^ 31" "t_format t = fmt"
      "\<forall>x \<in> set xs. length x \<le> 9"
    using rep by (auto simp: array_rep_def)
  have p: "0 \<le> p" "p < 2 ^ 31 - 1" and ys: "ys = (if p < int (length xs) then xs[nat p := tshape v]
      else xs @ replicate (nat p + 1 - length xs) (tshape v))"
    using spec by (auto split: if_splits)
  have v: "length (tshape v) \<le> 9" using fits by (simp add: tshape_at_most)
  have shapes: "arr_put (xs @ replicate (nat (p + 1) - length xs) (tshape v)) p (tshape v) = Some ys"
  proof (cases "p < int (length xs)")
    case True
    then have "nat (p + 1) - length xs = 0" using p by linarith
    then show ?thesis using True p ys by (simp add: arr_put_def)
  next
    case False
    have "nat (p + 1) - length xs = nat p + 1 - length xs" using p by linarith
    then have "(xs @ replicate (nat (p + 1) - length xs) (tshape v))[nat p := tshape v] = ys"
      using False ys by (intro nth_equalityI) (auto simp: nth_append nth_list_update)
    then show ?thesis using False p by (simp add: arr_put_def)
  qed
  let ?a1 = "if int (length xs) \<le> p then a\<lparr>ta_arraySize := p + 1\<rparr> else a"
  let ?a2 = "?a1\<lparr>ta_elemShape := ys\<rparr>"
  have len: "length ys = nat (max (int (length xs)) (p + 1))" using ys p by auto
  have "ta_arraySize ?a2 = int (length ys)" "length ys < 2 ^ 31" using len a p by auto
  moreover have "\<forall>x \<in> set ys. length x \<le> 9" using ys a v set_update_subset_insert [of xs "nat p" "tshape v"] by auto
  ultimately have "\<exists>r. updateTensorArrayDims (blank\<lparr>t_format := fmt, t_type := t_type v\<rparr>, ?a2) = Some r \<and> array_rep fmt ys r"
    using array_rep_update [of "blank\<lparr>t_format := fmt, t_type := t_type v\<rparr>" fmt ?a2] wf a by simp
  then show ?thesis
    using flow a p fits shapes
    by (auto simp: TensorArrayWriteComputer_def write_shape_def index_tensor_def arr_at_def
        array_rep_def Let_def)
qed

lemma insert_step:
  assumes rep: "array_rep fmt xs flow" and wf: "tensor_wf blank" and fits: "fits fmt (OpInsert p v)"
    and spec: "spec_insert p (tshape v) xs = Some ys"
  shows "\<exists>r. TensorArrayInsertComputer (index_tensor p) v flow blank = ret r \<and> array_rep fmt ys r"
proof -
  obtain t a where flow: "flow = (t, Some a)" and a: "ta_isDynamicSize a" "\<not> ta_isIdenticalShape a"
      "ta_elemShape a = xs" "ta_arraySize a = int (length xs)" "length xs < 2 ^ 31" "t_format t = fmt"
      "\<forall>x \<in> set xs. length x \<le> 9"
    using rep by (auto simp: array_rep_def)
  let ?i = "if p < 0 then p + int (length xs) else p"
  have len: "length xs < 2 ^ 31 - 1" and ins: "insert_at ?i (tshape v) xs = Some ys" using spec by (auto split: if_splits)
  have v: "length (tshape v) \<le> 9" using fits by (simp add: tshape_at_most)
  let ?a2 = "a\<lparr>ta_arraySize := int (length xs) + 1, ta_elemShape := ys\<rparr>"
  have ys: "length ys = length xs + 1" "\<forall>x \<in> set ys. length x \<le> 9"
    using insert_at_some [OF ins] v a by auto
  have "\<exists>r. updateTensorArrayDims (blank\<lparr>t_format := fmt, t_type := t_type t\<rparr>, ?a2) = Some r \<and> array_rep fmt ys r"
    using array_rep_update [of "blank\<lparr>t_format := fmt, t_type := t_type t\<rparr>" fmt ?a2] wf a ys len by simp
  then show ?thesis
    using flow a fits ins len
    by (auto simp: TensorArrayInsertComputer_def index_tensor_def arr_at_def Let_def)
qed

lemma erase_step:
  assumes rep: "array_rep fmt xs flow" and wf: "tensor_wf blank" and spec: "spec_erase p xs = Some ys"
  shows "\<exists>r. TensorArrayEraseComputer (index_tensor p) flow blank = ret r \<and> array_rep fmt ys r"
proof -
  obtain t a where flow: "flow = (t, Some a)" and a: "ta_isDynamicSize a" "\<not> ta_isIdenticalShape a"
      "ta_elemShape a = xs" "ta_arraySize a = int (length xs)" "length xs < 2 ^ 31" "t_format t = fmt"
      "\<forall>x \<in> set xs. length x \<le> 9"
    using rep by (auto simp: array_rep_def)
  let ?i = "if p < 0 then p + int (length xs) else p"
  have rem: "remove_at ?i xs = Some ys" using spec by simp
  let ?a2 = "a\<lparr>ta_arraySize := int (length xs) - 1, ta_elemShape := ys\<rparr>"
  have ys: "int (length ys) = int (length xs) - 1" "\<forall>x \<in> set ys. length x \<le> 9"
    using remove_at_some [OF rem] a by auto
  have "\<exists>r. updateTensorArrayDims (blank\<lparr>t_format := fmt, t_type := t_type t\<rparr>, ?a2) = Some r \<and> array_rep fmt ys r"
    using array_rep_update [of "blank\<lparr>t_format := fmt, t_type := t_type t\<rparr>" fmt ?a2] wf a ys by simp
  moreover have "u32 (int (length xs) - 1) = int (length xs) - 1" using ys a by (intro u32_small) auto
  ultimately show ?thesis
    using flow a rem
    by (auto simp: TensorArrayEraseComputer_def index_tensor_def arr_at_def Let_def)
qed

lemma code_step_refines:
  assumes "array_rep fmt xs flow" "tensor_wf blank" "fits fmt op" "spec_step op xs = Some ys"
  shows "\<exists>r. code_step blank op flow = ret r \<and> array_rep fmt ys r"
proof (cases op)
  case (OpWrite p v)
  then show ?thesis using write_step [OF assms(1,2), of p v ys] assms(3,4) by (simp del: spec_write.simps)
next
  case (OpInsert p v)
  then show ?thesis using insert_step [OF assms(1,2), of p v ys] assms(3,4) by (simp del: spec_insert.simps)
next
  case (OpErase p)
  then show ?thesis using erase_step [OF assms(1,2), of p ys] assms(4) by (simp del: spec_erase.simps)
qed

lemma code_run_refines:
  "array_rep fmt xs flow \<Longrightarrow> tensor_wf blank \<Longrightarrow> \<forall>op \<in> set ops. fits fmt op \<Longrightarrow> foldM spec_step ops xs = Some ys \<Longrightarrow>
    \<exists>r. foldC (code_step blank) ops flow = ret r \<and> array_rep fmt ys r"
proof (induction ops arbitrary: xs flow)
  case (Cons op ops)
  obtain zs where zs: "spec_step op xs = Some zs" "foldM spec_step ops zs = Some ys"
    using Cons.prems(4) by (auto split: bind_splits)
  obtain r where r: "code_step blank op flow = ret r" "array_rep fmt zs r"
    using code_step_refines [OF Cons.prems(1,2) _ zs(1)] Cons.prems(3) by auto
  show ?case using Cons.IH [OF r(2) Cons.prems(2) _ zs(2)] Cons.prems(3) r(1) by simp
qed auto

lemma array_read:
  assumes "array_rep fmt xs flow" "tensor_wf blank" "i < length xs"
  shows "\<exists>u. TensorArrayReadComputer (index_tensor (int i)) flow blank = ret u \<and> tshape u = xs ! i"
proof -
  obtain t a where flow: "flow = (t, Some a)" "\<not> ta_isIdenticalShape a" "ta_elemShape a = xs" "\<forall>x \<in> set xs. length x \<le> 9"
    using assms(1) by (auto simp: array_rep_def)
  let ?b = "blank\<lparr>t_type := t_type t, t_dimensions := int (length (xs ! i))\<rparr>"
  have "length (xs ! i) \<le> 9" using flow(4) assms(3) by simp
  moreover from this have "tensor_wf ?b" using assms(2) by (simp add: tensor_wf_def MNN_MAX_TENSOR_DIM_def)
  ultimately obtain u where "put_dims 0 (xs ! i) ?b = Some u" "tshape u = xs ! i"
    using put_dims_shape [of ?b "xs ! i"] by auto
  then show ?thesis
    using flow assms(3)
    by (simp add: TensorArrayReadComputer_def index_tensor_def arr_at_def set_dims_def)
qed


definition demo_ops :: "array_op list" where
  "demo_ops = [OpWrite 0 (tensor_of [2, 3] MNN_NCHW []), OpInsert (-1) (tensor_of [4] MNN_NCHW []), OpErase 0,
     OpWrite 2 (tensor_of [5] MNN_NCHW [])]"


section \<open>Splitting and concatenating\<close>

lemma std_equal_prefix: "length xs \<le> length ys \<Longrightarrow> std_equal xs ys = Some (take (length xs) ys = xs)"
  by (induction xs ys rule: std_equal.induct) auto

lemma concat_join_like:
  assumes "k < length X"
  shows "concat_join (int k) False (X[k := b]) (X[k := a]) = Some (X[k := a + b], True)"
  using assms
  by (simp add: concat_join_def std_equal_prefix arr_at_def arr_put_def nat_add_distrib Let_def)

lemma array_concat_parts:
  assumes elems: "ta_elemShape a = map (\<lambda>l. X[k := l]) ls" and ls: "ls \<noteq> []" and k: "k < length X" "length X \<le> 9"
    and a: "\<not> ta_isIdenticalShape a" "ta_arraySize a \<noteq> 0" and wf: "tensor_wf blank"
  shows "\<exists>u. TensorArrayConcatComputer (int k) False (t, Some a) blank = ret (u, Some a) \<and> tshape u = X[k := sum_list ls]"
proof -
  let ?f = "\<lambda>i outShape. do {
       elemShape \<leftarrow> arr_at (ta_elemShape a) i;
       (out, valid) \<leftarrow> concat_join (int k) False elemShape outShape;
       if valid then ret out else ret_false }"
  have "(\<exists>s. loopC 1 (int (length ls)) ?f (X[k := ls ! 0]) = ret s \<and> s = X[k := sum_list (take (nat (int (length ls))) ls)]) \<or>
      (loopC 1 (int (length ls)) ?f (X[k := ls ! 0]) = ret_false \<and> False)"
  proof (rule loopC_rule)
    show "1 \<le> int (length ls)" using ls by (cases ls) auto
    show "X[k := ls ! 0] = X[k := sum_list (take (nat 1) ls)]" using ls by (cases ls) auto
    fix i s assume i: "1 \<le> i" "i < int (length ls)" and s: "s = X[k := sum_list (take (nat i) ls)]"
    have "arr_at (ta_elemShape a) i = Some (X[k := ls ! nat i])" using i elems by (simp add: arr_at_def nat_less_iff)
    moreover have "sum_list (take (nat i) ls) + ls ! nat i = sum_list (take (nat (i + 1)) ls)"
      using i by (simp add: nat_add_distrib nat_less_iff take_Suc_conv_app_nth)
    ultimately show "(\<exists>u. ?f i s = ret u \<and> u = X[k := sum_list (take (nat (i + 1)) ls)]) \<or> (?f i s = ret_false \<and> False)"
      using concat_join_like [OF k(1), of "ls ! nat i" "sum_list (take (nat i) ls)"] s by simp
  qed
  then have loop: "loopC 1 (int (length ls)) ?f (X[k := ls ! 0]) = ret (X[k := sum_list ls])" by simp
  let ?b = "blank\<lparr>t_format := t_format t, t_type := t_type t, t_dimensions := int (length X)\<rparr>"
  have "tensor_wf ?b" using wf k(2) by (simp add: tensor_wf_def MNN_MAX_TENSOR_DIM_def)
  then obtain u where "put_dims 0 (X[k := sum_list ls]) ?b = Some u" "tshape u = X[k := sum_list ls]"
    using put_dims_shape [of ?b "X[k := sum_list ls]"] k(2) by auto
  moreover have "arr_at (map (\<lambda>l. X[k := l]) ls) 0 = Some (X[k := ls ! 0])" using ls by (simp add: arr_at_def)
  ultimately show ?thesis
    using loop a elems by (simp add: TensorArrayConcatComputer_def andThen_def set_dims_def Let_def)
qed

lemma imod_axis: "0 \<le> k \<Longrightarrow> k < n \<Longrightarrow> imod (k + n) n = Some k" for k n :: int
  by (simp add: imod_def signed_modulo_int_def sgn_if)

lemma elementSize_vector: "elementSize (tensor_of [n] MNN_NCHW c) = Some n"
  by (simp add: elementSize_def usize_def loop_def tlength_def arr_at_def tensor_of_def ht_of_def ht_bytes_def idiv_def
      signed_divide_int_def sgn_if abs_mult)

lemma array_split_parts:
  assumes val: "k < length (tshape value)" "t_dimensions value = int (length (tshape value))" "length (tshape value) \<le> 9"
    and a: "\<not> ta_isIdenticalShape a" "ta_elemShape a = []" and ls: "2 \<le> length ls" "length ls < 2 ^ 31"
    and wf: "tensor_wf blank"
  shows "\<exists>u b. TensorArraySplitComputer (int k) keepdims T value (tensor_of [int (length ls)] MNN_NCHW ls) (t, Some a) blank =
      ret (u, Some b) \<and> ta_elemShape b = map (\<lambda>l. (tshape value)[k := l]) ls \<and> ta_arraySize b = int (length ls) \<and>
      \<not> ta_isIdenticalShape b"
proof -
  let ?X = "tshape value" and ?n = "int (length ls)"
  let ?f = "\<lambda>i shapes. do { e \<leftarrow> split_piece False keepdims ls (int k) (?X ! k) ?X i; Some (shapes @ [e]) }"
  have "\<exists>s. loop 0 ?n ?f [] = Some s \<and> s = map (\<lambda>l. ?X[k := l]) (take (nat ?n) ls)"
  proof (rule loop_rule)
    fix i s assume i: "0 \<le> i" "i < ?n" and s: "s = map (\<lambda>l. ?X[k := l]) (take (nat i) ls)"
    have "split_piece False keepdims ls (int k) (?X ! k) ?X i = Some (?X[k := ls ! nat i])"
      using i val(1) by (simp add: split_piece_def arr_at_def arr_put_def)
    moreover have "take (nat (i + 1)) ls = take (nat i) ls @ [ls ! nat i]"
      using i by (simp add: nat_add_distrib nat_less_iff take_Suc_conv_app_nth)
    ultimately show "\<exists>u. ?f i s = Some u \<and> u = map (\<lambda>l. ?X[k := l]) (take (nat (i + 1)) ls)" using s by simp
  qed simp_all
  then have loop: "loop 0 ?n ?f [] = Some (map (\<lambda>l. ?X[k := l]) ls)" by simp
  let ?b = "a\<lparr>ta_arraySize := ?n, ta_elemShape := map (\<lambda>l. ?X[k := l]) ls\<rparr>"
  have "tensor_wf (setType T (blank\<lparr>t_format := t_format t\<rparr>))" using wf by (simp add: setType_def)
  then obtain u where u: "put_dims 0 [array_total ?b, 1, 1, 1] ((setType T (blank\<lparr>t_format := t_format t\<rparr>))\<lparr>t_dimensions := 1\<rparr>) = Some u"
    using put_total by blast
  have axis: "imod (int k + t_dimensions value) (t_dimensions value) = Some (int k)" using val by (simp add: imod_axis)
  have len: "tlength (tensor_of [?n] MNN_NCHW ls) 0 = Some ?n" by (simp add: tlength_def tensor_of_def arr_at_def)
  have "TensorArraySplitComputer (int k) keepdims T value (tensor_of [?n] MNN_NCHW ls) (t, Some a) blank = ret (u, Some ?b)"
    using axis len loop u a ls val(1) elementSize_vector [of ?n ls]
    by (simp add: TensorArraySplitComputer_def updateTensorArrayDims_def arr_at_def Let_def)
  then show ?thesis using a by auto
qed

text \<open>
  C29: splitting a tensor into an empty tensor array, whose elements are not declared to have identical shapes, at two or more lengths
  that add up to its extent, and
  concatenating the array along the same axis, gives the shape of the tensor back.
\<close>

theorem array_split_concat_roundtrip:
  assumes "tensor_wf value" "tensor_wf blank" "tensor_wf output" "k < length (tshape value)"
    and "snd start = Some a" "\<not> ta_isIdenticalShape a" "ta_elemShape a = []"
    and "2 \<le> length ls" "length ls < 2 ^ 31" "sum_list ls = tshape value ! k"
  shows "\<exists>flow u b. TensorArraySplitComputer (int k) keepdims T value (tensor_of [int (length ls)] MNN_NCHW ls) start blank = ret flow \<and>
    TensorArrayConcatComputer (int k) False flow output = ret (u, Some b) \<and> tshape u = tshape value \<and>
    ta_arraySize b = int (length ls)"
proof -
  have n: "t_dimensions value = int (length (tshape value))" "length (tshape value) \<le> 9"
    using assms(1) tshape_length [OF assms(1)] tshape_at_most [OF assms(1)] by (simp_all add: tensor_wf_def)
  obtain t where start: "start = (t, Some a)" using assms(5) by (cases start) auto
  obtain u b where split: "TensorArraySplitComputer (int k) keepdims T value (tensor_of [int (length ls)] MNN_NCHW ls) (t, Some a) blank = ret (u, Some b)"
      "ta_elemShape b = map (\<lambda>l. (tshape value)[k := l]) ls" "ta_arraySize b = int (length ls)" "\<not> ta_isIdenticalShape b"
    using array_split_parts [OF assms(4) n assms(6,7,8,9,2)] by blast
  have "ls \<noteq> []" "ta_arraySize b \<noteq> 0" using assms(8) split(3) by auto
  then obtain v where "TensorArrayConcatComputer (int k) False (u, Some b) output = ret (v, Some b)"
      "tshape v = (tshape value)[k := sum_list ls]"
    using array_concat_parts [OF split(2) _ assms(4) n(2) split(4) _ assms(3)] by blast
  then show ?thesis using split start assms(10) by auto
qed

definition empty_array :: ArrayTensor where
  "empty_array = (tensor_of [] MNN_NCHW [], Some \<lparr>ta_isDynamicSize = False, ta_isIdenticalShape = False,
     ta_arraySize = 0, ta_elemShape = []\<rparr>)"

theorem array_split_concat_roundtrip_witness:
  "\<exists>flow u b. TensorArraySplitComputer 1 False DT_FLOAT (tensor_of [2, 7, 3] MNN_NCHW []) (tensor_of [3] MNN_NCHW [4, 1, 2])
      empty_array (tensor_of [] MNN_NCHW []) = ret flow \<and>
    TensorArrayConcatComputer 1 False flow (tensor_of [] MNN_NCHW []) = ret (u, Some b) \<and> tshape u = [2, 7, 3]"
  using array_split_concat_roundtrip [of "tensor_of [2, 7, 3] MNN_NCHW []" "tensor_of [] MNN_NCHW []" "tensor_of [] MNN_NCHW []" 1
      empty_array _ "[4, 1, 2]" False DT_FLOAT]
  by (auto simp: empty_array_def)

section \<open>Scattering\<close>

text \<open>scattering into a growing array at two indices behind its end, the larger one first, leaves the
  array too small: its size is the smaller index plus one, so it does not reach the larger index.
\<close>

theorem scatter_last_index_wins:
  assumes "ta_isDynamicSize a" "0 \<le> ta_arraySize a" "ta_arraySize a \<le> j" "j < i" "i < 2 ^ 31 - 1"
    and "tensor_wf blank" "tshape value \<noteq> []" "t_format value = t_format t"
  shows "\<exists>u b. TensorArrayScatterComputer (tensor_of [2] MNN_NCHW [i, j]) value (t, Some a) blank = ret (u, Some b) \<and>
    ta_arraySize b = j + 1 \<and> ta_arraySize b \<le> i"
proof -
  obtain d w where val: "tshape value = d # w" using assms(7) by (cases "tshape value") auto
  let ?set = "\<lambda>xs. case xs of [] \<Rightarrow> [w] | _ # rest \<Rightarrow> w # rest"
  let ?b = "a\<lparr>ta_arraySize := j + 1, ta_elemShape := ?set (?set (ta_elemShape a))\<rparr>"
  have wf: "tensor_wf (blank\<lparr>t_format := t_format t, t_type := t_type t\<rparr>)" using assms(6) by simp
  obtain u where "put_dims 0 [array_total ?b, 1, 1, 1] (blank\<lparr>t_format := t_format t, t_type := t_type t, t_dimensions := 1\<rparr>) = Some u"
    using put_total [OF wf] by auto
  moreover have "[0 .. 1 :: int] = [0, 1]" by (simp add: upto_rec1)
  moreover have "tlength (tensor_of [2] MNN_NCHW [i, j]) 0 = Some 2" by (simp add: tlength_def tensor_of_def arr_at_def)
  ultimately have "TensorArrayScatterComputer (tensor_of [2] MNN_NCHW [i, j]) value (t, Some a) blank = ret (u, Some ?b)"
    using assms val by (simp add: TensorArrayScatterComputer_def updateTensorArrayDims_def loop_def arr_at_def)
  then show ?thesis using assms by auto
qed

theorem scatter_last_index_wins_witness:
  "\<exists>u b. TensorArrayScatterComputer (tensor_of [2] MNN_NCHW [5, 3]) (tensor_of [2, 4] MNN_NCHW [])
      (tensor_of [] MNN_NCHW [], Some \<lparr>ta_isDynamicSize = True, ta_isIdenticalShape = True, ta_arraySize = 0, ta_elemShape = []\<rparr>)
      (tensor_of [] MNN_NCHW []) = ret (u, Some b) \<and> ta_arraySize b = 4"
  using scatter_last_index_wins [of "\<lparr>ta_isDynamicSize = True, ta_isIdenticalShape = True, ta_arraySize = 0, ta_elemShape = []\<rparr>" 3 5
      "tensor_of [] MNN_NCHW []" "tensor_of [2, 4] MNN_NCHW []" "tensor_of [] MNN_NCHW []"]
  by auto

end
