(* ===== verification/Regions.thy ===== *)
theory Regions
  imports Tensor
begin

text \<open>
  Regions (\<open>source/core/TensorUtils.hpp\<close>, \<open>TensorUtils.cpp\<close>): a virtual tensor is described by regions
  of other tensors; a region is three nested loops that copy \<open>src[\<dots>]\<close> to \<open>dst[\<dots>]\<close> with a stride of
  each side per loop. This theory has the structures, the loops they stand for, the classification of
  regions and the fusion of two regions into one (\<open>FuseRegionStatus\<close>). A tensor is a number here.
\<close>

section \<open>The structures\<close>

record View =
  v_offset :: int
  v_stride :: "int list"

record Region =
  rg_src :: View
  rg_dst :: View
  rg_size :: "int list"
  rg_origin :: "nat option"

definition newView :: View where
  "newView = \<lparr>v_offset = 0, v_stride = [1, 1, 1]\<rparr>"

definition newRegion :: Region where
  "newRegion = \<lparr>rg_src = newView, rg_dst = newView, rg_size = [1, 1, 1], rg_origin = None\<rparr>"

definition region_wf :: "Region \<Rightarrow> bool" where
  "region_wf r \<longleftrightarrow> length (rg_size r) = 3 \<and> length (v_stride (rg_src r)) = 3 \<and> length (v_stride (rg_dst r)) = 3"

definition stride_at :: "View \<Rightarrow> nat \<Rightarrow> int" where
  "stride_at v i = v_stride v ! i"

definition size_at :: "Region \<Rightarrow> nat \<Rightarrow> int" where
  "size_at r i = rg_size r ! i"

text \<open>The loops of \<open>_computeRaw\<close>: the pairs of source and destination index, in the order of the copies.\<close>

definition region_copies :: "Region \<Rightarrow> (int \<times> int) list" where
  "region_copies reg =
     concat (map (\<lambda>z.
       let srcZ = v_offset (rg_src reg) + z * stride_at (rg_src reg) 0;
           dstZ = v_offset (rg_dst reg) + z * stride_at (rg_dst reg) 0
       in concat (map (\<lambda>y.
         let srcY = srcZ + y * stride_at (rg_src reg) 1;
             dstY = dstZ + y * stride_at (rg_dst reg) 1
         in map (\<lambda>x. (srcY + x * stride_at (rg_src reg) 2, dstY + x * stride_at (rg_dst reg) 2))
              [0 .. size_at reg 2 - 1]) [0 .. size_at reg 1 - 1])) [0 .. size_at reg 0 - 1])"

text \<open>Memory is a function from indices; the copies are done one after the other.\<close>

definition blit :: "(int \<times> int) list \<Rightarrow> (int \<Rightarrow> 'a) \<Rightarrow> (int \<Rightarrow> 'a) \<Rightarrow> int \<Rightarrow> 'a" where
  "blit copies src dst = fold (\<lambda>(s, d) m. m(d := src s)) copies dst"

definition computeRaw :: "(int \<Rightarrow> 'a::zero) \<Rightarrow> Region \<Rightarrow> int \<Rightarrow> 'a" where
  "computeRaw src reg = blit (region_copies reg) src (\<lambda>_. 0)"

section \<open>Slices of a whole tensor\<close>

definition regionIsFull :: "Tensor \<Rightarrow> Region list \<Rightarrow> bool option" where
  "regionIsFull input regions = do {
     size \<leftarrow> loop 0 (t_dimensions input) (\<lambda>i size. do { l \<leftarrow> tlength input i; Some (size * l) }) 1;
     let regionSize = fold (\<lambda>region n. n + size_at region 1 * size_at region 0 * size_at region 2) regions 0;
     Some (regionSize = size) }"

definition makeFullSlice :: "nat \<Rightarrow> Tensor \<Rightarrow> Region option" where
  "makeFullSlice origin input = do {
     n \<leftarrow> loop 0 (t_dimensions input) (\<lambda>i n. do { l \<leftarrow> tlength input i; Some (n * l) }) 1;
     Some (newRegion\<lparr>rg_origin := Some origin, rg_size := [1, 1, n],
       rg_dst := \<lparr>v_offset = 0, v_stride = [n, n, 1]\<rparr>,
       rg_src := \<lparr>v_offset = 0, v_stride = [n, n, 1]\<rparr>\<rparr>) }"

definition reshapeSlice :: "Region \<Rightarrow> int \<Rightarrow> int \<Rightarrow> int \<Rightarrow> bool \<times> Region" where
  "reshapeSlice slice outside inside axis =
     (if size_at slice 1 = 1 \<and> size_at slice 0 = 1 \<and> size_at slice 2 = outside * inside * axis
      then (let originStride = stride_at (rg_src slice) 2
            in (True, slice\<lparr>rg_size := [outside, axis, inside],
                 rg_dst := (rg_dst slice)\<lparr>v_stride := [inside * axis, inside, stride_at (rg_dst slice) 2]\<rparr>,
                 rg_src := (rg_src slice)\<lparr>v_stride := [originStride * inside * axis, originStride * inside, originStride]\<rparr>\<rparr>))
      else if size_at slice 0 = outside \<and> size_at slice 1 = axis \<and> size_at slice 2 = inside then (True, slice)
      else (False, slice))"

section \<open>Kinds of regions\<close>

definition isCopyRegion :: "Region \<Rightarrow> bool" where
  "isCopyRegion region \<longleftrightarrow>
     (\<forall>i \<in> {0, 1, 2}. stride_at (rg_src region) i = stride_at (rg_dst region) i \<or> size_at region i \<le> 1)"

definition isTransposeRegion :: "Region \<Rightarrow> bool" where
  "isTransposeRegion region =
     (case foldC (\<lambda>i (srcOne, dstOne).
          if stride_at (rg_src region) i = 1 \<and> size_at region i \<noteq> 1 \<and> srcOne \<ge> 0 then ret_false
          else (let srcOne = (if stride_at (rg_src region) i = 1 \<and> size_at region i \<noteq> 1 then int i else srcOne)
            in if stride_at (rg_dst region) i = 1 \<and> size_at region i \<noteq> 1 \<and> dstOne \<ge> 0 then ret_false
            else ret (srcOne, if stride_at (rg_dst region) i = 1 \<and> size_at region i \<noteq> 1 then int i else dstOne)))
        [0, 1, 2] (- 1, - 1 :: int) of
        Some (Some (srcOne, dstOne)) \<Rightarrow> srcOne \<ge> 0 \<and> dstOne \<ge> 0 \<and> srcOne \<noteq> dstOne
      | _ \<Rightarrow> False)"

definition isTileRegion :: "Region \<Rightarrow> bool" where
  "isTileRegion region \<longleftrightarrow>
     (\<forall>i \<in> {0, 1, 2}. stride_at (rg_src region) i \<noteq> 0 \<and> size_at region i > 1 \<longrightarrow>
        stride_at (rg_src region) i = stride_at (rg_dst region) i)"

definition isDepthToSpaceRegions :: "Tensor \<Rightarrow> Tensor \<Rightarrow> Region list \<Rightarrow> bool option" where
  \<comment> \<open>\<open>input\<close> is the tensor all regions come from, when they come from one\<close>
  "isDepthToSpaceRegions input output regions =
     (if regions = [] then Some False
      else if \<not> (\<forall>region \<in> set regions. rg_origin region = rg_origin (regions ! 0)) then Some False
      else do {
        ic \<leftarrow> tchannel input; ih \<leftarrow> theight input; iw \<leftarrow> twidth input;
        oc \<leftarrow> tchannel output; oh \<leftarrow> theight output; ow \<leftarrow> twidth output;
        if ic * ih * iw \<noteq> oc * oh * ow then Some False
        else do {
          hblock \<leftarrow> idiv oh ih;
          wblock \<leftarrow> idiv ow iw;
          Some (hblock = wblock \<and> hblock * wblock * oc = ic \<and> int (length regions) = hblock * wblock) } })"

end
