(* ===== verification/RegionFuse.thy ===== *)
theory RegionFuse
  imports Regions
begin

text \<open>
  The fusion of two regions (\<open>TensorUtils::FuseRegionStatus\<close> in \<open>source/core/TensorUtils.cpp\<close>): the
  first region writes a middle tensor, the second one reads it; \<open>match\<close> decides whether one region
  can do both copies and \<open>apply\<close> rewrites the second one. The arrays of the status that hold \<open>num\<close>
  valid entries are lists of that length; an entry that is read before it was written makes the
  result \<open>None\<close>.
\<close>

section \<open>Expanding an axis\<close>

definition insert_list :: "nat \<Rightarrow> 'a \<Rightarrow> 'a list \<Rightarrow> 'a list" where
  "insert_list i y x = take i x @ y # drop i x"

text \<open>The loop over \<open>i = num - 1, \<dots>, 0\<close>; \<open>None\<close> is \<open>return false\<close>.\<close>

fun expand_at :: "nat \<Rightarrow> int list \<Rightarrow> int list \<Rightarrow> int list \<Rightarrow> int \<Rightarrow> (int list \<times> int list \<times> int list) option" where
  "expand_at 0 src dst sz expandValue = None"
| "expand_at (Suc i) src dst sz expandValue = (
     let splitSize = expandValue sdiv (src ! i)
     in if expandValue smod (src ! i) = 0 \<and> (sz ! i) smod splitSize = 0
        then (if length src \<ge> 3 then None
              else Some (insert_list i expandValue src, insert_list i (splitSize * dst ! i) dst,
                         insert_list (i + 1) splitSize (sz[i := (sz ! i) sdiv splitSize])))
        else expand_at i src dst sz expandValue)"

definition expandStrideSize :: "int list \<Rightarrow> int list \<Rightarrow> int list \<Rightarrow> int \<Rightarrow> (int list \<times> int list \<times> int list) option" where
  "expandStrideSize src dst sz expandValue = expand_at (length src) src dst sz expandValue"

section \<open>Offsets and clipping\<close>

definition offsetCompute :: "Region \<Rightarrow> int \<Rightarrow> int \<Rightarrow> bool \<Rightarrow> int option" where
  "offsetCompute reg srcOffset dstOffset backward = (
     let src = (if backward then rg_dst reg else rg_src reg);
         dst = (if backward then rg_src reg else rg_dst reg)
     in do {
       (res, s, d) \<leftarrow> foldM (\<lambda>i (res, srcOffset, dstOffset).
           if size_at reg i > 1 then do {
             a \<leftarrow> idiv srcOffset (stride_at src i);
             b \<leftarrow> idiv dstOffset (stride_at src i);
             srcOffset \<leftarrow> imod srcOffset (stride_at src i);
             dstOffset \<leftarrow> imod dstOffset (stride_at src i);
             Some (res + (a - b) * stride_at dst i, srcOffset, dstOffset) }
           else Some (res, srcOffset, dstOffset)) [0, 1, 2] (0, srcOffset, dstOffset);
       Some res })"

definition clip_order :: "int list \<Rightarrow> nat list" where
  \<comment> \<open>\<open>validIndex\<close>: the axes sorted by stride, the largest first\<close>
  "clip_order stride = (
     let n = length stride
     in if n = 2 then (if stride ! 0 < stride ! 1 then [1, 0] else [0, 1])
        else if n > 2 then (
          let maxi = fold (\<lambda>i m. if stride ! i > stride ! m then i else m) [1 ..< n] 0;
              mini = fold (\<lambda>i m. if stride ! i < stride ! m then i else m) [1 ..< n] 0;
              mid = (case filter (\<lambda>i. i \<noteq> maxi \<and> i \<noteq> mini) [0 ..< n] of [] \<Rightarrow> 1 | i # _ \<Rightarrow> i)
          in [maxi, mid, mini])
        else [0 ..< n])"

definition clip_range ::
  "int list \<Rightarrow> int \<Rightarrow> int \<Rightarrow> int list \<Rightarrow> int list \<Rightarrow> (int list \<times> int list) option option" where
  \<comment> \<open>\<open>_ClipDst\<close> up to the ranges \<open>(dstMax, dstMin)\<close>\<close>
  "clip_range stride srcOffset dstOffset srcSize dstSize = (
     let n = length stride
     in if n = 0 then (if dstOffset - srcOffset = 0 then ret ([], []) else ret_false)
     else do {
       (os, s, d) \<leftarrow> foldM (\<lambda>i (os, srcOffset, dstOffset). do {
           xs \<leftarrow> idiv srcOffset (stride ! i);
           xd \<leftarrow> idiv dstOffset (stride ! i);
           srcOffset \<leftarrow> imod srcOffset (stride ! i);
           dstOffset \<leftarrow> imod dstOffset (stride ! i);
           Some (os[i := xd - xs], srcOffset, dstOffset) }) (clip_order stride) (replicate n 0, srcOffset, dstOffset);
       if s \<noteq> 0 \<or> d \<noteq> 0 then ret_false
       else ret (map (\<lambda>i. ALIMIN (srcSize ! i - os ! i) (dstSize ! i)) [0 ..< n],
                 map (\<lambda>i. ALIMAX 0 (- (os ! i))) [0 ..< n]) })"

definition clip_srcMin :: "int list \<Rightarrow> int list \<Rightarrow> int list \<Rightarrow> int" where
  "clip_srcMin stride srcSize dstMax =
     fold (\<lambda>i m. if dstMax ! i < srcSize ! i then (if m = - 1 then stride ! i else ALIMIN (stride ! i) m) else m)
       [0 ..< length stride] (- 1)"

definition needs_new_region ::
  "int list \<Rightarrow> int \<Rightarrow> int \<Rightarrow> int list \<Rightarrow> int list \<Rightarrow> int list \<Rightarrow> nat \<Rightarrow> nat \<Rightarrow> bool option" where
  \<comment> \<open>the clipped rest behind axis \<open>i\<close> of the destination and axis \<open>k\<close> of the source is not empty\<close>
  "needs_new_region stride srcOffset dstOffset srcSize dstSize dstMax i k = do {
     r \<leftarrow> clip_range stride (srcOffset + dstMax ! k * stride ! k) (dstOffset + dstMax ! i * stride ! i)
            (srcSize[k := srcSize ! k - dstMax ! k]) (dstSize[i := dstSize ! i - dstMax ! i]);
     Some (case r of None \<Rightarrow> False
       | Some (mx, mn) \<Rightarrow> list_all (\<lambda>j. mx ! j > mn ! j) [0 ..< length stride]) }"

definition ClipDst ::
  "int list \<Rightarrow> int \<Rightarrow> int \<Rightarrow> int list \<Rightarrow> int list \<Rightarrow> (int list \<times> int list) option option" where
  "ClipDst stride srcOffset dstOffset srcSize dstSize = (
     let n = length stride
     in andThen (clip_range stride srcOffset dstOffset srcSize dstSize) (\<lambda>(dstMax, dstMin).
       let srcMax = sum_list (map2 (*) srcSize stride);
           srcMin = clip_srcMin stride srcSize dstMax
       in if n = 0 \<or> srcMin < 0 then ret (dstMax, dstMin)
       else andThen
         (foldC (\<lambda>i u.
            let bias = (dstOffset - srcOffset) + dstMax ! i * stride ! i
            in if dstMax ! i = dstSize ! i \<or> \<not> (bias < srcMax \<and> bias \<ge> srcMin) then ret u
            else foldC (\<lambda>k u.
              if dstMax ! k < srcSize ! k then do {
                new \<leftarrow> needs_new_region stride srcOffset dstOffset srcSize dstSize dstMax i k;
                if new then ret_false else ret u }
              else ret u) [0 ..< n] u) [0 ..< n] ())
         (\<lambda>_. ret (dstMax, dstMin))))"

section \<open>Matching\<close>

record FuseCompute =
  fc_dstSize :: "int list"
  fc_dstMax :: "int list"
  fc_dstMin :: "int list"
  fc_newSrc :: "int list"
  fc_dstDst :: "int list"
  fc_newSrcOffset :: int
  fc_newDstOffset :: int
  fc_sizeNum :: nat
  fc_head :: int  \<comment> \<open>\<open>dstSize[0]\<close>, also when no axis is active\<close>

datatype FuseStatus = FUSE_SRC_COPY | FUSE_REGION_COMPUTE FuseCompute

definition strides_positive :: "Region \<Rightarrow> bool" where
  "strides_positive reg \<longleftrightarrow>
     list_all (\<lambda>i. size_at reg i > 1 \<longrightarrow> stride_at (rg_src reg) i > 0 \<and> stride_at (rg_dst reg) i > 0) [0, 1, 2]"

definition view_end :: "View \<Rightarrow> int list \<Rightarrow> int" where
  \<comment> \<open>\<open>offset + \<Sigma> stride[i] * (size[i] - 1)\<close>\<close>
  "view_end v sz = fold (\<lambda>i m. m + v_stride v ! i * (sz ! i - 1)) [0, 1, 2] (v_offset v)"

definition total_size :: "Region \<Rightarrow> int" where
  "total_size reg = fold (\<lambda>i n. if size_at reg i > 1 then n * size_at reg i else n) [0, 1, 2] 1"

definition copyValid :: "Region \<Rightarrow> Region \<Rightarrow> bool" where
  "copyValid srcReg dstReg \<longleftrightarrow>
     \<not> (v_offset (rg_dst srcReg) > v_offset (rg_src dstReg) \<or>
        stride_at (rg_dst srcReg) 1 > size_at srcReg 2 \<or>
        stride_at (rg_dst srcReg) 2 > size_at srcReg 1 * size_at srcReg 2) \<and>
     \<not> total_size dstReg > total_size srcReg \<and>
     \<not> (v_offset (rg_dst srcReg) > v_offset (rg_src dstReg) \<or>
        view_end (rg_dst srcReg) (rg_size srcReg) < view_end (rg_src dstReg) (rg_size dstReg))"

definition pad3 :: "int list \<Rightarrow> int list" where
  "pad3 xs = xs @ replicate (3 - length xs) (- 1)"

definition stride_extra :: "int list \<Rightarrow> int list \<Rightarrow> int option" where
  \<comment> \<open>\<open>MNN_3_INT_DIFF\<close> for the three indices; \<open>None\<close> is \<open>return false\<close>\<close>
  "stride_extra xs ys =
     foldM (\<lambda>x r. if x \<notin> set ys then (if r > 0 then None else Some x) else Some r) xs (- 1)"

definition active_axes :: "Region \<Rightarrow> nat list" where
  "active_axes reg = filter (\<lambda>i. size_at reg i > 1) [0, 1, 2]"

definition align_axes :: "int list \<Rightarrow> int list \<Rightarrow> int list \<Rightarrow> int list \<Rightarrow> (int option list \<times> int option list) option" where
  \<comment> \<open>\<open>newSrc\<close> and \<open>newSrcSize\<close>; \<open>None\<close> is \<open>return false\<close>\<close>
  "align_axes srcDst srcSrc srcSize dstSrc =
     foldM (\<lambda>i (newSrc, newSrcSize).
       (case filter (\<lambda>j. dstSrc ! j = srcDst ! i) [0 ..< length dstSrc] of
          [] \<Rightarrow> None
        | index # _ \<Rightarrow> Some (newSrc[index := Some (srcSrc ! i)], newSrcSize[index := Some (srcSize ! i)])))
       [0 ..< length srcDst] (replicate (length dstSrc) None, replicate (length dstSrc) None)"

definition fuse_finish ::
  "int \<Rightarrow> Region \<Rightarrow> Region \<Rightarrow> nat \<Rightarrow> int list \<Rightarrow> int list \<Rightarrow> int list \<Rightarrow> int list \<Rightarrow> int list \<Rightarrow> FuseStatus option option" where
  \<comment> \<open>from the aligned axes to the status; \<open>stale\<close> is the \<open>dstSize[0]\<close> of the match before\<close>
  "fuse_finish stale srcReg dstReg sizeNum dstSrc dstDst dstSize newSrc newSrcSize = do {
     off \<leftarrow> offsetCompute srcReg (v_offset (rg_src dstReg)) (v_offset (rg_dst srcReg)) True;
     let newSrcOffset = off + v_offset (rg_src srcReg);
     andThen (ClipDst dstSrc (v_offset (rg_dst srcReg)) (v_offset (rg_src dstReg)) newSrcSize dstSize)
       (\<lambda>(dstMax, dstMin).
          let (empty, newDst, newSrcO) =
            fold (\<lambda>i (empty, d, s).
               if empty then (empty, d, s)
               else if dstMax ! i \<le> dstMin ! i then (True, d, s)
               else if dstMin ! i > 0 then (False, d + dstMin ! i * dstDst ! i, s + dstMin ! i * newSrc ! i)
               else (False, d, s)) [0 ..< length dstSrc] (False, v_offset (rg_dst dstReg), newSrcOffset)
          in ret (FUSE_REGION_COMPUTE
            \<lparr>fc_dstSize = (if empty then replicate (length dstSize) 0 else dstSize),
             fc_dstMax = dstMax, fc_dstMin = dstMin, fc_newSrc = newSrc, fc_dstDst = dstDst,
             fc_newSrcOffset = newSrcO, fc_newDstOffset = newDst, fc_sizeNum = sizeNum,
             fc_head = (if dstSize = [] then stale else if empty then 0 else dstSize ! 0)\<rparr>)) }"

definition fuse_match :: "int \<Rightarrow> Region \<Rightarrow> Region \<Rightarrow> FuseStatus option option" where
  "fuse_match stale srcReg dstReg =
     (if \<not> strides_positive srcReg \<or> \<not> strides_positive dstReg then ret_false
      else if isCopyRegion srcReg \<and> copyValid srcReg dstReg then ret FUSE_SRC_COPY
      else (
        let srcDst = map (stride_at (rg_dst srcReg)) (active_axes srcReg);
            srcSrc = map (stride_at (rg_src srcReg)) (active_axes srcReg);
            srcSize = map (size_at srcReg) (active_axes srcReg);
            dstSrc = map (stride_at (rg_src dstReg)) (active_axes dstReg);
            dstDst = map (stride_at (rg_dst dstReg)) (active_axes dstReg);
            dstSize = map (size_at dstReg) (active_axes dstReg)
        in case (stride_extra (pad3 srcDst) (pad3 dstSrc), stride_extra (pad3 dstSrc) (pad3 srcDst)) of
          (Some srcExtra, Some dstExtra) \<Rightarrow>
            (case (if dstExtra > 0 then expandStrideSize srcDst srcSrc srcSize dstExtra else Some (srcDst, srcSrc, srcSize),
                   if srcExtra > 0 then expandStrideSize dstSrc dstDst dstSize srcExtra else Some (dstSrc, dstDst, dstSize)) of
               (Some (srcDst, srcSrc, srcSize), Some (dstSrc, dstDst, dstSize)) \<Rightarrow>
                 (case align_axes srcDst srcSrc srcSize dstSrc of
                    None \<Rightarrow> ret_false
                  | Some (newSrc, newSrcSize) \<Rightarrow>
                      if None \<in> set newSrcSize then None
                      else fuse_finish stale srcReg dstReg (length (active_axes dstReg)) dstSrc dstDst dstSize
                             (map the newSrc) (map the newSrcSize))
             | _ \<Rightarrow> ret_false)
        | _ \<Rightarrow> ret_false))"

section \<open>Applying\<close>

definition fuse_slots :: "FuseCompute \<Rightarrow> nat list" where
  \<comment> \<open>the indices \<open>i\<close> with \<open>valid[i] > 0 || i == expandIdx\<close>\<close>
  "fuse_slots fc = (
     let dstNum = length (fc_dstSize fc);
         expandIdx = (if dstNum > fc_sizeNum fc
           then find (\<lambda>i. fc_dstSize fc ! i = 1) [0 ..< dstNum] else None)
     in filter (\<lambda>i. fc_dstSize fc ! i > 1 \<or> Some i = expandIdx) [0 ..< dstNum])"

definition place3 :: "nat \<Rightarrow> (nat \<times> int) list \<Rightarrow> int list" where
  "place3 offset entries = fold (\<lambda>(i, v) xs. xs[i + offset := v]) entries [0, 0, 0]"

definition fuse_apply :: "FuseStatus \<Rightarrow> Region \<Rightarrow> Region \<Rightarrow> Region" where
  "fuse_apply status srcReg dstReg =
     (case status of
        FUSE_SRC_COPY \<Rightarrow>
          dstReg\<lparr>rg_origin := rg_origin srcReg,
            rg_src := (rg_src dstReg)\<lparr>v_offset := v_offset (rg_src dstReg)
              + (v_offset (rg_src srcReg) - v_offset (rg_dst srcReg))\<rparr>\<rparr>
      | FUSE_REGION_COMPUTE fc \<Rightarrow> (
          let dstNum = length (fc_dstSize fc);
              offset = 3 - dstNum
          in if fc_head fc = 0
             then dstReg\<lparr>rg_size := (rg_size dstReg)[0 := 0], rg_origin := None\<rparr>
             else dstReg\<lparr>
               rg_size := replicate offset 1 @ map (\<lambda>i. fc_dstMax fc ! i - fc_dstMin fc ! i) [0 ..< dstNum],
               rg_origin := rg_origin srcReg,
               rg_src := \<lparr>v_offset = fc_newSrcOffset fc, v_stride = place3 offset (zip (fuse_slots fc) (fc_newSrc fc))\<rparr>,
               rg_dst := \<lparr>v_offset = fc_newDstOffset fc, v_stride = place3 offset (zip (fuse_slots fc) (fc_dstDst fc))\<rparr>\<rparr>))"

end
