(* ===== verification/RegionAlgebra.thy ===== *)
theory RegionAlgebra
  imports Regions "HOL-Library.Multiset"
begin

text \<open>
  The copies of nested loops as an algebra of axes: an axis is a number of iterations with a stride in
  the source and one in the destination. Axes of one iteration vanish, an axis splits into two nested
  ones, and the order of the axes does not matter for the multiset of copies.
\<close>

type_synonym axis = "int \<times> int \<times> int"

definition shift :: "int \<Rightarrow> int \<Rightarrow> (int \<times> int) list \<Rightarrow> (int \<times> int) list" where
  "shift a b = map (\<lambda>(s, d). (s + a, d + b))"

fun axes_copies :: "axis list \<Rightarrow> (int \<times> int) list" where
  "axes_copies [] = [(0, 0)]"
| "axes_copies ((n, s, d) # axes) = concat (map (\<lambda>c. shift (c * s) (c * d) (axes_copies axes)) [0 .. n - 1])"

named_theorems axes "the algebra of axes"

lemma shift_0 [axes]: "shift 0 0 xs = xs"
  by (simp add: shift_def case_prod_unfold)

lemma shift_shift [axes]: "shift a b (shift c d xs) = shift (a + c) (b + d) xs"
  by (auto simp: shift_def algebra_simps)

lemma shift_append: "shift a b (xs @ ys) = shift a b xs @ shift a b ys"
  by (simp add: shift_def)

lemma shift_concat: "shift a b (concat xss) = concat (map (shift a b) xss)"
  by (induction xss) (simp_all add: shift_append, simp add: shift_def)

lemma mset_shift: "mset (shift a b xs) = image_mset (\<lambda>(s, d). (s + a, d + b)) (mset xs)"
  by (simp add: shift_def)

lemma region_copies_axes:
  "region_copies reg = shift (v_offset (rg_src reg)) (v_offset (rg_dst reg))
     (axes_copies [(size_at reg 0, stride_at (rg_src reg) 0, stride_at (rg_dst reg) 0),
                   (size_at reg 1, stride_at (rg_src reg) 1, stride_at (rg_dst reg) 1),
                   (size_at reg 2, stride_at (rg_src reg) 2, stride_at (rg_dst reg) 2)])"
proof -
  have inner: "concat (map (\<lambda>c. shift (c * s) (c * d) [(0, 0)]) [0 .. n - 1]) = map (\<lambda>x. (x * s, x * d)) [0 .. n - 1]"
    for n s d :: int
  proof -
    have "concat (map (\<lambda>c. shift (c * s) (c * d) [(0, 0)]) xs) = map (\<lambda>x. (x * s, x * d)) xs" for xs
      by (induction xs) (simp_all add: shift_def)
    then show ?thesis .
  qed
  show ?thesis
    unfolding region_copies_def axes_copies.simps inner
    by (simp add: shift_concat shift_shift Let_def comp_def, simp add: shift_def comp_def add.commute add.left_commute add.assoc)
qed

section \<open>Axes of one iteration, and no iteration\<close>

lemma axes_unit [axes]: "axes_copies ((1, s, d) # axes) = axes_copies axes"
  by (simp add: shift_0)

lemma axes_none [axes]: "n \<le> 0 \<Longrightarrow> axes_copies ((n, s, d) # axes) = []"
  by simp

section \<open>Splitting an axis\<close>

lemma upto_blocks:
  "0 \<le> m \<Longrightarrow> 0 \<le> k \<Longrightarrow> [0 .. m * k - 1] = concat (map (\<lambda>q. map (\<lambda>r. q * k + r) [0 .. k - 1]) [0 .. m - 1])" for m k :: int
proof (induction "nat m" arbitrary: m)
  case 0
  then show ?case by simp
next
  case (Suc j)
  let ?n = "m - 1"
  have n: "j = nat ?n" "0 \<le> ?n" using Suc.hyps(2) by auto
  have le: "0 \<le> ?n * k" using n Suc.prems(2) by simp
  have "[0 .. m * k - 1] = [0 .. ?n * k - 1] @ [?n * k .. m * k - 1]"
  proof -
    have "?n * k \<le> m * k" using Suc.prems(2) by (simp add: algebra_simps)
    then show ?thesis
      using upto_split1 [of 0 "?n * k" "m * k - 1"] le by (cases "?n * k = m * k") auto
  qed
  moreover have "[?n * k .. m * k - 1] = map (\<lambda>r. ?n * k + r) [0 .. k - 1]"
  proof (rule nth_equalityI)
    show "length [?n * k .. m * k - 1] = length (map (\<lambda>r. ?n * k + r) [0 .. k - 1])" by (simp add: algebra_simps)
    show "[?n * k .. m * k - 1] ! i = map (\<lambda>r. ?n * k + r) [0 .. k - 1] ! i" if "i < length [?n * k .. m * k - 1]" for i
      using that by (simp add: algebra_simps)
  qed
  moreover have "[0 .. m - 1] = [0 .. ?n - 1] @ [?n]" using n by (simp add: upto_rec2)
  ultimately show ?case using Suc.hyps(1) [OF n(1,2) Suc.prems(2)] by simp
qed

lemma axes_split:
  assumes "0 \<le> m" "0 \<le> k"
  shows "axes_copies ((m * k, s, d) # axes) = axes_copies ((m, k * s, k * d) # (k, s, d) # axes)"
proof -
  let ?f = "\<lambda>c. shift (c * s) (c * d) (axes_copies axes)"
  have "concat (map ?f (concat (map (\<lambda>q. map (\<lambda>r. q * k + r) [0 .. k - 1]) qs))) =
      concat (map (\<lambda>q. shift (q * (k * s)) (q * (k * d)) (concat (map ?f [0 .. k - 1]))) qs)" for qs
    by (induction qs) (simp_all add: shift_concat shift_shift comp_def distrib_right mult.assoc)
  then show ?thesis using upto_blocks [OF assms] by simp
qed

lemma axes_context: "axes_copies xs = axes_copies ys \<Longrightarrow> axes_copies (as @ xs) = axes_copies (as @ ys)"
proof (induction as)
  case (Cons a as)
  then show ?case by (cases a) simp
qed simp

section \<open>The order of the axes\<close>

lemma mset_concat_add:
  "mset (concat (map (\<lambda>x. A x @ B x) xs)) = mset (concat (map A xs)) + mset (concat (map B xs))"
  by (induction xs) simp_all

lemma mset_concat_swap:
  "mset (concat (map (\<lambda>x. concat (map (\<lambda>y. g x y) ys)) xs)) = mset (concat (map (\<lambda>y. concat (map (\<lambda>x. g x y) xs)) ys))"
proof (induction xs)
  case Nil
  have "concat (map (\<lambda>y. []) ys) = []" by (induction ys) simp_all
  then show ?case by simp
next
  case (Cons x xs)
  then show ?case using mset_concat_add [of "g x" "\<lambda>y. concat (map (\<lambda>x. g x y) xs)" ys] by simp
qed

lemma axes_swap: "mset (axes_copies (x # y # axes)) = mset (axes_copies (y # x # axes))"
proof -
  obtain n s d m t e where xy: "x = (n, s, d)" "y = (m, t, e)" by (cases x, cases y) auto
  have "shift (c * s) (c * d) (shift (c' * t) (c' * e) zs) = shift (c' * t) (c' * e) (shift (c * s) (c * d) zs)" for c c' zs
    by (simp add: shift_shift add.commute)
  then show ?thesis
    unfolding xy axes_copies.simps shift_concat map_map comp_def
    using mset_concat_swap [of "\<lambda>c c'. shift (c * s) (c * d) (shift (c' * t) (c' * e) (axes_copies axes))" "[0 .. m - 1]" "[0 .. n - 1]"]
    by simp
qed

lemma axes_mset_cons:
  assumes "mset (axes_copies xs) = mset (axes_copies ys)"
  shows "mset (axes_copies (a # xs)) = mset (axes_copies (a # ys))"
proof -
  obtain n s d where a: "a = (n, s, d)" by (cases a) auto
  have "mset (concat (map (\<lambda>c. shift (f c) (g c) (axes_copies xs)) cs)) = mset (concat (map (\<lambda>c. shift (f c) (g c) (axes_copies ys)) cs))"
    for f g cs
    by (induction cs) (simp_all add: mset_shift assms)
  then show ?thesis by (simp add: a)
qed

lemma axes_move: "mset (axes_copies (xs @ a # ys)) = mset (axes_copies (a # xs @ ys))"
proof (induction xs)
  case (Cons x xs)
  then have "mset (axes_copies (x # xs @ a # ys)) = mset (axes_copies (x # a # xs @ ys))" by (rule axes_mset_cons)
  then show ?case using axes_swap [of x a "xs @ ys"] by (simp del: axes_copies.simps)
qed simp

lemma axes_perm: "mset xs = mset ys \<Longrightarrow> mset (axes_copies xs) = mset (axes_copies ys)"
proof (induction xs arbitrary: ys)
  case (Cons a xs)
  then have "a \<in> set ys" by (metis list.set_intros(1) mset_eq_setD)
  then obtain us vs where ys: "ys = us @ a # vs" by (meson split_list)
  then have "mset xs = mset (us @ vs)" using Cons.prems by simp
  then have "mset (axes_copies (a # xs)) = mset (axes_copies (a # us @ vs))" using Cons.IH by (intro axes_mset_cons) blast
  then show ?case using axes_move [of us a vs] ys by (simp del: axes_copies.simps)
qed simp

end
