(* ===== verification/RegionFacts.thy ===== *)
theory RegionFacts
  imports RegionFuse RegionAlgebra
begin

text \<open>
  Facts on regions and their fusion: splitting the axis of a region keeps its copies, taking the source
  of a dense copy region instead of the middle tensor keeps the result, and two inputs on which the
  fused region copies something else.
\<close>

section \<open>Reading what was written\<close>

lemma blit_append: "blit (xs @ ys) src m = blit ys src (blit xs src m)"
  by (simp add: blit_def)

lemma blit_read:
  "\<forall>(a, b) \<in> set cs. a = b + delta \<Longrightarrow> i \<in> snd ` set cs \<Longrightarrow> blit cs src m i = src (i + delta)"
proof (induction cs rule: rev_induct)
  case (snoc c cs)
  obtain a b where c: "c = (a, b)" by (cases c) auto
  show ?case
  proof (cases "i = b")
    case True
    then show ?thesis using snoc.prems(1) c by (simp add: blit_append) (simp add: blit_def)
  next
    case False
    then have "i \<in> snd ` set cs" using snoc.prems(2) c by auto
    then show ?thesis using snoc.IH snoc.prems(1) c False by (simp add: blit_append) (simp add: blit_def)
  qed
qed simp

lemma blit_source_cong: "(\<And>s d. (s, d) \<in> set cs \<Longrightarrow> f s = g s) \<Longrightarrow> blit cs f m = blit cs g m"
  unfolding blit_def by (rule fold_cong) auto

lemma blit_shift_source: "blit (shift k 0 cs) src m = blit cs (\<lambda>s. src (s + k)) m"
  by (induction cs arbitrary: m) (auto simp: blit_def shift_def)

lemma set_region_copies:
  "p \<in> set (region_copies reg) \<longleftrightarrow> (\<exists>z y x. 0 \<le> z \<and> z < size_at reg 0 \<and> 0 \<le> y \<and> y < size_at reg 1 \<and> 0 \<le> x \<and> x < size_at reg 2 \<and>
    p = (v_offset (rg_src reg) + z * stride_at (rg_src reg) 0 + y * stride_at (rg_src reg) 1 + x * stride_at (rg_src reg) 2,
         v_offset (rg_dst reg) + z * stride_at (rg_dst reg) 0 + y * stride_at (rg_dst reg) 1 + x * stride_at (rg_dst reg) 2))"
proof -
  have "set [0 .. n - 1] = {c. 0 \<le> c \<and> c < n}" for n :: int by auto
  then show ?thesis
    unfolding region_copies_def Let_def set_concat set_map image_image
    by (simp only: UN_iff image_iff Bex_def mem_Collect_eq conj_assoc ex_simps)
qed

section \<open>Taking the source of a dense copy\<close>

text \<open>A region that writes a whole block in row-major order.\<close>

definition dense :: "Region \<Rightarrow> bool" where
  "dense reg \<longleftrightarrow> size_at reg 0 > 0 \<and> size_at reg 1 > 0 \<and> size_at reg 2 > 0 \<and>
     v_stride (rg_dst reg) = [size_at reg 1 * size_at reg 2, size_at reg 2, 1]"

lemma copy_region_delta:
  assumes "isCopyRegion reg"
  shows "\<forall>(a, b) \<in> set (region_copies reg). a = b + (v_offset (rg_src reg) - v_offset (rg_dst reg))"
proof -
  have "z * stride_at (rg_src reg) i = z * stride_at (rg_dst reg) i"
    if "i \<in> {0, 1, 2}" "0 \<le> z" "z < size_at reg i" for i z
  proof -
    from assms that(1) have "stride_at (rg_src reg) i = stride_at (rg_dst reg) i \<or> size_at reg i \<le> 1"
      unfolding isCopyRegion_def by blast
    then show ?thesis using that(2,3) by (cases "z = 0") auto
  qed
  note step = this [of 0] this [of 1] this [of 2]
  have "fst p = snd p + (v_offset (rg_src reg) - v_offset (rg_dst reg))" if "p \<in> set (region_copies reg)" for p
  proof -
    obtain z y x where "0 \<le> z" "z < size_at reg 0" "0 \<le> y" "y < size_at reg 1" "0 \<le> x" "x < size_at reg 2"
      "p = (v_offset (rg_src reg) + z * stride_at (rg_src reg) 0 + y * stride_at (rg_src reg) 1 + x * stride_at (rg_src reg) 2,
         v_offset (rg_dst reg) + z * stride_at (rg_dst reg) 0 + y * stride_at (rg_dst reg) 1 + x * stride_at (rg_dst reg) 2)"
      using \<open>p \<in> set (region_copies reg)\<close> unfolding set_region_copies by blast
    then show ?thesis using step(1) [of z] step(2) [of y] step(3) [of x] by simp
  qed
  then show ?thesis by auto
qed

lemma dense_writes:
  assumes "dense reg" "v_offset (rg_dst reg) \<le> i" "i \<le> view_end (rg_dst reg) (rg_size reg)"
  shows "i \<in> snd ` set (region_copies reg)"
proof -
  let ?a = "size_at reg 0" and ?b = "size_at reg 1" and ?c = "size_at reg 2" and ?t = "i - v_offset (rg_dst reg)"
  have pos: "0 < ?a" "0 < ?b" "0 < ?c" and str: "v_stride (rg_dst reg) = [?b * ?c, ?c, 1]"
    using assms(1) by (auto simp: dense_def)
  have t: "0 \<le> ?t" "?t < ?a * (?b * ?c)"
    using assms(2,3) str by (auto simp: view_end_def size_at_def algebra_simps)
  let ?z = "?t div (?b * ?c)" and ?r = "?t mod (?b * ?c)"
  let ?y = "?r div ?c" and ?x = "?r mod ?c"
  have bc: "0 < ?b * ?c" using pos by simp
  have r: "0 \<le> ?r" "?r < ?b * ?c" using bc by simp_all
  have less: "t div m < n" if "0 < m" "t < n * m" for t m n :: int
    using that by (simp add: le_zdiv_iff flip: not_le)
  have z: "0 \<le> ?z" "?z < ?a" using t bc less [OF bc] by (simp_all add: pos_imp_zdiv_nonneg_iff)
  have y: "0 \<le> ?y" "?y < ?b" using r pos less [OF pos(3)] by (simp_all add: pos_imp_zdiv_nonneg_iff)
  have x: "0 \<le> ?x" "?x < ?c" using pos by simp_all
  have "?t = ?z * (?b * ?c) + ?r" by (rule div_mult_mod_eq [symmetric])
  moreover have "?r = ?y * ?c + ?x" by (rule div_mult_mod_eq [symmetric])
  ultimately have "?t = ?z * (?b * ?c) + ?y * ?c + ?x * 1" by linarith
  then have "i = v_offset (rg_dst reg) + ?z * stride_at (rg_dst reg) 0 + ?y * stride_at (rg_dst reg) 1 + ?x * stride_at (rg_dst reg) 2"
    using str by (simp add: stride_at_def)
  moreover have "(v_offset (rg_src reg) + ?z * stride_at (rg_src reg) 0 + ?y * stride_at (rg_src reg) 1 + ?x * stride_at (rg_src reg) 2, i)
      \<in> set (region_copies reg)"
    unfolding set_region_copies using z y x calculation by blast
  ultimately show ?thesis by (metis image_eqI snd_conv)
qed

lemma reads_in_range:
  assumes "strides_positive reg" "(s, d) \<in> set (region_copies reg)"
  shows "v_offset (rg_src reg) \<le> s \<and> s \<le> view_end (rg_src reg) (rg_size reg)"
proof -
  obtain z y x where s: "s = v_offset (rg_src reg) + z * stride_at (rg_src reg) 0 + y * stride_at (rg_src reg) 1 + x * stride_at (rg_src reg) 2"
      and b: "0 \<le> z" "z < size_at reg 0" "0 \<le> y" "y < size_at reg 1" "0 \<le> x" "x < size_at reg 2"
    using assms(2) unfolding set_region_copies by blast
  have step: "0 \<le> c * stride_at (rg_src reg) i \<and> c * stride_at (rg_src reg) i \<le> stride_at (rg_src reg) i * (size_at reg i - 1)"
    if "i \<in> {0, 1, 2}" "0 \<le> c" "c < size_at reg i" for i c
  proof (cases "size_at reg i > 1")
    case True
    then have "stride_at (rg_src reg) i > 0" using assms(1) that(1) by (auto simp: strides_positive_def)
    then show ?thesis using that(2,3) by (simp add: mult.commute)
  next
    case False
    then have "c = 0" "size_at reg i = 1" using that(2,3) by auto
    then show ?thesis by simp
  qed
  show ?thesis using s step [of 0 z] step [of 1 y] step [of 2 x] b
    by (simp add: view_end_def stride_at_def size_at_def)
qed

text \<open>
  C36: when \<open>match\<close> decides to read from the source of a copy region instead of the middle tensor, and
  the copy region writes its block without gaps, the rewritten region gives the same result as the two
  copies one after the other.
\<close>

theorem fuse_src_copy_correct:
  assumes "fuse_match stale srcReg dstReg = ret FUSE_SRC_COPY" "dense srcReg"
  shows "computeRaw src (fuse_apply FUSE_SRC_COPY srcReg dstReg) = computeRaw (computeRaw src srcReg) dstReg"
proof -
  let ?delta = "v_offset (rg_src srcReg) - v_offset (rg_dst srcReg)"
  have cond: "strides_positive dstReg" "isCopyRegion srcReg" "copyValid srcReg dstReg"
  proof -
    show "strides_positive dstReg" using assms(1) by (auto simp: fuse_match_def split: if_splits)
    have "fuse_finish st a b n p q u v w \<noteq> ret FUSE_SRC_COPY" for st a b n p q u v w
      by (auto simp: fuse_finish_def andThen_def Let_def split: bind_splits option.splits prod.splits)
    then have "isCopyRegion srcReg \<and> copyValid srcReg dstReg"
      using assms(1) by (auto simp: fuse_match_def Let_def split: if_splits option.splits)
    then show "isCopyRegion srcReg" "copyValid srcReg dstReg" by auto
  qed
  have read: "computeRaw src srcReg s = src (s + ?delta)" if "(s, d) \<in> set (region_copies dstReg)" for s d
  proof -
    have "v_offset (rg_dst srcReg) \<le> s" "s \<le> view_end (rg_dst srcReg) (rg_size srcReg)"
      using reads_in_range [OF cond(1) that] cond(3) by (auto simp: copyValid_def)
    then show ?thesis
      unfolding computeRaw_def by (rule blit_read [OF copy_region_delta [OF cond(2)] dense_writes [OF assms(2)]])
  qed
  have copies: "region_copies (fuse_apply FUSE_SRC_COPY srcReg dstReg) = shift ?delta 0 (region_copies dstReg)"
    unfolding region_copies_axes shift_shift by (simp add: fuse_apply_def stride_at_def size_at_def add.commute)
  have "computeRaw src (fuse_apply FUSE_SRC_COPY srcReg dstReg) = blit (region_copies dstReg) (\<lambda>s. src (s + ?delta)) (\<lambda>_. 0)"
    unfolding computeRaw_def copies blit_shift_source ..
  also have "\<dots> = computeRaw (computeRaw src srcReg) dstReg"
    unfolding computeRaw_def [of _ dstReg] by (rule blit_source_cong) (rule read [symmetric])
  finally show ?thesis .
qed

definition region_of :: "int \<Rightarrow> int list \<Rightarrow> int \<Rightarrow> int list \<Rightarrow> int list \<Rightarrow> Region" where
  "region_of so ss dso ds sz = \<lparr>rg_src = \<lparr>v_offset = so, v_stride = ss\<rparr>, rg_dst = \<lparr>v_offset = dso, v_stride = ds\<rparr>,
     rg_size = sz, rg_origin = Some 0\<rparr>"

text \<open>A row of four elements, and its second and third element.\<close>

theorem fuse_src_copy_correct_witness:
  "computeRaw (\<lambda>i. i) (fuse_apply FUSE_SRC_COPY (region_of 10 [4, 4, 1] 0 [4, 4, 1] [1, 1, 4]) (region_of 1 [1, 1, 1] 0 [1, 1, 1] [1, 1, 2])) 1 = 12"
proof -
  let ?s = "region_of 10 [4, 4, 1] 0 [4, 4, 1] [1, 1, 4]" and ?d = "region_of 1 [1, 1, 1] 0 [1, 1, 1] [1, 1, 2]"
  have "fuse_match 0 ?s ?d = ret FUSE_SRC_COPY"
    by (simp add: fuse_match_def strides_positive_def isCopyRegion_def copyValid_def region_of_def size_at_def stride_at_def
        total_size_def view_end_def)
  moreover have "dense ?s" by (simp add: dense_def region_of_def size_at_def)
  ultimately have "computeRaw (\<lambda>i. i) (fuse_apply FUSE_SRC_COPY ?s ?d) = computeRaw (computeRaw (\<lambda>i. i) ?s) ?d"
    by (rule fuse_src_copy_correct)
  moreover have "computeRaw (computeRaw (\<lambda>i. i) ?s) ?d 1 = 12"
    by (simp add: computeRaw_def blit_def region_copies_def region_of_def size_at_def stride_at_def upto_rec1)
  ultimately show ?thesis by simp
qed

section \<open>Two fusions that go wrong\<close>

text \<open>
  The check for a block without gaps looks at the strides of the second and third loop against the
  sizes of the inner loops, shifted by one: a copy of every other element passes, and the fused region
  also copies the elements that the middle tensor does not have.
\<close>

lemma fuse_copies_gaps:
  "fuse_match 0 (region_of 0 [1, 1, 2] 0 [1, 1, 2] [1, 1, 4]) (region_of 0 [1, 1, 1] 0 [1, 1, 1] [1, 1, 4]) = ret FUSE_SRC_COPY"
  "computeRaw src (fuse_apply FUSE_SRC_COPY (region_of 0 [1, 1, 2] 0 [1, 1, 2] [1, 1, 4]) (region_of 0 [1, 1, 1] 0 [1, 1, 1] [1, 1, 4])) 1
     = src 1"
  "computeRaw (computeRaw src (region_of 0 [1, 1, 2] 0 [1, 1, 2] [1, 1, 4])) (region_of 0 [1, 1, 1] 0 [1, 1, 1] [1, 1, 4]) 1 = 0"
  by (simp_all add: fuse_match_def strides_positive_def isCopyRegion_def copyValid_def region_of_def size_at_def stride_at_def
      total_size_def view_end_def fuse_apply_def computeRaw_def blit_def region_copies_def upto_rec1)

text \<open>
  \<open>offsetCompute\<close> divides by the strides in the order of the loops. For the transposition of a two by
  two matrix whose outer loop has the smaller destination stride, followed by a region that reads the
  second row, the two copies read the source at 1 and 3, and the fused region at 4 and 6, behind the
  end of the matrix.
\<close>

theorem fuse_offset_unsorted_strides:
  "\<exists>status. fuse_match 0 (region_of 0 [2, 1, 1] 0 [1, 2, 1] [2, 2, 1]) (region_of 2 [1, 1, 1] 0 [1, 1, 1] [1, 1, 2]) = ret status \<and>
    region_copies (fuse_apply status (region_of 0 [2, 1, 1] 0 [1, 2, 1] [2, 2, 1]) (region_of 2 [1, 1, 1] 0 [1, 1, 1] [1, 1, 2]))
      = [(4, 0), (6, 1)] \<and>
    region_copies (region_of 0 [2, 1, 1] 0 [1, 2, 1] [2, 2, 1]) = [(0, 0), (1, 2), (2, 1), (3, 3)]"
proof -
  let ?s = "region_of 0 [2, 1, 1] 0 [1, 2, 1] [2, 2, 1]" and ?d = "region_of 2 [1, 1, 1] 0 [1, 1, 1] [1, 1, 2]"
  let ?fc = "\<lparr>fc_dstSize = [1, 2], fc_dstMax = [1, 2], fc_dstMin = [0, 0], fc_newSrc = [1, 2], fc_dstDst = [2, 1],
    fc_newSrcOffset = 4, fc_newDstOffset = 0, fc_sizeNum = 1, fc_head = 1\<rparr>"
  have "fuse_match 0 ?s ?d = ret (FUSE_REGION_COMPUTE ?fc)" by code_simp
  moreover have "region_copies (fuse_apply (FUSE_REGION_COMPUTE ?fc) ?s ?d) = [(4, 0), (6, 1)]" by code_simp
  moreover have "region_copies ?s = [(0, 0), (1, 2), (2, 1), (3, 3)]" by code_simp
  ultimately show ?thesis by blast
qed

text \<open>
  \<open>apply\<close> takes \<open>dstSize[0] == 0\<close> for an empty region, but for two regions of one element each \<open>match\<close>
  writes no entry of \<open>dstSize\<close>: after a match that was empty, the one element is dropped.
\<close>

lemma fuse_stale_head:
  "\<exists>status. fuse_match 0 (region_of 3 [1, 5, 1] 0 [1, 5, 1] [1, 1, 1]) (region_of 0 [1, 1, 1] 0 [1, 1, 1] [1, 1, 1]) = ret status \<and>
    region_copies (fuse_apply status (region_of 3 [1, 5, 1] 0 [1, 5, 1] [1, 1, 1]) (region_of 0 [1, 1, 1] 0 [1, 1, 1] [1, 1, 1])) = []"
  "\<exists>status. fuse_match 1 (region_of 3 [1, 5, 1] 0 [1, 5, 1] [1, 1, 1]) (region_of 0 [1, 1, 1] 0 [1, 1, 1] [1, 1, 1]) = ret status \<and>
    region_copies (fuse_apply status (region_of 3 [1, 5, 1] 0 [1, 5, 1] [1, 1, 1]) (region_of 0 [1, 1, 1] 0 [1, 1, 1] [1, 1, 1])) = [(3, 0)]"
proof -
  let ?s = "region_of 3 [1, 5, 1] 0 [1, 5, 1] [1, 1, 1]" and ?d = "region_of 0 [1, 1, 1] 0 [1, 1, 1] [1, 1, 1]"
  let ?fc = "\<lambda>h. FUSE_REGION_COMPUTE \<lparr>fc_dstSize = [], fc_dstMax = [], fc_dstMin = [], fc_newSrc = [], fc_dstDst = [],
    fc_newSrcOffset = 3, fc_newDstOffset = 0, fc_sizeNum = 0, fc_head = h\<rparr>"
  have "fuse_match 0 ?s ?d = ret (?fc 0)" "region_copies (fuse_apply (?fc 0) ?s ?d) = []"
    "fuse_match 1 ?s ?d = ret (?fc 1)" "region_copies (fuse_apply (?fc 1) ?s ?d) = [(3, 0)]"
    by code_simp+
  then show "\<exists>status. fuse_match 0 ?s ?d = ret status \<and> region_copies (fuse_apply status ?s ?d) = []"
    "\<exists>status. fuse_match 1 ?s ?d = ret status \<and> region_copies (fuse_apply status ?s ?d) = [(3, 0)]"
    by blast+
qed

section \<open>Expanding an axis keeps the copies\<close>

definition axes_of :: "int list \<Rightarrow> int list \<Rightarrow> int list \<Rightarrow> axis list" where
  "axes_of sz src dst = zip sz (zip src dst)"

lemma split_at: "i < length xs \<Longrightarrow> xs = take i xs @ xs ! i # drop (Suc i) xs"
  by (rule id_take_nth_drop)

lemma axes_of_split:
  assumes "i < length src" "length dst = length src" "length sz = length src"
  shows "axes_of sz src dst = axes_of (take i sz) (take i src) (take i dst) @ (sz ! i, src ! i, dst ! i) #
    axes_of (drop (Suc i) sz) (drop (Suc i) src) (drop (Suc i) dst)"
proof -
  have "zip sz (zip src dst) = take i (zip sz (zip src dst)) @ zip sz (zip src dst) ! i # drop (Suc i) (zip sz (zip src dst))"
    using assms by (intro split_at) simp
  then show ?thesis using assms by (simp add: axes_of_def take_zip drop_zip)
qed

lemma axes_of_insert:
  assumes "i < length src" "length dst = length src" "length sz = length src"
  shows "axes_of (insert_list (i + 1) k (sz[i := m])) (insert_list i e src) (insert_list i f dst) =
    axes_of (take i sz) (take i src) (take i dst) @ (m, e, f) # (k, src ! i, dst ! i) #
    axes_of (drop (Suc i) sz) (drop (Suc i) src) (drop (Suc i) dst)"
proof -
  have sz: "insert_list (i + 1) k (sz[i := m]) = take i sz @ m # k # drop (Suc i) sz"
    using assms by (simp add: insert_list_def take_Suc_conv_app_nth)
  have "insert_list i e src = take i src @ e # src ! i # drop (Suc i) src"
    "insert_list i f dst = take i dst @ f # dst ! i # drop (Suc i) dst"
    using assms by (simp_all add: insert_list_def Cons_nth_drop_Suc)
  then show ?thesis unfolding sz using assms by (simp add: axes_of_def)
qed

lemma sdiv_smod_exact:
  fixes a b :: int
  assumes "0 < b" "0 \<le> a" "a smod b = 0"
  shows "0 \<le> a sdiv b" "a = (a sdiv b) * b"
proof -
  have d: "a sdiv b = a div b" "a smod b = a mod b"
    using assms(1,2) by (auto simp: signed_divide_int_def signed_modulo_int_def sgn_if)
  show "0 \<le> a sdiv b" using assms(1,2) by (simp add: d pos_imp_zdiv_nonneg_iff)
  show "a = (a sdiv b) * b" using div_mult_mod_eq [of a b] assms(3) unfolding d by linarith
qed

lemma expand_at_copies:
  "expand_at i src dst sz ev = Some (src', dst', sz') \<Longrightarrow> i \<le> length src \<Longrightarrow> length dst = length src \<Longrightarrow> length sz = length src \<Longrightarrow>
    \<forall>s \<in> set src. 0 < s \<Longrightarrow> \<forall>n \<in> set sz. 0 < n \<Longrightarrow> 0 < ev \<Longrightarrow>
    axes_copies (axes_of sz' src' dst') = axes_copies (axes_of sz src dst)"
proof (induction i)
  case (Suc i)
  let ?s = "src ! i" and ?n = "sz ! i"
  let ?k = "ev sdiv ?s"
  have pos: "0 < ?s" "0 < ?n" using Suc.prems by auto
  show ?case
  proof (cases "ev smod ?s = 0 \<and> ?n smod ?k = 0")
    case True
    note k = sdiv_smod_exact [OF pos(1) less_imp_le [OF Suc.prems(7)] conjunct1 [OF True]]
    have "?k \<noteq> 0"
    proof
      assume "?k = 0"
      then have "?k * ?s = 0" by simp
      then show False using k(2) Suc.prems(7) by linarith
    qed
    then have "0 < ?k" using k(1) by linarith
    note m = sdiv_smod_exact [OF this less_imp_le [OF pos(2)] conjunct2 [OF True]]
    have new: "src' = insert_list i ev src" "dst' = insert_list i (?k * dst ! i) dst"
        "sz' = insert_list (i + 1) ?k (sz[i := ?n sdiv ?k])"
      using Suc.prems(1) True by (auto simp: Let_def split: if_splits)
    have "axes_copies ((?n, ?s, dst ! i) # rest) = axes_copies ((?n sdiv ?k, ev, ?k * dst ! i) # (?k, ?s, dst ! i) # rest)" for rest
      using axes_split [OF m(1) k(1), of ?s "dst ! i" rest] unfolding m(2) [symmetric] k(2) [symmetric] .
    note eq = this [symmetric]
    have i: "i < length src" using Suc.prems(2) by simp
    show ?thesis
      unfolding new axes_of_insert [OF i Suc.prems(3,4)]
      by (subst axes_of_split [OF i Suc.prems(3,4)]) (rule axes_context, rule eq)
  next
    case False
    then show ?thesis using Suc by (auto simp: Let_def)
  qed
qed simp

text \<open>expanding an axis splits it into two nested loops and keeps every copy, in the same order.
\<close>

theorem expand_keeps_copies:
  assumes "expandStrideSize src dst sz ev = Some (src', dst', sz')" "length dst = length src" "length sz = length src"
    and "\<forall>s \<in> set src. 0 < s" "\<forall>n \<in> set sz. 0 < n" "0 < ev"
  shows "axes_copies (axes_of sz' src' dst') = axes_copies (axes_of sz src dst)"
  using assms expand_at_copies [of "length src" src dst sz ev] by (simp add: expandStrideSize_def)

theorem expand_keeps_copies_witness:
  "axes_copies (axes_of [2, 2, 3] [6, 3, 1] [12, 6, 2]) = axes_copies (axes_of [4, 3] [3, 1] [6, 2])"
  using expand_keeps_copies [of "[3, 1]" "[6, 2]" "[4, 3]" 6]
  by (simp add: expandStrideSize_def insert_list_def numeral_2_eq_2 signed_divide_int_def signed_modulo_int_def sgn_if
      del: axes_copies.simps)

end
