(* ===== verification/GeometryPermute.thy ===== *)
theory GeometryPermute
  imports Regions
begin

text \<open>
  \<open>GeometryComputer::ComputePermuteRegion\<close> (\<open>source/geometry/GeometryComputer.cpp\<close>): the regions that
  permute the dimensions of a tensor. Dimensions that stay neighbours are fused, the three longest
  axes may be moved to the end to become the loops of the regions, and one region is made for every
  position on the remaining axes. The parallel arrays \<open>inputShape\<close>, \<open>inputStrides\<close> and
  \<open>outputStrides\<close> are lists; after the strides are known, a list of triples.
\<close>

definition stride_behind :: "Tensor \<Rightarrow> int \<Rightarrow> int option" where
  "stride_behind input preAxis =
     loop (preAxis + 1) (t_dimensions input) (\<lambda>v stride. do { l \<leftarrow> tlength input v; Some (stride * l) }) 1"

text \<open>
  The first loop: \<open>inputShape\<close> and \<open>inputStrides\<close> so far and \<open>preAxis\<close>; the stride of the last entry
  is written when the next entry starts, or behind the loop.
\<close>

fun permute_axes :: "Tensor \<Rightarrow> int list \<Rightarrow> int list \<Rightarrow> int list \<Rightarrow> int \<Rightarrow> (int list \<times> int list) option" where
  "permute_axes input [] inputShape inputStrides preAxis =
     (if preAxis \<ge> 0 then do { stride \<leftarrow> stride_behind input preAxis; Some (inputShape, inputStrides @ [stride]) }
      else Some (inputShape, inputStrides))"
| "permute_axes input (axis # shape) inputShape inputStrides preAxis = do {
     len \<leftarrow> tlength input axis;
     if len = 1 then permute_axes input shape inputShape inputStrides preAxis
     else if axis - preAxis = 1
     then do {
       last_len \<leftarrow> arr_at inputShape (int (length inputShape) - 1);
       inputShape \<leftarrow> arr_put inputShape (int (length inputShape) - 1) (last_len * len);
       permute_axes input shape inputShape inputStrides axis }
     else do {
       inputStrides \<leftarrow> (if preAxis \<ge> 0 then do { stride \<leftarrow> stride_behind input preAxis; Some (inputStrides @ [stride]) }
                       else Some inputStrides);
       permute_axes input shape (inputShape @ [len]) inputStrides axis } }"

definition output_strides :: "int list \<Rightarrow> int list" where
  \<comment> \<open>from the last entry to the first\<close>
  "output_strides inputShape = snd (foldr (\<lambda>n (stride, acc). (stride * n, stride # acc)) inputShape (1, []))"

definition isReorderShape :: "int list \<Rightarrow> bool" where
  "isReorderShape inputShape \<longleftrightarrow>
     (if length inputShape = 4 then inputShape ! 0 > inputShape ! 1 + inputShape ! 2 + inputShape ! 3
      else length inputShape > 4)"

definition max_three :: "int list \<Rightarrow> int \<times> int \<times> int" where
  "max_three inputShape =
     fold (\<lambda>n (max1, max2, max3).
       if n > max1 then (n, max1, max2)
       else if n > max2 then (max1, n, max2)
       else if n > max3 then (max1, max2, n)
       else (max1, max2, max3)) (tl inputShape) (hd inputShape, - 1, - 1)"

definition swap_at :: "nat \<Rightarrow> nat \<Rightarrow> 'a list \<Rightarrow> 'a list" where
  "swap_at i j xs = (if i \<noteq> j then xs[i := xs ! j, j := xs ! i] else xs)"

text \<open>The loop over \<open>i = inputShapeSize - 1, \<dots>, 0\<close>; the first argument is \<open>i + 1\<close>.\<close>

fun move_max :: "nat \<Rightarrow> (int \<times> int \<times> int) list \<Rightarrow> int \<Rightarrow> int \<Rightarrow> int \<Rightarrow> nat \<Rightarrow> (int \<times> int \<times> int) list" where
  "move_max 0 loops max1 max2 max3 lastIndex = loops"
| "move_max (Suc i) loops max1 max2 max3 lastIndex = (
     let n = fst (loops ! i);
         moved = swap_at i lastIndex loops
     in if n = max1
        then (if int lastIndex - 1 < int (length loops) - 3 then moved else move_max i moved (- 1) max2 max3 (lastIndex - 1))
        else if n = max2
        then (if int lastIndex - 1 < int (length loops) - 3 then moved else move_max i moved max1 (- 1) max3 (lastIndex - 1))
        else if n = max3
        then (if int lastIndex - 1 < int (length loops) - 3 then moved else move_max i moved max1 max2 (- 1) (lastIndex - 1))
        else if int lastIndex < int (length loops) - 3 then loops
        else move_max i loops max1 max2 max3 lastIndex)"

definition permute_loops :: "int list \<Rightarrow> int list \<Rightarrow> (int \<times> int \<times> int) list" where
  \<comment> \<open>size, source stride and destination stride of every axis, reordered if that is wanted\<close>
  "permute_loops inputShape inputStrides = (
     let loops = zip inputShape (zip inputStrides (output_strides inputShape))
     in if isReorderShape inputShape
        then (case max_three inputShape of (max1, max2, max3) \<Rightarrow>
          move_max (length loops) loops max1 max2 max3 (length loops - 1))
        else loops)"

text \<open>The offsets of one region: \<open>value\<close> is split by the sizes of the remaining axes.\<close>

fun split_offsets :: "(int \<times> int \<times> int) list \<Rightarrow> int \<Rightarrow> int \<Rightarrow> int \<Rightarrow> (int \<times> int) option" where
  "split_offsets [] v inputOffset outputOffset = Some (inputOffset, outputOffset)"
| "split_offsets ((n, s, d) # rest) v inputOffset outputOffset = do {
     let md = prod_list (map fst rest);
     coordinate \<leftarrow> idiv v md;
     v \<leftarrow> imod v md;
     split_offsets rest v (inputOffset + coordinate * s) (outputOffset + coordinate * d) }"

definition nth_last :: "(int \<times> int \<times> int) list \<Rightarrow> nat \<Rightarrow> int \<times> int \<times> int" where
  \<comment> \<open>the axis with the given distance from the end, or one iteration\<close>
  "nth_last loops k = (if k < length loops then loops ! (length loops - 1 - k) else (1, 0, 0))"

definition loop_region :: "nat \<Rightarrow> (int \<times> int \<times> int) list \<Rightarrow> int \<times> int \<Rightarrow> Region" where
  "loop_region origin loops offsets =
     (case (nth_last loops 2, nth_last loops 1, nth_last loops 0) of
       ((outside, outsideStride, outputOutsideStride), (axis, axisStride, outputAxisStride), (inside, insideStride, outputInsideStride)) \<Rightarrow>
         \<lparr>rg_src = \<lparr>v_offset = fst offsets, v_stride = [outsideStride, axisStride, insideStride]\<rparr>,
          rg_dst = \<lparr>v_offset = snd offsets, v_stride = [outputOutsideStride, outputAxisStride, outputInsideStride]\<rparr>,
          rg_size = [outside, axis, inside], rg_origin = Some origin\<rparr>)"

definition loop_regions :: "nat \<Rightarrow> (int \<times> int \<times> int) list \<Rightarrow> Region list option" where
  "loop_regions origin loops = (
     let remaining = take (length loops - 3) loops;
         remainSize = prod_list (map fst remaining)
     in foldM (\<lambda>indice regions. do {
          offsets \<leftarrow> split_offsets remaining indice 0 0;
          Some (regions @ [loop_region origin loops offsets]) }) [0 .. remainSize - 1] [])"

definition ComputePermuteRegion :: "nat \<Rightarrow> Tensor \<Rightarrow> int list option \<Rightarrow> Region list option" where
  "ComputePermuteRegion origin input newshape = do {
     let shape = (case newshape of Some s \<Rightarrow> take (nat (t_dimensions input)) s
                  | None \<Rightarrow> rev [0 .. t_dimensions input - 1]);
     (inputShape, inputStrides) \<leftarrow> permute_axes input shape [] [] (- 2);
     if inputShape = [] then do { r \<leftarrow> makeFullSlice origin input; Some [r] }
     else loop_regions origin (permute_loops inputShape inputStrides) }"

end
