(* ===== verification/PermuteFacts.thy ===== *)
theory PermuteFacts
  imports GeometryPermute RegionAlgebra ReshapeFacts
begin

text \<open>
  \<open>ComputePermuteRegion\<close> is correct: the regions it makes copy every element of the output exactly
  once, each from the place the permutation names. The steps of the code (dropping dimensions of
  extent one, fusing neighbours, reordering, one region per remaining position) keep the copies of the
  axes, by the algebra of theory \<open>RegionAlgebra\<close>.
\<close>

section \<open>Axes that fill the output row by row\<close>

fun rows :: "(int \<times> int) list \<Rightarrow> axis list" where
  "rows [] = []"
| "rows ((n, s) # ps) = (n, s, prod_list (map fst ps)) # rows ps"

lemma rows_append_cong:
  assumes "axes_copies (rows xs) = axes_copies (rows ys)" "prod_list (map fst xs) = prod_list (map fst ys)"
  shows "axes_copies (rows (as @ xs)) = axes_copies (rows (as @ ys))"
proof (induction as)
  case (Cons a as)
  then show ?case using assms(2) by (cases a) simp
qed (simp add: assms(1))

lemma rows_unit: "axes_copies (rows (as @ (1, s) # bs)) = axes_copies (rows (as @ bs))"
  by (rule rows_append_cong) (simp_all add: axes_unit del: axes_copies.simps)

lemma rows_merge:
  assumes "0 \<le> m" "0 \<le> k"
  shows "axes_copies (rows (as @ (m, k * s) # (k, s) # bs)) = axes_copies (rows (as @ (m * k, s) # bs))"
  by (rule rows_append_cong)
    (simp_all add: axes_split [OF assms, of s "prod_list (map fst bs)"] del: axes_copies.simps)

lemma output_strides_rows: "length S = length T \<Longrightarrow> zip S (zip T (output_strides S)) = rows (zip S T)"
proof -
  have acc: "fst (foldr (\<lambda>n (stride, acc). (stride * n, stride # acc)) S (1, [])) = prod_list S" for S :: "int list"
    by (induction S) (auto simp: case_prod_unfold)
  have cons: "output_strides (n # S) = prod_list S # output_strides S" for n and S :: "int list"
    using acc [of S] by (simp add: output_strides_def case_prod_unfold)
  show "length S = length T \<Longrightarrow> zip S (zip T (output_strides S)) = rows (zip S T)"
  proof (induction S T rule: list_induct2)
    case Nil
    show ?case by (simp add: output_strides_def)
  qed (simp add: cons)
qed

section \<open>Fusing neighbours\<close>

definition row_stride :: "int list \<Rightarrow> nat \<Rightarrow> int" where
  "row_stride sh a = prod_list (drop (Suc a) sh)"

lemma row_stride_next: "Suc a < length sh \<Longrightarrow> row_stride sh a = sh ! Suc a * row_stride sh (Suc a)"
  by (simp add: row_stride_def Cons_nth_drop_Suc [symmetric])

lemma stride_behind_row:
  assumes "tensor_wf input" "0 \<le> a" "a < int (length (tshape input))"
  shows "stride_behind input a = Some (row_stride (tshape input) (nat a))"
proof -
  have n: "t_dimensions input = int (length (tshape input))" "t_dimensions input \<le> int (length (t_extent input))"
    using assms(1) tshape_length [OF assms(1)] by (auto simp: tensor_wf_def)
  have "nat (a + 1) = Suc (nat a)" using assms(2) by simp
  then show ?thesis
    using loop_prod [of "a + 1" "t_dimensions input" input 1] assms(2,3) n
    unfolding stride_behind_def row_stride_def tshape_def by simp
qed

definition axis_pair :: "int list \<Rightarrow> int \<Rightarrow> int \<times> int" where
  "axis_pair sh a = (sh ! nat a, row_stride sh (nat a))"

definition written :: "int list \<Rightarrow> int list \<Rightarrow> int list \<Rightarrow> int \<Rightarrow> (int \<times> int) list" where
  \<comment> \<open>the entries so far, with the stride that is still to be written\<close>
  "written sh S T pre = zip S (if pre \<ge> 0 then T @ [row_stride sh (nat pre)] else T)"

lemma permute_axes_copies:
  assumes wf: "tensor_wf input" and sh: "sh = tshape input" "\<forall>l \<in> set sh. 0 \<le> l"
  shows "\<forall>a \<in> set rest. 0 \<le> a \<and> a < int (length sh) \<Longrightarrow> \<forall>n \<in> set S. 0 \<le> n \<Longrightarrow>
    (pre = - 2 \<and> S = [] \<and> T = []) \<or> (0 \<le> pre \<and> pre < int (length sh) \<and> length S = Suc (length T)) \<Longrightarrow>
    \<exists>S' T'. permute_axes input rest S T pre = Some (S', T') \<and> length S' = length T' \<and>
      axes_copies (rows (zip S' T')) = axes_copies (rows (written sh S T pre @ map (axis_pair sh) rest)) \<and>
      (S' = [] \<longrightarrow> S = [] \<and> (\<forall>a \<in> set rest. sh ! nat a = 1)) \<and> (\<forall>n \<in> set S'. 0 \<le> n)"
proof (induction rest arbitrary: S T pre)
  case Nil
  then show ?case using stride_behind_row [OF wf, of pre] sh by (auto simp: written_def)
next
  case (Cons axis rest)
  let ?len = "sh ! nat axis"
  have axis: "0 \<le> axis" "axis < int (length sh)" using Cons.prems(1) by auto
  have len: "tlength input axis = Some ?len" "0 \<le> ?len"
    using tlength_shape [OF wf, of "nat axis"] axis sh by auto
  note IH = Cons.IH [OF _ _ disjI2]
  have rest: "\<forall>a \<in> set rest. 0 \<le> a \<and> a < int (length sh)" using Cons.prems(1) by auto
  show ?case
  proof (cases "?len = 1")
    case True
    have "axes_copies (rows (written sh S T pre @ map (axis_pair sh) (axis # rest))) =
        axes_copies (rows (written sh S T pre @ map (axis_pair sh) rest))"
      using rows_unit [of "written sh S T pre" "row_stride sh (nat axis)"] True by (simp add: axis_pair_def)
    then show ?thesis using Cons.IH [OF rest Cons.prems(2,3)] len True by auto
  next
    case other: False
    show ?thesis
    proof (cases "axis - pre = 1")
      case True
      then have pre: "0 \<le> pre" "length S = Suc (length T)" using Cons.prems(3) axis by auto
      obtain S0 m where S: "S = S0 @ [m]" "length S0 = length T" using pre(2) by (metis length_Suc_conv_rev)
      have m: "0 \<le> m" using Cons.prems(2) S by simp
      have suc: "Suc (nat pre) = nat axis" using True pre(1) by linarith
      have next_stride: "row_stride sh (nat pre) = ?len * row_stride sh (nat axis)"
        using row_stride_next [of "nat pre" sh] axis unfolding suc by simp
      have "axes_copies (rows (written sh S T pre @ map (axis_pair sh) (axis # rest))) =
          axes_copies (rows (written sh (S0 @ [m * ?len]) T axis @ map (axis_pair sh) rest))"
        using rows_merge [OF m len(2), of "zip S0 T" "row_stride sh (nat axis)"] S pre axis next_stride
        by (simp add: written_def axis_pair_def)
      moreover have "arr_at S (int (length S) - 1) = Some m" "arr_put S (int (length S) - 1) (m * ?len) = Some (S0 @ [m * ?len])"
        using S(1) S(2) [symmetric] by (simp_all add: arr_at_def arr_put_def nth_append list_update_append)
      ultimately show ?thesis
        using IH [OF rest, of "S0 @ [m * ?len]" axis T] len other True axis S m Cons.prems(2) by auto
    next
      case False
      let ?T = "if pre \<ge> 0 then T @ [row_stride sh (nat pre)] else T"
      have "length ?T = length S" using Cons.prems(3) by auto
      then have "written sh (S @ [?len]) ?T axis = written sh S T pre @ [axis_pair sh axis]"
        using axis by (simp add: written_def axis_pair_def)
      moreover have "(if pre \<ge> 0 then do { stride \<leftarrow> stride_behind input pre; Some (T @ [stride]) } else Some T) = Some ?T"
        using stride_behind_row [OF wf, of pre] Cons.prems(3) sh by auto
      moreover have "length (S @ [?len]) = Suc (length ?T)" using \<open>length ?T = length S\<close> by simp
      ultimately show ?thesis
        using IH [OF rest, of "S @ [?len]" axis ?T] len other False axis Cons.prems(2) by auto
    qed
  qed
qed

section \<open>Reordering the axes\<close>

lemma mset_swap_at: "i < length xs \<Longrightarrow> j < length xs \<Longrightarrow> mset (swap_at i j xs) = mset xs"
  by (simp add: swap_at_def mset_swap)

lemma length_swap_at: "length (swap_at i j xs) = length xs"
  by (simp add: swap_at_def)

lemma mset_move_max:
  "i \<le> length loops \<Longrightarrow> lastIndex < length loops \<Longrightarrow> mset (move_max i loops max1 max2 max3 lastIndex) = mset loops"
proof (induction i arbitrary: loops max1 max2 max3 lastIndex)
  case (Suc i)
  have sw: "mset (swap_at i lastIndex loops) = mset loops" using Suc.prems by (simp add: mset_swap_at)
  have ih: "mset (move_max i (swap_at i lastIndex loops) a b c (lastIndex - 1)) = mset loops" for a b c
    using Suc.IH [of "swap_at i lastIndex loops" "lastIndex - 1" a b c] Suc.prems sw by (simp add: length_swap_at)
  have same: "mset (move_max i loops a b c lastIndex) = mset loops" for a b c
    using Suc.IH [of loops lastIndex a b c] Suc.prems by simp
  show ?case by (simp add: Let_def sw ih same del: One_nat_def)
qed simp

lemma length_rows [simp]: "length (rows ps) = length ps"
  by (induction ps rule: rows.induct) simp_all

lemma mset_permute_loops:
  assumes "length S = length T" "S \<noteq> []"
  shows "mset (permute_loops S T) = mset (rows (zip S T))"
proof -
  have "length (rows (zip S T)) = length S" using assms(1) by simp
  then have "mset (move_max (length (rows (zip S T))) (rows (zip S T)) a b c (length (rows (zip S T)) - 1)) = mset (rows (zip S T))" for a b c
    using assms(2) by (intro mset_move_max) auto
  then show ?thesis
    using output_strides_rows [OF assms(1)] by (auto simp: permute_loops_def Let_def split: prod.splits)
qed

section \<open>One region per remaining position\<close>

lemma three_loops: "axes_copies [nth_last loops 2, nth_last loops 1, nth_last loops 0] = axes_copies (drop (length loops - 3) loops)"
proof (cases "length loops < 3")
  case True
  then consider "loops = []" | a where "loops = [a]" | a b where "loops = [a, b]"
    by (cases loops rule: list.exhaust; cases "tl loops" rule: list.exhaust; cases "tl (tl loops)" rule: list.exhaust) auto
  then show ?thesis
    by cases (simp_all add: nth_last_def axes_unit del: axes_copies.simps(2))
next
  case False
  let ?m = "length loops - 3"
  have "drop ?m loops = [loops ! ?m, loops ! (?m + 1), loops ! (?m + 2)]"
  proof -
    have "drop ?m loops = loops ! ?m # drop (?m + 1) loops" "drop (?m + 1) loops = loops ! (?m + 1) # drop (?m + 2) loops"
      "drop (?m + 2) loops = loops ! (?m + 2) # drop (?m + 3) loops" "drop (?m + 3) loops = []"
      using False Cons_nth_drop_Suc [of ?m loops] Cons_nth_drop_Suc [of "?m + 1" loops] Cons_nth_drop_Suc [of "?m + 2" loops]
      by simp_all
    then show ?thesis by metis
  qed
  moreover have "length loops - Suc 2 = ?m" "length loops - Suc (Suc 0) = ?m + 1" "length loops - Suc 0 = ?m + 2" "loops \<noteq> []" using False by auto
  ultimately show ?thesis using False by (simp add: nth_last_def)
qed

lemma loop_region_copies:
  "region_copies (loop_region origin loops (a, b)) = shift a b (axes_copies (drop (length loops - 3) loops))"
  unfolding region_copies_axes three_loops [symmetric] loop_region_def
  by (cases "nth_last loops 2"; cases "nth_last loops 1"; cases "nth_last loops 0") (simp add: stride_at_def size_at_def)

lemma split_offsets_copies:
  "\<forall>l \<in> set pre. 0 \<le> fst l \<Longrightarrow>
    \<exists>f. (\<forall>v a b. 0 \<le> v \<and> v < prod_list (map fst pre) \<longrightarrow> split_offsets pre v a b = Some (a + fst (f v), b + snd (f v))) \<and>
      (\<forall>rest. concat (map (\<lambda>v. shift (fst (f v)) (snd (f v)) (axes_copies rest)) [0 .. prod_list (map fst pre) - 1]) = axes_copies (pre @ rest))"
proof (induction pre)
  case Nil
  show ?case by (rule exI [of _ "\<lambda>_. (0, 0)"]) (simp add: shift_0)
next
  case (Cons l pre)
  obtain n s d where l: "l = (n, s, d)" by (cases l) auto
  let ?k = "prod_list (map fst pre)"
  have n: "0 \<le> n" using Cons.prems l by simp
  have k: "0 \<le> ?k" using Cons.prems by (induction pre) auto
  have "\<forall>l \<in> set pre. 0 \<le> fst l" using Cons.prems by simp
  from Cons.IH [OF this] obtain f where
    "(\<forall>v a b. 0 \<le> v \<and> v < ?k \<longrightarrow> split_offsets pre v a b = Some (a + fst (f v), b + snd (f v))) \<and>
      (\<forall>rest. concat (map (\<lambda>v. shift (fst (f v)) (snd (f v)) (axes_copies rest)) [0 .. ?k - 1]) = axes_copies (pre @ rest))" ..
  then have f: "\<And>v a b. 0 \<le> v \<Longrightarrow> v < ?k \<Longrightarrow> split_offsets pre v a b = Some (a + fst (f v), b + snd (f v))"
      "\<And>rest. concat (map (\<lambda>v. shift (fst (f v)) (snd (f v)) (axes_copies rest)) [0 .. ?k - 1]) = axes_copies (pre @ rest)"
    by simp_all
  let ?g = "\<lambda>v. (v div ?k * s + fst (f (v mod ?k)), v div ?k * d + snd (f (v mod ?k)))"
  have "split_offsets (l # pre) v a b = Some (a + fst (?g v), b + snd (?g v))" if "0 \<le> v" "v < n * ?k" for v a b
  proof -
    have kp: "0 < ?k" using that n k by (cases "?k = 0") auto
    then have "idiv v ?k = Some (v div ?k)" "imod v ?k = Some (v mod ?k)"
      using that(1) by (auto simp: idiv_def imod_def signed_divide_int_def signed_modulo_int_def sgn_if)
    then show ?thesis using f(1) [of "v mod ?k"] kp l by (simp add: Let_def add.assoc)
  qed
  moreover have "concat (map (\<lambda>v. shift (fst (?g v)) (snd (?g v)) (axes_copies rest)) [0 .. n * ?k - 1]) = axes_copies ((l # pre) @ rest)" for rest
  proof -
    have inner: "concat (map (\<lambda>r. shift (fst (?g (q * ?k + r))) (snd (?g (q * ?k + r))) (axes_copies rest)) [0 .. ?k - 1])
        = shift (q * s) (q * d) (axes_copies (pre @ rest))" for q
    proof -
      have M: "map (\<lambda>r. shift (fst (?g (q * ?k + r))) (snd (?g (q * ?k + r))) (axes_copies rest)) [0 .. ?k - 1]
          = map (\<lambda>r. shift (q * s) (q * d) (shift (fst (f r)) (snd (f r)) (axes_copies rest))) [0 .. ?k - 1]"
        by (rule map_cong) (auto simp: shift_shift add.commute)
      show ?thesis unfolding M f(2) [of rest, symmetric] shift_concat map_map comp_def ..
    qed
    have "concat (map h [0 .. n * ?k - 1]) = concat (map (\<lambda>q. concat (map (\<lambda>r. h (q * ?k + r)) [0 .. ?k - 1])) [0 .. n - 1])"
      for h :: "int \<Rightarrow> (int \<times> int) list"
    proof -
      have "concat (map h (concat (map (\<lambda>q. map (\<lambda>r. q * ?k + r) [0 .. ?k - 1]) qs))) =
          concat (map (\<lambda>q. concat (map (\<lambda>r. h (q * ?k + r)) [0 .. ?k - 1])) qs)" for qs
        by (induction qs) (simp_all add: comp_def)
      then show ?thesis unfolding upto_blocks [OF n k] by blast
    qed
    then show ?thesis using inner l by simp
  qed
  ultimately show ?case using l by (intro exI [of _ ?g]) simp
qed

lemma foldM_collect:
  "\<forall>x \<in> set xs. g x = Some (h x) \<Longrightarrow> foldM (\<lambda>x acc. do { y \<leftarrow> g x; Some (acc @ [r y]) }) xs acc = Some (acc @ map (\<lambda>x. r (h x)) xs)"
  by (induction xs arbitrary: acc) simp_all

text \<open>One region for every position on the first axes, whose loops are the last three.\<close>

lemma collect_regions:
  assumes nonneg: "\<forall>l \<in> set loops. 0 \<le> fst l"
    and r: "\<And>a b. region_copies (r (a, b)) = shift a b (axes_copies (drop (length loops - 3) loops))"
  shows "\<exists>rs. foldM (\<lambda>indice regions. do {
        offsets \<leftarrow> split_offsets (take (length loops - 3) loops) indice 0 0; Some (regions @ [r offsets]) })
      [0 .. prod_list (map fst (take (length loops - 3) loops)) - 1] [] = Some rs \<and>
    concat (map region_copies rs) = axes_copies loops"
proof -
  let ?pre = "take (length loops - 3) loops" and ?post = "drop (length loops - 3) loops"
  have "\<forall>l \<in> set ?pre. 0 \<le> fst l" using nonneg by (auto dest: in_set_takeD)
  from split_offsets_copies [OF this] obtain f where
    f: "(\<forall>v a b. 0 \<le> v \<and> v < prod_list (map fst ?pre) \<longrightarrow> split_offsets ?pre v a b = Some (a + fst (f v), b + snd (f v))) \<and>
      (\<forall>rest. concat (map (\<lambda>v. shift (fst (f v)) (snd (f v)) (axes_copies rest)) [0 .. prod_list (map fst ?pre) - 1]) = axes_copies (?pre @ rest))" ..
  let ?rs = "map (\<lambda>v. r (f v)) [0 .. prod_list (map fst ?pre) - 1]"
  have "\<forall>v \<in> set [0 .. prod_list (map fst ?pre) - 1]. split_offsets ?pre v 0 0 = Some (f v)" using f by simp
  note rs = foldM_collect [OF this, of r "[]", unfolded append_Nil]
  have m: "map region_copies ?rs = map (\<lambda>v. shift (fst (f v)) (snd (f v)) (axes_copies ?post)) [0 .. prod_list (map fst ?pre) - 1]"
    using r [of "fst (f v)" "snd (f v)" for v] by simp
  have c: "concat (map (\<lambda>v. shift (fst (f v)) (snd (f v)) (axes_copies ?post)) [0 .. prod_list (map fst ?pre) - 1]) = axes_copies loops"
    using conjunct2 [OF f, rule_format, of ?post] by simp
  show ?thesis using rs c unfolding m [symmetric] by blast
qed

lemma loop_regions_copies:
  "\<forall>l \<in> set loops. 0 \<le> fst l \<Longrightarrow> \<exists>rs. loop_regions origin loops = Some rs \<and> concat (map region_copies rs) = axes_copies loops"
  using collect_regions [of loops "loop_region origin loops"] loop_region_copies by (simp add: loop_regions_def Let_def)

section \<open>The permutation\<close>

lemma rows_destinations:
  "\<forall>q \<in> set ps. 0 \<le> fst q \<Longrightarrow> map snd (axes_copies (rows ps)) = [0 .. prod_list (map fst ps) - 1]"
proof (induction ps rule: rows.induct)
  case (2 n s ps)
  let ?k = "prod_list (map fst ps)"
  have n: "0 \<le> n" using 2 by simp
  have k: "0 \<le> ?k" using 2(2) by (induction ps) auto
  have IH: "map snd (axes_copies (rows ps)) = [0 .. ?k - 1]" using 2 by simp
  have sh: "map snd (shift a b zs) = map (\<lambda>d. b + d) (map snd zs)" for a b zs
    by (induction zs) (auto simp: shift_def)
  have "map snd (axes_copies (rows ((n, s) # ps))) = concat (map (\<lambda>c. map (\<lambda>d. c * ?k + d) [0 .. ?k - 1]) [0 .. n - 1])"
    unfolding rows.simps axes_copies.simps map_concat map_map comp_def sh IH ..
  then show ?case using upto_blocks [OF n k] by simp
qed simp

text \<open>
  C30: for every permutation of the dimensions of a tensor, \<open>ComputePermuteRegion\<close> succeeds, and its
  regions together copy exactly what the nested loops over the output dimensions copy: the element at
  each output position, counted row by row, comes from the input position with the permuted
  coordinates. Every output element is written exactly once.
\<close>

theorem permute_regions_copy:
  assumes wf: "tensor_wf input" and sh: "\<forall>l \<in> set (tshape input). 0 \<le> l"
    and p: "distinct p" "set p = {0 ..< t_dimensions input}"
  shows "\<exists>rs. ComputePermuteRegion origin input (Some p) = Some rs \<and>
    mset (concat (map region_copies rs)) = mset (axes_copies (rows (map (axis_pair (tshape input)) p))) \<and>
    mset (map snd (concat (map region_copies rs))) = mset [0 .. prod_list (map (\<lambda>a. tshape input ! nat a) p) - 1]"
proof -
  let ?sh = "tshape input"
  have n: "t_dimensions input = int (length ?sh)" using wf tshape_length [OF wf] by (simp add: tensor_wf_def)
  have len: "length p = length ?sh"
    using distinct_card [OF p(1)] p(2) n by simp
  have range: "\<forall>a \<in> set p. 0 \<le> a \<and> a < int (length ?sh)" using p(2) n by auto
  obtain S T where ST: "permute_axes input p [] [] (- 2) = Some (S, T)" "length S = length T"
      "axes_copies (rows (zip S T)) = axes_copies (rows (map (axis_pair ?sh) p))" "S = [] \<longrightarrow> (\<forall>a \<in> set p. ?sh ! nat a = 1)"
      "\<forall>n \<in> set S. 0 \<le> n"
  proof -
    have "map (axis_pair ?sh) p = written ?sh [] [] (- 2) @ map (axis_pair ?sh) p" by (simp add: written_def)
    then show thesis using permute_axes_copies [OF wf refl sh range, of "[]" "- 2" "[]"] that by auto
  qed
  have dest: "map snd (axes_copies (rows (map (axis_pair ?sh) p))) = [0 .. prod_list (map (\<lambda>a. ?sh ! nat a) p) - 1]"
  proof -
    have "\<forall>q \<in> set (map (axis_pair ?sh) p). 0 \<le> fst q" using sh range by (auto simp: axis_pair_def)
    then show ?thesis using rows_destinations [of "map (axis_pair ?sh) p"] by (simp add: axis_pair_def comp_def)
  qed
  have "\<exists>rs. ComputePermuteRegion origin input (Some p) = Some rs \<and>
    mset (concat (map region_copies rs)) = mset (axes_copies (rows (map (axis_pair ?sh) p)))"
  proof (cases "S = []")
    case True
    have "prod_list ?sh = 1"
    proof -
      have "?sh ! i = 1" if "i < length ?sh" for i
      proof -
        have "int i \<in> set p" using that p(2) n by simp
        then show ?thesis using ST(4) True by (metis nat_int)
      qed
      then have "\<forall>l \<in> set ?sh. l = 1" by (auto simp: in_set_conv_nth)
      moreover have "\<forall>l \<in> set xs. l = 1 \<Longrightarrow> prod_list xs = 1" for xs :: "int list" by (induction xs) auto
      ultimately show ?thesis by blast
    qed
    then have "makeFullSlice origin input = Some (newRegion\<lparr>rg_origin := Some origin, rg_size := [1, 1, 1],
        rg_dst := \<lparr>v_offset = 0, v_stride = [1, 1, 1]\<rparr>, rg_src := \<lparr>v_offset = 0, v_stride = [1, 1, 1]\<rparr>\<rparr>)"
      using loop_prod_all [OF wf] by (simp add: makeFullSlice_def)
    then show ?thesis
      using ST(1,3) True len n by (simp add: ComputePermuteRegion_def region_copies_def stride_at_def size_at_def)
  next
    case False
    have "\<forall>l \<in> set (permute_loops S T). 0 \<le> fst l"
    proof -
      have "fst ` set (rows ps) = fst ` set ps" for ps by (induction ps rule: rows.induct) auto
      then have "fst ` set (permute_loops S T) = fst ` set (zip S T)"
        using mset_permute_loops [OF ST(2) False] by (metis mset_eq_setD)
      moreover have "fst ` set (zip S T) \<subseteq> set S" by (auto dest: set_zip_leftD)
      ultimately show ?thesis using ST(5) by auto
    qed
    from loop_regions_copies [OF this] obtain rs where
      "loop_regions origin (permute_loops S T) = Some rs" "concat (map region_copies rs) = axes_copies (permute_loops S T)" by blast
    then show ?thesis
      using ST(1,3) False len n axes_perm [OF mset_permute_loops [OF ST(2) False]] by (simp add: ComputePermuteRegion_def)
  qed
  then show ?thesis using dest by (metis mset_map)
qed

theorem permute_regions_copy_witness:
  "\<exists>rs. ComputePermuteRegion 7 (tensor_of [2, 1, 3, 5, 4] MNN_NCHW []) (Some [4, 2, 0, 1, 3]) = Some rs \<and>
    mset (map snd (concat (map region_copies rs))) = mset [0 .. 119]"
proof -
  have "distinct [4, 2, 0, 1, 3 :: int]" "set [4, 2, 0, 1, 3] = {0 ..< 5 :: int}" by auto
  then show ?thesis
    using permute_regions_copy [of "tensor_of [2, 1, 3, 5, 4] MNN_NCHW []" "[4, 2, 0, 1, 3]" 7] by auto
qed

end
