(* ===== verification/GeometryMoves.thy ===== *)
theory GeometryMoves
  imports GeometryPermute
begin

text \<open>
  The geometry computers that join, cut, repeat and reverse tensors (\<open>source/geometry/GeometryConcat.cpp\<close>,
  \<open>GeometrySlice.cpp\<close>, \<open>GeometryTile.cpp\<close>, \<open>GeometryBroadcastTo.cpp\<close> with \<open>ConvertUtils::broadcastto\<close>, and
  \<open>GeometryReverse\<close> of \<open>GeometryReverseSequence.cpp\<close>): the regions they give to their outputs. An input is
  its number with its descriptor. The computers \<open>return true\<close>; where the code keeps regions the output
  had before, they are an argument.
\<close>

definition extents :: "Tensor \<Rightarrow> int \<Rightarrow> int \<Rightarrow> int option" where
  \<comment> \<open>the product of the extents from \<open>lo\<close> below \<open>hi\<close>\<close>
  "extents t lo hi = loop lo hi (\<lambda>i n. do { l \<leftarrow> tlength t i; Some (n * l) }) 1"

definition wrap_axis :: "Tensor \<Rightarrow> int \<Rightarrow> int" where
  "wrap_axis t axis = (if axis < 0 then t_dimensions t + axis else axis)"

section \<open>Joining and cutting\<close>

datatype JoinType = OpType_Concat | OpType_QuantizedConcat | OpType_Pack

definition concat_region :: "nat \<Rightarrow> int \<Rightarrow> int \<Rightarrow> int \<Rightarrow> int \<Rightarrow> int \<Rightarrow> Region" where
  "concat_region origin outside len inside axisLength offset =
     \<lparr>rg_src = \<lparr>v_offset = 0, v_stride = [len * inside, inside, 1]\<rparr>,
      rg_dst = \<lparr>v_offset = offset * inside, v_stride = [inside * axisLength, inside, 1]\<rparr>,
      rg_size = [outside, len, inside], rg_origin = Some origin\<rparr>"

definition GeometryConcat :: "JoinType \<Rightarrow> int \<Rightarrow> (nat \<times> Tensor) list \<Rightarrow> Tensor \<Rightarrow> Region list option" where
  "GeometryConcat ty basicAxis inputs output = (
     let inputFix = (ty = OpType_Pack);
         axis = wrap_axis output basicAxis
     in do {
       outside \<leftarrow> extents output 0 axis;
       inside \<leftarrow> extents output (axis + 1) (t_dimensions output);
       axisLength \<leftarrow> tlength output axis;
       if outside \<le> 0 \<or> inside \<le> 0 \<or> axisLength \<le> 0 then Some []
       else do {
         (regions, offset) \<leftarrow> foldM (\<lambda>(origin, t) (regions, offset). do {
             n \<leftarrow> elementSize t;
             if n = 0 then Some (regions, offset)
             else do {
               len \<leftarrow> (if inputFix then Some 1 else tlength t axis);
               Some (regions @ [concat_region origin outside len inside axisLength offset], offset + len) } })
           inputs ([], 0);
         Some regions } })"

datatype CutType = OpType_Slice | OpType_Unpack

definition slice_region :: "nat \<Rightarrow> int \<Rightarrow> int \<Rightarrow> int \<Rightarrow> int \<Rightarrow> int \<Rightarrow> Region" where
  "slice_region origin outside len inside axisLength offset =
     \<lparr>rg_src = \<lparr>v_offset = offset * inside, v_stride = [axisLength * inside, inside, 1]\<rparr>,
      rg_dst = \<lparr>v_offset = 0, v_stride = [inside * len, inside, 1]\<rparr>,
      rg_size = [outside, len, inside], rg_origin = Some origin\<rparr>"

definition GeometrySlice :: "CutType \<Rightarrow> int \<Rightarrow> nat \<Rightarrow> Tensor \<Rightarrow> Tensor list \<Rightarrow> Region list list option" where
  \<comment> \<open>the regions of every output\<close>
  "GeometrySlice ty basicAxis origin input outputs = (
     let inputFix = (ty = OpType_Unpack);
         axis = (if basicAxis < 0 then basicAxis + t_dimensions input else basicAxis)
     in do {
       outside \<leftarrow> extents input 0 axis;
       inside \<leftarrow> extents input (axis + 1) (t_dimensions input);
       n \<leftarrow> elementSize input;
       (regions, offset) \<leftarrow> foldM (\<lambda>t (regions, offset).
           if n \<le> 0 then Some (regions @ [[]], offset)
           else do {
             axisLength \<leftarrow> tlength input axis;
             len \<leftarrow> (if inputFix then Some 1 else tlength t axis);
             Some (regions @ [[slice_region origin outside len inside axisLength offset]], offset + len) })
         outputs ([], 0);
       Some regions })"

text \<open>\<open>GeometrySliceTF\<close>: the strides of the input and the offset of \<open>begin\<close>, from the last dimension.\<close>

definition slicetf_strides :: "Tensor \<Rightarrow> int list \<Rightarrow> (int list \<times> int) option" where
  "slicetf_strides input beginPtr = do {
     (strides, stride, srcOffset) \<leftarrow> foldM (\<lambda>i (strides, stride, srcOffset). do {
         b \<leftarrow> arr_at beginPtr i;
         l \<leftarrow> tlength input i;
         Some (stride # strides, stride * l, srcOffset + (if b < 0 then b + l else b) * stride) })
       (rev [0 .. t_dimensions input - 1]) ([], 1, 0);
     Some (strides, srcOffset) }"

definition slicetf_axes :: "Tensor \<Rightarrow> int list \<Rightarrow> (int \<times> int) list option" where
  \<comment> \<open>\<open>seperateDimIndexes\<close>: extent and input stride of the output's dimensions that are not 1\<close>
  "slicetf_axes output strides =
     loop 0 (t_dimensions output) (\<lambda>i axes. do {
       l \<leftarrow> tlength output i;
       if l \<noteq> 1 then do { s \<leftarrow> arr_at strides i; Some (axes @ [(l, s)]) } else Some axes }) []"

definition slicetf_at :: "(int \<times> int) list \<Rightarrow> nat \<Rightarrow> int \<times> int" where
  "slicetf_at axes k = (if k < length axes then axes ! (length axes - 1 - k) else (1, 0))"

fun slicetf_offset :: "(int \<times> int) list \<Rightarrow> int \<Rightarrow> int \<Rightarrow> int option" where
  \<comment> \<open>the loop over \<open>mod\<close>\<close>
  "slicetf_offset [] v inputOffset = Some inputOffset"
| "slicetf_offset ((n, s) # rest) v inputOffset = do {
     let md = prod_list (map fst rest);
     coordinate \<leftarrow> idiv v md;
     v \<leftarrow> imod v md;
     slicetf_offset rest v (inputOffset + coordinate * s) }"

definition slicetf_block :: "nat \<Rightarrow> (int \<times> int) list \<Rightarrow> int \<Rightarrow> Region list option" where
  \<comment> \<open>the regions for the axes of the output\<close>
  "slicetf_block origin axes srcOffset = (
     let (inside, insideStride) = slicetf_at axes 0;
         (axisLen, axisStride) = slicetf_at axes 1;
         (outside, outsideStride) = slicetf_at axes 2;
         remain = take (length axes - 3) axes
     in foldM (\<lambda>indice regions. do {
       inputOffset \<leftarrow> slicetf_offset remain indice 0;
       Some (regions @ [
         \<lparr>rg_src = \<lparr>v_offset = inputOffset + srcOffset, v_stride = [outsideStride, axisStride, insideStride]\<rparr>,
          rg_dst = \<lparr>v_offset = indice * outside * axisLen * inside, v_stride = [axisLen * inside, inside, 1]\<rparr>,
          rg_size = [outside, axisLen, inside], rg_origin = Some origin\<rparr>]) }) [0 .. prod_list (map fst remain) - 1] [])"

definition GeometrySliceTF :: "nat \<Rightarrow> Tensor \<Rightarrow> int list \<Rightarrow> Tensor \<Rightarrow> Region list option" where
  "GeometrySliceTF origin input beginPtr output = do {
     (strides, srcOffset) \<leftarrow> slicetf_strides input beginPtr;
     axes \<leftarrow> slicetf_axes output strides;
     slicetf_block origin axes srcOffset }"

section \<open>Reversing\<close>

definition GeometryReverse :: "nat \<Rightarrow> Tensor \<Rightarrow> int \<Rightarrow> Region list \<Rightarrow> Region list option" where
  "GeometryReverse origin input axis old = do {
     reverseSize \<leftarrow> tlength input axis;
     (outsideSize, insideSize) \<leftarrow> loop 0 (t_dimensions input) (\<lambda>i (outsideSize, insideSize). do {
         l \<leftarrow> tlength input i;
         Some (if i < axis then outsideSize * l else outsideSize, if i > axis then insideSize * l else insideSize) }) (1, 1);
     Some (old @ [
       \<lparr>rg_src = \<lparr>v_offset = reverseSize * insideSize - insideSize, v_stride = [reverseSize * insideSize, - insideSize, 1]\<rparr>,
        rg_dst = \<lparr>v_offset = 0, v_stride = [reverseSize * insideSize, insideSize, 1]\<rparr>,
        rg_size = [outsideSize, reverseSize, insideSize], rg_origin = Some origin\<rparr>]) }"

end
