(* ===== verification/GeometryTile.thy ===== *)
theory GeometryTile
  imports GeometryPermute
begin

text \<open>
  The geometry computers that repeat elements: \<open>GeometryTile\<close> (\<open>source/geometry/GeometryTile.cpp\<close>) and
  \<open>ConvertUtils::broadcastto\<close> (\<open>source/geometry/ConvertUtils.cpp\<close>, called by \<open>GeometryBroadcastTo\<close>). The
  parallel arrays \<open>size\<close>, \<open>srcStride\<close>, \<open>dstStride\<close> are a list of triples; the first dimensions are
  enumerated by \<open>unravelIndexHelper\<close> (\<open>split_offsets\<close> of theory \<open>GeometryPermute\<close>), the last three
  are the loops of a region.
\<close>

definition computeStride :: "int list \<Rightarrow> int list" where
  \<comment> \<open>\<open>OpCommonUtils::computeStride\<close>\<close>
  "computeStride shapes = output_strides shapes"

section \<open>Tile\<close>

record TileState =
  ts_status :: int
  ts_prevInput :: int
  ts_prevMulti :: int
  ts_prevIndex :: int
  ts_axes :: "(int \<times> int \<times> int) list"

definition push_axis :: "(int \<times> int \<times> int) list \<Rightarrow> int \<times> int \<times> int \<Rightarrow> (int \<times> int \<times> int) list option" where
  \<comment> \<open>write at \<open>validLength\<close>; the arrays have \<open>MNN_MAX_TENSOR_DIM\<close> entries\<close>
  "push_axis axes a = (if length axes < MNN_MAX_TENSOR_DIM then Some (axes @ [a]) else None)"

definition tile_multi :: "Tensor \<Rightarrow> int list \<Rightarrow> TileState \<Rightarrow> TileState option" where
  \<comment> \<open>export the pending multiple\<close>
  "tile_multi input outputStrides st = do {
     l \<leftarrow> tlength input (ts_prevIndex st);
     d \<leftarrow> arr_at outputStrides (ts_prevIndex st);
     axes \<leftarrow> push_axis (ts_axes st) (ts_prevMulti st, 0, l * d);
     Some (st\<lparr>ts_axes := axes\<rparr>) }"

definition tile_input :: "int list \<Rightarrow> int list \<Rightarrow> TileState \<Rightarrow> TileState option" where
  \<comment> \<open>export the pending input extent\<close>
  "tile_input inputStrides outputStrides st = do {
     s \<leftarrow> arr_at inputStrides (ts_prevIndex st);
     d \<leftarrow> arr_at outputStrides (ts_prevIndex st);
     axes \<leftarrow> push_axis (ts_axes st) (ts_prevInput st, s, d);
     Some (st\<lparr>ts_axes := axes\<rparr>) }"

definition tile_step ::
  "Tensor \<Rightarrow> int list \<Rightarrow> int list \<Rightarrow> int list \<Rightarrow> int \<Rightarrow> TileState \<Rightarrow> TileState option option" where
  \<comment> \<open>one dimension; \<open>Some None\<close> is the early return for an empty tensor\<close>
  "tile_step input mulPtr inputStrides outputStrides i st = do {
     il \<leftarrow> tlength input i;
     ml \<leftarrow> arr_at mulPtr i;
     if il = 0 \<or> ml = 0 then ret_false
     else if il = 1 \<and> ml = 1 then ret st
     else if il = 1 \<and> ml > 1 then do {
       st \<leftarrow> (if ts_status st = 0 then Some (st\<lparr>ts_prevMulti := 1 * ml, ts_prevIndex := i\<rparr>)
              else if ts_status st = 1 then Some (st\<lparr>ts_prevMulti := ts_prevMulti st * ml, ts_prevIndex := i\<rparr>)
              else do {
                st \<leftarrow> tile_input inputStrides outputStrides st;
                Some (st\<lparr>ts_prevIndex := i, ts_prevMulti := ml\<rparr>) });
       ret (st\<lparr>ts_status := 1\<rparr>) }
     else if il > 1 \<and> ml = 1 then do {
       st \<leftarrow> (if ts_status st = 0 then Some (st\<lparr>ts_prevInput := 1 * il, ts_prevIndex := i\<rparr>)
              else if ts_status st = 2 then Some (st\<lparr>ts_prevInput := ts_prevInput st * il, ts_prevIndex := i\<rparr>)
              else do {
                st \<leftarrow> tile_multi input outputStrides st;
                Some (st\<lparr>ts_prevIndex := i, ts_prevInput := il\<rparr>) });
       ret (st\<lparr>ts_status := 2\<rparr>) }
     else do {
       let ml = (if ts_status st = 1 then ml * ts_prevMulti st else ml);
       st \<leftarrow> (if ts_status st = 2 then tile_input inputStrides outputStrides st else Some st);
       s \<leftarrow> arr_at inputStrides i;
       d \<leftarrow> arr_at outputStrides i;
       axes \<leftarrow> push_axis (ts_axes st) (ml, 0, il * d);
       axes \<leftarrow> push_axis axes (il, s, d);
       ret (st\<lparr>ts_axes := axes, ts_status := 0\<rparr>) } }"

definition tile_rest :: "Tensor \<Rightarrow> int list \<Rightarrow> int list \<Rightarrow> TileState \<Rightarrow> TileState option" where
  "tile_rest input inputStrides outputStrides st =
     (if ts_status st = 1 then tile_multi input outputStrides st
      else if ts_status st = 2 then tile_input inputStrides outputStrides st
      else Some st)"

definition pad_axes :: "(int \<times> int \<times> int) list \<Rightarrow> (int \<times> int \<times> int) list" where
  "pad_axes axes = axes @ replicate (3 - length axes) (1, 0, 0)"

definition GeometryTile :: "nat \<Rightarrow> Tensor \<Rightarrow> int list \<Rightarrow> Tensor \<Rightarrow> Region list option" where
  "GeometryTile origin input mulPtr output = (
     let inputStrides = computeStride (tshape input);
         outputStrides = computeStride (take (nat (t_dimensions input)) (tshape output))
     in do {
       r \<leftarrow> loopC 0 (t_dimensions input) (tile_step input mulPtr inputStrides outputStrides)
              \<lparr>ts_status = 0, ts_prevInput = 1, ts_prevMulti = 1, ts_prevIndex = 0, ts_axes = []\<rparr>;
       case r of
         None \<Rightarrow> Some []
       | Some st \<Rightarrow> do {
           st \<leftarrow> tile_rest input inputStrides outputStrides st;
           loop_regions origin (pad_axes (ts_axes st)) } })"

section \<open>BroadcastTo\<close>

text \<open>One pass over the pairs of input and output extent that fuses two neighbours whose input extent is 1.
  Moving the rest forward reads the entry behind the last one, which is outside of the arrays of
  \<open>MNN_MAX_TENSOR_DIM\<close> entries when all of them are in use.\<close>

fun squeeze_pass :: "(int \<times> int) list \<Rightarrow> (int \<times> int) list \<Rightarrow> bool \<Rightarrow> ((int \<times> int) list \<times> bool) option" where
  "squeeze_pass ds ((a, b) # (c, d) # rest) canFuse =
     (if a = 1 \<and> c = 1
      then (if length ds + length rest + 2 \<ge> MNN_MAX_TENSOR_DIM then None
            else squeeze_pass ds ((a, b * d) # rest) True)
      else squeeze_pass (ds @ [(a, b)]) ((c, d) # rest) canFuse)"
| "squeeze_pass ds ps canFuse = Some (ds @ ps, canFuse)"

lemma squeeze_pass_length: "squeeze_pass ds ps fused = Some (qs, True) \<Longrightarrow> \<not> fused \<Longrightarrow> length qs < length ds + length ps"
proof -
  have "squeeze_pass ds ps fused = Some (qs, f) \<Longrightarrow> length qs \<le> length ds + length ps \<and>
      (f \<longrightarrow> \<not> fused \<longrightarrow> length qs < length ds + length ps)" for f
  proof (induction ds ps fused rule: squeeze_pass.induct)
    case (1 ds a b c d rest canFuse)
    then show ?case by (cases "a = 1 \<and> c = 1") (auto split: if_splits)
  qed auto
  then show "squeeze_pass ds ps fused = Some (qs, True) \<Longrightarrow> \<not> fused \<Longrightarrow> length qs < length ds + length ps" by blast
qed

function squeeze :: "(int \<times> int) list \<Rightarrow> (int \<times> int) list option" where
  "squeeze ps =
     (if length ps \<ge> 2
      then (case squeeze_pass [] ps False of
              None \<Rightarrow> None
            | Some (qs, canFuse) \<Rightarrow> if canFuse then squeeze qs else Some qs)
      else Some ps)"
  by pat_completeness auto
termination
  by (relation "measure length") (auto dest!: squeeze_pass_length)

fun separate_axes :: "(int \<times> int) list \<Rightarrow> int \<Rightarrow> int \<Rightarrow> (int \<times> int) list \<Rightarrow> (int \<times> int) list" where
  \<comment> \<open>\<open>sepInputShape\<close> and \<open>sepOutputShape\<close>\<close>
  "separate_axes [] currentInput currentOutput sep =
     (if currentOutput \<noteq> 1 \<or> currentInput \<noteq> 1 then sep @ [(currentInput, currentOutput)] else sep)"
| "separate_axes ((a, b) # rest) currentInput currentOutput sep =
     (if a \<noteq> b
      then separate_axes rest 1 1 ((if 1 < currentOutput then sep @ [(currentInput, currentOutput)] else sep) @ [(a, b)])
      else separate_axes rest (currentInput * a) (currentOutput * b) sep)"

definition broadcast_axes :: "(int \<times> int) list \<Rightarrow> (int \<times> int \<times> int) list" where
  "broadcast_axes sep =
     zip (map snd sep) (zip (map2 (\<lambda>n s. if n = 1 then 0 else s) (map fst sep) (computeStride (map fst sep)))
       (computeStride (map snd sep)))"

definition axis_or_default :: "(int \<times> int \<times> int) list \<Rightarrow> nat \<Rightarrow> int \<times> int \<times> int" where
  \<comment> \<open>the axis with the given distance from the end, or the values of a new region\<close>
  "axis_or_default axes k = (if k < length axes then axes ! (length axes - 1 - k) else (1, 1, 1))"

definition broadcast_region :: "nat \<Rightarrow> (int \<times> int \<times> int) list \<Rightarrow> int \<times> int \<Rightarrow> Region" where
  "broadcast_region origin axes offsets =
     (case (axis_or_default axes 2, axis_or_default axes 1, axis_or_default axes 0) of
       ((n0, s0, d0), (n1, s1, d1), (n2, s2, d2)) \<Rightarrow>
         \<lparr>rg_src = \<lparr>v_offset = fst offsets, v_stride = [s0, s1, s2]\<rparr>,
          rg_dst = \<lparr>v_offset = snd offsets, v_stride = [d0, d1, d2]\<rparr>,
          rg_size = [n0, n1, n2], rg_origin = Some origin\<rparr>)"

definition broadcastto :: "nat \<Rightarrow> Tensor \<Rightarrow> Tensor \<Rightarrow> bool \<Rightarrow> Region list option" where
  "broadcastto origin input output forward =
     (if prod_list (tshape input) = prod_list (tshape output)
      then do { r \<leftarrow> makeFullSlice origin input; Some [r] }
      else if forward then do {
        srcSize \<leftarrow> tlength input 0;
        l1 \<leftarrow> tlength output 1;
        multipler \<leftarrow> loop 2 (t_dimensions output) (\<lambda>i n. do { l \<leftarrow> tlength output i; Some (n * l) }) l1;
        Some [\<lparr>rg_src = \<lparr>v_offset = 0, v_stride = [srcSize, 1, 0]\<rparr>,
               rg_dst = \<lparr>v_offset = 0, v_stride = [srcSize * multipler, multipler, 1]\<rparr>,
               rg_size = [1, srcSize, multipler], rg_origin = Some origin\<rparr>] }
      else if t_dimensions output < t_dimensions input then None
      else do {
        let shapes = zip (replicate (nat (t_dimensions output - t_dimensions input)) 1 @ tshape input) (tshape output);
        shapes \<leftarrow> squeeze shapes;
        let axes = broadcast_axes (separate_axes shapes 1 1 []);
        let remaining = take (length axes - 3) axes;
        foldM (\<lambda>index regions. do {
          offsets \<leftarrow> split_offsets remaining index 0 0;
          Some (regions @ [broadcast_region origin axes offsets]) }) [0 .. prod_list (map fst remaining) - 1] [] })"

end
