(* ===== verification/MovesFacts.thy ===== *)
theory MovesFacts
  imports GeometryMoves GeometryTile PermuteFacts
begin

text \<open>
  What the regions of joining, cutting, repeating and reversing copy. The copies of axes that fill the
  destination row by row are given by a function from destination to source index (\<open>row_source\<close>).
\<close>

section \<open>Row by row\<close>

fun row_source :: "(int \<times> int) list \<Rightarrow> int \<Rightarrow> int" where
  "row_source [] d = 0"
| "row_source ((n, s) # ps) d = (let k = prod_list (map fst ps) in (d div k) * s + row_source ps (d mod k))"

lemma rows_copies:
  "\<forall>q \<in> set ps. 0 \<le> fst q \<Longrightarrow> axes_copies (rows ps) = map (\<lambda>d. (row_source ps d, d)) [0 .. prod_list (map fst ps) - 1]"
proof (induction ps rule: rows.induct)
  case (2 n s ps)
  let ?k = "prod_list (map fst ps)" and ?f = "\<lambda>d. (row_source ((n, s) # ps) d, d)"
  have n: "0 \<le> n" using 2(2) by simp
  have k: "0 \<le> ?k" using 2(2) by (induction ps) auto
  have sh: "shift (c * s) (c * ?k) (map (\<lambda>d. (row_source ps d, d)) [0 .. ?k - 1]) = map (\<lambda>r. ?f (c * ?k + r)) [0 .. ?k - 1]" for c
    unfolding shift_def map_map by (rule map_cong) (auto simp: Let_def)
  have "axes_copies (rows ((n, s) # ps)) = concat (map (\<lambda>c. map (\<lambda>r. ?f (c * ?k + r)) [0 .. ?k - 1]) [0 .. n - 1])"
    using 2 by (simp only: rows.simps axes_copies.simps sh) (simp add: sh)
  also have "\<dots> = map ?f [0 .. n * ?k - 1]"
    unfolding upto_blocks [OF n k] map_concat map_map comp_def ..
  finally show ?case by simp
qed simp

lemma output_strides_simps: "output_strides [] = []" "output_strides (n # S) = prod_list S # output_strides S"
proof -
  have acc: "fst (foldr (\<lambda>n (stride, acc). (stride * n, stride # acc)) S (1, [])) = prod_list S" for S :: "int list"
    by (induction S) (auto simp: case_prod_unfold)
  show "output_strides [] = []" "output_strides (n # S) = prod_list S # output_strides S"
    using acc [of S] by (simp_all add: output_strides_def case_prod_unfold)
qed

lemma output_strides_at: "i < length S \<Longrightarrow> output_strides S ! i = row_stride S i" "length (output_strides S) = length S"
proof -
  show "length (output_strides S) = length S" by (induction S) (simp_all add: output_strides_simps)
  show "i < length S \<Longrightarrow> output_strides S ! i = row_stride S i"
    by (induction S arbitrary: i) (auto simp: output_strides_simps row_stride_def nth_Cons split: nat.split)
qed

section \<open>Tile\<close>

text \<open>Every dimension is its multiple, which moves the destination only, and its extent.\<close>

fun tile_rows :: "(int \<times> int) list \<Rightarrow> (int \<times> int) list" where
  "tile_rows [] = []"
| "tile_rows ((il, ml) # ps) = (ml, 0) # (il, prod_list (map fst ps)) # tile_rows ps"

abbreviation tile_ins :: "(int \<times> int) list \<Rightarrow> int" where
  "tile_ins ps \<equiv> prod_list (map fst ps)"

abbreviation tile_outs :: "(int \<times> int) list \<Rightarrow> int" where
  "tile_outs ps \<equiv> prod_list (map (\<lambda>(il, ml). il * ml) ps)"

lemma tile_rows_prod [simp]: "prod_list (map fst (tile_rows ps)) = tile_outs ps"
  by (induction ps rule: tile_rows.induct) auto

lemma tile_rows_cons: "rows (tile_rows ((il, ml) # ps)) = (ml, 0, il * tile_outs ps) # (il, tile_ins ps, tile_outs ps) # rows (tile_rows ps)"
  by simp

definition tile_pending :: "TileState \<Rightarrow> (int \<times> int) list \<Rightarrow> axis list" where
  "tile_pending st ps = (if ts_status st = 1 then [(ts_prevMulti st, 0, tile_outs ps)]
     else if ts_status st = 2 then [(ts_prevInput st, tile_ins ps, tile_outs ps)] else [])"

fun tile_count :: "(int \<times> int) list \<Rightarrow> nat" where
  \<comment> \<open>the axes that dimensions with these extents and multiples need\<close>
  "tile_count [] = 0"
| "tile_count ((il, ml) # ps) = (if il = 1 \<and> ml = 1 then 0 else if il = 1 \<or> ml = 1 then 1 else 2) + tile_count ps"

definition tile_inv :: "(int \<times> int) list \<Rightarrow> (int \<times> int) list \<Rightarrow> TileState \<Rightarrow> bool" where
  \<comment> \<open>\<open>ps\<close> is what remains of \<open>all\<close>; the pending axis belongs to the dimension \<open>ts_prevIndex\<close>\<close>
  "tile_inv all ps st \<longleftrightarrow> ts_status st \<in> {0, 1, 2} \<and>
     axes_copies (ts_axes st @ tile_pending st ps @ rows (tile_rows ps)) = axes_copies (rows (tile_rows all)) \<and>
     (\<forall>a \<in> set (ts_axes st @ tile_pending st ps). 0 \<le> fst a) \<and>
     length (ts_axes st @ tile_pending st ps) + tile_count ps \<le> MNN_MAX_TENSOR_DIM \<and>
     (ts_status st \<noteq> 0 \<longrightarrow> 0 \<le> ts_prevIndex st \<and> nat (ts_prevIndex st) < length all \<and>
        tile_outs ps = tile_outs (drop (Suc (nat (ts_prevIndex st))) all)) \<and>
     (ts_status st = 1 \<longrightarrow> fst (all ! nat (ts_prevIndex st)) = 1) \<and>
     (ts_status st = 2 \<longrightarrow> tile_ins ps = tile_ins (drop (Suc (nat (ts_prevIndex st))) all))"

lemma axes_head: "axes_copies ((ml, s, d) # (1, s', d') # axes) = axes_copies ((ml, s, d) # axes)"
  using axes_context [OF axes_unit, of "[(ml, s, d)]"] by simp

definition tile_env :: "Tensor \<Rightarrow> int list \<Rightarrow> int list \<Rightarrow> int list \<Rightarrow> (int \<times> int) list \<Rightarrow> bool" where
  \<comment> \<open>the arrays hold the extents, multiples and strides of \<open>all\<close>\<close>
  "tile_env input mulPtr inS outS all \<longleftrightarrow> (\<forall>p < length all. tlength input (int p) = Some (fst (all ! p)) \<and> arr_at mulPtr (int p) = Some (snd (all ! p)) \<and>
     arr_at inS (int p) = Some (tile_ins (drop (Suc p) all)) \<and> arr_at outS (int p) = Some (tile_outs (drop (Suc p) all)))"

lemma tile_flush:
  assumes env: "tile_env input mulPtr inS outS all" and inv: "tile_inv all ps st"
  shows "ts_status st = 1 \<Longrightarrow> tile_multi input outS st = Some (st\<lparr>ts_axes := ts_axes st @ tile_pending st ps\<rparr>)"
    "ts_status st = 2 \<Longrightarrow> tile_input inS outS st = Some (st\<lparr>ts_axes := ts_axes st @ tile_pending st ps\<rparr>)"
proof -
  let ?p = "nat (ts_prevIndex st)"
  have p: "ts_status st \<noteq> 0 \<Longrightarrow> ts_prevIndex st = int ?p \<and> ?p < length all \<and> tile_outs ps = tile_outs (drop (Suc ?p) all)"
    using inv by (auto simp: tile_inv_def)
  have e: "tlength input (int q) = Some (fst (all ! q))" "arr_at inS (int q) = Some (tile_ins (drop (Suc q) all))"
    "arr_at outS (int q) = Some (tile_outs (drop (Suc q) all))" if "q < length all" for q using env that by (auto simp: tile_env_def)
  have room: "ts_status st \<noteq> 0 \<Longrightarrow> push_axis (ts_axes st) a = Some (ts_axes st @ [a])" for a
    using inv by (auto simp: tile_inv_def tile_pending_def push_axis_def)
  show "tile_multi input outS st = Some (st\<lparr>ts_axes := ts_axes st @ tile_pending st ps\<rparr>)" if s: "ts_status st = 1"
  proof -
    have "fst (all ! ?p) = 1" using inv s by (simp add: tile_inv_def)
    then show ?thesis using p e [of ?p] s room by (simp add: tile_multi_def tile_pending_def)
  qed
  show "tile_input inS outS st = Some (st\<lparr>ts_axes := ts_axes st @ tile_pending st ps\<rparr>)" if s: "ts_status st = 2"
  proof -
    have "tile_ins ps = tile_ins (drop (Suc ?p) all)" using inv s by (simp add: tile_inv_def)
    then show ?thesis using p e [of ?p] s room by (simp add: tile_input_def tile_pending_def)
  qed
qed

text \<open>A new pending axis, or none, behind the exported ones.\<close>

lemma tile_invI:
  assumes "axes_copies (ts_axes st @ tile_pending st ps @ rows (tile_rows ps)) = axes_copies (rows (tile_rows all))"
    and "\<forall>a \<in> set (ts_axes st @ tile_pending st ps). 0 \<le> fst a" and "ts_status st \<in> {0, 1, 2}"
    and "length (ts_axes st @ tile_pending st ps) + tile_count ps \<le> MNN_MAX_TENSOR_DIM"
    and "ts_status st \<noteq> 0 \<Longrightarrow> ts_prevIndex st = int i \<and> i < length all \<and> ps = drop (Suc i) all"
    and "ts_status st = 1 \<Longrightarrow> fst (all ! i) = 1"
  shows "tile_inv all ps st"
  using assms by (auto simp: tile_inv_def)

lemma tile_step_inv:
  assumes env: "tile_env input mulPtr inS outS all" and i: "i < length all" "drop i all = (il, ml) # ps"
    and pos: "0 < il" "0 < ml" and inv: "tile_inv all ((il, ml) # ps) st"
  shows "\<exists>st'. tile_step input mulPtr inS outS (int i) st = ret st' \<and> tile_inv all ps st'"
proof -
  let ?PS = "(il, ml) # ps" and ?O = "tile_outs ps" and ?I = "tile_ins ps" and ?R = "rows (tile_rows ps)"
  have all_i: "all ! i = (il, ml)" "ps = drop (Suc i) all" using i Cons_nth_drop_Suc [of i all] by auto
  have e: "tlength input (int i) = Some il" "arr_at mulPtr (int i) = Some ml" "arr_at inS (int i) = Some ?I" "arr_at outS (int i) = Some ?O"
    using env i(1) all_i by (auto simp: tile_env_def)
  have P: "axes_copies (ts_axes st @ tile_pending st ?PS @ (ml, 0, il * ?O) # (il, ?I, ?O) # ?R) = axes_copies (rows (tile_rows all))"
    "\<forall>a \<in> set (ts_axes st @ tile_pending st ?PS). 0 \<le> fst a" "ts_status st \<in> {0, 1, 2}"
    "length (ts_axes st @ tile_pending st ?PS) + tile_count ?PS \<le> MNN_MAX_TENSOR_DIM"
    using inv by (simp_all add: tile_inv_def)
  let ?A = "ts_axes st" and ?Q = "tile_pending st ?PS"
  have ref: "axes_copies (?A @ ?Q @ xs) = axes_copies (rows (tile_rows all))" if "axes_copies xs = axes_copies ((ml, 0, il * ?O) # (il, ?I, ?O) # ?R)" for xs
    using axes_context [OF that, of "?A @ ?Q"] P(1) by simp
  show ?thesis
  proof -
    consider (one) "il = 1" "ml = 1" | (multi) "il = 1" "1 < ml" | (inp) "1 < il" "ml = 1" | (both) "1 < il" "1 < ml"
      using pos by linarith
    then show ?thesis
    proof cases
      case one
      have "axes_copies (?A @ ?Q @ ?R) = axes_copies (rows (tile_rows all))"
        by (rule ref) (simp add: one axes_head axes_unit del: axes_copies.simps)
      moreover have "tile_pending st ps = ?Q" by (simp add: tile_pending_def one)
      ultimately have "tile_inv all ps st" using inv by (simp add: tile_inv_def one)
      then show ?thesis using e one by (simp add: tile_step_def)
    next
      case multi
      have new: "axes_copies ((ml, 0, ?O) # ?R) = axes_copies ((ml, 0, il * ?O) # (il, ?I, ?O) # ?R)"
        unfolding multi(1) axes_head by simp
      have fin: "tile_inv all ps s"
        if "axes_copies (ts_axes s @ (ts_prevMulti s, 0, ?O) # ?R) = axes_copies (rows (tile_rows all))" "\<forall>a \<in> set (ts_axes s). 0 \<le> fst a"
          "0 \<le> ts_prevMulti s" "ts_status s = 1" "ts_prevIndex s = int i" "length (ts_axes s) + 1 + tile_count ps \<le> MNN_MAX_TENSOR_DIM" for s
        by (rule tile_invI [where i = i]) (use that i(1) all_i multi(1) in \<open>simp_all add: tile_pending_def\<close>)
      consider "ts_status st = 0" | "ts_status st = 1" | "ts_status st = 2" using P(3) by auto
      then show ?thesis
      proof cases
        case 1
        then have "?Q = []" by (simp add: tile_pending_def)
        then show ?thesis using ref [OF new] P(2,4) e multi 1 by (simp add: tile_step_def fin)
      next
        case 2
        then have Q: "?Q = [(ts_prevMulti st, 0, ml * ?O)]" by (simp add: tile_pending_def multi(1))
        have pm: "0 \<le> ts_prevMulti st" using P(2) Q by simp
        have "axes_copies (?A @ (ts_prevMulti st * ml, 0, ?O) # ?R) = axes_copies (?A @ ?Q @ (ml, 0, ?O) # ?R)"
          using axes_context [OF axes_split [OF pm, of ml 0 ?O ?R], of ?A] pos(2) Q by simp
        then show ?thesis using ref [OF new] P(2,4) pm pos(2) e multi 2 Q by (simp add: tile_step_def fin)
      next
        case 3
        then show ?thesis
          using ref [OF new] P(2,4) pos(2) e multi 3 tile_flush(2) [OF env inv 3] by (simp add: tile_step_def fin)
      qed
    next
      case inp
      have new: "axes_copies ((il, ?I, ?O) # ?R) = axes_copies ((ml, 0, il * ?O) # (il, ?I, ?O) # ?R)"
        unfolding inp(2) axes_unit by simp
      have fin: "tile_inv all ps s"
        if "axes_copies (ts_axes s @ (ts_prevInput s, ?I, ?O) # ?R) = axes_copies (rows (tile_rows all))" "\<forall>a \<in> set (ts_axes s). 0 \<le> fst a"
          "0 \<le> ts_prevInput s" "ts_status s = 2" "ts_prevIndex s = int i" "length (ts_axes s) + 1 + tile_count ps \<le> MNN_MAX_TENSOR_DIM" for s
        by (rule tile_invI [where i = i]) (use that i(1) all_i inp(2) in \<open>simp_all add: tile_pending_def\<close>)
      consider "ts_status st = 0" | "ts_status st = 1" | "ts_status st = 2" using P(3) by auto
      then show ?thesis
      proof cases
        case 1
        then have "?Q = []" by (simp add: tile_pending_def)
        then show ?thesis using ref [OF new] P(2,4) e inp 1 by (simp add: tile_step_def fin)
      next
        case 3
        then have Q: "?Q = [(ts_prevInput st, il * ?I, il * ?O)]" by (simp add: tile_pending_def inp(2))
        have pm: "0 \<le> ts_prevInput st" using P(2) Q by simp
        have "axes_copies (?A @ (ts_prevInput st * il, ?I, ?O) # ?R) = axes_copies (?A @ ?Q @ (il, ?I, ?O) # ?R)"
          using axes_context [OF axes_split [OF pm, of il ?I ?O ?R], of ?A] pos(1) Q by simp
        then show ?thesis using ref [OF new] P(2,4) pm pos(1) e inp 3 Q by (simp add: tile_step_def fin)
      next
        case 2
        then show ?thesis
          using ref [OF new] P(2,4) pos(1) e inp 2 tile_flush(1) [OF env inv 2] by (simp add: tile_step_def fin)
      qed
    next
      case both
      have fin: "tile_inv all ps s"
        if "axes_copies (ts_axes s @ ?R) = axes_copies (rows (tile_rows all))" "\<forall>a \<in> set (ts_axes s). 0 \<le> fst a" "ts_status s = 0"
          "length (ts_axes s) + tile_count ps \<le> MNN_MAX_TENSOR_DIM" for s
        by (rule tile_invI) (use that in \<open>simp_all add: tile_pending_def\<close>)
      consider "ts_status st = 0" | "ts_status st = 1" | "ts_status st = 2" using P(3) by auto
      then show ?thesis
      proof cases
        case 1
        then have "?Q = []" by (simp add: tile_pending_def)
        then show ?thesis using P e both 1 by (simp add: tile_step_def push_axis_def fin)
      next
        case 2
        then have Q: "?Q = [(ts_prevMulti st, 0, ml * (il * ?O))]" by (simp add: tile_pending_def ac_simps)
        have pm: "0 \<le> ts_prevMulti st" using P(2) Q by simp
        have "axes_copies (?A @ (ts_prevMulti st * ml, 0, il * ?O) # (il, ?I, ?O) # ?R) = axes_copies (?A @ ?Q @ (ml, 0, il * ?O) # (il, ?I, ?O) # ?R)"
          using axes_context [OF axes_split [OF pm, of ml 0 "il * ?O" "(il, ?I, ?O) # ?R"], of ?A] pos(2) Q by simp
        then show ?thesis using P pm pos(2) e both 2 Q by (simp add: tile_step_def push_axis_def fin mult.commute)
      next
        case 3
        then show ?thesis
          using P pos(2) e both 3 tile_flush(2) [OF env inv 3] by (simp add: tile_step_def push_axis_def tile_pending_def fin)
      qed
    qed
  qed
qed

text \<open>The element of the input at an index of the output: every coordinate modulo the input's extent.\<close>

fun tile_source :: "(int \<times> int) list \<Rightarrow> int \<Rightarrow> int" where
  "tile_source [] d = 0"
| "tile_source ((il, ml) # ps) d = (let k = tile_outs ps in (d div k) mod il * tile_ins ps + tile_source ps (d mod k))"

lemma tile_outs_pos: "\<forall>(il, ml) \<in> set ps. 0 < il \<and> 0 < ml \<Longrightarrow> 0 < tile_outs ps"
  by (induction ps) auto

lemma row_source_tile: "\<forall>(il, ml) \<in> set ps. 0 < il \<and> 0 < ml \<Longrightarrow> row_source (tile_rows ps) d = tile_source ps d"
proof (induction ps arbitrary: d rule: tile_rows.induct)
  case (2 il ml ps)
  let ?O = "tile_outs ps"
  have O: "0 < ?O" and il: "0 < il" using 2(2) tile_outs_pos [of ps] by auto
  have m: "d mod (?O * il) = ?O * (d div ?O mod il) + d mod ?O" using il by (simp add: zmod_zmult2_eq)
  have "d mod (il * ?O) div ?O = d div ?O mod il" "d mod (il * ?O) mod ?O = d mod ?O"
    using O m by (simp_all add: mult.commute [of il])
  then show ?case using 2 by (simp add: Let_def)
qed simp

lemma tile_rest_axes:
  assumes env: "tile_env input mulPtr inS outS all" and inv: "tile_inv all [] st"
  shows "\<exists>st'. tile_rest input inS outS st = Some st' \<and> axes_copies (ts_axes st') = axes_copies (rows (tile_rows all)) \<and>
    (\<forall>a \<in> set (ts_axes st'). 0 \<le> fst a)"
proof -
  note flush = tile_flush [OF env inv]
  have I: "ts_status st \<in> {0, 1, 2}" "axes_copies (ts_axes st @ tile_pending st []) = axes_copies (rows (tile_rows all))"
    "\<forall>a \<in> set (ts_axes st @ tile_pending st []). 0 \<le> fst a" using inv by (simp_all add: tile_inv_def)
  consider "ts_status st = 0" | "ts_status st = 1" | "ts_status st = 2" using I(1) by auto
  then show ?thesis
  proof cases
    case 1
    then show ?thesis using I(2,3) by (simp add: tile_rest_def tile_pending_def)
  next
    case 2
    then show ?thesis using I(2,3) flush(1) by (simp add: tile_rest_def)
  next
    case 3
    then show ?thesis using I(2,3) flush(2) by (simp add: tile_rest_def)
  qed
qed

lemma pad_axes_copies: "axes_copies (pad_axes axes) = axes_copies axes"
proof -
  have "axes_copies (replicate k (1, 0, 0)) = axes_copies []" for k
    by (induction k) (simp_all add: axes_unit del: axes_copies.simps(2))
  from axes_context [OF this, of axes] show ?thesis by (simp add: pad_axes_def)
qed

text \<open>
  C32: \<open>GeometryTile\<close> for any multiples that are not negative, and at most nine axes after fusing, gives regions that write every element of the
  output once, in order, from the element of the input whose coordinate in each dimension is the output's
  modulo the extent. Extents and multiples of 0 give no copies.
\<close>

theorem tile_regions_copy:
  assumes wf: "tensor_wf input" "tensor_wf output" and n: "t_dimensions output = t_dimensions input"
    and mul: "tshape output = map2 (*) (tshape input) muls" "length muls = length (tshape input)" "take (length muls) mulPtr = muls"
    and nonneg: "\<forall>l \<in> set (tshape input). 0 \<le> l" "\<forall>m \<in> set muls. 0 \<le> m"
    and fits: "tile_count (zip (tshape input) muls) \<le> 9"
  shows "\<exists>rs. GeometryTile origin input mulPtr output = Some rs \<and>
    concat (map region_copies rs) = map (\<lambda>d. (tile_source (zip (tshape input) muls) d, d)) [0 .. prod_list (tshape output) - 1]"
proof -
  let ?ins = "tshape input" and ?all = "zip (tshape input) muls"
  have dims: "t_dimensions input = int (length ?all)" "length ?all = length ?ins"
    using wf(1) mul(2) tshape_length [OF wf(1)] by (simp_all add: tensor_wf_def)
  have fsts: "map fst (drop k ?all) = drop k ?ins" for k using mul(2) by (simp add: drop_zip drop_map flip: drop_map)
  have outs: "map (\<lambda>(il, ml). il * ml) (drop k ?all) = drop k (tshape output)" for k
    using mul(1) by (simp add: drop_map)
  have env: "tile_env input mulPtr (computeStride ?ins) (computeStride (tshape output)) ?all"
    unfolding tile_env_def
  proof (intro allI impI conjI)
    fix p assume p: "p < length ?all"
    show "tlength input (int p) = Some (fst (?all ! p))" using tlength_shape [OF wf(1), of p] p by simp
    have pm: "p < length muls" using p by simp
    have "length muls \<le> length mulPtr" using arg_cong [OF mul(3), of length] by simp
    moreover have "mulPtr ! p = muls ! p" using nth_take [OF pm, of mulPtr] mul(3) by simp
    ultimately have "mulPtr ! p = muls ! p" "p < length mulPtr" using pm by simp_all
    then show "arr_at mulPtr (int p) = Some (snd (?all ! p))" using p by (simp add: arr_at_def)
    have "p < length (tshape output)" using mul(1,2) p by simp
    then show "arr_at (computeStride ?ins) (int p) = Some (tile_ins (drop (Suc p) ?all))"
      "arr_at (computeStride (tshape output)) (int p) = Some (tile_outs (drop (Suc p) ?all))"
      using output_strides_at(1) [of p ?ins] output_strides_at(1) [of p "tshape output"] output_strides_at(2) p unfolding fsts outs
      by (simp_all add: arr_at_def computeStride_def row_stride_def)
  qed
  have take_out: "take (nat (t_dimensions input)) (tshape output) = tshape output" using mul(1) dims by simp
  let ?init = "\<lparr>ts_status = 0, ts_prevInput = 1, ts_prevMulti = 1, ts_prevIndex = 0, ts_axes = []\<rparr>"
  let ?step = "tile_step input mulPtr (computeStride ?ins) (computeStride (tshape output))"
  let ?P = "\<lambda>i st. tile_inv ?all (drop (nat i) ?all) st \<and> (\<forall>q \<in> set (take (nat i) ?all). 0 < fst q \<and> 0 < snd q)"
  have "(\<exists>st. loopC 0 (int (length ?all)) ?step ?init = ret st \<and> ?P (int (length ?all)) st) \<or>
      (loopC 0 (int (length ?all)) ?step ?init = ret_false \<and> (\<exists>q \<in> set ?all. fst q = 0 \<or> snd q = 0))"
  proof (rule loopC_rule)
    show "?P 0 ?init" using fits by (simp add: tile_inv_def tile_pending_def MNN_MAX_TENSOR_DIM_def)
    fix i st assume i: "0 \<le> i" "i < int (length ?all)" "?P i st"
    let ?i = "nat i"
    obtain il ml where q: "?all ! ?i = (il, ml)" by fastforce
    have mem: "(il, ml) \<in> set ?all" using q i by (metis nat_less_iff nth_mem)
    then have ge: "0 \<le> il" "0 \<le> ml" using nonneg by (auto dest: set_zip_leftD set_zip_rightD)
    have lt: "?i < length ?all" using i(1,2) by linarith
    have ps: "drop ?i ?all = (il, ml) # drop (Suc ?i) ?all" using Cons_nth_drop_Suc [OF lt] unfolding q ..
    show "(\<exists>u. ?step i st = ret u \<and> ?P (i + 1) u) \<or> (?step i st = ret_false \<and> (\<exists>q \<in> set ?all. fst q = 0 \<or> snd q = 0))"
    proof (cases "il = 0 \<or> ml = 0")
      case True
      have "tlength input i = Some il" "arr_at mulPtr i = Some ml"
        using env i(1,2) q unfolding tile_env_def by (auto dest!: spec [of _ ?i])
      then have "?step i st = ret_false" using True by (simp add: tile_step_def)
      then show ?thesis using True mem by force
    next
      case False
      then have pos: "0 < il" "0 < ml" using ge by auto
      from tile_step_inv [OF env lt ps pos] i(3) obtain u where
        "?step (int ?i) st = ret u" "tile_inv ?all (drop (Suc ?i) ?all) u" unfolding ps by blast
      moreover have "nat (i + 1) = Suc ?i" "int ?i = i" using i by simp_all
      moreover have "\<forall>q \<in> set (take (Suc ?i) ?all). 0 < fst q \<and> 0 < snd q"
        using i(3) pos q unfolding take_Suc_conv_app_nth [OF lt] by auto
      ultimately show ?thesis by auto
    qed
  qed simp
  then show ?thesis
  proof (elim disjE exE conjE)
    fix st assume st: "loopC 0 (int (length ?all)) ?step ?init = ret st" "tile_inv ?all (drop (nat (int (length ?all))) ?all) st"
      "\<forall>q \<in> set (take (nat (int (length ?all))) ?all). 0 < fst q \<and> 0 < snd q"
    have pos: "\<forall>(il, ml) \<in> set ?all. 0 < il \<and> 0 < ml" using st(3) by auto
    obtain st' where st': "tile_rest input (computeStride ?ins) (computeStride (tshape output)) st = Some st'"
        "axes_copies (ts_axes st') = axes_copies (rows (tile_rows ?all))" "\<forall>a \<in> set (ts_axes st'). 0 \<le> fst a"
      using tile_rest_axes [OF env] st(2) by auto
    have "\<forall>a \<in> set (pad_axes (ts_axes st')). 0 \<le> fst a" using st'(3) by (auto simp: pad_axes_def)
    from loop_regions_copies [OF this] obtain rs where
      rs: "loop_regions origin (pad_axes (ts_axes st')) = Some rs" "concat (map region_copies rs) = axes_copies (rows (tile_rows ?all))"
      using st'(2) pad_axes_copies by metis
    have "GeometryTile origin input mulPtr output = Some rs"
      using st(1) st'(1) rs(1) dims(1) take_out by (simp add: GeometryTile_def)
    moreover have "\<forall>q \<in> set (tile_rows ps). 0 \<le> fst q" if "\<forall>(il, ml) \<in> set ps. 0 < il \<and> 0 < ml" for ps
      using that by (induction ps rule: tile_rows.induct) auto
    ultimately show ?thesis
      using rs(2) rows_copies [of "tile_rows ?all"] pos row_source_tile [OF pos] outs [of 0] by (simp add: mul(1))
  next
    assume z: "loopC 0 (int (length ?all)) ?step ?init = ret_false"
    assume "\<exists>q \<in> set ?all. fst q = 0 \<or> snd q = 0"
    then have "0 \<in> set (tshape output)" unfolding mul(1) by force
    then have "prod_list (tshape output) = 0" by (simp add: prod_list_zero_iff)
    then show ?thesis using z dims(1) take_out by (simp add: GeometryTile_def)
  qed
qed

theorem tile_regions_copy_witness:
  "\<exists>rs. GeometryTile 7 (tensor_of [2, 1, 3] MNN_NCHW []) [2, 4, 1] (tensor_of [4, 4, 3] MNN_NCHW []) = Some rs \<and>
    concat (map region_copies rs) = map (\<lambda>d. (tile_source [(2, 2), (1, 4), (3, 1)] d, d)) [0 .. 47]"
  using tile_regions_copy [of "tensor_of [2, 1, 3] MNN_NCHW []" "tensor_of [4, 4, 3] MNN_NCHW []" "[2, 4, 1]" "[2, 4, 1]" 7]
  by (simp del: tile_source.simps)

text \<open>Five dimensions that are all repeated need ten axes, one more than the arrays have: the last write is
  outside of them.\<close>

theorem tile_five_axes_overrun:
  assumes wf: "tensor_wf input" "tensor_wf output" and n: "t_dimensions output = 5" "t_dimensions input = 5"
    and big: "\<forall>l \<in> set (tshape input). 1 < l" "\<forall>m \<in> set (take 5 mulPtr). 1 < m" "5 \<le> length mulPtr"
  shows "GeometryTile origin input mulPtr output = None"
proof -
  let ?inS = "computeStride (tshape input)" and ?outS = "computeStride (take (nat (t_dimensions input)) (tshape output))"
  let ?step = "tile_step input mulPtr ?inS ?outS"
  have len: "length (tshape input) = 5" "length (tshape output) = 5" using wf n tshape_length by (simp_all add: tensor_wf_def)
  have at: "\<exists>l m s d. tlength input i = Some l \<and> 1 < l \<and> arr_at mulPtr i = Some m \<and> 1 < m \<and> arr_at ?inS i = Some s \<and> arr_at ?outS i = Some d"
    if i: "0 \<le> i" "i < 5" for i
  proof -
    let ?k = "nat i"
    have k: "?k < 5" using i by simp
    have "mulPtr ! ?k \<in> set (take 5 mulPtr)" using nth_mem [of ?k "take 5 mulPtr"] k big(3) by simp
    then show ?thesis
      using tlength_shape [OF wf(1), of ?k] k len big output_strides_at(2) [of "tshape input"] output_strides_at(2) [of "tshape output"] n i
      by (simp add: arr_at_def computeStride_def)
  qed
  have go: "\<exists>u. ?step i st = ret u \<and> ts_status u = 0 \<and> length (ts_axes u) = length (ts_axes st) + 2"
    if i: "0 \<le> i" "i < 5" "ts_status st = 0" "length (ts_axes st) + 2 \<le> 9" for i st
  proof -
    obtain l m s d where "tlength input i = Some l" "1 < l" "arr_at mulPtr i = Some m" "1 < m" "arr_at ?inS i = Some s" "arr_at ?outS i = Some d"
      using at [OF i(1,2)] by blast
    then show ?thesis using i(3,4) by (simp add: tile_step_def push_axis_def MNN_MAX_TENSOR_DIM_def)
  qed
  have stop: "?step i st = None" if i: "0 \<le> i" "i < 5" "ts_status st = 0" "8 \<le> length (ts_axes st)" for i st
  proof -
    obtain l m s d where "tlength input i = Some l" "1 < l" "arr_at mulPtr i = Some m" "1 < m" "arr_at ?inS i = Some s" "arr_at ?outS i = Some d"
      using at [OF i(1,2)] by blast
    then show ?thesis using i(3,4) by (simp add: tile_step_def push_axis_def MNN_MAX_TENSOR_DIM_def)
  qed
  have "k \<le> 4 \<Longrightarrow> ts_status st = 0 \<Longrightarrow> length (ts_axes st) = 8 - 2 * k \<Longrightarrow> foldC ?step [4 - int k .. 4] st = None" for k st
  proof (induction k arbitrary: st)
    case 0
    then show ?case using stop [of 4 st] by simp
  next
    case (Suc k)
    then have "0 \<le> 4 - int (Suc k)" "4 - int (Suc k) < 5" "length (ts_axes st) + 2 = 8 - 2 * k" by auto
    then obtain u where "?step (4 - int (Suc k)) st = ret u" "ts_status u = 0" "length (ts_axes u) = 8 - 2 * k"
      using go [of "4 - int (Suc k)" st] Suc.prems(2) by fastforce
    then show ?case using Suc.IH [of u] Suc.prems(1) upto_rec1 [of "4 - int (Suc k)" 4] by simp
  qed
  from this [of 4] show ?thesis by (simp add: GeometryTile_def loopC_def n)
qed

theorem tile_five_axes_overrun_witness:
  "GeometryTile 7 (tensor_of [2, 2, 2, 2, 2] MNN_NCHW []) [2, 2, 2, 2, 2] (tensor_of [4, 4, 4, 4, 4] MNN_NCHW []) = None"
  by (rule tile_five_axes_overrun) simp_all

section \<open>BroadcastTo\<close>

text \<open>Every dimension moves the source by the stride of the input, or not at all where the input's extent is 1.\<close>

abbreviation ins :: "(int \<times> int) list \<Rightarrow> int" where
  "ins ps \<equiv> prod_list (map fst ps)"

abbreviation outs :: "(int \<times> int) list \<Rightarrow> int" where
  "outs ps \<equiv> prod_list (map snd ps)"

fun broadcast_rows :: "(int \<times> int) list \<Rightarrow> (int \<times> int) list" where
  "broadcast_rows [] = []"
| "broadcast_rows ((i, k) # ps) = (k, if i = 1 then 0 else ins ps) # broadcast_rows ps"

fun broadcast_source :: "(int \<times> int) list \<Rightarrow> int \<Rightarrow> int" where
  \<comment> \<open>the element of the input at an index of the output\<close>
  "broadcast_source [] d = 0"
| "broadcast_source ((i, k) # ps) d = (if i = 1 then 0 else d div outs ps * ins ps) + broadcast_source ps (d mod outs ps)"

definition broadcast_copies :: "(int \<times> int) list \<Rightarrow> (int \<times> int) list" where
  "broadcast_copies ps = axes_copies (rows (broadcast_rows ps))"

definition bcast_ok :: "(int \<times> int) list \<Rightarrow> bool" where
  "bcast_ok ps \<longleftrightarrow> (\<forall>(i, k) \<in> set ps. (i = k \<or> i = 1) \<and> 0 < i \<and> 0 < k)"

lemma bcast_ok_simps [simp]: "bcast_ok []" "bcast_ok ((i, k) # ps) \<longleftrightarrow> (i = k \<or> i = 1) \<and> 0 < i \<and> 0 < k \<and> bcast_ok ps"
  "bcast_ok (ps @ qs) \<longleftrightarrow> bcast_ok ps \<and> bcast_ok qs"
  by (simp_all add: bcast_ok_def ball_Un conj_assoc)

lemma broadcast_rows_fst [simp]: "map fst (broadcast_rows ps) = map snd ps"
  by (induction ps rule: broadcast_rows.induct) auto

lemma row_source_broadcast: "row_source (broadcast_rows ps) d = broadcast_source ps d"
  by (induction ps arbitrary: d rule: broadcast_rows.induct) (simp_all add: Let_def)

lemma broadcast_copies_result:
  "bcast_ok ps \<Longrightarrow> broadcast_copies ps = map (\<lambda>d. (broadcast_source ps d, d)) [0 .. outs ps - 1]"
proof -
  assume ok: "bcast_ok ps"
  have "\<forall>q \<in> set (broadcast_rows ps). 0 \<le> fst q"
    using ok by (induction ps rule: broadcast_rows.induct) auto
  then show ?thesis using rows_copies [of "broadcast_rows ps"] by (simp add: broadcast_copies_def row_source_broadcast)
qed

lemma broadcast_cong:
  assumes "broadcast_copies xs = broadcast_copies ys" "ins xs = ins ys" "outs xs = outs ys"
  shows "broadcast_copies (as @ xs) = broadcast_copies (as @ ys)"
proof (induction as)
  case (Cons a as)
  obtain i k where "a = (i, k)" by fastforce
  then show ?case using Cons assms(2,3) by (simp add: broadcast_copies_def)
qed (simp add: assms(1))

lemma broadcast_unit: "broadcast_copies ((1, 1) # ps) = broadcast_copies ps"
  unfolding broadcast_copies_def broadcast_rows.simps rows.simps axes_unit ..

lemma broadcast_fuse_ones: "0 \<le> b \<Longrightarrow> 0 \<le> d \<Longrightarrow> broadcast_copies ((1, b) # (1, d) # ps) = broadcast_copies ((1, b * d) # ps)"
  using axes_split [of b d 0 "outs ps" "rows (broadcast_rows ps)"] by (simp add: broadcast_copies_def del: axes_copies.simps)

lemma broadcast_fuse_equal:
  assumes "1 < c" "1 < a"
  shows "broadcast_copies ((c, c) # (a, a) # ps) = broadcast_copies ((c * a, c * a) # ps)"
proof -
  have "c * a \<noteq> 1" using assms by (simp add: zmult_eq_1_iff)
  then show ?thesis
    using axes_split [of c a "ins ps" "outs ps" "rows (broadcast_rows ps)"] assms by (simp add: broadcast_copies_def del: axes_copies.simps)
qed

lemma squeeze_pass_ok:
  "squeeze_pass ds ps f = Some (qs, f') \<Longrightarrow> bcast_ok (ds @ ps) \<Longrightarrow>
     bcast_ok qs \<and> broadcast_copies qs = broadcast_copies (ds @ ps) \<and> ins qs = ins (ds @ ps) \<and> outs qs = outs (ds @ ps) \<and>
     length qs \<le> length ds + length ps"
proof (induction ds ps f rule: squeeze_pass.induct)
  case (1 ds a b c d rest f)
  show ?case
  proof (cases "a = 1 \<and> c = 1")
    case True
    have "broadcast_copies (ds @ (1, b * d) # rest) = broadcast_copies (ds @ (1, b) # (1, d) # rest)"
      by (rule broadcast_cong) (use broadcast_fuse_ones [of b d rest] 1(4) True in auto)
    then show ?thesis using 1 True by (auto split: if_splits)
  next
    case False
    then have "squeeze_pass (ds @ [(a, b)]) ((c, d) # rest) f = Some (qs, f')" using 1(3) by (simp only: squeeze_pass.simps if_False)
    from 1(2) [OF False this] 1(4) show ?thesis by simp
  qed
qed auto

lemma squeeze_pass_some: "length ds + length ps < MNN_MAX_TENSOR_DIM \<Longrightarrow> squeeze_pass ds ps f \<noteq> None"
  by (induction ds ps f rule: squeeze_pass.induct) auto

lemma squeeze_ok:
  "bcast_ok ps \<Longrightarrow> length ps < MNN_MAX_TENSOR_DIM \<Longrightarrow>
     \<exists>qs. squeeze ps = Some qs \<and> bcast_ok qs \<and> broadcast_copies qs = broadcast_copies ps \<and> ins qs = ins ps \<and> outs qs = outs ps"
proof (induction ps rule: squeeze.induct)
  case (1 ps)
  show ?case
  proof (cases "2 \<le> length ps")
    case True
    obtain qs f where q: "squeeze_pass [] ps False = Some (qs, f)"
      using squeeze_pass_some [of "[]" ps False] "1.prems"(2) by auto
    note r = squeeze_pass_ok [OF q]
    show ?thesis
    proof (cases f)
      case f: True
      have "squeeze ps = squeeze qs" using True q f by simp
      moreover have "bcast_ok qs" "length qs < MNN_MAX_TENSOR_DIM" using r "1.prems" by auto
      moreover have "broadcast_copies qs = broadcast_copies ps" "ins qs = ins ps" "outs qs = outs ps" using r "1.prems"(1) by simp_all
      ultimately show ?thesis using "1.IH" [OF True q [unfolded f] refl] f by (metis (no_types, lifting))
    next
      case False
      then show ?thesis using True q r "1.prems"(1) by simp
    qed
  next
    case False
    then show ?thesis using "1.prems"(1) by simp
  qed
qed

definition current :: "int \<Rightarrow> (int \<times> int) list" where
  "current c = (if c = 1 then [] else [(c, c)])"

lemma current_merge:
  assumes "1 \<le> c" "1 \<le> a"
  shows "broadcast_copies (current c @ (a, a) # ps) = broadcast_copies (current (c * a) @ ps)"
    "ins (current c @ (a, a) # ps) = ins (current (c * a) @ ps)" "outs (current c @ (a, a) # ps) = outs (current (c * a) @ ps)"
proof -
  consider "c = 1" "a = 1" | "c = 1" "1 < a" | "1 < c" "a = 1" | "1 < c" "1 < a" using assms by linarith
  then show "broadcast_copies (current c @ (a, a) # ps) = broadcast_copies (current (c * a) @ ps)"
  proof cases
    case 3
    have "broadcast_copies ([(c, c)] @ (1, 1) # ps) = broadcast_copies ([(c, c)] @ ps)"
      by (rule broadcast_cong) (simp_all add: broadcast_unit)
    then show ?thesis using 3 by (simp add: current_def)
  next
    case 4
    then have "c * a \<noteq> 1" by (simp add: zmult_eq_1_iff)
    then show ?thesis using broadcast_fuse_equal [OF 4] 4 by (simp add: current_def)
  qed (simp_all add: current_def broadcast_unit)
  show "ins (current c @ (a, a) # ps) = ins (current (c * a) @ ps)" "outs (current c @ (a, a) # ps) = outs (current (c * a) @ ps)"
    by (simp_all add: current_def)
qed

lemma separate_axes_ok:
  "1 \<le> c \<Longrightarrow> bcast_ok ps \<Longrightarrow> bcast_ok sep \<Longrightarrow>
     bcast_ok (separate_axes ps c c sep) \<and> broadcast_copies (separate_axes ps c c sep) = broadcast_copies (sep @ current c @ ps)"
proof (induction ps arbitrary: c sep)
  case Nil
  then show ?case by (auto simp: current_def)
next
  case (Cons p ps)
  obtain a b where p: "p = (a, b)" by fastforce
  have ab: "a = b \<or> a = 1" "1 \<le> a" "1 \<le> b" "bcast_ok ps" using Cons.prems(2) p by auto
  show ?case
  proof (cases "a = b")
    case True
    have "1 \<le> c * a" using Cons.prems(1) ab(2) by (metis mult_mono' mult_1 zero_le_one order_trans)
    from Cons.IH [OF this ab(4) Cons.prems(3)]
    show ?thesis
      using broadcast_cong [OF current_merge [OF Cons.prems(1) ab(2), of ps], of sep] True p by simp
  next
    case False
    have "bcast_ok ((sep @ current c) @ [(a, b)])" using Cons.prems(1,3) ab by (simp add: current_def)
    from Cons.IH [OF _ ab(4) this, of 1]
    show ?thesis using False p Cons.prems(1) by (auto simp: current_def)
  qed
qed

lemma broadcast_axes_rows: "broadcast_axes sep = rows (broadcast_rows sep)"
proof -
  have "map2 (\<lambda>n s. if n = 1 then 0 else s) (map fst sep) (output_strides (map fst sep)) = map snd (broadcast_rows sep)"
    by (induction sep rule: broadcast_rows.induct) (simp_all add: output_strides_simps)
  moreover have "rows (zip (map fst ps) (map snd ps)) = rows ps" for ps by (simp add: zip_map_fst_snd)
  ultimately show ?thesis
    using output_strides_rows [of "map snd sep" "map snd (broadcast_rows sep)"] length_map [of snd "broadcast_rows sep"]
      arg_cong [OF broadcast_rows_fst [of sep], of length]
    by (simp add: broadcast_axes_def computeStride_def flip: broadcast_rows_fst)
qed

lemma broadcast_region_copies:
  "region_copies (broadcast_region origin axes (a, b)) = shift a b (axes_copies (drop (length axes - 3) axes))"
proof -
  have "axes_copies [axis_or_default axes 2, axis_or_default axes 1, axis_or_default axes 0] = axes_copies [nth_last axes 2, nth_last axes 1, nth_last axes 0]"
  proof -
    have e: "axes_copies ((if k < length axes then axes ! m else (1, x, y)) # zs) = axes_copies ((if k < length axes then axes ! m else (1, 0, 0)) # zs')"
      if "axes_copies zs = axes_copies zs'" for k m x y zs zs'
      using axes_context [OF that, of "[axes ! m]"] that by (auto simp: axes_unit simp del: axes_copies.simps)
    show ?thesis unfolding axis_or_default_def nth_last_def by (intro e refl)
  qed
  then show ?thesis
    unfolding region_copies_axes three_loops [symmetric] broadcast_region_def
    by (cases "axis_or_default axes 2"; cases "axis_or_default axes 1"; cases "axis_or_default axes 0") (simp add: stride_at_def size_at_def)
qed

lemma bcast_sizes: "bcast_ok ps \<Longrightarrow> 0 < ins ps \<and> ins ps \<le> outs ps"
proof (induction ps rule: broadcast_rows.induct)
  case (2 i k ps)
  then have "0 < ins ps" "ins ps \<le> outs ps" "0 < i" "i \<le> k" by auto
  then show ?case by (auto intro: mult_mono)
qed simp

lemma bcast_same: "bcast_ok ps \<Longrightarrow> ins ps = outs ps \<Longrightarrow> 0 \<le> d \<Longrightarrow> d < outs ps \<Longrightarrow> broadcast_source ps d = d"
proof (induction ps arbitrary: d rule: broadcast_rows.induct)
  case (2 i k ps)
  have s: "0 < ins ps" "ins ps \<le> outs ps" "0 < i" "i = k \<or> i = 1" "0 < k" using bcast_sizes [of ps] 2(2) by auto
  have le: "i \<le> k" using s by auto
  have "i * ins ps \<le> k * ins ps" "k * ins ps \<le> k * outs ps" using s le by (simp_all add: mult_right_mono mult_left_mono)
  then have "i * ins ps = k * ins ps" "k * ins ps = k * outs ps" using 2(3) by auto
  then have eq: "i = k" "ins ps = outs ps" using s by auto
  have "d mod outs ps < outs ps" "0 \<le> d mod outs ps" using s by simp_all
  then have IH: "broadcast_source ps (d mod outs ps) = d mod outs ps" using 2(1,2) eq(2) by simp
  show ?case
  proof (cases "i = 1")
    case True
    then have "d mod outs ps = d" using 2(4,5) eq(1) by simp
    then show ?thesis using IH True by simp
  next
    case False
    then show ?thesis using IH eq(2) by simp
  qed
qed simp

lemma full_slice_copies:
  assumes "tensor_wf t"
  shows "\<exists>r. makeFullSlice origin t = Some r \<and> region_copies r = map (\<lambda>d. (d, d)) [0 .. prod_list (tshape t) - 1]"
  using loop_prod_all [OF assms]
  by (simp add: makeFullSlice_def region_copies_def stride_at_def size_at_def newRegion_def)

text \<open>
  C33: \<open>ConvertUtils::broadcastto\<close> of a shape that broadcasts to the output's, of fewer than nine dimensions,
  gives regions that write every element of the output once, in order, from the element of the input with
  the same coordinates, 0 where the input's extent is 1. Fusing neighbouring dimensions (squeezing, separating)
  changes none of this.
\<close>

theorem broadcast_regions_copy:
  assumes wf: "tensor_wf input" "tensor_wf output" and n: "t_dimensions input \<le> t_dimensions output" "t_dimensions output < 9"
    and ps: "ps = zip (replicate (length (tshape output) - length (tshape input)) 1 @ tshape input) (tshape output)" and ok: "bcast_ok ps"
  shows "\<exists>rs. broadcastto origin input output False = Some rs \<and>
    concat (map region_copies rs) = map (\<lambda>d. (broadcast_source ps d, d)) [0 .. prod_list (tshape output) - 1]"
proof -
  have dims: "t_dimensions input = int (length (tshape input))" "t_dimensions output = int (length (tshape output))"
    using wf tshape_length by (simp_all add: tensor_wf_def)
  let ?m = "length (tshape output) - length (tshape input)"
  have len: "length (replicate ?m (1 :: int) @ tshape input) = length (tshape output)" using n(1) dims by simp
  have sizes: "ins ps = prod_list (tshape input)" "outs ps = prod_list (tshape output)"
    unfolding ps using len by (simp_all add: map_fst_zip map_snd_zip del: length_append)
  have short: "length ps < MNN_MAX_TENSOR_DIM" using n(2) dims len by (simp add: ps MNN_MAX_TENSOR_DIM_def)
  show ?thesis
  proof (cases "prod_list (tshape input) = prod_list (tshape output)")
    case True
    obtain r where r: "makeFullSlice origin input = Some r" "region_copies r = map (\<lambda>d. (d, d)) [0 .. prod_list (tshape input) - 1]"
      using full_slice_copies [OF wf(1)] by blast
    have "map (\<lambda>d. (d, d)) [0 .. prod_list (tshape output) - 1] = map (\<lambda>d. (broadcast_source ps d, d)) [0 .. prod_list (tshape output) - 1]"
      using bcast_same [OF ok] sizes True by simp
    then show ?thesis using r True by (simp add: broadcastto_def)
  next
    case False
    obtain qs where qs: "squeeze ps = Some qs" "bcast_ok qs" "broadcast_copies qs = broadcast_copies ps"
      using squeeze_ok [OF ok short] by blast
    let ?sep = "separate_axes qs 1 1 []"
    have sep: "bcast_ok ?sep" "broadcast_copies ?sep = broadcast_copies ps"
      using separate_axes_ok [OF _ qs(2), of 1 "[]"] qs(3) by (simp_all add: current_def)
    have nonneg: "\<forall>l \<in> set (broadcast_axes ?sep). 0 \<le> fst l"
    proof -
      have "fst ` set (rows xs) = fst ` set xs" for xs by (induction xs rule: rows.induct) auto
      moreover have "fst ` set (broadcast_rows xs) = snd ` set xs" for xs by (induction xs rule: broadcast_rows.induct) auto
      ultimately have "fst ` set (broadcast_axes ?sep) = snd ` set ?sep" by (simp only: broadcast_axes_rows)
      moreover have "0 \<le> x" if "x \<in> snd ` set ?sep" for x
      proof -
        obtain q where "q \<in> set ?sep" "x = snd q" using \<open>x \<in> snd ` set ?sep\<close> by auto
        then show ?thesis using sep(1) unfolding bcast_ok_def by (cases q) auto
      qed
      ultimately show ?thesis by blast
    qed
    obtain rs where rs: "foldM (\<lambda>indice regions. do {
          offsets \<leftarrow> split_offsets (take (length (broadcast_axes ?sep) - 3) (broadcast_axes ?sep)) indice 0 0;
          Some (regions @ [broadcast_region origin (broadcast_axes ?sep) offsets]) })
        [0 .. prod_list (map fst (take (length (broadcast_axes ?sep) - 3) (broadcast_axes ?sep))) - 1] [] = Some rs"
      "concat (map region_copies rs) = axes_copies (broadcast_axes ?sep)"
      using collect_regions [OF nonneg broadcast_region_copies [of origin "broadcast_axes ?sep"]] by blast
    have copies: "concat (map region_copies rs) = map (\<lambda>d. (broadcast_source ps d, d)) [0 .. prod_list (tshape output) - 1]"
      using rs(2) sep(2) broadcast_copies_result [OF ok] sizes(2) by (simp add: broadcast_copies_def broadcast_axes_rows)
    have nat: "nat (t_dimensions output - t_dimensions input) = ?m" using dims by simp
    have "broadcastto origin input output False = Some rs"
      using False rs(1) qs(1) n(1) by (simp add: broadcastto_def nat Let_def flip: ps)
    then show ?thesis using copies by blast
  qed
qed

theorem broadcast_regions_copy_witness:
  "\<exists>rs. broadcastto 7 (tensor_of [3, 1, 2] MNN_NCHW []) (tensor_of [5, 3, 4, 2] MNN_NCHW []) False = Some rs \<and>
    concat (map region_copies rs) = map (\<lambda>d. (broadcast_source [(1, 5), (3, 3), (1, 4), (2, 2)] d, d)) [0 .. 119]"
  using broadcast_regions_copy [of "tensor_of [3, 1, 2] MNN_NCHW []" "tensor_of [5, 3, 4, 2] MNN_NCHW []" "[(1, 5), (3, 3), (1, 4), (2, 2)]" 7]
  by (simp del: broadcast_source.simps)

end
