(* ===== verification/JoinFacts.thy ===== *)
theory JoinFacts
  imports MovesFacts
begin

text \<open>
  Cutting a tensor and joining the pieces gives the tensor back, as copies of elements: the regions of
  \<open>GeometrySlice\<close> followed by those of \<open>GeometryConcat\<close>. Reversing twice is the identity.
\<close>

section \<open>Rasters\<close>

definition raster :: "(nat \<Rightarrow> int \<Rightarrow> 'a) \<Rightarrow> Region list \<Rightarrow> (int \<Rightarrow> 'a) \<Rightarrow> int \<Rightarrow> 'a" where
  \<comment> \<open>the copies of all regions, in their order; \<open>content\<close> has the elements of the tensors they come from\<close>
  "raster content regions = fold (\<lambda>r. blit (region_copies r) (content (the (rg_origin r)))) regions"

lemma blit_at:
  assumes "\<And>s d. (s, d) \<in> set cs \<Longrightarrow> src s = f d"
  shows "blit cs src m d = (if d \<in> snd ` set cs then f d else m d)"
  using assms
proof (induction cs rule: rev_induct)
  case (snoc c cs)
  obtain s b where c: "c = (s, b)" by fastforce
  have "src s = f b" using snoc.prems c by simp
  then show ?case using snoc.IH snoc.prems c by (auto simp: blit_def)
qed (simp add: blit_def)

lemma raster_at:
  assumes "\<And>r s d. r \<in> set rs \<Longrightarrow> (s, d) \<in> set (region_copies r) \<Longrightarrow> content (the (rg_origin r)) s = f d"
  shows "raster content rs m d = (if \<exists>r \<in> set rs. d \<in> snd ` set (region_copies r) then f d else m d)"
  using assms
proof (induction rs rule: rev_induct)
  case (snoc r rs)
  have "raster content (rs @ [r]) m d = blit (region_copies r) (content (the (rg_origin r))) (raster content rs m) d"
    by (simp add: raster_def)
  also have "\<dots> = (if d \<in> snd ` set (region_copies r) then f d else raster content rs m d)"
    by (rule blit_at) (use snoc.prems in simp)
  finally show ?case using snoc by auto
qed (simp add: raster_def)

section \<open>The regions of cutting and joining\<close>

definition place :: "int \<Rightarrow> int \<Rightarrow> int \<Rightarrow> int \<Rightarrow> int \<Rightarrow> int" where
  \<comment> \<open>where the element \<open>s\<close> of a piece is in the whole\<close>
  "place len inside axisLength offset s =
     (s div (len * inside)) * (axisLength * inside) + s mod (len * inside) + offset * inside"

lemma slice_copies:
  assumes "0 \<le> outside" "0 \<le> len" "0 \<le> inside"
  shows "region_copies (slice_region origin outside len inside A off) =
    map (\<lambda>s. (place len inside A off s, s)) [0 .. outside * len * inside - 1]"
proof -
  have "axes_copies [(outside, A * inside, len * inside), (len, inside, inside), (inside, 1, 1)] =
      map (\<lambda>d. (row_source [(outside, A * inside), (len, inside), (inside, 1)] d, d)) [0 .. outside * len * inside - 1]"
    using rows_copies [of "[(outside, A * inside), (len, inside), (inside, 1)]"] assms by (simp add: mult.assoc del: row_source.simps)
  moreover have "region_copies (slice_region origin outside len inside A off) =
      shift (off * inside) 0 (axes_copies [(outside, A * inside, len * inside), (len, inside, inside), (inside, 1, 1)])"
    by (simp add: region_copies_axes slice_region_def size_at_def stride_at_def mult.commute del: axes_copies.simps)
  ultimately show ?thesis
    by (auto simp: shift_def place_def Let_def)
qed

lemma concat_copies:
  assumes "0 \<le> outside" "0 \<le> len" "0 \<le> inside"
  shows "region_copies (concat_region origin outside len inside A off) =
    map (\<lambda>s. (s, place len inside A off s)) [0 .. outside * len * inside - 1]"
proof -
  have "region_copies (concat_region origin outside len inside A off) = map prod.swap (region_copies (slice_region origin outside len inside A off))"
    by (simp add: region_copies_def concat_region_def slice_region_def size_at_def stride_at_def map_concat comp_def mult.commute)
  then show ?thesis using slice_copies [OF assms] by simp
qed

lemma find_piece:
  "0 \<le> b \<Longrightarrow> b < sum_list ls \<Longrightarrow> \<exists>j < length ls. sum_list (take j ls) \<le> b \<and> b < sum_list (take j ls) + ls ! j" for b :: int
proof (induction ls arbitrary: b)
  case (Cons l ls)
  show ?case
  proof (cases "b < l")
    case True
    then show ?thesis using Cons.prems by (intro exI [of _ 0]) simp
  next
    case False
    then obtain j where "j < length ls" "sum_list (take j ls) \<le> b - l" "b - l < sum_list (take j ls) + ls ! j"
      using Cons.IH [of "b - l"] Cons.prems by auto
    then show ?thesis by (intro exI [of _ "Suc j"]) simp
  qed
qed simp

lemma pieces_cover:
  assumes pos: "\<forall>l \<in> set ls. 0 < l" "0 < outside" "0 < inside" and A: "sum_list ls = A" and d: "0 \<le> d" "d < outside * (A * inside)"
  shows "\<exists>j s. j < length ls \<and> 0 \<le> s \<and> s < outside * ls ! j * inside \<and> place (ls ! j) inside A (sum_list (take j ls)) s = d"
proof -
  let ?w = "A * inside"
  have "0 \<le> A" unfolding A [symmetric] by (rule sum_list_nonneg) (use pos(1) in auto)
  then have "0 \<le> ?w" using pos(3) by simp
  moreover have "0 \<noteq> ?w" using d by auto
  ultimately have w: "0 < ?w" by (rule order.not_eq_order_implies_strict [rotated])
  define o' b where "o' = d div ?w" and "b = d mod ?w"
  have db: "d = o' * ?w + b" "0 \<le> b" "b < ?w" unfolding o'_def b_def by (rule div_mult_mod_eq [symmetric]) (use w in simp_all)
  have o: "0 \<le> o'" "o' < outside"
    using d w le_zdiv_iff [OF w, of outside d] by (auto simp: o'_def pos_imp_zdiv_nonneg_iff not_le [symmetric])
  define p i where "p = b div inside" and "i = b mod inside"
  have bp: "b = p * inside + i" "0 \<le> i" "i < inside" unfolding p_def i_def by (rule div_mult_mod_eq [symmetric]) (use pos(3) in simp_all)
  have p: "0 \<le> p" "p < A"
    using db pos(3) le_zdiv_iff [OF pos(3), of A b] by (auto simp: p_def pos_imp_zdiv_nonneg_iff not_le [symmetric])
  obtain j where j: "j < length ls" "sum_list (take j ls) \<le> p" "p < sum_list (take j ls) + ls ! j"
    using find_piece [of p ls] p A by auto
  let ?len = "ls ! j" and ?off = "sum_list (take j ls)"
  define r where "r = (p - ?off) * inside + i"
  have len: "0 < ?len" using pos(1) j(1) by simp
  have "(p - ?off + 1) * inside \<le> ?len * inside" using j(3) pos(3) by (intro mult_right_mono) simp_all
  then have r2: "r < ?len * inside" using bp(3) by (simp add: r_def algebra_simps)
  have r: "0 \<le> r" unfolding r_def using j(2) pos(3) bp(2) by simp
  let ?s = "o' * (?len * inside) + r"
  have "(o' * m + r) div m = o' \<and> (o' * m + r) mod m = r" if "r < m" for m using r that by simp
  from this [OF r2] have "?s div (?len * inside) = o'" "?s mod (?len * inside) = r" by blast+
  then have "place ?len inside A ?off ?s = d" using db(1) bp(1) by (simp add: place_def r_def algebra_simps)
  moreover have "0 \<le> ?s" using o(1) len pos(3) r by simp
  moreover have "?s < outside * ?len * inside"
  proof -
    have "(o' + 1) * (?len * inside) \<le> outside * (?len * inside)" using o(2) len pos(3) by (intro mult_right_mono) simp_all
    then show ?thesis using r2 by (simp add: algebra_simps)
  qed
  ultimately show ?thesis using j(1) by blast
qed

section \<open>Cutting and joining\<close>

lemma extents_around:
  assumes wf: "tensor_wf t" and axis: "0 \<le> axis" "axis < t_dimensions t"
  shows "extents t 0 axis = Some (prod_list (take (nat axis) (tshape t)))"
    "extents t (axis + 1) (t_dimensions t) = Some (prod_list (drop (Suc (nat axis)) (tshape t)))"
    "tlength t axis = Some (tshape t ! nat axis)"
    "prod_list (take (nat axis) (tshape t)) * (tshape t ! nat axis * prod_list (drop (Suc (nat axis)) (tshape t))) = prod_list (tshape t)"
proof -
  have n: "t_dimensions t \<le> int (length (t_extent t))" "t_dimensions t = int (length (tshape t))"
    using wf tshape_length [OF wf] by (simp_all add: tensor_wf_def)
  have "nat (axis + 1) = Suc (nat axis)" using axis(1) by simp
  then show "extents t 0 axis = Some (prod_list (take (nat axis) (tshape t)))"
    "extents t (axis + 1) (t_dimensions t) = Some (prod_list (drop (Suc (nat axis)) (tshape t)))"
    using loop_prod [of 0 axis t 1] loop_prod [of "axis + 1" "t_dimensions t" t 1] n(1) axis
    by (simp_all add: extents_def tshape_def min_def)
  show "tlength t axis = Some (tshape t ! nat axis)" using tlength_shape [OF wf, of "nat axis"] axis n(2) by simp
  have "tshape t = take (nat axis) (tshape t) @ tshape t ! nat axis # drop (Suc (nat axis)) (tshape t)"
    using id_take_nth_drop [of "nat axis" "tshape t"] axis n(2) by simp
  from arg_cong [OF this, of prod_list]
  show "prod_list (take (nat axis) (tshape t)) * (tshape t ! nat axis * prod_list (drop (Suc (nat axis)) (tshape t))) = prod_list (tshape t)"
    by simp
qed

definition plain :: "Tensor \<Rightarrow> bool" where
  \<comment> \<open>elements without padding between them, all extents above 0\<close>
  "plain t \<longleftrightarrow> tensor_wf t \<and> t_format t \<noteq> MNN_NC4HW4 \<and> 0 < ht_bytes (t_type t) \<and> (\<forall>l \<in> set (tshape t). 0 < l)"

lemma plain_elements: "plain t \<Longrightarrow> elementSize t = Some (prod_list (tshape t)) \<and> 0 < prod_list (tshape t)"
proof -
  assume p: "plain t"
  then have "usize t = Some (int (ht_bytes (t_type t)) * prod_list (tshape t))"
    using loop_prod [of 0 "t_dimensions t" t "int (ht_bytes (t_type t))"]
    by (simp add: usize_def plain_def tensor_wf_def tshape_def)
  moreover have pos: "0 < prod_list (tshape t)"
  proof -
    have "\<forall>l \<in> set xs. 0 < l \<Longrightarrow> 0 < prod_list xs" for xs :: "int list" by (induction xs) auto
    then show ?thesis using p by (simp add: plain_def)
  qed
  ultimately show ?thesis
    using p by (simp add: elementSize_def idiv_def plain_def signed_divide_int_def sgn_if abs_mult)
qed

fun cut_regions :: "nat \<Rightarrow> int \<Rightarrow> int \<Rightarrow> int \<Rightarrow> int \<Rightarrow> int list \<Rightarrow> Region list list" where
  "cut_regions origin outside inside A off [] = []"
| "cut_regions origin outside inside A off (l # ls) =
     [slice_region origin outside l inside A off] # cut_regions origin outside inside A (off + l) ls"

fun join_regions :: "nat \<Rightarrow> int \<Rightarrow> int \<Rightarrow> int \<Rightarrow> int \<Rightarrow> int list \<Rightarrow> Region list" where
  "join_regions k outside inside A off [] = []"
| "join_regions k outside inside A off (l # ls) =
     concat_region k outside l inside A off # join_regions (Suc k) outside inside A (off + l) ls"

lemma cut_regions_nth:
  "j < length ls \<Longrightarrow> cut_regions origin outside inside A off ls ! j = [slice_region origin outside (ls ! j) inside A (off + sum_list (take j ls))]"
  by (induction ls arbitrary: off j) (auto simp: nth_Cons add.assoc split: nat.split)

lemma join_regions_nth:
  "length (join_regions k outside inside A off ls) = length ls"
  "j < length ls \<Longrightarrow> join_regions k outside inside A off ls ! j = concat_region (k + j) outside (ls ! j) inside A (off + sum_list (take j ls))"
  by (induction ls arbitrary: k off j) (auto simp: nth_Cons add.assoc split: nat.split)

lemma GeometrySlice_cuts:
  assumes "plain input" "0 \<le> axis" "axis < t_dimensions input" "\<forall>t \<in> set ts. tlength t axis = Some (f t)"
  shows "GeometrySlice OpType_Slice axis origin input ts =
    Some (cut_regions origin (prod_list (take (nat axis) (tshape input))) (prod_list (drop (Suc (nat axis)) (tshape input)))
      (tshape input ! nat axis) 0 (map f ts))"
proof -
  have wf: "tensor_wf input" using assms(1) by (simp add: plain_def)
  note e = extents_around [OF wf assms(2,3)] and n = plain_elements [OF assms(1)]
  let ?o = "prod_list (take (nat axis) (tshape input))" and ?i = "prod_list (drop (Suc (nat axis)) (tshape input))"
  let ?A = "tshape input ! nat axis"
  have "foldM (\<lambda>t (regions, offset).
           if prod_list (tshape input) \<le> 0 then Some (regions @ [[]], offset)
           else do {
             axisLength \<leftarrow> tlength input axis;
             len \<leftarrow> (if False then Some 1 else tlength t axis);
             Some (regions @ [[slice_region origin ?o len ?i axisLength offset]], offset + len) })
         us (rs, off) = Some (rs @ cut_regions origin ?o ?i ?A off (map f us), off + sum_list (map f us))"
    if "\<forall>t \<in> set us. tlength t axis = Some (f t)" for us rs off
    using that n by (induction us arbitrary: rs off) (simp_all add: e(3) not_le)
  from this [OF assms(4), of "[]" 0] show ?thesis
    using assms(2) e n by (simp add: GeometrySlice_def)
qed

lemma GeometryConcat_joins:
  assumes "plain output" "0 \<le> axis" "axis < t_dimensions output" "\<forall>t \<in> set ts. plain t \<and> tlength t axis = Some (f t)"
  shows "GeometryConcat OpType_Concat axis (zip [0..<length ts] ts) output =
    Some (join_regions 0 (prod_list (take (nat axis) (tshape output))) (prod_list (drop (Suc (nat axis)) (tshape output)))
      (tshape output ! nat axis) 0 (map f ts))"
proof -
  have wf: "tensor_wf output" using assms(1) by (simp add: plain_def)
  note e = extents_around [OF wf assms(2,3)] and n = plain_elements [OF assms(1)]
  let ?o = "prod_list (take (nat axis) (tshape output))" and ?i = "prod_list (drop (Suc (nat axis)) (tshape output))"
  let ?A = "tshape output ! nat axis"
  have len: "t_dimensions output = int (length (tshape output))" using wf tshape_length [OF wf] by (simp add: tensor_wf_def)
  have pos: "\<forall>l \<in> set (tshape output). 0 < l" using assms(1) by (simp add: plain_def)
  have "0 < prod_list xs" if "set xs \<subseteq> set (tshape output)" for xs using that pos by (induction xs) auto
  then have p: "0 < ?o" "0 < ?i" "0 < ?A" using pos assms(2,3) len by (simp_all add: set_take_subset set_drop_subset)
  have fold: "foldM (\<lambda>(origin, t) (regions, offset). do {
             n \<leftarrow> elementSize t;
             if n = 0 then Some (regions, offset)
             else do {
               len \<leftarrow> (if False then Some 1 else tlength t axis);
               Some (regions @ [concat_region origin ?o len ?i ?A offset], offset + len) } })
           (zip [k..<k + length us] us) (rs, off) = Some (rs @ join_regions k ?o ?i ?A off (map f us), off + sum_list (map f us))"
    if "\<forall>t \<in> set us. plain t \<and> tlength t axis = Some (f t)" for us rs off k
    using that
  proof (induction us arbitrary: rs off k)
    case (Cons u us)
    then have u: "elementSize u = Some (prod_list (tshape u))" "prod_list (tshape u) \<noteq> 0" "tlength u axis = Some (f u)"
      using plain_elements [of u] by auto
    have z: "zip [k..<k + length (u # us)] (u # us) = (k, u) # zip [Suc k..<Suc k + length us] us"
      using upt_conv_Cons [of k "k + length (u # us)"] by (simp del: upt_Suc)
    show ?case unfolding z using Cons.IH [where k = "Suc k"] Cons.prems u by (simp del: upt_Suc)
  qed simp
  from fold [OF assms(4), of 0 "[]" 0] show ?thesis
    using assms(2) e p by (simp add: GeometryConcat_def wrap_axis_def not_le)
qed

lemma join_of_cuts:
  assumes pos: "0 < outside" "0 < inside" "\<forall>l \<in> set ls. 0 < l" "sum_list ls = A" and d: "0 \<le> d" "d < outside * (A * inside)"
  shows "raster (\<lambda>k. raster (\<lambda>_. mem) (cut_regions origin outside inside A 0 ls ! k) z) (join_regions 0 outside inside A 0 ls) z' d = mem d"
proof -
  let ?cuts = "cut_regions origin outside inside A 0 ls" and ?joins = "join_regions 0 outside inside A 0 ls"
  let ?piece = "\<lambda>k. raster (\<lambda>_. mem) (?cuts ! k) z"
  have joins: "?joins ! j = concat_region j outside (ls ! j) inside A (sum_list (take j ls))" if "j < length ls" for j
    using join_regions_nth(2) [OF that, of 0] by simp
  have copies: "region_copies (?joins ! j) = map (\<lambda>s. (s, place (ls ! j) inside A (sum_list (take j ls)) s)) [0 .. outside * ls ! j * inside - 1]"
    "rg_origin (?joins ! j) = Some j" if "j < length ls" for j
    unfolding joins [OF that] using concat_copies [of outside "ls ! j" inside j A "sum_list (take j ls)"] pos that nth_mem [OF that]
    by (simp_all add: concat_region_def less_imp_le)
  have piece: "?piece j s = mem (place (ls ! j) inside A (sum_list (take j ls)) s)"
    if j: "j < length ls" and s: "0 \<le> s" "s < outside * ls ! j * inside" for j s
  proof -
    have c: "?cuts ! j = [slice_region origin outside (ls ! j) inside A (sum_list (take j ls))]"
      using cut_regions_nth [OF j, of origin outside inside A 0] by simp
    have r: "region_copies (slice_region origin outside (ls ! j) inside A (sum_list (take j ls))) =
        map (\<lambda>s. (place (ls ! j) inside A (sum_list (take j ls)) s, s)) [0 .. outside * ls ! j * inside - 1]"
      by (rule slice_copies) (use pos j nth_mem [OF j] in \<open>auto simp: less_imp_le\<close>)
    have "?piece j s = (if \<exists>r \<in> set (?cuts ! j). s \<in> snd ` set (region_copies r) then mem (place (ls ! j) inside A (sum_list (take j ls)) s) else z s)"
      by (rule raster_at) (auto simp: c r)
    moreover have "\<exists>r \<in> set (?cuts ! j). s \<in> snd ` set (region_copies r)" using s by (force simp: c r)
    ultimately show ?thesis by simp
  qed
  have idx: "\<exists>j < length ls. r = ?joins ! j" if "r \<in> set ?joins" for r
    using that by (auto simp: in_set_conv_nth join_regions_nth(1))
  have "raster ?piece ?joins z' d = (if \<exists>r \<in> set ?joins. d \<in> snd ` set (region_copies r) then mem d else z' d)"
  proof (rule raster_at)
    fix r s d' assume r: "r \<in> set ?joins" "(s, d') \<in> set (region_copies r)"
    obtain j where j: "j < length ls" "r = ?joins ! j" using idx r(1) by blast
    then have "0 \<le> s" "s < outside * ls ! j * inside" "d' = place (ls ! j) inside A (sum_list (take j ls)) s" "the (rg_origin r) = j"
      using r(2) copies [OF j(1)] by auto
    then show "?piece (the (rg_origin r)) s = mem d'" using piece j(1) by simp
  qed
  moreover have "\<exists>r \<in> set ?joins. d \<in> snd ` set (region_copies r)"
  proof -
    obtain j s where j: "j < length ls" "0 \<le> s" "s < outside * ls ! j * inside" "place (ls ! j) inside A (sum_list (take j ls)) s = d"
      using pieces_cover [OF pos(3,1,2,4) d] by blast
    have "?joins ! j \<in> set ?joins" using j(1) join_regions_nth(1) [of 0 outside inside A 0 ls] by simp
    moreover have "d \<in> snd ` set (region_copies (?joins ! j))" unfolding copies(1) [OF j(1)] using j by force
    ultimately show ?thesis by blast
  qed
  ultimately show ?thesis by simp
qed

text \<open>
  C31: cutting a tensor along an axis with the regions of \<open>GeometrySlice\<close> and joining the pieces with the
  regions of \<open>GeometryConcat\<close> gives every element back, for any memory, when the extents of the pieces add up
  to the extent of the tensor.
\<close>

theorem slice_concat_regions_roundtrip:
  assumes input: "plain input" and axis: "0 \<le> axis" "axis < t_dimensions input"
    and parts: "\<forall>t \<in> set ts. plain t \<and> axis < t_dimensions t" "sum_list (map (\<lambda>t. tshape t ! nat axis) ts) = tshape input ! nat axis"
  shows "\<exists>cuts joins. GeometrySlice OpType_Slice axis origin input ts = Some cuts \<and>
    GeometryConcat OpType_Concat axis (zip [0..<length ts] ts) input = Some joins \<and>
    (\<forall>mem z z' d. 0 \<le> d \<and> d < prod_list (tshape input) \<longrightarrow> raster (\<lambda>k. raster (\<lambda>_. mem) (cuts ! k) z) joins z' d = mem d)"
proof -
  have wf: "tensor_wf input" and pos: "\<forall>l \<in> set (tshape input). 0 < l" using input by (simp_all add: plain_def)
  have f: "tlength t axis = Some (tshape t ! nat axis)" "0 < tshape t ! nat axis" if "t \<in> set ts" for t
  proof -
    have t: "tensor_wf t" "\<forall>l \<in> set (tshape t). 0 < l" "axis < t_dimensions t" using parts(1) that by (auto simp: plain_def)
    then have "nat axis < length (tshape t)" using tshape_length [OF t(1)] axis(1) by (auto simp: tensor_wf_def)
    then show "tlength t axis = Some (tshape t ! nat axis)" "0 < tshape t ! nat axis"
      using tlength_shape [OF t(1), of "nat axis"] t(2) axis(1) by simp_all
  qed
  let ?o = "prod_list (take (nat axis) (tshape input))" and ?i = "prod_list (drop (Suc (nat axis)) (tshape input))"
  let ?A = "tshape input ! nat axis" and ?ls = "map (\<lambda>t. tshape t ! nat axis) ts"
  have cuts: "GeometrySlice OpType_Slice axis origin input ts = Some (cut_regions origin ?o ?i ?A 0 ?ls)"
    by (rule GeometrySlice_cuts [OF input axis]) (use f(1) in blast)
  have joins: "GeometryConcat OpType_Concat axis (zip [0..<length ts] ts) input = Some (join_regions 0 ?o ?i ?A 0 ?ls)"
    by (rule GeometryConcat_joins [OF input axis]) (use f(1) parts(1) in blast)
  have "0 < prod_list xs" if "set xs \<subseteq> set (tshape input)" for xs using that pos by (induction xs) auto
  then have p: "0 < ?o" "0 < ?i" by (simp_all add: set_take_subset set_drop_subset)
  have ls: "\<forall>l \<in> set ?ls. 0 < l" using f(2) by auto
  show ?thesis
    using cuts joins join_of_cuts [OF p ls parts(2)] extents_around(4) [OF wf axis] by auto
qed

theorem slice_concat_regions_roundtrip_witness:
  "\<exists>cuts joins. GeometrySlice OpType_Slice 1 7 (tensor_of [2, 5, 3] MNN_NCHW [])
      [tensor_of [2, 2, 3] MNN_NCHW [], tensor_of [2, 3, 3] MNN_NCHW []] = Some cuts \<and>
    GeometryConcat OpType_Concat 1 [(0, tensor_of [2, 2, 3] MNN_NCHW []), (1, tensor_of [2, 3, 3] MNN_NCHW [])]
      (tensor_of [2, 5, 3] MNN_NCHW []) = Some joins \<and>
    raster (\<lambda>k. raster (\<lambda>_. \<lambda>i. 100 + i) (cuts ! k) (\<lambda>_. 0)) joins (\<lambda>_. 0) 17 = (117 :: int)"
proof -
  have plain: "plain (tensor_of [a, b, c] MNN_NCHW [])" if "0 < a" "0 < b" "0 < c" for a b c
    using that by (simp add: plain_def) (simp add: tensor_of_def ht_of_def ht_bytes_def)
  let ?ts = "[tensor_of [2, 2, 3] MNN_NCHW [], tensor_of [2, 3, 3] MNN_NCHW []]"
  have "\<exists>cuts joins. GeometrySlice OpType_Slice 1 7 (tensor_of [2, 5, 3] MNN_NCHW []) ?ts = Some cuts \<and>
      GeometryConcat OpType_Concat 1 (zip [0..<length ?ts] ?ts) (tensor_of [2, 5, 3] MNN_NCHW []) = Some joins \<and>
      (\<forall>(mem :: int \<Rightarrow> int) z z' d. 0 \<le> d \<and> d < prod_list (tshape (tensor_of [2, 5, 3] MNN_NCHW [])) \<longrightarrow>
         raster (\<lambda>k. raster (\<lambda>_. mem) (cuts ! k) z) joins z' d = mem d)"
    by (rule slice_concat_regions_roundtrip) (simp_all add: plain)
  then obtain cuts joins where w: "GeometrySlice OpType_Slice 1 7 (tensor_of [2, 5, 3] MNN_NCHW []) ?ts = Some cuts"
      "GeometryConcat OpType_Concat 1 (zip [0..<length ?ts] ?ts) (tensor_of [2, 5, 3] MNN_NCHW []) = Some joins"
      "\<And>(mem :: int \<Rightarrow> int) z z' d. 0 \<le> d \<Longrightarrow> d < 30 \<Longrightarrow> raster (\<lambda>k. raster (\<lambda>_. mem) (cuts ! k) z) joins z' d = mem d"
    by auto
  have "zip [0..<length ?ts] ?ts = [(0, tensor_of [2, 2, 3] MNN_NCHW []), (1, tensor_of [2, 3, 3] MNN_NCHW [])]" by simp
  then show ?thesis using w(1,2) w(3) [of 17 "\<lambda>i. 100 + i" "\<lambda>_. 0" "\<lambda>_. 0"] by auto
qed

section \<open>Reversing\<close>

lemma reverse_region:
  assumes wf: "tensor_wf input" and axis: "0 \<le> axis" "axis < t_dimensions input"
  shows "GeometryReverse origin input axis old = Some (old @ [
       (let outside = prod_list (take (nat axis) (tshape input)); n = tshape input ! nat axis;
            inside = prod_list (drop (Suc (nat axis)) (tshape input))
        in \<lparr>rg_src = \<lparr>v_offset = n * inside - inside, v_stride = [n * inside, - inside, 1]\<rparr>,
            rg_dst = \<lparr>v_offset = 0, v_stride = [n * inside, inside, 1]\<rparr>,
            rg_size = [outside, n, inside], rg_origin = Some origin\<rparr>)])"
proof -
  let ?sh = "tshape input"
  have n: "t_dimensions input = int (length ?sh)" using wf tshape_length [OF wf] by (simp add: tensor_wf_def)
  let ?P = "\<lambda>i (p, q). p = prod_list (take (nat (min i axis)) ?sh) \<and> q = prod_list (drop (Suc (nat axis)) (take (nat i) ?sh))"
  let ?f = "\<lambda>i (outsideSize, insideSize). do {
         l \<leftarrow> tlength input i;
         Some (if i < axis then outsideSize * l else outsideSize, if i > axis then insideSize * l else insideSize) }"
  have "\<exists>r. loop 0 (t_dimensions input) ?f (1, 1) = Some r \<and> ?P (t_dimensions input) r"
  proof (rule loop_rule)
    fix i r assume i: "0 \<le> i" "i < t_dimensions input" "?P i r"
    obtain p q where r: "r = (p, q)" by fastforce
    have l: "tlength input i = Some (?sh ! nat i)" using tlength_shape [OF wf, of "nat i"] i n by simp
    have i1: "nat (i + 1) = Suc (nat i)" "nat i < length ?sh" using i n by simp_all
    consider "i < axis" | "i = axis" | "axis < i" by linarith
    then show "\<exists>u. ?f i r = Some u \<and> ?P (i + 1) u"
    proof cases
      case 1
      then have "min (i + 1) axis = i + 1" "min i axis = i" by simp_all
      then show ?thesis
        using i l i1 1 r by (simp add: take_Suc_conv_app_nth)
    next
      case 2
      then show ?thesis using i l i1 r by (simp add: min_def)
    next
      case 3
      then have "min (i + 1) axis = axis" "min i axis = axis" by simp_all
      moreover have "drop (Suc (nat axis)) (take (Suc (nat i)) ?sh) = drop (Suc (nat axis)) (take (nat i) ?sh) @ [?sh ! nat i]"
        using 3 axis(1) i1 by (simp add: take_Suc_conv_app_nth nat_less_iff)
      ultimately show ?thesis using i l i1 3 r by simp
    qed
  qed (use axis n in simp_all)
  then have "loop 0 (t_dimensions input) ?f (1, 1) = Some (prod_list (take (nat axis) ?sh), prod_list (drop (Suc (nat axis)) ?sh))"
    using axis n by (auto simp: min_def)
  moreover have "tlength input axis = Some (?sh ! nat axis)" by (rule extents_around(3) [OF wf axis])
  ultimately show ?thesis by (simp add: GeometryReverse_def Let_def)
qed

definition mirror :: "int \<Rightarrow> int \<Rightarrow> int \<Rightarrow> int" where
  \<comment> \<open>the index with the coordinate of the axis counted from the other end\<close>
  "mirror n inside d =
     d div (n * inside) * (n * inside) + (n - 1 - d mod (n * inside) div inside) * inside + d mod (n * inside) mod inside"

lemma reverse_copies:
  assumes "0 \<le> outside" "0 \<le> n" "0 \<le> inside"
  shows "region_copies \<lparr>rg_src = \<lparr>v_offset = n * inside - inside, v_stride = [n * inside, - inside, 1]\<rparr>,
            rg_dst = \<lparr>v_offset = 0, v_stride = [n * inside, inside, 1]\<rparr>,
            rg_size = [outside, n, inside], rg_origin = Some origin\<rparr> = map (\<lambda>d. (mirror n inside d, d)) [0 .. outside * n * inside - 1]"
proof -
  have "axes_copies [(outside, n * inside, n * inside), (n, - inside, inside), (inside, 1, 1)] =
      map (\<lambda>d. (row_source [(outside, n * inside), (n, - inside), (inside, 1)] d, d)) [0 .. outside * n * inside - 1]"
    using rows_copies [of "[(outside, n * inside), (n, - inside), (inside, 1)]"] assms by (simp add: mult.assoc del: row_source.simps)
  moreover have "row_source [(outside, n * inside), (n, - inside), (inside, 1)] d + (n * inside - inside) = mirror n inside d" for d
    by (simp add: mirror_def Let_def algebra_simps)
  ultimately show ?thesis
    by (simp add: region_copies_axes size_at_def stride_at_def shift_def del: axes_copies.simps row_source.simps)
qed

lemma split_index:
  fixes d n inside outside :: int
  assumes "0 < n" "0 < inside" "0 \<le> d" "d < outside * n * inside"
  obtains q p i where "d = q * (n * inside) + p * inside + i" "0 \<le> q" "q < outside" "0 \<le> p" "p < n" "0 \<le> i" "i < inside"
proof -
  let ?w = "n * inside"
  have w: "0 < ?w" by (rule mult_pos_pos [OF assms(1,2)])
  let ?b = "d mod ?w"
  have "d = d div ?w * ?w + (?b div inside * inside + ?b mod inside)" unfolding div_mult_mod_eq ..
  moreover have "d div ?w < outside" using assms(4) le_zdiv_iff [OF w, of outside d] by (simp add: mult.assoc not_le [symmetric])
  moreover have "?b div inside < n" using le_zdiv_iff [OF assms(2), of n ?b] pos_mod_bound [OF w, of d] by (simp add: not_le [symmetric])
  moreover have "0 \<le> ?b" "0 \<le> ?b mod inside" "?b mod inside < inside" using w assms(2) by simp_all
  moreover have "0 \<le> d div ?w" "0 \<le> ?b div inside" using w assms(2,3) by (simp_all add: pos_imp_zdiv_nonneg_iff)
  ultimately show thesis using that [of "d div ?w" "?b div inside" "?b mod inside"] by (simp only: add.assoc)
qed

lemma mirror_index:
  assumes "0 \<le> p" "p < n" "0 \<le> i" "i < inside"
  shows "mirror n inside (q * (n * inside) + p * inside + i) = q * (n * inside) + (n - 1 - p) * inside + i"
proof -
  have "(p + 1) * inside \<le> n * inside" using assms by (intro mult_right_mono) auto
  moreover have "0 \<le> p * inside" using assms by simp
  ultimately have b: "0 \<le> p * inside + i" "p * inside + i < n * inside" using assms(3,4) by (simp_all add: distrib_right)
  have "(a * m + r) div m = a \<and> (a * m + r) mod m = r" if "0 \<le> r" "r < m" for a m r :: int using that by simp
  from this [OF b] have d: "(q * (n * inside) + (p * inside + i)) div (n * inside) = q"
    "(q * (n * inside) + (p * inside + i)) mod (n * inside) = p * inside + i" by blast+
  have "(p * inside + i) div inside = p" "(p * inside + i) mod inside = i" using assms(3,4) by simp_all
  then show ?thesis unfolding mirror_def add.assoc d by (simp add: add.assoc)
qed

text \<open>
  C35: on an output without earlier regions, \<open>GeometryReverse\<close> gives one region that reads, for every element
  of the output, the input element with the coordinate of the axis counted from the other end; reversing twice
  is the identity.
\<close>

theorem reverse_regions_mirror:
  assumes wf: "tensor_wf input" "\<forall>l \<in> set (tshape input). 0 < l" and axis: "0 \<le> axis" "axis < t_dimensions input"
  shows "\<exists>rs. GeometryReverse origin input axis [] = Some rs \<and>
    (\<forall>(mem :: int \<Rightarrow> 'a) z z' d. 0 \<le> d \<and> d < prod_list (tshape input) \<longrightarrow>
       raster (\<lambda>_. mem) rs z d = mem (mirror (tshape input ! nat axis) (prod_list (drop (Suc (nat axis)) (tshape input))) d) \<and>
       raster (\<lambda>_. raster (\<lambda>_. mem) rs z) rs z' d = mem d)"
proof -
  let ?o = "prod_list (take (nat axis) (tshape input))" and ?n = "tshape input ! nat axis" and ?i = "prod_list (drop (Suc (nat axis)) (tshape input))"
  let ?r = "\<lparr>rg_src = \<lparr>v_offset = ?n * ?i - ?i, v_stride = [?n * ?i, - ?i, 1]\<rparr>,
            rg_dst = \<lparr>v_offset = 0, v_stride = [?n * ?i, ?i, 1]\<rparr>, rg_size = [?o, ?n, ?i], rg_origin = Some origin\<rparr>"
  have len: "t_dimensions input = int (length (tshape input))" using wf(1) tshape_length [OF wf(1)] by (simp add: tensor_wf_def)
  have "0 < prod_list xs" if "set xs \<subseteq> set (tshape input)" for xs using that wf(2) by (induction xs) auto
  then have p: "0 < ?o" "0 < ?i" "0 < ?n" using wf(2) axis len by (simp_all add: set_take_subset set_drop_subset)
  have total: "?o * ?n * ?i = prod_list (tshape input)" using extents_around(4) [OF wf(1) axis] by (simp add: mult.assoc)
  have copies: "region_copies ?r = map (\<lambda>d. (mirror ?n ?i d, d)) [0 .. prod_list (tshape input) - 1]"
    using reverse_copies [of ?o ?n ?i origin] p total by simp
  have read: "raster (\<lambda>_. f) [?r] z d = f (mirror ?n ?i d)" if "0 \<le> d" "d < prod_list (tshape input)" for f :: "int \<Rightarrow> 'a" and z d
  proof -
    have "raster (\<lambda>_. f) [?r] z d = (if \<exists>r \<in> set [?r]. d \<in> snd ` set (region_copies r) then f (mirror ?n ?i d) else z d)"
      by (rule raster_at) (auto simp: copies)
    moreover have "d \<in> snd ` set (region_copies ?r)" unfolding copies using that by force
    ultimately show ?thesis by simp
  qed
  have twice: "mirror ?n ?i (mirror ?n ?i d) = d \<and> 0 \<le> mirror ?n ?i d \<and> mirror ?n ?i d < prod_list (tshape input)"
    if d: "0 \<le> d" "d < prod_list (tshape input)" for d
  proof -
    obtain q k j where x: "d = q * (?n * ?i) + k * ?i + j" "0 \<le> q" "q < ?o" "0 \<le> k" "k < ?n" "0 \<le> j" "j < ?i"
      by (rule split_index [of ?n ?i d ?o]) (use p d total in auto)
    have m: "mirror ?n ?i d = q * (?n * ?i) + (?n - 1 - k) * ?i + j" unfolding x(1) by (rule mirror_index) (use x in auto)
    have "mirror ?n ?i (q * (?n * ?i) + (?n - 1 - k) * ?i + j) = d" using mirror_index [of "?n - 1 - k" ?n j ?i q] x by simp
    moreover have "0 \<le> mirror ?n ?i d" unfolding m using x p by simp
    moreover have "mirror ?n ?i d < prod_list (tshape input)"
    proof -
      have "(?n - k) * ?i \<le> ?n * ?i" "(q + 1) * (?n * ?i) \<le> ?o * (?n * ?i)" using x p by (simp_all add: mult_right_mono)
      then show ?thesis unfolding m total [symmetric] using x(7) by (simp add: algebra_simps)
    qed
    ultimately show ?thesis using m by simp
  qed
  have "GeometryReverse origin input axis [] = Some [?r]" using reverse_region [OF wf(1) axis, of origin "[]"] by (simp add: Let_def)
  moreover have "raster (\<lambda>_. mem) [?r] z d = mem (mirror ?n ?i d) \<and> raster (\<lambda>_. raster (\<lambda>_. mem) [?r] z) [?r] z' d = mem d"
    if d: "0 \<le> d" "d < prod_list (tshape input)" for mem :: "int \<Rightarrow> 'a" and z z' d
    using read [of _ mem z] read [OF d, of "raster (\<lambda>_. mem) [?r] z" z'] twice [OF d] d by metis
  ultimately show ?thesis by blast
qed

theorem reverse_regions_mirror_witness:
  "\<exists>rs. GeometryReverse 7 (tensor_of [2, 3, 2] MNN_NCHW []) 1 [] = Some rs \<and>
    raster (\<lambda>_. \<lambda>i. 100 + i) rs (\<lambda>_. 0) 7 = (111 :: int) \<and>
    raster (\<lambda>_. raster (\<lambda>_. \<lambda>i. 100 + i) rs (\<lambda>_. 0)) rs (\<lambda>_. 0) 7 = (107 :: int)"
proof -
  have "\<exists>rs. GeometryReverse 7 (tensor_of [2, 3, 2] MNN_NCHW []) 1 [] = Some rs \<and>
      (\<forall>(mem :: int \<Rightarrow> int) z z' d. 0 \<le> d \<and> d < prod_list (tshape (tensor_of [2, 3, 2] MNN_NCHW [])) \<longrightarrow>
         raster (\<lambda>_. mem) rs z d = mem (mirror (tshape (tensor_of [2, 3, 2] MNN_NCHW []) ! nat 1)
           (prod_list (drop (Suc (nat 1)) (tshape (tensor_of [2, 3, 2] MNN_NCHW [])))) d) \<and>
         raster (\<lambda>_. raster (\<lambda>_. mem) rs z) rs z' d = mem d)"
    by (rule reverse_regions_mirror) simp_all
  then obtain rs where w: "GeometryReverse 7 (tensor_of [2, 3, 2] MNN_NCHW []) 1 [] = Some rs"
      "\<forall>(mem :: int \<Rightarrow> int) z z' d. 0 \<le> d \<and> d < 12 \<longrightarrow> raster (\<lambda>_. mem) rs z d = mem (mirror 3 2 d) \<and>
         raster (\<lambda>_. raster (\<lambda>_. mem) rs z) rs z' d = mem d"
    by auto
  have "mirror 3 2 7 = 11" by code_simp
  then show ?thesis using w(1) w(2) [rule_format, of 7 "\<lambda>i. 100 + i" "\<lambda>_. 0" "\<lambda>_. 0"] by auto
qed

text \<open>The regions the output had before stay in front. When the tensor has become smaller since, the old
  region writes behind its end.\<close>

theorem reverse_keeps_old_region:
  "\<exists>old new. GeometryReverse 0 (tensor_of [4] MNN_NCHW []) 0 [] = Some old \<and>
     GeometryReverse 0 (tensor_of [2] MNN_NCHW []) 0 old = Some new \<and> 3 \<in> snd ` set (concat (map region_copies new))"
proof -
  have "snd ` set (concat (map region_copies (the (GeometryReverse 0 (tensor_of [2] MNN_NCHW []) 0
      (the (GeometryReverse 0 (tensor_of [4] MNN_NCHW []) 0 [])))))) = {0, 1, 2, 3}" by code_simp
  moreover have "GeometryReverse 0 (tensor_of [4] MNN_NCHW []) 0 [] \<noteq> None" by code_simp
  moreover have "GeometryReverse 0 (tensor_of [2] MNN_NCHW []) 0 (the (GeometryReverse 0 (tensor_of [4] MNN_NCHW []) 0 [])) \<noteq> None" by code_simp
  ultimately show ?thesis by auto
qed

end
