(* ===== verification/SliceFacts.thy ===== *)
theory SliceFacts
  imports MovesFacts
begin

text \<open>
  What the regions of \<open>GeometrySliceTF\<close> copy: the block of the input that starts at \<open>begin\<close> and has the
  extents of the output, row by row.
\<close>

section \<open>Rows and a position in them\<close>

lemma prod_list_nonneg: "\<forall>q \<in> set ps. 0 \<le> fst q \<Longrightarrow> 0 \<le> prod_list (map fst ps)" for ps :: "(int \<times> int) list"
  by (induction ps) auto

lemma row_source_append:
  assumes "0 \<le> r" "r < prod_list (map fst post)" "\<forall>q \<in> set pre. 0 \<le> fst q" "0 \<le> v" "v < prod_list (map fst pre)"
  shows "row_source (pre @ post) (v * prod_list (map fst post) + r) = row_source pre v + row_source post r"
  using assms(3-5)
proof (induction pre arbitrary: v)
  case Nil
  then have "v = 0" by simp
  then show ?case by simp
next
  case (Cons q pre)
  obtain n s where q: "q = (n, s)" by (cases q)
  let ?K = "prod_list (map fst post)" and ?k = "prod_list (map fst pre)"
  have "0 \<le> ?k" using prod_list_nonneg [of pre] Cons.prems(1) by simp
  then have k: "0 < ?k" using Cons.prems(2,3) q by (cases "?k = 0") auto
  have K: "0 < ?K" using assms(1,2) by simp
  have b: "0 \<le> v mod ?k" "v mod ?k < ?k" using k by simp_all
  have "v mod ?k * ?K + r < (v mod ?k + 1) * ?K" using assms(2) by (simp add: distrib_right)
  also have "\<dots> \<le> ?k * ?K" using b(2) K by (intro mult_right_mono) auto
  finally have rest: "0 \<le> v mod ?k * ?K + r" "v mod ?k * ?K + r < ?k * ?K" using b(1) K assms(1) by simp_all
  have "v * ?K + r = (v div ?k * ?k + v mod ?k) * ?K + r" by (simp only: div_mult_mod_eq)
  then have e: "v * ?K + r = v div ?k * (?k * ?K) + (v mod ?k * ?K + r)" by (simp only: distrib_right mult.assoc add.assoc)
  have "(a * m + x) div m = a \<and> (a * m + x) mod m = x" if "0 \<le> x" "x < m" for a m x :: int using that by simp
  from this [OF rest] have d: "(v * ?K + r) div (?k * ?K) = v div ?k" "(v * ?K + r) mod (?k * ?K) = v mod ?k * ?K + r"
    unfolding e by blast+
  have "row_source (pre @ post) (v mod ?k * ?K + r) = row_source pre (v mod ?k) + row_source post r"
    by (rule Cons.IH) (use Cons.prems(1) b in auto)
  then show ?case using d q by (simp add: Let_def)
qed

lemma row_source_ones:
  assumes "\<forall>q \<in> set ps. 0 \<le> fst q" "0 \<le> d" "d < prod_list (map fst ps)"
  shows "row_source (filter (\<lambda>q. fst q \<noteq> 1) ps) d = row_source ps d"
  using assms
proof (induction ps arbitrary: d)
  case Nil
  then show ?case by simp
next
  case (Cons q ps)
  obtain n s where q: "q = (n, s)" by (cases q)
  let ?k = "prod_list (map fst ps)"
  have "0 \<le> ?k" using prod_list_nonneg [of ps] Cons.prems(1) by simp
  then have k: "0 < ?k" using Cons.prems(2,3) q by (cases "?k = 0") auto
  have f: "prod_list (map fst (filter (\<lambda>q. fst q \<noteq> 1) ps)) = ?k" by (induction ps) auto
  have IH: "row_source (filter (\<lambda>q. fst q \<noteq> 1) ps) (d mod ?k) = row_source ps (d mod ?k)"
    using Cons.IH [of "d mod ?k"] Cons.prems(1) k by simp
  show ?case
  proof (cases "n = 1")
    case True
    then have "d div ?k = 0" "d mod ?k = d" using Cons.prems(2,3) q by simp_all
    then show ?thesis using IH True q by (simp add: Let_def)
  next
    case False
    then show ?thesis using IH q f by (simp add: Let_def)
  qed
qed

section \<open>The enumeration\<close>

lemma slicetf_offset_source:
  "\<forall>q \<in> set pre. 0 \<le> fst q \<Longrightarrow> 0 \<le> v \<Longrightarrow> v < prod_list (map fst pre) \<Longrightarrow> slicetf_offset pre v off = Some (off + row_source pre v)"
proof (induction pre arbitrary: v off)
  case Nil
  then show ?case by simp
next
  case (Cons q pre)
  obtain n s where q: "q = (n, s)" by (cases q)
  let ?k = "prod_list (map fst pre)"
  have "0 \<le> ?k" using prod_list_nonneg [of pre] Cons.prems(1) by simp
  then have k: "0 < ?k" using Cons.prems(2,3) q by (cases "?k = 0") auto
  then have "idiv v ?k = Some (v div ?k)" "imod v ?k = Some (v mod ?k)"
    using Cons.prems(2) by (auto simp: idiv_def imod_def signed_divide_int_def signed_modulo_int_def sgn_if)
  moreover have "slicetf_offset pre (v mod ?k) (off + v div ?k * s) = Some (off + v div ?k * s + row_source pre (v mod ?k))"
    by (rule Cons.IH) (use Cons.prems(1) k in auto)
  ultimately show ?case using q by (simp add: Let_def)
qed

text \<open>The last three axes, filled up with axes of one step.\<close>

lemma slicetf_at_rows:
  assumes "\<forall>q \<in> set axes. 0 \<le> fst q" "0 \<le> r"
  shows "prod_list (map fst [slicetf_at axes 2, slicetf_at axes 1, slicetf_at axes 0]) = prod_list (map fst (drop (length axes - 3) axes))"
    "r < prod_list (map fst (drop (length axes - 3) axes)) \<Longrightarrow>
      row_source [slicetf_at axes 2, slicetf_at axes 1, slicetf_at axes 0] r = row_source (drop (length axes - 3) axes) r"
    "\<forall>q \<in> set [slicetf_at axes 2, slicetf_at axes 1, slicetf_at axes 0]. 0 \<le> fst q"
proof -
  have one: "row_source ((1, 0) # ps) r = row_source ps r" if "r < prod_list (map fst ps)" for ps
    using that assms(2) by (simp add: Let_def)
  consider "axes = []" | x where "axes = [x]" | x y where "axes = [x, y]" | ps x y z where "axes = ps @ [x, y, z]"
  proof (cases axes rule: rev_cases)
    case (snoc as z)
    then show thesis
    proof (cases as rule: rev_cases)
      case (snoc bs y)
      then show thesis using \<open>axes = as @ [z]\<close> that by (cases bs rule: rev_cases) auto
    qed (use that in auto)
  qed (use that in auto)
  then have *: "\<exists>n. [slicetf_at axes 2, slicetf_at axes 1, slicetf_at axes 0] = replicate n (1, 0) @ drop (length axes - 3) axes"
  proof cases
    case 1
    then show ?thesis by (intro exI [of _ 3]) (simp add: slicetf_at_def eval_nat_numeral)
  next
    case 2
    then show ?thesis by (intro exI [of _ 2]) (simp add: slicetf_at_def eval_nat_numeral)
  next
    case 3
    then show ?thesis by (intro exI [of _ 1]) (simp add: slicetf_at_def eval_nat_numeral)
  next
    case 4
    then show ?thesis by (intro exI [of _ 0]) (simp add: slicetf_at_def nth_append eval_nat_numeral)
  qed
  then obtain n where n: "[slicetf_at axes 2, slicetf_at axes 1, slicetf_at axes 0] = replicate n (1, 0) @ drop (length axes - 3) axes" ..
  have p: "prod_list (map fst (replicate n (1, 0) @ ps)) = prod_list (map fst ps)" for ps :: "(int \<times> int) list" and n
    by (induction n) auto
  show "prod_list (map fst [slicetf_at axes 2, slicetf_at axes 1, slicetf_at axes 0]) = prod_list (map fst (drop (length axes - 3) axes))"
    unfolding n p ..
  have "r < prod_list (map fst ps) \<Longrightarrow> row_source (replicate n (1, 0) @ ps) r = row_source ps r" for ps
  proof (induction n)
    case (Suc n)
    then show ?case using one [of "replicate n (1, 0) @ ps"] by (simp only: replicate_Suc append_Cons p)
  qed simp
  then show "r < prod_list (map fst (drop (length axes - 3) axes)) \<Longrightarrow>
      row_source [slicetf_at axes 2, slicetf_at axes 1, slicetf_at axes 0] r = row_source (drop (length axes - 3) axes) r"
    unfolding n .
  show "\<forall>q \<in> set [slicetf_at axes 2, slicetf_at axes 1, slicetf_at axes 0]. 0 \<le> fst q"
    unfolding n using assms(1) by (auto dest: in_set_dropD)
qed


section \<open>The block\<close>

lemma slicetf_block_copies:
  assumes nonneg: "\<forall>q \<in> set axes. 0 \<le> fst q"
  shows "\<exists>rs. slicetf_block origin axes base = Some rs \<and>
    concat (map region_copies rs) = map (\<lambda>d. (base + row_source axes d, d)) [0 .. prod_list (map fst axes) - 1]"
proof -
  let ?pre = "take (length axes - 3) axes" and ?post = "drop (length axes - 3) axes"
  let ?P = "prod_list (map fst ?pre)" and ?K = "prod_list (map fst ?post)"
  obtain n0 s0 n1 s1 n2 s2 where at: "slicetf_at axes 2 = (n0, s0)" "slicetf_at axes 1 = (n1, s1)" "slicetf_at axes 0 = (n2, s2)"
    by (metis surj_pair)
  note three = slicetf_at_rows [OF nonneg, unfolded at]
  have K: "n0 * n1 * n2 = ?K" using three(1) [OF order_refl] by (simp add: mult.assoc)
  have pre: "\<forall>q \<in> set ?pre. 0 \<le> fst q" and post: "\<forall>q \<in> set ?post. 0 \<le> fst q" using nonneg by (auto dest: in_set_takeD in_set_dropD)
  have all: "axes = ?pre @ ?post" by simp
  define r where "r = (\<lambda>v. \<lparr>rg_src = \<lparr>v_offset = row_source ?pre v + base, v_stride = [s0, s1, s2]\<rparr>,
     rg_dst = \<lparr>v_offset = v * n0 * n1 * n2, v_stride = [n1 * n2, n2, 1]\<rparr>, rg_size = [n0, n1, n2], rg_origin = Some origin\<rparr>)"
  have "\<forall>v \<in> set [0 .. ?P - 1]. slicetf_offset ?pre v 0 = Some (0 + row_source ?pre v)"
    using slicetf_offset_source [OF pre] by simp
  then have fold: "foldM (\<lambda>v rs. do { o1 \<leftarrow> slicetf_offset ?pre v 0; Some (rs @ [
       \<lparr>rg_src = \<lparr>v_offset = o1 + base, v_stride = [s0, s1, s2]\<rparr>,
        rg_dst = \<lparr>v_offset = v * n0 * n1 * n2, v_stride = [n1 * n2, n2, 1]\<rparr>,
        rg_size = [n0, n1, n2], rg_origin = Some origin\<rparr>]) }) vs acc = Some (acc @ map r vs)" if "set vs \<subseteq> {0 .. ?P - 1}" for vs acc
    using that by (induction vs arbitrary: acc) (auto simp: r_def)
  have block: "slicetf_block origin axes base = Some (map r [0 .. ?P - 1])"
    using fold [of "[0 .. ?P - 1]" "[]"] by (simp add: slicetf_block_def Let_def at at(2) [unfolded One_nat_def])
  have copies: "region_copies (r v) = map (\<lambda>x. (base + row_source axes (v * ?K + x), v * ?K + x)) [0 .. ?K - 1]"
    if v: "0 \<le> v" "v < ?P" for v
  proof -
    have "axes_copies (rows [(n0, s0), (n1, s1), (n2, s2)]) = map (\<lambda>d. (row_source [(n0, s0), (n1, s1), (n2, s2)] d, d)) [0 .. ?K - 1]"
      using rows_copies [OF three(3) [OF order_refl]] K by (simp add: mult.assoc del: row_source.simps)
    moreover have "row_source [(n0, s0), (n1, s1), (n2, s2)] x + row_source ?pre v = row_source axes (v * ?K + x)"
      if x: "0 \<le> x" "x < ?K" for x
      using three(2) [OF x] row_source_append [OF x pre v] by (simp del: row_source.simps)
    moreover have "region_copies (r v) = shift (row_source ?pre v + base) (v * ?K) (axes_copies (rows [(n0, s0), (n1, s1), (n2, s2)]))"
      unfolding K [symmetric] by (simp add: region_copies_axes r_def size_at_def stride_at_def mult.assoc del: axes_copies.simps row_source.simps)
    ultimately show ?thesis
      by (simp add: shift_def algebra_simps del: row_source.simps)
  qed
  have "concat (map region_copies (map r [0 .. ?P - 1])) =
      concat (map (\<lambda>v. map (\<lambda>x. (base + row_source axes (v * ?K + x), v * ?K + x)) [0 .. ?K - 1]) [0 .. ?P - 1])"
    using copies by (intro arg_cong [of _ _ concat]) simp
  also have "\<dots> = map (\<lambda>d. (base + row_source axes d, d)) [0 .. ?P * ?K - 1]"
    unfolding upto_blocks [OF prod_list_nonneg [OF pre] prod_list_nonneg [OF post]] map_concat map_map comp_def ..
  also have "?P * ?K = prod_list (map fst axes)" by (subst (3) all) (simp only: map_append prod_list.append)
  finally show ?thesis using block by blast
qed


section \<open>The strides and the axes\<close>

lemma slicetf_strides_ok:
  assumes wf: "tensor_wf input" and b: "tshape input = ls" "length bs = length ls"
  shows "slicetf_strides input (bs @ rest) =
    Some (output_strides ls, sum_list (map2 (*) (map2 (\<lambda>b l. if b < 0 then b + l else b) bs ls) (output_strides ls)))"
proof -
  let ?F = "\<lambda>i (strides, stride, srcOffset). do {
         b \<leftarrow> arr_at (bs @ rest) i;
         l \<leftarrow> tlength input i;
         Some (stride # strides, stride * l, srcOffset + (if b < 0 then b + l else b) * stride) }"
  let ?w = "\<lambda>k. sum_list (map2 (*) (map2 (\<lambda>b l. if b < 0 then b + l else b) (drop k bs) (drop k ls)) (output_strides (drop k ls)))"
  have n: "t_dimensions input = int (length ls)" using wf tshape_length [OF wf] b(1) by (simp add: tensor_wf_def)
  have "k \<le> length ls \<Longrightarrow> foldM ?F (rev [int k .. int (length ls) - 1]) ([], 1, 0) =
      Some (output_strides (drop k ls), prod_list (drop k ls), ?w k)" for k
  proof (induction "length ls - k" arbitrary: k)
    case 0
    then show ?case by (simp add: output_strides_simps)
  next
    case (Suc m)
    then have k: "k < length ls" by simp
    have up: "rev [int k .. int (length ls) - 1] = rev [int (Suc k) .. int (length ls) - 1] @ [int k]"
      using k upto_rec1 [of "int k" "int (length ls) - 1"] by (simp add: add.commute)
    have app: "foldM F (xs @ [x]) s = do { t \<leftarrow> foldM F xs s; F x t }" for F :: "int \<Rightarrow> 'c \<Rightarrow> 'c option" and xs x s
      by (induction xs arbitrary: s) (auto split: bind_splits)
    have IH: "foldM ?F (rev [int (Suc k) .. int (length ls) - 1]) ([], 1, 0) =
        Some (output_strides (drop (Suc k) ls), prod_list (drop (Suc k) ls), ?w (Suc k))"
      by (rule Suc.hyps(1)) (use Suc.hyps(2) k in auto)
    have d: "drop k ls = ls ! k # drop (Suc k) ls" "drop k bs = bs ! k # drop (Suc k) bs" using k b(2) by (simp_all add: Cons_nth_drop_Suc)
    have l: "tlength input (int k) = Some (ls ! k)" using tlength_shape [OF wf, of k] b(1) k by simp
    have a: "arr_at (bs @ rest) (int k) = Some (bs ! k)" using k b(2) by (simp add: arr_at_def nth_append)
    show ?case unfolding up app IH using l a by (simp add: d output_strides_simps mult.commute)
  qed
  from this [of 0] show ?thesis by (simp add: slicetf_strides_def n)
qed

lemma slicetf_axes_ok:
  assumes wf: "tensor_wf t" and s: "length strides = length (tshape t)"
  shows "slicetf_axes t strides = Some (filter (\<lambda>q. fst q \<noteq> 1) (zip (tshape t) strides))"
proof -
  have n: "t_dimensions t = int (length (tshape t))" using wf tshape_length [OF wf] by (simp add: tensor_wf_def)
  let ?F = "\<lambda>i axes. do { l \<leftarrow> tlength t i; if l \<noteq> 1 then do { s \<leftarrow> arr_at strides i; Some (axes @ [(l, s)]) } else Some axes }"
  let ?P = "\<lambda>i axes. axes = filter (\<lambda>q. fst q \<noteq> 1) (take (nat i) (zip (tshape t) strides))"
  have "\<exists>axes. loop 0 (t_dimensions t) ?F [] = Some axes \<and> ?P (t_dimensions t) axes"
  proof (rule loop_rule)
    fix i axes assume i: "0 \<le> i" "i < t_dimensions t" "?P i axes"
    have k: "nat i < length (tshape t)" using i n by simp
    have l: "tlength t i = Some (tshape t ! nat i)" using tlength_shape [OF wf k] i(1) by simp
    have a: "arr_at strides i = Some (strides ! nat i)" using k s i(1) by (simp add: arr_at_def)
    have "nat (i + 1) = Suc (nat i)" using i(1) by simp
    then have "take (nat (i + 1)) (zip (tshape t) strides) = take (nat i) (zip (tshape t) strides) @ [(tshape t ! nat i, strides ! nat i)]"
      using k s by (simp add: take_Suc_conv_app_nth)
    then show "\<exists>axes'. ?F i axes = Some axes' \<and> ?P (i + 1) axes'" using i(3) l a by simp
  qed (simp_all add: n)
  then show ?thesis using s by (simp add: slicetf_axes_def n)
qed

section \<open>The theorem\<close>

text \<open>The position in the input of a position of the output: per dimension the input's extent, the output's
  extent and the begin.\<close>

fun slice_source :: "(int \<times> int \<times> int) list \<Rightarrow> int \<Rightarrow> int" where
  "slice_source [] d = 0"
| "slice_source ((il, ol, b) # ps) d = (let k = prod_list (map (fst \<circ> snd) ps) in
     ((if b < 0 then b + il else b) + d div k) * prod_list (map fst ps) + slice_source ps (d mod k))"

lemma slice_source_rows:
  "length ls = length os \<Longrightarrow> length os = length bs \<Longrightarrow>
    slice_source (zip ls (zip os bs)) d = sum_list (map2 (*) (map2 (\<lambda>b l. if b < 0 then b + l else b) bs ls) (output_strides ls)) +
      row_source (zip os (output_strides ls)) d"
proof (induction ls os bs arbitrary: d rule: list_induct3)
  case (Cons l ls k os b bs)
  have "map (fst \<circ> snd) (zip ls (zip os bs)) = os" using Cons.hyps by (simp flip: map_map add: map_snd_zip map_fst_zip)
  moreover have "map fst (zip ls (zip os bs)) = ls" using Cons.hyps by (simp add: map_fst_zip)
  moreover have "map fst (zip os (output_strides ls)) = os" using Cons.hyps output_strides_at(2) [of ls] by (simp add: map_fst_zip)
  ultimately show ?case using Cons.IH by (simp add: Let_def output_strides_simps algebra_simps)
qed (simp add: output_strides_simps)

text \<open>
  C34: \<open>GeometrySliceTF\<close> gives regions that write every element of the output once, in order, from the
  element of the input whose coordinates are the output's plus \<open>begin\<close> (plus the extent where \<open>begin\<close> is
  negative), whatever the number of dimensions and whichever of them have the extent 1.
\<close>

theorem slicetf_regions_copy:
  assumes wf: "tensor_wf input" "tensor_wf output" and n: "t_dimensions output = t_dimensions input"
    and b: "length bs = length (tshape input)" and nonneg: "\<forall>l \<in> set (tshape output). 0 \<le> l"
  shows "\<exists>rs. GeometrySliceTF origin input (bs @ rest) output = Some rs \<and>
    concat (map region_copies rs) =
      map (\<lambda>d. (slice_source (zip (tshape input) (zip (tshape output) bs)) d, d)) [0 .. prod_list (tshape output) - 1]"
proof -
  let ?ls = "tshape input" and ?os = "tshape output" and ?st = "output_strides (tshape input)"
  let ?axes = "filter (\<lambda>q. fst q \<noteq> 1) (zip ?os ?st)"
  let ?base = "sum_list (map2 (*) (map2 (\<lambda>b l. if b < 0 then b + l else b) bs ?ls) ?st)"
  have len: "length ?os = length ?ls" using wf n tshape_length by (simp add: tensor_wf_def)
  then have st: "length ?st = length ?os" using output_strides_at(2) [of ?ls] by simp
  have axes: "slicetf_axes output ?st = Some ?axes" by (rule slicetf_axes_ok [OF wf(2) st])
  have zip: "\<forall>q \<in> set (zip ?os ?st). 0 \<le> fst q" using nonneg by (auto dest: set_zip_leftD)
  then have ax: "\<forall>q \<in> set ?axes. 0 \<le> fst q" by simp
  obtain rs where rs: "slicetf_block origin ?axes ?base = Some rs"
      "concat (map region_copies rs) = map (\<lambda>d. (?base + row_source ?axes d, d)) [0 .. prod_list (map fst ?axes) - 1]"
    using slicetf_block_copies [OF ax] by blast
  have "prod_list (map fst (filter (\<lambda>q. fst q \<noteq> 1) ps)) = prod_list (map fst ps)" for ps :: "(int \<times> int) list" by (induction ps) auto
  then have total: "prod_list (map fst ?axes) = prod_list ?os" using st by (simp add: map_fst_zip)
  have "?base + row_source ?axes d = slice_source (zip ?ls (zip ?os bs)) d" if "0 \<le> d" "d < prod_list ?os" for d
    using slice_source_rows [of ?ls ?os bs d] row_source_ones [OF zip that(1)] that(2) len b st by (simp add: map_fst_zip)
  then have "concat (map region_copies rs) = map (\<lambda>d. (slice_source (zip ?ls (zip ?os bs)) d, d)) [0 .. prod_list ?os - 1]"
    unfolding rs(2) total by simp
  moreover have "GeometrySliceTF origin input (bs @ rest) output = Some rs"
    using slicetf_strides_ok [OF wf(1) refl b] axes rs(1) by (simp add: GeometrySliceTF_def)
  ultimately show ?thesis by blast
qed

theorem slicetf_regions_copy_witness:
  "\<exists>rs. GeometrySliceTF 7 (tensor_of [4, 5, 6, 7] MNN_NCHW []) [1, -3, 0, 2] (tensor_of [2, 3, 1, 4] MNN_NCHW []) = Some rs \<and>
    concat (map region_copies rs) =
      map (\<lambda>d. (slice_source [(4, 2, 1), (5, 3, -3), (6, 1, 0), (7, 4, 2)] d, d)) [0 .. 23]"
  using slicetf_regions_copy [of "tensor_of [4, 5, 6, 7] MNN_NCHW []" "tensor_of [2, 3, 1, 4] MNN_NCHW []" "[1, -3, 0, 2]" 7 "[]"]
  by (simp del: slice_source.simps)

end
