(* ===== verification/WeightBits.thy ===== *)
theory WeightBits
  imports Tensor "HOL-Library.Word"
begin

unbundle bit_operations_syntax

text \<open>
  Indexes of a few bits each, packed into bytes: \<open>FillBuffer\<close> of \<open>source/core/IDSTEncoder.hpp\<close> and
  \<open>SplitBufToArray\<close> of \<open>source/core/ConvolutionCommon.cpp\<close>. A byte is an \<open>8 word\<close>; the state of both loops is the
  pointer \<open>tmp\<close> as an offset into the buffer, and \<open>iOffset\<close>, the bit behind it. A shift by a negative amount is
  undefined. The facts read the buffer as a stream
  of bits, the highest bit of a byte first (\<open>stream\<close>).
\<close>

type_synonym byte = "8 word"

definition or_at :: "byte list \<Rightarrow> nat \<Rightarrow> byte \<Rightarrow> byte list option" where
  "or_at buf k v = (if k < length buf then Some (buf[k := buf ! k OR v]) else None)"

definition byte_at :: "byte list \<Rightarrow> nat \<Rightarrow> byte option" where
  "byte_at buf k = (if k < length buf then Some (buf ! k) else None)"

definition bit_mask :: "nat \<Rightarrow> byte" where
  \<comment> \<open>\<open>cMask\<close>\<close>
  "bit_mask iNeedBits = push_bit iNeedBits 1 - 1"

definition move_on :: "nat \<Rightarrow> nat \<times> nat \<Rightarrow> nat \<times> nat" where
  \<comment> \<open>to the bits of the following index\<close>
  "move_on iNeedBits p = (case p of (tmp, iOffset) \<Rightarrow>
     let iOffset = iOffset + iNeedBits
     in if iOffset mod 8 = 0 then (tmp + iOffset div 8, 0) else (tmp, iOffset))"

definition fill_step :: "nat \<Rightarrow> byte \<Rightarrow> byte list \<times> nat \<times> nat \<Rightarrow> (byte list \<times> nat \<times> nat) option" where
  "fill_step iNeedBits v s = (case s of (buf, tmp, iOffset) \<Rightarrow>
     let uShift = 8 - int iNeedBits - int (iOffset mod 8);
         k = tmp + iOffset div 8
     in do {
       buf \<leftarrow> (if 8 + uShift < 0 then None else if uShift < 0
         then do {
           buf \<leftarrow> or_at buf k (drop_bit (nat (- uShift)) (v AND bit_mask iNeedBits));
           or_at buf (k + 1) (push_bit (nat (8 + uShift)) (v AND bit_mask iNeedBits)) }
         else or_at buf k (push_bit (nat uShift) (v AND bit_mask iNeedBits)));
       Some (buf, move_on iNeedBits (tmp, iOffset)) })"

definition FillBuffer :: "nat \<Rightarrow> byte list \<Rightarrow> nat \<Rightarrow> byte list option" where
  "FillBuffer buf_len arr iNeedBits = do {
     (buf, _) \<leftarrow> foldM (fill_step iNeedBits) arr (replicate buf_len 0, 0, 0);
     Some buf }"

definition split_step :: "byte list \<Rightarrow> nat \<Rightarrow> nat \<times> nat \<Rightarrow> byte option" where
  "split_step buf iNeedBits p = (case p of (tmp, iOffset) \<Rightarrow>
     let uShift = 8 - int iNeedBits - int (iOffset mod 8);
         k = tmp + iOffset div 8
     in if 8 + uShift < 0 then None
        else if uShift < 0
        then do {
          b0 \<leftarrow> byte_at buf k;
          b1 \<leftarrow> byte_at buf (k + 1);
          Some ((push_bit (nat (- uShift)) b0 AND bit_mask iNeedBits) OR (drop_bit (nat (8 + uShift)) b1 AND bit_mask iNeedBits)) }
        else do {
          b0 \<leftarrow> byte_at buf k;
          Some (drop_bit (nat uShift) b0 AND bit_mask iNeedBits) })"

definition SplitBufToArray :: "byte list \<Rightarrow> nat \<Rightarrow> nat \<Rightarrow> byte list option" where
  "SplitBufToArray buf arrLen iNeedBits = do {
     (arr, _) \<leftarrow> foldM (\<lambda>_ (arr, p). do {
         idx \<leftarrow> split_step buf iNeedBits p;
         Some (arr @ [idx], move_on iNeedBits p) }) [0..<arrLen] ([], 0, 0);
     Some arr }"

section \<open>The stream of bits\<close>

definition stream :: "byte list \<Rightarrow> nat \<Rightarrow> bool" where
  "stream buf k \<longleftrightarrow> bit (buf ! (k div 8)) (7 - k mod 8)"

definition at_bit :: "nat \<times> nat \<Rightarrow> nat" where
  "at_bit p = 8 * fst p + snd p"

lemma at_bit_move_on [simp]: "at_bit (move_on n p) = at_bit p + n"
  by (auto simp: at_bit_def move_on_def Let_def split: prod.split)

lemma at_bit_byte: "at_bit (t, i) div 8 = t + i div 8" "at_bit (t, i) mod 8 = i mod 8"
  by (simp_all add: at_bit_def)

lemma bit_mask_iff: "n \<le> 8 \<Longrightarrow> bit (bit_mask n) j \<longleftrightarrow> j < n"
proof -
  assume n: "n \<le> 8"
  have "bit_mask n = (mask n :: byte)" by (simp add: bit_mask_def mask_eq_exp_minus_1 push_bit_eq_mult)
  then show ?thesis using n by (auto simp: bit_mask_iff)
qed

lemma byte_parts: "r < 8 \<Longrightarrow> (8 * k + r) div 8 = k" "r < 8 \<Longrightarrow> (8 * k + r) mod 8 = r" for r k :: nat
  by simp_all

lemma or_at_stream:
  assumes "or_at buf k v = Some buf'"
  shows "length buf' = length buf" "j < 8 * length buf \<Longrightarrow> stream buf' j \<longleftrightarrow> stream buf j \<or> (j div 8 = k \<and> bit v (7 - j mod 8))"
  using assms by (auto simp: or_at_def stream_def nth_list_update bit_or_iff split: if_splits)

text \<open>The bits of an index lie in one byte, or in two.\<close>

lemma one_byte:
  fixes k m n q r :: nat
  assumes "n + m \<le> 8" "1 \<le> n" "r < 8"
  shows "q = k \<and> 8 - n - m \<le> 7 - r \<and> 7 - r - (8 - n - m) < n \<longleftrightarrow> 8 * k + m \<le> 8 * q + r \<and> 8 * q + r < 8 * k + m + n" (is "?A \<longleftrightarrow> ?B")
    "q = k \<Longrightarrow> 8 - n - m \<le> 7 - r \<Longrightarrow> 7 - r - (8 - n - m) = 8 * k + m + n - 1 - (8 * q + r)"
proof -
  show "?A \<longleftrightarrow> ?B"
  proof (cases q k rule: linorder_cases)
    case less
    then obtain d where "k = Suc (q + d)" using less_imp_Suc_add by blast
    then show ?thesis using assms by auto
  next
    case equal
    then show ?thesis using assms by auto
  next
    case greater
    then obtain d where "q = Suc (k + d)" using less_imp_Suc_add by blast
    then show ?thesis using assms by auto
  qed
  show "q = k \<Longrightarrow> 8 - n - m \<le> 7 - r \<Longrightarrow> 7 - r - (8 - n - m) = 8 * k + m + n - 1 - (8 * q + r)" using assms by auto
qed

lemma two_bytes:
  fixes k m n q r :: nat
  assumes "8 < n + m" "m < 8" "n \<le> 8" "r < 8"
  shows "(q = k \<and> 7 - r + (n + m - 8) < n) \<or> (q = k + 1 \<and> 16 - n - m \<le> 7 - r) \<longleftrightarrow>
      8 * k + m \<le> 8 * q + r \<and> 8 * q + r < 8 * k + m + n" (is "?A \<longleftrightarrow> ?B")
    "q = k \<Longrightarrow> 7 - r + (n + m - 8) < n \<Longrightarrow> 7 - r + (n + m - 8) = 8 * k + m + n - 1 - (8 * q + r)"
    "q = k + 1 \<Longrightarrow> 16 - n - m \<le> 7 - r \<Longrightarrow> 7 - r - (16 - n - m) = 8 * k + m + n - 1 - (8 * q + r) \<and> 7 - r - (16 - n - m) < n"
proof -
  consider "q < k" | "q = k" | "q = k + 1" | "k + 1 < q" by linarith
  then show "?A \<longleftrightarrow> ?B"
  proof cases
    case 1
    then obtain d where "k = Suc (q + d)" using less_imp_Suc_add by blast
    then show ?thesis using assms by auto
  next
    case 4
    then obtain d where "q = Suc (k + 1 + d)" using less_imp_Suc_add by blast
    then show ?thesis using assms by auto
  qed (use assms in auto)
qed (use assms in auto)

lemma bit_shifted:
  assumes "n \<le> 8"
  shows "bit (push_bit a (v AND bit_mask n)) x \<longleftrightarrow> a \<le> x \<and> x < 8 \<and> x - a < n \<and> bit v (x - a)"
    "bit (drop_bit a (v AND bit_mask n)) x \<longleftrightarrow> x + a < n \<and> bit v (x + a)"
  using assms by (auto simp: bit_push_bit_iff bit_drop_bit_eq bit_and_iff bit_mask_iff add.commute)

lemma fill_step_stream:
  assumes n: "1 \<le> n" "n \<le> 8" and room: "at_bit p + n \<le> 8 * length buf"
  shows "\<exists>buf'. fill_step n v (buf, p) = Some (buf', move_on n p) \<and> length buf' = length buf \<and>
    (\<forall>j < 8 * length buf. stream buf' j \<longleftrightarrow>
       stream buf j \<or> (at_bit p \<le> j \<and> j < at_bit p + n \<and> bit v (at_bit p + n - 1 - j)))"
proof -
  obtain t i k m where p: "p = (t, i)" "t + i div 8 = k" "i mod 8 = m" by (cases p) auto
  have P: "at_bit p = 8 * k + m" using div_mult_mod_eq [of i 8] unfolding p(1) p(2,3) [symmetric] by (simp add: at_bit_def)
  have m: "m < 8" using p(3) by auto
  have len: "8 * k + m + n \<le> 8 * length buf" using room P by simp
  show ?thesis
  proof (cases "n + m \<le> 8")
    case True
    have "k < length buf" using len n by linarith
    then obtain b where b: "or_at buf k (push_bit (8 - n - m) (v AND bit_mask n)) = Some b" by (simp add: or_at_def)
    have sh: "\<not> 8 + (8 - int n - int m) < 0" "\<not> 8 - int n - int m < 0" "nat (8 - int n - int m) = 8 - n - m" using True by linarith+
    have step: "fill_step n v (buf, p) = Some (b, move_on n p)"
      using b sh by (simp add: fill_step_def p Let_def)
    have "stream b j \<longleftrightarrow> stream buf j \<or> (at_bit p \<le> j \<and> j < at_bit p + n \<and> bit v (at_bit p + n - 1 - j))" if j: "j < 8 * length buf" for j
    proof -
      have J: "8 * (j div 8) + j mod 8 = j" "j mod 8 < 8" by simp_all
      have "stream b j \<longleftrightarrow> stream buf j \<or> (j div 8 = k \<and> 8 - n - m \<le> 7 - j mod 8 \<and> 7 - j mod 8 - (8 - n - m) < n \<and> bit v (7 - j mod 8 - (8 - n - m)))"
        using or_at_stream(2) [OF b j] unfolding bit_shifted [OF n(2)] by linarith
      then show ?thesis using one_byte [OF True n(1) J(2), of "j div 8" k, unfolded J(1)] unfolding P by metis
    qed
    then show ?thesis using step or_at_stream(1) [OF b] by blast
  next
    case False
    then have k: "k + 1 < length buf" using len n by linarith
    obtain b where b: "or_at buf k (drop_bit (n + m - 8) (v AND bit_mask n)) = Some b" using k by (simp add: or_at_def)
    then have lb: "length b = length buf" by (rule or_at_stream(1))
    obtain c where c: "or_at b (k + 1) (push_bit (16 - n - m) (v AND bit_mask n)) = Some c" using k lb by (simp add: or_at_def)
    have sh: "\<not> 8 + (8 - int n - int m) < 0" "8 - int n - int m < 0" "nat (- (8 - int n - int m)) = n + m - 8" "nat (8 + (8 - int n - int m)) = 16 - n - m" using False n m by linarith+
    have step: "fill_step n v (buf, p) = Some (c, move_on n p)"
      using b c sh by (simp add: fill_step_def p Let_def)
    have "stream c j \<longleftrightarrow> stream buf j \<or> (at_bit p \<le> j \<and> j < at_bit p + n \<and> bit v (at_bit p + n - 1 - j))" if j: "j < 8 * length buf" for j
    proof -
      have J: "8 * (j div 8) + j mod 8 = j" "j mod 8 < 8" by simp_all
      have bits: "stream c j \<longleftrightarrow> stream buf j \<or> (j div 8 = k \<and> 7 - j mod 8 + (n + m - 8) < n \<and> bit v (7 - j mod 8 + (n + m - 8))) \<or>
          (j div 8 = k + 1 \<and> 16 - n - m \<le> 7 - j mod 8 \<and> 7 - j mod 8 - (16 - n - m) < n \<and> bit v (7 - j mod 8 - (16 - n - m)))"
      proof -
        have "7 - j mod 8 < 8" by simp
        then show ?thesis
          unfolding or_at_stream(2) [OF c j [folded lb]] or_at_stream(2) [OF b j] bit_shifted [OF n(2)] by blast
      qed
      note T = two_bytes [OF _ m n(2) J(2), of "j div 8" k, unfolded J(1)]
      have nm: "8 < n + m" using False by simp
      have "j div 8 = k \<and> 7 - j mod 8 + (n + m - 8) < n \<and> bit v (7 - j mod 8 + (n + m - 8)) \<longleftrightarrow>
          j div 8 = k \<and> 7 - j mod 8 + (n + m - 8) < n \<and> bit v (8 * k + m + n - 1 - j)" using T(2) [OF nm] by metis
      moreover have "j div 8 = k + 1 \<and> 16 - n - m \<le> 7 - j mod 8 \<and> 7 - j mod 8 - (16 - n - m) < n \<and> bit v (7 - j mod 8 - (16 - n - m)) \<longleftrightarrow>
          j div 8 = k + 1 \<and> 16 - n - m \<le> 7 - j mod 8 \<and> bit v (8 * k + m + n - 1 - j)" using T(3) [OF nm] by metis
      ultimately show ?thesis using bits T(1) [OF nm] unfolding P by blast
    qed
    then show ?thesis using step or_at_stream(1) [OF c] lb by auto
  qed
qed

lemma split_step_stream:
  assumes n: "1 \<le> n" "n \<le> 8" and room: "at_bit p + n \<le> 8 * length buf"
  shows "\<exists>v. split_step buf n p = Some v \<and> (\<forall>j. bit v j \<longleftrightarrow> j < n \<and> stream buf (at_bit p + n - 1 - j))"
proof -
  obtain t i k m where p: "p = (t, i)" "t + i div 8 = k" "i mod 8 = m" by (cases p) auto
  have P: "at_bit p = 8 * k + m" using div_mult_mod_eq [of i 8] unfolding p(1) p(2,3) [symmetric] by (simp add: at_bit_def)
  have m: "m < 8" using p(3) by auto
  have len: "8 * k + m + n \<le> 8 * length buf" using room P by simp
  show ?thesis
  proof (cases "n + m \<le> 8")
    case True
    have "k < length buf" using len n by linarith
    moreover have sh: "\<not> 8 + (8 - int n - int m) < 0" "\<not> 8 - int n - int m < 0" "nat (8 - int n - int m) = 8 - n - m" using True by linarith+
    ultimately have "split_step buf n p = Some (drop_bit (8 - n - m) (buf ! k) AND bit_mask n)"
      by (simp add: split_step_def p byte_at_def Let_def)
    moreover have "stream buf (8 * k + m + n - 1 - j) \<longleftrightarrow> bit (buf ! k) (8 - n - m + j)" if "j < n" for j
    proof -
      have "m + n - 1 - j < 8" using True that by linarith
      note parts = byte_parts [OF this, of k]
      have "8 * k + m + n - 1 - j = 8 * k + (m + n - 1 - j)" "7 - (m + n - 1 - j) = 8 - n - m + j" using True that by linarith+
      then show ?thesis by (simp only: stream_def parts)
    qed
    ultimately show ?thesis unfolding P using n(2) by (auto simp: bit_drop_bit_eq bit_and_iff bit_mask_iff)
  next
    case False
    then have k: "k + 1 < length buf" using len n by linarith
    have sh: "\<not> 8 + (8 - int n - int m) < 0" "8 - int n - int m < 0" "nat (- (8 - int n - int m)) = n + m - 8" "nat (8 + (8 - int n - int m)) = 16 - n - m" using False n m by linarith+
    then have "split_step buf n p = Some ((push_bit (n + m - 8) (buf ! k) AND bit_mask n) OR (drop_bit (16 - n - m) (buf ! (k + 1)) AND bit_mask n))"
      using k by (simp add: split_step_def p byte_at_def Let_def)
    moreover have "stream buf (8 * k + m + n - 1 - j) \<longleftrightarrow>
        (n + m - 8 \<le> j \<and> bit (buf ! k) (j - (n + m - 8))) \<or> bit (buf ! (k + 1)) (16 - n - m + j)" if j: "j < n" for j
    proof (cases "n + m - 8 \<le> j")
      case True
      have "m + n - 1 - j < 8" using True j False by linarith
      note parts = byte_parts [OF this, of k]
      have eqs: "8 * k + m + n - 1 - j = 8 * k + (m + n - 1 - j)" "7 - (m + n - 1 - j) = j - (n + m - 8)" "8 \<le> 16 - n - m + j"
        using True j False m n by linarith+
      then have "\<not> bit (buf ! (k + 1)) (16 - n - m + j)" using bit_imp_le_length [of "buf ! (k + 1)" "16 - n - m + j"] by auto
      then show ?thesis using True unfolding eqs(1) stream_def parts eqs(2) by blast
    next
      case no: False
      have "m + n - 9 - j < 8" using no j m n by linarith
      note parts = byte_parts [OF this, of "k + 1"]
      have "9 + j \<le> m + n" using no by linarith
      then obtain e where e: "m + n = 9 + j + e" using le_Suc_ex by blast
      have "8 * k + m + n - 1 - j = 8 * k + 8 + e" "m + n - 9 - j = e" "e \<le> 7" "16 - n - m = 7 - j - e" "j + e \<le> 6" using e m n by linarith+
      then have eqs: "8 * k + m + n - 1 - j = 8 * (k + 1) + (m + n - 9 - j)" "7 - (m + n - 9 - j) = 16 - n - m + j" by simp_all
      show ?thesis using no unfolding eqs(1) stream_def parts eqs(2) by blast
    qed
    moreover have "bit (push_bit (n + m - 8) (buf ! k)) j \<longleftrightarrow> n + m - 8 \<le> j \<and> j < 8 \<and> bit (buf ! k) (j - (n + m - 8))" for j
      by (auto simp: bit_push_bit_iff)
    ultimately show ?thesis unfolding P using n(2) by (auto simp: bit_drop_bit_eq bit_and_iff bit_or_iff bit_mask_iff)
  qed
qed

section \<open>Packing and unpacking\<close>

lemma fill_stream:
  assumes n: "1 \<le> n" "n \<le> 8"
  shows "at_bit p + n * length arr \<le> 8 * length buf \<Longrightarrow>
    \<exists>buf' p'. foldM (fill_step n) arr (buf, p) = Some (buf', p') \<and> length buf' = length buf \<and>
      (\<forall>j < 8 * length buf. stream buf' j \<longleftrightarrow>
         stream buf j \<or> (\<exists>i < length arr. at_bit p + n * i \<le> j \<and> j < at_bit p + n * i + n \<and> bit (arr ! i) (at_bit p + n * i + n - 1 - j)))"
proof (induction arr arbitrary: buf p)
  case Nil
  then show ?case by simp
next
  case (Cons v arr)
  have "at_bit p + n \<le> 8 * length buf" using Cons.prems by simp
  then obtain b where b: "fill_step n v (buf, p) = Some (b, move_on n p)" "length b = length buf"
      "\<And>j. j < 8 * length buf \<Longrightarrow> stream b j \<longleftrightarrow> stream buf j \<or> (at_bit p \<le> j \<and> j < at_bit p + n \<and> bit v (at_bit p + n - 1 - j))"
    using fill_step_stream [OF n] by blast
  have "at_bit (move_on n p) + n * length arr \<le> 8 * length b" using Cons.prems b(2) by simp
  from Cons.IH [OF this] obtain c p' where c: "foldM (fill_step n) arr (b, move_on n p) = Some (c, p')" "length c = length b"
      "\<And>j. j < 8 * length b \<Longrightarrow> stream c j \<longleftrightarrow> stream b j \<or> (\<exists>i < length arr. at_bit p + n + n * i \<le> j \<and> j < at_bit p + n + n * i + n \<and>
         bit (arr ! i) (at_bit p + n + n * i + n - 1 - j))"
    by (auto simp: add.assoc)
  have "stream c j \<longleftrightarrow> stream buf j \<or> (\<exists>i < length (v # arr). at_bit p + n * i \<le> j \<and> j < at_bit p + n * i + n \<and>
      bit ((v # arr) ! i) (at_bit p + n * i + n - 1 - j))" if j: "j < 8 * length buf" for j
    using b(3) [OF j] c(3) [of j] b(2) j by (simp add: Ex_less_Suc2 add.assoc)
  then show ?case using b(1,2) c(1,2) by auto
qed

lemma split_stream:
  assumes n: "1 \<le> n" "n \<le> 8"
  shows "at_bit p + n * length xs \<le> 8 * length buf \<Longrightarrow>
    \<exists>vs p'. foldM (\<lambda>_ (arr, p). do { idx \<leftarrow> split_step buf n p; Some (arr @ [idx], move_on n p) }) xs (acc, p) = Some (acc @ vs, p') \<and>
      length vs = length xs \<and> (\<forall>i < length vs. \<forall>j. bit (vs ! i) j \<longleftrightarrow> j < n \<and> stream buf (at_bit p + n * i + n - 1 - j))"
proof (induction xs arbitrary: acc p)
  case Nil
  then show ?case by simp
next
  case (Cons x xs)
  have "at_bit p + n \<le> 8 * length buf" using Cons.prems by simp
  then obtain v where v: "split_step buf n p = Some v" "\<forall>j. bit v j \<longleftrightarrow> j < n \<and> stream buf (at_bit p + n - 1 - j)"
    using split_step_stream [OF n] by blast
  have "at_bit (move_on n p) + n * length xs \<le> 8 * length buf" using Cons.prems by simp
  from Cons.IH [OF this, of "acc @ [v]"] obtain vs p' where vs:
      "foldM (\<lambda>_ (arr, p). do { idx \<leftarrow> split_step buf n p; Some (arr @ [idx], move_on n p) }) xs (acc @ [v], move_on n p) = Some (acc @ [v] @ vs, p')"
      "length vs = length xs" "\<forall>i < length vs. \<forall>j. bit (vs ! i) j \<longleftrightarrow> j < n \<and> stream buf (at_bit p + n + n * i + n - 1 - j)"
    by (auto simp: add.assoc)
  have "\<forall>i < length (v # vs). \<forall>j. bit ((v # vs) ! i) j \<longleftrightarrow> j < n \<and> stream buf (at_bit p + n * i + n - 1 - j)"
    using v(2) vs(3) by (auto simp: less_Suc_eq_0_disj add.assoc)
  then show ?case using v(1) vs(1,2) by (intro exI [of _ "v # vs"] exI [of _ p']) simp
qed

lemma split_array:
  assumes n: "1 \<le> n" "n \<le> 8" and room: "n * len \<le> 8 * length buf"
  shows "\<exists>vs. SplitBufToArray buf len n = Some vs \<and> length vs = len \<and>
    (\<forall>i < len. \<forall>j. bit (vs ! i) j \<longleftrightarrow> j < n \<and> stream buf (n * i + n - 1 - j))"
proof -
  have p0: "at_bit (0, 0) + k = k" for k by (simp add: at_bit_def)
  have "at_bit (0, 0) + n * length [0..<len] \<le> 8 * length buf" using room by (simp add: at_bit_def)
  from split_stream [OF n this, of "[]"] show ?thesis unfolding p0 by (auto simp: SplitBufToArray_def)
qed

text \<open>Eight bits are the bytes themselves, four bits their halves.\<close>

definition nibble :: "byte list \<Rightarrow> nat \<Rightarrow> byte" where
  "nibble buf i = (if even i then buf ! (i div 2) div 16 else buf ! (i div 2) mod 16)"

lemma bit_nibble: "bit (nibble buf i) j \<longleftrightarrow> j < 4 \<and> bit (buf ! (i div 2)) (if even i then j + 4 else j)"
proof -
  have "w div 16 = drop_bit 4 w" "w mod 16 = take_bit 4 w" for w :: byte by (simp_all add: drop_bit_eq_div take_bit_eq_mod)
  moreover have "bit (buf ! (i div 2)) (j + 4) \<Longrightarrow> j < 4" using bit_imp_le_length [of "buf ! (i div 2)" "j + 4"] by simp
  ultimately show ?thesis by (auto simp: nibble_def bit_drop_bit_eq bit_take_bit_iff add.commute)
qed

lemma split_bytes: "SplitBufToArray buf (length buf) 8 = Some buf"
proof -
  obtain vs where vs: "SplitBufToArray buf (length buf) 8 = Some vs" "length vs = length buf"
      "\<forall>i < length buf. \<forall>j. bit (vs ! i) j \<longleftrightarrow> j < 8 \<and> stream buf (8 * i + 8 - 1 - j)"
    using split_array [of 8 "length buf" buf] by auto
  have "vs ! i = buf ! i" if i: "i < length buf" for i
  proof (rule bit_eqI)
    fix j
    have "8 * i + 8 - 1 - j = 8 * i + (7 - j)" "7 - (7 - j) = j" "7 - j < 8" if "j < 8" using that by simp_all
    then have "j < 8 \<Longrightarrow> stream buf (8 * i + 8 - 1 - j) \<longleftrightarrow> bit (buf ! i) j"
      using byte_parts [of "7 - j" i] by (simp only: stream_def)
    then show "bit (vs ! i) j \<longleftrightarrow> bit (buf ! i) j" using vs(3) i bit_imp_le_length [of "buf ! i" j] by auto
  qed
  then have "vs = buf" using vs(2) by (simp add: nth_equalityI)
  then show ?thesis using vs(1) by simp
qed

lemma split_nibbles:
  assumes "m \<le> 2 * length buf"
  shows "SplitBufToArray buf m 4 = Some (map (nibble buf) [0..<m])"
proof -
  have "4 * m \<le> 8 * length buf" using assms by simp
  then obtain vs where vs: "SplitBufToArray buf m 4 = Some vs" "length vs = m"
      "\<forall>i < m. \<forall>j. bit (vs ! i) j \<longleftrightarrow> j < 4 \<and> stream buf (4 * i + 4 - 1 - j)"
    using split_array [of 4 m buf] by auto
  have "vs ! i = nibble buf i" if i: "i < m" for i
  proof (rule bit_eqI)
    fix j
    have "stream buf (4 * i + 4 - 1 - j) \<longleftrightarrow> bit (buf ! (i div 2)) (if even i then j + 4 else j)" if j: "j < 4"
    proof (cases "even i")
      case True
      then obtain q where q: "i = 2 * q" by (elim evenE)
      have "4 * i + 4 - 1 - j = 8 * q + (3 - j)" "7 - (3 - j) = j + 4" "3 - j < 8" using j q by simp_all
      then show ?thesis using byte_parts [of "3 - j" q] q by (simp only: stream_def) simp
    next
      case False
      then obtain q where q: "i = 2 * q + 1" by (elim oddE)
      have "4 * i + 4 - 1 - j = 8 * q + (7 - j)" "7 - (7 - j) = j" "7 - j < 8" using j q by simp_all
      then show ?thesis using byte_parts [of "7 - j" q] q by (simp only: stream_def) simp
    qed
    then show "bit (vs ! i) j \<longleftrightarrow> bit (nibble buf i) j" using vs(3) i by (auto simp: bit_nibble)
  qed
  then have "vs = map (nibble buf) [0..<m]" using vs(2) by (simp add: list_eq_iff_nth_eq)
  then show ?thesis using vs(1) by simp
qed

lemma same_slot:
  fixes i i' n j :: nat
  assumes "n * i' \<le> n * i + n - 1 - j" "n * i + n - 1 - j < n * i' + n" "j < n"
  shows "i' = i"
proof -
  have "n * i \<le> n * i + n - 1 - j" "n * i + n - 1 - j < n * i + n" using assms(3) by auto
  then have "n * i' < n * Suc i" "n * i < n * Suc i'" using assms(1,2) by auto
  then have "i' < Suc i" "i < Suc i'" by (simp_all only: mult_less_cancel1)
  then show ?thesis by simp
qed

lemma fill_split_roundtrip:
  assumes n: "1 \<le> n" "n \<le> 8" and fits: "\<forall>v \<in> set arr. unat v < 2 ^ n" and room: "n * length arr \<le> 8 * buf_len"
  shows "\<exists>buf. FillBuffer buf_len arr n = Some buf \<and> length buf = buf_len \<and> SplitBufToArray buf (length arr) n = Some arr"
proof -
  have zero: "\<not> stream (replicate buf_len 0) j" if "j < 8 * buf_len" for j
    using that by (simp add: stream_def less_mult_imp_div_less mult.commute)
  have p0: "at_bit (0, 0) + k = k" for k by (simp add: at_bit_def)
  have "at_bit (0, 0) + n * length arr \<le> 8 * length (replicate buf_len (0 :: byte))" using room by (simp add: at_bit_def)
  from fill_stream [OF n this] obtain buf p where buf: "foldM (fill_step n) arr (replicate buf_len 0, 0, 0) = Some (buf, p)" "length buf = buf_len"
      "\<And>j. j < 8 * buf_len \<Longrightarrow> stream buf j \<longleftrightarrow> (\<exists>i < length arr. n * i \<le> j \<and> j < n * i + n \<and> bit (arr ! i) (n * i + n - 1 - j))"
    using zero unfolding p0 by auto
  obtain vs where vs: "SplitBufToArray buf (length arr) n = Some vs" "length vs = length arr"
      "\<And>i j. i < length vs \<Longrightarrow> bit (vs ! i) j \<longleftrightarrow> j < n \<and> stream buf (n * i + n - 1 - j)"
    using split_array [OF n, of "length arr" buf] room buf(2) by auto
  have "vs ! i = arr ! i" if i: "i < length arr" for i
  proof (rule bit_eqI)
    fix j
    have small: "\<not> bit (arr ! i) j" if "n \<le> j"
    proof -
      have "take_bit n (arr ! i) = arr ! i"
        using fits i by (simp add: word_unat_eq_iff unsigned_take_bit_eq take_bit_nat_eq_self)
      then show ?thesis using that by (metis bit_take_bit_iff not_le)
    qed
    have inside: "n * i + n - 1 - j < 8 * buf_len" if "j < n"
    proof -
      have "n * Suc i \<le> n * length arr" using i by (intro mult_le_mono2) simp
      then show ?thesis using room that n(1) by simp
    qed
    have "stream buf (n * i + n - 1 - j) \<longleftrightarrow> bit (arr ! i) j" if j: "j < n"
    proof -
      have idx: "n * i + n - 1 - (n * i + n - 1 - j) = j" "n * i \<le> n * i + n - 1 - j" "n * i + n - 1 - j < n * i + n" using j by auto
      have "bit (arr ! i') (n * i' + n - 1 - (n * i + n - 1 - j)) \<Longrightarrow> n * i' \<le> n * i + n - 1 - j \<Longrightarrow>
          n * i + n - 1 - j < n * i' + n \<Longrightarrow> bit (arr ! i) j" for i'
        using same_slot [of n i' i j] j idx(1) by auto
      then show ?thesis using buf(3) [OF inside [OF j]] idx i by auto
    qed
    moreover have "bit (vs ! i) j \<longleftrightarrow> j < n \<and> stream buf (n * i + n - 1 - j)" by (rule vs(3)) (use vs(2) i in simp)
    ultimately show "bit (vs ! i) j \<longleftrightarrow> bit (arr ! i) j" using small by (cases "j < n") simp_all
  qed
  then have "vs = arr" using vs(2) by (simp add: nth_equalityI)
  then show ?thesis using buf(1,2) vs(1) by (simp add: FillBuffer_def)
qed

end
