(* ===== verification/WeightCode.thy ===== *)
theory WeightCode
  imports WeightBits "HOL-Library.Log_Nat"
begin

unbundle bit_operations_syntax

text \<open>
  The coding of quantized weights: the namespace \<open>IDSTEncoder\<close> (\<open>source/core/IDSTEncoder.hpp\<close>), which writes the
  field \<open>buffer\<close> of an \<open>IDSTQuan\<close> table, and \<open>IDSTDecoder\<close> with \<open>ConvolutionCommon::load\<close>
  (\<open>source/core/ConvolutionCommon.cpp\<close>), which reads it. Files are lists of bytes in little endian order; a reader
  consumes a prefix, and reading behind the end is undefined. The rounded quotients of weights and scales, which the code
  computes in floating point, are given (\<open>Weights\<close>); \<open>ceil(log2(n))\<close> is exact for the counts that occur. A value
  of type \<open>int8_t\<close> is its byte where it is stored and an \<open>int\<close> where it is compared. Memory is
  available, the product of the extents in a file fits \<open>size_t\<close>, and an absent vector of a table is the empty one.
\<close>

section \<open>Writing\<close>

definition le_bytes :: "nat \<Rightarrow> int \<Rightarrow> byte list" where
  "le_bytes n v = map (\<lambda>i. word_of_int (v div 256 ^ i)) [0..<n]"

definition WriteBlobDim :: "int list \<Rightarrow> byte list \<times> bool" where
  "WriteBlobDim dims = (
     let useInt32 = (\<exists>d \<in> set dims. d > 2 ^ 16 - 1)
     in (word_of_nat (length dims) # concat (map (le_bytes (if useInt32 then 4 else 2)) dims), useInt32))"

text \<open>For each channel, whether its scale is above \<open>1e-6\<close> and the rounded quotient of zero; for each weight,
  the rounded quotient. In the asymmetric case the channel's minimum is taken off before dividing.\<close>

record Weights =
  w_live :: "bool list"
  w_zero :: "int list"
  w_round :: "int list"

definition at_index :: "'a list \<Rightarrow> nat \<Rightarrow> 'a option" where
  "at_index xs i = (if i < length xs then Some (xs ! i) else None)"

definition weight_offset :: "nat \<Rightarrow> int option" where
  \<comment> \<open>\<open>1 << (bits - 1)\<close>\<close>
  "weight_offset bits = (if 1 \<le> bits \<and> bits \<le> 31 then Some (2 ^ (bits - 1)) else None)"

definition weight_value :: "Weights \<Rightarrow> nat \<Rightarrow> bool \<Rightarrow> int \<Rightarrow> nat \<Rightarrow> int option" where
  \<comment> \<open>\<open>value\<close> of the weight \<open>i\<close>, not clamped\<close>
  "weight_value w area asymmetricQuantFlag offset i = do {
     live \<leftarrow> at_index (w_live w) (i div area);
     q \<leftarrow> at_index (w_round w) i;
     Some (if asymmetricQuantFlag then (if live then q - offset else - offset) else (if live then q else 0)) }"

definition zero_value :: "Weights \<Rightarrow> nat \<Rightarrow> bool \<Rightarrow> int \<Rightarrow> nat \<Rightarrow> int option" where
  \<comment> \<open>\<open>zeroQuant\<close> for the weight \<open>i\<close>\<close>
  "zero_value w area asymmetricQuantFlag offset i =
     (if asymmetricQuantFlag
      then do {
        live \<leftarrow> at_index (w_live w) (i div area);
        z \<leftarrow> at_index (w_zero w) (i div area);
        Some (if live then z - offset else - offset) }
      else Some 0)"

definition clamp_value :: "int \<Rightarrow> int \<Rightarrow> int" where
  "clamp_value offset v = max (min v (offset - 1)) (- offset)"

definition GetWeightSet :: "int \<Rightarrow> int list" where
  \<comment> \<open>in the order of \<open>std::set\<close>\<close>
  "GetWeightSet offset = [- offset .. offset - 1]"

definition needed_bits :: "nat \<Rightarrow> nat" where
  \<comment> \<open>\<open>ceil(log2(n))\<close>, at least 1\<close>
  "needed_bits n = max 1 (floorlog 2 (n - 1))"

definition int_size :: "nat \<Rightarrow> nat \<Rightarrow> nat option" where
  \<comment> \<open>\<open>area * channel\<close>, which overflows an \<open>int\<close> when it is too large\<close>
  "int_size area channel = (if area * channel < 2 ^ 31 then Some (area * channel) else None)"

definition WriteCQBlobs :: "Weights \<Rightarrow> nat \<Rightarrow> nat \<Rightarrow> bool \<Rightarrow> bool \<Rightarrow> nat \<Rightarrow> (byte list \<times> bool) option" where
  "WriteCQBlobs w area channel asymmetricQuantFlag shapeUseInt32 bits = do {
     offset \<leftarrow> weight_offset bits;
     let setWeight = GetWeightSet offset;
     let iCount = length setWeight;
     let iNeedBits = needed_bits iCount;
     if iNeedBits > 8 then Some ([], shapeUseInt32)
     else do {
       weightSize \<leftarrow> int_size area channel;
       arr \<leftarrow> those (map (\<lambda>i. do {
           v \<leftarrow> weight_value w area asymmetricQuantFlag offset i;
           Some (word_of_int (clamp_value offset v + offset)) }) [0..<weightSize]);
       buf \<leftarrow> FillBuffer (UP_DIV (iNeedBits * area * channel) 8) arr iNeedBits;
       let (dims, shapeUseInt32) = WriteBlobDim [int channel, int area];
       Some (dims @ [word_of_nat iCount] @ map word_of_int setWeight @ buf, shapeUseInt32) } }"

subsection \<open>Sparse\<close>

text \<open>Only the values that are not the channel's zero are written, each with its distance from the one before. Where the
  distance would not fit its bits, a zero is written in between.\<close>

definition count_step :: "Weights \<Rightarrow> nat \<Rightarrow> bool \<Rightarrow> int \<Rightarrow> int \<Rightarrow> nat \<Rightarrow> nat \<times> nat \<Rightarrow> (nat \<times> nat) option" where
  \<comment> \<open>\<open>nnz\<close> and \<open>iPreIdx\<close> after the weight \<open>i\<close>\<close>
  "count_step w area asymmetricQuantFlag offset iMaxStep i s = (case s of (nnz, iPreIdx) \<Rightarrow> do {
     zeroQuant \<leftarrow> zero_value w area asymmetricQuantFlag offset i;
     v \<leftarrow> weight_value w area asymmetricQuantFlag offset i;
     let (nnz, iPreIdx) = (if v \<noteq> zeroQuant then (nnz + 1, i) else (nnz, iPreIdx));
     Some (if int i - int iPreIdx \<ge> iMaxStep \<and> iMaxStep \<noteq> - 1 then (nnz + 1, i) else (nnz, iPreIdx)) })"

definition GetSparsity :: "Weights \<Rightarrow> nat \<Rightarrow> nat \<Rightarrow> bool \<Rightarrow> nat \<Rightarrow> int \<Rightarrow> nat option" where
  \<comment> \<open>\<open>nnz\<close>; the fraction it returns is not used\<close>
  "GetSparsity w area weightSize asymmetricQuantFlag bits iMaxStep = do {
     offset \<leftarrow> weight_offset bits;
     (nnz, _) \<leftarrow> foldM (count_step w area asymmetricQuantFlag offset iMaxStep) [0..<weightSize] (0, 0);
     Some nnz }"

definition GetBestMaxStep :: "Weights \<Rightarrow> nat \<Rightarrow> nat \<Rightarrow> bool \<Rightarrow> nat \<Rightarrow> (nat option \<times> nat) option" where
  \<comment> \<open>\<open>iMaxStepBits\<close>, which stays uninitialised when nothing is small enough, and \<open>best_nnz\<close>\<close>
  "GetBestMaxStep w area weightSize asymmetricQuantFlag BlobDataSize = do {
     (iMaxStepBits, best_nnz, _) \<leftarrow> foldM (\<lambda>i (iMaxStepBits, best_nnz, szBestSize). do {
         nnz \<leftarrow> GetSparsity w area weightSize asymmetricQuantFlag BlobDataSize (2 ^ i - 1);
         let tmp = UP_DIV (nnz * i) 8 + UP_DIV (nnz * BlobDataSize) 8;
         Some (if tmp < szBestSize then (Some i, nnz, tmp) else (iMaxStepBits, best_nnz, szBestSize)) })
       [2..<9] (None, 0, 1000000000);
     Some (iMaxStepBits, best_nnz) }"

definition map_weight :: "int \<Rightarrow> int \<Rightarrow> byte" where
  \<comment> \<open>\<open>mapWeight[value]\<close>: the rank in the set; a value that is not in the set is entered with 0\<close>
  "map_weight offset v = (if - offset \<le> v \<and> v \<le> offset - 1 then word_of_int (v + offset) else 0)"

definition sparse_step ::
  "Weights \<Rightarrow> nat \<Rightarrow> bool \<Rightarrow> int \<Rightarrow> int \<Rightarrow> nat \<Rightarrow> (byte \<times> byte) list \<times> nat \<Rightarrow> ((byte \<times> byte) list \<times> nat) option" where
  \<comment> \<open>the pairs are the entries of \<open>arr_idx\<close> and \<open>data_arr\<close>\<close>
  "sparse_step w area asymmetricQuantFlag offset iMaxStep i s = (case s of (entries, iPreIdx) \<Rightarrow> do {
     zeroQuant \<leftarrow> zero_value w area asymmetricQuantFlag offset i;
     v \<leftarrow> weight_value w area asymmetricQuantFlag offset i;
     let (entries, iPreIdx) = (if v \<noteq> zeroQuant
       then (entries @ [(word_of_int (int i - int iPreIdx), map_weight offset v)], i) else (entries, iPreIdx));
     Some (if int i - int iPreIdx \<ge> iMaxStep
       then (entries @ [(word_of_int (int i - int iPreIdx), map_weight offset zeroQuant)], i) else (entries, iPreIdx)) })"

definition WriteSparseQuanBlobs ::
  "Weights \<Rightarrow> nat \<Rightarrow> nat \<Rightarrow> bool \<Rightarrow> bool \<Rightarrow> nat \<Rightarrow> (bool \<times> byte list \<times> bool) option" where
  \<comment> \<open>whether it succeeded, the bytes, and \<open>shapeUseInt32\<close>\<close>
  "WriteSparseQuanBlobs w area channel asymmetricQuantFlag shapeUseInt32 bits = do {
     offset \<leftarrow> weight_offset bits;
     let setWeight = GetWeightSet offset;
     let iDataNeedBits = needed_bits (length setWeight);
     weightSize \<leftarrow> int_size area channel;
     (iMaxStepBits, nnz) \<leftarrow> GetBestMaxStep w area weightSize asymmetricQuantFlag iDataNeedBits;
     if nnz \<le> 0 then Some (False, [], shapeUseInt32)
     else do {
       iNeedBits \<leftarrow> iMaxStepBits;
       (entries, _) \<leftarrow> foldM (sparse_step w area asymmetricQuantFlag offset (2 ^ iNeedBits - 1)) [0..<weightSize] ([], 0);
       if length entries \<noteq> nnz then None
       else do {
         buf \<leftarrow> FillBuffer (UP_DIV (iNeedBits * nnz) 8) (map fst entries) iNeedBits;
         data_buf \<leftarrow> FillBuffer (UP_DIV (iDataNeedBits * nnz) 8) (map snd entries) iDataNeedBits;
         let (dims, shapeUseInt32) = WriteBlobDim [int channel, int area];
         Some (True, dims @ le_bytes 4 (int nnz) @ [word_of_nat iNeedBits] @ buf @
           [word_of_nat (length setWeight)] @ map word_of_int setWeight @ data_buf, shapeUseInt32) } } }"

subsection \<open>The table\<close>

text \<open>The fields of \<open>IDSTQuan\<close> the code uses; \<open>'f\<close> stands for \<open>float\<close>.\<close>

record 'f IDSTQuan =
  q_buffer :: "byte list"
  q_alpha :: "'f list"
  q_type :: int
  q_quantScale :: 'f
  q_aMaxOrBits :: int
  q_aMin :: int
  q_readType :: int
  q_has_scaleInt :: bool
  q_shapeInt32 :: bool
  q_weightSize :: nat
  q_index :: "nat list option"

definition encode ::
  "'f \<Rightarrow> 'f \<Rightarrow> Weights option \<Rightarrow> 'f list \<Rightarrow> nat \<Rightarrow> nat \<Rightarrow> bool \<Rightarrow> byte list option \<Rightarrow> int \<Rightarrow> nat \<Rightarrow> bool \<Rightarrow> 'f IDSTQuan option" where
  \<comment> \<open>the first arguments are \<open>0.f\<close>, the default of \<open>quantScale\<close>, and \<open>1.f\<close>\<close>
  "encode zero one weight scale kernelSize kernelNum asymmetricQuantFlag quantWeightPtr clampMin bits detectSparse = (
     let alpha_size = (if asymmetricQuantFlag then length scale div 2 else length scale);
         idst = \<lparr>q_buffer = [], q_alpha = [], q_type = 0, q_quantScale = zero, q_aMaxOrBits = int bits, q_aMin = 0,
           q_readType = 0, q_has_scaleInt = False, q_shapeInt32 = False, q_weightSize = 0, q_index = None\<rparr>
     in if alpha_size > kernelNum \<and> kernelNum = 0 then None
     else do {
       (idst, shapeUseInt32) \<leftarrow> (case (quantWeightPtr, weight) of
           (Some q, None) \<Rightarrow>
             (if kernelNum * kernelSize \<le> length q
              then Some (idst\<lparr>q_type := 4, q_buffer := take (kernelNum * kernelSize) q\<rparr>, False)
              else None)
         | (_, None) \<Rightarrow> None
         | (_, Some w) \<Rightarrow> do {
             (cqStr, shapeUseInt32) \<leftarrow> WriteCQBlobs w kernelSize kernelNum asymmetricQuantFlag False bits;
             if detectSparse then do {
               (sparseValid, sqStr, shapeUseInt32) \<leftarrow>
                 WriteSparseQuanBlobs w kernelSize kernelNum asymmetricQuantFlag shapeUseInt32 bits;
               Some (if length cqStr \<le> length sqStr \<or> \<not> sparseValid
                     then idst\<lparr>q_type := 1, q_buffer := cqStr\<rparr> else idst\<lparr>q_type := 2, q_buffer := sqStr\<rparr>, shapeUseInt32) }
             else Some (idst\<lparr>q_type := 1, q_buffer := cqStr\<rparr>, shapeUseInt32) });
       let idst = idst\<lparr>q_shapeInt32 := shapeUseInt32, q_alpha := scale, q_quantScale := one\<rparr>;
       Some (if asymmetricQuantFlag then idst\<lparr>q_readType := int kernelNum, q_aMin := clampMin\<rparr> else idst) })"

section \<open>Reading\<close>

definition read_bytes :: "nat \<Rightarrow> byte list \<Rightarrow> (byte list \<times> byte list) option" where
  \<comment> \<open>\<open>MemoryLoader::read\<close>\<close>
  "read_bytes n s = (if n \<le> length s then Some (take n s, drop n s) else None)"

definition of_le :: "byte list \<Rightarrow> nat" where
  "of_le bs = foldr (\<lambda>b v. unat b + 256 * v) bs 0"

definition ReadBlobDim :: "byte list \<Rightarrow> nat \<Rightarrow> bool \<Rightarrow> (nat list \<times> byte list) option" where
  "ReadBlobDim s shapeBufCnt useInt32 = do {
     (u, s) \<leftarrow> read_bytes 1 s;
     let uSize = unat (hd u);
     if uSize > 4 then Some ([], s)
     else do {
       let copyLength = min uSize shapeBufCnt;
       let k = (if useInt32 then 4 else 2);
       (bs, s) \<leftarrow> read_bytes (k * copyLength) s;
       Some (map (\<lambda>i. of_le (take k (drop (k * i) bs))) [0..<copyLength], s) } }"

definition atLestBitsCnt :: "32 word \<Rightarrow> nat" where
  "atLestBitsCnt n =
     (case List.find (\<lambda>i. sint (push_bit i n) < 0) [0..<32] of
        None \<Rightarrow> 0
      | Some i \<Rightarrow> 32 - i - (if push_bit 1 (push_bit i n) = 0 then 1 else 0))"

definition rank_swap :: "bool \<Rightarrow> nat \<Rightarrow> nat \<Rightarrow> int list \<Rightarrow> int list" where
  "rank_swap up i j data =
     (if (if up then data ! i > data ! j else data ! i < data ! j) then data[i := data ! j, j := data ! i] else data)"

definition SimpleRank :: "int list \<Rightarrow> bool \<Rightarrow> int list" where
  "SimpleRank data up = fold (\<lambda>i. fold (\<lambda>j. rank_swap up i j) [i + 1..<length data]) [0..<length data] data"

definition isLinearSample :: "int list \<Rightarrow> nat \<Rightarrow> bool" where
  "isLinearSample sample bits \<longleftrightarrow> length sample = 2 ^ bits \<and> (\<forall>i \<in> set [0..<length sample]. sample ! i = int i - 2 ^ (bits - 1))"

definition read_samples :: "byte list \<Rightarrow> (int list \<times> byte list) option" where
  \<comment> \<open>\<open>sampleCnt\<close> and \<open>samples\<close>\<close>
  "read_samples s = do {
     (c, s) \<leftarrow> read_bytes 1 s;
     (bs, s) \<leftarrow> read_bytes (if unat (hd c) = 0 then 256 else unat (hd c)) s;
     Some (map sint bs, s) }"

record 'f Int8Common =
  ic_weight :: "byte list option"
  ic_alpha :: "'f list"
  ic_weightFloat :: "'f list option"
  ic_asymmetric :: bool
  ic_weightMap :: "int list"
  ic_canUseInt4 :: bool
  ic_originBits :: nat

definition overwrite :: "byte list \<Rightarrow> byte list \<Rightarrow> byte list option" where
  \<comment> \<open>write at the start of a piece of memory\<close>
  "overwrite mem bs = (if length bs \<le> length mem then Some (bs @ drop (length bs) mem) else None)"

definition settable_output :: "'f IDSTQuan \<Rightarrow> bool \<Rightarrow> bool \<Rightarrow> byte list option \<Rightarrow> byte list option" where
  \<comment> \<open>the memory behind \<open>outputPtr\<close> when \<open>canSetOutputPtr\<close>\<close>
  "settable_output quan forceQuant forceFloat outputPtr =
     (if \<not> forceQuant \<and> (forceFloat \<or> \<not> q_has_scaleInt quan) then None else outputPtr)"

definition zero_blob :: "nat \<Rightarrow> byte list" where
  "zero_blob dataCnt = replicate (UP_DIV dataCnt 2 * 2) 0"

definition read_linear48 ::
  "byte list \<Rightarrow> nat \<Rightarrow> nat \<Rightarrow> 'f Int8Common \<Rightarrow> bool \<Rightarrow> byte list option \<Rightarrow> (byte list option \<times> nat \<times> 'f Int8Common) option" where
  \<comment> \<open>linear samples of 4 or 8 bits\<close>
  "read_linear48 idxBuf idxBitsCnt dataCnt result forceQuant out =
     (if \<not> forceQuant \<and> idxBitsCnt = 4
      then do {
        blob \<leftarrow> overwrite (case out of Some mem \<Rightarrow> mem | None \<Rightarrow> zero_blob dataCnt)
          (concat (map (\<lambda>val. [val div 16 - 8, val mod 16 - 8]) idxBuf));
        Some (Some blob, dataCnt, result) }
      else do {
        let (bytes, result) = (if idxBitsCnt = 4 then (idxBuf, result\<lparr>ic_canUseInt4 := True\<rparr>) else (map (\<lambda>b. b - 128) idxBuf, result));
        blob \<leftarrow> (case out of Some mem \<Rightarrow> overwrite mem bytes | None \<Rightarrow> Some bytes);
        Some (Some blob, length idxBuf, result) })"

definition read_indexed ::
  "byte list \<Rightarrow> nat \<Rightarrow> nat \<Rightarrow> bool \<Rightarrow> 'f Int8Common \<Rightarrow> bool \<Rightarrow> byte list option \<Rightarrow> nat \<Rightarrow> (byte list option \<times> nat \<times> 'f Int8Common) option" where
  \<comment> \<open>samples of another number of bits, or any samples that are not linear\<close>
  "read_indexed idxBuf idxBitsCnt dataCnt isLinear result forceQuant out len = do {
     let isBlobOutput = (\<not> (ic_originBits result \<le> 4 \<and> forceQuant));
     let blob0 = (case out of Some mem \<Rightarrow> if isBlobOutput then mem else zero_blob dataCnt | None \<Rightarrow> zero_blob dataCnt);
     idxBytes \<leftarrow> SplitBufToArray idxBuf dataCnt idxBitsCnt;
     let good = (if isLinear then idxBytes else takeWhile (\<lambda>b. unat b < length (ic_weightMap result)) idxBytes);
     let success = (length good = length idxBytes);
     blob \<leftarrow> overwrite blob0
       (map (\<lambda>b. if isLinear then b - push_bit (idxBitsCnt - 1) 1 else word_of_int (ic_weightMap result ! unat b)) good);
     if \<not> success \<and> \<not> (isBlobOutput \<and> out \<noteq> None) then Some (None, len, result)
     else if ic_originBits result \<le> 4 \<and> forceQuant then do {
       let sizeDiv2 = UP_DIV dataCnt 2;
       let newBytes = map (\<lambda>i. push_bit 4 (blob ! (2 * i) + 8) + (blob ! (2 * i + 1) + 8)) [0..<sizeDiv2];
       newBlob \<leftarrow> (case out of Some mem \<Rightarrow> overwrite mem newBytes | None \<Rightarrow> Some newBytes);
       Some (Some newBlob, dataCnt, result\<lparr>ic_canUseInt4 := True\<rparr>) }
     else Some (Some blob, dataCnt, result) }"

definition ReadQuanData_c ::
  "byte list \<Rightarrow> nat \<Rightarrow> 'f Int8Common \<Rightarrow> 'f IDSTQuan \<Rightarrow> bool \<Rightarrow> bool \<Rightarrow> byte list option \<Rightarrow> (byte list option \<times> nat \<times> 'f Int8Common) option" where
  \<comment> \<open>the blob, or a null pointer; \<open>*len\<close>; \<open>result\<close>\<close>
  "ReadQuanData_c s len result quan forceQuant forceFloat outputPtr = do {
     (shape, s) \<leftarrow> ReadBlobDim s 32 (q_shapeInt32 quan);
     if shape = [] then Some (None, len, result)
     else do {
       let dataCnt = prod_list shape;
       (samples, s) \<leftarrow> read_samples s;
       let result = result\<lparr>ic_weightMap := SimpleRank samples True\<rparr>;
       let idxBitsCnt = max 1 (atLestBitsCnt (word_of_nat (length samples)));
       let isLinear = isLinearSample (ic_weightMap result) idxBitsCnt;
       let out = settable_output quan forceQuant forceFloat outputPtr;
       (idxBuf, s) \<leftarrow> read_bytes (UP_DIV (idxBitsCnt * dataCnt) 8) s;
       let result = (if isLinear then result\<lparr>ic_originBits := idxBitsCnt\<rparr> else result);
       if isLinear \<and> (idxBitsCnt = 4 \<or> idxBitsCnt = 8) then read_linear48 idxBuf idxBitsCnt dataCnt result forceQuant out
       else read_indexed idxBuf idxBitsCnt dataCnt isLinear result forceQuant out len } }"

definition AcquireQuantBit :: "byte list \<Rightarrow> bool \<Rightarrow> nat option" where
  "AcquireQuantBit s shapeInt32 = do {
     (shape, s) \<leftarrow> ReadBlobDim s 32 shapeInt32;
     if shape = [] then Some 0
     else do {
       (samples, s) \<leftarrow> read_samples s;
       let weightMap = SimpleRank samples True;
       let idxBitsCnt = max 1 (atLestBitsCnt (word_of_nat (length samples)));
       Some (if isLinearSample weightMap idxBitsCnt \<and> (idxBitsCnt = 4 \<or> idxBitsCnt = 8) then idxBitsCnt else 0) } }"

subsection \<open>Sparse\<close>

text \<open>The sets and maps of 256 entries the decoder builds itself.\<close>

definition InsertSimpleSet :: "int \<Rightarrow> int list \<Rightarrow> int list" where
  "InsertSimpleSet v UniSet = (if length UniSet \<ge> 256 then UniSet else if v \<in> set UniSet then UniSet else UniSet @ [v])"

fun update_key :: "byte \<Rightarrow> int \<Rightarrow> (byte \<times> int) list \<Rightarrow> (byte \<times> int) list option" where
  \<comment> \<open>overwrite the first entry with the key, if there is one\<close>
  "update_key k v [] = None"
| "update_key k v ((k', v') # m) = (if k' = k then Some ((k', v) # m) else map_option ((#) (k', v')) (update_key k v m))"

definition InsertMap :: "byte \<Rightarrow> int \<Rightarrow> (byte \<times> int) list \<Rightarrow> (byte \<times> int) list" where
  "InsertMap k v m = (case update_key k v m of Some m' \<Rightarrow> m' | None \<Rightarrow> if length m \<ge> 256 then m else m @ [(k, v)])"

definition FindInMap :: "(byte \<times> int) list \<Rightarrow> byte \<Rightarrow> int option" where
  \<comment> \<open>\<open>None\<close> when not found, where the code returns 0\<close>
  "FindInMap m k = map_of m k"

text \<open>The arithmetic on \<open>float\<close> the decoder uses.\<close>

record 'f FloatOps =
  f_zero_of :: "'f \<Rightarrow> 'f \<Rightarrow> int option"
    \<comment> \<open>\<open>round((0.0f - min) / scale)\<close>, when the scale is above \<open>1e-6\<close>\<close>
  f_int :: "int \<Rightarrow> 'f"
  f_add :: "'f \<Rightarrow> 'f \<Rightarrow> 'f"
  f_sub :: "'f \<Rightarrow> 'f \<Rightarrow> 'f"
  f_mul :: "'f \<Rightarrow> 'f \<Rightarrow> 'f"
  f_tiny :: "'f \<Rightarrow> bool"
    \<comment> \<open>\<open>std::abs(x) < 1e-6\<close>\<close>
  f_half :: "byte \<Rightarrow> byte \<Rightarrow> 'f"
    \<comment> \<open>from the two bytes of a \<open>half\<close>\<close>

definition sparse_base :: "'f FloatOps \<Rightarrow> 'f list \<Rightarrow> nat list \<Rightarrow> nat \<Rightarrow> nat \<Rightarrow> byte list option" where
  \<comment> \<open>the blob before the weights that are not zero\<close>
  "sparse_base F alpha shape Size iDataNeedBits = (
     if shape = [] then None
     else if length alpha = 2 * hd shape mod 2 ^ 32 then (
       if hd shape = 0 then None
       else Some (concat (map (\<lambda>i. replicate (Size div hd shape)
         (word_of_int (case f_zero_of F (alpha ! (2 * i)) (alpha ! (2 * i + 1)) of
            Some z \<Rightarrow> z - 2 ^ (iDataNeedBits - 1) | None \<Rightarrow> - (2 ^ (iDataNeedBits - 1))))) [0..<hd shape])))
     else Some (replicate Size 0))"

definition sparse_write :: "(byte \<times> int) list \<Rightarrow> bool \<Rightarrow> byte \<times> byte \<Rightarrow> byte list \<times> nat \<Rightarrow> (byte list \<times> nat) option option" where
  \<comment> \<open>one weight; an index that is not found ends the loop, unless there is an output, which gets 0\<close>
  "sparse_write mapWeight noOutput e s = (case (e, s) of ((step, idx), (blob, iPreIdx)) \<Rightarrow> do {
     let iPreIdx = iPreIdx + unat step;
     let found = FindInMap mapWeight idx;
     if found = None \<and> noOutput then ret_false
     else if iPreIdx < length blob
     then ret (blob[iPreIdx := word_of_int (case found of Some v \<Rightarrow> v | None \<Rightarrow> 0)], iPreIdx)
     else None })"

definition ReadSparseQuanData_c ::
  "'f FloatOps \<Rightarrow> byte list \<Rightarrow> nat \<Rightarrow> 'f list \<Rightarrow> 'f Int8Common \<Rightarrow> 'f IDSTQuan \<Rightarrow> bool \<Rightarrow> bool \<Rightarrow> byte list option \<Rightarrow>
   (byte list option \<times> nat \<times> 'f Int8Common) option" where
  "ReadSparseQuanData_c F s len alpha result quan forceQuant forceFloat outputPtr = do {
     (shape, s) \<leftarrow> ReadBlobDim s 32 (q_shapeInt32 quan);
     let Size = prod_list shape;
     let out = settable_output quan forceQuant forceFloat outputPtr;
     (nnzBytes, s) \<leftarrow> read_bytes 4 s;
     let nnz = of_le nnzBytes;
     (b, s) \<leftarrow> read_bytes 1 s;
     let iIdxNeedBits = unat (hd b);
     (buf, s) \<leftarrow> read_bytes (UP_DIV (iIdxNeedBits * nnz) 8) s;
     arrIdx \<leftarrow> SplitBufToArray buf nnz iIdxNeedBits;
     (samples, s) \<leftarrow> read_samples s;
     let result = result\<lparr>ic_weightMap := samples\<rparr>;
     let UniSet = SimpleRank (fold InsertSimpleSet samples []) True;
     let mapWeight = fold (\<lambda>i. InsertMap (word_of_nat i) (UniSet ! i)) [0..<length UniSet] [];
     let iDataNeedBits = needed_bits (length samples);
     (buf, s) \<leftarrow> read_bytes (UP_DIV (iDataNeedBits * nnz) 8) s;
     arrWeightIdx \<leftarrow> SplitBufToArray buf nnz iDataNeedBits;
     base \<leftarrow> sparse_base F alpha shape Size iDataNeedBits;
     blob \<leftarrow> (case out of Some mem \<Rightarrow> overwrite mem base | None \<Rightarrow> Some base);
     r \<leftarrow> foldC (sparse_write mapWeight (outputPtr = None)) (zip arrIdx arrWeightIdx) (blob, 0);
     case r of
       None \<Rightarrow> Some (None, len, result)
     | Some (blob, _) \<Rightarrow> Some (Some blob, Size, result) }"

section \<open>Loading\<close>

definition clamp_min :: "'f IDSTQuan \<Rightarrow> int" where
  "clamp_min quan = (if q_aMin quan = 0 then - 128 else q_aMin quan)"

definition shift_alpha :: "'f FloatOps \<Rightarrow> int \<Rightarrow> 'f list \<Rightarrow> 'f list" where
  \<comment> \<open>fold the least quantized value into the minimum of every channel\<close>
  "shift_alpha F clampMin alpha =
     (if clampMin < 0
      then fold (\<lambda>o1 alpha. alpha[2 * o1 := f_sub F (alpha ! (2 * o1)) (f_mul F (f_int F clampMin) (alpha ! (2 * o1 + 1)))])
        [0..<length alpha div 2] alpha
      else alpha)"

definition to_float :: "'f FloatOps \<Rightarrow> 'f Int8Common \<Rightarrow> byte list \<Rightarrow> nat \<Rightarrow> 'f list option" where
  \<comment> \<open>the weights as \<open>float\<close>; a remainder of \<open>weightLength / outputCount\<close> is not written. The length is an \<open>int\<close>\<close>
  "to_float F result weight weightLength = (
     let outputCount = (if ic_asymmetric result then length (ic_alpha result) div 2 else length (ic_alpha result))
     in if outputCount = 0 \<or> weightLength \<ge> 2 ^ 31 then None
        else let partWeightSize = weightLength div outputCount
        in those (concat (map (\<lambda>o1. map (\<lambda>v. do {
            srcW \<leftarrow> at_index weight (o1 * partWeightSize + v);
            Some (if ic_asymmetric result
              then f_add F (f_mul F (f_int F (sint srcW)) (ic_alpha result ! (2 * o1 + 1))) (ic_alpha result ! (2 * o1))
              else f_add F (f_mul F (f_int F (sint srcW)) (ic_alpha result ! o1)) (f_int F 0)) })
          [0..<partWeightSize]) [0..<outputCount])))"

definition load :: "'f FloatOps \<Rightarrow> 'f IDSTQuan \<Rightarrow> bool \<Rightarrow> bool \<Rightarrow> 'f Int8Common option option" where
  \<comment> \<open>for a buffer in the model, without destination memory; \<open>Some None\<close> is a null pointer\<close>
  "load F quan forceFloat forceInt8 = (
     let result = \<lparr>ic_weight = None, ic_alpha = q_alpha quan, ic_weightFloat = None, ic_asymmetric = False,
           ic_weightMap = [], ic_canUseInt4 = False, ic_originBits = 8\<rparr>
     in case q_index quan of
       Some index \<Rightarrow>
         if forceFloat then (
           if length (q_alpha quan) \<noteq> length index then Some None
           else if \<exists>i \<in> set index. i \<ge> q_weightSize quan then None
           else Some (Some (result\<lparr>ic_weightFloat :=
             Some (fold (\<lambda>(i, a) w. w[i := a]) (zip index (q_alpha quan)) (replicate (q_weightSize quan) (f_int F 0)))\<rparr>)))
         else Some (Some result)
     | None \<Rightarrow> do {
         (buffer, weightLength, result) \<leftarrow> (if q_type quan = 1
           then ReadQuanData_c (q_buffer quan) 0 result quan forceInt8 forceFloat None else Some (None, 0, result));
         (buffer, weightLength, result) \<leftarrow> (if q_type quan = 2
           then ReadSparseQuanData_c F (q_buffer quan) weightLength (q_alpha quan) result quan forceInt8 forceFloat None
           else Some (buffer, weightLength, result));
         if q_type quan = 3 then Some (Some (result\<lparr>ic_weightFloat := Some (map (\<lambda>i. f_half F (q_buffer quan ! (2 * i)) (q_buffer quan ! (2 * i + 1)))
           [0..<length (q_buffer quan) div 2])\<rparr>))
         else do {
           let (buffer, weightLength) = (if q_type quan = 4 then (Some (q_buffer quan), length (q_buffer quan)) else (buffer, weightLength));
           let oldType4 = (q_type quan = 4 \<and> q_aMin quan = 0 \<and> f_tiny F (q_quantScale quan));
           let result = result\<lparr>ic_asymmetric := q_readType quan \<noteq> 0 \<or> oldType4\<rparr>;
           case buffer of
             None \<Rightarrow> Some None
           | Some weight \<Rightarrow> do {
               let result = result\<lparr>ic_weight := Some weight\<rparr>;
               let result = (if ic_asymmetric result then result\<lparr>ic_alpha := shift_alpha F (clamp_min quan) (ic_alpha result)\<rparr> else result);
               let result = (if \<not> q_has_scaleInt quan \<and> \<not> oldType4 \<and> q_quantScale quan \<noteq> f_int F 1
                 then result\<lparr>ic_alpha := map (\<lambda>a. f_mul F a (q_quantScale quan)) (ic_alpha result)\<rparr> else result);
               if forceInt8 then Some (Some result)
               else if \<not> q_has_scaleInt quan \<or> forceFloat then do {
                 w \<leftarrow> to_float F result weight weightLength;
                 Some (Some (result\<lparr>ic_weightFloat := Some w, ic_weight := None, ic_alpha := []\<rparr>)) }
               else Some (Some result) } } } )"

end
