(* ===== verification/WeightFacts.thy ===== *)
theory WeightFacts
  imports WeightCode "HOL-Library.Multiset"
begin

unbundle bit_operations_syntax

text \<open>
  The decoder reads what the encoder wrote: byte order, sample lists, dense and packed blobs.
\<close>

section \<open>Ranking is sorting\<close>

lemma rank_swap_facts:
  assumes "i < length d" "j < length d" "i < j"
  shows "length (rank_swap True i j d) = length d" "mset (rank_swap True i j d) = mset d"
    "take i (rank_swap True i j d) = take i d"
    "rank_swap True i j d ! i = min (d ! i) (d ! j)"
    "k < length d \<Longrightarrow> k \<noteq> i \<Longrightarrow> k \<noteq> j \<Longrightarrow> rank_swap True i j d ! k = d ! k"
    "rank_swap True i j d ! j = max (d ! i) (d ! j)"
  using assms by (auto simp: rank_swap_def mset_swap nth_list_update)

lemma rank_inner:
  assumes "i < length d" "k \<le> length d"
  shows "length (fold (rank_swap True i) [i + 1..<k] d) = length d \<and> mset (fold (rank_swap True i) [i + 1..<k] d) = mset d \<and>
    take i (fold (rank_swap True i) [i + 1..<k] d) = take i d \<and>
    (\<forall>j. i \<le> j \<and> j < max k (i + 1) \<longrightarrow> fold (rank_swap True i) [i + 1..<k] d ! i \<le> fold (rank_swap True i) [i + 1..<k] d ! j)"
  using assms(2)
proof (induction k)
  case (Suc k)
  show ?case
  proof (cases "i + 1 \<le> k")
    case True
    let ?d = "fold (rank_swap True i) [i + 1..<k] d"
    have IH: "length ?d = length d" "mset ?d = mset d" "take i ?d = take i d" "\<And>j. i \<le> j \<Longrightarrow> j < k \<Longrightarrow> ?d ! i \<le> ?d ! j"
      using Suc True by auto
    have lt: "i < length ?d" "k < length ?d" "i < k" using IH(1) assms(1) Suc.prems True by auto
    note f = rank_swap_facts [OF lt]
    have e: "fold (rank_swap True i) [i + 1..<Suc k] d = rank_swap True i k ?d" using True by simp
    have "rank_swap True i k ?d ! i \<le> rank_swap True i k ?d ! j" if j: "i \<le> j" "j < Suc k" for j
    proof -
      consider "j = i" | "j = k" | "j \<noteq> i" "j \<noteq> k" by blast
      then show ?thesis
      proof cases
        case 3
        then show ?thesis using f(4) f(5) [of j] IH(4) [of j] j lt(2) by auto
      qed (use f(4,6) in auto)
    qed
    then show ?thesis using IH f e True by auto
  next
    case False
    then show ?thesis using assms(1) by (auto simp: le_less_Suc_eq max_def)
  qed
next
  case 0
  then show ?case using assms(1) by (auto simp: le_less_Suc_eq)
qed

lemma SimpleRank_sort: "SimpleRank xs True = sort xs"
proof -
  let ?F = "\<lambda>i. fold (rank_swap True i) [i + 1..<length xs]"
  have "m \<le> length xs \<Longrightarrow> (let d = fold ?F [0..<m] xs in length d = length xs \<and> mset d = mset xs \<and> sorted (take m d) \<and>
      (\<forall>x \<in> set (take m d). \<forall>y \<in> set (drop m d). x \<le> y))" for m
  proof (induction m)
    case (Suc m)
    let ?d = "fold ?F [0..<m] xs" and ?e = "?F m (fold ?F [0..<m] xs)"
    have IH: "length ?d = length xs" "mset ?d = mset xs" "sorted (take m ?d)" "\<And>x y. x \<in> set (take m ?d) \<Longrightarrow> y \<in> set (drop m ?d) \<Longrightarrow> x \<le> y"
      using Suc by (auto simp: Let_def)
    have m: "m < length ?d" using Suc.prems IH(1) by simp
    have e: "length ?e = length xs" "mset ?e = mset xs" "take m ?e = take m ?d" "\<And>j. m \<le> j \<Longrightarrow> j < length xs \<Longrightarrow> ?e ! m \<le> ?e ! j"
      using rank_inner [OF m, of "length xs"] IH(1,2) by auto
    have "mset (take m ?e) + mset (drop m ?e) = mset (take m ?d) + mset (drop m ?d)"
      unfolding mset_append [symmetric] append_take_drop_id using e(2) IH(2) by simp
    then have "mset (drop m ?e) = mset (drop m ?d)" using e(3) by simp
    then have dr: "set (drop m ?e) = set (drop m ?d)" by (rule mset_eq_setD)
    have t: "take (Suc m) ?e = take m ?d @ [?e ! m]" using m e(1,3) IH(1) by (simp add: take_Suc_conv_app_nth)
    have em: "?e ! m \<in> set (drop m ?e)" using m e(1) IH(1) Cons_nth_drop_Suc [of m ?e, symmetric] by simp
    have "sorted (take (Suc m) ?e)" unfolding t using IH(3,4) em dr by (auto simp: sorted_append)
    moreover have "x \<le> y" if x: "x \<in> set (take (Suc m) ?e)" and y: "y \<in> set (drop (Suc m) ?e)" for x y
    proof -
      have yd: "y \<in> set (drop m ?e)" using y set_drop_subset_set_drop [of m "Suc m" ?e] by auto
      obtain j where "y = ?e ! j" "m \<le> j" "j < length xs" using y e(1) by (auto simp: in_set_conv_nth)
      then show ?thesis using x e(4) IH(4) yd dr unfolding t by auto
    qed
    ultimately show ?case using e(1,2) by (simp add: Let_def)
  qed (simp add: Let_def)
  note all = this [of "length xs", OF order_refl, unfolded Let_def]
  from conjunct1 [OF all] have "take (length xs) (fold ?F [0..<length xs] xs) = fold ?F [0..<length xs] xs" by simp
  with all have "mset (fold ?F [0..<length xs] xs) = mset xs" "sorted (fold ?F [0..<length xs] xs)" by (elim conjE, simp only:)+
  then show ?thesis unfolding SimpleRank_def by (rule properties_for_sort [symmetric])
qed

section \<open>Numbers of bits\<close>

lemma needed_bits_power: "1 \<le> b \<Longrightarrow> needed_bits (2 ^ b) = b"
proof -
  assume b: "1 \<le> b"
  have "(2 :: nat) * 2 ^ (b - 1) = 2 ^ b" using b by (simp add: power_Suc [symmetric])
  moreover have "1 \<le> (2 :: nat) ^ (b - 1)" by simp
  ultimately have "(2 :: nat) ^ (b - 1) \<le> 2 ^ b - 1" by linarith
  then have "b \<le> floorlog 2 (2 ^ b - 1)" by (rule floorlog_geI) simp
  moreover have "floorlog 2 (2 ^ b - 1) \<le> b" by (rule floorlog_leI) simp_all
  ultimately have "floorlog 2 (2 ^ b - 1) = b" by (rule antisym [rotated])
  then show ?thesis using b by (simp add: needed_bits_def)
qed

lemma bit_power_word: "bit (word_of_nat (2 ^ b) :: 32 word) j \<longleftrightarrow> j = b \<and> j < 32"
proof -
  have "word_of_nat (2 ^ b) = (push_bit b 1 :: 32 word)" by (simp add: push_bit_eq_mult)
  then show ?thesis by (auto simp: bit_push_bit_iff bit_1_iff simp del: push_bit_of_1 of_nat_power)
qed

lemma find_upt: "k < n \<Longrightarrow> P k \<Longrightarrow> \<forall>j < k. \<not> P j \<Longrightarrow> List.find P [0..<n] = Some k"
  unfolding find_Some_iff by (intro exI [of _ k]) simp

lemma atLestBitsCnt_power: "b < 32 \<Longrightarrow> atLestBitsCnt (word_of_nat (2 ^ b)) = b"
proof -
  assume b: "b < 32"
  define w :: "32 word" where "w = word_of_nat (2 ^ b)"
  have w: "bit w j \<longleftrightarrow> j = b \<and> j < 32" for j unfolding w_def by (rule bit_power_word)
  have neg: "sint (push_bit i w) < 0 \<longleftrightarrow> i = 31 - b" if "i < 32" for i
    using bit_last_iff [of "push_bit i w"] that b w [of "31 - i"] by (auto simp: bit_push_bit_iff)
  have "List.find (\<lambda>i. sint (push_bit i w) < 0) [0..<32] = Some (31 - b)"
    by (rule find_upt) (use neg b in simp_all)
  moreover have "push_bit 1 (push_bit (31 - b) w) = 0"
  proof (rule bit_eqI)
    fix n
    have "\<not> bit (push_bit 1 (push_bit (31 - b) w)) n"
      unfolding push_bit_push_bit bit_push_bit_iff w using b by auto
    then show "bit (push_bit 1 (push_bit (31 - b) w)) n \<longleftrightarrow> bit 0 n" by simp
  qed
  ultimately have "atLestBitsCnt w = 32 - (31 - b) - 1" unfolding atLestBitsCnt_def by (simp only: option.case simp_thms if_True)
  then show ?thesis using b by (simp add: w_def)
qed

section \<open>Byte order\<close>

lemma of_le_le_bytes: "of_le (le_bytes n v) = nat (v mod 256 ^ n)"
proof (induction n arbitrary: v)
  case 0
  then show ?case by (simp add: of_le_def le_bytes_def)
next
  case (Suc n)
  have step: "le_bytes (Suc n) v = word_of_int v # le_bytes n (v div 256)"
    unfolding le_bytes_def upt_conv_Cons [OF zero_less_Suc] map_Suc_upt [symmetric] by (simp add: zdiv_zmult2_eq comp_def del: upt_Suc map_Suc_upt)
  have "v mod (256 * 256 ^ n) = 256 * (v div 256 mod 256 ^ n) + v mod 256" by (simp add: zmod_zmult2_eq)
  moreover have "unat (word_of_int v :: byte) = nat (v mod 256)" by (simp add: unsigned_of_int take_bit_eq_mod)
  ultimately show ?case unfolding step using Suc.IH [of "v div 256"] by (simp add: of_le_def nat_add_distrib nat_mult_distrib)
qed

lemma le_bytes_length [simp]: "length (le_bytes n v) = n"
  by (simp add: le_bytes_def)

lemma read_bytes_append [simp]: "length bs = n \<Longrightarrow> read_bytes n (bs @ s) = Some (bs, s)"
  by (simp add: read_bytes_def)

lemma read_bytes_Cons [simp]: "read_bytes 1 (b # s) = Some ([b], s)" "read_bytes (Suc 0) (b # s) = Some ([b], s)"
  by (simp_all add: read_bytes_def)

lemma chunks: "\<forall>b \<in> set bss. length b = k \<Longrightarrow> i < length bss \<Longrightarrow> take k (drop (k * i) (concat bss)) = bss ! i"
proof (induction bss arbitrary: i)
  case (Cons b bss)
  then show ?case by (cases i) (simp_all add: drop_append)
qed simp

lemma dims_roundtrip:
  assumes "length ds \<le> 4" "\<forall>d \<in> set ds. 0 \<le> d \<and> d < 2 ^ 32"
  shows "ReadBlobDim (fst (WriteBlobDim ds) @ s) 32 (snd (WriteBlobDim ds)) = Some (map nat ds, s)"
proof -
  let ?use = "\<exists>d \<in> set ds. d > 2 ^ 16 - 1" and ?n = "length ds"
  let ?k = "if ?use then 4 else 2 :: nat"
  let ?bss = "map (le_bytes ?k) ds"
  have W: "WriteBlobDim ds = (word_of_nat ?n # concat ?bss, ?use)" by (simp add: WriteBlobDim_def Let_def)
  have "of_le (take ?k (drop (?k * i) (concat ?bss))) = nat (ds ! i)" if i: "i < ?n" for i
  proof -
    have d: "ds ! i \<in> set ds" using i by simp
    have "take ?k (drop (?k * i) (concat ?bss)) = le_bytes ?k (ds ! i)" using chunks [of ?bss ?k i] i by simp
    moreover have "0 \<le> ds ! i" "ds ! i < 256 ^ ?k" using assms(2) d by (auto simp: not_less)
    ultimately show ?thesis by (simp add: of_le_le_bytes)
  qed
  then have m: "map (\<lambda>i. of_le (take ?k (drop (?k * i) (concat ?bss)))) [0..<?n] = map nat ds" by (intro nth_equalityI) simp_all
  have l: "length (concat ?bss) = ?k * min ?n 32" using assms(1) by (simp add: length_concat comp_def sum_list_triv)
  have u: "unat (hd [word_of_nat ?n :: byte]) = ?n" using assms(1) by (simp add: unsigned_of_nat take_bit_nat_eq_self)
  have mn: "min ?n 32 = ?n" "\<not> ?n > 4" using assms(1) by simp_all
  show ?thesis unfolding W fst_conv snd_conv ReadBlobDim_def append_Cons read_bytes_Cons(1) bind.bind_lunit prod.case Let_def u mn(1)
      read_bytes_append [OF l, unfolded mn(1)] m using mn(2) by simp
qed


section \<open>Samples\<close>

lemma sint_byte: "- 128 \<le> v \<Longrightarrow> v < 128 \<Longrightarrow> sint (word_of_int v :: byte) = v"
  by (simp add: signed_of_int signed_take_bit_int_eq_self)

lemma unat_byte: "0 \<le> v \<Longrightarrow> v < 256 \<Longrightarrow> unat (word_of_int v :: byte) = nat v"
  by (simp add: unsigned_of_int take_bit_int_eq_self)

lemma power_le_128: "1 \<le> b \<Longrightarrow> b \<le> 8 \<Longrightarrow> (2 :: int) ^ (b - 1) \<le> 128 \<and> 0 < (2 :: int) ^ (b - 1) \<and> (2 :: int) * 2 ^ (b - 1) = 2 ^ b"
proof -
  assume b: "1 \<le> b" "b \<le> 8"
  have "(2 :: int) ^ (b - 1) \<le> 2 ^ 7" using b by (intro power_increasing) auto
  moreover have "(2 :: int) * 2 ^ (b - 1) = 2 ^ b" using b by (simp add: power_Suc [symmetric])
  ultimately show ?thesis by simp
qed

lemma WeightSet_length: "1 \<le> b \<Longrightarrow> length (GetWeightSet (2 ^ (b - 1))) = 2 ^ b"
proof -
  assume b: "1 \<le> b"
  have "(2 :: int) * 2 ^ (b - 1) = 2 ^ b" using b by (simp add: power_Suc [symmetric])
  then have "2 ^ (b - 1) - 1 - - (2 ^ (b - 1)) + 1 = (2 :: int) ^ b" by linarith
  then show ?thesis by (simp add: GetWeightSet_def nat_power_eq)
qed

lemma WeightSet_linear: "1 \<le> b \<Longrightarrow> isLinearSample (GetWeightSet (2 ^ (b - 1))) b"
proof -
  assume b: "1 \<le> b"
  have p: "(2 :: int) * 2 ^ (b - 1) = 2 ^ b" using b by (simp add: power_Suc [symmetric])
  have "GetWeightSet (2 ^ (b - 1)) ! i = int i - 2 ^ (b - 1)" if i: "i < 2 ^ b" for i
  proof -
    have "int i < 2 ^ b" using i by (metis of_nat_less_iff of_nat_power of_nat_numeral)
    then have "- (2 ^ (b - 1)) + int i \<le> 2 ^ (b - 1) - 1" using p by linarith
    then show ?thesis unfolding GetWeightSet_def by (simp add: nth_upto)
  qed
  then show ?thesis using WeightSet_length [OF b] by (simp add: isLinearSample_def)
qed

lemma samples_roundtrip:
  assumes b: "1 \<le> b" "b \<le> 8"
  shows "read_samples (word_of_nat (2 ^ b) # map word_of_int (GetWeightSet (2 ^ (b - 1))) @ s) = Some (GetWeightSet (2 ^ (b - 1)), s)"
proof -
  let ?set = "GetWeightSet (2 ^ (b - 1))" and ?c = "word_of_nat (2 ^ b) :: byte"
  have "(2 :: nat) ^ b \<le> 2 ^ 8" using b(2) by (intro power_increasing) auto
  then have "(if unat ?c = 0 then 256 else unat ?c) = 2 ^ b"
    by (cases "(2 :: nat) ^ b = 256") (simp_all add: unsigned_of_nat take_bit_nat_eq_self take_bit_eq_mod del: of_nat_power)
  then have n: "(if unat (hd [?c]) = 0 then 256 else unat (hd [?c])) = 2 ^ b" by (simp only: list.sel)
  have l: "length (map (word_of_int :: int \<Rightarrow> byte) ?set) = 2 ^ b" using WeightSet_length [OF b(1)] by simp
  have "map sint (map (word_of_int :: int \<Rightarrow> byte) ?set) = ?set"
    unfolding map_map using power_le_128 [OF b] by (intro map_idI) (auto simp: GetWeightSet_def sint_byte)
  then show ?thesis
    unfolding read_samples_def append_Cons read_bytes_Cons(1) bind.bind_lunit prod.case n read_bytes_append [OF l] by simp
qed

lemma SimpleRank_WeightSet: "SimpleRank (GetWeightSet n) True = GetWeightSet n"
  by (simp add: SimpleRank_sort GetWeightSet_def sorted_sort_id)

end
