(* ===== verification/WeightDense.thy ===== *)
theory WeightDense
  imports WeightFacts
begin

unbundle bit_operations_syntax

text \<open>
  The dense coding: what \<open>WriteCQBlobs\<close> writes, \<open>ReadQuanData_c\<close> reads, for one to eight bits, as one byte per
  weight or packed to half bytes.
\<close>

section \<open>What is written\<close>

definition weights_ok :: "Weights \<Rightarrow> nat \<Rightarrow> nat \<Rightarrow> bool" where
  \<comment> \<open>the arrays have an entry for every channel and every weight, the shape and its size fit an \<open>int\<close>\<close>
  "weights_ok w area channel \<longleftrightarrow> length (w_live w) = channel \<and> length (w_zero w) = channel \<and> length (w_round w) = area * channel \<and>
     area < 2 ^ 31 \<and> channel < 2 ^ 31 \<and> area * channel < 2 ^ 31"

definition value_of :: "Weights \<Rightarrow> nat \<Rightarrow> bool \<Rightarrow> nat \<Rightarrow> nat \<Rightarrow> int" where
  "value_of w area aq bits i = the (weight_value w area aq (2 ^ (bits - 1)) i)"

definition dense_value :: "Weights \<Rightarrow> nat \<Rightarrow> bool \<Rightarrow> nat \<Rightarrow> nat \<Rightarrow> int" where
  "dense_value w area aq bits i = clamp_value (2 ^ (bits - 1)) (value_of w area aq bits i)"

lemma channel_of: "i < area * channel \<Longrightarrow> i div area < channel" for i :: nat
  by (simp add: less_mult_imp_div_less mult.commute)

lemma weight_value_of:
  assumes "weights_ok w area channel" "i < area * channel"
  shows "weight_value w area aq (2 ^ (bits - 1)) i = Some (value_of w area aq bits i)"
  using assms channel_of [OF assms(2)] by (simp add: weights_ok_def value_of_def weight_value_def at_index_def)

lemma dense_value_range:
  assumes "1 \<le> bits" "bits \<le> 8"
  shows "- (2 ^ (bits - 1)) \<le> dense_value w area aq bits i" "dense_value w area aq bits i < 2 ^ (bits - 1)"
  using power_le_128 [OF assms] by (auto simp: dense_value_def clamp_value_def)

lemma int_dims:
  assumes "weights_ok w area channel"
  shows "int area < 2 ^ 32" "int channel < 2 ^ 32" "int_size area channel = Some (area * channel)" "2 * channel mod 2 ^ 32 = 2 * channel"
  using assms by (simp_all add: weights_ok_def int_size_def)

lemma those_some: "those (map (\<lambda>x. Some (f x)) xs) = Some (map f xs)"
  by (induction xs) simp_all

lemma UP_DIV_8: "x \<le> 8 * UP_DIV x 8"
  using UP_DIV_mult_ge [of 8 x] by (simp add: mult.commute)

abbreviation dense_header :: "nat \<Rightarrow> nat \<Rightarrow> nat \<Rightarrow> byte list" where
  "dense_header area channel bits \<equiv> fst (WriteBlobDim [int channel, int area]) @ word_of_nat (2 ^ bits) #
     map word_of_int (GetWeightSet (2 ^ (bits - 1)))"

definition dense_array :: "Weights \<Rightarrow> nat \<Rightarrow> nat \<Rightarrow> bool \<Rightarrow> nat \<Rightarrow> byte list" where
  \<comment> \<open>the indexes that are packed\<close>
  "dense_array w area channel aq bits = map (\<lambda>i. word_of_int (dense_value w area aq bits i + 2 ^ (bits - 1))) [0..<area * channel]"

lemma dense_written:
  assumes ok: "weights_ok w area channel" and b: "1 \<le> bits" "bits \<le> 8"
  shows "\<exists>buf. WriteCQBlobs w area channel aq use bits =
      Some (dense_header area channel bits @ buf, snd (WriteBlobDim [int channel, int area])) \<and>
    length buf = UP_DIV (bits * (area * channel)) 8 \<and> FillBuffer (UP_DIV (bits * (area * channel)) 8) (dense_array w area channel aq bits) bits = Some buf \<and>
    SplitBufToArray buf (area * channel) bits = Some (dense_array w area channel aq bits)"
proof -
  let ?arr = "dense_array w area channel aq bits"
  let ?n = "area * channel" and ?o = "2 ^ (bits - 1) :: int"
  have fits: "\<forall>v \<in> set ?arr. unat v < 2 ^ bits"
  proof
    fix v assume "v \<in> set ?arr"
    then obtain i where v: "v = word_of_int (dense_value w area aq bits i + ?o)" unfolding dense_array_def by auto
    have r: "0 \<le> dense_value w area aq bits i + ?o" "dense_value w area aq bits i + ?o < 2 ^ bits"
      using dense_value_range [OF b, of w area aq i] power_le_128 [OF b] by linarith+
    moreover have "(2 :: int) ^ bits \<le> 256" using power_increasing [of bits 8 "2 :: int"] b(2) by simp
    ultimately have "unat v = nat (dense_value w area aq bits i + ?o)" unfolding v by (intro unat_byte) linarith+
    then show "unat v < 2 ^ bits" using r by (simp add: nat_less_iff)
  qed
  have "bits * length ?arr \<le> 8 * UP_DIV (bits * ?n) 8" using UP_DIV_8 [of "bits * ?n"] by (simp add: dense_array_def)
  from fill_split_roundtrip [OF b fits this] obtain buf where buf: "FillBuffer (UP_DIV (bits * ?n) 8) ?arr bits = Some buf"
      "length buf = UP_DIV (bits * ?n) 8" "SplitBufToArray buf (length ?arr) bits = Some ?arr" by blast
  have o: "weight_offset bits = Some ?o" using b by (simp add: weight_offset_def)
  have "those (map (\<lambda>i. do { v \<leftarrow> weight_value w area aq ?o i; Some (word_of_int (clamp_value ?o v + ?o)) }) [0..<?n]) = Some ?arr"
  proof -
    have "map (\<lambda>i. do { v \<leftarrow> weight_value w area aq ?o i; Some (word_of_int (clamp_value ?o v + ?o) :: byte) }) [0..<?n] =
        map (\<lambda>i. Some (word_of_int (dense_value w area aq bits i + ?o))) [0..<?n]"
      using weight_value_of [OF ok] by (intro map_cong) (simp_all add: dense_value_def)
    then show ?thesis by (simp only: those_some dense_array_def)
  qed
  then have "WriteCQBlobs w area channel aq use bits =
      Some (dense_header area channel bits @ buf, snd (WriteBlobDim [int channel, int area]))"
    using buf(1) b(2) WeightSet_length [OF b(1)] int_dims(3) [OF ok]
    by (simp add: WriteCQBlobs_def o needed_bits_power [OF b(1)] Let_def case_prod_unfold mult.assoc del: of_nat_power)
  moreover have "length ?arr = ?n" by (simp add: dense_array_def)
  ultimately show ?thesis using buf by auto
qed

section \<open>What is read\<close>

lemma dense_parsed:
  assumes b: "1 \<le> bits" "bits \<le> 8" and dims: "int area < 2 ^ 32" "int channel < 2 ^ 32"
    and buf: "length buf = UP_DIV (bits * (area * channel)) 8" and q: "q_shapeInt32 quan = snd (WriteBlobDim [int channel, int area])"
  shows "ReadQuanData_c (dense_header area channel bits @ buf @ s) len result quan forceQuant forceFloat None =
    (let r = result\<lparr>ic_weightMap := GetWeightSet (2 ^ (bits - 1)), ic_originBits := bits\<rparr>
     in if bits = 4 \<or> bits = 8 then read_linear48 buf bits (area * channel) r forceQuant None
        else read_indexed buf bits (area * channel) True r forceQuant None len)"
proof -
  let ?set = "GetWeightSet (2 ^ (bits - 1))"
  have d: "ReadBlobDim (dense_header area channel bits @ buf @ s) 32 (q_shapeInt32 quan) =
      Some ([channel, area], word_of_nat (2 ^ bits) # map word_of_int ?set @ buf @ s)"
    using dims_roundtrip [of "[int channel, int area]"] dims unfolding q append_assoc append_Cons by simp
  have cnt: "max 1 (atLestBitsCnt (word_of_nat (length ?set))) = bits"
    unfolding WeightSet_length [OF b(1)] using atLestBitsCnt_power [of bits] b by simp
  have out: "settable_output quan forceQuant forceFloat None = None" by (simp add: settable_output_def)
  have p: "prod_list [channel, area] = area * channel" by simp
  show ?thesis
    unfolding ReadQuanData_c_def d bind.bind_lunit prod.case samples_roundtrip [OF b] SimpleRank_WeightSet Let_def out p
      select_convs update_convs cnt read_bytes_append [OF buf]
    using WeightSet_linear [OF b(1)] by (simp add: Let_def)
qed


text \<open>The number of bits can be asked for without reading the indexes.\<close>

lemma AcquireQuantBit_dense:
  assumes b: "1 \<le> bits" "bits \<le> 8" and dims: "int area < 2 ^ 32" "int channel < 2 ^ 32"
  shows "AcquireQuantBit (dense_header area channel bits @ s) (snd (WriteBlobDim [int channel, int area])) =
    Some (if bits = 4 \<or> bits = 8 then bits else 0)"
proof -
  let ?set = "GetWeightSet (2 ^ (bits - 1))"
  have d: "ReadBlobDim (dense_header area channel bits @ s) 32 (snd (WriteBlobDim [int channel, int area])) =
      Some ([channel, area], word_of_nat (2 ^ bits) # map word_of_int ?set @ s)"
    using dims_roundtrip [of "[int channel, int area]"] dims unfolding append_assoc append_Cons by simp
  have cnt: "max 1 (atLestBitsCnt (word_of_nat (length ?set))) = bits"
    unfolding WeightSet_length [OF b(1)] using atLestBitsCnt_power [of bits] b by simp
  show ?thesis
    unfolding AcquireQuantBit_def d bind.bind_lunit prod.case samples_roundtrip [OF b] SimpleRank_WeightSet Let_def cnt
    using WeightSet_linear [OF b(1)] by simp
qed

text \<open>The blob for weights of one byte each.\<close>

definition plain_blob :: "Weights \<Rightarrow> nat \<Rightarrow> nat \<Rightarrow> bool \<Rightarrow> nat \<Rightarrow> byte list" where
  "plain_blob w area channel aq bits = map (\<lambda>i. word_of_int (dense_value w area aq bits i)) [0..<area * channel]"

lemma dense_array_shifted:
  "map (\<lambda>b. b - push_bit (bits - 1) 1) (dense_array w area channel aq bits) = plain_blob w area channel aq bits"
  by (simp add: dense_array_def plain_blob_def push_bit_eq_mult)

lemma plain_blob_length: "length (plain_blob w area channel aq bits) = area * channel"
  by (simp add: plain_blob_def)

lemma even_room: "n \<le> UP_DIV n 2 * 2" "UP_DIV (4 * n) 8 = UP_DIV n 2" "UP_DIV (8 * n) 8 = n"
  using UP_DIV_mult_ge [of 2 n] by (simp_all add: UP_DIV_def)

lemma half_bytes:
  "length (concat (map (\<lambda>v. [v div 16 - 8, v mod 16 - 8]) buf)) = 2 * length buf"
  "i < 2 * length buf \<Longrightarrow> concat (map (\<lambda>v. [v div 16 - 8, v mod 16 - 8]) buf) ! i = nibble buf i - 8"
proof -
  show "length (concat (map (\<lambda>v. [v div 16 - 8, v mod 16 - 8]) buf)) = 2 * length buf" by (induction buf) simp_all
  show "i < 2 * length buf \<Longrightarrow> concat (map (\<lambda>v. [v div 16 - 8, v mod 16 - 8]) buf) ! i = nibble buf i - 8"
  proof (induction buf arbitrary: i)
    case (Cons v vs)
    consider "i = 0" | "i = 1" | j where "i = Suc (Suc j)" by (metis One_nat_def not0_implies_Suc)
    then show ?case
    proof cases
      case 3
      then show ?thesis using Cons by (simp add: nibble_def)
    qed (simp_all add: nibble_def)
  qed simp
qed

lemma dense_reads:
  assumes ok: "weights_ok w area channel" and b: "1 \<le> bits" "bits \<le> 8" and unpacked: "\<not> forceQuant \<or> 5 \<le> bits"
  shows "\<exists>file. WriteCQBlobs w area channel aq use bits = Some (file, snd (WriteBlobDim [int channel, int area])) \<and>
    (\<forall>quan s len result forceFloat. q_shapeInt32 quan = snd (WriteBlobDim [int channel, int area]) \<longrightarrow>
      (\<exists>blob r. ReadQuanData_c (file @ s) len result quan forceQuant forceFloat None = Some (Some blob, area * channel, r) \<and>
         take (area * channel) blob = plain_blob w area channel aq bits))"
proof -
  let ?n = "area * channel" and ?use = "snd (WriteBlobDim [int channel, int area])" and ?arr = "dense_array w area channel aq bits"
  obtain buf where buf: "WriteCQBlobs w area channel aq use bits = Some (dense_header area channel bits @ buf, ?use)"
      "length buf = UP_DIV (bits * ?n) 8" "SplitBufToArray buf ?n bits = Some ?arr"
    using dense_written [OF ok b, of aq use] by blast
  have dims: "int area < 2 ^ 32" "int channel < 2 ^ 32" using int_dims [OF ok] by simp_all
  have len: "length ?arr = ?n" by (simp add: dense_array_def)
  have "\<exists>blob r. ReadQuanData_c ((dense_header area channel bits @ buf) @ s) len result quan forceQuant forceFloat None = Some (Some blob, ?n, r) \<and>
      take ?n blob = plain_blob w area channel aq bits" if q: "q_shapeInt32 quan = ?use" for quan s len result forceFloat
  proof -
    let ?r = "result\<lparr>ic_weightMap := GetWeightSet (2 ^ (bits - 1)), ic_originBits := bits\<rparr>"
    note parsed = dense_parsed [OF b dims buf(2) q, unfolded Let_def]
    consider (four) "bits = 4" | (eight) "bits = 8" | (other) "bits \<noteq> 4" "bits \<noteq> 8" by blast
    then show ?thesis
    proof cases
      case four
      let ?bs = "concat (map (\<lambda>val. [val div 16 - 8, val mod 16 - 8]) buf)"
      have lb: "length buf = UP_DIV ?n 2" using buf(2) four even_room(2) by simp
      have "?n \<le> 2 * length buf" using even_room(1) [of ?n] lb by simp
      from split_nibbles [OF this] buf(3) four have arr: "?arr = map (nibble buf) [0..<?n]" by simp
      have "take ?n ?bs = map (\<lambda>i. nibble buf i - 8) [0..<?n]"
        using even_room(1) [of ?n] lb by (intro nth_equalityI) (simp_all add: half_bytes)
      then have t: "take ?n ?bs = plain_blob w area channel aq bits"
        using arr dense_array_shifted [of bits w area channel aq] four by (simp add: comp_def)
      have "overwrite (zero_blob ?n) ?bs = Some ?bs" using lb by (simp add: overwrite_def zero_blob_def half_bytes)
      then show ?thesis using parsed four unpacked t by (simp add: read_linear48_def)
    next
      case eight
      have lb: "length buf = ?n" using buf(2) eight even_room(3) by simp
      then have "buf = ?arr" using split_bytes [of buf] buf(3) eight by simp
      moreover have "map (\<lambda>b. b - 128) ?arr = plain_blob w area channel aq bits" using dense_array_shifted [of bits w area channel aq] eight by simp
      ultimately show ?thesis using parsed eight unpacked lb by (simp add: read_linear48_def plain_blob_length)
    next
      case other
      have o: "\<not> (bits \<le> 4 \<and> forceQuant)" using unpacked other by auto
      have "overwrite (zero_blob ?n) (plain_blob w area channel aq bits) =
          Some (plain_blob w area channel aq bits @ drop ?n (zero_blob ?n))"
        using even_room(1) [of ?n] by (simp add: overwrite_def zero_blob_def plain_blob_length)
      then show ?thesis using parsed other o buf(3) dense_array_shifted [of bits w area channel aq]
        by (auto simp: read_indexed_def Let_def plain_blob_length)
    qed
  qed
  then show ?thesis using buf(1) by blast
qed


text \<open>
  C8: whatever the weights, the scales and the shape, \<open>WriteCQBlobs\<close> with one to eight bits writes a file that
  \<open>ReadQuanData_c\<close> reads back: as many weights, each the clamped quantized value as a signed byte. (With \<open>forceQuant\<close>
  and at most four bits the weights stay packed, see below.)
\<close>

theorem dense_roundtrip:
  assumes "weights_ok w area channel" "1 \<le> bits" "bits \<le> 8" "\<not> forceQuant \<or> 5 \<le> bits"
  shows "\<exists>file use32. WriteCQBlobs w area channel aq use bits = Some (file, use32) \<and>
    (\<forall>quan s len result forceFloat. q_shapeInt32 quan = use32 \<longrightarrow>
      (\<exists>blob r. ReadQuanData_c (file @ s) len result quan forceQuant forceFloat None = Some (Some blob, area * channel, r) \<and>
         take (area * channel) blob = plain_blob w area channel aq bits))"
  using dense_reads [OF assms, of aq use] by blast

theorem dense_roundtrip_witness:
  "let w = \<lparr>w_live = [True, False], w_zero = [1, 0], w_round = [3, -9, 2, 0, 7, 100]\<rparr> in
   \<exists>file use32. WriteCQBlobs w 3 2 False False 3 = Some (file, use32) \<and>
     (\<forall>(quan :: int IDSTQuan) s len result forceFloat. q_shapeInt32 quan = use32 \<longrightarrow>
       (\<exists>blob r. ReadQuanData_c (file @ s) len result quan False forceFloat None = Some (Some blob, 6, r) \<and>
          take 6 blob = [3, -4, 2, 0, 0, 0]))"
proof -
  let ?w = "\<lparr>w_live = [True, False], w_zero = [1, 0], w_round = [3, -9, 2, 0, 7, 100]\<rparr>"
  have "plain_blob ?w 3 2 False 3 = [3, -4, 2, 0, 0, 0]" by code_simp
  then show ?thesis using dense_roundtrip [of ?w 3 2 3 False False False] by (simp add: weights_ok_def)
qed

section \<open>Half bytes\<close>

text \<open>With \<open>forceQuant\<close>, indexes of at most four bits stay in half bytes, the first weight in the upper one.\<close>

lemma pack_nibbles:
  fixes x y :: byte
  assumes "unat x < 16" "unat y < 16"
  shows "(push_bit 4 x + y) div 16 = x" "(push_bit 4 x + y) mod 16 = y"
proof -
  have u: "unat (push_bit 4 x + y) = 16 * unat x + unat y"
    using assms by (simp add: unat_add_lem [THEN iffD1] push_bit_eq_mult unat_word_ariths mult.commute)
  show "(push_bit 4 x + y) div 16 = x" "(push_bit 4 x + y) mod 16 = y"
    using assms by (simp_all add: word_unat_eq_iff unat_div unat_mod u)
qed

theorem dense_packed_roundtrip:
  assumes ok: "weights_ok w area channel" and b: "1 \<le> bits" "bits \<le> 4"
  shows "\<exists>file use32. WriteCQBlobs w area channel aq use bits = Some (file, use32) \<and>
    (\<forall>quan s len result forceFloat. q_shapeInt32 quan = use32 \<longrightarrow>
      (\<exists>blob k r. ReadQuanData_c (file @ s) len result quan True forceFloat None = Some (Some blob, k, r) \<and> ic_canUseInt4 r \<and>
         map (\<lambda>i. nibble blob i - 8) [0..<area * channel] = plain_blob w area channel aq bits))"
proof -
  let ?n = "area * channel" and ?use = "snd (WriteBlobDim [int channel, int area])" and ?arr = "dense_array w area channel aq bits"
  have b8: "bits \<le> 8" using b(2) by simp
  obtain buf where buf: "WriteCQBlobs w area channel aq use bits = Some (dense_header area channel bits @ buf, ?use)"
      "length buf = UP_DIV (bits * ?n) 8" "SplitBufToArray buf ?n bits = Some ?arr"
    using dense_written [OF ok b(1) b8, of aq use] by blast
  have dims: "int area < 2 ^ 32" "int channel < 2 ^ 32" using int_dims [OF ok] by simp_all
  have "\<exists>blob k r. ReadQuanData_c ((dense_header area channel bits @ buf) @ s) len result quan True forceFloat None = Some (Some blob, k, r) \<and>
      ic_canUseInt4 r \<and> map (\<lambda>i. nibble blob i - 8) [0..<?n] = plain_blob w area channel aq bits"
    if q: "q_shapeInt32 quan = ?use" for quan s len result forceFloat
  proof -
    note parsed = dense_parsed [OF b(1) b8 dims buf(2) q, unfolded Let_def]
    show ?thesis
    proof (cases "bits = 4")
      case True
      have "?n \<le> 2 * length buf" using even_room [of ?n] buf(2) True by simp
      from split_nibbles [OF this] buf(3) True have "?arr = map (nibble buf) [0..<?n]" by simp
      then have "map (\<lambda>i. nibble buf i - 8) [0..<?n] = plain_blob w area channel aq bits"
        using dense_array_shifted [of bits w area channel aq] True by (simp add: comp_def)
      then show ?thesis using parsed True by (simp add: read_linear48_def)
    next
      case False
      let ?plain = "plain_blob w area channel aq bits" and ?m = "UP_DIV ?n 2"
      let ?blob = "?plain @ drop ?n (zero_blob ?n)"
      let ?new = "map (\<lambda>i. push_bit 4 (?blob ! (2 * i) + 8) + (?blob ! (2 * i + 1) + 8)) [0..<?m]"
      have "overwrite (zero_blob ?n) ?plain = Some ?blob"
        using even_room(1) [of ?n] by (simp add: overwrite_def zero_blob_def plain_blob_length)
      then have read: "\<exists>r. ReadQuanData_c ((dense_header area channel bits @ buf) @ s) len result quan True forceFloat None = Some (Some ?new, ?n, r) \<and> ic_canUseInt4 r"
        using parsed False b buf(3) dense_array_shifted [of bits w area channel aq] by (simp add: read_indexed_def Let_def)
      have small: "unat (?blob ! i + 8) < 16" if i: "i < 2 * ?m" for i
      proof (cases "i < ?n")
        case True
        have p: "(2 :: int) ^ (bits - 1) \<le> 8" using power_increasing [of "bits - 1" 3 "2 :: int"] b by simp
        let ?v = "dense_value w area aq bits i"
        have r: "0 \<le> ?v + 8" "?v + 8 < 16" using dense_value_range [OF b(1) b8, of w area aq i] p by linarith+
        have "?blob ! i + 8 = word_of_int (?v + 8)" using True by (simp add: nth_append plain_blob_def)
        then show ?thesis using unat_byte [of "?v + 8"] r by (simp add: nat_less_iff)
      next
        case False
        then have "?blob ! i = 0" using i by (simp add: nth_append plain_blob_length zero_blob_def)
        then show ?thesis by simp
      qed
      have "nibble ?new i - 8 = ?plain ! i" if i: "i < ?n" for i
      proof -
        have q: "i div 2 < ?m" using i even_room(1) [of ?n] by linarith
        then have new: "?new ! (i div 2) = push_bit 4 (?blob ! (2 * (i div 2)) + 8) + (?blob ! (2 * (i div 2) + 1) + 8)" by simp
        have q2: "2 * (i div 2) < 2 * ?m" "2 * (i div 2) + 1 < 2 * ?m" using q by linarith+
        have "nibble ?new i = ?blob ! i + 8"
        proof (cases "even i")
          case True
          then show ?thesis unfolding nibble_def new using pack_nibbles(1) [OF small [OF q2(1)] small [OF q2(2)]] by simp
        next
          case False
          then show ?thesis unfolding nibble_def new using pack_nibbles(2) [OF small [OF q2(1)] small [OF q2(2)]]
            by (simp add: odd_two_times_div_two_succ)
        qed
        then show ?thesis using i by (simp add: nth_append plain_blob_length)
      qed
      then have "map (\<lambda>i. nibble ?new i - 8) [0..<?n] = ?plain" by (intro nth_equalityI) (simp_all add: plain_blob_length)
      then show ?thesis using read by blast
    qed
  qed
  then show ?thesis using buf(1) by blast
qed

end
