(* ===== verification/WeightSparse.thy ===== *)
theory WeightSparse
  imports WeightDense
begin

unbundle bit_operations_syntax

text \<open>
  The sparse coding: the entries of \<open>WriteSparseQuanBlobs\<close> are as many as \<open>GetSparsity\<close> counts, and
  \<open>ReadSparseQuanData_c\<close> puts each weight back where it was.
\<close>

section \<open>The map of the decoder\<close>

lemma InsertSimpleSet_distinct:
  "distinct (acc @ xs) \<Longrightarrow> length (acc @ xs) \<le> 256 \<Longrightarrow> fold InsertSimpleSet xs acc = acc @ xs"
proof (induction xs arbitrary: acc)
  case (Cons x xs)
  then have "InsertSimpleSet x acc = acc @ [x]" by (simp add: InsertSimpleSet_def)
  then show ?case using Cons.IH [of "acc @ [x]"] Cons.prems by simp
qed simp

lemma update_key_none: "k \<notin> fst ` set m \<Longrightarrow> update_key k v m = None"
  by (induction m) auto

lemma word_of_nat_byte_inj: "i < 256 \<Longrightarrow> j < 256 \<Longrightarrow> (word_of_nat i :: byte) = word_of_nat j \<longleftrightarrow> i = j"
proof -
  assume "i < 256" "j < 256"
  then have "unat (word_of_nat i :: byte) = i" "unat (word_of_nat j :: byte) = j" by (simp_all add: unsigned_of_nat take_bit_nat_eq_self)
  then show ?thesis by metis
qed

lemma InsertMap_list:
  "m \<le> length U \<Longrightarrow> length U \<le> 256 \<Longrightarrow>
    fold (\<lambda>i. InsertMap (word_of_nat i) (U ! i)) [0..<m] [] = map (\<lambda>i. (word_of_nat i, U ! i)) [0..<m]"
proof (induction m)
  case (Suc m)
  have "(word_of_nat m :: byte) \<notin> fst ` set (map (\<lambda>i. (word_of_nat i, U ! i)) [0..<m])"
    using Suc.prems word_of_nat_byte_inj by force
  then show ?case using Suc by (simp add: InsertMap_def update_key_none)
qed simp

lemma find_weight:
  assumes b: "1 \<le> bits" "bits \<le> 8" and v: "- (2 ^ (bits - 1)) \<le> v" "v < 2 ^ (bits - 1)"
  defines "U \<equiv> SimpleRank (fold InsertSimpleSet (GetWeightSet (2 ^ (bits - 1))) []) True"
  shows "FindInMap (fold (\<lambda>i. InsertMap (word_of_nat i) (U ! i)) [0..<length U] []) (map_weight (2 ^ (bits - 1)) v) = Some v"
proof -
  let ?o = "2 ^ (bits - 1) :: int" and ?set = "GetWeightSet (2 ^ (bits - 1))"
  have le: "(2 :: nat) ^ bits \<le> 256" using power_increasing [of bits 8 "2 :: nat"] b(2) by simp
  have U: "U = ?set"
    using InsertSimpleSet_distinct [of "[]" ?set] WeightSet_length [OF b(1)] le
    by (simp add: U_def SimpleRank_WeightSet) (simp add: GetWeightSet_def SimpleRank_sort sorted_sort_id)
  have len: "length U = 2 ^ bits" using WeightSet_length [OF b(1)] U by simp
  let ?j = "nat (v + ?o)"
  have j: "?j < length U" using v power_le_128 [OF b] unfolding len by (simp add: nat_less_iff)
  have Uj: "U ! ?j = v" using v unfolding U GetWeightSet_def by (simp add: nth_upto)
  have key: "map_weight ?o v = word_of_nat ?j" using v by (simp add: map_weight_def)
  let ?m = "map (\<lambda>i. (word_of_nat i :: byte, U ! i)) [0..<length U]"
  have "distinct (map fst ?m)" using len le word_of_nat_byte_inj by (auto simp: distinct_map inj_on_def comp_def)
  moreover have "(word_of_nat ?j, v) \<in> set ?m" using j Uj by force
  ultimately have "map_of ?m (word_of_nat ?j) = Some v" by (rule map_of_is_SomeI)
  then show ?thesis using InsertMap_list [OF order_refl, of U] len le unfolding key FindInMap_def by simp
qed


section \<open>The entries\<close>

definition zero_of :: "Weights \<Rightarrow> nat \<Rightarrow> bool \<Rightarrow> nat \<Rightarrow> nat \<Rightarrow> int" where
  "zero_of w area aq bits i = the (zero_value w area aq (2 ^ (bits - 1)) i)"

definition in_range :: "Weights \<Rightarrow> nat \<Rightarrow> nat \<Rightarrow> bool \<Rightarrow> nat \<Rightarrow> bool" where
  \<comment> \<open>no value and no channel's zero is outside of the values \<open>bits\<close> bits can have\<close>
  "in_range w area channel aq bits \<longleftrightarrow> (\<forall>i < area * channel.
     - (2 ^ (bits - 1)) \<le> value_of w area aq bits i \<and> value_of w area aq bits i < 2 ^ (bits - 1) \<and>
     - (2 ^ (bits - 1)) \<le> zero_of w area aq bits i \<and> zero_of w area aq bits i < 2 ^ (bits - 1))"

lemma zero_value_of:
  assumes "weights_ok w area channel" "i < area * channel"
  shows "zero_value w area aq (2 ^ (bits - 1)) i = Some (zero_of w area aq bits i)"
  using assms channel_of [OF assms(2)] by (simp add: weights_ok_def zero_of_def zero_value_def at_index_def)

lemma foldC_snoc: "foldC f (xs @ [x]) s = do { r \<leftarrow> foldC f xs s; case r of None \<Rightarrow> Some None | Some t \<Rightarrow> f x t }"
  by (induction xs arbitrary: s) (auto split: bind_splits option.splits)

text \<open>The blob when the weights below \<open>m\<close> are in place.\<close>

definition partial_blob :: "Weights \<Rightarrow> nat \<Rightarrow> nat \<Rightarrow> bool \<Rightarrow> nat \<Rightarrow> nat \<Rightarrow> byte list" where
  "partial_blob w area channel aq bits m =
     map (\<lambda>k. word_of_int (if k < m then value_of w area aq bits k else zero_of w area aq bits k)) [0..<area * channel]"

lemma partial_blob_length [simp]: "length (partial_blob w area channel aq bits m) = area * channel"
  by (simp add: partial_blob_def)

lemma partial_blob_put:
  "m < area * channel \<Longrightarrow> (partial_blob w area channel aq bits m)[m := word_of_int (value_of w area aq bits m)] = partial_blob w area channel aq bits (Suc m)"
  by (rule nth_equalityI) (auto simp: partial_blob_def nth_list_update)

lemma partial_blob_skip:
  "m < area * channel \<Longrightarrow> value_of w area aq bits m = zero_of w area aq bits m \<Longrightarrow> partial_blob w area channel aq bits m = partial_blob w area channel aq bits (Suc m)"
  by (rule nth_equalityI) (auto simp: partial_blob_def less_Suc_eq)

definition sparse_inv ::
  "Weights \<Rightarrow> nat \<Rightarrow> nat \<Rightarrow> bool \<Rightarrow> nat \<Rightarrow> (byte \<times> int) list \<Rightarrow> nat \<Rightarrow> nat \<Rightarrow> (byte \<times> byte) list \<Rightarrow> nat \<Rightarrow> bool" where
  \<comment> \<open>after \<open>m\<close> weights, with steps below \<open>2 ^ k\<close>: the entries are few and fit, and decode to the weights so far\<close>
  "sparse_inv w area channel aq bits M k m es pre \<longleftrightarrow>
     pre \<le> m \<and> m - pre \<le> 2 ^ k - 1 \<and> length es \<le> m \<and> (\<forall>e \<in> set es. unat (fst e) < 2 ^ k \<and> unat (snd e) < 2 ^ bits) \<and>
     foldC (sparse_write M True) es (partial_blob w area channel aq bits 0, 0) = ret (partial_blob w area channel aq bits m, pre)"


lemma sparse_loop:
  assumes ok: "weights_ok w area channel" and b: "1 \<le> bits" "bits \<le> 8" and k: "2 \<le> k" "k \<le> 8"
    and range: "in_range w area channel aq bits"
    and M: "\<And>v. - (2 ^ (bits - 1)) \<le> v \<Longrightarrow> v < 2 ^ (bits - 1) \<Longrightarrow> FindInMap M (map_weight (2 ^ (bits - 1)) v) = Some v"
  shows "m \<le> area * channel \<Longrightarrow> \<exists>es pre.
    foldM (sparse_step w area aq (2 ^ (bits - 1)) (2 ^ k - 1)) [0..<m] ([], 0) = Some (es, pre) \<and>
    foldM (count_step w area aq (2 ^ (bits - 1)) (2 ^ k - 1)) [0..<m] (0, 0) = Some (length es, pre) \<and>
    sparse_inv w area channel aq bits M k m es pre"
proof (induction m)
  case 0
  then show ?case by (simp add: sparse_inv_def)
next
  case (Suc m)
  let ?o = "2 ^ (bits - 1) :: int" and ?M = "2 ^ k - 1 :: int"
  let ?v = "value_of w area aq bits m" and ?z = "zero_of w area aq bits m"
  have m: "m < area * channel" using Suc.prems by simp
  obtain es pre where I: "foldM (sparse_step w area aq ?o ?M) [0..<m] ([], 0) = Some (es, pre)"
      "foldM (count_step w area aq ?o ?M) [0..<m] (0, 0) = Some (length es, pre)" "sparse_inv w area channel aq bits M k m es pre"
    using Suc.IH Suc.prems by auto
  have pre: "pre \<le> m" "m - pre \<le> 2 ^ k - 1" "length es \<le> m"
    and fits: "\<forall>e \<in> set es. unat (fst e) < 2 ^ k \<and> unat (snd e) < 2 ^ bits"
    and dec: "foldC (sparse_write M True) es (partial_blob w area channel aq bits 0, 0) = ret (partial_blob w area channel aq bits m, pre)"
    using I(3) by (simp_all add: sparse_inv_def)
  have v: "weight_value w area aq ?o m = Some ?v" and z: "zero_value w area aq ?o m = Some ?z"
    using weight_value_of [OF ok m] zero_value_of [OF ok m] by blast+
  have r: "- ?o \<le> ?v" "?v < ?o" "- ?o \<le> ?z" "?z < ?o" using range m by (auto simp: in_range_def)
  have k4: "4 \<le> (2 :: nat) ^ k" "(2 :: nat) ^ k \<le> 256"
    using power_increasing [of 2 k "2 :: nat"] power_increasing [of k 8 "2 :: nat"] k by simp_all
  have kint: "?M = int (2 ^ k - 1)" by (simp add: of_nat_diff)
  have M0: "0 < ?M" "?M \<noteq> - 1" using k4(1) unfolding kint by linarith+
  let ?d = "word_of_int (int m - int pre) :: byte"
  have d: "unat ?d = m - pre" using unat_byte [of "int m - int pre"] pre k4(2) by simp
  have entry: "unat ?d < 2 ^ k" using d pre(2) k4(1) by simp
  have index: "unat (map_weight ?o u) < 2 ^ bits" if "- ?o \<le> u" "u < ?o" for u
  proof -
    have "(2 :: int) ^ bits \<le> 256" using power_increasing [of bits 8 "2 :: int"] b(2) by simp
    then show ?thesis using that power_le_128 [OF b] unat_byte [of "u + ?o"] by (simp add: map_weight_def nat_less_iff)
  qed
  have new: "foldC (sparse_write M True) (es @ [(?d, map_weight ?o u)]) (partial_blob w area channel aq bits 0, 0) =
      ret ((partial_blob w area channel aq bits m)[m := word_of_int u], m)" if "- ?o \<le> u" "u < ?o" for u
    unfolding foldC_snoc dec using M [OF that] d pre(1) m by (simp add: sparse_write_def)
  have next_inv: "sparse_inv w area channel aq bits M k (Suc m) (es @ [(?d, map_weight ?o u)]) m"
    if "- ?o \<le> u" "u < ?o" "(partial_blob w area channel aq bits m)[m := word_of_int u] = partial_blob w area channel aq bits (Suc m)" for u
    unfolding sparse_inv_def using new [OF that(1,2)] that(3) fits entry index [OF that(1,2)] pre(3) k4(1) by auto
  show ?case
  proof (cases "?v = ?z")
    case False
    have "sparse_step w area aq ?o ?M m (es, pre) = Some (es @ [(?d, map_weight ?o ?v)], m)"
      "count_step w area aq ?o ?M m (length es, pre) = Some (length es + 1, m)"
      using False v z M0 by (simp_all add: sparse_step_def count_step_def)
    then show ?thesis using I(1,2) next_inv [OF r(1,2) partial_blob_put [OF m]] by (simp add: foldM_append)
  next
    case eq: True
    show ?thesis
    proof (cases "?M \<le> int m - int pre")
      case True
      have "sparse_step w area aq ?o ?M m (es, pre) = Some (es @ [(?d, map_weight ?o ?z)], m)"
        "count_step w area aq ?o ?M m (length es, pre) = Some (length es + 1, m)"
        using eq v z M0 True by (simp_all add: sparse_step_def count_step_def)
      then show ?thesis using I(1,2) next_inv [OF r(3,4)] partial_blob_put [OF m, of w aq bits] eq by (simp add: foldM_append)
    next
      case False
      have "sparse_step w area aq ?o ?M m (es, pre) = Some (es, pre)" "count_step w area aq ?o ?M m (length es, pre) = Some (length es, pre)"
        using eq v z M0 False by (simp_all add: sparse_step_def count_step_def)
      moreover have "Suc m - pre \<le> 2 ^ k - 1" using False pre(1) unfolding kint by linarith
      then have "sparse_inv w area channel aq bits M k (Suc m) es pre"
        using I(3) partial_blob_skip [OF m eq] by (simp add: sparse_inv_def)
      ultimately show ?thesis using I(1,2) by (simp add: foldM_append)
    qed
  qed
qed


section \<open>The number of bits of a step\<close>

lemma best_step:
  assumes "\<And>i. 2 \<le> i \<Longrightarrow> i \<le> 8 \<Longrightarrow> GetSparsity w area n aq bits (2 ^ i - 1) = Some (cnt i)"
  shows "\<exists>k nnz. GetBestMaxStep w area n aq bits = Some (k, nnz) \<and>
    (k = None \<and> nnz = 0 \<or> (\<exists>i. k = Some i \<and> 2 \<le> i \<and> i \<le> 8 \<and> nnz = cnt i \<and> int nnz < 2 ^ 32))"
proof -
  let ?F = "\<lambda>i (iMaxStepBits, best_nnz, szBestSize). do {
         nnz \<leftarrow> GetSparsity w area n aq bits (2 ^ i - 1);
         let tmp = UP_DIV (nnz * i) 8 + UP_DIV (nnz * bits) 8;
         Some (if tmp < szBestSize then (Some i, nnz, tmp) else (iMaxStepBits, best_nnz, szBestSize)) }"
  let ?P = "\<lambda>k nnz size. size \<le> 1000000000 \<and>
    (k = None \<and> nnz = 0 \<or> (\<exists>i. k = Some i \<and> 2 \<le> i \<and> i \<le> 8 \<and> nnz = cnt i \<and> int nnz < 2 ^ 32))"
  have "\<exists>k' nnz' size'. foldM ?F xs (k, nnz, size) = Some (k', nnz', size') \<and> ?P k' nnz' size'"
    if "set xs \<subseteq> {2..8}" "?P k nnz size" for xs k nnz size
    using that
  proof (induction xs arbitrary: k nnz size)
    case (Cons x xs)
    have x: "2 \<le> x" "x \<le> 8" using Cons.prems(1) by auto
    let ?t = "UP_DIV (cnt x * x) 8 + UP_DIV (cnt x * bits) 8"
    have small: "int (cnt x) < 2 ^ 32" if "?t < 1000000000"
    proof -
      have "cnt x * 2 \<le> cnt x * x" using x by simp
      also have "\<dots> \<le> 8 * UP_DIV (cnt x * x) 8" by (rule UP_DIV_8)
      finally show ?thesis using that by simp
    qed
    show ?case
    proof (cases "?t < size")
      case True
      then have "?P (Some x) (cnt x) ?t" using small Cons.prems(2) x by auto
      have "\<exists>k' nnz' size'. foldM ?F xs (Some x, cnt x, ?t) = Some (k', nnz', size') \<and> ?P k' nnz' size'"
        by (rule Cons.IH [OF _ \<open>?P (Some x) (cnt x) ?t\<close>]) (use Cons.prems(1) in simp)
      then show ?thesis using True assms [OF x] by (simp add: Let_def)
    next
      case False
      have "\<exists>k' nnz' size'. foldM ?F xs (k, nnz, size) = Some (k', nnz', size') \<and> ?P k' nnz' size'"
        by (rule Cons.IH [OF _ Cons.prems(2)]) (use Cons.prems(1) in simp)
      then show ?thesis using False assms [OF x] by (simp add: Let_def)
    qed
  qed simp
  from this [of "[2..<9]" 1000000000 None 0] obtain k' nnz' size' where
    "foldM ?F [2..<9] (None, 0, 1000000000) = Some (k', nnz', size')" "?P k' nnz' size'" by fastforce
  then show ?thesis by (auto simp: GetBestMaxStep_def)
qed

section \<open>The round trip\<close>

definition alpha_matches :: "'f FloatOps \<Rightarrow> 'f list \<Rightarrow> Weights \<Rightarrow> nat \<Rightarrow> bool \<Rightarrow> bool" where
  \<comment> \<open>the decoder's scales belong to the channels; an asymmetric table has two numbers per channel\<close>
  "alpha_matches F alpha w channel aq \<longleftrightarrow>
     (if aq then length alpha = 2 * channel \<and> (\<forall>c < channel. f_zero_of F (alpha ! (2 * c)) (alpha ! (2 * c + 1)) =
        (if w_live w ! c then Some (w_zero w ! c) else None))
      else length alpha = channel)"

lemma concat_replicate: "concat (map (\<lambda>c. replicate a (f c)) [0..<m]) = map (\<lambda>k. f (k div a)) [0..<a * m]"
proof (induction m)
  case (Suc m)
  have "[0..<a * Suc m] = [0..<a * m] @ [a * m..<a * m + a]" using upt_add_eq_append [of 0 "a * m" a] by (simp add: add.commute)
  moreover have "map (\<lambda>k. f (k div a)) [a * m..<a * m + a] = replicate a (f m)"
  proof (intro nth_equalityI)
    fix i assume "i < length (map (\<lambda>k. f (k div a)) [a * m..<a * m + a])"
    then have "i < a" by simp
    then show "map (\<lambda>k. f (k div a)) [a * m..<a * m + a] ! i = replicate a (f m) ! i" by simp
  qed simp
  ultimately show ?case using Suc by simp
qed simp

lemma base_blob:
  assumes ok: "weights_ok w area channel" and al: "alpha_matches F alpha w channel aq" and c: "0 < channel"
  shows "sparse_base F alpha [channel, area] (prod_list [channel, area]) bits = Some (partial_blob w area channel aq bits 0)"
proof (cases aq)
  case True
  let ?z = "\<lambda>c :: nat. (case f_zero_of F (alpha ! (2 * c)) (alpha ! (2 * c + 1)) of Some z \<Rightarrow> z - 2 ^ (bits - 1) | None \<Rightarrow> - (2 ^ (bits - 1)))"
  have "map (\<lambda>k. word_of_int (?z (k div area))) [0..<area * channel] = (partial_blob w area channel aq bits 0 :: byte list)"
    unfolding partial_blob_def
  proof (intro map_cong refl)
    fix k assume k: "k \<in> set [0..<area * channel]"
    then have "k < area * channel" by simp
    from channel_of [OF this] have "?z (k div area) = zero_of w area aq bits k"
      using True al ok by (auto simp: alpha_matches_def zero_of_def zero_value_def at_index_def weights_ok_def split: if_splits)
    then show "word_of_int (?z (k div area)) = (word_of_int (if k < 0 then value_of w area aq bits k else zero_of w area aq bits k) :: byte)"
      by simp
  qed
  then show ?thesis using al True c int_dims(4) [OF ok] by (simp add: sparse_base_def alpha_matches_def concat_replicate del: One_nat_def)
next
  case False
  then have "zero_of w area aq bits k = 0" for k by (simp add: zero_of_def zero_value_def)
  then show ?thesis using al c False int_dims(4) [OF ok]
    by (simp add: sparse_base_def alpha_matches_def partial_blob_def mult.commute [of channel area] map_replicate_trivial)
qed


lemma sparse_reads:
  assumes ok: "weights_ok w area channel" and b: "1 \<le> bits" "bits \<le> 8" and range: "in_range w area channel aq bits"
    and al: "alpha_matches F alpha w channel aq"
  shows "\<exists>valid file. WriteSparseQuanBlobs w area channel aq use bits =
      Some (valid, file, if valid then snd (WriteBlobDim [int channel, int area]) else use) \<and>
    (valid \<longrightarrow> (\<forall>quan s len result forceQuant forceFloat. q_shapeInt32 quan = snd (WriteBlobDim [int channel, int area]) \<longrightarrow>
      (\<exists>r. ReadSparseQuanData_c F (file @ s) len alpha result quan forceQuant forceFloat None =
         Some (Some (map (\<lambda>i. word_of_int (value_of w area aq bits i)) [0..<area * channel]), area * channel, r))))"
proof -
  let ?n = "area * channel" and ?o = "2 ^ (bits - 1) :: int" and ?set = "GetWeightSet (2 ^ (bits - 1))"
  let ?U = "SimpleRank (fold InsertSimpleSet ?set []) True"
  let ?M = "fold (\<lambda>i. InsertMap (word_of_nat i) (?U ! i)) [0..<length ?U] []"
  note M = find_weight [OF b]
  define cnt where "cnt i = length (fst (the (foldM (sparse_step w area aq ?o (2 ^ i - 1)) [0..<?n] ([], 0))))" for i :: nat
  have o: "weight_offset bits = Some ?o" using b by (simp add: weight_offset_def)
  have loop: "\<exists>es pre. foldM (sparse_step w area aq ?o (2 ^ k - 1)) [0..<?n] ([], 0) = Some (es, pre) \<and>
      GetSparsity w area ?n aq bits (2 ^ k - 1) = Some (cnt k) \<and> length es = cnt k \<and> sparse_inv w area channel aq bits ?M k ?n es pre"
    if "2 \<le> k" "k \<le> 8" for k
    using sparse_loop [OF ok b that range M order_refl] by (auto simp: GetSparsity_def o cnt_def)
  obtain k nnz where best: "GetBestMaxStep w area ?n aq bits = Some (k, nnz)"
      "k = None \<and> nnz = 0 \<or> (\<exists>i. k = Some i \<and> 2 \<le> i \<and> i \<le> 8 \<and> nnz = cnt i \<and> int nnz < 2 ^ 32)"
    using best_step [of w area ?n aq bits cnt] loop by blast
  have need: "needed_bits (length ?set) = bits" unfolding WeightSet_length [OF b(1)] by (rule needed_bits_power [OF b(1)])
  show ?thesis
  proof (cases "nnz = 0")
    case True
    then show ?thesis using best(1) using int_dims(3) [OF ok] by (simp add: WriteSparseQuanBlobs_def o Let_def need [unfolded One_nat_def] exI [of _ False])
  next
    case False
    then obtain i where i: "k = Some i" "2 \<le> i" "i \<le> 8" "nnz = cnt i" "int nnz < 2 ^ 32" using best(2) by auto
    obtain es pre where es: "foldM (sparse_step w area aq ?o (2 ^ i - 1)) [0..<?n] ([], 0) = Some (es, pre)" "length es = nnz"
        "sparse_inv w area channel aq bits ?M i ?n es pre"
      using loop [OF i(2,3)] i(4) by auto
    have fits: "\<forall>v \<in> set (map fst es). unat v < 2 ^ i" "\<forall>v \<in> set (map snd es). unat v < 2 ^ bits" using es(3) by (auto simp: sparse_inv_def)
    have i1: "1 \<le> i" using i(2) by simp
    have rooms: "i * length (map fst es) \<le> 8 * UP_DIV (i * nnz) 8" "bits * length (map snd es) \<le> 8 * UP_DIV (bits * nnz) 8"
      using UP_DIV_8 es(2) by simp_all
    obtain buf where buf: "FillBuffer (UP_DIV (i * nnz) 8) (map fst es) i = Some buf" "length buf = UP_DIV (i * nnz) 8"
        "SplitBufToArray buf nnz i = Some (map fst es)"
      using fill_split_roundtrip [OF i1 i(3) fits(1) rooms(1)] es(2) by auto
    obtain data where data: "FillBuffer (UP_DIV (bits * nnz) 8) (map snd es) bits = Some data" "length data = UP_DIV (bits * nnz) 8"
        "SplitBufToArray data nnz bits = Some (map snd es)"
      using fill_split_roundtrip [OF b fits(2) rooms(2)] es(2) by auto
    let ?use = "snd (WriteBlobDim [int channel, int area])"
    let ?file = "fst (WriteBlobDim [int channel, int area]) @ le_bytes 4 (int nnz) @ [word_of_nat i] @ buf @
      [word_of_nat (2 ^ bits)] @ map word_of_int ?set @ data"
    have written: "WriteSparseQuanBlobs w area channel aq use bits = Some (True, ?file, ?use)"
      using best(1) False i(1) es(1,2) buf(1) data(1) WeightSet_length [OF b(1)]
      using int_dims(3) [OF ok] by (simp add: WriteSparseQuanBlobs_def o needed_bits_power [OF b(1)] Let_def case_prod_unfold del: of_nat_power)
    have "0 < ?n"
    proof (rule ccontr)
      assume "\<not> 0 < ?n"
      then have "es = []" using es(1) by simp
      then show False using es(2) False by simp
    qed
    then have channel: "0 < channel" by (cases channel) auto
    have "\<exists>r. ReadSparseQuanData_c F (?file @ s) len alpha result quan forceQuant forceFloat None =
        Some (Some (map (\<lambda>i. word_of_int (value_of w area aq bits i)) [0..<?n]), ?n, r)"
      if q: "q_shapeInt32 quan = ?use" for quan s len result forceQuant forceFloat
    proof -
      have d: "ReadBlobDim (?file @ s) 32 (q_shapeInt32 quan) = Some ([channel, area], le_bytes 4 (int nnz) @ [word_of_nat i] @ buf @
          [word_of_nat (2 ^ bits)] @ map word_of_int ?set @ data @ s)"
        using dims_roundtrip [of "[int channel, int area]"] ok unfolding q by (simp add: weights_ok_def)
      have nz: "of_le (le_bytes 4 (int nnz)) = nnz" using i(5) by (simp add: of_le_le_bytes)
      have ib: "unat (hd [word_of_nat i :: byte]) = i" using i(3) by (simp add: unsigned_of_nat take_bit_nat_eq_self)
      have smp: "read_samples ([word_of_nat (2 ^ bits)] @ map word_of_int ?set @ data @ s) = Some (?set, data @ s)"
        using samples_roundtrip [OF b, of "data @ s"] by simp
      have out: "settable_output quan forceQuant forceFloat None = None" by (simp add: settable_output_def)
      have blob: "foldC (sparse_write ?M (None = (None :: byte list option))) (zip (map fst es) (map snd es)) (partial_blob w area channel aq bits 0, 0) =
          ret (partial_blob w area channel aq bits ?n, pre)"
        unfolding zip_map_fst_snd using es(3) by (simp add: sparse_inv_def)
      have full: "partial_blob w area channel aq bits ?n = map (\<lambda>i. word_of_int (value_of w area aq bits i)) [0..<?n]"
        by (simp add: partial_blob_def)
      show ?thesis
        unfolding ReadSparseQuanData_c_def d bind.bind_lunit prod.case read_bytes_append [OF le_bytes_length]
        unfolding nz Let_def append_Cons append_Nil read_bytes_Cons(1) bind.bind_lunit prod.case ib read_bytes_append [OF buf(2)] buf(3)
        unfolding smp [unfolded append_Cons append_Nil] bind.bind_lunit prod.case need read_bytes_append [OF data(2)] data(3)
          base_blob [OF ok al channel] out option.case blob full
        by (simp add: mult.commute)
    qed
    then show ?thesis using written by (intro exI [of _ True] exI [of _ ?file]) simp
  qed
qed

text \<open>A value above what the bits can hold is clamped by the dense coding; the sparse coding does not find it in the map and
  writes index 0, which is the least value.\<close>

lemma sparse_out_of_range:
  assumes "1 \<le> offset" "offset \<le> v"
  shows "clamp_value offset v = offset - 1" "map_weight offset v = 0" "GetWeightSet offset ! 0 = - offset"
  using assms by (simp_all add: clamp_value_def map_weight_def GetWeightSet_def upto.simps [of "- offset"])

text \<open>
  C9: \<open>WriteSparseQuanBlobs\<close> never writes behind the arrays it has counted the entries for; when it succeeds,
  \<open>ReadSparseQuanData_c\<close> with the scales of the same channels gives every weight back at its place, symmetric or
  asymmetric, if no value lies outside of what the bits can hold.
\<close>

theorem sparse_roundtrip:
  assumes "weights_ok w area channel" "1 \<le> bits" "bits \<le> 8" "in_range w area channel aq bits" "alpha_matches F alpha w channel aq"
  shows "\<exists>valid file use32. WriteSparseQuanBlobs w area channel aq use bits = Some (valid, file, use32) \<and>
    (valid \<longrightarrow> (\<forall>quan s len result forceQuant forceFloat. q_shapeInt32 quan = use32 \<longrightarrow>
      (\<exists>r. ReadSparseQuanData_c F (file @ s) len alpha result quan forceQuant forceFloat None =
         Some (Some (map (\<lambda>i. word_of_int (value_of w area aq bits i)) [0..<area * channel]), area * channel, r))))"
  using sparse_reads [OF assms, of use] by fastforce

text \<open>Integers in the place of floating point numbers, for examples.\<close>

definition int_ops :: "int FloatOps" where
  "int_ops = \<lparr>f_zero_of = (\<lambda>m scale. if scale > 0 then Some (- m div scale) else None), f_int = id, f_add = (+), f_sub = (-),
    f_mul = (*), f_tiny = (\<lambda>x. x = 0), f_half = (\<lambda>a b. uint a + 256 * uint b)\<rparr>"

theorem sparse_roundtrip_witness:
  "let w = \<lparr>w_live = [True, False], w_zero = [2, 0], w_round = [2, 7, 2, 9, 9, 9]\<rparr>; alpha = [-6, 3, 0, 0] in
   \<exists>file use32. WriteSparseQuanBlobs w 3 2 True False 3 = Some (True, file, use32) \<and>
     (\<forall>quan s len result forceQuant forceFloat. q_shapeInt32 quan = use32 \<longrightarrow>
       (\<exists>r. ReadSparseQuanData_c int_ops (file @ s) len alpha result quan forceQuant forceFloat None =
          Some (Some [-2, 3, -2, -4, -4, -4], 6, r)))"
proof -
  let ?w = "\<lparr>w_live = [True, False], w_zero = [2, 0], w_round = [2, 7, 2, 9, 9, 9]\<rparr>"
  have v: "map (\<lambda>i. word_of_int (value_of ?w 3 True 3 i)) [0..<3 * 2] = [-2, 3, -2, -4, -4, -4 :: byte]" by code_simp
  have "GetSparsity ?w 3 (3 * 2) True 3 (2 ^ 2 - 1) = Some 2" by code_simp
  moreover have "map (\<lambda>i. GetSparsity ?w 3 (3 * 2) True 3 (2 ^ i - 1)) [3, 4, 5, 6, 7, 8] = replicate 6 (Some 1)" by code_simp
  moreover have "[2..<9] = [2, 3, 4, 5, 6, 7, 8 :: nat]" "replicate 6 (Some 1) = [Some 1, Some 1, Some 1, Some 1, Some 1, Some (1 :: nat)]"
    by (simp_all add: upt_rec numeral_eq_Suc)
  ultimately have "GetBestMaxStep ?w 3 (3 * 2) True 3 = Some (Some 2, 2)" by (simp add: GetBestMaxStep_def UP_DIV_def)
  moreover have "weight_offset 3 = Some 4" "needed_bits (length (GetWeightSet 4)) = 3" by code_simp+
  moreover have "int_size 3 2 = Some 6" by (simp add: int_size_def)
  ultimately have "valid" if "WriteSparseQuanBlobs ?w 3 2 True False 3 = Some (valid, bytes, use32)" for valid bytes use32
    using that by (cases "WriteBlobDim [2, 3]") (auto simp: WriteSparseQuanBlobs_def Let_def bind_eq_Some_conv split: if_splits prod.splits)
  moreover have "weights_ok ?w 3 2" by (simp add: weights_ok_def)
  moreover have "in_range ?w 3 2 True 3" by code_simp
  moreover have "alpha_matches int_ops [-6, 3, 0, 0] ?w 2 True" by code_simp
  ultimately show ?thesis
    using sparse_roundtrip [of ?w 3 2 3 True int_ops "[-6, 3, 0, 0]" False] unfolding v Let_def by fastforce
qed

end
