(* ===== verification/WeightLoad.thy ===== *)
theory WeightLoad
  imports WeightSparse
begin

unbundle bit_operations_syntax

text \<open>
  From the encoder to the weights a convolution computes with: \<open>load\<close> of what \<open>encode\<close> made, whichever coding it chose.
\<close>

section \<open>Back to floating point\<close>

definition dequantized :: "'f FloatOps \<Rightarrow> 'f list \<Rightarrow> bool \<Rightarrow> int \<Rightarrow> nat \<Rightarrow> int \<Rightarrow> 'f" where
  \<comment> \<open>the weight with the quantized value \<open>v\<close> of the channel \<open>c\<close>; \<open>m\<close> is the least quantized value\<close>
  "dequantized F scale aq m c v = (if aq
     then f_add F (f_mul F (f_int F v) (scale ! (2 * c + 1)))
       (if m < 0 then f_sub F (scale ! (2 * c)) (f_mul F (f_int F m) (scale ! (2 * c + 1))) else scale ! (2 * c))
     else f_add F (f_mul F (f_int F v) (scale ! c)) (f_int F 0))"

lemma shift_alpha_nth:
  assumes "c < n" "length alpha = 2 * n"
  shows "shift_alpha F m alpha ! (2 * c) = (if m < 0 then f_sub F (alpha ! (2 * c)) (f_mul F (f_int F m) (alpha ! (2 * c + 1))) else alpha ! (2 * c))"
    "shift_alpha F m alpha ! (2 * c + 1) = alpha ! (2 * c + 1)" "length (shift_alpha F m alpha) = length alpha"
proof -
  let ?F = "\<lambda>c alpha. alpha[2 * c := f_sub F (alpha ! (2 * c)) (f_mul F (f_int F m) (alpha ! (2 * c + 1)))]"
  have "k \<le> n \<Longrightarrow> length (fold ?F [0..<k] alpha) = 2 * n \<and>
      (\<forall>c < n. fold ?F [0..<k] alpha ! (2 * c + 1) = alpha ! (2 * c + 1) \<and>
        fold ?F [0..<k] alpha ! (2 * c) = (if c < k then f_sub F (alpha ! (2 * c)) (f_mul F (f_int F m) (alpha ! (2 * c + 1))) else alpha ! (2 * c)))" for k
  proof (induction k)
    case (Suc k)
    have "2 * c + 1 \<noteq> 2 * k" for c by presburger
    then show ?case using Suc by (auto simp: nth_list_update less_Suc_eq assms(2))
  qed (simp add: assms(2))
  from this [of n] assms(1)
  show "shift_alpha F m alpha ! (2 * c) = (if m < 0 then f_sub F (alpha ! (2 * c)) (f_mul F (f_int F m) (alpha ! (2 * c + 1))) else alpha ! (2 * c))"
    "shift_alpha F m alpha ! (2 * c + 1) = alpha ! (2 * c + 1)" "length (shift_alpha F m alpha) = length alpha"
    by (auto simp: shift_alpha_def assms(2))
qed

lemma concat_channels: "concat (map (\<lambda>c. map (\<lambda>v. g c (c * a + v)) [0..<a]) [0..<m]) = map (\<lambda>k. g (k div a) k) [0..<a * m]"
proof (induction m)
  case (Suc m)
  have "[0..<a * Suc m] = [0..<a * m] @ [a * m..<a * m + a]" using upt_add_eq_append [of 0 "a * m" a] by (simp add: add.commute)
  moreover have "map (\<lambda>v. g m (m * a + v)) [0..<a] = map (\<lambda>k. g (k div a) k) [a * m..<a * m + a]"
  proof (intro nth_equalityI)
    fix i assume "i < length (map (\<lambda>v. g m (m * a + v)) [0..<a])"
    then have "i < a" by simp
    then show "map (\<lambda>v. g m (m * a + v)) [0..<a] ! i = map (\<lambda>k. g (k div a) k) [a * m..<a * m + a] ! i" by (simp add: mult.commute)
  qed simp
  ultimately show ?case using Suc by simp
qed simp

lemma to_float_dequantized:
  assumes n: "0 < channel" and alpha: "length (ic_alpha r) = (if ic_asymmetric r then 2 * channel else channel)"
    and w: "take (area * channel) weight = map (\<lambda>i. word_of_int (f i)) [0..<area * channel]"
    and size: "area * channel < 2 ^ 31" and f: "\<forall>i < area * channel. - 128 \<le> f i \<and> f i < 128"
  shows "to_float F r weight (area * channel) = Some (map (\<lambda>i. if ic_asymmetric r
      then f_add F (f_mul F (f_int F (f i)) (ic_alpha r ! (2 * (i div area) + 1))) (ic_alpha r ! (2 * (i div area)))
      else f_add F (f_mul F (f_int F (f i)) (ic_alpha r ! (i div area))) (f_int F 0)) [0..<area * channel])"
proof -
  let ?g = "\<lambda>c i. do { srcW \<leftarrow> at_index weight i;
            Some (if ic_asymmetric r
              then f_add F (f_mul F (f_int F (sint srcW)) (ic_alpha r ! (2 * c + 1))) (ic_alpha r ! (2 * c))
              else f_add F (f_mul F (f_int F (sint srcW)) (ic_alpha r ! c)) (f_int F 0)) }"
  have count: "(if ic_asymmetric r then length (ic_alpha r) div 2 else length (ic_alpha r)) = channel" using alpha by simp
  have part: "area * channel div channel = area" using n by simp
  have at: "at_index weight i = Some (word_of_int (f i))" if i: "i < area * channel" for i
  proof -
    have "length (take (area * channel) weight) = area * channel" unfolding w by simp
    then have "i < length weight" using i by simp
    moreover have "weight ! i = take (area * channel) weight ! i" using i by simp
    ultimately show ?thesis using i unfolding w by (simp add: at_index_def)
  qed
  have m: "map (\<lambda>k. ?g (k div area) k) [0..<area * channel] = map (\<lambda>i. Some (if ic_asymmetric r
      then f_add F (f_mul F (f_int F (f i)) (ic_alpha r ! (2 * (i div area) + 1))) (ic_alpha r ! (2 * (i div area)))
      else f_add F (f_mul F (f_int F (f i)) (ic_alpha r ! (i div area))) (f_int F 0))) [0..<area * channel]"
    by (intro map_cong refl) (use at f sint_byte in simp)
  then show ?thesis
    unfolding to_float_def count part Let_def concat_channels [of ?g area channel] m those_some using n size by simp
qed


section \<open>Encoding and loading\<close>

lemma in_range_dense:
  "in_range w area channel aq bits \<Longrightarrow> plain_blob w area channel aq bits = map (\<lambda>i. word_of_int (value_of w area aq bits i)) [0..<area * channel]"
  by (auto simp: plain_blob_def in_range_def dense_value_def clamp_value_def intro!: arg_cong [of _ _ word_of_int])

lemma in_range_bytes:
  assumes "in_range w area channel aq bits" "1 \<le> bits" "bits \<le> 8" "i < area * channel"
  shows "- 128 \<le> value_of w area aq bits i" "value_of w area aq bits i < 128"
  using assms(1,4) power_le_128 [OF assms(2,3)] by (force simp: in_range_def)+

text \<open>The readers leave the scales alone.\<close>

lemma read_linear48_alpha: "read_linear48 buf k n result forceQuant out = Some (b, l, r) \<Longrightarrow> ic_alpha r = ic_alpha result"
  by (auto simp: read_linear48_def Let_def bind_eq_Some_conv split: if_splits option.splits prod.splits)

lemma read_indexed_alpha: "read_indexed buf k n isLinear result forceQuant out len = Some (b, l, r) \<Longrightarrow> ic_alpha r = ic_alpha result"
  by (auto simp: read_indexed_def Let_def bind_eq_Some_conv split: if_splits option.splits prod.splits)

lemma ReadQuanData_c_alpha: "ReadQuanData_c s len result quan forceQuant forceFloat out = Some (b, l, r) \<Longrightarrow> ic_alpha r = ic_alpha result"
  by (auto simp: ReadQuanData_c_def Let_def bind_eq_Some_conv split: if_splits dest!: read_linear48_alpha read_indexed_alpha)

lemma ReadSparseQuanData_c_alpha:
  "ReadSparseQuanData_c F s len alpha result quan forceQuant forceFloat out = Some (b, l, r) \<Longrightarrow> ic_alpha r = ic_alpha result"
  by (auto simp: ReadSparseQuanData_c_def Let_def bind_eq_Some_conv split: if_splits option.splits prod.splits)

text \<open>Whichever of the two codings is chosen, its reader gives the quantized values.\<close>

lemma encoded_reads:
  fixes F :: "'f FloatOps"
  assumes ok: "weights_ok w area channel" and b: "1 \<le> bits" "bits \<le> 8" and range: "in_range w area channel aq bits"
    and al: "alpha_matches F alpha w channel aq" and c: "0 < channel"
  shows "\<exists>t bytes. encode zero one (Some w) alpha area channel aq qptr m bits detectSparse =
      Some \<lparr>q_buffer = bytes, q_alpha = alpha, q_type = t, q_quantScale = one, q_aMaxOrBits = int bits, q_aMin = if aq then m else 0,
        q_readType = if aq then int channel else 0, q_has_scaleInt = False,
        q_shapeInt32 = snd (WriteBlobDim [int channel, int area]), q_weightSize = 0, q_index = None\<rparr> \<and>
    (\<forall>quan result forceFloat. q_shapeInt32 quan = snd (WriteBlobDim [int channel, int area]) \<longrightarrow>
      (t = 1 \<and> (\<exists>blob r. ReadQuanData_c bytes 0 result quan False forceFloat None = Some (Some blob, area * channel, r) \<and>
          take (area * channel) blob = map (\<lambda>i. word_of_int (value_of w area aq bits i)) [0..<area * channel]) \<or>
       t = 2 \<and> (\<exists>blob r. ReadSparseQuanData_c F bytes 0 alpha result quan False forceFloat None = Some (Some blob, area * channel, r) \<and>
          take (area * channel) blob = map (\<lambda>i. word_of_int (value_of w area aq bits i)) [0..<area * channel])))"
proof -
  let ?use = "snd (WriteBlobDim [int channel, int area])"
  let ?vals = "map (\<lambda>i. word_of_int (value_of w area aq bits i) :: byte) [0..<area * channel]"
  obtain cq where cq: "WriteCQBlobs w area channel aq False bits = Some (cq, ?use)"
      "\<And>(quan :: 'f IDSTQuan) result forceFloat. q_shapeInt32 quan = ?use \<Longrightarrow>
        \<exists>blob r. ReadQuanData_c cq 0 result quan False forceFloat None = Some (Some blob, area * channel, r) \<and> take (area * channel) blob = ?vals"
    using dense_reads [OF ok b, of False aq False] in_range_dense [OF range] by (metis append_Nil2)
  obtain valid sq where sq: "WriteSparseQuanBlobs w area channel aq ?use bits = Some (valid, sq, ?use)"
      "\<And>quan result forceFloat. valid \<Longrightarrow> q_shapeInt32 quan = ?use \<Longrightarrow>
        \<exists>r. ReadSparseQuanData_c F sq 0 alpha result quan False forceFloat None = Some (Some ?vals, area * channel, r)"
    using sparse_reads [OF ok b range al, of ?use] by (metis append_Nil2)
  have all: "take (area * channel) ?vals = ?vals" by simp
  have guard: "\<not> ((if aq then length alpha div 2 else length alpha) > channel \<and> channel = 0)" using c by simp
  show ?thesis
  proof (cases "detectSparse \<and> valid \<and> \<not> length cq \<le> length sq")
    case True
    then have "encode zero one (Some w) alpha area channel aq qptr m bits detectSparse =
      Some \<lparr>q_buffer = sq, q_alpha = alpha, q_type = 2, q_quantScale = one, q_aMaxOrBits = int bits, q_aMin = if aq then m else 0,
        q_readType = if aq then int channel else 0, q_has_scaleInt = False,
        q_shapeInt32 = ?use, q_weightSize = 0, q_index = None\<rparr>"
      using cq(1) sq(1) guard by (cases qptr) (simp_all add: encode_def Let_def)
    moreover have "\<exists>blob r. ReadSparseQuanData_c F sq 0 alpha result quan False forceFloat None = Some (Some blob, area * channel, r) \<and>
          take (area * channel) blob = ?vals" if "q_shapeInt32 quan = ?use" for quan result forceFloat
      using sq(2) [of quan result forceFloat] True that all by blast
    ultimately show ?thesis by (intro exI [of _ 2] exI [of _ sq]) blast
  next
    case False
    then have "encode zero one (Some w) alpha area channel aq qptr m bits detectSparse =
      Some \<lparr>q_buffer = cq, q_alpha = alpha, q_type = 1, q_quantScale = one, q_aMaxOrBits = int bits, q_aMin = if aq then m else 0,
        q_readType = if aq then int channel else 0, q_has_scaleInt = False,
        q_shapeInt32 = ?use, q_weightSize = 0, q_index = None\<rparr>"
      using cq(1) sq(1) guard by (cases qptr) (auto simp: encode_def Let_def)
    then show ?thesis using cq(2) by (intro exI [of _ 1] exI [of _ cq]) blast
  qed
qed

text \<open>What \<open>load\<close> makes of the bytes a reader has given it.\<close>

abbreviation encoded :: "byte list \<Rightarrow> 'f list \<Rightarrow> int \<Rightarrow> 'f \<Rightarrow> nat \<Rightarrow> bool \<Rightarrow> int \<Rightarrow> nat \<Rightarrow> bool \<Rightarrow> 'f IDSTQuan" where
  \<comment> \<open>the table \<open>encode\<close> gives\<close>
  "encoded bytes scale t one bits aq clampMin channel use32 \<equiv>
     \<lparr>q_buffer = bytes, q_alpha = scale, q_type = t, q_quantScale = one, q_aMaxOrBits = int bits, q_aMin = if aq then clampMin else 0,
      q_readType = if aq then int channel else 0, q_has_scaleInt = False, q_shapeInt32 = use32, q_weightSize = 0, q_index = None\<rparr>"

abbreviation fresh :: "'f list \<Rightarrow> 'f Int8Common" where
  \<comment> \<open>the result before the weights are read\<close>
  "fresh scale \<equiv> \<lparr>ic_weight = None, ic_alpha = scale, ic_weightFloat = None, ic_asymmetric = False,
     ic_weightMap = [], ic_canUseInt4 = False, ic_originBits = 8\<rparr>"

lemma to_float_shifted:
  assumes ok: "weights_ok w area channel" and b: "1 \<le> bits" "bits \<le> 8" and range: "in_range w area channel aq bits"
    and al: "alpha_matches F scale w channel aq" and c: "0 < channel"
    and r: "ic_asymmetric r = aq" "ic_alpha r = (if aq then shift_alpha F m scale else scale)"
    and blob: "take (area * channel) blob = map (\<lambda>i. word_of_int (value_of w area aq bits i)) [0..<area * channel]"
  shows "to_float F r blob (area * channel) =
    Some (map (\<lambda>i. dequantized F scale aq m (i div area) (value_of w area aq bits i)) [0..<area * channel])"
proof -
  let ?n = "area * channel"
  have alpha: "length scale = (if aq then 2 * channel else channel)" using al by (simp add: alpha_matches_def split: if_splits)
  have size: "?n < 2 ^ 31" using ok by (simp add: weights_ok_def)
  have bytes: "\<forall>i < ?n. - 128 \<le> value_of w area aq bits i \<and> value_of w area aq bits i < 128"
    using in_range_bytes [OF range b] by blast
  have len: "length (ic_alpha r) = (if ic_asymmetric r then 2 * channel else channel)"
    using r alpha shift_alpha_nth(3) [OF c, of scale F m] by simp
  have shifted: "shift_alpha F m scale ! (2 * (i div area)) = (if m < 0
        then f_sub F (scale ! (2 * (i div area))) (f_mul F (f_int F m) (scale ! (2 * (i div area) + 1))) else scale ! (2 * (i div area)))"
      "shift_alpha F m scale ! (2 * (i div area) + 1) = scale ! (2 * (i div area) + 1)" if "aq" "i < ?n" for i
    using shift_alpha_nth(1,2) [OF channel_of [OF that(2)], of scale F m] alpha that(1) by simp_all
  show ?thesis
    unfolding to_float_dequantized [OF c len blob size bytes] option.inject r
    by (intro map_cong refl) (use shifted in \<open>auto simp: dequantized_def simp del: One_nat_def\<close>)
qed

lemma load_finish:
  assumes read: "t = 1 \<and> ReadQuanData_c bytes 0 (fresh scale) quan False forceFloat None = Some (Some blob, n, r) \<or>
      t = 2 \<and> ReadSparseQuanData_c F bytes 0 scale (fresh scale) quan False forceFloat None = Some (Some blob, n, r)"
    and quan: "quan = encoded bytes scale t (f_int F 1) bits aq clampMin channel use32" and c: "0 < channel"
    and float: "\<And>r. ic_asymmetric r = aq \<Longrightarrow>
      ic_alpha r = (if aq then shift_alpha F (if clampMin = 0 then - 128 else clampMin) scale else scale) \<Longrightarrow> to_float F r blob n = Some floats"
  shows "\<exists>r. load F quan forceFloat False = Some (Some r) \<and> ic_weightFloat r = Some floats"
proof -
  let ?alpha = "if aq then shift_alpha F (if clampMin = 0 then - 128 else clampMin) scale else scale"
  let ?r = "r\<lparr>ic_asymmetric := aq, ic_weight := Some blob, ic_alpha := ?alpha\<rparr>"
  have "to_float F ?r blob n = Some floats" by (rule float) simp_all
  moreover have "ic_alpha r = scale" using read ReadQuanData_c_alpha ReadSparseQuanData_c_alpha by fastforce
  ultimately have "load F quan forceFloat False = Some (Some (?r\<lparr>ic_weightFloat := Some floats, ic_weight := None, ic_alpha := []\<rparr>))"
    using read c unfolding quan by (auto simp: load_def clamp_min_def)
  then show ?thesis by simp
qed

text \<open>
  C7: what a model's weights are after they have been quantized, written and loaded, if every quantized value fits the bits and
  there is one scale per channel: for each coding, one to eight bits and either symmetry, \<open>encode\<close> succeeds and \<open>load\<close> gives for each weight the
  quantized value times its channel's scale, plus, of an asymmetric channel, its offset: the minimum, moved by \<open>clampMin\<close> times the scale
  when \<open>clampMin\<close> (-128 if it is 0) is negative; in the arithmetic of the program.
\<close>

theorem load_encode:
  fixes F :: "'f FloatOps"
  assumes ok: "weights_ok w area channel" and b: "1 \<le> bits" "bits \<le> 8" and range: "in_range w area channel aq bits"
    and al: "alpha_matches F scale w channel aq" and c: "0 < channel"
  shows "\<exists>quan r. encode zero (f_int F 1) (Some w) scale area channel aq qptr clampMin bits detectSparse = Some quan \<and>
    load F quan forceFloat False = Some (Some r) \<and>
    ic_weightFloat r = Some (map (\<lambda>i. dequantized F scale aq (if clampMin = 0 then - 128 else clampMin) (i div area)
      (value_of w area aq bits i)) [0..<area * channel])"
proof -
  let ?use = "snd (WriteBlobDim [int channel, int area])" and ?n = "area * channel"
  obtain t bytes where e: "encode zero (f_int F 1) (Some w) scale area channel aq qptr clampMin bits detectSparse =
      Some (encoded bytes scale t (f_int F 1) bits aq clampMin channel ?use)" (is "_ = Some ?quan") and
      reads: "\<And>quan result forceFloat. q_shapeInt32 quan = ?use \<Longrightarrow> \<exists>blob r.
      (t = 1 \<and> ReadQuanData_c bytes 0 result quan False forceFloat None = Some (Some blob, ?n, r) \<or>
       t = 2 \<and> ReadSparseQuanData_c F bytes 0 scale result quan False forceFloat None = Some (Some blob, ?n, r)) \<and>
      take ?n blob = map (\<lambda>i. word_of_int (value_of w area aq bits i)) [0..<?n]"
    using encoded_reads [OF ok b range al c, of zero "f_int F 1" qptr clampMin detectSparse] by blast
  have "q_shapeInt32 ?quan = ?use" by simp
  from reads [OF this, of "fresh scale" forceFloat] obtain blob r where
    "t = 1 \<and> ReadQuanData_c bytes 0 (fresh scale) ?quan False forceFloat None = Some (Some blob, ?n, r) \<or>
     t = 2 \<and> ReadSparseQuanData_c F bytes 0 scale (fresh scale) ?quan False forceFloat None = Some (Some blob, ?n, r)"
    "take ?n blob = map (\<lambda>i. word_of_int (value_of w area aq bits i)) [0..<?n]" by blast
  from load_finish [OF this(1) refl c to_float_shifted [OF ok b range al c _ _ this(2)]] e show ?thesis by blast
qed

theorem load_encode_witness:
  "let w = \<lparr>w_live = [True, False], w_zero = [2, 0], w_round = [2, 7, 2, 9, 9, 9]\<rparr>; scale = [-6, 3, 5, 0] in
   \<exists>quan r. encode 0 1 (Some w) scale 3 2 True None (-4) 3 True = Some quan \<and>
     load int_ops quan False False = Some (Some r) \<and> ic_weightFloat r = Some [0, 15, 0, 5, 5, 5]"
proof -
  let ?w = "\<lparr>w_live = [True, False], w_zero = [2, 0], w_round = [2, 7, 2, 9, 9, 9]\<rparr>"
  have "map (\<lambda>i. dequantized int_ops [-6, 3, 5, 0] True (-4) (i div 3) (value_of ?w 3 True 3 i)) [0..<3 * 2] = [0, 15, 0, 5, 5, 5]"
    by code_simp
  moreover have "f_int int_ops 1 = 1" by (simp add: int_ops_def)
  moreover have "weights_ok ?w 3 2" by (simp add: weights_ok_def)
  moreover have "in_range ?w 3 2 True 3" "alpha_matches int_ops [-6, 3, 5, 0] ?w 2 True" by code_simp+
  ultimately show ?thesis using load_encode [of ?w 3 2 3 True int_ops "[-6, 3, 5, 0]" 0 None "-4" True False] by simp
qed

end
