(* ===== verification/SizeDispatch.thy ===== *)
theory SizeDispatch
  imports ShapeMisc ShapeConv ShapeSlicing
begin

text \<open>
  The dispatch of shape inference: \<open>SizeComputerSuite::search\<close> and \<open>SizeComputer::computeOutputSize\<close>
  (\<open>source/shape/SizeComputer.cpp\<close>), \<open>computeShapeForBlob\<close> (\<open>source/utils/InitNet.cpp\<close>), and the
  shape part of the driver loop \<open>GeometryComputerUtils::shapeComputeAndGeometryTransform\<close>. What a
  registered computer promises is the locale \<open>size_suite\<close> of \<open>DispatchSafety\<close>.

  Tensors are values here: an input that is also an output of the same operation is read as it was before
  the operation, which is what the computers see except where they write the output before they read the
  input. The loop is taken with the shape cache missing on every operation, and without the execution of
  the constant operations and the release of the memory of the outputs.
\<close>

section \<open>Dispatch\<close>

type_synonym SizeComputer = "Tensor list \<Rightarrow> Tensor list \<Rightarrow> Tensor list option option"

record Blob =
  bl_dims :: "int list option"
  bl_dataType :: DataType
  bl_dataFormat :: MNN_DATA_FORMAT

datatype 'op SizeOp =
    CopyOp                         \<comment> \<open>a null pointer\<close>
  | BlobOp Blob
  | LoopOp "Blob list option"      \<comment> \<open>\<open>extraTensorInfos\<close>\<close>
  | ControlOp                      \<comment> \<open>\<open>While\<close> and \<open>If\<close>\<close>
  | PlainOp 'op

definition computeShapeForBlob :: "Blob \<Rightarrow> Tensor \<Rightarrow> Tensor option" where
  \<comment> \<open>the result \<open>zeroShape\<close> is not used by the dispatch\<close>
  "computeShapeForBlob parameter output = do {
     u \<leftarrow> (case bl_dims parameter of
            Some ds \<Rightarrow> set_dims ds output
          | None \<Rightarrow> Some (output\<lparr>t_dimensions := 0\<rparr>));
     setLinearLayout ((setType (if bl_dataType parameter = DT_HALF then DT_FLOAT else bl_dataType parameter) u)\<lparr>t_format := bl_dataFormat parameter\<rparr>) }"

definition loop_output :: "Blob \<Rightarrow> Tensor \<Rightarrow> Tensor option" where
  "loop_output blob output = (
     let o1 = setType (bl_dataType blob) (output\<lparr>t_format := bl_dataFormat blob\<rparr>)
     in case bl_dims blob of
          Some ds \<Rightarrow> set_dims ds o1
        | None \<Rightarrow> Some (o1\<lparr>t_dimensions := 0\<rparr>))"

definition has_negative :: "Tensor \<Rightarrow> bool option" where
  "has_negative t = loop 0 (t_dimensions t) (\<lambda>i b. do { l \<leftarrow> tlength t i; Some (b \<or> l < 0) }) False"

definition default_same :: "bool \<Rightarrow> Tensor list \<Rightarrow> Tensor list \<Rightarrow> Tensor list option option" where
  \<comment> \<open>\<open>aliased\<close>: the first input and the first output are the same tensor\<close>
  "default_same aliased inputs outputs =
     (if length inputs \<ge> 1 \<and> (length outputs = 1 \<or> length outputs = length inputs)
      then (if aliased then ret outputs
            else do {
              us \<leftarrow> foldM (\<lambda>(input, output) acc. do {
                  u \<leftarrow> copyDims input output;
                  Some (acc @ [u\<lparr>t_dimensions := t_dimensions input, t_type := t_type input, t_format := t_format input\<rparr>]) })
                (zip inputs outputs) [];
              ret us })
      else ret_false)"

definition computeOutputSize ::
  "('op \<Rightarrow> SizeComputer option) \<Rightarrow> bool \<Rightarrow> 'op SizeOp \<Rightarrow> SizeComputer" where
  "computeOutputSize search aliased op inputs outputs =
     (case op of
        CopyOp \<Rightarrow> (case default_same aliased inputs outputs of
            Some None \<Rightarrow> None   \<comment> \<open>the message reads the type of the null operation\<close>
          | r \<Rightarrow> r)
      | BlobOp blob \<Rightarrow> (case outputs of
            [] \<Rightarrow> None
          | output # others \<Rightarrow> do { u \<leftarrow> computeShapeForBlob blob output; ret (u # others) })
      | LoopOp None \<Rightarrow> ret_false
      | LoopOp (Some infos) \<Rightarrow> do {
            us \<leftarrow> foldM (\<lambda>(i, output) acc. do { blob \<leftarrow> arr_at infos i; u \<leftarrow> loop_output blob output; Some (acc @ [u]) })
              (zip [0 .. int (length outputs) - 1] outputs) [];
            ret us }
      | ControlOp \<Rightarrow> ret_false
      | PlainOp p \<Rightarrow> do {
            negative \<leftarrow> foldM (\<lambda>t b. do { n \<leftarrow> has_negative t; Some (b \<or> n) }) inputs False;
            if negative then ret_false
            else (case search p of
                Some computer \<Rightarrow> computer inputs outputs
              | None \<Rightarrow> default_same aliased inputs outputs) })"

section \<open>The suite of registered computers\<close>

text \<open>
  \<open>SizeComputerSuite\<close>: the computers under the types of their operators. An operator is its type and what its parameters
  hold; a computer reads the parameters, the inputs and the outputs.
\<close>

type_synonym ('ty, 'p) Suite = "'ty \<Rightarrow> ('p \<Rightarrow> SizeComputer) option"

definition SizeComputerSuite_init :: "('ty, 'p) Suite" where
  "SizeComputerSuite_init = (\<lambda>_. None)"

definition SizeComputerSuite_insert :: "('p \<Rightarrow> SizeComputer) \<Rightarrow> 'ty \<Rightarrow> ('ty, 'p) Suite \<Rightarrow> ('ty, 'p) Suite" where
  "SizeComputerSuite_insert computer type suite = suite(type := Some computer)"

definition SizeComputerSuite_search :: "('ty, 'p) Suite \<Rightarrow> 'ty \<Rightarrow> ('p \<Rightarrow> SizeComputer) option" where
  "SizeComputerSuite_search suite name = (case suite name of None \<Rightarrow> None | Some computer \<Rightarrow> Some computer)"

definition registerShapeOps :: "('ty \<times> ('p \<Rightarrow> SizeComputer)) list \<Rightarrow> ('ty, 'p) Suite" where
  \<comment> \<open>one insertion for each \<open>REGISTER_SHAPE\<close>\<close>
  "registerShapeOps regs = fold (\<lambda>(type, computer). SizeComputerSuite_insert computer type) regs SizeComputerSuite_init"

definition search_op :: "('ty, 'p) Suite \<Rightarrow> 'ty \<times> 'p \<Rightarrow> SizeComputer option" where
  "search_op suite op = map_option (\<lambda>computer. computer (snd op)) (SizeComputerSuite_search suite (fst op))"

text \<open>Computers of one output; a missing input or output is an access outside the vector.\<close>

definition on_first :: "(Tensor list \<Rightarrow> Tensor \<Rightarrow> Tensor option option) \<Rightarrow> SizeComputer" where
  "on_first f inputs outputs =
     (case outputs of
        [] \<Rightarrow> None
      | output # others \<Rightarrow> andThen (f inputs output) (\<lambda>u. ret (u # others)))"

definition with_input :: "(Tensor \<Rightarrow> Tensor \<Rightarrow> Tensor option option) \<Rightarrow> Tensor list \<Rightarrow> Tensor \<Rightarrow> Tensor option option" where
  "with_input f inputs output = do { input \<leftarrow> arr_at inputs 0; f input output }"

section \<open>The driver loop\<close>

record 'op OpInfo =
  oi_op :: "'op SizeOp"
  oi_inputs :: "nat list"
  oi_outputs :: "nat list"

definition fetch :: "nat list \<Rightarrow> Tensor list \<Rightarrow> Tensor list option" where
  "fetch ids tensors = foldM (\<lambda>i acc. do { t \<leftarrow> arr_at tensors (int i); Some (acc @ [t]) }) ids []"

definition put_all :: "nat list \<Rightarrow> Tensor list \<Rightarrow> Tensor list \<Rightarrow> Tensor list" where
  "put_all ids ts tensors = fold (\<lambda>(i, t) xs. xs[i := t]) (zip ids ts) tensors"

definition adjust_all :: "nat list \<Rightarrow> Tensor list \<Rightarrow> Tensor list option" where
  "adjust_all ids tensors =
     foldM (\<lambda>i xs. do { t \<leftarrow> arr_at xs (int i); u \<leftarrow> adjustTensorForCompability t; Some (xs[i := u]) }) ids tensors"

text \<open>One operation of the network: \<open>None\<close> inside is the result \<open>COMPUTE_SIZE_ERROR\<close>.\<close>

definition shape_step :: "('op \<Rightarrow> SizeComputer option) \<Rightarrow> 'op OpInfo \<Rightarrow> Tensor list \<Rightarrow> Tensor list option option" where
  "shape_step search info tensors = do {
     inputs \<leftarrow> fetch (oi_inputs info) tensors;
     outputs \<leftarrow> fetch (oi_outputs info) tensors;
     let aliased = (oi_inputs info \<noteq> [] \<and> oi_outputs info \<noteq> [] \<and> hd (oi_inputs info) = hd (oi_outputs info));
     andThen (computeOutputSize search aliased (oi_op info) inputs outputs) (\<lambda>us. do {
       xs \<leftarrow> adjust_all (oi_outputs info) (put_all (oi_outputs info) us tensors);
       ys \<leftarrow> adjust_all (oi_inputs info) xs;
       ret ys }) }"

definition shape_run :: "('op \<Rightarrow> SizeComputer option) \<Rightarrow> 'op OpInfo list \<Rightarrow> Tensor list \<Rightarrow> Tensor list option option" where
  "shape_run search infos tensors = foldC (shape_step search) infos tensors"

end
