(* ===== verification/DispatchSafety.thy ===== *)
theory DispatchSafety
  imports SizeDispatch SlicingFacts BlockFacts
begin

text \<open>
  Shape inference keeps tensors well-formed. The contract of a registered shape computer is the locale
  \<open>size_suite\<close>; the dispatch and the driver loop are proved once against it, and the suite of the
  computers of the model is an interpretation.
\<close>

section \<open>Keeping the arrays\<close>

text \<open>The arrays of extents and strides keep their lengths and the number of dimensions stays.\<close>

definition resized :: "Tensor \<Rightarrow> Tensor \<Rightarrow> bool" where
  "resized t u \<longleftrightarrow> length (t_extent u) = length (t_extent t) \<and> length (t_stride u) = length (t_stride t) \<and>
     t_dimensions u = t_dimensions t"

named_theorems keeps "what the operations keep of a tensor"

lemma resized_refl [simp, intro]: "resized t t"
  by (simp add: resized_def)

lemma resized_trans [trans]: "resized t u \<Longrightarrow> resized u v \<Longrightarrow> resized t v"
  by (simp add: resized_def)

lemma resized_wf: "resized t u \<Longrightarrow> tensor_wf t \<Longrightarrow> tensor_wf u"
  by (simp add: resized_def tensor_wf_def)

lemma setLength_resized [keeps]: "setLength i v t = Some u \<Longrightarrow> resized t u"
  by (auto simp: setLength_def arr_put_def resized_def split: if_splits)

lemma copyDims_resized [keeps]: "copyDims src dst = Some u \<Longrightarrow> resized dst u"
  by (auto simp: copyDims_def Let_def resized_def split: if_splits)

lemma put_dims_resized [keeps]: "put_dims i ds t = Some u \<Longrightarrow> resized t u"
proof (induction i ds t rule: put_dims.induct)
  case (2 i d ds t)
  then obtain v where v: "setLength i d t = Some v" "put_dims (i + 1) ds v = Some u" by (auto split: bind_splits)
  then show ?case using 2(1) [OF v(1,2)] setLength_resized [OF v(1)] by (blast intro: resized_trans)
qed auto

lemma foldM_resized:
  assumes "\<And>x t u. f x t = Some u \<Longrightarrow> resized t u"
  shows "foldM f xs t = Some u \<Longrightarrow> resized t u"
proof (induction xs arbitrary: t)
  case (Cons x xs)
  then obtain v where "f x t = Some v" "foldM f xs v = Some u" by (auto split: bind_splits)
  then show ?case using Cons.IH assms by (blast intro: resized_trans)
qed auto

lemma loop_resized: "loop lo hi f t = Some u \<Longrightarrow> (\<And>i t u. f i t = Some u \<Longrightarrow> resized t u) \<Longrightarrow> resized t u"
  unfolding loop_def by (rule foldM_resized)

lemma loop_pair_resized:
  assumes "loop lo hi f (t, n) = Some (u, k)" "\<And>i t n u k. f i (t, n) = Some (u, k) \<Longrightarrow> resized t u"
  shows "resized t u"
proof -
  have "foldM f xs (t, n) = Some (u, k) \<Longrightarrow> resized t u" for xs
  proof (induction xs arbitrary: t n)
    case (Cons x xs)
    then obtain v j where "f x (t, n) = Some (v, j)" "foldM f xs (v, j) = Some (u, k)" by (auto split: bind_splits)
    then show ?case using Cons.IH assms(2) by (blast intro: resized_trans)
  qed auto
  then show ?thesis using assms(1) by (simp add: loop_def)
qed

lemma adjust_resized [keeps]: "adjustTensorForCompability t = Some u \<Longrightarrow> resized t u"
  unfolding adjustTensorForCompability_def by (auto split: if_splits intro: loop_resized setLength_resized)

lemma copyShape_resized [keeps]:
  "copyShape src dst cf = Some u \<Longrightarrow> resized (dst\<lparr>t_dimensions := t_dimensions src\<rparr>) u"
proof -
  assume "copyShape src dst cf = Some u"
  then obtain d where d: "copyDims src (dst\<lparr>t_dimensions := t_dimensions src\<rparr>) = Some d"
      "adjustTensorForCompability (if cf then d\<lparr>t_format := t_format src\<rparr> else d) = Some u"
    by (auto simp: copyShape_def split: bind_splits)
  have "resized d (if cf then d\<lparr>t_format := t_format src\<rparr> else d)" by (simp add: resized_def)
  then show ?thesis using copyDims_resized [OF d(1)] adjust_resized [OF d(2)] by (blast intro: resized_trans)
qed

lemma setLinearLayout_resized [keeps]: "setLinearLayout t = Some u \<Longrightarrow> resized t u"
  unfolding setLinearLayout_def
  by (clarsimp simp: bind_eq_Some_conv) (erule loop_pair_resized, auto simp: resized_def arr_put_def bind_eq_Some_conv Let_def split: if_splits)

section \<open>The contract\<close>

definition ready :: "Tensor list \<Rightarrow> Tensor list \<Rightarrow> bool" where
  \<comment> \<open>inputs a computer may be called with\<close>
  "ready inputs outputs \<longleftrightarrow> (\<forall>t \<in> set inputs. tensor_wf t \<and> (\<forall>l \<in> set (tshape t). 0 \<le> l)) \<and> (\<forall>t \<in> set outputs. tensor_wf t)"

definition keeps_tensors :: "SizeComputer \<Rightarrow> bool" where
  \<comment> \<open>whenever the computer succeeds, it leaves as many outputs as there are, all well-formed\<close>
  "keeps_tensors computer \<longleftrightarrow> (\<forall>inputs outputs us. ready inputs outputs \<longrightarrow> computer inputs outputs = ret us \<longrightarrow>
     length us = length outputs \<and> (\<forall>u \<in> set us. tensor_wf u))"

locale size_suite =
  fixes search :: "'op \<Rightarrow> SizeComputer option"
  assumes computer_keeps: "search p = Some computer \<Longrightarrow> keeps_tensors computer"

lemma resized_wf_upd [simp]:
  "tensor_wf (setType d t) = tensor_wf t"
  by (simp add: setType_def)

lemma set_dims_wf: "set_dims ds t = Some u \<Longrightarrow> tensor_wf t \<Longrightarrow> length ds \<le> 9 \<Longrightarrow> tensor_wf u"
  using put_dims_resized [of 0 ds "t\<lparr>t_dimensions := int (length ds)\<rparr>" u]
  by (auto simp: set_dims_def resized_def tensor_wf_def MNN_MAX_TENSOR_DIM_def)

lemma put_dims_fits: "put_dims i ds t = Some u \<Longrightarrow> 0 \<le> i \<Longrightarrow> ds \<noteq> [] \<Longrightarrow> i + int (length ds) \<le> int (length (t_extent t))"
proof (induction i ds t rule: put_dims.induct)
  case (2 i d ds t)
  then obtain v where v: "setLength i d t = Some v" "put_dims (i + 1) ds v = Some u" by (auto split: bind_splits)
  have len: "length (t_extent v) = length (t_extent t)" using setLength_resized [OF v(1)] by (simp add: resized_def)
  show ?case
  proof (cases "ds = []")
    case True
    then show ?thesis using v(1) 2(3) by (auto simp: setLength_def arr_put_def split: if_splits)
  next
    case False
    then show ?thesis using 2(1) [OF v(1,2)] 2(3) len by simp
  qed
qed simp

lemma set_dims_keeps [keeps]: "set_dims ds t = Some u \<Longrightarrow> tensor_wf t \<Longrightarrow> tensor_wf u"
proof -
  assume a: "set_dims ds t = Some u" "tensor_wf t"
  have "length ds \<le> 9"
    using put_dims_fits [of 0 ds "t\<lparr>t_dimensions := int (length ds)\<rparr>" u] a
    by (cases "ds = []") (auto simp: set_dims_def tensor_wf_def MNN_MAX_TENSOR_DIM_def)
  then show "tensor_wf u" using set_dims_wf a by blast
qed

section \<open>The dispatch, for every suite that keeps the contract\<close>

lemma foldM_collects:
  assumes "\<And>x acc us. x \<in> set xs \<Longrightarrow> f x acc = Some us \<Longrightarrow> \<exists>y. us = acc @ [y] \<and> P y"
  shows "foldM f xs acc = Some us \<Longrightarrow> length us = length acc + length xs \<and> (\<forall>u \<in> set us. u \<in> set acc \<or> P u)"
  using assms
proof (induction xs arbitrary: acc)
  case (Cons x xs)
  obtain v where v: "f x acc = Some v" "foldM f xs v = Some us" using Cons.prems(1) by (auto split: bind_splits)
  obtain y where y: "v = acc @ [y]" "P y" using Cons.prems(2) v(1) by force
  have "length us = length v + length xs \<and> (\<forall>u \<in> set us. u \<in> set v \<or> P u)"
    by (rule Cons.IH [OF v(2)]) (use Cons.prems(2) in auto)
  then show ?case using y by auto
qed simp

lemma default_same_keeps:
  assumes "default_same aliased inputs outputs = ret us" "\<forall>t \<in> set inputs. tensor_wf t" "\<forall>t \<in> set outputs. tensor_wf t"
  shows "length us = length outputs \<and> (\<forall>u \<in> set us. tensor_wf u)"
proof (cases aliased)
  case True
  then show ?thesis using assms by (auto simp: default_same_def split: if_splits)
next
  case False
  let ?f = "\<lambda>(input, output) acc. do {
      u \<leftarrow> copyDims input output;
      Some (acc @ [u\<lparr>t_dimensions := t_dimensions input, t_type := t_type input, t_format := t_format input\<rparr>]) }"
  have len: "length (zip inputs outputs) = length outputs" and run: "foldM ?f (zip inputs outputs) [] = Some us"
    using assms(1) False by (auto simp: default_same_def bind_eq_Some_conv split: if_splits)
  have "length us = length ([] :: Tensor list) + length (zip inputs outputs) \<and> (\<forall>u \<in> set us. u \<in> set [] \<or> tensor_wf u)"
  proof (rule foldM_collects [OF _ run])
    fix x acc vs assume x: "x \<in> set (zip inputs outputs)" and v: "?f x acc = Some vs"
    obtain i o' where io: "x = (i, o')" "tensor_wf i" "tensor_wf o'"
      using x assms(2,3) by (metis surj_pair set_zip_leftD set_zip_rightD)
    obtain u where u: "copyDims i o' = Some u"
        "vs = acc @ [u\<lparr>t_dimensions := t_dimensions i, t_type := t_type i, t_format := t_format i\<rparr>]"
      using v io(1) by (auto simp: bind_eq_Some_conv)
    show "\<exists>y. vs = acc @ [y] \<and> tensor_wf y"
      using copyDims_resized [OF u(1)] io u(2) by (auto simp: resized_def tensor_wf_def)
  qed
  then show ?thesis using len by simp
qed

lemma loop_output_keeps: "loop_output blob t = Some u \<Longrightarrow> tensor_wf t \<Longrightarrow> tensor_wf u"
  by (auto simp: loop_output_def Let_def split: option.splits dest: set_dims_keeps)
    (simp add: tensor_wf_def setType_def)

lemma blob_keeps: "computeShapeForBlob blob t = Some u \<Longrightarrow> tensor_wf t \<Longrightarrow> tensor_wf u"
proof -
  assume "computeShapeForBlob blob t = Some u" and wf: "tensor_wf t"
  then obtain v where v: "(case bl_dims blob of Some ds \<Rightarrow> set_dims ds t | None \<Rightarrow> Some (t\<lparr>t_dimensions := 0\<rparr>)) = Some v"
      "setLinearLayout ((setType (if bl_dataType blob = DT_HALF then DT_FLOAT else bl_dataType blob) v)\<lparr>t_format := bl_dataFormat blob\<rparr>) = Some u"
    by (auto simp: computeShapeForBlob_def bind_eq_Some_conv)
  have "tensor_wf v" using v(1) wf by (auto split: option.splits dest: set_dims_keeps simp: tensor_wf_def)
  then show "tensor_wf u" using resized_wf [OF setLinearLayout_resized [OF v(2)]] by simp
qed

lemma has_negative_correct:
  assumes "tensor_wf t" "has_negative t = Some False"
  shows "\<forall>l \<in> set (tshape t). 0 \<le> l"
proof -
  let ?P = "\<lambda>i b. \<not> b \<longrightarrow> (\<forall>k < nat i. 0 \<le> t_extent t ! k)"
  have "?P (t_dimensions t) False"
  proof (rule loop_partial [of 0 "t_dimensions t" "\<lambda>i b. do { l \<leftarrow> tlength t i; Some (b \<or> l < 0) }" False False ?P])
    show "loop 0 (t_dimensions t) (\<lambda>i b. do { l \<leftarrow> tlength t i; Some (b \<or> l < 0) }) False = Some False"
      using assms(2) by (simp add: has_negative_def)
    show "0 \<le> t_dimensions t" using assms(1) by (simp add: tensor_wf_def)
    fix i s u assume i: "0 \<le> i" "i < t_dimensions t" "?P i s" "do { l \<leftarrow> tlength t i; Some (s \<or> l < 0) } = Some u"
    then have u: "u = (s \<or> t_extent t ! nat i < 0)" by (auto simp: bind_eq_Some_conv tlength_def arr_at_def split: if_splits)
    show "?P (i + 1) u" using i(1,3) u by (auto simp: nat_add_distrib less_Suc_eq)
  qed simp
  then show ?thesis using tshape_length [OF assms(1)] by (auto simp: in_set_conv_nth tshape_nth)
qed

lemma none_negative:
  "foldM (\<lambda>t b. do { n \<leftarrow> has_negative t; Some (b \<or> n) }) ts b = Some False \<Longrightarrow> \<not> b \<and> (\<forall>t \<in> set ts. has_negative t = Some False)"
proof (induction ts arbitrary: b)
  case (Cons t ts)
  obtain n where n: "has_negative t = Some n"
      "foldM (\<lambda>t b. do { n \<leftarrow> has_negative t; Some (b \<or> n) }) ts (b \<or> n) = Some False"
    using Cons.prems by (auto simp: bind_eq_Some_conv)
  show ?case using Cons.IH [OF n(2)] n(1) by auto
qed simp

lemma fetch_in: "fetch ids tensors = Some ts \<Longrightarrow> t \<in> set ts \<Longrightarrow> t \<in> set tensors"
proof -
  have "length ts = length ([] :: Tensor list) + length ids \<and> (\<forall>u \<in> set ts. u \<in> set [] \<or> u \<in> set tensors)" if "fetch ids tensors = Some ts"
    by (rule foldM_collects [OF _ that [unfolded fetch_def]]) (auto simp: bind_eq_Some_conv arr_at_def split: if_splits)
  then show "fetch ids tensors = Some ts \<Longrightarrow> t \<in> set ts \<Longrightarrow> t \<in> set tensors" by auto
qed

lemma put_all_keeps:
  assumes "\<forall>t \<in> set tensors. tensor_wf t" "\<forall>u \<in> set us. tensor_wf u"
  shows "length (put_all ids us tensors) = length tensors \<and> (\<forall>t \<in> set (put_all ids us tensors). tensor_wf t)"
  using assms unfolding put_all_def
proof (induction us arbitrary: ids tensors)
  case (Cons u us)
  show ?case
  proof (cases ids)
    case (Cons i js)
    have "\<forall>t \<in> set (tensors[i := u]). tensor_wf t" using Cons.prems set_update_subset_insert [of tensors i u] by auto
    then show ?thesis using Cons.IH [of "tensors[i := u]" "js"] Cons.prems Cons by simp
  qed (use Cons.prems in simp)
qed simp

lemma adjust_all_keeps:
  "adjust_all ids xs = Some ys \<Longrightarrow> length ys = length xs \<and> ((\<forall>t \<in> set xs. tensor_wf t) \<longrightarrow> (\<forall>t \<in> set ys. tensor_wf t))"
  unfolding adjust_all_def
proof (induction ids arbitrary: xs)
  case (Cons i ids)
  obtain t u where t: "arr_at xs (int i) = Some t" "adjustTensorForCompability t = Some u"
      "foldM (\<lambda>i xs. do { t \<leftarrow> arr_at xs (int i); u \<leftarrow> adjustTensorForCompability t; Some (xs[i := u]) }) ids (xs[i := u]) = Some ys"
    using Cons.prems by (auto simp: bind_eq_Some_conv)
  have "t \<in> set xs" using t(1) by (auto simp: arr_at_def split: if_splits)
  then have "(\<forall>t \<in> set xs. tensor_wf t) \<Longrightarrow> \<forall>t \<in> set (xs[i := u]). tensor_wf t"
    using resized_wf [OF adjust_resized [OF t(2)]] set_update_subset_insert [of xs i u] by blast
  then show ?case using Cons.IH [OF t(3)] by simp
qed simp

context size_suite
begin

lemma dispatch_keeps:
  assumes "computeOutputSize search aliased op inputs outputs = ret us"
    and "\<forall>t \<in> set inputs. tensor_wf t" "\<forall>t \<in> set outputs. tensor_wf t"
  shows "length us = length outputs \<and> (\<forall>u \<in> set us. tensor_wf u)"
proof (cases op)
  case CopyOp
  then show ?thesis using assms default_same_keeps by (simp add: computeOutputSize_def split: option.splits)
next
  case (BlobOp blob)
  then show ?thesis using assms blob_keeps
    by (auto simp: computeOutputSize_def bind_eq_Some_conv split: list.splits)
next
  case (LoopOp infos)
  show ?thesis
  proof (cases infos)
    case None
    then show ?thesis using assms(1) LoopOp by (simp add: computeOutputSize_def)
  next
    case (Some bs)
    let ?f = "\<lambda>(i, output) acc. do { blob \<leftarrow> arr_at bs i; u \<leftarrow> loop_output blob output; Some (acc @ [u]) }"
    have run: "foldM ?f (zip [0 .. int (length outputs) - 1] outputs) [] = Some us"
      using assms(1) LoopOp Some by (auto simp: computeOutputSize_def bind_eq_Some_conv)
    have "length us = length ([] :: Tensor list) + length (zip [0 .. int (length outputs) - 1] outputs) \<and> (\<forall>u \<in> set us. u \<in> set [] \<or> tensor_wf u)"
    proof (rule foldM_collects [OF _ run])
      fix x acc vs assume x: "x \<in> set (zip [0 .. int (length outputs) - 1] outputs)" and v: "?f x acc = Some vs"
      obtain i o' where io: "x = (i, o')" "tensor_wf o'"
        using x assms(3) by (metis surj_pair set_zip_rightD)
      show "\<exists>y. vs = acc @ [y] \<and> tensor_wf y"
        using v io by (auto simp: bind_eq_Some_conv dest: loop_output_keeps)
    qed
    then show ?thesis by simp
  qed
next
  case ControlOp
  then show ?thesis using assms(1) by (simp add: computeOutputSize_def)
next
  case (PlainOp p)
  obtain negative where neg: "foldM (\<lambda>t b. do { n \<leftarrow> has_negative t; Some (b \<or> n) }) inputs False = Some negative" "\<not> negative"
    using assms(1) PlainOp by (auto simp: computeOutputSize_def bind_eq_Some_conv split: if_splits)
  then have "ready inputs outputs"
    using none_negative [of inputs False] has_negative_correct assms(2,3) by (auto simp: ready_def)
  then show ?thesis
  proof (cases "search p")
    case None
    then show ?thesis using assms neg PlainOp default_same_keeps by (auto simp: computeOutputSize_def)
  next
    case (Some computer)
    then have "computer inputs outputs = ret us" using assms(1) neg PlainOp by (simp add: computeOutputSize_def)
    then show ?thesis using computer_keeps [OF Some] \<open>ready inputs outputs\<close> unfolding keeps_tensors_def by blast
  qed
qed

lemma step_keeps:
  assumes "shape_step search info tensors = ret ys" "\<forall>t \<in> set tensors. tensor_wf t"
  shows "length ys = length tensors \<and> (\<forall>t \<in> set ys. tensor_wf t)"
proof -
  define al where "al = (oi_inputs info \<noteq> [] \<and> oi_outputs info \<noteq> [] \<and> hd (oi_inputs info) = hd (oi_outputs info))"
  obtain ts os us xs where run: "fetch (oi_inputs info) tensors = Some ts" "fetch (oi_outputs info) tensors = Some os"
      "computeOutputSize search al (oi_op info) ts os = ret us"
      "adjust_all (oi_outputs info) (put_all (oi_outputs info) us tensors) = Some xs" "adjust_all (oi_inputs info) xs = Some ys"
    using assms(1) by (auto simp: shape_step_def al_def bind_eq_Some_conv andThen_def split: option.splits)
  have us: "\<forall>u \<in> set us. tensor_wf u"
    using dispatch_keeps [OF run(3)] fetch_in [OF run(1)] fetch_in [OF run(2)] assms(2) by blast
  show ?thesis
    using put_all_keeps [OF assms(2) us, of "oi_outputs info"] adjust_all_keeps [OF run(4)] adjust_all_keeps [OF run(5)] by simp
qed

lemma run_keeps:
  assumes "shape_run search infos tensors = ret ys" "\<forall>t \<in> set tensors. tensor_wf t"
  shows "length ys = length tensors \<and> (\<forall>t \<in> set ys. tensor_wf t)"
  using assms unfolding shape_run_def
proof (induction infos arbitrary: tensors)
  case (Cons info infos)
  obtain xs where xs: "shape_step search info tensors = ret xs" "foldC (shape_step search) infos xs = ret ys"
    using Cons.prems(1) by (auto simp: bind_eq_Some_conv split: option.splits)
  show ?case using step_keeps [OF xs(1) Cons.prems(2)] Cons.IH [OF xs(2)] by simp
qed simp

end

end
