(* ===== verification/DispatchSuite.thy ===== *)
theory DispatchSuite
  imports DispatchSafety
begin

text \<open>
  The computers of the model keep the contract \<open>size_suite\<close>: a computer that succeeds leaves an output
  whose arrays have their lengths and whose number of dimensions is in range, because a write past the
  ninth dimension is no result.
\<close>

section \<open>Writing every index of a range\<close>

lemma setLength_fits: "setLength i v t = Some u \<Longrightarrow> resized t u \<and> 0 \<le> i \<and> i < int (length (t_extent t))"
  by (auto simp: setLength_def arr_put_def resized_def split: if_splits)

lemma loop_fits:
  assumes "loop lo hi f t = Some u" and "\<And>i v w. f i v = Some w \<Longrightarrow> resized v w \<and> i < int (length (t_extent v))"
  shows "resized t u \<and> (lo < hi \<longrightarrow> hi \<le> int (length (t_extent t)))"
proof (cases "lo \<le> hi")
  case True
  show ?thesis
  proof (rule loop_partial [where P = "\<lambda>i s. resized t s \<and> (lo < i \<longrightarrow> i \<le> int (length (t_extent t)))", OF assms(1) True])
    fix i s v assume "resized t s \<and> (lo < i \<longrightarrow> i \<le> int (length (t_extent t)))" "f i s = Some v"
    then show "resized t v \<and> (lo < i + 1 \<longrightarrow> i + 1 \<le> int (length (t_extent t)))"
      using assms(2) [of i s v] resized_trans [of t s v] by (simp add: resized_def)
  qed simp
next
  case False
  then show ?thesis using assms(1) by (simp add: loop_def)
qed

lemma wf_dims: "tensor_wf t \<Longrightarrow> 0 \<le> n \<Longrightarrow> n \<le> 9 \<Longrightarrow> tensor_wf (t\<lparr>t_dimensions := n\<rparr>)"
  by (simp add: tensor_wf_def MNN_MAX_TENSOR_DIM_def)

lemma wf_bounds: "tensor_wf t \<Longrightarrow> 0 \<le> t_dimensions t" "tensor_wf t \<Longrightarrow> t_dimensions t \<le> 9"
    "tensor_wf t \<Longrightarrow> length (t_extent t) = 9"
  by (simp_all add: tensor_wf_def MNN_MAX_TENSOR_DIM_def)

lemma loop_resized_wf:
  assumes "loop lo hi f t = Some u" "\<And>i v w. f i v = Some w \<Longrightarrow> resized v w" "tensor_wf t"
  shows "tensor_wf u"
  using resized_wf [OF loop_resized [OF assms(1,2)] assms(3)] .

lemma andThen_ret: "andThen r f = ret y \<longleftrightarrow> (\<exists>x. r = ret x \<and> f x = ret y)"
  by (auto simp: andThen_def bind_eq_Some_conv split: option.splits)

section \<open>The computers\<close>

lemma broadcast_keeps:
  assumes "computeBroadCastDims inputs output = ret u" "\<forall>t \<in> set inputs. tensor_wf t" "inputs \<noteq> []" "tensor_wf output"
  shows "tensor_wf u"
proof -
  obtain n k where nk: "max_index inputs = (n, k)" by fastforce
  obtain od where run: "loop 0 n (\<lambda>i u. do { d \<leftarrow> arr_at od i; setLength i d u }) (output\<lparr>t_dimensions := n\<rparr>) = Some u"
    using assms(1) nk by (auto simp: computeBroadCastDims_def andThen_def bind_eq_Some_conv split: option.splits)
  have mem: "n \<in> t_dimensions ` set inputs"
  proof -
    let ?f = "\<lambda>index (m, k). if t_dimensions (inputs ! nat index) > m then (t_dimensions (inputs ! nat index), index) else (m, k)"
    have "fst (fold ?f js p) \<in> t_dimensions ` set inputs"
      if "fst p \<in> t_dimensions ` set inputs" "set js \<subseteq> {0..<int (length inputs)}" for js p
      using that
    proof (induction js arbitrary: p)
      case (Cons j js)
      have "t_dimensions (inputs ! nat j) \<in> t_dimensions ` set inputs" using Cons.prems(2) by auto
      then have "fst (?f j p) \<in> t_dimensions ` set inputs" using Cons.prems(1) by (cases p) simp
      then show ?case using Cons.IH [of "?f j p"] Cons.prems(2) by simp
    qed simp
    moreover have "set [1..int (length inputs) - 1] \<subseteq> {0..<int (length inputs)}" by auto
    moreover have "fst (t_dimensions (inputs ! 0), 0 :: int) \<in> t_dimensions ` set inputs" using assms(3) by simp
    ultimately have "fst (fold ?f [1..int (length inputs) - 1] (t_dimensions (inputs ! 0), 0)) \<in> t_dimensions ` set inputs" by blast
    then show ?thesis using nk by (simp add: max_index_def)
  qed
  then obtain t where "t \<in> set inputs" "n = t_dimensions t" by blast
  then have "tensor_wf (output\<lparr>t_dimensions := n\<rparr>)" using assms(2,4) wf_dims wf_bounds by metis
  then show ?thesis by (rule loop_resized_wf [OF run, rotated]) (auto simp: bind_eq_Some_conv dest: setLength_resized)
qed

lemma permute_keeps:
  assumes "PermuteComputer dims input output = ret u" "tensor_wf input" "tensor_wf output"
  shows "tensor_wf u"
proof -
  let ?o = "output\<lparr>t_dimensions := t_dimensions input\<rparr>"
  obtain f v where f: "loop 0 (t_dimensions input) f ?o = Some v" "\<And>i v w. f i v = Some w \<Longrightarrow> resized v w"
      and u: "u = v\<lparr>t_format := t_format input, t_type := t_type input\<rparr>"
  proof (cases dims)
    case None
    then show ?thesis using assms(1) that [of "\<lambda>i u. do { l \<leftarrow> tlength input (t_dimensions input - i - 1); setLength i l u }"]
      by (auto simp: PermuteComputer_def Let_def bind_eq_Some_conv dest: setLength_resized)
  next
    case (Some shape)
    then show ?thesis using assms(1) that [of "\<lambda>i u. do { p \<leftarrow> arr_at shape i; l \<leftarrow> tlength input p; setLength i l u }"]
      by (auto simp: PermuteComputer_def Let_def bind_eq_Some_conv dest: setLength_resized)
  qed
  have "tensor_wf ?o" using assms(2,3) wf_dims wf_bounds by metis
  then show ?thesis using loop_resized_wf [OF f] u by simp
qed

lemma concat_keeps:
  assumes "ConcatSizeComputer axis inputs output = ret u" "\<forall>t \<in> set inputs. tensor_wf t" "tensor_wf output"
  shows "tensor_wf u"
proof -
  obtain ob ax ob' n v t where run: "(case inputs of [] \<Rightarrow> Some (output, axis) | input # _ \<Rightarrow> do {
           u \<leftarrow> copyDims input output;
           Some (u\<lparr>t_dimensions := t_dimensions input, t_type := t_type input\<rparr>,
                 if axis < 0 then t_dimensions input + axis else axis) }) = Some (ob, ax)"
      "foldC (\<lambda>t (ob, sum). do {
          l \<leftarrow> tlength t ax;
          andThen
            (loopC 0 (t_dimensions t) (\<lambda>i s. if i = ax then ret s else do {
               a \<leftarrow> tlength t i; b \<leftarrow> tlength ob i; if a \<noteq> b then ret_false else ret s }) ())
            (\<lambda>_. ret (ob\<lparr>t_type := t_type t\<rparr>, sum + l)) }) inputs (ob, 0) = ret (ob', n)"
      "setLength ax n ob' = Some v" "arr_at inputs 0 = Some t" "u = v\<lparr>t_format := t_format t\<rparr>"
    using assms(1) by (auto simp: ConcatSizeComputer_def andThen_ret bind_eq_Some_conv)
  have ob: "tensor_wf ob"
    using run(1) assms(2,3) by (auto split: list.splits simp: bind_eq_Some_conv dest!: copyDims_resized)
      (auto simp: resized_def tensor_wf_def)
  have "foldC (\<lambda>t (ob, sum). do {
          l \<leftarrow> tlength t ax;
          andThen
            (loopC 0 (t_dimensions t) (\<lambda>i s. if i = ax then ret s else do {
               a \<leftarrow> tlength t i; b \<leftarrow> tlength ob i; if a \<noteq> b then ret_false else ret s }) ())
            (\<lambda>_. ret (ob\<lparr>t_type := t_type t\<rparr>, sum + l)) }) ts (ob, m) = ret (ob', n) \<Longrightarrow> tensor_wf ob \<Longrightarrow> tensor_wf ob'" for ts ob m
    by (induction ts arbitrary: ob m) (auto simp: andThen_ret bind_eq_Some_conv split: option.splits)
  then have "tensor_wf ob'" using run(2) ob by blast
  then show ?thesis using run(5) resized_wf [OF setLength_resized [OF run(3)]] by auto
qed

lemma select_keeps:
  assumes "SelectSizeComputer inputs output = ret u" "\<forall>t \<in> set inputs. tensor_wf t" "tensor_wf output"
  shows "tensor_wf u"
proof -
  obtain t v where t: "arr_at inputs 1 = Some t" "computeBroadCastDims inputs (output\<lparr>t_type := t_type t\<rparr>) = ret v"
      "u = v\<lparr>t_format := t_format t\<rparr>"
    using assms(1) by (auto simp: SelectSizeComputer_def andThen_ret bind_eq_Some_conv)
  have "inputs \<noteq> []" using t(1) by (auto simp: arr_at_def)
  then show ?thesis using broadcast_keeps [OF t(2) assms(2)] assms(3) t(3) by simp
qed

lemma binary_keeps:
  assumes "BinaryOpComputer cmp a b output = ret u" "tensor_wf a" "tensor_wf b" "tensor_wf output"
  shows "tensor_wf u"
  using assms(1) broadcast_keeps [of "[a, b]" _ u] assms(2,3,4)
  by (auto simp: BinaryOpComputer_def Let_def split: if_splits)

lemma copyShape_wf:
  assumes "copyShape src dst cf = Some u" "tensor_wf src" "tensor_wf dst"
  shows "tensor_wf u"
  using resized_wf [OF copyShape_resized [OF assms(1)]] wf_dims [OF assms(3)] wf_bounds [OF assms(2)] by blast

lemma cast_keeps:
  assumes "CastSizeComputer c inputs output = ret u" "\<forall>t \<in> set inputs. tensor_wf t" "tensor_wf output"
  shows "tensor_wf u"
proof -
  obtain t v where t: "arr_at inputs 0 = Some t" "copyShape t output True = Some v" "tensor_wf u = tensor_wf v"
    using assms(1) by (cases c) (auto simp: CastSizeComputer_def bind_eq_Some_conv)
  have "t \<in> set inputs" using t(1) by (auto simp: arr_at_def split: if_splits)
  then show ?thesis using copyShape_wf [OF t(2)] assms(2,3) t(3) by blast
qed

lemma convert_keeps:
  assumes "TensorConvertSizeComputer fmt input output = ret u" "tensor_wf input" "tensor_wf output"
  shows "tensor_wf u"
proof -
  let ?o = "output\<lparr>t_format := fmt, t_type := t_type input, t_dimensions := t_dimensions input\<rparr>"
  have "tensor_wf (output\<lparr>t_format := fmt, t_type := t_type input\<rparr>)" using assms(3) by simp
  then have o: "tensor_wf ?o" using wf_dims wf_bounds(1,2) [OF assms(2)] by blast
  have step: "loop lo hi (\<lambda>i u. do { l \<leftarrow> tlength input (g i); setLength i l u }) v = Some w \<Longrightarrow> resized v w" for lo hi g v w
    by (erule loop_resized) (auto simp: bind_eq_Some_conv dest: setLength_resized)
  have "resized ?o u"
    using assms(1) step [of _ _ "\<lambda>i. i"] step [of _ _ "\<lambda>i. i + 1"] step [of _ _ "\<lambda>i. i - 1"]
    by (auto simp: TensorConvertSizeComputer_def Let_def bind_eq_Some_conv split: if_splits
        dest!: setLength_resized intro: resized_trans)
  then show ?thesis using o by (rule resized_wf)
qed

lemma gather_keeps:
  assumes "GatherV2Computer axis inputs output = ret u" "tensor_wf output"
  shows "tensor_wf u"
  using assms by (auto simp: GatherV2Computer_def Let_def bind_eq_Some_conv split: if_splits option.splits dest!: set_dims_keeps)

lemma pack_keeps:
  assumes "PackComputer axis inputs output = ret u" "tensor_wf (inputs ! 0)" "tensor_wf output"
  shows "tensor_wf u"
proof -
  define dims where "dims = t_dimensions (inputs ! 0) + 1"
  define ax where "ax = (if axis < 0 then axis + dims else axis)"
  let ?f = "\<lambda>i (u, j). if i = ax then do { v \<leftarrow> setLength i (int (length inputs)) u; Some (v, j) }
        else do { l \<leftarrow> tlength (inputs ! 0) j; v \<leftarrow> setLength i l u; Some (v, j + 1) }"
  let ?o = "output\<lparr>t_dimensions := dims, t_type := t_type (inputs ! 0)\<rparr>"
  have "do { r \<leftarrow> loop 0 dims ?f (?o, 0); ret ((fst r)\<lparr>t_format := t_format (inputs ! 0)\<rparr>) } = ret u"
    using assms(1) unfolding ax_def dims_def by (simp add: PackComputer_def Let_def case_prod_unfold split del: if_split)
  then obtain r where run: "loop 0 dims ?f (?o, 0) = Some r" "u = (fst r)\<lparr>t_format := t_format (inputs ! 0)\<rparr>"
    by (cases "loop 0 dims ?f (?o, 0)") simp_all
  have d: "1 \<le> dims" "0 \<le> dims" using wf_bounds(1) [OF assms(2)] by (simp_all add: dims_def)
  have "resized ?o (fst r) \<and> (0 < dims \<longrightarrow> dims \<le> int (length (t_extent ?o)))"
  proof (rule loop_partial [where P = "\<lambda>i s. resized ?o (fst s) \<and> (0 < i \<longrightarrow> i \<le> int (length (t_extent ?o)))", OF run(1) d(2)])
    fix i s r' assume s: "resized ?o (fst s) \<and> (0 < i \<longrightarrow> i \<le> int (length (t_extent ?o)))" and r: "?f i s = Some r'"
    have "\<exists>l. setLength i l (fst s) = Some (fst r')" using r by (cases s) (auto simp: bind_eq_Some_conv split: if_splits)
    then have "resized (fst s) (fst r') \<and> i < int (length (t_extent (fst s)))" using setLength_fits by blast
    then show "resized ?o (fst r') \<and> (0 < i + 1 \<longrightarrow> i + 1 \<le> int (length (t_extent ?o)))"
      using s by (simp add: resized_def)
  qed simp
  then show ?thesis using d run(2) assms(3) by (simp add: resized_def tensor_wf_def)
qed

lemma reduction_keeps:
  assumes "ReductionComputer ds keepDims inputs output = ret u" "tensor_wf (inputs ! 0)" "tensor_wf output"
  shows "tensor_wf u"
proof -
  define n where "n = t_dimensions (inputs ! 0)"
  have n: "0 \<le> n" "n \<le> 9" using wf_bounds [OF assms(2)] by (simp_all add: n_def)
  let ?o = "output\<lparr>t_format := t_format (inputs ! 0), t_type := t_type (inputs ! 0)\<rparr>"
  have o: "tensor_wf ?o" using assms(3) by simp
  show ?thesis
  proof (cases "ds = None \<and> length inputs = 1")
    case True
    have "keepDims \<Longrightarrow> loop 0 n (\<lambda>i. setLength i 1) (?o\<lparr>t_dimensions := n\<rparr>) = Some u" "\<not> keepDims \<Longrightarrow> u = ?o\<lparr>t_dimensions := 0\<rparr>"
      using assms(1) True by (auto simp: ReductionComputer_def Let_def n_def bind_eq_Some_conv)
    then show ?thesis
      using loop_resized_wf [OF _ setLength_resized, of 0 n] wf_dims [OF o n] wf_dims [OF o] by (cases keepDims) auto
  next
    case False
    define f where "f mask i s = (case s of (u, offset) \<Rightarrow> do {
           mk \<leftarrow> arr_at mask i;
           if mk then (if keepDims then do { v \<leftarrow> setLength offset 1 u; Some (v, offset + 1) } else Some (u, offset))
           else do { l \<leftarrow> tlength (inputs ! 0) i; v \<leftarrow> setLength offset l u; Some (v, offset + 1) } })"
      for mask :: "bool list" and i :: int and s :: "Tensor \<times> int"
    obtain mask v k where run: "loop 0 n (f mask) (?o, 0) = Some (v, k)" "u = v\<lparr>t_dimensions := k\<rparr>"
      using assms(1) False
      by (auto simp: ReductionComputer_def Let_def n_def f_def [abs_def] bind_eq_Some_conv split: if_splits)
    have "resized ?o (fst (v, k)) \<and> 0 \<le> snd (v, k) \<and> snd (v, k) \<le> n"
    proof (rule loop_partial [where P = "\<lambda>i s. resized ?o (fst s) \<and> 0 \<le> snd s \<and> snd s \<le> i", OF run(1) n(1)])
      fix i s r assume s: "resized ?o (fst s) \<and> 0 \<le> snd s \<and> snd s \<le> i" and r: "f mask i s = Some r"
      have "resized (fst s) (fst r) \<and> (snd r = snd s \<or> snd r = snd s + 1)"
        using r by (cases s) (auto simp: f_def bind_eq_Some_conv split: if_splits dest: setLength_resized)
      then show "resized ?o (fst r) \<and> 0 \<le> snd r \<and> snd r \<le> i + 1"
        using s resized_trans [of ?o "fst s" "fst r"] by auto
    qed simp
    then show ?thesis using resized_wf [OF _ o] wf_dims n(2) run(2) by simp
  qed
qed

lemma put_chw_resized: "put_chw fm c h w t = Some u \<Longrightarrow> resized t u"
  by (auto simp: put_chw_def bind_eq_Some_conv split: if_splits dest!: setLength_resized intro: resized_trans)

lemma conv_keeps:
  assumes "ConvolutionSizeComputer isConv quan layer inputs output = ret u" "tensor_wf (inputs ! 0)" "tensor_wf output"
  shows "tensor_wf u"
proof -
  let ?o = "output\<lparr>t_dimensions := t_dimensions (inputs ! 0), t_type := t_type (inputs ! 0)\<rparr>"
  have o: "tensor_wf ?o" using assms(3) wf_dims [OF assms(3)] wf_bounds(1,2) [OF assms(2)] by (simp add: tensor_wf_def)
  obtain b o3 c h w o4 where run: "setLength 0 b (case quan of None \<Rightarrow> ?o | Some dt \<Rightarrow> if dt \<noteq> DT_INT8 then setType dt ?o else ?o) = Some o3"
      "put_chw (t_format (inputs ! 0)) c h w o3 = Some o4" "u = o4\<lparr>t_format := t_format (inputs ! 0)\<rparr>"
    using assms(1) unfolding ConvolutionSizeComputer_def Let_def
    by (auto simp: bind_eq_Some_conv split: if_split_asm)
  have "tensor_wf (case quan of None \<Rightarrow> ?o | Some dt \<Rightarrow> if dt \<noteq> DT_INT8 then setType dt ?o else ?o)"
    using o by (simp split: option.split)
  then have "tensor_wf o3" by (rule resized_wf [OF setLength_resized [OF run(1)]])
  then show ?thesis using resized_wf [OF put_chw_resized [OF run(2)]] run(3) by simp
qed

section \<open>A suite of computers that keep the contract\<close>

lemma arr_at_mem: "arr_at xs i = Some x \<Longrightarrow> x \<in> set xs \<and> (i = 0 \<longrightarrow> x = xs ! 0)"
  by (auto simp: arr_at_def split: if_splits)

lemma on_first_keeps:
  assumes "\<And>inputs output u. f inputs output = ret u \<Longrightarrow> \<forall>t \<in> set inputs. tensor_wf t \<Longrightarrow> tensor_wf output \<Longrightarrow> tensor_wf u"
  shows "keeps_tensors (on_first f)"
  unfolding keeps_tensors_def
proof (intro allI impI)
  fix inputs outputs us assume r: "ready inputs outputs" and run: "on_first f inputs outputs = ret us"
  obtain out outs u where o: "outputs = out # outs" "f inputs out = ret u" "us = u # outs"
    using run by (auto simp: on_first_def andThen_ret split: list.splits)
  then have "tensor_wf u" using assms [OF o(2)] r by (simp add: ready_def)
  then show "length us = length outputs \<and> (\<forall>u \<in> set us. tensor_wf u)" using o r by (auto simp: ready_def)
qed

lemma no_result_keeps: "keeps_tensors (\<lambda>_ _. None)"
  by (simp add: keeps_tensors_def)

lemma at_wf:
  assumes "\<forall>t \<in> set inputs. tensor_wf t" "arr_at inputs k = Some t"
  shows "tensor_wf t" "k = 0 \<Longrightarrow> tensor_wf (inputs ! 0)"
  using assms arr_at_mem [of inputs k t] by auto

lemma computers_keep:
  "keeps_tensors (on_first (ConcatSizeComputer axis))"
  "keeps_tensors (on_first (\<lambda>inputs output. do { a \<leftarrow> arr_at inputs 0; b \<leftarrow> arr_at inputs 1; BinaryOpComputer cmp a b output }))"
  "keeps_tensors (on_first SelectSizeComputer)"
  "keeps_tensors (on_first (CastSizeComputer c))"
  "keeps_tensors (on_first (with_input (TensorConvertSizeComputer fmt)))"
  "keeps_tensors (on_first (with_input (PermuteComputer dims)))"
  "keeps_tensors (on_first (GatherV2Computer batch))"
  "keeps_tensors (on_first (\<lambda>inputs output. do { a \<leftarrow> arr_at inputs 0; PackComputer axis inputs output }))"
  "keeps_tensors (on_first (\<lambda>inputs output. do { a \<leftarrow> arr_at inputs 0; ReductionComputer dims keepDims inputs output }))"
  "keeps_tensors (on_first (\<lambda>inputs output. do { a \<leftarrow> arr_at inputs 0; ConvolutionSizeComputer True quan layer inputs output }))"
  by (rule on_first_keeps, auto simp: with_input_def bind_eq_Some_conv dest: at_wf
      intro: concat_keeps binary_keeps select_keeps cast_keeps convert_keeps permute_keeps gather_keeps pack_keeps reduction_keeps conv_keeps; fail)+

datatype ShapeType = Concat | BinaryOp | Select | Cast | ConvertTensor | Permute | GatherV2 | Pack | Reduction | Convolution

datatype ShapeParam = AxisParam int | BinaryParam bool | CastParam CastOp | FormatParam MNN_DATA_FORMAT | DimsParam "int list option"
  | GatherParam "int option" | ReductionParam "int list option" bool | ConvParam "DataType option" Convolution2DCommon

text \<open>The computers take their own kind of parameters; the parameters of another operator are a null pointer to them.\<close>

definition some_computers :: "(ShapeType \<times> (ShapeParam \<Rightarrow> SizeComputer)) list" where
  "some_computers =
    [(Concat, \<lambda>p. case p of AxisParam axis \<Rightarrow> on_first (ConcatSizeComputer axis) | _ \<Rightarrow> \<lambda>_ _. None),
     (BinaryOp, \<lambda>p. case p of BinaryParam cmp \<Rightarrow> on_first (\<lambda>inputs output. do {
        a \<leftarrow> arr_at inputs 0; b \<leftarrow> arr_at inputs 1; BinaryOpComputer cmp a b output }) | _ \<Rightarrow> \<lambda>_ _. None),
     (Select, \<lambda>_. on_first SelectSizeComputer),
     (Cast, \<lambda>p. case p of CastParam c \<Rightarrow> on_first (CastSizeComputer c) | _ \<Rightarrow> \<lambda>_ _. None),
     (ConvertTensor, \<lambda>p. case p of FormatParam fmt \<Rightarrow> on_first (with_input (TensorConvertSizeComputer fmt)) | _ \<Rightarrow> \<lambda>_ _. None),
     (Permute, \<lambda>p. case p of DimsParam dims \<Rightarrow> on_first (with_input (PermuteComputer dims)) | _ \<Rightarrow> \<lambda>_ _. None),
     (GatherV2, \<lambda>p. case p of GatherParam axis \<Rightarrow> on_first (GatherV2Computer axis) | _ \<Rightarrow> \<lambda>_ _. None),
     (Pack, \<lambda>p. case p of AxisParam axis \<Rightarrow> on_first (\<lambda>inputs output. do { a \<leftarrow> arr_at inputs 0; PackComputer axis inputs output })
        | _ \<Rightarrow> \<lambda>_ _. None),
     (Reduction, \<lambda>p. case p of ReductionParam dims keepDims \<Rightarrow> on_first (\<lambda>inputs output. do {
        a \<leftarrow> arr_at inputs 0; ReductionComputer dims keepDims inputs output }) | _ \<Rightarrow> \<lambda>_ _. None),
     (Convolution, \<lambda>p. case p of ConvParam quan layer \<Rightarrow> on_first (\<lambda>inputs output. do {
        a \<leftarrow> arr_at inputs 0; ConvolutionSizeComputer True quan layer inputs output }) | _ \<Rightarrow> \<lambda>_ _. None)]"

lemma some_computers_keep:
  assumes "(type, computer) \<in> set some_computers"
  shows "keeps_tensors (computer p)"
  using assms by (cases p) (auto simp: some_computers_def no_result_keeps computers_keep)

lemma search_registered:
  "search_op (registerShapeOps regs) op = Some computer \<Longrightarrow> \<exists>c. (fst op, c) \<in> set regs \<and> computer = c (snd op)"
proof -
  have "fold (\<lambda>(type, computer). SizeComputerSuite_insert computer type) regs suite type = Some c \<Longrightarrow>
      (type, c) \<in> set regs \<or> suite type = Some c" for suite type c
    by (induction regs arbitrary: suite) (fastforce simp: SizeComputerSuite_insert_def split: if_splits)+
  then show "search_op (registerShapeOps regs) op = Some computer \<Longrightarrow> \<exists>c. (fst op, c) \<in> set regs \<and> computer = c (snd op)"
    by (fastforce simp: search_op_def SizeComputerSuite_search_def registerShapeOps_def SizeComputerSuite_init_def split: option.splits)
qed

interpretation suite: size_suite "search_op (registerShapeOps some_computers)"
  by unfold_locales (metis search_registered some_computers_keep)

section \<open>A network\<close>

text \<open>Only the operations of the network matter: the other computers may as well not be there.\<close>

definition only_for :: "'op OpInfo list \<Rightarrow> ('op \<Rightarrow> SizeComputer option) \<Rightarrow> 'op \<Rightarrow> SizeComputer option" where
  "only_for infos search op = (if \<exists>info \<in> set infos. oi_op info = PlainOp op then search op else None)"

lemma shape_step_cong:
  assumes "\<And>p. oi_op info = PlainOp p \<Longrightarrow> f p = g p"
  shows "shape_step f info tensors = shape_step g info tensors"
proof -
  have "computeOutputSize f aliased (oi_op info) = computeOutputSize g aliased (oi_op info)" for aliased
  proof (cases "oi_op info")
    case (PlainOp p)
    then show ?thesis using assms [OF PlainOp] by (simp add: fun_eq_iff computeOutputSize_def cong: if_cong)
  qed (simp_all add: fun_eq_iff computeOutputSize_def)
  then show ?thesis by (simp add: shape_step_def)
qed

lemma shape_run_only: "shape_run (only_for infos search) infos tensors = shape_run search infos tensors"
proof -
  have "set js \<subseteq> set infos \<Longrightarrow> foldC (shape_step (only_for infos search)) js ts = foldC (shape_step search) js ts" for js ts
  proof (induction js arbitrary: ts)
    case (Cons j js)
    have "shape_step (only_for infos search) j ts = shape_step search j ts" for ts
      by (rule shape_step_cong) (use Cons.prems in \<open>auto simp: only_for_def\<close>)
    moreover have "foldC (shape_step (only_for infos search)) js = foldC (shape_step search) js" using Cons by (simp add: fun_eq_iff)
    ultimately show ?case by simp
  qed simp
  then show ?thesis by (simp add: shape_run_def)
qed

text \<open>
  C40: shape inference over a network, with any suite of registered computers, keeps every tensor well-formed if the computers
  the suite has for the operations of the network do. When the loop over the
  operations ends without an error, however the operations share and overwrite tensors, through the default branch, constants,
  loops and the adjustment of formats, no tensor is lost
  and each keeps its arrays of nine extents and strides and a number of dimensions between zero and nine.
\<close>

theorem shape_inference_keeps_tensors:
  assumes "shape_run (search_op (registerShapeOps regs)) infos tensors = ret ys" "\<forall>t \<in> set tensors. tensor_wf t"
    and "\<forall>info \<in> set infos. \<forall>type p computer. oi_op info = PlainOp (type, p) \<longrightarrow> (type, computer) \<in> set regs \<longrightarrow> keeps_tensors (computer p)"
  shows "length ys = length tensors \<and> (\<forall>t \<in> set ys. tensor_wf t)"
proof -
  have "size_suite (only_for infos (search_op (registerShapeOps regs)))"
  proof
    fix op computer assume "only_for infos (search_op (registerShapeOps regs)) op = Some computer"
    then obtain info where "info \<in> set infos" "oi_op info = PlainOp op" "search_op (registerShapeOps regs) op = Some computer"
      by (auto simp: only_for_def split: if_splits)
    then show "keeps_tensors computer" using search_registered [of regs op computer] assms(3) by (cases op) auto
  qed
  then show ?thesis using size_suite.run_keeps [of _ infos tensors ys] assms(1,2) by (simp add: shape_run_only)
qed

theorem shape_inference_keeps_tensors_witness:
  "(case shape_run (search_op (registerShapeOps some_computers))
      [\<lparr>oi_op = PlainOp (Concat, AxisParam 1), oi_inputs = [0, 1], oi_outputs = [2]\<rparr>,
       \<lparr>oi_op = PlainOp (Permute, DimsParam (Some [1, 0])), oi_inputs = [2], oi_outputs = [0]\<rparr>]
      [tensor_of [2, 3] MNN_NCHW [], tensor_of [2, 5] MNN_NCHW [], tensor_of [] MNN_NCHW []] of
      Some (Some ys) \<Rightarrow> map tshape ys = [[8, 2], [2, 5], [2, 8]] \<and> length ys = 3 \<and> (\<forall>t \<in> set ys. tensor_wf t)
    | _ \<Rightarrow> False)"
proof -
  let ?ops = "[\<lparr>oi_op = PlainOp (Concat, AxisParam 1), oi_inputs = [0, 1], oi_outputs = [2]\<rparr>,
       \<lparr>oi_op = PlainOp (Permute, DimsParam (Some [1, 0])), oi_inputs = [2], oi_outputs = [0]\<rparr>]"
  let ?ts = "[tensor_of [2, 3] MNN_NCHW [], tensor_of [2, 5] MNN_NCHW [], tensor_of [] MNN_NCHW []]"
  have run: "(case shape_run (search_op (registerShapeOps some_computers)) ?ops ?ts of
      Some (Some ys) \<Rightarrow> map tshape ys = [[8, 2], [2, 5], [2, 8]] | _ \<Rightarrow> False)"
    by code_simp
  have "\<forall>t \<in> set ?ts. tensor_wf t" by simp
  then show ?thesis using run shape_inference_keeps_tensors [of some_computers ?ops ?ts] some_computers_keep
    by (auto split: option.splits)
qed

text \<open>
  The computer of \<open>Flatten\<close> does not keep the contract: it takes the number of dimensions from the parameters without a check.
\<close>

lemma flatten_grows:
  "(case FlattenComputer (Some (8, 1)) [tensor_of [1, 1, 1, 1, 1, 1, 1, 1, 1] MNN_NCHW []] [tensor_of [] MNN_NCHW []] of
      Some (Some us) \<Rightarrow> map t_dimensions us = [16] | _ \<Rightarrow> False)"
  by code_simp

end
