(* ===== verification/PipelineAlloc.thy ===== *)
theory PipelineAlloc
  imports DeferAllocator
begin

text \<open>
  The memory of a pipeline: \<open>Pipeline::_allocForTensor\<close> and \<open>Pipeline::execute\<close>
  (\<open>source/core/Pipeline.cpp\<close>) with \<open>CPUBackend::onAcquire\<close> and \<open>Backend::onAcquireBuffer\<close> on a CPU backend
  whose dynamic allocator is a \<open>DeferBufferAllocator\<close>. Backend and backup backend are one object, as
  they are in a CPU session.

  A tensor is a number; its descriptor and its \<open>TensorUtils::getDescribe\<close> are the record \<open>PTensor\<close>, and
  its \<open>buffer().host\<close> is the newest entry of \<open>mHost\<close> (theory \<open>DeferAllocator\<close>). The strides \<open>setLinearLayout\<close> sets are
  those of theory \<open>Tensor\<close> and do not matter here. What the static allocator returns is the parameter
  \<open>static\<close>. An execution is a parameter: the requests its \<open>onResize\<close> makes and its result code are
  fields of the command, what its \<open>onExecute\<close> computes is the argument \<open>run\<close> of \<open>pipe_execute\<close>.
\<close>

section \<open>Tensors and commands\<close>

datatype Usage = NORMAL | INPUT | OUTPUT | CONSTANT | TRAINABLE

datatype MemoryType = MEMORY_BACKEND | MEMORY_HOST | MEMORY_VIRTUAL | MEMORY_OUTSIDE

datatype StorageType = STATIC | DYNAMIC | DYNAMIC_SEPERATE | DYNAMIC_IN_EXECUTION

record CPUMemObj =
  mo_static :: bool   \<comment> \<open>\<open>mAllocator\<close> is the static allocator\<close>
  mo_chunk :: MemChunk
  mo_size :: int  \<comment> \<open>\<open>int mSize\<close>, made from a \<open>size_t\<close>\<close>

definition size_to_int :: "nat \<Rightarrow> int" where
  \<comment> \<open>the value of a \<open>size_t\<close> as \<open>int\<close>\<close>
  "size_to_int n = (let m = int n mod 4294967296 in if m < 2147483648 then m else m - 4294967296)"

definition int_to_size :: "int \<Rightarrow> nat" where
  \<comment> \<open>and back, as the comparison of the two converts it\<close>
  "int_to_size m = nat (if m < 0 then m + 18446744073709551616 else m)"

record PTensor =
  pt_usage :: Usage
  pt_memoryType :: MemoryType
  pt_useCount :: int
  pt_group :: int
  pt_backend :: bool   \<comment> \<open>\<open>getBackend()\<close> is not null\<close>
  pt_handle :: bool    \<comment> \<open>the type code is \<open>halide_type_handle\<close>\<close>
  pt_bytes :: nat      \<comment> \<open>\<open>CPUBackend::getTensorSize\<close>\<close>
  pt_mem :: "CPUMemObj option"

datatype Request = Acquire nat | Release nat

record Command =
  cm_workInputs :: "nat list"
  cm_workOutputs :: "nat list"
  cm_group :: int
  cm_requests :: "Request list"
  cm_code :: ErrorCode

record OpCacheInfo =
  oc_constant :: bool
  oc_command :: "Command list"

record PipeState =
  ps_tensors :: "nat \<Rightarrow> PTensor"
  ps_pool :: DeferAlloc

definition upd_tensor :: "nat \<Rightarrow> (PTensor \<Rightarrow> PTensor) \<Rightarrow> PipeState \<Rightarrow> PipeState" where
  "upd_tensor t f st = st\<lparr>ps_tensors := (ps_tensors st)(t := f (ps_tensors st t))\<rparr>"

section \<open>Acquiring and releasing memory\<close>

text \<open>The destructor of \<open>CPUMemObj\<close>; the static allocator is not part of the state.\<close>

definition memobj_free :: "CPUMemObj \<Rightarrow> PipeState \<Rightarrow> PipeState" where
  "memobj_free m st =
     (if mo_static m then st else st\<lparr>ps_pool := snd (defer_free (mo_chunk m) (ps_pool st))\<rparr>)"

definition reset_mem :: "nat \<Rightarrow> PipeState \<Rightarrow> PipeState" where
  \<comment> \<open>\<open>getDescribeOrigin(t)->mem = nullptr\<close>\<close>
  "reset_mem t st =
     (case pt_mem (ps_tensors st t) of
        None \<Rightarrow> st
      | Some m \<Rightarrow> memobj_free m (upd_tensor t (\<lambda>d. d\<lparr>pt_mem := None\<rparr>) st))"

datatype Acquired = AcquireFailed | AcquireKept | AcquireNew CPUMemObj

definition allocBuffer ::
  "(nat \<Rightarrow> MemChunk) \<Rightarrow> nat \<Rightarrow> nat \<Rightarrow> StorageType \<Rightarrow> PipeState \<Rightarrow> Acquired \<times> PipeState" where
  "allocBuffer static sz dest storageType st0 =
     (if (case pt_mem (ps_tensors st0 dest) of Some m \<Rightarrow> int_to_size (mo_size m) \<ge> sz | None \<Rightarrow> False)
      then (AcquireKept, st0)
      else
        (let st = reset_mem dest st0
         in if sz \<le> 0 then (AcquireFailed, st)
            else
              (let (chunk, st1) =
                     (case storageType of
                        STATIC \<Rightarrow> (static dest, st)
                      | DYNAMIC \<Rightarrow> (let (c, p) = defer_alloc sz False 0 (ps_pool st) in (c, st\<lparr>ps_pool := p\<rparr>))
                      | DYNAMIC_SEPERATE \<Rightarrow> (let (c, p) = defer_alloc sz True 0 (ps_pool st) in (c, st\<lparr>ps_pool := p\<rparr>))
                      | DYNAMIC_IN_EXECUTION \<Rightarrow> (nullChunk, st))
               in if chunk_invalid chunk then (AcquireFailed, st1)
                  else
                    (let st2 = (if storageType = STATIC then st1
                                else st1\<lparr>ps_pool := (ps_pool st1)\<lparr>mChunks := chunk_attach dest chunk (mChunks (ps_pool st1))\<rparr>\<rparr>);
                         p2 = ps_pool st2;
                         st3 = (if chunk_ptr (mChunks p2) chunk \<noteq> 0
                                then st2\<lparr>ps_pool := p2\<lparr>mHost := (dest, chunk_ptr (mChunks p2) chunk) # mHost p2\<rparr>\<rparr>
                                else st2)
                     in (AcquireNew \<lparr>mo_static = (storageType = STATIC), mo_chunk = chunk, mo_size = size_to_int sz\<rparr>, st3)))))"

definition onAcquireBuffer ::
  "(nat \<Rightarrow> MemChunk) \<Rightarrow> nat \<Rightarrow> StorageType \<Rightarrow> PipeState \<Rightarrow> bool \<times> PipeState" where
  "onAcquireBuffer static t storageType st =
     (case allocBuffer static (pt_bytes (ps_tensors st t)) t storageType st of
        (AcquireFailed, st1) \<Rightarrow> (False, st1)
      | (AcquireKept, st1) \<Rightarrow> (True, st1)
      | (AcquireNew m, st1) \<Rightarrow> (True, upd_tensor t (\<lambda>d. d\<lparr>pt_mem := Some m, pt_backend := True\<rparr>) st1))"

section \<open>\<open>_allocForTensor\<close>\<close>

record PipeConfig =
  pc_index :: int
  pc_allocInput :: bool
  pc_outputStatic :: bool
  pc_static :: "nat \<Rightarrow> MemChunk"

definition getTensorStorageType :: "PTensor \<Rightarrow> bool \<Rightarrow> StorageType" where
  "getTensorStorageType d outputStatic =
     (if OUTPUT = pt_usage d \<and> outputStatic then STATIC
      else if CONSTANT = pt_usage d \<or> INPUT = pt_usage d \<or> TRAINABLE = pt_usage d then DYNAMIC_SEPERATE
      else DYNAMIC)"

definition needRelease :: "PTensor \<Rightarrow> bool \<Rightarrow> bool" where
  "needRelease d inputOutside =
     (if 0 \<noteq> pt_useCount d then False
      else if pt_memoryType d = MEMORY_HOST \<or> pt_memoryType d = MEMORY_OUTSIDE then False
      else if \<not> pt_backend d then False
      else if inputOutside then pt_usage d = NORMAL
      else if pt_handle d then False
      else if CONSTANT = pt_usage d \<or> TRAINABLE = pt_usage d \<or> OUTPUT = pt_usage d then False
      else True)"

definition releaseTensor :: "bool \<Rightarrow> int \<Rightarrow> nat \<Rightarrow> PipeState \<Rightarrow> PipeState" where
  "releaseTensor allocInput grp t st =
     (let st1 = (if pt_usage (ps_tensors st t) \<noteq> CONSTANT
                 then upd_tensor t (\<lambda>d. d\<lparr>pt_useCount := pt_useCount d - 1\<rparr>) st else st)
      in if pt_group (ps_tensors st1 t) \<noteq> grp then st1
         else if needRelease (ps_tensors st1 t) (\<not> allocInput) then reset_mem t st1
         else st1)"

definition allocTensor :: "PipeConfig \<Rightarrow> nat \<Rightarrow> PipeState \<Rightarrow> bool \<times> PipeState" where
  "allocTensor cfg t st =
     (let d = ps_tensors st t;
          memoryType = getTensorStorageType d (pc_outputStatic cfg)
      in if pt_group d \<noteq> pc_index cfg then (True, st)
         else if pt_mem d = None then onAcquireBuffer (pc_static cfg) t memoryType st
         else (True, st))"

fun allocTensors :: "PipeConfig \<Rightarrow> nat list \<Rightarrow> PipeState \<Rightarrow> bool \<times> PipeState" where
  "allocTensors cfg [] st = (True, st)"
| "allocTensors cfg (t # ts) st =
     (case allocTensor cfg t st of (True, st1) \<Rightarrow> allocTensors cfg ts st1 | (False, st1) \<Rightarrow> (False, st1))"

text \<open>The requests of an execution go to the same backend; a failure is its \<open>OUT_OF_MEMORY\<close>.\<close>

fun onResize :: "PipeConfig \<Rightarrow> Request list \<Rightarrow> ErrorCode \<Rightarrow> PipeState \<Rightarrow> ErrorCode \<times> PipeState" where
  "onResize cfg [] code st = (code, st)"
| "onResize cfg (Acquire t # rs) code st =
     (case onAcquireBuffer (pc_static cfg) t DYNAMIC st of
        (True, st1) \<Rightarrow> onResize cfg rs code st1
      | (False, st1) \<Rightarrow> (OUT_OF_MEMORY, st1))"
| "onResize cfg (Release t # rs) code st = onResize cfg rs code (reset_mem t st)"

definition allocCommand :: "PipeConfig \<Rightarrow> Command \<Rightarrow> PipeState \<Rightarrow> ErrorCode \<times> PipeState" where
  "allocCommand cfg iter st =
     (case (if pc_allocInput cfg then allocTensors cfg (cm_workInputs iter) st else (True, st)) of
        (False, st1) \<Rightarrow> (OUT_OF_MEMORY, st1)
      | (True, st1) \<Rightarrow>
          (case allocTensors cfg (cm_workOutputs iter) st1 of
             (False, st2) \<Rightarrow> (OUT_OF_MEMORY, st2)
           | (True, st2) \<Rightarrow>
               (case (if cm_group iter = pc_index cfg then onResize cfg (cm_requests iter) (cm_code iter) st2
                      else (NO_ERROR, st2)) of
                  (code, st3) \<Rightarrow>
                    if code \<noteq> NO_ERROR then (code, st3)
                    else (NO_ERROR, fold (releaseTensor (pc_allocInput cfg) (pc_index cfg)) (cm_workInputs iter) st3))))"

fun allocCommands :: "PipeConfig \<Rightarrow> Command list \<Rightarrow> PipeState \<Rightarrow> ErrorCode \<times> PipeState" where
  "allocCommands cfg [] st = (NO_ERROR, st)"
| "allocCommands cfg (c # cs) st =
     (case allocCommand cfg c st of
        (code, st1) \<Rightarrow> if code \<noteq> NO_ERROR then (code, st1) else allocCommands cfg cs st1)"

definition executed :: "OpCacheInfo list \<Rightarrow> Command list" where
  \<comment> \<open>the commands of the operations that are not constant, in the order of the loops\<close>
  "executed infos = concat (map oc_command (filter (\<lambda>info. \<not> oc_constant info) infos))"

definition put_useCount :: "(int \<Rightarrow> int) \<Rightarrow> nat \<Rightarrow> PipeState \<Rightarrow> PipeState" where
  "put_useCount g t st =
     (if pt_usage (ps_tensors st t) \<noteq> CONSTANT then upd_tensor t (\<lambda>d. d\<lparr>pt_useCount := g (pt_useCount d)\<rparr>) st else st)"

definition countUses :: "Command list \<Rightarrow> PipeState \<Rightarrow> PipeState" where
  "countUses cmds st =
     (let inputs = concat (map cm_workInputs cmds)
      in fold (put_useCount (\<lambda>n. n + 1)) inputs (fold (put_useCount (\<lambda>n. 0)) inputs st))"

definition recycleDynamicMemory :: "bool \<Rightarrow> Command \<Rightarrow> PipeState \<Rightarrow> PipeState" where
  "recycleDynamicMemory outputStatic command st =
     fold (\<lambda>t s. if DYNAMIC = getTensorStorageType (ps_tensors s t) outputStatic then reset_mem t s else s)
       (cm_workOutputs command @ cm_workInputs command) st"

definition recycleAll :: "PipeConfig \<Rightarrow> OpCacheInfo list \<Rightarrow> PipeState \<Rightarrow> PipeState" where
  "recycleAll cfg infos st =
     fold (\<lambda>c s. if cm_group c \<noteq> pc_index cfg then s else recycleDynamicMemory (pc_outputStatic cfg) c s)
       (concat (map oc_command infos)) st"

definition onResizeBegin :: "PipeState \<Rightarrow> PipeState" where
  "onResizeBegin st = st\<lparr>ps_pool := defer_reset (ps_pool st)\<rparr>"

definition onResizeEnd :: "(nat \<Rightarrow> nat \<Rightarrow> nat \<times> nat) \<Rightarrow> PipeState \<Rightarrow> (ErrorCode \<times> PipeState) option" where
  "onResizeEnd onAlloc st =
     (case defer_compute onAlloc (ps_pool st) of
        None \<Rightarrow> None
      | Some (code, p) \<Rightarrow> Some (code, st\<lparr>ps_pool := p\<rparr>))"

definition allocForTensor ::
  "(nat \<Rightarrow> nat \<Rightarrow> nat \<times> nat) \<Rightarrow> PipeConfig \<Rightarrow> OpCacheInfo list \<Rightarrow> PipeState \<Rightarrow> (ErrorCode \<times> PipeState) option" where
  "allocForTensor onAlloc cfg infos st0 =
     (let st1 = onResizeBegin (onResizeBegin (countUses (executed infos) st0))
      in case allocCommands cfg (executed infos) st1 of
           (code, st2) \<Rightarrow>
             if code \<noteq> NO_ERROR then Some (code, st2)
             else
               (case onResizeEnd onAlloc (recycleAll cfg infos st2) of
                  None \<Rightarrow> None
                | Some (code, st3) \<Rightarrow>
                    if code \<noteq> NO_ERROR then Some (code, st3) else onResizeEnd onAlloc st3))"

section \<open>Executing\<close>

text \<open>
  Memory is a map from addresses to cells. An execution computes the contents of its outputs from
  those of its inputs, and leaves anything in the memory it took in \<open>onResize\<close>.
\<close>

definition host_of :: "PipeState \<Rightarrow> nat \<Rightarrow> nat" where
  "host_of st t = (case map_of (mHost (ps_pool st)) t of Some a \<Rightarrow> a | None \<Rightarrow> 0)"

definition read_tensor :: "PipeState \<Rightarrow> (nat \<Rightarrow> 'v) \<Rightarrow> nat \<Rightarrow> 'v list" where
  "read_tensor st mem t = map (\<lambda>k. mem (host_of st t + k)) [0..<pt_bytes (ps_tensors st t)]"

definition write_tensor :: "PipeState \<Rightarrow> nat \<Rightarrow> (nat \<Rightarrow> 'v) \<Rightarrow> (nat \<Rightarrow> 'v) \<Rightarrow> nat \<Rightarrow> 'v" where
  \<comment> \<open>the cells of \<open>t\<close> become \<open>f 0, f 1, \<dots>\<close>\<close>
  "write_tensor st t f mem =
     (\<lambda>a. if host_of st t \<le> a \<and> a < host_of st t + pt_bytes (ps_tensors st t) then f (a - host_of st t) else mem a)"

definition own_tensors :: "Command \<Rightarrow> nat list" where
  "own_tensors c = concat (map (\<lambda>r. case r of Acquire t \<Rightarrow> [t] | Release t \<Rightarrow> []) (cm_requests c))"

definition onExecute ::
  "(Command \<Rightarrow> 'v list list \<Rightarrow> nat \<Rightarrow> nat \<Rightarrow> 'v) \<Rightarrow> (Command \<Rightarrow> (nat \<Rightarrow> 'v) \<Rightarrow> nat \<Rightarrow> nat \<Rightarrow> 'v) \<Rightarrow>
     PipeState \<Rightarrow> Command \<Rightarrow> (nat \<Rightarrow> 'v) \<Rightarrow> nat \<Rightarrow> 'v" where
  "onExecute run junk st c mem =
     (let args = map (read_tensor st mem) (cm_workInputs c);
          mem1 = fold (\<lambda>t. write_tensor st t (junk c mem t)) (own_tensors c) mem
      in fold (\<lambda>t. write_tensor st t (run c args t)) (cm_workOutputs c) mem1)"

fun executeCommands ::
  "(Command \<Rightarrow> 'v list list \<Rightarrow> nat \<Rightarrow> nat \<Rightarrow> 'v) \<Rightarrow> (Command \<Rightarrow> (nat \<Rightarrow> 'v) \<Rightarrow> nat \<Rightarrow> nat \<Rightarrow> 'v) \<Rightarrow>
     (Command \<Rightarrow> ErrorCode) \<Rightarrow> PipeState \<Rightarrow> Command list \<Rightarrow> (nat \<Rightarrow> 'v) \<Rightarrow> ErrorCode \<times> (nat \<Rightarrow> 'v)" where
  "executeCommands run junk status st [] mem = (NO_ERROR, mem)"
| "executeCommands run junk status st (c # cs) mem =
     (let mem1 = onExecute run junk st c mem
      in if status c \<noteq> NO_ERROR then (status c, mem1) else executeCommands run junk status st cs mem1)"

definition pipe_execute ::
  "ErrorCode \<Rightarrow> (Command \<Rightarrow> 'v list list \<Rightarrow> nat \<Rightarrow> nat \<Rightarrow> 'v) \<Rightarrow> (Command \<Rightarrow> (nat \<Rightarrow> 'v) \<Rightarrow> nat \<Rightarrow> nat \<Rightarrow> 'v) \<Rightarrow>
     (Command \<Rightarrow> ErrorCode) \<Rightarrow> PipeState \<Rightarrow> OpCacheInfo list \<Rightarrow> (nat \<Rightarrow> 'v) \<Rightarrow> ErrorCode \<times> (nat \<Rightarrow> 'v)" where
  \<comment> \<open>\<open>enterCode\<close> is the status of the runtime; \<open>mem\<close> has the inputs copied in\<close>
  "pipe_execute enterCode run junk status st infos mem =
     (if enterCode \<noteq> NO_ERROR then (enterCode, mem)
      else executeCommands run junk status st (executed infos) mem)"

end
