(* ===== verification/PipelinePool.thy ===== *)
theory PipelinePool
  imports PipelineAlloc DeferSafety
begin

text \<open>
  What a pipeline relies on of the dynamic allocator: \<open>pool_ok s H bl\<close> says that the allocator \<open>s\<close>
  holds the chunks \<open>dom H\<close>, each at least as long as \<open>H\<close> says, at the positions of the blocks \<open>bl\<close>. Requests
  keep it and never move a chunk against another (\<open>moves\<close>, theory \<open>DeferLayout\<close>), and \<open>compute\<close>
  gives every attached tensor the address of its chunk.
\<close>

section \<open>Attached tensors\<close>

definition tensors_of :: "DeferAlloc \<Rightarrow> nat list list" where
  "tensors_of s = map mn_tensors (mChunks s)"

definition att :: "DeferAlloc \<Rightarrow> nat \<Rightarrow> nat \<Rightarrow> bool" where
  "att s t i \<longleftrightarrow> i < length (tensors_of s) \<and> t \<in> set (tensors_of s ! i)"

named_theorems pool_calc "the attached tensors under the steps of the allocator"

lemma tensors_of_upd [pool_calc]: "(\<And>n. mn_tensors (f n) = mn_tensors n) \<Longrightarrow> tensors_of (upd_node i f s) = tensors_of s"
  by (cases "i < length (mChunks s)") (simp_all add: tensors_of_def upd_node_def map_update list_update_same_conv list_update_beyond)

lemma tensors_of_fields [simp]:
  "tensors_of (s\<lparr>mHead := a\<rparr>) = tensors_of s" "tensors_of (s\<lparr>mTail := a\<rparr>) = tensors_of s"
  "tensors_of (s\<lparr>mFreeList := l\<rparr>) = tensors_of s" "tensors_of (s\<lparr>mHost := h\<rparr>) = tensors_of s"
  "tensors_of (s\<lparr>mBarrier := b\<rparr>) = tensors_of s"
  by (simp_all add: tensors_of_def)

lemma tensors_of_insert_after [pool_calc]: "tensors_of (insert_after c p s) = tensors_of s"
  by (auto simp: insert_after_def Let_def pool_calc split: option.splits)

lemma tensors_of_erase [pool_calc]: "tensors_of (erase_node c s) = tensors_of s"
  by (auto simp: erase_node_def Let_def pool_calc split: option.splits)

lemma tensors_of_fuse [pool_calc]: "tensors_of (snd (fuse_to_left l r s)) = tensors_of s"
  by (simp add: fuse_to_left_def Let_def pool_calc)

lemma tensors_of_free [pool_calc]: "tensors_of (free_node i s) = tensors_of s"
  by (auto simp: free_node_def Let_def insertFree_def eraseFree_def pool_calc case_prod_beta split: option.splits)

lemma tensors_of_create: "tensors_of (snd (createMemNode n s)) = tensors_of s @ [[]]"
  by (simp add: tensors_of_def createMemNode_def newMemNode_def)

lemma tensors_of_alloc: "tensors_of (snd (defer_alloc n separate al s)) \<in> {tensors_of s, tensors_of s @ [[]]}"
proof -
  have "tensors_of (snd (createMemNode k t)) = tensors_of t @ [[]]" for k t by (rule tensors_of_create)
  then show ?thesis
    by (simp add: defer_alloc_def Let_def insertFree_def pool_calc case_prod_beta)
qed

lemma att_alloc: "att (snd (defer_alloc n separate al s)) t i = att s t i"
  using tensors_of_alloc [of n separate al s] by (auto simp: att_def nth_append split: if_splits)

lemma att_attach:
  assumes "i < length (mChunks s)"
  shows "att (s\<lparr>mChunks := chunk_attach t (nodeChunk i) (mChunks s)\<rparr>) t' j \<longleftrightarrow> att s t' j \<or> (t' = t \<and> j = i)"
  using assms by (cases "j = i") (auto simp: att_def tensors_of_def chunk_attach_def nodeChunk_def nth_list_update)

lemma upd_outside [simp]: "mHost (upd_node i f s) = mHost s" "mParent (upd_node i f s) = mParent s"
  by (simp_all add: upd_node_def)

lemma surgery_outside [simp]:
  "mHost (insert_after c p s) = mHost s" "mParent (insert_after c p s) = mParent s"
  "mHost (erase_node c s) = mHost s" "mParent (erase_node c s) = mParent s"
  "mPtr (insert_after c p s) = mPtr s" "mPtr (erase_node c s) = mPtr s"
  by (simp_all add: insert_after_def erase_node_def Let_def split: option.split)

lemma fuse_outside [simp]: "mHost (snd (fuse_to_left l r s)) = mHost s" "mParent (snd (fuse_to_left l r s)) = mParent s"
  "mPtr (snd (fuse_to_left l r s)) = mPtr s"
  by (simp_all add: fuse_to_left_def Let_def)

lemma free_outside [simp]: "mHost (free_node i s) = mHost s" "mParent (free_node i s) = mParent s"
  "mPtr (free_node i s) = mPtr s"
  by (simp_all add: free_node_def Let_def insertFree_def eraseFree_def case_prod_beta split: option.split)

lemma alloc_outside: "mHost (snd (defer_alloc n separate al s)) = mHost s" "mParent (snd (defer_alloc n separate al s)) = mParent s"
  "mPtr (snd (defer_alloc n separate al s)) = mPtr s"
  by (simp_all add: defer_alloc_def Let_def insertFree_def createMemNode_def)

section \<open>The state of the pool\<close>

definition pool_ok :: "DeferAlloc \<Rightarrow> (nat \<Rightarrow> nat option) \<Rightarrow> block list \<Rightarrow> bool" where
  "pool_ok s H bl \<longleftrightarrow> \<not> mBarrier s \<and> 0 < mAlign s \<and> ch_first (mPtr s) = 0 \<and> (\<exists>held. set held = dom H \<and> run_inv (s, held) bl) \<and>
     (\<forall>i n. H i = Some n \<longrightarrow> (\<exists>b \<in> set bl. bused b \<and> bid b = i \<and> n \<le> bsize b))"

lemma pool_okD:
  assumes "pool_ok s H bl"
  shows "\<not> mBarrier s" "0 < mAlign s" "defer_inv s bl" "queued s = []" "dom H = set (used_ids bl)"
    "H i = Some n \<Longrightarrow> \<exists>b \<in> set bl. bused b \<and> bid b = i \<and> n \<le> bsize b" "ch_first (mPtr s) = 0"
  using assms by (auto simp: pool_ok_def run_inv_def queued_def)

lemma pool_ok_held: "pool_ok s H bl \<Longrightarrow> H i = Some n \<Longrightarrow> i < length (mChunks s) \<and> inside bl i n"
proof -
  assume a: "pool_ok s H bl" "H i = Some n"
  obtain b where b: "b \<in> set bl" "bused b" "bid b = i" "n \<le> bsize b" using pool_okD(6) [OF a] by blast
  have "i \<in> set (all_ids bl)" using b(1,3) bid_in_all_ids by blast
  then have "i < length (mChunks s)" using pool_okD(3) [OF a(1)] by (simp add: defer_inv_def struct_rep_def)
  moreover have "inside bl i n" using block_inside [OF b(1)] b(3,4) unfolding inside_def by fastforce
  ultimately show ?thesis ..
qed

lemma pool_ok_reset: "0 < mAlign s \<Longrightarrow> pool_ok (defer_reset s) Map.empty []"
  by (simp add: pool_ok_def run_inv_def defer_inv_def struct_rep_def no_free_pair_def sorted_by_def defer_reset_def queued_def)

lemma pool_ok_host [simp]: "pool_ok (s\<lparr>mHost := h\<rparr>) H bl = pool_ok s H bl"
proof -
  have "node_size (s\<lparr>mHost := h\<rparr>) = node_size s" by (rule ext) (simp add: node_size_def)
  then show ?thesis by (simp add: pool_ok_def run_inv_def defer_inv_def struct_rep_def queued_def)
qed

lemma pool_apart:
  assumes "pool_ok s H bl" "H i = Some n" "H j = Some m" "i \<noteq> j"
  shows "apart bl i n j \<or> apart bl j m i"
proof -
  obtain b where b: "b \<in> set bl" "bused b" "bid b = i" "n \<le> bsize b" using pool_okD(6) [OF assms(1,2)] by blast
  obtain c where c: "c \<in> set bl" "bused c" "bid c = j" "m \<le> bsize c" using pool_okD(6) [OF assms(1,3)] by blast
  have "apart bl i (bsize b) j \<or> apart bl j (bsize c) i" using blocks_apart [OF b(1) c(1)] b(3) c(3) assms(4) by auto
  then show ?thesis using b(4) c(4) unfolding apart_def by (meson add_left_mono le_trans)
qed

section \<open>Requests\<close>

lemma plan_alloc_keeps_used:
  "plan_alloc bl k i bl' \<Longrightarrow> (\<forall>b \<in> set bl. bused b \<longrightarrow> b \<in> set bl') \<and> (\<exists>b \<in> set bl'. bused b \<and> bid b = i \<and> bsize b = k)"
  by (induction rule: plan_alloc.induct) auto

lemma tail_apart:
  assumes "inside bl j m"
  shows "apart (bl @ [Block i k True []]) j m i"
proof -
  obtain l r where l: "l < length bl" "rel (bl ! l) j r" "pre bl l + r + m \<le> extent bl"
    using assms by (auto simp: inside_def)
  show ?thesis
    by (rule apartI [of l "length bl" _ _ r _ 0]) (use l pre_append [of bl "[Block i k True []]" 0] in \<open>auto simp: nth_append pre_le rel_def\<close>)
qed

lemma alloc_placed:
  assumes inv: "defer_inv s bl" and res: "defer_alloc n separate 0 s = (ch, s')"
  obtains i bl' where "ch = nodeChunk i" "defer_inv s' bl'" "plan_alloc bl (UP_DIV n (mAlign s) * mAlign s) i bl'"
    "separate \<Longrightarrow> \<forall>j m. inside bl j m \<longrightarrow> apart bl' j m i"
proof (cases separate)
  case True
  let ?k = "UP_DIV n (mAlign s) * mAlign s"
  obtain c s1 where c: "createMemNode ?k s = (c, s1)" by fastforce
  have s': "ch = nodeChunk c" "s' = insert_after c None s1" using res True c by (simp_all add: defer_alloc_def Let_def)
  from defer_alloc_tail_refines [OF inv c s'(2)] s'(1) tail_apart show thesis by (intro that) auto
next
  case False
  then show thesis using defer_alloc_refines [OF inv res refl] that by auto
qed

lemma pool_alloc:
  assumes ok: "pool_ok s H bl" and res: "defer_alloc n separate 0 s = (ch, s')"
  obtains i bl' where "ch = nodeChunk i" "H i = None" "pool_ok s' (H(i \<mapsto> n)) bl'" "moves bl bl'"
    "separate \<Longrightarrow> \<forall>j m. inside bl j m \<longrightarrow> apart bl' j m i"
    "\<And>t j. att s' t j = att s t j" "mAlign s' = mAlign s" "mHost s' = mHost s" "mParent s' = mParent s"
proof -
  obtain held where held: "set held = dom H" "run_inv (s, held) bl" using ok by (auto simp: pool_ok_def)
  let ?k = "UP_DIV n (mAlign s) * mAlign s"
  obtain i bl' where i: "ch = nodeChunk i" "defer_inv s' bl'" "plan_alloc bl ?k i bl'"
      and sep: "separate \<Longrightarrow> \<forall>j m. inside bl j m \<longrightarrow> apart bl' j m i"
    using alloc_placed [OF pool_okD(3) [OF ok] res] by blast
  note kept = plan_alloc_keeps_used [OF i(3)]
  have k: "n \<le> ?k" by (rule UP_DIV_mult_ge [OF pool_okD(2) [OF ok]])
  have fields: "mTotalSize s' = mTotalSize s" "mBarrier s' = mBarrier s" "mAlign s' = mAlign s"
      "mBarrierFreeChunks s' = mBarrierFreeChunks s"
    using defer_alloc_fields [of n separate 0 s] res by simp_all
  have inv: "run_inv (s', i # held) bl'" by (rule run_inv_plan [OF held(2) i(2,3) fields(1,2,4)])
  then have new: "H i = None" using held(1) by (auto simp: run_inv_def)
  have "pool_ok s' (H(i \<mapsto> n)) bl'"
    unfolding pool_ok_def
  proof (intro conjI allI impI)
    show "\<exists>h. set h = dom (H(i \<mapsto> n)) \<and> run_inv (s', h) bl'" using inv held(1) by (intro exI [of _ "i # held"]) auto
    fix j m assume "(H(i \<mapsto> n)) j = Some m"
    then show "\<exists>b \<in> set bl'. bused b \<and> bid b = j \<and> m \<le> bsize b"
      using kept k pool_okD(6) [OF ok, of j m] by (cases "j = i") auto
  qed (use fields pool_okD(1,2,7) [OF ok] alloc_outside(3) [of n separate 0 s] res in auto)
  moreover have "moves bl bl'" by (rule plan_alloc_moves [OF i(3)])
  moreover have "att s' t j = att s t j" for t j using att_alloc [of n separate 0 s] res by simp
  moreover have "mHost s' = mHost s" "mParent s' = mParent s" using alloc_outside [of n separate 0 s] res by simp_all
  ultimately show thesis using that i(1) new fields(3) sep by blast
qed

lemma free_at_keeps_used: "x \<in> set A \<union> set B \<Longrightarrow> bused x \<Longrightarrow> x \<in> set (free_at A b B)"
proof -
  assume x: "x \<in> set A \<union> set B" "bused x"
  obtain A' b1 where l: "fuse_left A b = (A', b1)" by fastforce
  obtain b2 B' where r: "fuse_right b1 B = (b2, B')" by fastforce
  have "x \<in> set A \<Longrightarrow> x \<in> set A'"
    using l x(2) by (cases A rule: rev_cases) (auto simp: fuse_left_def split: if_splits)
  moreover have "x \<in> set B \<Longrightarrow> x \<in> set B'"
    using r x(2) by (cases B) (auto simp: fuse_right_def split: if_splits)
  ultimately show ?thesis using x(1) by (auto simp: free_at_def l r)
qed

lemma pool_free:
  assumes ok: "pool_ok s H bl" and i: "H i = Some n"
  obtains s' bl' where "snd (defer_free (nodeChunk i) s) = s'" "pool_ok s' (H(i := None)) bl'" "moves bl bl'"
    "\<And>t j. att s' t j = att s t j" "mAlign s' = mAlign s" "mHost s' = mHost s" "mParent s' = mParent s"
proof -
  have s': "snd (defer_free (nodeChunk i) s) = free_node i s"
    using pool_okD(1) [OF ok] by (simp add: defer_free_def nodeChunk_def)
  obtain held where held: "set held = dom H" "run_inv (s, held) bl" using ok by (auto simp: pool_ok_def)
  obtain b where b: "b \<in> set bl" "bused b" "bid b = i" using pool_okD(6) [OF ok i] by blast
  then obtain A B where AB: "bl = A @ b # B" by (meson split_list)
  have run: "run_inv (free_node i s, removeAll i held) (free_at A b B)"
    using run_inv_free_at [of s held A b B] held(2) AB b pool_okD(1) [OF ok] by simp
  have "pool_ok (free_node i s) (H(i := None)) (free_at A b B)"
    unfolding pool_ok_def
  proof (intro conjI allI impI)
    show "\<exists>h. set h = dom (H(i := None)) \<and> run_inv (free_node i s, h) (free_at A b B)"
      using run held(1) by (intro exI [of _ "removeAll i held"]) auto
    fix j m assume j: "(H(i := None)) j = Some m"
    then obtain c where c: "c \<in> set bl" "bused c" "bid c = j" "m \<le> bsize c" using pool_okD(6) [OF ok, of j m] by (auto split: if_splits)
    then have "c \<in> set A \<union> set B" using AB b(3) j by (auto split: if_splits)
    then show "\<exists>b' \<in> set (free_at A b B). bused b' \<and> bid b' = j \<and> m \<le> bsize b'"
      using free_at_keeps_used [OF _ c(2)] c by blast
  qed (use pool_okD(1,2,7) [OF ok] in auto)
  moreover have "att (free_node i s) t j = att s t j" for t j by (simp add: att_def tensors_of_free)
  moreover have "moves bl (free_at A b B)" using free_at_moves AB by simp
  ultimately show thesis using that s' by simp
qed

lemma pool_attach:
  assumes ok: "pool_ok s H bl" and i: "H i = Some n"
  shows "pool_ok (s\<lparr>mChunks := chunk_attach t (nodeChunk i) (mChunks s)\<rparr>) H bl"
    "att (s\<lparr>mChunks := chunk_attach t (nodeChunk i) (mChunks s)\<rparr>) t' j \<longleftrightarrow> att s t' j \<or> (t' = t \<and> j = i)"
proof -
  show "att (s\<lparr>mChunks := chunk_attach t (nodeChunk i) (mChunks s)\<rparr>) t' j \<longleftrightarrow> att s t' j \<or> (t' = t \<and> j = i)"
    using att_attach pool_ok_held [OF ok i] by simp
  let ?s = "s\<lparr>mChunks := chunk_attach t (nodeChunk i) (mChunks s)\<rparr>"
  have e: "?s = upd_node i (\<lambda>n. n\<lparr>mn_tensors := mn_tensors n @ [t]\<rparr>) s"
    by (simp add: upd_node_def chunk_attach_def nodeChunk_def)
  obtain b where b: "b \<in> set bl" "bused b" "bid b = i" using pool_okD(6) [OF ok i] by blast
  then obtain A B where bl: "bl = A @ b # B" by (meson split_list)
  have rep: "struct_rep s (A @ b # B)" using pool_okD(3) [OF ok] bl by (simp add: defer_inv_def)
  have "struct_rep ?s bl"
    unfolding e upd_node_def bl unfolding b(3) [symmetric] using struct_repD(4,5) [OF rep]
    by (intro struct_rep_block [OF rep _ _ _ refl]) (simp_all add: node_matches_def dseg_append tree_eq_def)
  moreover have "node_size ?s = node_size s"
  proof
    fix j show "node_size ?s j = node_size s j"
      unfolding e by (cases "j = i"; cases "i < length (mChunks s)") (simp_all add: node_size_def list_update_beyond)
  qed
  ultimately show "pool_ok ?s H bl"
    using ok by (auto simp: pool_ok_def run_inv_def defer_inv_def queued_def)
qed

section \<open>Computing the layout\<close>

lemma visitKids_tensors: "visitKids fuel p cs ns = Some ns' \<Longrightarrow> map mn_tensors ns' = map mn_tensors ns"
proof (induction fuel p cs ns arbitrary: ns' rule: visitKids.induct)
  case (3 fuel p c cs ns)
  let ?ns = "ns[c := (ns ! c)\<lparr>mn_offset := mn_offset (ns ! c) + mn_offset (ns ! p)\<rparr>]"
  have same: "map mn_tensors ?ns = map mn_tensors ns"
    by (cases "c < length ns") (simp_all add: map_update list_update_same_conv list_update_beyond)
  obtain ns2 where ns2: "visitKids fuel c (mn_children (?ns ! c)) ?ns = Some ns2" "visitKids fuel p cs ns2 = Some ns'"
    using "3.prems" by (auto simp: Let_def split: option.splits)
  show ?case using "3.IH"(1) [OF refl ns2(1)] "3.IH"(2) [OF refl ns2(1) ns2(2)] same by simp
qed auto

lemma compute_loop_tensors: "compute_loop fuel p acc ns = Some (k, ns') \<Longrightarrow> map mn_tensors ns' = map mn_tensors ns"
proof (induction fuel p acc ns arbitrary: k ns' rule: compute_loop.induct)
  case (3 fuel chunk acc ns)
  let ?ns = "ns[chunk := (ns ! chunk)\<lparr>mn_offset := acc\<rparr>]"
  have same: "map mn_tensors ?ns = map mn_tensors ns"
    by (cases "chunk < length ns") (simp_all add: map_update list_update_same_conv list_update_beyond)
  obtain ns2 where ns2: "visiChildren (length ns) chunk ?ns = Some ns2"
      "compute_loop fuel (mn_right (ns2 ! chunk)) (acc + mn_size (ns2 ! chunk)) ns2 = Some (k, ns')"
    using "3.prems" by (auto simp: Let_def split: option.splits)
  show ?case using "3.IH" [OF refl ns2(1) ns2(2)] visitKids_tensors [OF ns2(1) [unfolded visiChildren_def]] same by simp
qed auto

lemma map_of_applyNode:
  "map_of (fold (applyNode ptr all) ns h) t =
     (if \<exists>n \<in> set ns. t \<in> set (mn_tensors n) then Some (chunk_base all ptr + (mn_offset (last (filter (\<lambda>n. t \<in> set (mn_tensors n)) ns)) + chunk_offset all ptr))
      else map_of h t)"
proof (induction ns rule: rev_induct)
  case (snoc n ns)
  have "map_of (fold (\<lambda>t h. (t, a) # h) ts h) t = (if t \<in> set ts then Some a else map_of h t)" for ts h and a :: nat
    by (induction ts arbitrary: h) auto
  then show ?case using snoc by (auto simp: applyNode_def)
qed simp

lemma filter_single:
  assumes "i < length xs" "\<And>j. j < length xs \<Longrightarrow> P (xs ! j) \<longleftrightarrow> j = i"
  shows "filter P xs = [xs ! i]"
proof -
  have "filter P (take i xs) = []" "filter P (drop (Suc i) xs) = []"
    using assms by (auto simp: filter_empty_conv in_set_conv_nth)
  moreover have "filter P xs = filter P (take i xs @ xs ! i # drop (Suc i) xs)" using id_take_nth_drop [OF assms(1)] by simp
  ultimately show ?thesis using assms by simp
qed

definition buffer_base :: "DeferAlloc \<Rightarrow> nat" where
  \<comment> \<open>the address of the memory behind the pool\<close>
  "buffer_base s = ch_first (sb_current (mParent s)) + ch_second (sb_current (mParent s))"

definition buffer_ok :: "SingleBuffer \<Rightarrow> bool" where
  \<comment> \<open>the buffer is empty or owns memory\<close>
  "buffer_ok b \<longleftrightarrow> ch_node (sb_current b) = None \<and> (ch_first (sb_current b) = 0 \<longrightarrow> sb_currentSize b = 0)"

lemma apply_hosts:
  assumes res: "defer_apply onAlloc s = (NO_ERROR, s3)" and total: "0 < mTotalSize s" and fl: "mFreeList s \<noteq> []"
    and ptr: "ch_first (mPtr s) = 0" "buffer_ok (mParent s)"
  shows "0 < buffer_base s3" "mTotalSize s3 \<le> sb_currentSize (mParent s3)" "buffer_ok (mParent s3)"
    "(\<And>j. att s t j \<longleftrightarrow> j = i) \<Longrightarrow> map_of (mHost s3) t = Some (buffer_base s3 + mn_offset (mChunks s ! i))"
proof -
  define small where "small = (sb_currentSize (mParent s) < mTotalSize s)"
  define r where "r = (if small then sb_realloc onAlloc (mTotalSize s) (mAlign s) (mParent s) else (NO_ERROR, mParent s))"
  define b where "b = snd r"
  have ok: "fst r = NO_ERROR"
    using res fl by (auto simp: defer_apply_def Let_def small_def r_def split: prod.splits if_splits)
  have cur: "ch_first (sb_current b) \<noteq> 0" "ch_node (sb_current b) = None"
    using ok total ptr(2) by (auto simp: b_def r_def small_def sb_realloc_def Let_def rawChunk_def buffer_ok_def split: if_splits)
  define ns where "ns = map (\<lambda>n. n\<lparr>mn_base := chunk_ptr (mChunks s) (sb_current b)\<rparr>) (mChunks s)"
  have s3: "mHost s3 = fold (applyNode (sb_current b) ns) ns (mHost s)" "mParent s3 = b" "mTotalSize s3 = mTotalSize s"
    using res fl ok cur ptr(1)
    by (auto simp: defer_apply_def Let_def small_def [symmetric] r_def [symmetric] b_def ns_def split: prod.splits if_splits)
  show "0 < buffer_base s3" using cur(1) by (simp add: buffer_base_def s3)
  show "mTotalSize s3 \<le> sb_currentSize (mParent s3)"
    using ok by (auto simp: s3 b_def r_def small_def sb_realloc_def Let_def split: if_splits)
  show "buffer_ok (mParent s3)" using cur by (simp add: buffer_ok_def s3)
  show "map_of (mHost s3) t = Some (buffer_base s3 + mn_offset (mChunks s ! i))" if t: "\<And>j. att s t j \<longleftrightarrow> j = i"
  proof -
    have i: "i < length ns" "t \<in> set (mn_tensors (ns ! i))" using t [of i] by (auto simp: att_def tensors_of_def ns_def)
    have "filter (\<lambda>n. t \<in> set (mn_tensors n)) ns = [ns ! i]"
    proof (rule filter_single [OF i(1)])
      fix j assume "j < length ns"
      then show "t \<in> set (mn_tensors (ns ! j)) \<longleftrightarrow> j = i" using t [of j] by (simp add: att_def tensors_of_def ns_def)
    qed
    moreover have "\<exists>n \<in> set ns. t \<in> set (mn_tensors n)" using i by (meson nth_mem)
    ultimately show ?thesis
      using i(1) cur(2) by (simp add: s3 buffer_base_def map_of_applyNode chunk_base_def chunk_offset_def ns_def)
  qed
qed

lemma pool_compute:
  assumes ok: "pool_ok s Map.empty bl" and comp: "defer_compute onAlloc s = Some (NO_ERROR, s3)"
    and buf: "buffer_ok (mParent s)" and some: "inside bl i0 n0" "0 < n0"
  obtains "0 < buffer_base s3" "0 < mTotalSize s3" "mTotalSize s3 \<le> sb_currentSize (mParent s3)" "buffer_ok (mParent s3)"
    "\<And>i n. inside bl i n \<Longrightarrow> layout_offset s3 i + n \<le> mTotalSize s3"
    "\<And>i n j. apart bl i n j \<Longrightarrow> layout_offset s3 i + n \<le> layout_offset s3 j"
    "\<And>t i. (\<And>j. att s t j \<longleftrightarrow> j = i) \<Longrightarrow> map_of (mHost s3) t = Some (buffer_base s3 + layout_offset s3 i)"
proof -
  have inv: "run_inv (s, []) bl" using ok by (auto simp: pool_ok_def)
  have none: "live (s, []) = {}" using pool_okD(4) [OF ok] by (simp add: live_def)
  have comp': "defer_compute onAlloc (fst (s, [] :: nat list)) = Some (NO_ERROR, s3)" using comp by simp
  note pos = final_position [OF inv none comp']
  have ne: "bl \<noteq> []" using some(1) by (auto simp: inside_def)
  have total: "0 < mTotalSize s3" using pos(1) [OF some(1)] some(2) by linarith
  have t0: "mTotalSize s = 0" using inv by (simp add: run_inv_def)
  have fl: "mFreeList s \<noteq> []"
    using comp total t0 by (auto simp: defer_compute_def)
  have "\<exists>sz ns. compute_loop (length (mChunks s)) (mHead s) 0 (mChunks s) = Some (sz, ns) \<and>
      defer_apply onAlloc (s\<lparr>mTotalSize := sz, mChunks := ns\<rparr>) = (NO_ERROR, s3)"
    using comp t0 fl by (auto simp: defer_compute_def Let_def split: if_splits option.splits)
  then obtain sz ns where sz: "compute_loop (length (mChunks s)) (mHead s) 0 (mChunks s) = Some (sz, ns)"
      "defer_apply onAlloc (s\<lparr>mTotalSize := sz, mChunks := ns\<rparr>) = (NO_ERROR, s3)" by blast
  have "sz = mTotalSize s3" using defer_apply_fields(1) [OF sz(2)] by simp
  note ns = sz [unfolded this]
  let ?s = "s\<lparr>mTotalSize := mTotalSize s3, mChunks := ns\<rparr>"
  have tens: "map mn_tensors ns = map mn_tensors (mChunks s)" by (rule compute_loop_tensors [OF ns(1)])
  then have at: "att ?s t j = att s t j" for t j by (simp add: att_def tensors_of_def)
  have pre: "0 < mTotalSize ?s" "mFreeList ?s \<noteq> []" "ch_first (mPtr ?s) = 0" "buffer_ok (mParent ?s)"
    using total fl pool_okD(7) [OF ok] buf by simp_all
  note base = apply_hosts [OF ns(2) pre]
  have "map_of (mHost s3) t = Some (buffer_base s3 + layout_offset s3 i)" if t: "\<And>j. att s t j \<longleftrightarrow> j = i" for t i
  proof -
    have "i < length ns" using t [of i] arg_cong [OF tens, of length] by (simp add: att_def tensors_of_def)
    then have "layout_offset s3 i = mn_offset (ns ! i)" using defer_apply_fields(3) [OF ns(2), of i] by (simp add: layout_offset_def)
    moreover have "map_of (mHost s3) t = Some (buffer_base s3 + mn_offset (mChunks ?s ! i))" by (rule base(4)) (simp only: at t)
    ultimately show ?thesis by simp
  qed
  moreover have "layout_offset s3 i + n \<le> layout_offset s3 j" if ap: "apart bl i n j" for i n j
  proof -
    obtain b where b: "bl = [b]" "\<And>i r. rel b i r \<Longrightarrow> layout_offset s3 i = r"
      using final_offset [OF inv none comp' ne] by blast
    then show ?thesis using ap by (auto simp: apart_def)
  qed
  ultimately show thesis using pos(1) by (intro that [OF base(1) total base(2,3)]) auto
qed

end
