(* ===== verification/PipelineEvents.thy ===== *)
theory PipelineEvents
  imports PipelinePool
begin

text \<open>
  The loop of \<open>_allocForTensor\<close> as a list of events: a tensor is acquired, an execution takes or gives
  memory of its own, a tensor is used for the last time. The invariant \<open>ev_inv\<close> speaks about the events
  that remain: what is still needed is held, and nothing is acquired twice.
\<close>

section \<open>Events\<close>

datatype event = EvAcq nat | EvTake nat | EvGive nat | EvUse nat

fun ev_step :: "PipeConfig \<Rightarrow> event \<Rightarrow> PipeState \<Rightarrow> PipeState option" where
  "ev_step cfg (EvAcq t) st = (case allocTensor cfg t st of (True, st') \<Rightarrow> Some st' | _ \<Rightarrow> None)"
| "ev_step cfg (EvTake t) st = (case onAcquireBuffer (pc_static cfg) t DYNAMIC st of (True, st') \<Rightarrow> Some st' | _ \<Rightarrow> None)"
| "ev_step cfg (EvGive t) st = Some (reset_mem t st)"
| "ev_step cfg (EvUse t) st = Some (releaseTensor (pc_allocInput cfg) (pc_index cfg) t st)"

fun ev_run :: "PipeConfig \<Rightarrow> event list \<Rightarrow> PipeState \<Rightarrow> PipeState option" where
  "ev_run cfg [] st = Some st"
| "ev_run cfg (e # es) st = (case ev_step cfg e st of None \<Rightarrow> None | Some st' \<Rightarrow> ev_run cfg es st')"

lemma ev_run_append:
  "ev_run cfg (es1 @ es2) st = (case ev_run cfg es1 st of None \<Rightarrow> None | Some st' \<Rightarrow> ev_run cfg es2 st')"
  by (induction es1 arbitrary: st) (auto split: option.splits)

definition ev_of :: "Request \<Rightarrow> event" where
  "ev_of r = (case r of Acquire t \<Rightarrow> EvTake t | Release t \<Rightarrow> EvGive t)"

definition events_of :: "PipeConfig \<Rightarrow> Command \<Rightarrow> event list" where
  "events_of cfg c = map EvAcq ((if pc_allocInput cfg then cm_workInputs c else []) @ cm_workOutputs c) @
     map ev_of (cm_requests c) @ map EvUse (cm_workInputs c)"

lemma allocTensors_run: "allocTensors cfg ts st = (True, st') \<Longrightarrow> ev_run cfg (map EvAcq ts) st = Some st'"
  by (induction ts arbitrary: st) (auto split: prod.splits bool.splits)

lemma onResize_run: "onResize cfg rs code st = (NO_ERROR, st') \<Longrightarrow> ev_run cfg (map ev_of rs) st = Some st'"
proof (induction cfg rs code st rule: onResize.induct)
  case (2 cfg t rs code st)
  then show ?case by (auto simp: ev_of_def split: prod.splits bool.splits)
qed (auto simp: ev_of_def)

lemma releases_run: "ev_run cfg (map EvUse ts) st = Some (fold (releaseTensor (pc_allocInput cfg) (pc_index cfg)) ts st)"
  by (induction ts arbitrary: st) auto

lemma allocCommand_run:
  assumes "allocCommand cfg c st = (NO_ERROR, st')" "cm_group c = pc_index cfg"
  shows "ev_run cfg (events_of cfg c) st = Some st'"
proof -
  obtain st1 where st1: "(if pc_allocInput cfg then allocTensors cfg (cm_workInputs c) st else (True, st)) = (True, st1)"
    using assms(1) by (auto simp: allocCommand_def split: prod.splits bool.splits if_splits)
  obtain st2 where st2: "allocTensors cfg (cm_workOutputs c) st1 = (True, st2)"
    using assms(1) st1 by (auto simp: allocCommand_def split: prod.splits bool.splits)
  obtain st3 where st3: "onResize cfg (cm_requests c) (cm_code c) st2 = (NO_ERROR, st3)"
      "st' = fold (releaseTensor (pc_allocInput cfg) (pc_index cfg)) (cm_workInputs c) st3"
    using assms st1 st2 by (auto simp: allocCommand_def split: prod.splits if_splits)
  have "ev_run cfg (map EvAcq (if pc_allocInput cfg then cm_workInputs c else [])) st = Some st1"
    using st1 allocTensors_run by (auto split: if_splits)
  then show ?thesis
    using allocTensors_run [OF st2] onResize_run [OF st3(1)] st3(2) by (simp add: events_of_def ev_run_append releases_run)
qed

lemma allocCommands_run:
  "allocCommands cfg cs st = (NO_ERROR, st') \<Longrightarrow> \<forall>c \<in> set cs. cm_group c = pc_index cfg \<Longrightarrow>
     ev_run cfg (concat (map (events_of cfg) cs)) st = Some st'"
proof (induction cs arbitrary: st)
  case (Cons c cs)
  obtain st1 where "allocCommand cfg c st = (NO_ERROR, st1)" "allocCommands cfg cs st1 = (NO_ERROR, st')"
    using Cons.prems(1) by (auto split: prod.splits if_splits)
  then show ?case using Cons.IH Cons.prems(2) allocCommand_run by (simp add: ev_run_append)
qed simp

section \<open>What events do not change\<close>

definition same_desc :: "PipeState \<Rightarrow> PipeState \<Rightarrow> bool" where
  "same_desc st st' \<longleftrightarrow> (\<forall>t. pt_usage (ps_tensors st' t) = pt_usage (ps_tensors st t) \<and>
     pt_memoryType (ps_tensors st' t) = pt_memoryType (ps_tensors st t) \<and> pt_group (ps_tensors st' t) = pt_group (ps_tensors st t) \<and>
     pt_handle (ps_tensors st' t) = pt_handle (ps_tensors st t) \<and> pt_bytes (ps_tensors st' t) = pt_bytes (ps_tensors st t))"

lemma same_desc_refl [simp]: "same_desc st st" by (simp add: same_desc_def)

lemma same_desc_trans: "same_desc a b \<Longrightarrow> same_desc b c \<Longrightarrow> same_desc a c" by (simp add: same_desc_def)

lemma upd_tensor_simps [simp]:
  "ps_pool (upd_tensor t f st) = ps_pool st" "ps_tensors (upd_tensor t f st) t = f (ps_tensors st t)"
  "t' \<noteq> t \<Longrightarrow> ps_tensors (upd_tensor t f st) t' = ps_tensors st t'"
  by (simp_all add: upd_tensor_def)

definition dyn :: "PipeState \<Rightarrow> nat \<Rightarrow> nat \<Rightarrow> bool" where
  "dyn st t i \<longleftrightarrow> (\<exists>m. pt_mem (ps_tensors st t) = Some m \<and> \<not> mo_static m \<and> mo_chunk m = nodeChunk i)"

definition holds :: "PipeState \<Rightarrow> block list \<Rightarrow> (nat \<Rightarrow> nat option) \<Rightarrow> bool" where
  "holds st bl H \<longleftrightarrow> pool_ok (ps_pool st) H bl \<and>
     (\<forall>i n. H i = Some n \<longleftrightarrow> (\<exists>t. dyn st t i \<and> n = pt_bytes (ps_tensors st t))) \<and>
     (\<forall>t t' i. dyn st t i \<longrightarrow> dyn st t' i \<longrightarrow> t = t') \<and>
     (\<forall>t m. pt_mem (ps_tensors st t) = Some m \<longrightarrow> \<not> mo_static m \<longrightarrow> (\<exists>i. mo_chunk m = nodeChunk i)) \<and>
     (\<forall>t i j. dyn st t i \<longrightarrow> att (ps_pool st) t j = (j = i)) \<and>
     (\<forall>t i. dyn st t i \<longrightarrow> pt_backend (ps_tensors st t)) \<and> buffer_ok (mParent (ps_pool st)) \<and>
     (\<forall>t i. dyn st t i \<longrightarrow> 0 < pt_bytes (ps_tensors st t))"

definition pipe_ok :: "PipeState \<Rightarrow> block list \<Rightarrow> bool" where
  "pipe_ok st bl \<longleftrightarrow> (\<exists>H. holds st bl H)"

lemma holdsD:
  assumes "holds st bl H"
  shows "pool_ok (ps_pool st) H bl" "\<And>i n. H i = Some n \<longleftrightarrow> (\<exists>t. dyn st t i \<and> n = pt_bytes (ps_tensors st t))"
    "\<And>t t' i. dyn st t i \<Longrightarrow> dyn st t' i \<Longrightarrow> t = t'"
    "\<And>t m. pt_mem (ps_tensors st t) = Some m \<Longrightarrow> \<not> mo_static m \<Longrightarrow> \<exists>i. mo_chunk m = nodeChunk i"
    "\<And>t i j. dyn st t i \<Longrightarrow> att (ps_pool st) t j = (j = i)"
    "\<And>t i. dyn st t i \<Longrightarrow> pt_backend (ps_tensors st t)" "buffer_ok (mParent (ps_pool st))"
    "\<And>t i. dyn st t i \<Longrightarrow> 0 < pt_bytes (ps_tensors st t)"
  using assms unfolding holds_def by blast+

lemma nodeChunk_inj [simp]: "nodeChunk i = nodeChunk j \<longleftrightarrow> i = j"
  by (simp add: nodeChunk_def)

lemma dyn_fun: "dyn st t i \<Longrightarrow> dyn st t j \<Longrightarrow> i = j"
  by (auto simp: dyn_def)

section \<open>Acquiring and dropping memory\<close>

text \<open>A tensor that holds no memory of the pool changes its own fields.\<close>

lemma pipe_ok_upd:
  assumes ok: "pipe_ok st bl" and none: "\<And>i. \<not> dyn st t i"
    and f: "pt_bytes (f (ps_tensors st t)) = pt_bytes (ps_tensors st t)" "\<And>m. pt_mem (f (ps_tensors st t)) = Some m \<Longrightarrow> mo_static m"
  shows "pipe_ok (upd_tensor t f st) bl"
proof -
  obtain H where "holds st bl H" using ok by (auto simp: pipe_ok_def)
  note H = holdsD [OF this]
  let ?st = "upd_tensor t f st"
  have d: "dyn ?st t' i \<longleftrightarrow> dyn st t' i" for t' i
    using none f(2) by (cases "t' = t") (auto simp: dyn_def)
  have t: "dyn st t' i \<Longrightarrow> ps_tensors ?st t' = ps_tensors st t'" for t' i using none by (cases "t' = t") auto
  have "pt_mem (ps_tensors ?st t') = Some m \<Longrightarrow> \<not> mo_static m \<Longrightarrow> \<exists>i. mo_chunk m = nodeChunk i" for t' m
    using H(4) [of t' m] f(2) [of m] by (cases "t' = t") auto
  moreover have "H i = Some n \<longleftrightarrow> (\<exists>t. dyn ?st t i \<and> n = pt_bytes (ps_tensors ?st t))" for i n
    unfolding d H(2) using t by metis
  ultimately show ?thesis
    unfolding pipe_ok_def holds_def using H(1,3,5,6,7,8) d t by (intro exI [of _ H]) simp
qed

lemma pipe_ok_counter:
  assumes "pipe_ok st bl" shows "pipe_ok (upd_tensor t (\<lambda>d. d\<lparr>pt_useCount := n\<rparr>) st) bl"
proof -
  let ?st = "upd_tensor t (\<lambda>d. d\<lparr>pt_useCount := n\<rparr>) st"
  have e: "pt_mem (ps_tensors ?st t') = pt_mem (ps_tensors st t')" "pt_bytes (ps_tensors ?st t') = pt_bytes (ps_tensors st t')"
    "pt_backend (ps_tensors ?st t') = pt_backend (ps_tensors st t')" for t'
    by (cases "t' = t"; simp)+
  have "dyn ?st = dyn st" by (intro ext) (simp add: dyn_def e)
  then show ?thesis using assms by (simp add: pipe_ok_def holds_def e)
qed

lemma reset_mem_ok:
  assumes ok: "pipe_ok st bl"
  obtains bl' where "pipe_ok (reset_mem t st) bl'" "moves bl bl'"
    "ps_tensors (reset_mem t st) = (ps_tensors st)(t := (ps_tensors st t)\<lparr>pt_mem := None\<rparr>)"
    "\<And>t' j. att (ps_pool (reset_mem t st)) t' j = att (ps_pool st) t' j"
proof -
  obtain H where "holds st bl H" using ok by (auto simp: pipe_ok_def)
  note H = holdsD [OF this]
  consider "pt_mem (ps_tensors st t) = None" | m where "pt_mem (ps_tensors st t) = Some m" "mo_static m"
    | m i where "pt_mem (ps_tensors st t) = Some m" "\<not> mo_static m" "mo_chunk m = nodeChunk i"
    using H(4) by (cases "pt_mem (ps_tensors st t)") blast+
  then show thesis
  proof cases
    case 1
    have "(ps_tensors st)(t := (ps_tensors st t)\<lparr>pt_mem := None\<rparr>) = ps_tensors st" using 1 by (intro ext) simp
    then show ?thesis using 1 ok by (intro that [of bl]) (simp_all add: reset_mem_def)
  next
    case (2 m)
    then have r: "reset_mem t st = upd_tensor t (\<lambda>d. d\<lparr>pt_mem := None\<rparr>) st" by (simp add: reset_mem_def memobj_free_def)
    have "pipe_ok (reset_mem t st) bl" unfolding r by (rule pipe_ok_upd [OF ok]) (use 2 in \<open>auto simp: dyn_def\<close>)
    then show ?thesis by (rule that) (simp_all add: r upd_tensor_def)
  next
    case (3 m i)
    have di: "dyn st t i" using 3 by (auto simp: dyn_def)
    then have Hi: "H i = Some (pt_bytes (ps_tensors st t))" using H(2) by blast
    obtain p bl' where p: "snd (defer_free (nodeChunk i) (ps_pool st)) = p" "pool_ok p (H(i := None)) bl'" "moves bl bl'"
      "\<And>t j. att p t j = att (ps_pool st) t j" "mParent p = mParent (ps_pool st)"
      by (rule pool_free [OF H(1) Hi]) blast
    let ?T = "(ps_tensors st)(t := (ps_tensors st t)\<lparr>pt_mem := None\<rparr>)"
    have r: "reset_mem t st = st\<lparr>ps_tensors := ?T, ps_pool := p\<rparr>"
      using 3 p(1) by (simp add: reset_mem_def memobj_free_def upd_tensor_def)
    have d: "dyn (reset_mem t st) t' j \<longleftrightarrow> dyn st t' j \<and> t' \<noteq> t" for t' j by (auto simp: r dyn_def)
    have dt: "t' \<noteq> t \<Longrightarrow> ps_tensors (reset_mem t st) t' = ps_tensors st t'" for t' by (simp add: r)
    have "(H(i := None)) j = Some n \<longleftrightarrow> (\<exists>t'. dyn (reset_mem t st) t' j \<and> n = pt_bytes (ps_tensors (reset_mem t st) t'))" for j n
    proof (cases "j = i")
      case True
      then show ?thesis using H(3) [OF di] by (auto simp: d)
    next
      case False
      then have "dyn st t' j \<Longrightarrow> t' \<noteq> t" for t' using dyn_fun [OF di] by blast
      then show ?thesis using False H(2) [of j n] by (simp add: d) (metis dt)
    qed
    moreover have "\<exists>j. mo_chunk m' = nodeChunk j" if "pt_mem (ps_tensors (reset_mem t st) t') = Some m'" "\<not> mo_static m'" for t' m'
      using that H(4) [of t' m'] by (cases "t' = t") (auto simp: r)
    ultimately have "pipe_ok (reset_mem t st) bl'"
      unfolding pipe_ok_def holds_def using p(2,4,5) H(3,5,6,7,8) d dt
      by (intro exI [of _ "H(i := None)"] conjI allI impI) (simp_all add: r, blast+)
    then show ?thesis by (rule that [OF _ p(3)]) (simp_all add: r p(4))
  qed
qed

lemma host_ex [simp]: "\<exists>h. p = p\<lparr>mHost := h\<rparr>" "\<exists>h. p\<lparr>mHost := a\<rparr> = p\<lparr>mHost := h\<rparr>" for p :: DeferAlloc
  by (rule exI [of _ "mHost p"], simp) (rule exI [of _ a], simp)

lemma acquire_static:
  assumes ok: "pipe_ok st bl" and none: "pt_mem (ps_tensors st t) = None"
    and res: "onAcquireBuffer static t STATIC st = (True, st')"
  shows "pipe_ok st' bl"
    "\<exists>m. mo_static m \<and> ps_tensors st' = (ps_tensors st)(t := (ps_tensors st t)\<lparr>pt_mem := Some m, pt_backend := True\<rparr>)"
    "att (ps_pool st') t' j = att (ps_pool st) t' j"
proof -
  let ?m = "\<lparr>mo_static = True, mo_chunk = static t, mo_size = size_to_int (pt_bytes (ps_tensors st t))\<rparr>"
  let ?f = "\<lambda>d. d\<lparr>pt_mem := Some ?m, pt_backend := True\<rparr>"
  have "ps_tensors st' = ps_tensors (upd_tensor t ?f st) \<and> (\<exists>h. ps_pool st' = (ps_pool st)\<lparr>mHost := h\<rparr>)"
    using res none by (auto simp: onAcquireBuffer_def allocBuffer_def reset_mem_def upd_tensor_def Let_def split: if_splits)
  then obtain h where h: "ps_tensors st' = ps_tensors (upd_tensor t ?f st)" "ps_pool st' = (ps_pool st)\<lparr>mHost := h\<rparr>" by auto
  have "pipe_ok (upd_tensor t ?f st) bl"
    by (rule pipe_ok_upd [OF ok]) (use none in \<open>auto simp: dyn_def\<close>)
  then show "pipe_ok st' bl" by (auto simp: h pipe_ok_def holds_def dyn_def att_def)
  show "\<exists>m. mo_static m \<and> ps_tensors st' = (ps_tensors st)(t := (ps_tensors st t)\<lparr>pt_mem := Some m, pt_backend := True\<rparr>)"
    by (intro exI [of _ ?m]) (simp add: h upd_tensor_def)
  show "att (ps_pool st') t' j = att (ps_pool st) t' j" by (simp add: h att_def)
qed

lemma acquire_pool:
  assumes ok: "pipe_ok st bl" and none: "pt_mem (ps_tensors st t) = None" and fresh: "\<And>j. \<not> att (ps_pool st) t j"
    and res: "onAcquireBuffer static t storage st = (True, st')" and storage: "storage \<noteq> STATIC"
  obtains bl' i m where "pipe_ok st' bl'" "moves bl bl'" "\<not> mo_static m" "mo_chunk m = nodeChunk i"
    "ps_tensors st' = (ps_tensors st)(t := (ps_tensors st t)\<lparr>pt_mem := Some m, pt_backend := True\<rparr>)"
    "\<And>t' j. att (ps_pool st') t' j \<longleftrightarrow> att (ps_pool st) t' j \<or> (t' = t \<and> j = i)"
    "storage = DYNAMIC_SEPERATE \<Longrightarrow> \<forall>j k. inside bl j k \<longrightarrow> apart bl' j k i"
proof -
  obtain H where "holds st bl H" using ok by (auto simp: pipe_ok_def)
  note H = holdsD [OF this]
  let ?n = "pt_bytes (ps_tensors st t)"
  let ?sep = "storage = DYNAMIC_SEPERATE"
  obtain c p where c: "defer_alloc ?n ?sep 0 (ps_pool st) = (c, p)" by fastforce
  obtain i bl' where i: "c = nodeChunk i" "H i = None" "pool_ok p (H(i \<mapsto> ?n)) bl'" "moves bl bl'"
    "?sep \<Longrightarrow> \<forall>j m. inside bl j m \<longrightarrow> apart bl' j m i" "\<And>t j. att p t j = att (ps_pool st) t j" "mParent p = mParent (ps_pool st)"
    by (rule pool_alloc [OF H(1) c]) blast
  define q where "q = p\<lparr>mChunks := chunk_attach t (nodeChunk i) (mChunks p)\<rparr>"
  let ?m = "\<lparr>mo_static = False, mo_chunk = nodeChunk i, mo_size = size_to_int ?n\<rparr>"
  let ?f = "\<lambda>d. d\<lparr>pt_mem := Some ?m, pt_backend := True\<rparr>"
  have "ps_tensors st' = ps_tensors (upd_tensor t ?f st) \<and> 0 < ?n \<and> (\<exists>h. ps_pool st' = q\<lparr>mHost := h\<rparr>)"
    using res none c i(1) storage
    by (cases storage) (auto simp: onAcquireBuffer_def allocBuffer_def reset_mem_def upd_tensor_def Let_def q_def chunk_invalid_def nodeChunk_def nullChunk_def rawChunk_def split: if_splits)
  then obtain h where h: "ps_tensors st' = ps_tensors (upd_tensor t ?f st)" "ps_pool st' = q\<lparr>mHost := h\<rparr>" and pos: "0 < ?n" by auto
  have q: "pool_ok (q\<lparr>mHost := h\<rparr>) (H(i \<mapsto> ?n)) bl'" "att (q\<lparr>mHost := h\<rparr>) t' j \<longleftrightarrow> att (ps_pool st) t' j \<or> (t' = t \<and> j = i)" for t' j
    using pool_attach(1) [OF i(3), of i ?n t] pool_attach(2) [OF i(3), of i ?n t t' j] i(6) by (simp_all add: q_def att_def)
  have d: "dyn st' t' j \<longleftrightarrow> dyn st t' j \<or> (t' = t \<and> j = i)" for t' j
    using none by (cases "t' = t") (auto simp: h dyn_def)
  have dt: "t' \<noteq> t \<Longrightarrow> ps_tensors st' t' = ps_tensors st t'" "pt_bytes (ps_tensors st' t') = pt_bytes (ps_tensors st t')" for t'
    by (cases "t' = t"; simp add: h)+
  have new: "\<not> dyn st t' i" "\<not> dyn st t j" for t' j using H(2) [of i] i(2) none by (auto simp: dyn_def)
  have "(H(i \<mapsto> ?n)) j = Some n \<longleftrightarrow> (\<exists>t'. dyn st' t' j \<and> n = pt_bytes (ps_tensors st' t'))" for j n
    using H(2) [of j n] new by (cases "j = i") (auto simp: d dt(2))
  moreover have "dyn st' t1 j \<Longrightarrow> dyn st' t2 j \<Longrightarrow> t1 = t2" for t1 t2 j using H(3) new by (auto simp: d)
  moreover have "\<exists>j. mo_chunk m' = nodeChunk j" if "pt_mem (ps_tensors st' t') = Some m'" "\<not> mo_static m'" for t' m'
    using that H(4) [of t' m'] by (cases "t' = t") (auto simp: h)
  moreover have "att (ps_pool st') t' j = (j = k)" if "dyn st' t' k" for t' j k
    using that H(5) [of t' k j] fresh new by (auto simp: d h q(2))
  moreover have "pt_backend (ps_tensors st' t')" if "dyn st' t' k" for t' k
    using that H(6) [of t' k] by (cases "t' = t") (auto simp: d h)
  moreover have "buffer_ok (mParent (ps_pool st'))" using H(7) i(7) by (simp add: h q_def)
  moreover have "0 < pt_bytes (ps_tensors st' t')" if "dyn st' t' k" for t' k
    using that H(8) [of t' k] pos by (auto simp: d dt(2))
  ultimately have "pipe_ok st' bl'"
    unfolding pipe_ok_def holds_def using q(1) by (intro exI [of _ "H(i \<mapsto> ?n)"]) (simp add: h)
  then show thesis by (rule that [OF _ i(4), of ?m i]) (use i(5) q(2) in \<open>auto simp: h upd_tensor_def\<close>)
qed

section \<open>The invariant\<close>

definition uses :: "event list \<Rightarrow> nat \<Rightarrow> nat" where
  "uses es t = length (filter (\<lambda>e. e = EvUse t) es)"

definition acquires :: "event list \<Rightarrow> nat set" where
  "acquires es = {t. EvAcq t \<in> set es \<or> EvTake t \<in> set es}"

lemma uses_simps [simp]:
  "uses [] t = 0" "uses (EvUse t' # es) t = (if t' = t then 1 else 0) + uses es t"
  "uses (EvAcq t' # es) t = uses es t" "uses (EvTake t' # es) t = uses es t" "uses (EvGive t' # es) t = uses es t"
  "uses (es @ es') t = uses es t + uses es' t"
  by (simp_all add: uses_def)

lemma acquires_simps [simp]:
  "acquires [] = {}" "acquires (EvAcq t # es) = insert t (acquires es)" "acquires (EvTake t # es) = insert t (acquires es)"
  "acquires (EvUse t # es) = acquires es" "acquires (EvGive t # es) = acquires es"
  by (auto simp: acquires_def)

definition unreleased :: "PTensor \<Rightarrow> bool" where
  "unreleased d \<longleftrightarrow> pt_usage d = CONSTANT \<or> pt_usage d = TRAINABLE"

definition pooled :: "PipeConfig \<Rightarrow> PTensor \<Rightarrow> bool" where
  "pooled cfg d \<longleftrightarrow> getTensorStorageType d (pc_outputStatic cfg) \<noteq> STATIC \<and> \<not> unreleased d"

definition releasable :: "PipeConfig \<Rightarrow> PTensor \<Rightarrow> bool" where
  "releasable cfg d \<longleftrightarrow> pc_allocInput cfg \<and> pt_usage d = INPUT \<and> \<not> pt_handle d \<and> pt_group d = pc_index cfg \<and>
     pt_memoryType d \<noteq> MEMORY_HOST \<and> pt_memoryType d \<noteq> MEMORY_OUTSIDE"

definition ends :: "PipeConfig \<Rightarrow> PTensor \<Rightarrow> nat \<Rightarrow> event list \<Rightarrow> bool" where
  \<comment> \<open>the remaining events give the memory back\<close>
  "ends cfg d t es \<longleftrightarrow> EvGive t \<in> set es \<or> (0 < uses es t \<and> releasable cfg d)"

fun sane :: "PipeConfig \<Rightarrow> (nat \<Rightarrow> PTensor) \<Rightarrow> event list \<Rightarrow> bool" where
  "sane cfg T [] = True"
| "sane cfg T (EvAcq t # es) = (EvTake t \<notin> set es \<and> (pooled cfg (T t) \<longrightarrow> ends cfg (T t) t es) \<and> sane cfg T es)"
| "sane cfg T (EvTake t # es) = (t \<notin> acquires es \<and> EvGive t \<in> set es \<and> sane cfg T es)"
| "sane cfg T (EvGive t # es) = (t \<notin> acquires es \<and> sane cfg T es)"
| "sane cfg T (EvUse t # es) = ((uses es t = 0 \<longrightarrow> t \<notin> acquires es) \<and> sane cfg T es)"

lemma desc_cong:
  assumes "same_desc st st'"
  shows "pooled cfg (ps_tensors st' t) = pooled cfg (ps_tensors st t)" "ends cfg (ps_tensors st' t) t es = ends cfg (ps_tensors st t) t es"
    "unreleased (ps_tensors st' t) = unreleased (ps_tensors st t)" "pt_usage (ps_tensors st' t) = pt_usage (ps_tensors st t)"
    "pt_group (ps_tensors st' t) = pt_group (ps_tensors st t)" "pt_bytes (ps_tensors st' t) = pt_bytes (ps_tensors st t)"
    "getTensorStorageType (ps_tensors st' t) b = getTensorStorageType (ps_tensors st t) b"
  using assms by (simp_all add: same_desc_def pooled_def ends_def unreleased_def releasable_def getTensorStorageType_def)

lemma sane_cong: "same_desc st st' \<Longrightarrow> sane cfg (ps_tensors st') es = sane cfg (ps_tensors st) es"
  by (induction cfg "ps_tensors st" es rule: sane.induct) (simp_all add: desc_cong)

definition ev_inv :: "PipeConfig \<Rightarrow> event list \<Rightarrow> PipeState \<Rightarrow> block list \<Rightarrow> bool" where
  "ev_inv cfg es st bl \<longleftrightarrow> pipe_ok st bl \<and> sane cfg (ps_tensors st) es \<and>
     (\<forall>t. (t \<in> acquires es \<longrightarrow> pt_mem (ps_tensors st t) = None \<longrightarrow> (\<forall>j. \<not> att (ps_pool st) t j)) \<and>
          (0 < uses es t \<longrightarrow> pt_usage (ps_tensors st t) \<noteq> CONSTANT \<longrightarrow> pt_useCount (ps_tensors st t) = int (uses es t)) \<and>
          (\<forall>i. dyn st t i \<longrightarrow> ends cfg (ps_tensors st t) t es) \<and>
          (EvAcq t \<in> set es \<longrightarrow> unreleased (ps_tensors st t) \<longrightarrow> pt_mem (ps_tensors st t) \<noteq> None) \<and>
          (EvTake t \<in> set es \<longrightarrow> pt_mem (ps_tensors st t) = None) \<and>
          (\<forall>m. pooled cfg (ps_tensors st t) \<longrightarrow> pt_mem (ps_tensors st t) = Some m \<longrightarrow> \<not> mo_static m))"

lemma ev_invD:
  assumes "ev_inv cfg es st bl"
  shows "pipe_ok st bl" "sane cfg (ps_tensors st) es"
    "t \<in> acquires es \<Longrightarrow> pt_mem (ps_tensors st t) = None \<Longrightarrow> \<not> att (ps_pool st) t j"
    "0 < uses es t \<Longrightarrow> pt_usage (ps_tensors st t) \<noteq> CONSTANT \<Longrightarrow> pt_useCount (ps_tensors st t) = int (uses es t)"
    "dyn st t i \<Longrightarrow> ends cfg (ps_tensors st t) t es"
    "EvAcq t \<in> set es \<Longrightarrow> unreleased (ps_tensors st t) \<Longrightarrow> pt_mem (ps_tensors st t) \<noteq> None"
    "EvTake t \<in> set es \<Longrightarrow> pt_mem (ps_tensors st t) = None"
    "pooled cfg (ps_tensors st t) \<Longrightarrow> pt_mem (ps_tensors st t) = Some m \<Longrightarrow> \<not> mo_static m"
  using assms unfolding ev_inv_def by blast+

fun ev_tensor :: "event \<Rightarrow> nat" where
  "ev_tensor (EvAcq t) = t" | "ev_tensor (EvTake t) = t" | "ev_tensor (EvGive t) = t" | "ev_tensor (EvUse t) = t"

lemma other_events:
  assumes "ev_tensor e \<noteq> t"
  shows "uses (e # es) t = uses es t" "t \<in> acquires (e # es) \<longleftrightarrow> t \<in> acquires es" "ends cfg d t (e # es) = ends cfg d t es"
  using assms by (cases e; simp add: ends_def)+

lemma ev_inv_next:
  assumes inv: "ev_inv cfg (e # es) st bl" and ok: "pipe_ok st' bl'" and desc: "same_desc st st'" and e: "ev_tensor e = t"
    and other: "\<And>t'. t' \<noteq> t \<Longrightarrow> ps_tensors st' t' = ps_tensors st t'" "\<And>t' j. t' \<noteq> t \<Longrightarrow> att (ps_pool st') t' j = att (ps_pool st) t' j"
    and t: "\<And>j. t \<in> acquires es \<Longrightarrow> pt_mem (ps_tensors st' t) = None \<Longrightarrow> \<not> att (ps_pool st') t j"
      "0 < uses es t \<Longrightarrow> pt_usage (ps_tensors st t) \<noteq> CONSTANT \<Longrightarrow> pt_useCount (ps_tensors st' t) = int (uses es t)"
      "\<And>i. dyn st' t i \<Longrightarrow> ends cfg (ps_tensors st t) t es"
      "EvAcq t \<in> set es \<Longrightarrow> unreleased (ps_tensors st t) \<Longrightarrow> pt_mem (ps_tensors st' t) \<noteq> None"
      "EvTake t \<in> set es \<Longrightarrow> pt_mem (ps_tensors st' t) = None"
      "\<And>m. pooled cfg (ps_tensors st t) \<Longrightarrow> pt_mem (ps_tensors st' t) = Some m \<Longrightarrow> \<not> mo_static m"
  shows "ev_inv cfg es st' bl'"
proof -
  note i = ev_invD [OF inv] and d = desc_cong [OF desc]
  have "sane cfg (ps_tensors st) es" using i(2) by (cases e) auto
  then have "sane cfg (ps_tensors st') es" using sane_cong [OF desc] by simp
  moreover have "(t' \<in> acquires es \<longrightarrow> pt_mem (ps_tensors st' t') = None \<longrightarrow> (\<forall>j. \<not> att (ps_pool st') t' j)) \<and>
          (0 < uses es t' \<longrightarrow> pt_usage (ps_tensors st' t') \<noteq> CONSTANT \<longrightarrow> pt_useCount (ps_tensors st' t') = int (uses es t')) \<and>
          (\<forall>i. dyn st' t' i \<longrightarrow> ends cfg (ps_tensors st' t') t' es) \<and>
          (EvAcq t' \<in> set es \<longrightarrow> unreleased (ps_tensors st' t') \<longrightarrow> pt_mem (ps_tensors st' t') \<noteq> None) \<and>
          (EvTake t' \<in> set es \<longrightarrow> pt_mem (ps_tensors st' t') = None) \<and>
          (\<forall>m. pooled cfg (ps_tensors st' t') \<longrightarrow> pt_mem (ps_tensors st' t') = Some m \<longrightarrow> \<not> mo_static m)" for t'
  proof (cases "t' = t")
    case True
    then show ?thesis using t by (simp add: d)
  next
    case False
    then have "ev_tensor e \<noteq> t'" using e by simp
    note o = other_events [OF this] other(1) [OF False] other(2) [OF False]
    have "dyn st' t' = dyn st t'" by (intro ext) (simp add: dyn_def o)
    then show ?thesis using i(3-8) [of t'] by (auto simp: o)
  qed
  ultimately show ?thesis unfolding ev_inv_def using ok by blast
qed

section \<open>One event\<close>

definition settled :: "event list \<Rightarrow> PipeState \<Rightarrow> nat \<Rightarrow> nat \<Rightarrow> bool" where
  \<comment> \<open>node \<open>i\<close> is the only one \<open>t\<close> was and will be attached to\<close>
  "settled es st t i \<longleftrightarrow> (\<forall>j. att (ps_pool st) t j = (j = i)) \<and> (dyn st t i \<or> t \<notin> acquires es)"

definition keeps_alive :: "event \<Rightarrow> event list \<Rightarrow> PTensor \<Rightarrow> nat \<Rightarrow> bool" where
  "keeps_alive e es d t \<longleftrightarrow> e \<noteq> EvGive t \<and> (e = EvUse t \<longrightarrow> 0 < uses es t \<or> pt_usage d = OUTPUT)"

definition ev_post :: "PipeConfig \<Rightarrow> event \<Rightarrow> event list \<Rightarrow> PipeState \<Rightarrow> block list \<Rightarrow> PipeState \<Rightarrow> block list \<Rightarrow> bool" where
  "ev_post cfg e es st bl st' bl' \<longleftrightarrow> ev_inv cfg es st' bl' \<and> moves bl bl' \<and> same_desc st st' \<and>
     (\<forall>t i. dyn st t i \<longrightarrow> keeps_alive e es (ps_tensors st t) t \<longrightarrow> dyn st' t i) \<and>
     (\<forall>t i. settled (e # es) st t i \<longrightarrow> settled es st' t i) \<and>
     (\<forall>t. e = EvAcq t \<longrightarrow> pt_group (ps_tensors st t) = pc_index cfg \<longrightarrow> pooled cfg (ps_tensors st t) \<longrightarrow> (\<exists>i. dyn st' t i)) \<and>
     (\<forall>t. e = EvTake t \<longrightarrow> (\<exists>i. dyn st' t i)) \<and>
     (\<forall>t i. dyn st' t i \<longrightarrow> dyn st t i \<or> e = EvAcq t \<or> e = EvTake t) \<and>
     (\<forall>t i. e = EvAcq t \<longrightarrow> dyn st' t i \<longrightarrow> \<not> dyn st t i \<longrightarrow>
        getTensorStorageType (ps_tensors st t) (pc_outputStatic cfg) = DYNAMIC_SEPERATE \<longrightarrow> (\<forall>j k. inside bl j k \<longrightarrow> apart bl' j k i))"

lemma dyn_settled: "ev_inv cfg es st bl \<Longrightarrow> dyn st t i \<Longrightarrow> settled es st t i"
proof -
  assume inv: "ev_inv cfg es st bl" and d: "dyn st t i"
  obtain H where H: "holds st bl H" using ev_invD(1) [OF inv] unfolding pipe_ok_def by blast
  have "att (ps_pool st) t j = (j = i)" for j by (rule holdsD(5) [OF H d])
  then show "settled es st t i" using d by (simp add: settled_def)
qed

lemma other_dyn: "ps_tensors st' t = ps_tensors st t \<Longrightarrow> dyn st' t i = dyn st t i"
  by (simp add: dyn_def)

lemma settled_other:
  assumes "ev_tensor e \<noteq> t" "ps_tensors st' t = ps_tensors st t" "\<And>j. att (ps_pool st') t j = att (ps_pool st) t j"
  shows "settled (e # es) st t i \<longleftrightarrow> settled es st' t i"
  using other_events(2) [OF assms(1)] assms(3) other_dyn [OF assms(2)] by (simp add: settled_def)

lemma step_acquire:
  assumes inv: "ev_inv cfg (e # es) st bl" and e: "e = EvAcq t \<or> e = EvTake t"
    and none: "pt_mem (ps_tensors st t) = None"
    and res: "onAcquireBuffer (pc_static cfg) t storage st = (True, st')"
    and storage: "e = EvAcq t \<Longrightarrow> storage = getTensorStorageType (ps_tensors st t) (pc_outputStatic cfg)"
      "e = EvTake t \<Longrightarrow> storage = DYNAMIC"
  shows "\<exists>bl'. ev_post cfg e es st bl st' bl'"
proof -
  note i = ev_invD [OF inv]
  have tens: "ev_tensor e = t" "t \<in> acquires (e # es)" "uses (e # es) t = uses es t" using e by auto
  have fresh: "\<not> att (ps_pool st) t j" for j using i(3) [OF tens(2) none] .
  have nd: "\<not> dyn st t j" for j using none by (simp add: dyn_def)
  have unsettled: "\<not> settled (e # es) st t j" for j using fresh [of j] by (auto simp: settled_def)
  have take: "EvTake t \<notin> set es" "e = EvTake t \<Longrightarrow> EvAcq t \<notin> set es" using i(2) e by (auto simp: acquires_def)
  show ?thesis
  proof (cases "storage = STATIC")
    case True
    have eq: "e = EvAcq t" using True e storage(2) by auto
    note a = acquire_static [OF i(1) none res [unfolded True]]
    obtain m where m: "mo_static m" "ps_tensors st' = (ps_tensors st)(t := (ps_tensors st t)\<lparr>pt_mem := Some m, pt_backend := True\<rparr>)"
      using a(2) by blast
    have desc: "same_desc st st'" by (simp add: same_desc_def m(2))
    have "\<not> pooled cfg (ps_tensors st t)" using storage(1) [OF eq] True by (simp add: pooled_def)
    then have nxt: "ev_inv cfg es st' bl"
      using a(3) m take i(4) [of t] tens(3)
      by (intro ev_inv_next [OF inv a(1) desc tens(1)]) (auto simp: dyn_def)
    have "dyn st' t' k = dyn st t' k" for t' k using m none by (auto simp: dyn_def)
    moreover have "settled es st' t' k" if "settled (e # es) st t' k" for t' k
    proof -
      have "t' \<noteq> t" using that unsettled by blast
      then show ?thesis using that settled_other [of e t' st' st es k] tens(1) a(3) m(2) by simp
    qed
    ultimately show ?thesis
      using nxt desc eq \<open>\<not> pooled cfg (ps_tensors st t)\<close> by (intro exI [of _ bl]) (auto simp: ev_post_def)
  next
    case False
    obtain bl' k m where a: "pipe_ok st' bl'" "moves bl bl'" "\<not> mo_static m" "mo_chunk m = nodeChunk k"
      "ps_tensors st' = (ps_tensors st)(t := (ps_tensors st t)\<lparr>pt_mem := Some m, pt_backend := True\<rparr>)"
      "\<And>t' j. att (ps_pool st') t' j \<longleftrightarrow> att (ps_pool st) t' j \<or> (t' = t \<and> j = k)"
      "storage = DYNAMIC_SEPERATE \<Longrightarrow> \<forall>j n. inside bl j n \<longrightarrow> apart bl' j n k"
      by (rule acquire_pool [OF i(1) none fresh res False]) blast
    have desc: "same_desc st st'" by (simp add: same_desc_def a(5))
    have dt: "dyn st' t k" using a(3-5) by (auto simp: dyn_def)
    have "ends cfg (ps_tensors st t) t es"
    proof (cases "e = EvTake t")
      case True
      then show ?thesis using i(2) by (simp add: ends_def)
    next
      case F: False
      then have "pooled cfg (ps_tensors st t)"
        using e i(6) none storage(1) \<open>storage \<noteq> STATIC\<close> by (fastforce simp: pooled_def)
      then show ?thesis using i(2) e F by auto
    qed
    then have nxt: "ev_inv cfg es st' bl'"
      using a(3-6) take i(4) [of t] tens(3)
      by (intro ev_inv_next [OF inv a(1) desc tens(1)]) auto
    have "settled es st' t' j" if "settled (e # es) st t' j" for t' j
    proof -
      have "t' \<noteq> t" using that unsettled by blast
      then show ?thesis using that settled_other [of e t' st' st es j] tens(1) a(5,6) by simp
    qed
    moreover have "dyn st t' j \<Longrightarrow> dyn st' t' j" for t' j using nd a(5) by (cases "t' = t") (auto simp: dyn_def)
    moreover have "dyn st' t j \<Longrightarrow> j = k" for j using dyn_fun dt by blast
    moreover have "dyn st' t' j \<Longrightarrow> dyn st t' j \<or> e = EvAcq t' \<or> e = EvTake t'" for t' j
      using e a(5) by (cases "t' = t") (auto simp: dyn_def)
    moreover have "\<forall>j n. inside bl j n \<longrightarrow> apart bl' j n k"
      if "e = EvAcq t'" "getTensorStorageType (ps_tensors st t') (pc_outputStatic cfg) = DYNAMIC_SEPERATE" for t'
      using a(7) that e storage(1) by auto
    ultimately have "ev_post cfg e es st bl st' bl'"
      unfolding ev_post_def using nxt desc a(2) e dt by (intro conjI allI impI) (assumption | blast)+
    then show ?thesis ..
  qed
qed

text \<open>The other events take nothing: they keep the state or drop the memory of their tensor.\<close>

lemma step_keep:
  assumes inv: "ev_inv cfg (e # es) st bl" and ok: "pipe_ok st' bl" and desc: "same_desc st st'" and pool: "ps_pool st' = ps_pool st"
    and other: "\<And>t'. t' \<noteq> ev_tensor e \<Longrightarrow> ps_tensors st' t' = ps_tensors st t'"
    and mem: "pt_mem (ps_tensors st' (ev_tensor e)) = pt_mem (ps_tensors st (ev_tensor e))"
    and cnt: "0 < uses es (ev_tensor e) \<Longrightarrow> pt_usage (ps_tensors st (ev_tensor e)) \<noteq> CONSTANT \<Longrightarrow>
      pt_useCount (ps_tensors st' (ev_tensor e)) = int (uses es (ev_tensor e))"
    and ends: "\<And>i. dyn st (ev_tensor e) i \<Longrightarrow> ends cfg (ps_tensors st (ev_tensor e)) (ev_tensor e) es"
    and acq: "\<And>t. e = EvAcq t \<Longrightarrow> pt_group (ps_tensors st t) = pc_index cfg \<Longrightarrow> pt_mem (ps_tensors st t) \<noteq> None"
    and take: "\<And>t. e \<noteq> EvTake t"
  shows "ev_post cfg e es st bl st' bl"
proof -
  let ?t = "ev_tensor e"
  note i = ev_invD [OF inv]
  have sub: "t \<in> acquires es \<Longrightarrow> t \<in> acquires (e # es)" "EvAcq t \<in> set es \<Longrightarrow> EvAcq t \<in> set (e # es)"
    "EvTake t \<in> set es \<Longrightarrow> EvTake t \<in> set (e # es)" for t by (auto simp: acquires_def)
  have nxt: "ev_inv cfg es st' bl"
  proof (rule ev_inv_next [OF inv ok desc refl other])
    show "dyn st' ?t k \<Longrightarrow> ends cfg (ps_tensors st ?t) ?t es" for k using ends [of k] mem by (simp add: dyn_def)
    show "?t \<in> acquires es \<Longrightarrow> pt_mem (ps_tensors st' ?t) = None \<Longrightarrow> \<not> att (ps_pool st') ?t j" for j
      using i(3) [OF sub(1)] mem pool by simp
    show "EvAcq ?t \<in> set es \<Longrightarrow> unreleased (ps_tensors st ?t) \<Longrightarrow> pt_mem (ps_tensors st' ?t) \<noteq> None"
      using i(6) [OF sub(2)] mem by simp
    show "EvTake ?t \<in> set es \<Longrightarrow> pt_mem (ps_tensors st' ?t) = None" using i(7) [OF sub(3)] mem by simp
    show "pooled cfg (ps_tensors st ?t) \<Longrightarrow> pt_mem (ps_tensors st' ?t) = Some m \<Longrightarrow> \<not> mo_static m" for m
      using i(8) mem by simp
  qed (use cnt pool in auto)
  have mem': "pt_mem (ps_tensors st' t) = pt_mem (ps_tensors st t)" for t using other mem by (cases "t = ?t") auto
  then have d: "dyn st' = dyn st" by (intro ext) (simp add: dyn_def)
  have "\<exists>k. dyn st' t k" if a: "e = EvAcq t" "pt_group (ps_tensors st t) = pc_index cfg" "pooled cfg (ps_tensors st t)" for t
  proof -
    obtain m where m: "pt_mem (ps_tensors st t) = Some m" using acq a(1,2) by blast
    obtain H where H: "holds st bl H" using i(1) unfolding pipe_ok_def by blast
    have "\<not> mo_static m" using i(8) [OF a(3) m] .
    then show ?thesis using holdsD(4) [OF H m] m by (auto simp: d dyn_def)
  qed
  moreover have "settled (e # es) st t k \<Longrightarrow> settled es st' t k" for t k
    using sub(1) by (auto simp: settled_def d pool)
  ultimately show ?thesis
    unfolding ev_post_def using nxt desc by (intro conjI allI impI) (simp_all add: d, use take in blast)
qed

lemma step_drop:
  assumes inv: "ev_inv cfg (e # es) st bl" and ok: "pipe_ok st1 bl" and desc: "same_desc st st1" and pool: "ps_pool st1 = ps_pool st"
    and other: "\<And>t'. t' \<noteq> ev_tensor e \<Longrightarrow> ps_tensors st1 t' = ps_tensors st t'"
    and cnt: "0 < uses es (ev_tensor e) \<Longrightarrow> pt_usage (ps_tensors st (ev_tensor e)) \<noteq> CONSTANT \<Longrightarrow>
      pt_useCount (ps_tensors st1 (ev_tensor e)) = int (uses es (ev_tensor e))"
    and last: "ev_tensor e \<notin> acquires es" "\<not> keeps_alive e es (ps_tensors st (ev_tensor e)) (ev_tensor e)"
    and e: "\<And>t. e \<noteq> EvTake t" "\<And>t. e \<noteq> EvAcq t"
  shows "\<exists>bl'. ev_post cfg e es st bl (reset_mem (ev_tensor e) st1) bl'"
proof -
  let ?t = "ev_tensor e"
  let ?st = "reset_mem ?t st1"
  note i = ev_invD [OF inv]
  obtain bl' where r: "pipe_ok ?st bl'" "moves bl bl'"
      "ps_tensors ?st = (ps_tensors st1)(?t := (ps_tensors st1 ?t)\<lparr>pt_mem := None\<rparr>)"
      "\<And>t' j. att (ps_pool ?st) t' j = att (ps_pool st1) t' j"
    by (rule reset_mem_ok [OF ok]) blast
  have desc': "same_desc st ?st" using desc by (simp add: same_desc_def r(3))
  have noacq: "EvAcq ?t \<notin> set es" "EvTake ?t \<notin> set es" using last(1) by (auto simp: acquires_def)
  have nxt: "ev_inv cfg es ?st bl'"
    by (rule ev_inv_next [OF inv r(1) desc' refl]) (use other r(3,4) pool last(1) noacq cnt in \<open>auto simp: dyn_def\<close>)
  have d: "dyn ?st t k \<longleftrightarrow> dyn st t k \<and> t \<noteq> ?t" for t k
    using other [of t] by (cases "t = ?t") (auto simp: r(3) dyn_def)
  have "settled es ?st t k" if s: "settled (e # es) st t k" for t k
  proof -
    have "acquires (e # es) = acquires es" using e by (cases e) auto
    then show ?thesis using s last(1) r(4) pool d by (auto simp: settled_def)
  qed
  then have "ev_post cfg e es st bl ?st bl'"
    unfolding ev_post_def using nxt desc' r(2) e last(2) d by (intro conjI allI impI) (assumption | blast)+
  then show ?thesis ..
qed

theorem ev_step_ok:
  assumes inv: "ev_inv cfg (e # es) st bl" and step: "ev_step cfg e st = Some st'"
  shows "\<exists>bl'. ev_post cfg e es st bl st' bl'"
proof (cases e)
  case (EvAcq t)
  have res: "allocTensor cfg t st = (True, st')" using step EvAcq by (auto split: prod.splits bool.splits)
  show ?thesis
  proof (cases "pt_group (ps_tensors st t) = pc_index cfg \<and> pt_mem (ps_tensors st t) = None")
    case True
    then show ?thesis
      using step_acquire [OF inv] EvAcq res by (simp add: allocTensor_def Let_def)
  next
    case False
    then have st': "st' = st" using res by (auto simp: allocTensor_def Let_def split: if_splits)
    have "ev_post cfg e es st bl st bl"
      by (rule step_keep [OF inv ev_invD(1) [OF inv]]) (use False EvAcq ev_invD(4,5) [OF inv, of t] in \<open>auto simp: ends_def\<close>)
    then show ?thesis using st' by blast
  qed
next
  case (EvTake t)
  have res: "onAcquireBuffer (pc_static cfg) t DYNAMIC st = (True, st')" using step EvTake by (auto split: prod.splits bool.splits)
  have "pt_mem (ps_tensors st t) = None" using ev_invD(7) [OF inv, of t] EvTake by simp
  then show ?thesis using step_acquire [OF inv _ _ res] EvTake by simp
next
  case (EvGive t)
  have "t \<notin> acquires es" using ev_invD(2) [OF inv] EvGive by simp
  then show ?thesis
    using step_drop [OF inv ev_invD(1) [OF inv]] step EvGive ev_invD(4) [OF inv, of t] by (simp add: keeps_alive_def)
next
  case (EvUse t)
  define st1 where "st1 = (if pt_usage (ps_tensors st t) \<noteq> CONSTANT
                 then upd_tensor t (\<lambda>d. d\<lparr>pt_useCount := pt_useCount d - 1\<rparr>) st else st)"
  have ok: "pipe_ok st1 bl"
    using pipe_ok_counter [OF ev_invD(1) [OF inv], of t "pt_useCount (ps_tensors st t) - 1"] ev_invD(1) [OF inv]
    by (simp add: st1_def upd_tensor_def)
  have st1: "ps_pool st1 = ps_pool st" "same_desc st st1" "pt_mem (ps_tensors st1 t) = pt_mem (ps_tensors st t)"
    "pt_backend (ps_tensors st1 t) = pt_backend (ps_tensors st t)" "t' \<noteq> t \<Longrightarrow> ps_tensors st1 t' = ps_tensors st t'" for t'
    by (simp_all add: st1_def same_desc_def upd_tensor_def)
  have cnt: "pt_usage (ps_tensors st t) \<noteq> CONSTANT \<Longrightarrow> pt_useCount (ps_tensors st1 t) = int (uses es t)"
    using ev_invD(4) [OF inv, of t] EvUse by (simp add: st1_def)
  have drop: "needRelease (ps_tensors st1 t) (\<not> pc_allocInput cfg) \<Longrightarrow> uses es t = 0 \<and> pt_usage (ps_tensors st t) \<noteq> OUTPUT"
    using cnt desc_cong(4) [OF st1(2), of t] by (auto simp: needRelease_def split: if_splits)
  have keep: "ends cfg (ps_tensors st t) t es"
    if "\<not> (pt_group (ps_tensors st1 t) = pc_index cfg \<and> needRelease (ps_tensors st1 t) (\<not> pc_allocInput cfg))" "dyn st t i" for i
  proof -
    obtain H where H: "holds st bl H" using ev_invD(1) [OF inv] unfolding pipe_ok_def by blast
    have "ends cfg (ps_tensors st t) t (e # es)" "pt_backend (ps_tensors st t)" using ev_invD(5) [OF inv that(2)] holdsD(6) [OF H that(2)] .
    moreover have "pt_handle (ps_tensors st1 t) = pt_handle (ps_tensors st t)" "pt_group (ps_tensors st1 t) = pt_group (ps_tensors st t)"
        "pt_usage (ps_tensors st1 t) = pt_usage (ps_tensors st t)" "pt_memoryType (ps_tensors st1 t) = pt_memoryType (ps_tensors st t)"
      using st1(2) by (simp_all add: same_desc_def)
    ultimately show ?thesis
      using that(1) EvUse cnt st1(4) by (cases "uses es t = 0") (simp_all add: ends_def releasable_def needRelease_def, fastforce)
  qed
  have st': "st' = (if pt_group (ps_tensors st1 t) = pc_index cfg \<and> needRelease (ps_tensors st1 t) (\<not> pc_allocInput cfg)
      then reset_mem t st1 else st1)"
    using step EvUse by (auto simp: releaseTensor_def Let_def st1_def)
  show ?thesis
  proof (cases "pt_group (ps_tensors st1 t) = pc_index cfg \<and> needRelease (ps_tensors st1 t) (\<not> pc_allocInput cfg)")
    case True
    have "t \<notin> acquires es" using ev_invD(2) [OF inv] EvUse drop True by simp
    then show ?thesis
      using step_drop [OF inv ok st1(2,1)] st1(5) cnt drop True EvUse st' by (simp add: keeps_alive_def)
  next
    case False
    have "ev_post cfg e es st bl st1 bl"
      by (rule step_keep [OF inv ok st1(2,1)]) (use False EvUse st1(3,5) cnt keep in auto)
    then show ?thesis using st' False by auto
  qed
qed

end
