(* ===== verification/PipelineSafety.thy ===== *)
theory PipelineSafety
  imports PipelineEvents
begin

text \<open>
  The memory plan of a pipeline is safe: tensors that are alive together get disjoint ranges, and the
  memory of an input is not written before the input was used for the last time.
\<close>

section \<open>Runs of events\<close>

lemma ev_postD:
  assumes "ev_post cfg e es st bl st' bl'"
  shows "ev_inv cfg es st' bl'" "moves bl bl'" "same_desc st st'"
    "dyn st t i \<Longrightarrow> keeps_alive e es (ps_tensors st t) t \<Longrightarrow> dyn st' t i"
    "settled (e # es) st t i \<Longrightarrow> settled es st' t i"
    "e = EvAcq t \<Longrightarrow> pt_group (ps_tensors st t) = pc_index cfg \<Longrightarrow> pooled cfg (ps_tensors st t) \<Longrightarrow> \<exists>i. dyn st' t i"
    "e = EvTake t \<Longrightarrow> \<exists>i. dyn st' t i"
    "dyn st' t i \<Longrightarrow> dyn st t i \<or> e = EvAcq t \<or> e = EvTake t"
    "e = EvAcq t \<Longrightarrow> dyn st' t i \<Longrightarrow> \<not> dyn st t i \<Longrightarrow>
        getTensorStorageType (ps_tensors st t) (pc_outputStatic cfg) = DYNAMIC_SEPERATE \<Longrightarrow> inside bl j k \<Longrightarrow> apart bl' j k i"
  using assms unfolding ev_post_def by blast+

definition alive :: "event list \<Rightarrow> event list \<Rightarrow> PTensor \<Rightarrow> nat \<Rightarrow> bool" where
  \<comment> \<open>the events \<open>es1\<close> before \<open>es2\<close> do not drop the memory of \<open>t\<close>\<close>
  "alive es1 es2 d t \<longleftrightarrow> EvGive t \<notin> set es1 \<and> (EvUse t \<in> set es1 \<longrightarrow> 0 < uses es2 t \<or> pt_usage d = OUTPUT)"

theorem ev_run_ok:
  assumes "ev_inv cfg (es1 @ es2) st bl" "ev_run cfg es1 st = Some s"
  shows "\<exists>bl'. ev_inv cfg es2 s bl' \<and> moves bl bl' \<and> same_desc st s \<and>
     (\<forall>t i. settled (es1 @ es2) st t i \<longrightarrow> settled es2 s t i) \<and>
     (\<forall>t i. dyn st t i \<longrightarrow> alive es1 es2 (ps_tensors st t) t \<longrightarrow> dyn s t i) \<and>
     (\<forall>t i. dyn s t i \<longrightarrow> dyn st t i \<or> t \<in> acquires es1)"
  using assms
proof (induction es1 arbitrary: st bl)
  case Nil
  then show ?case by (intro exI [of _ bl]) auto
next
  case (Cons e es1)
  obtain st1 where st1: "ev_step cfg e st = Some st1" "ev_run cfg es1 st1 = Some s"
    using Cons.prems(2) by (auto split: option.splits)
  obtain bl1 where p: "ev_post cfg e (es1 @ es2) st bl st1 bl1"
    using ev_step_ok [OF Cons.prems(1) [unfolded append_Cons] st1(1)] by blast
  note d = ev_postD [OF p]
  obtain bl' where i: "ev_inv cfg es2 s bl'" "moves bl1 bl'" "same_desc st1 s"
      "\<And>t i. settled (es1 @ es2) st1 t i \<Longrightarrow> settled es2 s t i"
      "\<And>t i. dyn st1 t i \<Longrightarrow> alive es1 es2 (ps_tensors st1 t) t \<Longrightarrow> dyn s t i"
      "\<And>t i. dyn s t i \<Longrightarrow> dyn st1 t i \<or> t \<in> acquires es1"
    using Cons.IH [OF d(1) st1(2)] by blast
  have "dyn s t k" if k: "dyn st t k" and al: "alive (e # es1) es2 (ps_tensors st t) t" for t k
  proof -
    have "keeps_alive e (es1 @ es2) (ps_tensors st t) t" using al by (auto simp: alive_def keeps_alive_def)
    moreover have "alive es1 es2 (ps_tensors st1 t) t" using al desc_cong(4) [OF d(3)] by (auto simp: alive_def)
    ultimately show ?thesis using i(5) d(4) [OF k] by blast
  qed
  moreover have "dyn st t k \<or> t \<in> acquires (e # es1)" if "dyn s t k" for t k
    using i(6) [OF that] d(8) by (auto simp: acquires_def)
  moreover have "settled es2 s t k" if "settled ((e # es1) @ es2) st t k" for t k
    using i(4) d(5) that by simp
  ultimately show ?case
    using i(1) moves_trans [OF d(2) i(2)] same_desc_trans [OF d(3) i(3)] by (intro exI [of _ bl']) blast
qed

lemma ev_runE:
  assumes "ev_inv cfg (es1 @ es2) st bl" "ev_run cfg es1 st = Some s"
  obtains bl' where "ev_inv cfg es2 s bl'" "moves bl bl'" "same_desc st s"
     "\<And>t i. settled (es1 @ es2) st t i \<Longrightarrow> settled es2 s t i"
     "\<And>t i. dyn st t i \<Longrightarrow> alive es1 es2 (ps_tensors st t) t \<Longrightarrow> dyn s t i"
     "\<And>t i. dyn s t i \<Longrightarrow> dyn st t i \<or> t \<in> acquires es1"
  using ev_run_ok [OF assms] by blast

section \<open>The end of the plan\<close>

lemma dyn_placed: "ev_inv cfg es st bl \<Longrightarrow> dyn st t i \<Longrightarrow> inside bl i (pt_bytes (ps_tensors st t)) \<and> 0 < pt_bytes (ps_tensors st t)"
proof -
  assume inv: "ev_inv cfg es st bl" and d: "dyn st t i"
  obtain H where H: "holds st bl H" using ev_invD(1) [OF inv] unfolding pipe_ok_def by blast
  have "H i = Some (pt_bytes (ps_tensors st t))" using holdsD(2) [OF H] d by blast
  from pool_ok_held [OF holdsD(1) [OF H] this] show ?thesis using holdsD(8) [OF H d] by simp
qed

lemma dyn_apart:
  assumes inv: "ev_inv cfg es st bl" and "dyn st t i" "dyn st t' i'" "t \<noteq> t'"
  shows "apart bl i (pt_bytes (ps_tensors st t)) i' \<or> apart bl i' (pt_bytes (ps_tensors st t')) i"
proof -
  obtain H where H: "holds st bl H" using ev_invD(1) [OF inv] unfolding pipe_ok_def by blast
  have "H i = Some (pt_bytes (ps_tensors st t))" "H i' = Some (pt_bytes (ps_tensors st t'))"
    using holdsD(2) [OF H] assms(2,3) by blast+
  moreover have "i \<noteq> i'" using holdsD(3) [OF H] assms(2-4) by blast
  ultimately show ?thesis using pool_apart [OF holdsD(1) [OF H]] by blast
qed

definition disjoint_ranges :: "PipeState \<Rightarrow> nat \<Rightarrow> nat \<Rightarrow> bool" where
  "disjoint_ranges st t t' \<longleftrightarrow> host_of st t + pt_bytes (ps_tensors st t) \<le> host_of st t' \<or>
     host_of st t' + pt_bytes (ps_tensors st t') \<le> host_of st t"

definition onResizeEnds :: "(nat \<Rightarrow> nat \<Rightarrow> nat \<times> nat) \<Rightarrow> PipeState \<Rightarrow> (ErrorCode \<times> PipeState) option" where
  \<comment> \<open>the end of \<open>_allocForTensor\<close>\<close>
  "onResizeEnds onAlloc st =
     (case onResizeEnd onAlloc st of
        None \<Rightarrow> None
      | Some (code, st3) \<Rightarrow> if code \<noteq> NO_ERROR then Some (code, st3) else onResizeEnd onAlloc st3)"

lemma plan_pool: "ev_inv cfg [] s bl \<Longrightarrow> pool_ok (ps_pool s) Map.empty bl"
proof -
  assume inv: "ev_inv cfg [] s bl"
  obtain H where H: "holds s bl H" using ev_invD(1) [OF inv] unfolding pipe_ok_def by blast
  have none: "\<not> dyn s t i" for t i using ev_invD(5) [OF inv] by (auto simp: ends_def)
  have "H i = None" for i
  proof (cases "H i")
    case (Some n)
    then show ?thesis using holdsD(2) [OF H, of i n] none by blast
  qed
  then have "H = Map.empty" by (rule ext)
  then show ?thesis using holdsD(1) [OF H] by simp
qed

lemma plan_end:
  assumes inv: "ev_inv cfg [] s bl" and fin: "onResizeEnds onAlloc s = Some (NO_ERROR, s3)"
    and some: "inside bl i0 n0" "0 < n0"
  obtains "ps_tensors s3 = ps_tensors s" "0 < buffer_base (ps_pool s3)"
    "mTotalSize (ps_pool s3) \<le> sb_currentSize (mParent (ps_pool s3))" "buffer_ok (mParent (ps_pool s3))"
    "\<And>t i. settled [] s t i \<Longrightarrow> host_of s3 t = buffer_base (ps_pool s3) + layout_offset (ps_pool s3) i"
    "\<And>i n j. apart bl i n j \<Longrightarrow> layout_offset (ps_pool s3) i + n \<le> layout_offset (ps_pool s3) j"
    "\<And>i n. inside bl i n \<Longrightarrow> layout_offset (ps_pool s3) i + n \<le> mTotalSize (ps_pool s3)"
proof -
  obtain H where H: "holds s bl H" using ev_invD(1) [OF inv] unfolding pipe_ok_def by blast
  note ok = plan_pool [OF inv]
  obtain p where p: "defer_compute onAlloc (ps_pool s) = Some (NO_ERROR, p)"
      "onResizeEnd onAlloc (s\<lparr>ps_pool := p\<rparr>) = Some (NO_ERROR, s3)"
    using fin by (auto simp: onResizeEnds_def onResizeEnd_def split: option.splits if_splits)
  obtain b: "0 < buffer_base p" "0 < mTotalSize p" "mTotalSize p \<le> sb_currentSize (mParent p)" "buffer_ok (mParent p)"
    "\<And>i n. inside bl i n \<Longrightarrow> layout_offset p i + n \<le> mTotalSize p"
    "\<And>i n j. apart bl i n j \<Longrightarrow> layout_offset p i + n \<le> layout_offset p j"
    "\<And>t i. (\<And>j. att (ps_pool s) t j \<longleftrightarrow> j = i) \<Longrightarrow> map_of (mHost p) t = Some (buffer_base p + layout_offset p i)"
    by (rule pool_compute [OF ok p(1) holdsD(7) [OF H] some]) blast
  have s3: "s3 = s\<lparr>ps_pool := p\<rparr>" using p(2) b(2) by (simp add: onResizeEnd_def defer_compute_def)
  have "host_of s3 t = buffer_base p + layout_offset p i" if "settled [] s t i" for t i
    using b(7) [of t i] that by (simp add: settled_def host_of_def s3)
  then show thesis by (intro that) (use b(1,3-6) s3 in auto)
qed

text \<open>
  Two tensors whose chunks were apart at some moment of the run: \<open>es\<close> remains, \<open>st\<close> and \<open>bl\<close> are the
  state and the blocks at that moment.
\<close>

lemma apart_disjoint:
  assumes inv: "ev_inv cfg es st bl" and run: "ev_run cfg es st = Some s" and fin: "onResizeEnds onAlloc s = Some (NO_ERROR, s3)"
    and set: "settled es st t i" "settled es st t' i'"
    and ap: "apart bl i (pt_bytes (ps_tensors st t)) i' \<or> apart bl i' (pt_bytes (ps_tensors st t')) i"
    and some: "inside bl i0 n0" "0 < n0"
  shows "disjoint_ranges s3 t t'"
proof -
  obtain bl' where r: "ev_inv cfg [] s bl'" "moves bl bl'" "same_desc st s"
     "\<And>t i. settled es st t i \<Longrightarrow> settled [] s t i"
  proof (rule ev_runE [OF _ run, of "[]" bl])
    show "ev_inv cfg (es @ []) st bl" using inv by simp
  qed simp
  obtain b: "ps_tensors s3 = ps_tensors s"
    "\<And>t i. settled [] s t i \<Longrightarrow> host_of s3 t = buffer_base (ps_pool s3) + layout_offset (ps_pool s3) i"
    "\<And>i n j. apart bl' i n j \<Longrightarrow> layout_offset (ps_pool s3) i + n \<le> layout_offset (ps_pool s3) j"
    by (rule plan_end [OF r(1) fin moves_inside [OF r(2) some(1)] some(2)]) blast
  have bytes: "pt_bytes (ps_tensors s3 x) = pt_bytes (ps_tensors st x)" for x using b(1) desc_cong(6) [OF r(3)] by simp
  show ?thesis
    using ap b(3) [OF moves_apart [OF r(2)]] b(2) [OF r(4) [OF set(1)]] b(2) [OF r(4) [OF set(2)]]
    unfolding disjoint_ranges_def bytes by fastforce
qed

text \<open>A tensor acquired while another one is alive.\<close>

definition acquiring :: "PipeConfig \<Rightarrow> (nat \<Rightarrow> PTensor) \<Rightarrow> event \<Rightarrow> nat \<Rightarrow> bool" where
  "acquiring cfg T e t \<longleftrightarrow> (e = EvAcq t \<and> pt_group (T t) = pc_index cfg \<and> pooled cfg (T t)) \<or> e = EvTake t"

lemma acquiring_dyn:
  assumes inv: "ev_inv cfg (e # es) st bl" and step: "ev_step cfg e st = Some st'" and acq: "acquiring cfg (ps_tensors st) e t"
  obtains bl' i where "ev_post cfg e es st bl st' bl'" "dyn st' t i"
proof -
  obtain bl' where p: "ev_post cfg e es st bl st' bl'" using ev_step_ok [OF inv step] by blast
  have "\<exists>i. dyn st' t i" using acq ev_postD(6,7) [OF p] unfolding acquiring_def by blast
  then show thesis using that p by blast
qed

lemma acquiring_cong: "same_desc st s \<Longrightarrow> acquiring cfg (ps_tensors s) e t = acquiring cfg (ps_tensors st) e t"
  by (simp add: acquiring_def desc_cong)

lemma later_disjoint:
  assumes inv: "ev_inv cfg (A @ e1 # B @ e2 # C) st bl" and run: "ev_run cfg (A @ e1 # B @ e2 # C) st = Some s"
    and fin: "onResizeEnds onAlloc s = Some (NO_ERROR, s3)"
    and acq: "acquiring cfg (ps_tensors st) e1 t" "acquiring cfg (ps_tensors st) e2 t'" and ne: "t \<noteq> t'"
    and al: "alive B (e2 # C) (ps_tensors st t) t"
  shows "disjoint_ranges s3 t t'"
proof -
  obtain sa where sa: "ev_run cfg A st = Some sa" "ev_run cfg (e1 # B @ e2 # C) sa = Some s"
    using run by (auto simp: ev_run_append split: option.splits)
  obtain s1 where s1: "ev_step cfg e1 sa = Some s1" "ev_run cfg (B @ e2 # C) s1 = Some s"
    using sa(2) by (auto split: option.splits)
  obtain sb where sb: "ev_run cfg B s1 = Some sb" "ev_run cfg (e2 # C) sb = Some s"
    using s1(2) by (auto simp: ev_run_append split: option.splits)
  obtain s2 where s2: "ev_step cfg e2 sb = Some s2" "ev_run cfg C s2 = Some s"
    using sb(2) by (auto split: option.splits)
  obtain ba where a: "ev_inv cfg (e1 # B @ e2 # C) sa ba" "same_desc st sa" by (rule ev_runE [OF inv sa(1)]) blast
  obtain b1 i where b: "ev_post cfg e1 (B @ e2 # C) sa ba s1 b1" "dyn s1 t i"
    by (rule acquiring_dyn [OF a(1) s1(1)]) (use acq(1) acquiring_cong [OF a(2)] in blast)+
  note b1 = ev_postD [OF b(1)]
  have d1: "same_desc st s1" by (rule same_desc_trans [OF a(2) b1(3)])
  obtain bb where c: "ev_inv cfg (e2 # C) sb bb" "same_desc s1 sb" "dyn sb t i"
  proof (rule ev_runE [OF b1(1) sb(1)])
    fix bl' assume x: "ev_inv cfg (e2 # C) sb bl'" "same_desc s1 sb"
      "\<And>t i. dyn s1 t i \<Longrightarrow> alive B (e2 # C) (ps_tensors s1 t) t \<Longrightarrow> dyn sb t i"
    have "alive B (e2 # C) (ps_tensors s1 t) t" using al desc_cong(4) [OF d1] by (simp add: alive_def)
    then show thesis using that x b(2) by blast
  qed
  have d2: "same_desc st sb" by (rule same_desc_trans [OF d1 c(2)])
  obtain b2 i' where e: "ev_post cfg e2 C sb bb s2 b2" "dyn s2 t' i'"
    by (rule acquiring_dyn [OF c(1) s2(1)]) (use acq(2) acquiring_cong [OF d2] in blast)+
  note b2 = ev_postD [OF e(1)]
  have "keeps_alive e2 C (ps_tensors sb t) t" using acq(2) by (auto simp: keeps_alive_def acquiring_def)
  then have dt: "dyn s2 t i" using b2(4) c(3) by blast
  have "disjoint_ranges s3 t t'"
    by (rule apart_disjoint [OF b2(1) s2(2) fin dyn_settled [OF b2(1) dt] dyn_settled [OF b2(1) e(2)] dyn_apart [OF b2(1) dt e(2) ne]])
      (use dyn_placed [OF b2(1) dt] in auto)
  then show ?thesis .
qed

text \<open>Every tensor that is acquired gets a range of the buffer.\<close>

lemma acquired_placed:
  assumes inv: "ev_inv cfg (A @ e # C) st bl" and run: "ev_run cfg (A @ e # C) st = Some s" and acq: "acquiring cfg (ps_tensors st) e t"
  shows "\<exists>bl' i. ev_inv cfg [] s bl' \<and> inside bl' i (pt_bytes (ps_tensors st t)) \<and> 0 < pt_bytes (ps_tensors st t) \<and>
    settled [] s t i \<and> same_desc st s"
proof -
  obtain sa where sa: "ev_run cfg A st = Some sa" "ev_run cfg (e # C) sa = Some s"
    using run by (auto simp: ev_run_append split: option.splits)
  obtain s1 where s1: "ev_step cfg e sa = Some s1" "ev_run cfg C s1 = Some s" using sa(2) by (auto split: option.splits)
  obtain ba where a: "ev_inv cfg (e # C) sa ba" "same_desc st sa" by (rule ev_runE [OF inv sa(1)]) blast
  obtain b1 i where b: "ev_post cfg e C sa ba s1 b1" "dyn s1 t i"
    by (rule acquiring_dyn [OF a(1) s1(1)]) (use acq acquiring_cong [OF a(2)] in blast)+
  note b1 = ev_postD [OF b(1)] and pl = dyn_placed [OF ev_postD(1) [OF b(1)] b(2)]
  have inv1: "ev_inv cfg (C @ []) s1 b1" using b1(1) by simp
  obtain b2 where c: "ev_inv cfg [] s b2" "same_desc s1 s" "settled [] s t i" "moves b1 b2"
    by (rule ev_runE [OF inv1 s1(2)]) (use dyn_settled [OF b1(1) b(2)] in simp)
  have d: "same_desc st s1" by (rule same_desc_trans [OF a(2) b1(3)])
  have "inside b2 i (pt_bytes (ps_tensors s1 t))" by (rule moves_inside [OF c(4)]) (use pl in simp)
  then show ?thesis
    using c(1,3) pl same_desc_trans [OF d c(2)] desc_cong(6) [OF d, of t] by auto
qed

lemma acquired_inside:
  assumes inv: "ev_inv cfg (A @ e # C) st bl" and run: "ev_run cfg (A @ e # C) st = Some s"
    and fin: "onResizeEnds onAlloc s = Some (NO_ERROR, s3)" and acq: "acquiring cfg (ps_tensors st) e t"
  shows "0 < buffer_base (ps_pool s3)" "buffer_base (ps_pool s3) \<le> host_of s3 t"
    "host_of s3 t + pt_bytes (ps_tensors s3 t) \<le> buffer_base (ps_pool s3) + mTotalSize (ps_pool s3)"
    "mTotalSize (ps_pool s3) \<le> sb_currentSize (mParent (ps_pool s3))" "buffer_ok (mParent (ps_pool s3))"
proof -
  obtain bl' i where c: "ev_inv cfg [] s bl'" "inside bl' i (pt_bytes (ps_tensors st t))" "0 < pt_bytes (ps_tensors st t)"
    "settled [] s t i" "same_desc st s" using acquired_placed [OF inv run acq] by blast
  obtain d: "ps_tensors s3 = ps_tensors s" "0 < buffer_base (ps_pool s3)"
    "mTotalSize (ps_pool s3) \<le> sb_currentSize (mParent (ps_pool s3))" "buffer_ok (mParent (ps_pool s3))"
    "host_of s3 t = buffer_base (ps_pool s3) + layout_offset (ps_pool s3) i"
    "layout_offset (ps_pool s3) i + pt_bytes (ps_tensors st t) \<le> mTotalSize (ps_pool s3)"
    by (rule plan_end [OF c(1) fin c(2,3)]) (use c(2,4) in blast)+
  show "0 < buffer_base (ps_pool s3)" "buffer_base (ps_pool s3) \<le> host_of s3 t"
    "host_of s3 t + pt_bytes (ps_tensors s3 t) \<le> buffer_base (ps_pool s3) + mTotalSize (ps_pool s3)"
    "mTotalSize (ps_pool s3) \<le> sb_currentSize (mParent (ps_pool s3))" "buffer_ok (mParent (ps_pool s3))"
    using d desc_cong(6) [OF c(5), of t] by simp_all
qed

text \<open>An input gets memory of its own, apart from everything acquired before it.\<close>

lemma earlier_disjoint:
  assumes inv: "ev_inv cfg (A @ e2 # B @ EvAcq t # C) st bl" and run: "ev_run cfg (A @ e2 # B @ EvAcq t # C) st = Some s"
    and fin: "onResizeEnds onAlloc s = Some (NO_ERROR, s3)"
    and acq: "acquiring cfg (ps_tensors st) (EvAcq t) t" "acquiring cfg (ps_tensors st) e2 t'" and ne: "t \<noteq> t'"
    and sep: "getTensorStorageType (ps_tensors st t) (pc_outputStatic cfg) = DYNAMIC_SEPERATE"
    and first: "\<And>i. \<not> dyn st t i" "t \<notin> acquires (A @ e2 # B)"
  shows "disjoint_ranges s3 t t'"
proof -
  obtain sa where sa: "ev_run cfg A st = Some sa" "ev_run cfg (e2 # B @ EvAcq t # C) sa = Some s"
    using run by (auto simp: ev_run_append split: option.splits)
  obtain s1 where s1: "ev_step cfg e2 sa = Some s1" "ev_run cfg (B @ EvAcq t # C) s1 = Some s"
    using sa(2) by (auto split: option.splits)
  obtain sb where sb: "ev_run cfg B s1 = Some sb" "ev_run cfg (EvAcq t # C) sb = Some s"
    using s1(2) by (auto simp: ev_run_append split: option.splits)
  obtain s2 where s2: "ev_step cfg (EvAcq t) sb = Some s2" "ev_run cfg C s2 = Some s"
    using sb(2) by (auto split: option.splits)
  have run2: "ev_run cfg (A @ e2 # B) st = Some sb" using sa(1) s1(1) sb(1) by (simp add: ev_run_append)
  obtain ba where a: "ev_inv cfg (e2 # B @ EvAcq t # C) sa ba" "same_desc st sa" by (rule ev_runE [OF inv sa(1)]) blast
  obtain b1 i' where b: "ev_post cfg e2 (B @ EvAcq t # C) sa ba s1 b1" "dyn s1 t' i'"
    by (rule acquiring_dyn [OF a(1) s1(1)]) (use acq(2) acquiring_cong [OF a(2)] in blast)+
  note b1 = ev_postD [OF b(1)]
  have d1: "same_desc st s1" by (rule same_desc_trans [OF a(2) b1(3)])
  obtain bb where c: "ev_inv cfg (EvAcq t # C) sb bb" "same_desc s1 sb" "settled (EvAcq t # C) sb t' i'" "moves b1 bb"
    by (rule ev_runE [OF b1(1) sb(1)]) (use dyn_settled [OF b1(1) b(2)] in blast)
  have d2: "same_desc st sb" by (rule same_desc_trans [OF d1 c(2)])
  have nd: "\<not> dyn sb t i" for i
  proof (rule ev_runE [OF _ run2, of "EvAcq t # C" bl])
    show "ev_inv cfg ((A @ e2 # B) @ EvAcq t # C) st bl" using inv by simp
    assume "\<And>t i. dyn sb t i \<Longrightarrow> dyn st t i \<or> t \<in> acquires (A @ e2 # B)"
    then show ?thesis using first by blast
  qed
  obtain b2 i where e: "ev_post cfg (EvAcq t) C sb bb s2 b2" "dyn s2 t i"
    by (rule acquiring_dyn [OF c(1) s2(1)]) (use acq(1) acquiring_cong [OF d2] in blast)+
  note b2 = ev_postD [OF e(1)]
  have "inside b1 i' (pt_bytes (ps_tensors s1 t'))" using dyn_placed [OF b1(1) b(2)] by simp
  then have "apart b2 i' (pt_bytes (ps_tensors s1 t')) i"
    using b2(9) [OF refl e(2) nd] sep desc_cong(7) [OF d2] moves_inside [OF c(4)] by simp
  moreover have "pt_bytes (ps_tensors s1 t') = pt_bytes (ps_tensors s2 t')"
    using desc_cong(6) [OF same_desc_trans [OF c(2) b2(3)]] by simp
  ultimately have ap: "apart b2 i' (pt_bytes (ps_tensors s2 t')) i" by simp
  show ?thesis
    by (rule apart_disjoint [OF b2(1) s2(2) fin dyn_settled [OF b2(1) e(2)] b2(5) [OF c(3)] disjI2 [OF ap]])
      (use dyn_placed [OF b2(1) e(2)] in auto)
qed

end
