(* ===== verification/PipelinePlan.thy ===== *)
theory PipelinePlan
  imports PipelineSafety
begin

text \<open>
  Commands instead of events. \<open>commands_ok\<close> says what a pipeline looks like: every tensor is written by
  one command, before it is read; the memory an execution takes for itself is its own and given back. The
  loop of \<open>_allocForTensor\<close> on such commands keeps the invariant of \<open>PipelineEvents\<close>.
\<close>

section \<open>Well-formed pipelines\<close>

fun requests_ok :: "Request list \<Rightarrow> bool" where
  "requests_ok [] = True"
| "requests_ok (Acquire t # rs) = (Acquire t \<notin> set rs \<and> Release t \<in> set rs \<and> requests_ok rs)"
| "requests_ok (Release t # rs) = (Acquire t \<notin> set rs \<and> requests_ok rs)"

definition tensor_ok :: "PipeConfig \<Rightarrow> PTensor \<Rightarrow> bool" where
  \<comment> \<open>managed by this pass, and an input is not host memory\<close>
  "tensor_ok cfg d \<longleftrightarrow> pt_group d = pc_index cfg \<and>
     (pt_usage d = INPUT \<longrightarrow> pc_allocInput cfg \<longrightarrow> \<not> pt_handle d \<and> pt_memoryType d \<noteq> MEMORY_HOST \<and> pt_memoryType d \<noteq> MEMORY_OUTSIDE)"

definition made :: "PTensor \<Rightarrow> bool" where
  \<comment> \<open>a tensor an operation may write\<close>
  "made d \<longleftrightarrow> pt_usage d = NORMAL \<or> pt_usage d = OUTPUT"

fun commands_ok :: "PipeConfig \<Rightarrow> (nat \<Rightarrow> PTensor) \<Rightarrow> Command list \<Rightarrow> bool" where
  "commands_ok cfg T [] = True"
| "commands_ok cfg T (c # cs) =
     (cm_group c = pc_index cfg \<and> requests_ok (cm_requests c) \<and>
      (\<forall>r \<in> set (cm_requests c). case r of Release t \<Rightarrow> t \<in> set (own_tensors c) | Acquire t \<Rightarrow> True) \<and>
      (\<forall>t \<in> set (own_tensors c). \<forall>c' \<in> set (c # cs). t \<notin> set (cm_workInputs c') \<and> t \<notin> set (cm_workOutputs c')) \<and>
      (\<forall>t \<in> set (cm_workInputs c @ cm_workOutputs c @ own_tensors c). \<forall>c' \<in> set cs. t \<notin> set (own_tensors c')) \<and>
      (\<forall>t \<in> set (cm_workInputs c). tensor_ok cfg (T t) \<and> (\<forall>c' \<in> set (c # cs). t \<notin> set (cm_workOutputs c'))) \<and>
      (\<forall>t \<in> set (cm_workOutputs c). tensor_ok cfg (T t) \<and> made (T t) \<and> (\<forall>c' \<in> set cs. t \<notin> set (cm_workOutputs c'))) \<and>
      commands_ok cfg T cs)"

lemma commands_okD:
  assumes "commands_ok cfg T (c # cs)"
  shows "cm_group c = pc_index cfg" "requests_ok (cm_requests c)" "commands_ok cfg T cs"
    "Release t \<in> set (cm_requests c) \<Longrightarrow> t \<in> set (own_tensors c)"
    "t \<in> set (own_tensors c) \<Longrightarrow> c' \<in> set (c # cs) \<Longrightarrow> t \<notin> set (cm_workInputs c') \<and> t \<notin> set (cm_workOutputs c')"
    "t \<in> set (cm_workInputs c @ cm_workOutputs c @ own_tensors c) \<Longrightarrow> c' \<in> set cs \<Longrightarrow> t \<notin> set (own_tensors c')"
    "t \<in> set (cm_workInputs c) \<Longrightarrow> tensor_ok cfg (T t)"
    "t \<in> set (cm_workInputs c) \<Longrightarrow> c' \<in> set (c # cs) \<Longrightarrow> t \<notin> set (cm_workOutputs c')"
    "t \<in> set (cm_workOutputs c) \<Longrightarrow> tensor_ok cfg (T t) \<and> made (T t)"
    "t \<in> set (cm_workOutputs c) \<Longrightarrow> c' \<in> set cs \<Longrightarrow> t \<notin> set (cm_workOutputs c')"
proof -
  note a = assms [unfolded commands_ok.simps]
  show "cm_group c = pc_index cfg" "requests_ok (cm_requests c)" "commands_ok cfg T cs" using a by (simp_all only:)
  show "Release t \<in> set (cm_requests c) \<Longrightarrow> t \<in> set (own_tensors c)"
    using a [THEN conjunct2, THEN conjunct2, THEN conjunct1] by fastforce
  show "t \<in> set (own_tensors c) \<Longrightarrow> c' \<in> set (c # cs) \<Longrightarrow> t \<notin> set (cm_workInputs c') \<and> t \<notin> set (cm_workOutputs c')"
    using a [THEN conjunct2, THEN conjunct2, THEN conjunct2, THEN conjunct1] by blast
  show "t \<in> set (cm_workInputs c @ cm_workOutputs c @ own_tensors c) \<Longrightarrow> c' \<in> set cs \<Longrightarrow> t \<notin> set (own_tensors c')"
    using a [THEN conjunct2, THEN conjunct2, THEN conjunct2, THEN conjunct2, THEN conjunct1] by blast
  note b = a [THEN conjunct2, THEN conjunct2, THEN conjunct2, THEN conjunct2, THEN conjunct2, THEN conjunct1]
  note d = a [THEN conjunct2, THEN conjunct2, THEN conjunct2, THEN conjunct2, THEN conjunct2, THEN conjunct2, THEN conjunct1]
  show "t \<in> set (cm_workInputs c) \<Longrightarrow> tensor_ok cfg (T t)" using b by blast
  show "t \<in> set (cm_workInputs c) \<Longrightarrow> c' \<in> set (c # cs) \<Longrightarrow> t \<notin> set (cm_workOutputs c')" using b by blast
  show "t \<in> set (cm_workOutputs c) \<Longrightarrow> tensor_ok cfg (T t) \<and> made (T t)" using d by blast
  show "t \<in> set (cm_workOutputs c) \<Longrightarrow> c' \<in> set cs \<Longrightarrow> t \<notin> set (cm_workOutputs c')" using d by blast
qed

definition gives :: "PipeConfig \<Rightarrow> (nat \<Rightarrow> PTensor) \<Rightarrow> Command list \<Rightarrow> event list" where
  "gives cfg T cmds = map EvGive (concat (map (\<lambda>c. if cm_group c \<noteq> pc_index cfg then []
     else filter (\<lambda>t. DYNAMIC = getTensorStorageType (T t) (pc_outputStatic cfg)) (cm_workOutputs c @ cm_workInputs c)) cmds))"

section \<open>The events of a well-formed pipeline are sane\<close>

lemma acquires_append [simp]: "acquires (es @ es') = acquires es \<union> acquires es'"
  by (auto simp: acquires_def)

lemma ev_of_simps [simp]: "ev_of (Acquire t) = EvTake t" "ev_of (Release t) = EvGive t"
  by (simp_all add: ev_of_def)

lemma acquires_map [simp]: "acquires (map EvAcq ts) = set ts" "acquires (map EvUse ts) = {}" "acquires (map EvGive ts) = {}"
  by (auto simp: acquires_def)

lemma acquires_requests [simp]: "acquires (map ev_of (cm_requests c)) = set (own_tensors c)"
proof -
  have "acquires (map ev_of rs) = {t. Acquire t \<in> set rs}" for rs
  proof (induction rs)
    case (Cons r rs)
    then show ?case by (cases r) auto
  qed simp
  moreover have "set (own_tensors c) = {t. Acquire t \<in> set (cm_requests c)}"
    by (force simp: own_tensors_def split: Request.splits)
  ultimately show ?thesis by simp
qed

lemma uses_map [simp]: "uses (map EvAcq ts) t = 0" "uses (map EvGive ts) t = 0" "uses (map EvUse ts) t = count_list ts t"
    "uses (map ev_of rs) t = 0"
proof -
  show "uses (map ev_of rs) t = 0"
  proof (induction rs)
    case (Cons r rs) then show ?case by (cases r) auto
  qed simp
qed (induction ts; simp)+

lemma sane_acqs:
  "sane cfg T es \<Longrightarrow> (\<And>t. t \<in> set ts \<Longrightarrow> EvTake t \<notin> set es \<and> (pooled cfg (T t) \<longrightarrow> ends cfg (T t) t es)) \<Longrightarrow> sane cfg T (map EvAcq ts @ es)"
proof (induction ts)
  case (Cons t ts)
  have "ends cfg d t es \<Longrightarrow> ends cfg d t (map EvAcq ts @ es)" for d by (auto simp: ends_def)
  then show ?case using Cons by auto
qed simp

lemma sane_requests:
  "requests_ok rs \<Longrightarrow> sane cfg T es \<Longrightarrow> (\<And>t. Acquire t \<in> set rs \<or> Release t \<in> set rs \<Longrightarrow> t \<notin> acquires es) \<Longrightarrow>
     sane cfg T (map ev_of rs @ es)"
proof (induction rs)
  case (Cons r rs)
  have acq: "t \<in> acquires (map ev_of rs) \<longleftrightarrow> Acquire t \<in> set rs" for t
    by (force simp: acquires_def ev_of_def split: Request.splits)
  have "EvGive t \<in> set (map ev_of rs) \<longleftrightarrow> Release t \<in> set rs" for t
    by (force simp: ev_of_def split: Request.splits)
  then show ?case using Cons acq by (cases r) auto
qed simp

lemma sane_uses:
  "sane cfg T es \<Longrightarrow> (\<And>t. t \<in> set ts \<Longrightarrow> uses es t = 0 \<Longrightarrow> t \<notin> acquires es) \<Longrightarrow> sane cfg T (map EvUse ts @ es)"
  by (induction ts) auto

lemma sane_gives: "sane cfg T (map EvGive ts)"
  by (induction ts) auto

abbreviation events :: "PipeConfig \<Rightarrow> Command list \<Rightarrow> event list" where
  "events cfg cs \<equiv> concat (map (events_of cfg) cs)"

lemma acquires_events:
  "t \<in> acquires (events cfg cs) \<longleftrightarrow>
     (\<exists>c \<in> set cs. (pc_allocInput cfg \<and> t \<in> set (cm_workInputs c)) \<or> t \<in> set (cm_workOutputs c) \<or> t \<in> set (own_tensors c))"
  by (induction cs) (auto simp: events_of_def)

lemma uses_events: "uses (events cfg cs) t = count_list (concat (map cm_workInputs cs)) t"
  by (induction cs) (simp_all add: events_of_def)

lemma take_events: "EvTake t \<in> set (events cfg cs) \<longleftrightarrow> (\<exists>c \<in> set cs. t \<in> set (own_tensors c))"
proof -
  have "EvTake t \<in> set (events_of cfg c) \<longleftrightarrow> t \<in> set (own_tensors c)" for c
    by (force simp: events_of_def own_tensors_def ev_of_def split: Request.splits)
  then show ?thesis by (induction cs) auto
qed

lemma sane_commands:
  assumes "commands_ok cfg T cs" and "gs = map EvGive ts"
    and "\<And>c t. c \<in> set cs \<Longrightarrow> t \<in> set (cm_workInputs c @ cm_workOutputs c) \<Longrightarrow>
      DYNAMIC = getTensorStorageType (T t) (pc_outputStatic cfg) \<Longrightarrow> t \<in> set ts"
  shows "sane cfg T (events cfg cs @ gs)"
  using assms
proof (induction cs)
  case Nil
  then show ?case by (simp add: sane_gives)
next
  case (Cons c cs)
  let ?es = "events cfg cs @ gs"
  note D = commands_okD [OF Cons.prems(1)] and gs = Cons.prems(2)
  have IH: "sane cfg T ?es" by (rule Cons.IH [OF D(3) gs]) (use Cons.prems(3) in auto)
  have gs0: "EvTake t \<notin> set gs" "acquires gs = {}" "uses gs t = 0" for t by (auto simp: gs)
  have notake: "EvTake t \<notin> set ?es" if "t \<in> set (cm_workInputs c @ cm_workOutputs c @ own_tensors c)" for t
    using D(6) [OF that] gs0(1) unfolding set_append Un_iff take_events by blast
  have own: "t \<in> set (own_tensors c) \<longleftrightarrow> Acquire t \<in> set (cm_requests c)" for t
    by (force simp: own_tensors_def split: Request.splits)
  have "sane cfg T (map EvUse (cm_workInputs c) @ ?es)"
  proof (rule sane_uses [OF IH])
    fix t assume t: "t \<in> set (cm_workInputs c)" "uses ?es t = 0"
    have "count_list (concat (map cm_workInputs cs)) t = 0" using t(2) by (simp only: uses_simps uses_events gs0)
    then have "t \<notin> set (cm_workInputs c')" if "c' \<in> set cs" for c' using that by (auto simp: count_list_0_iff)
    moreover have "t \<notin> set (cm_workOutputs c')" "t \<notin> set (own_tensors c')" if "c' \<in> set cs" for c'
      using D(8) [OF t(1), of c'] D(6) [of t c'] t(1) that by auto
    ultimately show "t \<notin> acquires ?es" unfolding acquires_append Un_iff acquires_events gs0 by blast
  qed
  moreover have "t \<notin> acquires (map EvUse (cm_workInputs c) @ ?es)" if "Acquire t \<in> set (cm_requests c) \<or> Release t \<in> set (cm_requests c)" for t
  proof -
    have o: "t \<in> set (own_tensors c)" using that D(4) own by blast
    have "t \<notin> set (cm_workInputs c')" "t \<notin> set (cm_workOutputs c')" "t \<notin> set (own_tensors c')" if "c' \<in> set cs" for c'
      using D(5) [OF o, of c'] D(6) [of t c'] o that by auto
    then show ?thesis unfolding acquires_append Un_iff acquires_events gs0 acquires_map by blast
  qed
  ultimately have "sane cfg T (map ev_of (cm_requests c) @ map EvUse (cm_workInputs c) @ ?es)"
    by (intro sane_requests [OF D(2)]) blast+
  then have "sane cfg T (map EvAcq ((if pc_allocInput cfg then cm_workInputs c else []) @ cm_workOutputs c) @
      map ev_of (cm_requests c) @ map EvUse (cm_workInputs c) @ ?es)"
  proof (rule sane_acqs)
    fix t assume t: "t \<in> set ((if pc_allocInput cfg then cm_workInputs c else []) @ cm_workOutputs c)"
    then have io: "t \<in> set (cm_workInputs c @ cm_workOutputs c)" by (auto split: if_splits)
    have "t \<notin> set (own_tensors c)" using io D(5) [of t c] by auto
    then have "EvTake t \<notin> set (map ev_of (cm_requests c))"
      unfolding own by (force simp: ev_of_def split: Request.splits)
    moreover have "ends cfg (T t) t (map ev_of (cm_requests c) @ map EvUse (cm_workInputs c) @ ?es)" if p: "pooled cfg (T t)"
    proof (cases "DYNAMIC = getTensorStorageType (T t) (pc_outputStatic cfg)")
      case True
      then have "t \<in> set ts" using Cons.prems(3) [of c t] io by simp
      then show ?thesis by (simp add: ends_def gs)
    next
      case False
      then have u: "pt_usage (T t) = INPUT" using p by (auto simp: pooled_def unreleased_def getTensorStorageType_def split: if_splits)
      then have i: "pc_allocInput cfg" "t \<in> set (cm_workInputs c)" using t D(9) [of t] by (auto simp: made_def split: if_splits)
      have "0 < count_list (cm_workInputs c) t" using i(2) by (metis count_list_0_iff gr0I)
      then show ?thesis using u i(1) D(7) [OF i(2)] by (simp add: ends_def releasable_def tensor_ok_def)
    qed
    ultimately show "EvTake t \<notin> set (map ev_of (cm_requests c) @ map EvUse (cm_workInputs c) @ ?es) \<and>
        (pooled cfg (T t) \<longrightarrow> ends cfg (T t) t (map ev_of (cm_requests c) @ map EvUse (cm_workInputs c) @ ?es))"
      using notake [of t] io by auto
  qed
  then show ?case by (simp only: events_of_def [of cfg c] list.map concat.simps append_assoc map_append)
qed

section \<open>Recycling and counting\<close>

lemma reset_mem_usage [simp]: "pt_usage (ps_tensors (reset_mem t s) t') = pt_usage (ps_tensors s t')"
  by (auto simp: reset_mem_def memobj_free_def upd_tensor_def split: option.splits)

lemma gives_run: "ev_run cfg (map EvGive ts) s = Some (fold reset_mem ts s)"
  by (induction ts arbitrary: s) simp_all

lemma recycle_fold:
  assumes "\<And>t. pt_usage (ps_tensors s t) = pt_usage (T t)"
  shows "fold (\<lambda>t s. if DYNAMIC = getTensorStorageType (ps_tensors s t) b then reset_mem t s else s) ts s =
    fold reset_mem (filter (\<lambda>t. DYNAMIC = getTensorStorageType (T t) b) ts) s"
  using assms
proof (induction ts arbitrary: s)
  case (Cons t ts)
  have "getTensorStorageType (ps_tensors s t) b = getTensorStorageType (T t) b" using Cons.prems by (simp add: getTensorStorageType_def)
  then show ?case using Cons.IH [of "reset_mem t s"] Cons.IH [of s] Cons.prems by simp
qed simp

lemma fold_reset_usage: "pt_usage (ps_tensors (fold reset_mem ts s) t) = pt_usage (ps_tensors s t)"
  by (induction ts arbitrary: s) simp_all

lemma recycleAll_run:
  assumes "\<And>t. pt_usage (ps_tensors s t) = pt_usage (T t)"
  shows "ev_run cfg (gives cfg T (concat (map oc_command infos))) s = Some (recycleAll cfg infos s)"
proof -
  have "fold (\<lambda>c s. if cm_group c \<noteq> pc_index cfg then s else recycleDynamicMemory (pc_outputStatic cfg) c s) cmds s =
      fold reset_mem (concat (map (\<lambda>c. if cm_group c \<noteq> pc_index cfg then []
        else filter (\<lambda>t. DYNAMIC = getTensorStorageType (T t) (pc_outputStatic cfg)) (cm_workOutputs c @ cm_workInputs c)) cmds)) s" for cmds
    using assms
  proof (induction cmds arbitrary: s)
    case (Cons c cmds)
    show ?case
    proof (cases "cm_group c = pc_index cfg")
      case True
      let ?ts = "filter (\<lambda>t. DYNAMIC = getTensorStorageType (T t) (pc_outputStatic cfg)) (cm_workOutputs c @ cm_workInputs c)"
      have "recycleDynamicMemory (pc_outputStatic cfg) c s = fold reset_mem ?ts s"
        unfolding recycleDynamicMemory_def by (rule recycle_fold) (rule Cons.prems)
      then show ?thesis using Cons.IH [of "fold reset_mem ?ts s"] Cons.prems True by (simp add: fold_reset_usage)
    next
      case False
      then show ?thesis using Cons.IH Cons.prems by simp
    qed
  qed simp
  then show ?thesis by (simp add: gives_def gives_run recycleAll_def)
qed

lemma put_useCount_simps:
  "ps_pool (put_useCount g t s) = ps_pool s"
  "ps_tensors (put_useCount g t s) t' = (if t' = t \<and> pt_usage (ps_tensors s t') \<noteq> CONSTANT
     then (ps_tensors s t')\<lparr>pt_useCount := g (pt_useCount (ps_tensors s t'))\<rparr> else ps_tensors s t')"
  by (cases "t' = t"; simp add: put_useCount_def upd_tensor_def)+

lemma put_fold:
  "ps_pool (fold (put_useCount g) ts s) = ps_pool s"
  "ps_tensors (fold (put_useCount g) ts s) t =
     (if pt_usage (ps_tensors s t) \<noteq> CONSTANT then (ps_tensors s t)\<lparr>pt_useCount := (g ^^ count_list ts t) (pt_useCount (ps_tensors s t))\<rparr> else ps_tensors s t)"
proof -
  show "ps_pool (fold (put_useCount g) ts s) = ps_pool s" by (induction ts arbitrary: s) (simp_all add: put_useCount_simps)
  show "ps_tensors (fold (put_useCount g) ts s) t =
       (if pt_usage (ps_tensors s t) \<noteq> CONSTANT then (ps_tensors s t)\<lparr>pt_useCount := (g ^^ count_list ts t) (pt_useCount (ps_tensors s t))\<rparr> else ps_tensors s t)"
    by (induction ts arbitrary: s) (simp_all add: put_useCount_simps funpow_swap1)
qed

lemma countUses_result:
  "ps_pool (countUses cs s) = ps_pool s"
  "ps_tensors (countUses cs s) t = (let n = count_list (concat (map cm_workInputs cs)) t in
     if pt_usage (ps_tensors s t) \<noteq> CONSTANT \<and> 0 < n then (ps_tensors s t)\<lparr>pt_useCount := int n\<rparr> else ps_tensors s t)"
proof -
  let ?ts = "concat (map cm_workInputs cs)"
  have add: "((\<lambda>n. n + 1) ^^ k) x = x + int k" for k and x :: int by (induction k) simp_all
  have zero: "((\<lambda>n. 0) ^^ k) x = (if k = 0 then x else 0)" for k and x :: int by (induction k) simp_all
  show "ps_pool (countUses cs s) = ps_pool s" by (simp add: countUses_def Let_def put_fold(1))
  show "ps_tensors (countUses cs s) t = (let n = count_list ?ts t in
     if pt_usage (ps_tensors s t) \<noteq> CONSTANT \<and> 0 < n then (ps_tensors s t)\<lparr>pt_useCount := int n\<rparr> else ps_tensors s t)"
    by (simp add: countUses_def Let_def put_fold(2) add zero)
qed

section \<open>The run of \<open>_allocForTensor\<close>\<close>

definition start_ok :: "PipeConfig \<Rightarrow> PipeState \<Rightarrow> Command list \<Rightarrow> bool" where
  \<comment> \<open>only constants have memory, and it is static; the buffer behind the pool is empty or owns memory\<close>
  "start_ok cfg st cmds \<longleftrightarrow>
     (\<forall>t m. pt_mem (ps_tensors st t) = Some m \<longrightarrow> mo_static m \<and> unreleased (ps_tensors st t)) \<and>
     (\<forall>c \<in> set cmds. (\<forall>t \<in> set (own_tensors c). pt_mem (ps_tensors st t) = None) \<and>
        (\<forall>t \<in> set (cm_workInputs c). unreleased (ps_tensors st t) \<longrightarrow> pt_mem (ps_tensors st t) \<noteq> None)) \<and>
     0 < mAlign (ps_pool st) \<and> buffer_ok (mParent (ps_pool st))"

lemma commands_ok_all:
  "commands_ok cfg T cs \<Longrightarrow> c \<in> set cs \<Longrightarrow> cm_group c = pc_index cfg \<and> (\<forall>t \<in> set (cm_workOutputs c). tensor_ok cfg (T t) \<and> made (T t)) \<and>
     (\<forall>t \<in> set (cm_workInputs c). tensor_ok cfg (T t))"
proof (induction cs)
  case (Cons a cs)
  note D = commands_okD [OF Cons.prems(1)]
  show ?case using Cons.IH [OF D(3)] Cons.prems(2) D(1,7,9) by (cases "c = a") auto
qed simp

lemma executed_all: "set (executed infos) \<subseteq> set (concat (map oc_command infos))"
  by (auto simp: executed_def)

definition plan_events :: "PipeConfig \<Rightarrow> PipeState \<Rightarrow> OpCacheInfo list \<Rightarrow> event list" where
  "plan_events cfg st infos = events cfg (executed infos) @ gives cfg (ps_tensors st) (concat (map oc_command infos))"

lemma plan_start:
  assumes ok: "commands_ok cfg (ps_tensors st0) (executed infos)" and start: "start_ok cfg st0 (executed infos)"
    and st1: "st1 = onResizeBegin (onResizeBegin (countUses (executed infos) st0))"
  shows "ev_inv cfg (plan_events cfg st0 infos) st1 []" "same_desc st0 st1" "\<not> dyn st1 t i"
proof -
  let ?cs = "executed infos"
  let ?T = "ps_tensors st0"
  have T: "ps_tensors st1 t = (let n = count_list (concat (map cm_workInputs ?cs)) t in
     if pt_usage (?T t) \<noteq> CONSTANT \<and> 0 < n then (?T t)\<lparr>pt_useCount := int n\<rparr> else ?T t)" for t
    by (simp add: st1 onResizeBegin_def countUses_result)
  have mem: "pt_mem (ps_tensors st1 t) = pt_mem (?T t)" for t by (simp add: T Let_def)
  show desc: "same_desc st0 st1" by (simp add: same_desc_def T Let_def)
  have pool: "ps_pool st1 = defer_reset (defer_reset (ps_pool st0))" by (simp add: st1 onResizeBegin_def countUses_result)
  have dyn: "\<not> dyn st1 t i" for t i using start mem by (auto simp: start_ok_def dyn_def)
  then show "\<not> dyn st1 t i" .
  have noatt: "\<not> att (ps_pool st1) t j" for t j by (simp add: pool att_def tensors_of_def defer_reset_def)
  let ?gs = "gives cfg ?T (concat (map oc_command infos))"
  obtain ts where gs: "?gs = map EvGive ts"
      "\<And>c t. c \<in> set (concat (map oc_command infos)) \<Longrightarrow> cm_group c = pc_index cfg \<Longrightarrow> t \<in> set (cm_workInputs c @ cm_workOutputs c) \<Longrightarrow>
        DYNAMIC = getTensorStorageType (?T t) (pc_outputStatic cfg) \<Longrightarrow> t \<in> set ts"
    by (rule that, unfold gives_def, rule refl) auto
  have sane: "sane cfg ?T (plan_events cfg st0 infos)"
    unfolding plan_events_def
    by (rule sane_commands [OF ok gs(1)]) (use gs(2) executed_all commands_ok_all [OF ok] in blast)
  have uses: "uses (plan_events cfg st0 infos) t = count_list (concat (map cm_workInputs ?cs)) t" for t
    unfolding plan_events_def uses_simps uses_events gs(1) uses_map by simp
  have "pool_ok (ps_pool st1) Map.empty []"
    unfolding pool by (rule pool_ok_reset) (use start in \<open>simp add: start_ok_def defer_reset_def\<close>)
  then have "holds st1 [] Map.empty"
    using dyn start mem by (auto simp: holds_def start_ok_def pool defer_reset_def)
  moreover have "pt_mem (ps_tensors st1 t) \<noteq> None" if "EvAcq t \<in> set (plan_events cfg st0 infos)" "unreleased (ps_tensors st1 t)" for t
  proof -
    have "EvAcq t \<in> set (events cfg ?cs)" using that(1) by (auto simp: plan_events_def gs(1))
    then obtain c where c: "c \<in> set ?cs" "EvAcq t \<in> set (events_of cfg c)" by auto
    have "EvAcq t \<notin> set (map ev_of rs)" for rs by (auto simp: ev_of_def split: Request.splits)
    then have "t \<in> set (cm_workInputs c) \<or> t \<in> set (cm_workOutputs c)" using c(2) by (auto simp: events_of_def split: if_splits)
    moreover have "t \<notin> set (cm_workOutputs c)"
      using commands_ok_all [OF ok c(1)] that(2) desc_cong(3) [OF desc, of t] by (auto simp: made_def unreleased_def)
    ultimately show ?thesis using start c(1) that(2) desc_cong(3) [OF desc, of t] mem by (auto simp: start_ok_def)
  qed
  moreover have "pt_mem (ps_tensors st1 t) = None" if "EvTake t \<in> set (plan_events cfg st0 infos)" for t
  proof -
    have "EvTake t \<in> set (events cfg ?cs)" using that by (auto simp: plan_events_def gs(1))
    then show ?thesis unfolding take_events using start mem by (auto simp: start_ok_def)
  qed
  moreover have "pt_useCount (ps_tensors st1 t) = int (uses (plan_events cfg st0 infos) t)"
    if "0 < uses (plan_events cfg st0 infos) t" "pt_usage (ps_tensors st1 t) \<noteq> CONSTANT" for t
    using that desc_cong(4) [OF desc, of t] by (simp add: T uses)
  moreover have "\<not> mo_static m" if "pooled cfg (ps_tensors st1 t)" "pt_mem (ps_tensors st1 t) = Some m" for t m
    using that start desc_cong(3) [OF desc, of t] mem by (auto simp: start_ok_def pooled_def)
  ultimately show "ev_inv cfg (plan_events cfg st0 infos) st1 []"
    unfolding ev_inv_def using sane sane_cong [OF desc] noatt dyn by (auto simp: pipe_ok_def)
qed

lemma plan_run:
  assumes ok: "commands_ok cfg (ps_tensors st0) (executed infos)" and start: "start_ok cfg st0 (executed infos)"
    and res: "allocForTensor onAlloc cfg infos st0 = Some (NO_ERROR, st)"
  obtains st1 s where "ev_inv cfg (plan_events cfg st0 infos) st1 []" "same_desc st0 st1" "\<And>t i. \<not> dyn st1 t i"
    "ev_run cfg (plan_events cfg st0 infos) st1 = Some s" "onResizeEnds onAlloc s = Some (NO_ERROR, st)"
proof -
  define st1 where "st1 = onResizeBegin (onResizeBegin (countUses (executed infos) st0))"
  obtain st2 where st2: "allocCommands cfg (executed infos) st1 = (NO_ERROR, st2)"
      "onResizeEnds onAlloc (recycleAll cfg infos st2) = Some (NO_ERROR, st)"
    using res by (auto simp: allocForTensor_def Let_def st1_def onResizeEnds_def split: prod.splits if_splits)
  note s = plan_start [OF ok start st1_def]
  have run: "ev_run cfg (events cfg (executed infos)) st1 = Some st2"
    by (rule allocCommands_run [OF st2(1)]) (use commands_ok_all [OF ok] in blast)
  have "same_desc st1 st2"
    by (rule ev_runE [OF s(1) [unfolded plan_events_def] run])
  then have "pt_usage (ps_tensors st2 t) = pt_usage (ps_tensors st0 t)" for t
    using desc_cong(4) [OF same_desc_trans [OF s(2)]] by blast
  from recycleAll_run [of st2, OF this] run
  have "ev_run cfg (plan_events cfg st0 infos) st1 = Some (recycleAll cfg infos st2)"
    by (simp add: plan_events_def ev_run_append)
  then show thesis using that s st2(2) by blast
qed

end
