(* ===== verification/PipelineTheorems.thy ===== *)
theory PipelineTheorems
  imports PipelinePlan
begin

text \<open>
  What the memory plan promises to the commands: a command never writes memory that holds a tensor
  which is still needed.
\<close>

section \<open>Disjoint memory\<close>

lemma disjoint_ranges_sym: "disjoint_ranges st t t' \<longleftrightarrow> disjoint_ranges st t' t"
  by (auto simp: disjoint_ranges_def)

definition acqs :: "PipeConfig \<Rightarrow> Command \<Rightarrow> event list" where
  "acqs cfg c = map EvAcq ((if pc_allocInput cfg then cm_workInputs c else []) @ cm_workOutputs c)"

definition taken :: "Command \<Rightarrow> event list" where
  "taken c = map ev_of (cm_requests c)"

lemma events_of_parts: "events_of cfg c = acqs cfg c @ taken c @ map EvUse (cm_workInputs c)"
  by (simp add: events_of_def acqs_def taken_def)

lemma commands_okD_mid:
  "commands_ok cfg T (P @ c # S) \<Longrightarrow> commands_ok cfg T (c # S)"
  by (induction P) (auto simp del: commands_ok.simps dest: commands_okD(3))

lemma own_apart:
  "commands_ok cfg T cs \<Longrightarrow> c \<in> set cs \<Longrightarrow> t \<in> set (cm_workInputs c @ cm_workOutputs c) \<Longrightarrow> c' \<in> set cs \<Longrightarrow>
     t \<notin> set (own_tensors c')"
proof (induction cs)
  case (Cons a cs)
  note D = commands_okD [OF Cons.prems(1)]
  consider "c' = a" | "c = a" "c' \<in> set cs" | "c \<in> set cs" "c' \<in> set cs" using Cons.prems(2,4) by auto
  then show ?case
  proof cases
    case 1
    then show ?thesis using D(5) [of t c] Cons.prems(2,3) by auto
  next
    case 2
    then show ?thesis using D(6) [of t c'] Cons.prems(3) by auto
  next
    case 3
    then show ?thesis using Cons.IH [OF D(3)] Cons.prems(3) by blast
  qed
qed simp

lemma give_own:
  "commands_ok cfg T cs \<Longrightarrow> EvGive t \<in> set (events cfg cs) \<Longrightarrow> \<exists>c \<in> set cs. t \<in> set (own_tensors c)"
proof (induction cs)
  case (Cons a cs)
  note D = commands_okD [OF Cons.prems(1)]
  have "EvGive t \<in> set (events_of cfg a) \<Longrightarrow> t \<in> set (own_tensors a)"
    using D(4) [of t] by (force simp: events_of_def ev_of_def split: Request.splits)
  then show ?case using Cons.IH [OF D(3)] Cons.prems(2) by auto
qed simp

lemma give_events:
  assumes "commands_ok cfg T cs" "c \<in> set cs" "t \<in> set (cm_workInputs c @ cm_workOutputs c)"
  shows "EvGive t \<notin> set (events cfg cs)" "EvTake t \<notin> set (events cfg cs)"
  using give_own [OF assms(1)] own_apart [OF assms] unfolding take_events by blast+

text \<open>Two acquisitions before the last use of the first tensor.\<close>

lemma split_two: "x \<in> set xs \<Longrightarrow> y \<in> set ys \<Longrightarrow> \<exists>A B C. xs @ ys = A @ x # B @ y # C \<and> set B \<subseteq> set xs \<union> set ys \<and> (\<exists>C'. ys = C' @ y # C)"
proof -
  assume "x \<in> set xs" "y \<in> set ys"
  then obtain A B B' C where "xs = A @ x # B" "ys = B' @ y # C" by (meson split_list)
  then show ?thesis by (intro exI [of _ A] exI [of _ "B @ B'"] exI [of _ C]) auto
qed

lemma order_two: "x \<in> set xs \<Longrightarrow> y \<in> set xs \<Longrightarrow> x \<noteq> y \<Longrightarrow> (\<exists>A B C. xs = A @ x # B @ y # C) \<or> (\<exists>A B C. xs = A @ y # B @ x # C)"
proof (induction xs)
  case (Cons z xs)
  then consider "z = x" "y \<in> set xs" | "z = y" "x \<in> set xs" | "x \<in> set xs" "y \<in> set xs" by auto
  then show ?case
  proof cases
    case 1
    then show ?thesis by (metis append_Nil split_list)
  next
    case 2
    then show ?thesis by (metis append_Nil split_list)
  next
    case 3
    then show ?thesis using Cons by (metis append_Cons)
  qed
qed simp

definition wanted :: "(nat \<Rightarrow> PTensor) \<Rightarrow> Command list \<Rightarrow> nat \<Rightarrow> bool" where
  \<comment> \<open>read by one of the commands, or a result of the pipeline\<close>
  "wanted T cs t \<longleftrightarrow> (\<exists>c \<in> set cs. t \<in> set (cm_workInputs c)) \<or> pt_usage (T t) = OUTPUT"

lemma uses_pos: "0 < uses es t \<longleftrightarrow> EvUse t \<in> set es"
  by (auto simp: uses_def filter_empty_conv)

lemma command_disjoint:
  assumes ok: "commands_ok cfg (ps_tensors st0) (executed infos)" and start: "start_ok cfg st0 (executed infos)"
    and res: "allocForTensor onAlloc cfg infos st0 = Some (NO_ERROR, st)"
    and ex: "executed infos = P @ c # S"
    and t': "t' \<in> set (cm_workOutputs c) \<and> pooled cfg (ps_tensors st0 t') \<or> t' \<in> set (own_tensors c)" and ne: "t \<noteq> t'"
    and t: "(\<exists>p \<in> set (P @ [c]). t \<in> set (cm_workOutputs p)) \<or> pt_usage (ps_tensors st0 t) = INPUT \<and> pc_allocInput cfg"
    and want: "wanted (ps_tensors st0) (c # S) t" and pool: "pooled cfg (ps_tensors st0 t)"
  shows "disjoint_ranges st t t'"
proof -
  let ?T = "ps_tensors st0"
  obtain st1 s where s: "ev_inv cfg (plan_events cfg st0 infos) st1 []" "same_desc st0 st1" "\<And>t i. \<not> dyn st1 t i"
    "ev_run cfg (plan_events cfg st0 infos) st1 = Some s" "onResizeEnds onAlloc s = Some (NO_ERROR, st)"
    using plan_run [OF ok start res] by blast
  note all = commands_ok_all [OF ok]
  note D = commands_okD [OF commands_okD_mid [OF ok [unfolded ex]]]
  define R where "R = map EvUse (cm_workInputs c) @ events cfg S @ gives cfg ?T (concat (map oc_command infos))"
  have parts: "plan_events cfg st0 infos = events cfg P @ acqs cfg c @ taken c @ R"
    by (simp add: plan_events_def ex events_of_parts R_def)
  have cs: "c' \<in> set (P @ [c]) \<Longrightarrow> c' \<in> set (executed infos)" for c' by (auto simp: ex)
  obtain q where q: "q \<in> set (executed infos)" "t \<in> set (cm_workInputs q @ cm_workOutputs q)"
  proof (cases "pt_usage (?T t) = INPUT")
    case True
    then obtain q where "q \<in> set (c # S)" "t \<in> set (cm_workInputs q)" using want by (auto simp: wanted_def)
    then show thesis using that [of q] by (auto simp: ex)
  next
    case False
    then show thesis using t that cs by auto
  qed
  have give: "EvGive t \<notin> set (events cfg (executed infos))" by (rule give_events(1) [OF ok q])
  have tok: "tensor_ok cfg (?T t)" using all [OF q(1)] q(2) by auto
  have acqE: "acquiring cfg (ps_tensors st1) (EvAcq x) x" if "tensor_ok cfg (?T x)" "pooled cfg (?T x)" for x
    using that desc_cong [OF s(2)] by (simp add: acquiring_def tensor_ok_def)
  note acq1 = acqE [OF tok pool]
  define e2 where "e2 = (if t' \<in> set (own_tensors c) then EvTake t' else EvAcq t')"
  have out2: "t' \<in> set (cm_workOutputs c)" "pooled cfg (?T t')" if "t' \<notin> set (own_tensors c)" using that t' by auto
  have e2: "acquiring cfg (ps_tensors st1) e2 t'"
    using acqE [OF _ out2(2)] D(9) [OF out2(1)] by (simp add: e2_def acquiring_def)
  have own2: "EvTake x \<in> set (taken c)" if "x \<in> set (own_tensors c)" for x
    using that by (force simp: taken_def own_tensors_def split: Request.splits)
  have e2_in: "e2 \<in> set (acqs cfg c @ taken c)"
    using own2 [of t'] out2(1) by (auto simp: e2_def acqs_def)
  have sub: "set (events cfg P @ acqs cfg c @ taken c) \<subseteq> set (events cfg (executed infos))"
    by (auto simp: ex events_of_parts)
  have useR: "0 < uses (e2 # C @ R) t \<or> pt_usage (ps_tensors st1 t) = OUTPUT" for C
  proof -
    have "EvUse t \<in> set R" if "pt_usage (?T t) \<noteq> OUTPUT"
      using want that by (auto simp: wanted_def R_def events_of_parts)
    then show ?thesis using desc_cong(4) [OF s(2)] by (auto simp: uses_pos)
  qed
  have later: "disjoint_ranges st t t'"
    if "events cfg P @ acqs cfg c @ taken c = A @ EvAcq t # B @ e2 # C" for A B C
  proof (rule later_disjoint [OF _ _ s(5) acq1 e2 ne])
    have "A @ EvAcq t # B @ e2 # C @ R = plan_events cfg st0 infos"
      using arg_cong [OF that, of "\<lambda>es. es @ R"] by (simp add: parts)
    then show "ev_inv cfg (A @ EvAcq t # B @ e2 # C @ R) st1 []" "ev_run cfg (A @ EvAcq t # B @ e2 # C @ R) st1 = Some s"
      using s(1,4) by simp_all
    have "EvGive t \<notin> set B" using give sub unfolding that by auto
    then show "alive B (e2 # C @ R) (ps_tensors st1 t) t" using useR [of C] by (auto simp: alive_def)
  qed
  show ?thesis
  proof (cases "EvAcq t \<in> set (events cfg P @ acqs cfg c)")
    case True
    show ?thesis
    proof (cases "EvAcq t \<in> set (acqs cfg c) \<and> e2 \<in> set (acqs cfg c)")
      case True
      moreover have "e2 \<noteq> EvAcq t" using ne by (simp add: e2_def)
      ultimately consider A B C where "acqs cfg c = A @ EvAcq t # B @ e2 # C" | A B C where "acqs cfg c = A @ e2 # B @ EvAcq t # C"
        using order_two [of "EvAcq t" "acqs cfg c" e2] by blast
      then show ?thesis
      proof cases
        case (1 A B C)
        then show ?thesis using later [of "events cfg P @ A" B "C @ taken c"] by simp
      next
        case (2 A B C)
        have "disjoint_ranges st t' t"
        proof (rule later_disjoint [OF _ _ s(5) e2 acq1 ne [symmetric]])
          show "ev_inv cfg ((events cfg P @ A) @ e2 # B @ EvAcq t # (C @ taken c @ R)) st1 []"
            "ev_run cfg ((events cfg P @ A) @ e2 # B @ EvAcq t # (C @ taken c @ R)) st1 = Some s"
            using s(1,4) 2 by (simp_all add: parts)
          have "set B \<subseteq> set (acqs cfg c)" by (auto simp: 2)
          then show "alive B (EvAcq t # (C @ taken c @ R)) (ps_tensors st1 t') t'" by (auto simp: alive_def acqs_def)
        qed
        then show ?thesis by (simp only: disjoint_ranges_sym)
      qed
    next
      case False
      then consider "EvAcq t \<in> set (events cfg P)" | "EvAcq t \<in> set (acqs cfg c)" "e2 \<in> set (taken c)"
        using True e2_in by auto
      then show ?thesis
      proof cases
        case 1
        show ?thesis using split_two [OF 1 e2_in] later by auto
      next
        case 2
        show ?thesis using split_two [of "EvAcq t" "events cfg P @ acqs cfg c" e2 "taken c"] 2 later by auto
      qed
    qed
  next
    case False
    note early = this
    have "t \<notin> set (cm_workOutputs p)" if "p \<in> set (P @ [c])" for p
      using early that by (auto simp: events_of_parts acqs_def)
    then have "pt_usage (?T t) = INPUT" "pc_allocInput cfg" using t by blast+
    then obtain c' where c': "c' \<in> set (c # S)" "t \<in> set (cm_workInputs c')" using want by (auto simp: wanted_def)
    have "c' \<noteq> c" using early c'(2) \<open>pc_allocInput cfg\<close> by (auto simp: acqs_def)
    then have "EvAcq t \<in> set (events cfg S)" using c' \<open>pc_allocInput cfg\<close> by (auto simp: events_of_parts acqs_def)
    then have "EvAcq t \<in> set R" by (simp add: R_def)
    then obtain B' C where R: "R = B' @ EvAcq t # C" "EvAcq t \<notin> set B'" by (meson split_list_first)
    obtain A B where A: "acqs cfg c @ taken c = A @ e2 # B" using e2_in by (meson split_list)
    have eq: "(events cfg P @ A) @ e2 # (B @ B') @ EvAcq t # C = plan_events cfg st0 infos"
      using arg_cong [OF A, of "\<lambda>es. es @ R"] by (simp add: parts R(1))
    have "disjoint_ranges st t t'"
    proof (rule earlier_disjoint [OF _ _ s(5) acq1 e2 ne])
      show "ev_inv cfg ((events cfg P @ A) @ e2 # (B @ B') @ EvAcq t # C) st1 []"
        "ev_run cfg ((events cfg P @ A) @ e2 # (B @ B') @ EvAcq t # C) st1 = Some s"
        using s(1,4) eq by simp_all
      show "getTensorStorageType (ps_tensors st1 t) (pc_outputStatic cfg) = DYNAMIC_SEPERATE"
        using \<open>pt_usage (?T t) = INPUT\<close> desc_cong(4) [OF s(2)] by (simp add: getTensorStorageType_def)
      have "set ((events cfg P @ A) @ e2 # B @ B') \<subseteq> set (plan_events cfg st0 infos)" by (simp flip: eq) blast
      moreover have "EvTake t \<notin> set (plan_events cfg st0 infos)"
        using give_events(2) [OF ok q] by (auto simp: plan_events_def gives_def)
      moreover have "EvAcq t \<notin> set ((events cfg P @ A) @ e2 # B @ B')"
      proof -
        have "EvAcq t \<notin> set (acqs cfg c @ taken c)"
          using early by (auto simp: taken_def ev_of_def split: Request.splits)
        then have "EvAcq t \<notin> set (A @ e2 # B)" unfolding A .
        then show ?thesis using early R(2) by simp
      qed
      ultimately show "t \<notin> acquires ((events cfg P @ A) @ e2 # B @ B')" by (auto simp: acquires_def)
    qed (use s(3) in simp)
    then show ?thesis .
  qed
qed

lemma acquiring_event:
  assumes ok: "commands_ok cfg (ps_tensors st0) (executed infos)" and c: "c \<in> set (executed infos)"
    and t: "pooled cfg (ps_tensors st0 t) \<and> t \<in> set (cm_workOutputs c @ (if pc_allocInput cfg then cm_workInputs c else [])) \<or>
      t \<in> set (own_tensors c)"
    and desc: "same_desc st0 st1"
  shows "\<exists>e \<in> set (plan_events cfg st0 infos). acquiring cfg (ps_tensors st1) e t"
proof (cases "t \<in> set (own_tensors c)")
  case True
  have "EvTake t \<in> set (plan_events cfg st0 infos)"
    using c True unfolding plan_events_def set_append Un_iff take_events by blast
  then show ?thesis by (auto simp: acquiring_def)
next
  case False
  then have p: "pooled cfg (ps_tensors st0 t)" "t \<in> set (cm_workOutputs c @ (if pc_allocInput cfg then cm_workInputs c else []))"
    using t by blast+
  have "tensor_ok cfg (ps_tensors st0 t)" using commands_ok_all [OF ok c] p(2) by (auto split: if_splits)
  then have "acquiring cfg (ps_tensors st1) (EvAcq t) t"
    using p(1) desc_cong(1) [OF desc, of cfg t] desc_cong(5) [OF desc, of t] by (simp add: acquiring_def tensor_ok_def)
  moreover have "EvAcq t \<in> set (plan_events cfg st0 infos)"
    using c p(2) by (auto simp: plan_events_def events_of_parts acqs_def split: if_splits)
  ultimately show ?thesis by blast
qed

end
