(* ===== verification/PipelineRefine.thy ===== *)
theory PipelineRefine
  imports PipelineTheorems
begin

text \<open>
  Executing on planned memory: the commands compute what they compute when every tensor has a store of
  its own (\<open>separate_execute\<close>), although the plan gives many tensors the same addresses.
\<close>

section \<open>One store per tensor\<close>

definition separateCommand ::
  "(Command \<Rightarrow> 'v list list \<Rightarrow> nat \<Rightarrow> nat \<Rightarrow> 'v) \<Rightarrow> (nat \<Rightarrow> PTensor) \<Rightarrow> Command \<Rightarrow> (nat \<Rightarrow> 'v list) \<Rightarrow> nat \<Rightarrow> 'v list" where
  "separateCommand run T c store =
     (\<lambda>t. if t \<in> set (cm_workOutputs c) then map (run c (map store (cm_workInputs c)) t) [0..<pt_bytes (T t)] else store t)"

fun separate_execute ::
  "(Command \<Rightarrow> 'v list list \<Rightarrow> nat \<Rightarrow> nat \<Rightarrow> 'v) \<Rightarrow> (Command \<Rightarrow> ErrorCode) \<Rightarrow> (nat \<Rightarrow> PTensor) \<Rightarrow> Command list \<Rightarrow>
     (nat \<Rightarrow> 'v list) \<Rightarrow> ErrorCode \<times> (nat \<Rightarrow> 'v list)" where
  "separate_execute run status T [] store = (NO_ERROR, store)"
| "separate_execute run status T (c # cs) store =
     (let store1 = separateCommand run T c store
      in if status c \<noteq> NO_ERROR then (status c, store1) else separate_execute run status T cs store1)"

section \<open>Reading and writing\<close>

lemma read_write:
  "read_tensor st (write_tensor st t f mem) t = map f [0..<pt_bytes (ps_tensors st t)]"
  "disjoint_ranges st t t' \<Longrightarrow> read_tensor st (write_tensor st t' f mem) t = read_tensor st mem t"
  by (auto simp: read_tensor_def write_tensor_def disjoint_ranges_def)

lemma read_writes:
  assumes "\<And>t'. t' \<in> set ts \<Longrightarrow> t' \<noteq> t \<Longrightarrow> disjoint_ranges st t t'"
  shows "read_tensor st (fold (\<lambda>t. write_tensor st t (f t)) ts mem) t =
    (if t \<in> set ts then map (f t) [0..<pt_bytes (ps_tensors st t)] else read_tensor st mem t)"
  using assms
proof (induction ts rule: rev_induct)
  case (snoc x ts)
  show ?case
  proof (cases "x = t")
    case False
    then have "disjoint_ranges st t x" using snoc.prems by simp
    then show ?thesis using snoc False by (simp add: read_write(2))
  qed (simp add: read_write(1))
qed simp

lemma read_onExecute:
  assumes "\<And>t'. t' \<in> set (cm_workOutputs c @ own_tensors c) \<Longrightarrow> t' \<noteq> t \<Longrightarrow> disjoint_ranges st t t'" "t \<notin> set (own_tensors c)"
  shows "read_tensor st (onExecute run junk st c mem) t =
    (if t \<in> set (cm_workOutputs c) then map (run c (map (read_tensor st mem) (cm_workInputs c)) t) [0..<pt_bytes (ps_tensors st t)]
     else read_tensor st mem t)"
  using assms by (simp add: onExecute_def Let_def read_writes)

section \<open>The refinement\<close>

definition managed :: "PipeConfig \<Rightarrow> PTensor \<Rightarrow> bool" where
  \<comment> \<open>the plan takes the memory of the tensor from the pool\<close>
  "managed cfg d \<longleftrightarrow> pooled cfg d \<and> (pt_usage d = INPUT \<longrightarrow> pc_allocInput cfg)"

definition loaded :: "PTensor \<Rightarrow> bool" where
  \<comment> \<open>has its contents before the pipeline runs\<close>
  "loaded d \<longleftrightarrow> pt_usage d = INPUT \<or> unreleased d"

definition fed :: "(nat \<Rightarrow> PTensor) \<Rightarrow> Command list \<Rightarrow> bool" where
  \<comment> \<open>what a command reads is loaded or written by a command\<close>
  "fed T cs \<longleftrightarrow> (\<forall>c \<in> set cs. \<forall>t \<in> set (cm_workInputs c). loaded (T t) \<or> (\<exists>c' \<in> set cs. t \<in> set (cm_workOutputs c')))"

definition outside_apart :: "PipeConfig \<Rightarrow> PipeState \<Rightarrow> Command list \<Rightarrow> bool" where
  \<comment> \<open>memory that is not the pool's is apart from what the commands write\<close>
  "outside_apart cfg st cs \<longleftrightarrow>
     (\<forall>c \<in> set cs. \<forall>t' \<in> set (cm_workOutputs c @ own_tensors c). \<forall>d \<in> set cs. \<forall>t \<in> set (cm_workInputs d @ cm_workOutputs d).
        t \<noteq> t' \<longrightarrow> \<not> managed cfg (ps_tensors st t) \<or> (t' \<in> set (cm_workOutputs c) \<and> \<not> managed cfg (ps_tensors st t')) \<longrightarrow>
        disjoint_ranges st t t')"

definition agree :: "PipeState \<Rightarrow> (nat \<Rightarrow> 'v) \<Rightarrow> (nat \<Rightarrow> 'v list) \<Rightarrow> Command list \<Rightarrow> Command list \<Rightarrow> bool" where
  \<comment> \<open>memory and stores agree on what the commands \<open>S\<close> after \<open>P\<close> still need\<close>
  "agree st mem store P S \<longleftrightarrow>
     (\<forall>t. wanted (ps_tensors st) S t \<longrightarrow>
        (\<exists>p \<in> set P. t \<in> set (cm_workOutputs p)) \<or> loaded (ps_tensors st t) \<and> (\<exists>q \<in> set S. t \<in> set (cm_workInputs q)) \<longrightarrow>
        read_tensor st mem t = store t)"

lemma plan_desc:
  assumes ok: "commands_ok cfg (ps_tensors st0) (executed infos)" and start: "start_ok cfg st0 (executed infos)"
    and res: "allocForTensor onAlloc cfg infos st0 = Some (NO_ERROR, st)"
  shows "same_desc st0 st"
proof -
  obtain st1 s where s: "ev_inv cfg (plan_events cfg st0 infos) st1 []" "same_desc st0 st1" "\<And>t i. \<not> dyn st1 t i"
    "ev_run cfg (plan_events cfg st0 infos) st1 = Some s" "onResizeEnds onAlloc s = Some (NO_ERROR, st)"
    using plan_run [OF ok start res] by blast
  have inv: "ev_inv cfg (plan_events cfg st0 infos @ []) st1 []" unfolding append_Nil2 by (rule s(1))
  have "same_desc st1 s" by (rule ev_runE [OF inv s(4)])
  from same_desc_trans [OF s(2) this] have "same_desc st0 s" .
  moreover have "ps_tensors st = ps_tensors s"
    using s(5) by (auto simp: onResizeEnds_def onResizeEnd_def split: option.splits if_splits)
  ultimately show ?thesis unfolding same_desc_def by simp
qed

lemma desc_same:
  assumes "same_desc st0 st"
  shows "managed cfg (ps_tensors st t) = managed cfg (ps_tensors st0 t)" "loaded (ps_tensors st t) = loaded (ps_tensors st0 t)"
    "wanted (ps_tensors st) cs t = wanted (ps_tensors st0) cs t" "fed (ps_tensors st) cs = fed (ps_tensors st0) cs"
proof -
  note d = desc_cong(1,3,4) [OF assms]
  show "managed cfg (ps_tensors st t) = managed cfg (ps_tensors st0 t)" by (simp add: managed_def d(1,3))
  show l: "loaded (ps_tensors st t) = loaded (ps_tensors st0 t)" for t by (simp add: loaded_def d(2,3))
  show "wanted (ps_tensors st) cs t = wanted (ps_tensors st0) cs t" by (simp add: wanted_def d(3))
  show "fed (ps_tensors st) cs = fed (ps_tensors st0) cs" unfolding fed_def l ..
qed

lemma agree_step:
  assumes ok: "commands_ok cfg (ps_tensors st0) (executed infos)" and start: "start_ok cfg st0 (executed infos)"
    and res: "allocForTensor onAlloc cfg infos st0 = Some (NO_ERROR, st)" and ex: "executed infos = P @ c # S"
    and fed: "fed (ps_tensors st0) (executed infos)" and out: "outside_apart cfg st (executed infos)"
    and agr: "agree st mem store P (c # S)"
  shows "agree st (onExecute run junk st c mem) (separateCommand run (ps_tensors st) c store) (P @ [c]) S"
  unfolding agree_def
proof (intro allI impI)
  fix t
  assume want: "wanted (ps_tensors st) S t"
    and src: "(\<exists>p \<in> set (P @ [c]). t \<in> set (cm_workOutputs p)) \<or> loaded (ps_tensors st t) \<and> (\<exists>q \<in> set S. t \<in> set (cm_workInputs q))"
  note desc = plan_desc [OF ok start res]
  note D = commands_okD [OF commands_okD_mid [OF ok [unfolded ex]]]
  have wantc: "wanted (ps_tensors st) (c # S) t" using want by (auto simp: wanted_def)
  obtain q where q: "q \<in> set (executed infos)" "t \<in> set (cm_workInputs q @ cm_workOutputs q)" using src by (auto simp: ex)
  have c: "c \<in> set (executed infos)" by (simp add: ex)
  have dis: "disjoint_ranges st t t'" if t': "t' \<in> set (cm_workOutputs c @ own_tensors c)" "t' \<noteq> t" for t'
  proof (cases "managed cfg (ps_tensors st t) \<and> (t' \<in> set (cm_workOutputs c) \<longrightarrow> managed cfg (ps_tensors st t'))")
    case True
    have "disjoint_ranges st t t'"
    proof (rule command_disjoint [OF ok start res ex])
      show "t' \<in> set (cm_workOutputs c) \<and> pooled cfg (ps_tensors st0 t') \<or> t' \<in> set (own_tensors c)"
        using t'(1) True by (auto simp: managed_def desc_cong(1) [OF desc])
      show "(\<exists>p \<in> set (P @ [c]). t \<in> set (cm_workOutputs p)) \<or> pt_usage (ps_tensors st0 t) = INPUT \<and> pc_allocInput cfg"
        using src True by (auto simp: managed_def loaded_def pooled_def desc_cong(3,4) [OF desc])
      show "wanted (ps_tensors st0) (c # S) t" using wantc desc_same(3) [OF desc] by simp
      show "pooled cfg (ps_tensors st0 t)" using True by (simp add: managed_def desc_cong(1) [OF desc])
    qed (fact t'(2) [symmetric])
    then show ?thesis .
  next
    case False
    then show ?thesis using out c q t' by (simp add: outside_apart_def)
  qed
  have args: "map (read_tensor st mem) (cm_workInputs c) = map store (cm_workInputs c)"
  proof (rule map_cong [OF refl])
    fix x assume x: "x \<in> set (cm_workInputs c)"
    have "loaded (ps_tensors st x) \<or> (\<exists>p \<in> set P. x \<in> set (cm_workOutputs p))"
      using fed x D(8) [OF x] desc_same(2) [OF desc] by (auto simp: fed_def ex)
    then show "read_tensor st mem x = store x" using agr x by (auto simp: agree_def wanted_def)
  qed
  have "t \<notin> set (own_tensors c)" by (rule own_apart [OF ok q c])
  moreover have "t \<notin> set (cm_workOutputs c) \<Longrightarrow> read_tensor st mem t = store t"
    using agr wantc src by (auto simp: agree_def)
  ultimately show "read_tensor st (onExecute run junk st c mem) t = separateCommand run (ps_tensors st) c store t"
    using dis by (subst read_onExecute) (auto simp: separateCommand_def args)
qed

lemma agree_execute:
  assumes ok: "commands_ok cfg (ps_tensors st0) (executed infos)" and start: "start_ok cfg st0 (executed infos)"
    and res: "allocForTensor onAlloc cfg infos st0 = Some (NO_ERROR, st)"
    and fed: "fed (ps_tensors st0) (executed infos)" and out: "outside_apart cfg st (executed infos)"
  shows "executed infos = P @ S \<Longrightarrow> agree st mem store P S \<Longrightarrow>
    fst (executeCommands run junk status st S mem) = fst (separate_execute run status (ps_tensors st) S store) \<and>
    (fst (executeCommands run junk status st S mem) = NO_ERROR \<longrightarrow>
       agree st (snd (executeCommands run junk status st S mem)) (snd (separate_execute run status (ps_tensors st) S store)) (P @ S) [])"
proof (induction S arbitrary: P mem store)
  case (Cons c S)
  note step = agree_step [OF ok start res Cons.prems(1) fed out Cons.prems(2), of run junk]
  show ?case using Cons.IH [OF _ step] Cons.prems(1) by (simp add: Let_def)
qed simp

end
