(* ===== verification/PipelineProgress.thy ===== *)
theory PipelineProgress
  imports PipelineRefine
begin

text \<open>
  The plan is found: when every tensor needs memory and the executions accept their tensors, no request
  fails, and the pool is laid out at the end.
\<close>

section \<open>No request fails\<close>

lemma same_desc_upd:
  assumes "pt_usage (f d) = pt_usage d" "pt_memoryType (f d) = pt_memoryType d" "pt_group (f d) = pt_group d"
    "pt_handle (f d) = pt_handle d" "pt_bytes (f d) = pt_bytes d" "d = ps_tensors st t"
  shows "same_desc st (upd_tensor t f st)"
  using assms by (simp add: same_desc_def upd_tensor_def)

lemma same_desc_tensors: "ps_tensors st' = ps_tensors s \<Longrightarrow> same_desc st s \<Longrightarrow> same_desc st st'"
  by (simp add: same_desc_def)

lemma same_desc_reset: "same_desc st (reset_mem t st)"
proof (cases "pt_mem (ps_tensors st t)")
  case (Some m)
  have "ps_tensors (reset_mem t st) = ps_tensors (upd_tensor t (\<lambda>d. d\<lparr>pt_mem := None\<rparr>) st)"
    using Some by (simp add: reset_mem_def memobj_free_def)
  then show ?thesis by (rule same_desc_tensors) (rule same_desc_upd; simp)
qed (simp add: reset_mem_def)

lemma defer_alloc_node: "\<exists>i. fst (defer_alloc n separate al s) = nodeChunk i"
  by (simp add: defer_alloc_def Let_def split: prod.splits option.splits)

lemma onAcquireBuffer_progress:
  assumes "0 < pt_bytes (ps_tensors st t)" "\<And>t. \<not> chunk_invalid (static t)" "storage \<noteq> DYNAMIC_IN_EXECUTION"
  shows "\<exists>st'. onAcquireBuffer static t storage st = (True, st') \<and> same_desc st st'"
proof -
  let ?sz = "pt_bytes (ps_tensors st t)"
  define r where "r = reset_mem t st"
  define q where "q = (case storage of STATIC \<Rightarrow> (static t, r)
      | DYNAMIC \<Rightarrow> (let (c, p) = defer_alloc ?sz False 0 (ps_pool r) in (c, r\<lparr>ps_pool := p\<rparr>))
      | DYNAMIC_SEPERATE \<Rightarrow> (let (c, p) = defer_alloc ?sz True 0 (ps_pool r) in (c, r\<lparr>ps_pool := p\<rparr>))
      | DYNAMIC_IN_EXECUTION \<Rightarrow> (nullChunk, r))"
  have valid: "\<not> chunk_invalid (fst q)"
    using assms(2) [of t] assms(3) defer_alloc_node [of ?sz False 0 "ps_pool r"] defer_alloc_node [of ?sz True 0 "ps_pool r"]
    by (cases storage) (auto simp: q_def chunk_invalid_def nodeChunk_def case_prod_beta)
  have tens: "ps_tensors (snd q) = ps_tensors r" by (cases storage) (simp_all add: q_def case_prod_beta)
  obtain c s1 where cs: "q = (c, s1)" by fastforce
  have "\<exists>m st1. allocBuffer static ?sz t storage st = (AcquireNew m, st1) \<and> ps_tensors st1 = ps_tensors r \<or>
      allocBuffer static ?sz t storage st = (AcquireKept, st)"
    using assms(1) valid tens cs
    unfolding allocBuffer_def r_def [symmetric] Let_def [of r] q_def [symmetric] Let_def [of q] by (auto simp: Let_def)
  then show ?thesis
  proof (elim exE disjE conjE)
    fix m st1 assume a: "allocBuffer static ?sz t storage st = (AcquireNew m, st1)" "ps_tensors st1 = ps_tensors r"
    have "same_desc st st1" using a(2) same_desc_reset [of st t] by (intro same_desc_tensors [of st1 r]) (simp_all add: r_def)
    then have "same_desc st (upd_tensor t (\<lambda>d. d\<lparr>pt_mem := Some m, pt_backend := True\<rparr>) st1)"
      by (rule same_desc_trans) (rule same_desc_upd; simp)
    then show ?thesis using a(1) by (simp add: onAcquireBuffer_def)
  qed (simp add: onAcquireBuffer_def)
qed

lemma step_progress:
  assumes "\<And>t. t \<in> acquires [e] \<Longrightarrow> 0 < pt_bytes (ps_tensors st t)" "\<And>t. \<not> chunk_invalid (pc_static cfg t)"
  shows "\<exists>st'. ev_step cfg e st = Some st' \<and> same_desc st st'"
proof (cases e)
  case (EvAcq t)
  then show ?thesis
    using onAcquireBuffer_progress [of st t "pc_static cfg" "getTensorStorageType (ps_tensors st t) (pc_outputStatic cfg)"] assms
    by (auto simp: allocTensor_def getTensorStorageType_def Let_def)
next
  case (EvTake t)
  then show ?thesis using onAcquireBuffer_progress [of st t "pc_static cfg" DYNAMIC] assms by auto
next
  case (EvGive t)
  then show ?thesis using same_desc_reset by simp
next
  case (EvUse t)
  define st1 where "st1 = (if pt_usage (ps_tensors st t) \<noteq> CONSTANT
                 then upd_tensor t (\<lambda>d. d\<lparr>pt_useCount := pt_useCount d - 1\<rparr>) st else st)"
  have "same_desc st st1" unfolding st1_def by (simp add: same_desc_upd)
  moreover have "releaseTensor a g t st \<in> {st1, reset_mem t st1}" for a g
    by (simp add: releaseTensor_def Let_def st1_def)
  ultimately have "same_desc st (releaseTensor a g t st)" for a g
    using same_desc_trans [OF _ same_desc_reset] by fastforce
  then show ?thesis using EvUse by simp
qed

lemma run_progress:
  assumes "\<And>t. t \<in> acquires es \<Longrightarrow> 0 < pt_bytes (ps_tensors st t)" "\<And>t. \<not> chunk_invalid (pc_static cfg t)"
  shows "\<exists>st'. ev_run cfg es st = Some st' \<and> same_desc st st'"
  using assms(1)
proof (induction es arbitrary: st)
  case (Cons e es)
  obtain st1 where st1: "ev_step cfg e st = Some st1" "same_desc st st1"
    using step_progress [of e st, OF _ assms(2)] Cons.prems by (force simp: acquires_def)
  have "0 < pt_bytes (ps_tensors st1 t)" if "t \<in> acquires es" for t
    using Cons.prems [of t] that desc_cong(6) [OF st1(2)] by (auto simp: acquires_def)
  from Cons.IH [OF this] show ?case using st1 same_desc_trans [OF st1(2)] by auto
qed simp

section \<open>From events back to commands\<close>

lemma run_allocTensors: "ev_run cfg (map EvAcq ts) st = Some st' \<Longrightarrow> allocTensors cfg ts st = (True, st')"
  by (induction ts arbitrary: st) (auto split: prod.splits bool.splits option.splits)

lemma run_onResize: "ev_run cfg (map ev_of rs) st = Some st' \<Longrightarrow> onResize cfg rs NO_ERROR st = (NO_ERROR, st')"
proof (induction cfg rs NO_ERROR st rule: onResize.induct)
  case (2 cfg t rs st)
  then show ?case by (auto split: prod.splits bool.splits option.splits)
qed auto

lemma run_allocCommand:
  assumes "ev_run cfg (events_of cfg c) st = Some st'" "cm_code c = NO_ERROR" "cm_group c = pc_index cfg"
  shows "allocCommand cfg c st = (NO_ERROR, st')"
proof -
  let ?ins = "if pc_allocInput cfg then cm_workInputs c else []"
  obtain s1 where s1: "ev_run cfg (map EvAcq ?ins) st = Some s1"
      "ev_run cfg (map EvAcq (cm_workOutputs c) @ map ev_of (cm_requests c) @ map EvUse (cm_workInputs c)) s1 = Some st'"
    using assms(1) by (auto simp: events_of_def ev_run_append split: option.splits)
  obtain s2 where s2: "ev_run cfg (map EvAcq (cm_workOutputs c)) s1 = Some s2"
      "ev_run cfg (map ev_of (cm_requests c) @ map EvUse (cm_workInputs c)) s2 = Some st'"
    using s1(2) by (auto simp: ev_run_append [of _ _ "_ @ _"] split: option.splits)
  obtain s3 where s3: "ev_run cfg (map ev_of (cm_requests c)) s2 = Some s3"
      "ev_run cfg (map EvUse (cm_workInputs c)) s3 = Some st'"
    using s2(2) by (auto simp: ev_run_append split: option.splits)
  have "(if pc_allocInput cfg then allocTensors cfg (cm_workInputs c) st else (True, st)) = (True, s1)"
    using run_allocTensors [OF s1(1)] by (auto split: if_splits)
  then show ?thesis
    using run_allocTensors [OF s2(1)] run_onResize [OF s3(1)] s3(2) assms(2,3)
    by (simp add: allocCommand_def releases_run)
qed

lemma run_allocCommands:
  "ev_run cfg (events cfg cs) st = Some st' \<Longrightarrow> \<forall>c \<in> set cs. cm_code c = NO_ERROR \<and> cm_group c = pc_index cfg \<Longrightarrow>
     allocCommands cfg cs st = (NO_ERROR, st')"
proof (induction cs arbitrary: st)
  case (Cons c cs)
  obtain s1 where "ev_run cfg (events_of cfg c) st = Some s1" "ev_run cfg (events cfg cs) s1 = Some st'"
    using Cons.prems(1) by (auto simp: ev_run_append split: option.splits)
  then show ?case using run_allocCommand Cons.IH Cons.prems(2) by simp
qed simp

section \<open>The result of planning\<close>

lemma resize_end:
  assumes ok: "pool_ok (ps_pool s) Map.empty bl" and some: "inside bl i n" "0 < n"
  shows "\<exists>code st. onResizeEnds onAlloc s = Some (code, st) \<and> (code = NO_ERROR \<or> code = OUT_OF_MEMORY) \<and>
    ((\<forall>n a. fst (onAlloc n a) \<noteq> 0) \<longrightarrow> code = NO_ERROR)"
proof -
  have inv: "run_inv (ps_pool s, []) bl" and none: "live (ps_pool s, []) = {}"
    using ok pool_okD(4) [OF ok] by (auto simp: pool_ok_def live_def)
  have "bl \<noteq> []" using some(1) by (auto simp: inside_def)
  then obtain b ns where b: "bl = [b]"
      "defer_compute onAlloc (ps_pool s) = Some (defer_apply onAlloc ((ps_pool s)\<lparr>mTotalSize := bsize b, mChunks := ns\<rparr>))"
    using compute_result [OF inv none, of onAlloc] by blast
  obtain code p where p: "defer_apply onAlloc ((ps_pool s)\<lparr>mTotalSize := bsize b, mChunks := ns\<rparr>) = (code, p)" by fastforce
  have code: "code = NO_ERROR \<or> code = OUT_OF_MEMORY \<and> fst (onAlloc (bsize b) (mAlign (ps_pool s))) = 0"
    using p by (auto simp: defer_apply_def sb_realloc_def rawChunk_def Let_def split: if_splits prod.splits)
  show ?thesis
  proof (cases "code = NO_ERROR")
    case True
    have "defer_compute onAlloc (ps_pool s) = Some (NO_ERROR, p)" using b(2) p True by simp
    from compute_total_size [OF inv none this] have "mTotalSize p = extent bl" .
    moreover have "n \<le> extent bl" using some(1) by (auto simp: inside_def)
    ultimately have "0 < mTotalSize p" using some(2) by simp
    then have "onResizeEnds onAlloc s = Some (NO_ERROR, s\<lparr>ps_pool := p\<rparr>)"
      using b(2) p True by (simp add: onResizeEnds_def onResizeEnd_def defer_compute_def)
    then show ?thesis by simp
  next
    case False
    then have "onResizeEnds onAlloc s = Some (code, s\<lparr>ps_pool := p\<rparr>)"
      using b(2) p by (simp add: onResizeEnds_def onResizeEnd_def)
    then show ?thesis using False code by auto
  qed
qed

lemma plan_found:
  assumes ok: "commands_ok cfg (ps_tensors st0) (executed infos)" and start: "start_ok cfg st0 (executed infos)"
    and pos: "\<And>c t. c \<in> set (executed infos) \<Longrightarrow> t \<in> set (cm_workInputs c @ cm_workOutputs c @ own_tensors c) \<Longrightarrow> 0 < pt_bytes (ps_tensors st0 t)"
    and code: "\<And>c. c \<in> set (executed infos) \<Longrightarrow> cm_code c = NO_ERROR"
    and static: "\<And>t. \<not> chunk_invalid (pc_static cfg t)"
    and some: "c0 \<in> set (executed infos)" "t0 \<in> set (cm_workOutputs c0)" "pooled cfg (ps_tensors st0 t0)"
  shows "\<exists>code st. allocForTensor onAlloc cfg infos st0 = Some (code, st) \<and> (code = NO_ERROR \<or> code = OUT_OF_MEMORY) \<and>
    ((\<forall>n a. fst (onAlloc n a) \<noteq> 0) \<longrightarrow> code = NO_ERROR)"
proof -
  define st1 where "st1 = onResizeBegin (onResizeBegin (countUses (executed infos) st0))"
  note s = plan_start [OF ok start st1_def]
  let ?es = "events cfg (executed infos)"
  have "0 < pt_bytes (ps_tensors st1 t)" if t: "t \<in> acquires ?es" for t
  proof -
    obtain c where "c \<in> set (executed infos)" "t \<in> set (cm_workInputs c @ cm_workOutputs c @ own_tensors c)"
      using t unfolding acquires_events by auto
    then show ?thesis using pos desc_cong(6) [OF s(2), of t] by simp
  qed
  then obtain st2 where st2: "ev_run cfg ?es st1 = Some st2" "same_desc st1 st2" using run_progress static by blast
  have cmds: "allocCommands cfg (executed infos) st1 = (NO_ERROR, st2)"
    by (rule run_allocCommands [OF st2(1)]) (use code commands_ok_all [OF ok] in blast)
  have "pt_usage (ps_tensors st2 t) = pt_usage (ps_tensors st0 t)" for t
    using desc_cong(4) [OF same_desc_trans [OF s(2) st2(2)]] by blast
  from recycleAll_run [of st2, OF this] have run: "ev_run cfg (plan_events cfg st0 infos) st1 = Some (recycleAll cfg infos st2)"
    using st2(1) by (simp add: plan_events_def ev_run_append)
  have tok: "tensor_ok cfg (ps_tensors st0 t0)" using commands_ok_all [OF ok some(1)] some(2) by blast
  have acq: "acquiring cfg (ps_tensors st1) (EvAcq t0) t0"
    using some(3) tok desc_cong(1) [OF s(2), of cfg t0] desc_cong(5) [OF s(2), of t0] by (simp add: acquiring_def tensor_ok_def)
  have "EvAcq t0 \<in> set (plan_events cfg st0 infos)" using some(1,2) by (auto simp: plan_events_def events_of_parts acqs_def)
  then obtain A C where AC: "plan_events cfg st0 infos = A @ EvAcq t0 # C" by (meson split_list)
  obtain bl i where bl: "ev_inv cfg [] (recycleAll cfg infos st2) bl" "inside bl i (pt_bytes (ps_tensors st1 t0))" "0 < pt_bytes (ps_tensors st1 t0)"
    using acquired_placed [OF s(1) [unfolded AC] run [unfolded AC] acq] by blast
  have "allocForTensor onAlloc cfg infos st0 = onResizeEnds onAlloc (recycleAll cfg infos st2)"
    using cmds by (simp add: allocForTensor_def Let_def st1_def [symmetric] onResizeEnds_def)
  then show ?thesis using resize_end [OF plan_pool [OF bl(1)] bl(2,3)] by simp
qed

end
