(* ===== verification/PipelineSuite.thy ===== *)
theory PipelineSuite
  imports PipelineProgress
begin

text \<open>
  The properties of the memory plan of a pipeline, with a pipeline of three commands as their witness.
\<close>

section \<open>The pipeline of the witnesses\<close>

text \<open>Tensor 0 is the input, 3 the result, 5 a constant in static memory; the second command takes
  tensor 4 for itself.\<close>

definition pdemo_tensor :: "nat \<Rightarrow> PTensor" where
  "pdemo_tensor t =
     \<lparr>pt_usage = (if t = 0 then INPUT else if t = 3 then OUTPUT else if t = 5 then CONSTANT else NORMAL),
      pt_memoryType = MEMORY_BACKEND, pt_useCount = 0, pt_group = 0, pt_backend = (t = 5), pt_handle = False,
      pt_bytes = (if t = 4 then 24 else 16),
      pt_mem = (if t = 5 then Some \<lparr>mo_static = True, mo_chunk = rawChunk 64 0, mo_size = 16\<rparr> else None)\<rparr>"

definition pdemo_command :: "nat list \<Rightarrow> nat list \<Rightarrow> Request list \<Rightarrow> Command" where
  "pdemo_command ins outs rs = \<lparr>cm_workInputs = ins, cm_workOutputs = outs, cm_group = 0, cm_requests = rs, cm_code = NO_ERROR\<rparr>"

definition pdemo_before :: "Command list" where "pdemo_before = [pdemo_command [0, 5] [1] []]"
definition pdemo_at :: Command where "pdemo_at = pdemo_command [1] [2] [Acquire 4, Release 4]"
definition pdemo_after :: "Command list" where "pdemo_after = [pdemo_command [2] [3] []]"

definition pdemo_infos :: "OpCacheInfo list" where
  "pdemo_infos = [\<lparr>oc_constant = False, oc_command = pdemo_before @ [pdemo_at]\<rparr>, \<lparr>oc_constant = False, oc_command = pdemo_after\<rparr>]"

definition pdemo_cfg :: PipeConfig where
  "pdemo_cfg = \<lparr>pc_index = 0, pc_allocInput = True, pc_outputStatic = False, pc_static = (\<lambda>t. rawChunk 64 0)\<rparr>"

definition pdemo_start :: PipeState where
  "pdemo_start = \<lparr>ps_tensors = pdemo_tensor, ps_pool = (newDefer freshBuffer 8)\<lparr>mHost := [(5, 64)]\<rparr>\<rparr>"

definition pdemo_memory :: "nat \<Rightarrow> nat \<Rightarrow> nat \<times> nat" where
  "pdemo_memory n align = (1024, 0)"

text \<open>The states after the commands, after recycling and after the layout.\<close>

definition pdemo_run :: "ErrorCode \<times> PipeState" where
  "pdemo_run = allocCommands pdemo_cfg (executed pdemo_infos) (onResizeBegin (onResizeBegin (countUses (executed pdemo_infos) pdemo_start)))"

definition pdemo_recycled :: PipeState where
  "pdemo_recycled = recycleAll pdemo_cfg pdemo_infos (snd pdemo_run)"

definition pdemo_planned :: PipeState where
  "pdemo_planned = snd (the (onResizeEnd pdemo_memory pdemo_recycled))"

lemma pdemo_ok: "commands_ok pdemo_cfg (ps_tensors pdemo_start) (executed pdemo_infos)"
  by code_simp

lemma pdemo_executed: "executed pdemo_infos = pdemo_before @ pdemo_at # pdemo_after"
  by code_simp

lemma pdemo_start_ok: "start_ok pdemo_cfg pdemo_start (executed pdemo_infos)"
proof -
  have "\<forall>c \<in> set (executed pdemo_infos). (\<forall>t \<in> set (own_tensors c). pt_mem (ps_tensors pdemo_start t) = None) \<and>
        (\<forall>t \<in> set (cm_workInputs c). unreleased (ps_tensors pdemo_start t) \<longrightarrow> pt_mem (ps_tensors pdemo_start t) \<noteq> None)" by code_simp
  moreover have "0 < mAlign (ps_pool pdemo_start) \<and> buffer_ok (mParent (ps_pool pdemo_start))" by code_simp
  ultimately show ?thesis by (auto simp: start_ok_def pdemo_start_def pdemo_tensor_def unreleased_def split: if_splits)
qed

lemma pdemo_hosts: "map (host_of pdemo_planned) [0, 1, 2, 3, 4, 5] = [1024, 1040, 1024, 1040, 1056, 64]"
  by code_simp

lemma pdemo_result: "allocForTensor pdemo_memory pdemo_cfg pdemo_infos pdemo_start = Some (NO_ERROR, pdemo_planned)"
proof -
  have "fst pdemo_run = NO_ERROR" by code_simp
  then obtain s where run: "pdemo_run = (NO_ERROR, s)" by (metis prod.collapse)
  then have cmds: "allocCommands pdemo_cfg (executed pdemo_infos) (onResizeBegin (onResizeBegin (countUses (executed pdemo_infos) pdemo_start))) =
    (NO_ERROR, s)" by (simp add: pdemo_run_def)
  have "map_option (\<lambda>r. (fst r, 0 < mTotalSize (ps_pool (snd r)))) (onResizeEnd pdemo_memory pdemo_recycled) = Some (NO_ERROR, True)"
    by code_simp
  then have fin: "onResizeEnd pdemo_memory pdemo_recycled = Some (NO_ERROR, pdemo_planned)" "0 < mTotalSize (ps_pool pdemo_planned)"
    by (auto simp: pdemo_planned_def)
  have "onResizeEnd pdemo_memory pdemo_planned = Some (NO_ERROR, pdemo_planned)"
    using fin(2) by (simp add: onResizeEnd_def defer_compute_def)
  moreover have "pdemo_recycled = recycleAll pdemo_cfg pdemo_infos s" unfolding pdemo_recycled_def run by simp
  ultimately show ?thesis
    unfolding allocForTensor_def Let_def cmds using fin(1) by simp
qed

section \<open>The properties\<close>

text \<open>C1: The memory plan never puts what a command writes onto memory that is still needed. Let the
  plan of a well-formed pipeline succeed, and let \<open>c\<close> be one of its commands. A tensor \<open>t'\<close> that
  \<open>c\<close> writes or takes for itself and another tensor \<open>t\<close> that was written before \<open>c\<close> (or by it, or is an input)
  and is read by \<open>c\<close> or later (or is a result) have disjoint ranges.\<close>

theorem plan_keeps_needed_memory:
  assumes "commands_ok cfg (ps_tensors st0) (executed infos)" and "start_ok cfg st0 (executed infos)"
    and "allocForTensor onAlloc cfg infos st0 = Some (NO_ERROR, st)"
    and "executed infos = P @ c # S"
    and "t' \<in> set (cm_workOutputs c) \<and> pooled cfg (ps_tensors st0 t') \<or> t' \<in> set (own_tensors c)" and "t \<noteq> t'"
    and "(\<exists>p \<in> set (P @ [c]). t \<in> set (cm_workOutputs p)) \<or> pt_usage (ps_tensors st0 t) = INPUT \<and> pc_allocInput cfg"
    and "wanted (ps_tensors st0) (c # S) t" and "pooled cfg (ps_tensors st0 t)"
  shows "host_of st t + pt_bytes (ps_tensors st t) \<le> host_of st t' \<or> host_of st t' + pt_bytes (ps_tensors st t') \<le> host_of st t"
  using command_disjoint [OF assms] by (simp add: disjoint_ranges_def)

theorem plan_keeps_needed_memory_witness:
  "host_of pdemo_planned 1 + 16 \<le> host_of pdemo_planned 4 \<or> host_of pdemo_planned 4 + 24 \<le> host_of pdemo_planned 1"
proof -
  have "4 \<in> set (cm_workOutputs pdemo_at) \<and> pooled pdemo_cfg (ps_tensors pdemo_start 4) \<or> 4 \<in> set (own_tensors pdemo_at)"
    "(\<exists>p \<in> set (pdemo_before @ [pdemo_at]). 1 \<in> set (cm_workOutputs p)) \<or>
       pt_usage (ps_tensors pdemo_start 1) = INPUT \<and> pc_allocInput pdemo_cfg"
    "wanted (ps_tensors pdemo_start) (pdemo_at # pdemo_after) 1" "pooled pdemo_cfg (ps_tensors pdemo_start 1)"
    by code_simp+
  then have "host_of pdemo_planned 1 + pt_bytes (ps_tensors pdemo_planned 1) \<le> host_of pdemo_planned 4 \<or>
      host_of pdemo_planned 4 + pt_bytes (ps_tensors pdemo_planned 4) \<le> host_of pdemo_planned 1"
    by (intro plan_keeps_needed_memory [OF pdemo_ok pdemo_start_ok pdemo_result pdemo_executed]) simp_all
  moreover have "pt_bytes (ps_tensors pdemo_planned 1) = 16 \<and> pt_bytes (ps_tensors pdemo_planned 4) = 24" by code_simp
  ultimately show ?thesis by simp
qed

text \<open>C2: Executing on the planned memory refines executing with a store of its own for every tensor:
  if every tensor read is loaded before or written by a command, and the memory outside of the pool
  is apart from what is written, both executions give the same code and, when it is
  \<open>NO_ERROR\<close>, the same contents of every result.\<close>

theorem plan_execution_refines:
  assumes "commands_ok cfg (ps_tensors st0) (executed infos)" and "start_ok cfg st0 (executed infos)"
    and "allocForTensor onAlloc cfg infos st0 = Some (NO_ERROR, st)"
    and "fed (ps_tensors st0) (executed infos)" and "outside_apart cfg st (executed infos)"
    and "\<And>t. loaded (ps_tensors st t) \<Longrightarrow> read_tensor st mem t = store t"
    and "pipe_execute NO_ERROR run junk status st infos mem = (code, mem')"
    and "separate_execute run status (ps_tensors st) (executed infos) store = (code', store')"
  shows "code = code' \<and> (code = NO_ERROR \<longrightarrow>
    (\<forall>c \<in> set (executed infos). \<forall>t \<in> set (cm_workOutputs c). pt_usage (ps_tensors st t) = OUTPUT \<longrightarrow>
       read_tensor st mem' t = store' t))"
proof -
  have "agree st mem store [] (executed infos)" using assms(6) by (simp add: agree_def)
  from agree_execute [OF assms(1-5) _ this, of run junk status] assms(7,8)
  show ?thesis by (auto simp: pipe_execute_def agree_def wanted_def)
qed

definition pdemo_kernel :: "Command \<Rightarrow> nat list list \<Rightarrow> nat \<Rightarrow> nat \<Rightarrow> nat" where
  "pdemo_kernel c args t k = t + sum_list (map (\<lambda>a. a ! k) args)"

theorem plan_execution_refines_witness:
  "read_tensor pdemo_planned (snd (pipe_execute NO_ERROR pdemo_kernel (\<lambda>c mem t k. 7) (\<lambda>c. NO_ERROR) pdemo_planned pdemo_infos (\<lambda>a. a))) 3 =
   snd (separate_execute pdemo_kernel (\<lambda>c. NO_ERROR) (ps_tensors pdemo_planned) (executed pdemo_infos) (read_tensor pdemo_planned (\<lambda>a. a))) 3"
proof -
  let ?pipe = "pipe_execute NO_ERROR pdemo_kernel (\<lambda>c mem t k. 7) (\<lambda>c. NO_ERROR) pdemo_planned pdemo_infos (\<lambda>a. a)"
  let ?sep = "separate_execute pdemo_kernel (\<lambda>c. NO_ERROR) (ps_tensors pdemo_planned) (executed pdemo_infos) (read_tensor pdemo_planned (\<lambda>a. a))"
  have "fed (ps_tensors pdemo_start) (executed pdemo_infos)" "outside_apart pdemo_cfg pdemo_planned (executed pdemo_infos)" by code_simp+
  from plan_execution_refines [OF pdemo_ok pdemo_start_ok pdemo_result this refl, of pdemo_kernel "\<lambda>c mem t k. 7" "\<lambda>c. NO_ERROR" "\<lambda>a. a"
      "fst ?pipe" "snd ?pipe" "fst ?sep" "snd ?sep"]
  have "fst ?pipe = NO_ERROR \<longrightarrow> (\<forall>c \<in> set (executed pdemo_infos). \<forall>t \<in> set (cm_workOutputs c).
       pt_usage (ps_tensors pdemo_planned t) = OUTPUT \<longrightarrow> read_tensor pdemo_planned (snd ?pipe) t = snd ?sep t)" by simp
  moreover have "fst ?pipe = NO_ERROR" by (simp add: pipe_execute_def pdemo_executed pdemo_before_def pdemo_after_def)
  moreover have "\<exists>c \<in> set (executed pdemo_infos). 3 \<in> set (cm_workOutputs c)" "pt_usage (ps_tensors pdemo_planned 3) = OUTPUT" by code_simp+
  ultimately show ?thesis by blast
qed



text \<open>C5: Planning ends and succeeds: when every tensor of a well-formed pipeline has a size above 0, the
  executions accept their tensors and some result lives in the pool, \<open>_allocForTensor\<close>
  returns \<open>NO_ERROR\<close>, or \<open>OUT_OF_MEMORY\<close> if the allocator behind the pool gave no memory; never
  \<open>INVALID_VALUE\<close>, because every chunk was given back.\<close>

theorem plan_succeeds:
  assumes "commands_ok cfg (ps_tensors st0) (executed infos)" and "start_ok cfg st0 (executed infos)"
    and "\<And>c t. c \<in> set (executed infos) \<Longrightarrow> t \<in> set (cm_workInputs c @ cm_workOutputs c @ own_tensors c) \<Longrightarrow> 0 < pt_bytes (ps_tensors st0 t)"
    and "\<And>c. c \<in> set (executed infos) \<Longrightarrow> cm_code c = NO_ERROR" and "\<And>t. \<not> chunk_invalid (pc_static cfg t)"
    and "c0 \<in> set (executed infos)" "t0 \<in> set (cm_workOutputs c0)" "pooled cfg (ps_tensors st0 t0)"
  shows "\<exists>code st. allocForTensor onAlloc cfg infos st0 = Some (code, st) \<and> (code = NO_ERROR \<or> code = OUT_OF_MEMORY) \<and>
    ((\<forall>n a. fst (onAlloc n a) \<noteq> 0) \<longrightarrow> code = NO_ERROR)"
  using plan_found [OF assms] .

theorem plan_succeeds_witness:
  "\<exists>st. allocForTensor pdemo_memory pdemo_cfg pdemo_infos pdemo_start = Some (NO_ERROR, st)"
proof -
  have "\<forall>c \<in> set (executed pdemo_infos). cm_code c = NO_ERROR \<and>
      (\<forall>t \<in> set (cm_workInputs c @ cm_workOutputs c @ own_tensors c). 0 < pt_bytes (ps_tensors pdemo_start t))" by code_simp
  moreover have "\<not> chunk_invalid (pc_static pdemo_cfg t)" for t by (simp add: pdemo_cfg_def chunk_invalid_def rawChunk_def)
  moreover have some: "pdemo_at \<in> set (executed pdemo_infos)" "2 \<in> set (cm_workOutputs pdemo_at)" "pooled pdemo_cfg (ps_tensors pdemo_start 2)"
    by (simp add: pdemo_executed) code_simp+
  ultimately have "\<exists>code st. allocForTensor pdemo_memory pdemo_cfg pdemo_infos pdemo_start = Some (code, st) \<and>
      (code = NO_ERROR \<or> code = OUT_OF_MEMORY) \<and> ((\<forall>n a. fst (pdemo_memory n a) \<noteq> 0) \<longrightarrow> code = NO_ERROR)"
    by (intro plan_succeeds [OF pdemo_ok pdemo_start_ok _ _ _ some]) blast+
  then show ?thesis by (auto simp: pdemo_memory_def)
qed

end
