(* ===== verification/TokenBase.thy ===== *)
theory TokenBase
  imports "HOL-Library.Word" "HOL-Library.Monad_Syntax"
begin

unbundle bit_operations_syntax

text \<open>
  The base class \<open>Tokenizer\<close> of the language model runtime and the helpers of
  \<open>transformers/llm/engine/src/tokenizer.cpp\<close>. A \<open>std::string\<close> is the list of its bytes; a token id is an \<open>int\<close>. The
  virtual functions a class of tokenizer overrides are arguments. \<open>None\<close> stands for undefined behaviour or an exception.
  What the file of a tokenizer holds is given line by line, numbers as numbers. Characters are classified as in the
  locale \<open>C\<close>.
\<close>

type_synonym std_string = "8 word list"

definition ascii :: "string \<Rightarrow> std_string" where
  "ascii s = map of_char s"

section \<open>Characters\<close>

definition in_chars :: "nat \<Rightarrow> nat \<Rightarrow> 8 word \<Rightarrow> bool" where
  "in_chars lo hi c \<longleftrightarrow> lo \<le> unat c \<and> unat c \<le> hi"

definition is_digit :: "8 word \<Rightarrow> bool" where
  "is_digit c \<longleftrightarrow> in_chars 48 57 c"

definition is_alpha :: "8 word \<Rightarrow> bool" where
  "is_alpha c \<longleftrightarrow> in_chars 65 90 c \<or> in_chars 97 122 c"

definition is_space :: "8 word \<Rightarrow> bool" where
  "is_space c \<longleftrightarrow> in_chars 9 13 c \<or> unat c = 32"

definition is_alnum :: "8 word \<Rightarrow> bool" where
  "is_alnum c \<longleftrightarrow> is_alpha c \<or> is_digit c"

definition to_lower :: "8 word \<Rightarrow> 8 word" where
  "to_lower c = (if in_chars 65 90 c then c + 32 else c)"

definition one_char_len :: "8 word \<Rightarrow> nat" where
  "one_char_len c = [1, 1, 1, 1, 1, 1, 1, 1, 1, 1, 1, 1, 2, 2, 3, 4] ! unat (drop_bit 4 c)"

section \<open>Base64\<close>

definition base64_chars :: std_string where
  "base64_chars = ascii ''ABCDEFGHIJKLMNOPQRSTUVWXYZabcdefghijklmnopqrstuvwxyz0123456789+/''"

definition is_base64 :: "8 word \<Rightarrow> bool" where
  "is_base64 c \<longleftrightarrow> is_alnum c \<or> unat c = 43 \<or> unat c = 47"

definition base64_find :: "8 word \<Rightarrow> 8 word" where
  \<comment> \<open>\<open>base64_chars.find\<close>, cut to a byte; 255 is what is left of \<open>npos\<close>\<close>
  "base64_find c = (case List.find (\<lambda>i. base64_chars ! i = c) [0..<length base64_chars] of Some i \<Rightarrow> word_of_nat i | None \<Rightarrow> 255)"

definition base64_triple :: "8 word list \<Rightarrow> 8 word list" where
  \<comment> \<open>\<open>char_array_3\<close> from \<open>char_array_4\<close>\<close>
  "base64_triple a = [push_bit 2 (a ! 0) + drop_bit 4 (a ! 1 AND 0x30),
     push_bit 4 (a ! 1 AND 0xF) + drop_bit 2 (a ! 2 AND 0x3C),
     push_bit 6 (a ! 2 AND 0x3) + a ! 3]"

definition base64_step :: "8 word \<Rightarrow> 8 word list \<times> std_string \<Rightarrow> 8 word list \<times> std_string" where
  \<comment> \<open>the first \<open>i\<close> of \<open>char_array_4\<close>, and \<open>ret\<close>\<close>
  "base64_step c s = (case s of (arr, r) \<Rightarrow>
     if length arr = 3 then ([], r @ base64_triple (map base64_find (arr @ [c]))) else (arr @ [c], r))"

definition base64_decode :: "std_string \<Rightarrow> std_string" where
  "base64_decode str = (
     let (arr, r) = fold base64_step (takeWhile (\<lambda>c. unat c \<noteq> 61 \<and> is_base64 c) str) ([], [])
     in if arr = [] then r
        else r @ take (length arr - 1) (base64_triple (map base64_find (arr @ replicate (4 - length arr) 0))))"

subsection \<open>The encoding it is meant to take back\<close>

fun base64_encode :: "std_string \<Rightarrow> std_string" where
  "base64_encode [] = []"
| "base64_encode [x] = map (\<lambda>k. base64_chars ! unat k) [drop_bit 2 x, push_bit 4 (x AND 3)] @ ascii ''==''"
| "base64_encode [x, y] = map (\<lambda>k. base64_chars ! unat k)
     [drop_bit 2 x, push_bit 4 (x AND 3) OR drop_bit 4 y, push_bit 2 (y AND 15)] @ ascii ''=''"
| "base64_encode (x # y # z # s) = map (\<lambda>k. base64_chars ! unat k)
     [drop_bit 2 x, push_bit 4 (x AND 3) OR drop_bit 4 y, push_bit 2 (y AND 15) OR drop_bit 6 z, z AND 63] @ base64_encode s"

abbreviation base64_codes :: "nat list" where
  "base64_codes \<equiv> [65..<91] @ [97..<123] @ [48..<58] @ [43, 47]"

lemma base64_chars_upt: "base64_chars = map word_of_nat base64_codes"
proof -
  have "map of_char ''ABCDEFGHIJKLMNOPQRSTUVWXYZabcdefghijklmnopqrstuvwxyz0123456789+/'' = base64_codes" by code_simp
  then have "map word_of_nat base64_codes =
      map word_of_nat (map of_char ''ABCDEFGHIJKLMNOPQRSTUVWXYZabcdefghijklmnopqrstuvwxyz0123456789+/'')"
    by (rule arg_cong [OF sym])
  then show ?thesis unfolding base64_chars_def ascii_def by (simp add: comp_def of_nat_of_char del: map_append)
qed

lemma base64_distinct: "distinct base64_chars"
proof -
  have inj: "inj_on (word_of_nat :: nat \<Rightarrow> 8 word) {..<256}"
    by (rule inj_on_inverseI [of _ unat]) (simp add: unsigned_of_nat take_bit_nat_eq_self)
  have "set base64_codes \<subseteq> {..<256}" by auto
  from inj_on_subset [OF inj this] have "inj_on (word_of_nat :: nat \<Rightarrow> 8 word) (set base64_codes)" .
  moreover have "distinct base64_codes" by auto
  ultimately show ?thesis unfolding base64_chars_upt distinct_map by blast
qed

lemma base64_table:
  assumes "unat k < 64"
  shows "base64_find (base64_chars ! unat k) = k" "is_base64 (base64_chars ! unat k)" "unat (base64_chars ! unat k) \<noteq> 61"
proof -
  have len: "length base64_chars = 64" by (simp add: base64_chars_upt)
  have "List.find (\<lambda>i. base64_chars ! i = base64_chars ! unat k) [0..<64] = Some (unat k)"
    using base64_distinct assms len by (auto simp: find_Some_iff nth_eq_iff_index_eq intro!: exI [of _ "unat k"])
  then show "base64_find (base64_chars ! unat k) = k" by (simp add: base64_find_def len)
  have "\<forall>c \<in> set base64_chars. is_base64 c \<and> unat c \<noteq> 61"
    unfolding base64_chars_upt by (auto simp: is_base64_def is_alnum_def is_alpha_def is_digit_def in_chars_def unsigned_of_nat take_bit_nat_eq_self)
  then show "is_base64 (base64_chars ! unat k)" "unat (base64_chars ! unat k) \<noteq> 61" using assms len by simp_all
qed

lemma byte_bits: "(\<And>n. n < 8 \<Longrightarrow> bit (v :: 8 word) n = bit w n) \<Longrightarrow> v = w"
  by (rule bit_word_eqI) simp

lemma back_shift: "Suc (Suc (n - 2)) = (if 2 \<le> n then n else 2)" "4 + (n - 4) = (if 4 \<le> n then n else 4)" "6 + (n - 6) = (if 6 \<le> n then n else (6 :: nat))" for n :: nat
  by auto

lemma mask_as_take:
  fixes v :: "8 word"
  shows "v AND 3 = take_bit 2 v" "v AND 15 = take_bit 4 v" "v AND 63 = take_bit 6 v"
    "v AND 0x30 = push_bit 4 (take_bit 2 (drop_bit 4 v))" "v AND 0x3C = push_bit 2 (take_bit 4 (drop_bit 2 v))"
proof -
  show m: "v AND 3 = take_bit 2 v" "v AND 15 = take_bit 4 v" "v AND 63 = take_bit 6 v" by (simp_all add: take_bit_eq_mask mask_eq_exp_minus_1)
  have c: "(0x30 :: 8 word) = push_bit 4 (mask 2)" "(0x3C :: 8 word) = push_bit 2 (mask 4)" by (simp_all add: mask_eq_exp_minus_1)
  show "v AND 0x30 = push_bit 4 (take_bit 2 (drop_bit 4 v))" unfolding c take_bit_eq_mask by (rule byte_bits) (auto simp: bit_simps back_shift)
  show "v AND 0x3C = push_bit 2 (take_bit 4 (drop_bit 2 v))" unfolding c take_bit_eq_mask by (rule byte_bits) (auto simp: bit_simps back_shift)
qed

lemma triple_bits:
  fixes x y z :: "8 word"
  shows "push_bit 2 (drop_bit 2 x) + drop_bit 4 ((push_bit 4 (x AND 3) OR drop_bit 4 y) AND 0x30) = x"
    "push_bit 4 ((push_bit 4 (x AND 3) OR drop_bit 4 y) AND 15) + drop_bit 2 ((push_bit 2 (y AND 15) OR drop_bit 6 z) AND 0x3C) = y"
    "push_bit 6 ((push_bit 2 (y AND 15) OR drop_bit 6 z) AND 3) + (z AND 63) = z"
proof -
  have "push_bit 2 (drop_bit 2 x) + drop_bit 4 (push_bit 4 (take_bit 2 (drop_bit 4 (push_bit 4 (take_bit 2 x) OR drop_bit 4 y)))) = x"
    by (subst disjunctive_add_eq_or; rule byte_bits) (auto simp: bit_simps back_shift)
  moreover have "push_bit 4 (take_bit 4 (push_bit 4 (take_bit 2 x) OR drop_bit 4 y)) +
      drop_bit 2 (push_bit 2 (take_bit 4 (drop_bit 2 (push_bit 2 (take_bit 4 y) OR drop_bit 6 z)))) = y"
    by (subst disjunctive_add_eq_or; rule byte_bits) (auto simp: bit_simps back_shift)
  moreover have "push_bit 6 (take_bit 2 (push_bit 2 (take_bit 4 y) OR drop_bit 6 z)) + take_bit 6 z = z"
    by (subst disjunctive_add_eq_or; rule byte_bits) (auto simp: bit_simps back_shift)
  ultimately show "push_bit 2 (drop_bit 2 x) + drop_bit 4 ((push_bit 4 (x AND 3) OR drop_bit 4 y) AND 0x30) = x"
    "push_bit 4 ((push_bit 4 (x AND 3) OR drop_bit 4 y) AND 15) + drop_bit 2 ((push_bit 2 (y AND 15) OR drop_bit 6 z) AND 0x3C) = y"
    "push_bit 6 ((push_bit 2 (y AND 15) OR drop_bit 6 z) AND 3) + (z AND 63) = z" by (simp_all add: mask_as_take)
qed

lemma six_bits:
  fixes x y z :: "8 word"
  shows "unat (drop_bit 2 x) < 64" "unat (push_bit 4 (x AND 3) OR drop_bit 4 y) < 64" "unat (push_bit 2 (y AND 15) OR drop_bit 6 z) < 64"
    "unat (z AND 63) < 64" "unat (push_bit 4 (x AND 3)) < 64" "unat (push_bit 2 (y AND 15)) < 64"
proof -
  have less: "unat v < 64" if "\<And>n. 6 \<le> n \<Longrightarrow> n < 8 \<Longrightarrow> \<not> bit v n" for v :: "8 word"
  proof -
    have "take_bit 6 v = v" by (rule byte_bits) (auto simp: bit_take_bit_iff, meson that not_less)
    then have "unat v = take_bit 6 (unat v)" by (metis unsigned_take_bit_eq)
    then show ?thesis using take_bit_nat_less_exp [of 6 "unat v"] by simp
  qed
  show "unat (drop_bit 2 x) < 64" "unat (push_bit 4 (x AND 3) OR drop_bit 4 y) < 64" "unat (push_bit 2 (y AND 15) OR drop_bit 6 z) < 64"
    "unat (z AND 63) < 64" "unat (push_bit 4 (x AND 3)) < 64" "unat (push_bit 2 (y AND 15)) < 64"
    unfolding mask_as_take by (rule less; auto simp: bit_simps bit_imp_le_length dest: bit_imp_le_length)+
qed

definition base64_end :: "8 word list \<times> std_string \<Rightarrow> std_string" where
  \<comment> \<open>what is done behind the loop\<close>
  "base64_end s = (case s of (arr, r) \<Rightarrow> if arr = [] then r
     else r @ take (length arr - 1) (base64_triple (map base64_find (arr @ replicate (4 - length arr) 0))))"

abbreviation base64_ok :: "8 word \<Rightarrow> bool" where
  "base64_ok c \<equiv> unat c \<noteq> 61 \<and> is_base64 c"

lemma base64_four:
  assumes "unat a < 64" "unat b < 64" "unat c < 64" "unat d < 64"
  shows "fold base64_step (takeWhile base64_ok (map (\<lambda>k. base64_chars ! unat k) [a, b, c, d] @ t)) ([], r) =
    fold base64_step (takeWhile base64_ok t) ([], r @ base64_triple [a, b, c, d])"
  by (simp add: base64_table assms base64_step_def)

lemma base64_rest:
  assumes "unat a < 64" "unat b < 64" "unat c < 64"
  shows "base64_end (fold base64_step (takeWhile base64_ok (map (\<lambda>k. base64_chars ! unat k) [a, b] @ ascii ''=='')) ([], r)) =
      r @ [push_bit 2 a + drop_bit 4 (b AND 0x30)]"
    "base64_end (fold base64_step (takeWhile base64_ok (map (\<lambda>k. base64_chars ! unat k) [a, b, c] @ ascii ''='')) ([], r)) =
      r @ [push_bit 2 a + drop_bit 4 (b AND 0x30), push_bit 4 (b AND 15) + drop_bit 2 (c AND 0x3C)]"
proof -
  have "\<not> base64_ok (of_char CHR ''='')" by simp
  moreover have "(replicate 2 0 :: 8 word list) = [0, 0]" "(replicate 1 0 :: 8 word list) = [0]" by (simp_all add: numeral_eq_Suc)
  ultimately show "base64_end (fold base64_step (takeWhile base64_ok (map (\<lambda>k. base64_chars ! unat k) [a, b] @ ascii ''=='')) ([], r)) =
      r @ [push_bit 2 a + drop_bit 4 (b AND 0x30)]"
    "base64_end (fold base64_step (takeWhile base64_ok (map (\<lambda>k. base64_chars ! unat k) [a, b, c] @ ascii ''='')) ([], r)) =
      r @ [push_bit 2 a + drop_bit 4 (b AND 0x30), push_bit 4 (b AND 15) + drop_bit 2 (c AND 0x3C)]"
    by (simp_all add: base64_table assms base64_step_def base64_end_def base64_triple_def ascii_def)
qed

lemma base64_steps: "base64_end (fold base64_step (takeWhile base64_ok (base64_encode s)) ([], r)) = r @ s"
proof (induction s arbitrary: r rule: base64_encode.induct)
  case 1
  then show ?case by (simp add: base64_end_def)
next
  case (2 x)
  show ?case unfolding base64_encode.simps base64_rest(1) [OF six_bits(1,5,1)] using triple_bits(1) [of x 0] by simp
next
  case (3 x y)
  show ?case unfolding base64_encode.simps base64_rest(2) [OF six_bits(1,2,6)]
    using triple_bits(1) [of x y] triple_bits(2) [of x y 0] by simp
next
  case (4 x y z s)
  have t: "base64_triple [drop_bit 2 x, push_bit 4 (x AND 3) OR drop_bit 4 y, push_bit 2 (y AND 15) OR drop_bit 6 z, z AND 63] = [x, y, z]"
    using triple_bits(1) [of x y] triple_bits(2) [of x y z] triple_bits(3) [of y z] by (simp add: base64_triple_def)
  show ?case unfolding base64_encode.simps base64_four [OF six_bits(1-4)] t 4 by simp
qed

theorem base64_roundtrip: "base64_decode (base64_encode s) = s"
  using base64_steps [of s "[]"] by (simp add: base64_decode_def base64_end_def)

end
