(* ===== verification/TokenCodec.thy ===== *)
theory TokenCodec
  imports TokenBase
begin

text \<open>
  The class \<open>Tokenizer\<close>: the tokens with a special meaning, and \<open>Tokenizer::encode\<close>, which looks for them in the text
  and leaves the rest to the class that is derived from it. The locale \<open>token_codec\<close> is what such a class promises.
\<close>

section \<open>The class\<close>

record Tokenizer =
  special_tokens :: "int list"
  stop_tokens :: "int list"
  prefix_tokens :: "int list"

definition is_stop :: "Tokenizer \<Rightarrow> int \<Rightarrow> bool" where
  "is_stop t token \<longleftrightarrow> token \<in> set (stop_tokens t)"

definition is_special :: "Tokenizer \<Rightarrow> int \<Rightarrow> bool" where
  "is_special t token \<longleftrightarrow> token \<in> set (special_tokens t)"

definition read_ints :: "int \<Rightarrow> int list \<Rightarrow> int list option" where
  \<comment> \<open>a vector of that size; numbers that are missing in the line stay 0\<close>
  "read_ints n xs = (if n < 0 then None else Some (take (nat n) (xs @ replicate (nat n) 0)))"

definition load_special :: "int \<Rightarrow> int \<Rightarrow> int \<Rightarrow> int list \<Rightarrow> Tokenizer option" where
  "load_special special_num stop_num prefix_num line = do {
     special \<leftarrow> read_ints special_num line;
     let line = drop (nat special_num) line;
     stop \<leftarrow> read_ints stop_num line;
     let line = drop (nat stop_num) line;
     prefix \<leftarrow> read_ints prefix_num line;
     Some \<lparr>special_tokens = special, stop_tokens = stop, prefix_tokens = prefix\<rparr> }"

definition map_insert :: "('k \<Rightarrow> 'v option) \<Rightarrow> 'k \<Rightarrow> 'v \<Rightarrow> ('k \<Rightarrow> 'v option)" where
  \<comment> \<open>\<open>std::unordered_map::insert\<close>\<close>
  "map_insert m k v = (case m k of None \<Rightarrow> m(k \<mapsto> v) | Some _ \<Rightarrow> m)"

section \<open>Special tokens in the text\<close>

fun match_special :: "(int \<Rightarrow> std_string option) \<Rightarrow> std_string \<Rightarrow> nat \<Rightarrow> int list \<Rightarrow> (int \<times> nat) option option" where
  \<comment> \<open>the first special token that stands at position \<open>i\<close>, and its length\<close>
  "match_special decode text i [] = Some None"
| "match_special decode text i (special_id # ids) = do {
     token \<leftarrow> decode special_id;
     if token \<noteq> [] \<and> i + length token \<le> length text \<and> take (length token) (drop i text) = token
     then Some (Some (special_id, length token))
     else match_special decode text i ids }"

lemma match_special_Some:
  assumes "match_special decode text i ids = Some (Some (special_id, n))"
  shows "special_id \<in> set ids" "decode special_id = Some (take n (drop i text))" "0 < n" "i + n \<le> length text"
  using assms by (induction ids) (auto simp: bind_eq_Some_conv split: if_splits)

lemma bind_cong_option [fundef_cong]:
  "x = y \<Longrightarrow> (\<And>a. y = Some a \<Longrightarrow> f a = g a) \<Longrightarrow> Option.bind x f = Option.bind y g"
  by (cases y) simp_all

function special_loop ::
  "(int \<Rightarrow> std_string option) \<Rightarrow> (std_string \<Rightarrow> int list \<Rightarrow> int list option) \<Rightarrow> int list \<Rightarrow> std_string \<Rightarrow> nat \<Rightarrow> nat \<Rightarrow> int list \<Rightarrow>
   int list option" where
  "special_loop decode encode special text i start ids =
     (if i < length text then do {
        found \<leftarrow> match_special decode text i special;
        case found of
          None \<Rightarrow> special_loop decode encode special text (i + 1) start ids
        | Some (special_id, n) \<Rightarrow> do {
            ids \<leftarrow> (if i > start then encode (take (i - start) (drop start text)) ids else Some ids);
            special_loop decode encode special text (i + n) (i + n) (ids @ [special_id]) } }
      else if start < length text then encode (drop start text) ids
      else Some ids)"
  by pat_completeness auto
termination
  by (relation "measure (\<lambda>(_, _, _, text, i, _, _). length text - i)") (auto dest: match_special_Some(3))

definition Tokenizer_encode ::
  "(int \<Rightarrow> std_string option) \<Rightarrow> (std_string \<Rightarrow> int list \<Rightarrow> int list option) \<Rightarrow> Tokenizer \<Rightarrow> std_string \<Rightarrow> int list option" where
  "Tokenizer_encode decode encode t str =
     (if special_tokens t \<noteq> [] then special_loop decode encode (special_tokens t) str 0 0 (prefix_tokens t)
      else encode str (prefix_tokens t))"

declare special_loop.simps [simp del]

section \<open>What a tokenizer promises\<close>

definition decode_all :: "(int \<Rightarrow> std_string option) \<Rightarrow> int list \<Rightarrow> std_string option" where
  "decode_all decode ids = map_option concat (those (map decode ids))"

lemma those_append: "those (xs @ ys) = Option.bind (those xs) (\<lambda>us. map_option ((@) us) (those ys))"
proof (induction xs)
  case Nil
  show ?case by (cases "those ys") simp_all
next
  case (Cons x xs)
  then show ?case by (cases x; cases "those xs"; cases "those ys") simp_all
qed

lemma decode_all_Nil [simp]: "decode_all decode [] = Some []"
  by (simp add: decode_all_def)

lemma decode_all_append:
  assumes "decode_all decode xs = Some s" "decode_all decode ys = Some t"
  shows "decode_all decode (xs @ ys) = Some (s @ t)"
  using assms by (auto simp: decode_all_def those_append)

lemma decode_all_single [simp]: "decode_all decode [i] = decode i"
  by (cases "decode i") (simp_all add: decode_all_def)

text \<open>The text of the class: what it appends decodes to the text it was given. \<open>ok\<close> says for which texts.\<close>

locale token_codec =
  fixes decode :: "int \<Rightarrow> std_string option"
    and encode :: "std_string \<Rightarrow> int list \<Rightarrow> int list option"
    and ok :: "std_string \<Rightarrow> bool"
  assumes encode_decode: "ok s \<Longrightarrow> encode s ids = Some ids' \<Longrightarrow> \<exists>new. ids' = ids @ new \<and> decode_all decode new = Some s"
    and ok_part: "ok (xs @ ys @ zs) \<Longrightarrow> ok ys"
begin

lemma ok_take_drop: "ok s \<Longrightarrow> ok (take n (drop m s))"
  using ok_part [of "take m s" "take n (drop m s)" "drop n (drop m s)"] unfolding append_take_drop_id .

lemma ok_drop: "ok s \<Longrightarrow> ok (drop m s)"
  using ok_part [of "take m s" "drop m s" "[]"] by simp

lemma special_loop_decodes:
  assumes "ok text" "start \<le> i" "i \<le> length text" "special_loop decode encode special text i start ids = Some ids'"
  shows "\<exists>new. ids' = ids @ new \<and> decode_all decode new = Some (drop start text)"
  using assms
proof (induction "length text - i" arbitrary: i start ids ids' rule: less_induct)
  case less
  note unfold_loop = special_loop.simps [of decode encode special "text" i start ids]
  show ?case
  proof (cases "i < length text")
    case False
    then have "(if start < length text then encode (drop start text) ids else Some ids) = Some ids'"
      using less.prems(4) unfolding unfold_loop by simp
    then show ?thesis using encode_decode [OF ok_drop [OF less.prems(1)], of start ids ids'] by (cases "start < length text") auto
  next
    case True
    then obtain m where m: "match_special decode text i special = Some m" using less.prems(4) by (auto simp: unfold_loop bind_eq_Some_conv)
    show ?thesis
    proof (cases m)
      case None
      show ?thesis by (rule less.hyps [of "i + 1"]) (use True None m less.prems in \<open>auto simp: unfold_loop\<close>)
    next
      case (Some p)
      obtain special_id n where p: "p = (special_id, n)" by (cases p)
      note found = match_special_Some [OF m [unfolded Some p]]
      obtain ids1 where ids1: "(if i > start then encode (take (i - start) (drop start text)) ids else Some ids) = Some ids1"
          "special_loop decode encode special text (i + n) (i + n) (ids1 @ [special_id]) = Some ids'"
        using less.prems(4) True m Some p by (auto simp: unfold_loop bind_eq_Some_conv)
      obtain new where new: "ids1 = ids @ new" "decode_all decode new = Some (take (i - start) (drop start text))"
      proof (cases "i > start")
        case True
        then show ?thesis using ids1(1) encode_decode [OF ok_take_drop [OF less.prems(1), of "i - start" start], of ids ids1] that by auto
      next
        case False
        then show ?thesis using ids1(1) that [of "[]"] by simp
      qed
      obtain new' where new': "ids' = (ids1 @ [special_id]) @ new'" "decode_all decode new' = Some (drop (i + n) text)"
        using less.hyps [OF diff_less_mono2 less.prems(1) order_refl found(4) ids1(2)] True found(3) by auto
      have "drop start text = take (i - start) (drop start text) @ take n (drop i text) @ drop (i + n) text"
        using less.prems(2) append_take_drop_id [of "i - start" "drop start text"] append_take_drop_id [of n "drop i text"] by (simp add: add.commute)
      then show ?thesis
        using new new' decode_all_append [OF new(2) decode_all_append [of decode "[special_id]" _ new']] found(2) by auto
    qed
  qed
qed

text \<open>The whole text, with the prefix the model wants in front of it.\<close>

lemma Tokenizer_encode_decodes:
  assumes "ok str" "Tokenizer_encode decode encode t str = Some ids"
  shows "\<exists>new. ids = prefix_tokens t @ new \<and> decode_all decode new = Some str"
  using assms special_loop_decodes [of str 0 0 "special_tokens t" "prefix_tokens t" ids] encode_decode [of str "prefix_tokens t" ids]
  by (auto simp: Tokenizer_encode_def split: if_splits)

end

text \<open>A tokenizer that accepts every such text.\<close>

locale total_codec = token_codec +
  assumes encode_total: "ok s \<Longrightarrow> \<exists>ids'. encode s ids = Some ids'"
begin

lemma match_special_total:
  assumes "\<forall>i \<in> set special. decode i \<noteq> None"
  shows "\<exists>m. match_special decode text i special = Some m"
  using assms by (induction special) auto

lemma special_loop_total:
  assumes "ok text" "\<forall>i \<in> set special. decode i \<noteq> None"
  shows "\<exists>ids'. special_loop decode encode special text i start ids = Some ids'"
  using assms
proof (induction "length text - i" arbitrary: i start ids rule: less_induct)
  case less
  note unfold_loop = special_loop.simps [of decode encode special "text" i start ids]
  obtain m where m: "match_special decode text i special = Some m" using match_special_total [OF less.prems(2)] by blast
  show ?case
  proof (cases "i < length text")
    case False
    then show ?thesis using encode_total [OF ok_drop [OF less.prems(1)]] by (simp add: unfold_loop)
  next
    case True
    show ?thesis
    proof (cases m)
      case None
      then show ?thesis using True m less.hyps [of "i + 1", OF _ less.prems] by (simp add: unfold_loop)
    next
      case (Some p)
      obtain special_id n where p: "p = (special_id, n)" by (cases p)
      note found = match_special_Some [OF m [unfolded Some p]]
      obtain ids1 where "(if i > start then encode (take (i - start) (drop start text)) ids else Some ids) = Some ids1"
        using encode_total [OF ok_take_drop [OF less.prems(1), of "i - start" start], of ids] by (cases "i > start") auto
      moreover obtain ids' where "special_loop decode encode special text (i + n) (i + n) (ids1 @ [special_id]) = Some ids'"
        using less.hyps [of "i + n", OF _ less.prems] True found(3) by fastforce
      ultimately show ?thesis using True m Some p by (simp add: unfold_loop)
    qed
  qed
qed

lemma Tokenizer_encode_total:
  assumes "ok str" "\<forall>i \<in> set (special_tokens t). decode i \<noteq> None"
  shows "\<exists>new. Tokenizer_encode decode encode t str = Some (prefix_tokens t @ new) \<and> decode_all decode new = Some str"
proof -
  obtain ids where "Tokenizer_encode decode encode t str = Some ids"
    using special_loop_total [OF assms, of 0 0 "prefix_tokens t"] encode_total [OF assms(1), of "prefix_tokens t"]
    by (cases "special_tokens t = []") (auto simp: Tokenizer_encode_def)
  then show ?thesis using Tokenizer_encode_decodes [OF assms(1)] by blast
qed

end

section \<open>Joining neighbours\<close>

text \<open>The step byte pair encoding is made of, on a list of symbols.\<close>

definition merge_at :: "nat \<Rightarrow> 'a list list \<Rightarrow> 'a list list" where
  "merge_at k syms = take k syms @ [syms ! k @ syms ! (k + 1)] @ drop (k + 2) syms"

lemma merge_at_concat: "k + 1 < length syms \<Longrightarrow> concat (merge_at k syms) = concat syms"
proof -
  assume "k + 1 < length syms"
  then have "syms = take k syms @ syms ! k # syms ! (k + 1) # drop (k + 2) syms"
    by (metis Cons_nth_drop_Suc Suc_eq_plus1 Suc_lessD add_2_eq_Suc' append_take_drop_id)
  then have "concat syms = concat (take k syms @ syms ! k # syms ! (k + 1) # drop (k + 2) syms)" by (rule arg_cong)
  then show ?thesis by (simp add: merge_at_def)
qed

lemma merge_at_parts: "merge_at (length xs) (xs @ a # b # ys) = xs @ (a @ b) # ys"
  by (simp add: merge_at_def nth_append)

end
