(* ===== verification/TokenVocab.thy ===== *)
theory TokenVocab
  imports TokenCodec
begin

unbundle bit_operations_syntax

text \<open>
  The tokenizers that look for the longest token: \<open>Tiktoken\<close>, and \<open>BertTokenizer\<close> with its word pieces. Both hold their
  vocabulary as a list from ids to tokens and a hash map from tokens to ids. A position in the text is kept as the code
  keeps it; the message of an error that reads the text two bytes before the position does so behind the end of memory
  when there are no two bytes.
\<close>

section \<open>The vocabulary\<close>

definition load_table :: "'k list \<Rightarrow> 'k \<Rightarrow> int option" where
  \<comment> \<open>\<open>encoder_\<close>, filled line by line\<close>
  "load_table tokens = fold (\<lambda>(i, token) m. map_insert m token (int i)) (enumerate 0 tokens) (\<lambda>_. None)"

record Tiktoken =
  tk_encoder :: "std_string \<Rightarrow> int option"
  tk_decoder :: "std_string list"

definition Tiktoken_load_vocab :: "std_string list \<Rightarrow> Tiktoken" where
  "Tiktoken_load_vocab lines = \<lparr>tk_encoder = load_table (map base64_decode lines), tk_decoder = map base64_decode lines\<rparr>"

definition Tiktoken_decode :: "Tiktoken \<Rightarrow> int \<Rightarrow> std_string" where
  \<comment> \<open>the comparison with the size is unsigned\<close>
  "Tiktoken_decode v token = (if token < 0 \<or> token \<ge> int (length (tk_decoder v)) then [] else tk_decoder v ! nat token)"

lemma load_table_Some:
  fixes token :: 'a
  assumes "load_table tokens token = Some i"
  shows "0 \<le> i" "i < int (length tokens)" "tokens ! nat i = token"
proof -
  have "m token = Some i \<or> (\<exists>k. i = int (k + n) \<and> k < length ts \<and> ts ! k = token)"
    if "fold (\<lambda>(i, token) m. map_insert m token (int i)) (enumerate n ts) m token = Some i" for n ts and m :: "'a \<Rightarrow> int option"
    using that
  proof (induction ts arbitrary: n m)
    case (Cons t ts)
    then have "map_insert m t (int n) token = Some i \<or> (\<exists>k. i = int (k + Suc n) \<and> k < length ts \<and> ts ! k = token)"
      using Cons.IH [of "Suc n" "map_insert m t (int n)"] by simp
    then show ?case
    proof
      assume "map_insert m t (int n) token = Some i"
      then show ?thesis by (auto simp: map_insert_def split: option.splits if_splits intro!: exI [of _ 0])
    qed (force intro: exI [of _ "Suc _"])
  qed simp
  from this [of 0 tokens "\<lambda>_. None"] assms show "0 \<le> i" "i < int (length tokens)" "tokens ! nat i = token"
    by (auto simp: load_table_def)
qed

lemma load_table_dom:
  fixes token :: 'a
  assumes "token \<in> set tokens"
  shows "load_table tokens token \<noteq> None"
proof -
  have "fold (\<lambda>(i, token) m. map_insert m token (int i)) (enumerate n ts) m token \<noteq> None"
    if "token \<in> set ts \<or> m token \<noteq> None" for n ts and m :: "'a \<Rightarrow> int option"
    using that
  proof (induction ts arbitrary: n m)
    case (Cons t ts)
    then have "token \<in> set ts \<or> map_insert m t (int n) token \<noteq> None" by (auto simp: map_insert_def split: option.splits)
    then show ?case using Cons.IH by simp
  qed simp
  then show ?thesis using assms by (simp add: load_table_def)
qed

lemma Tiktoken_decode_encoder:
  assumes "tk_encoder (Tiktoken_load_vocab lines) token = Some i"
  shows "Tiktoken_decode (Tiktoken_load_vocab lines) i = token"
  using load_table_Some [of "map base64_decode lines" token i] assms by (simp add: Tiktoken_load_vocab_def Tiktoken_decode_def)

section \<open>Tiktoken\<close>

definition longest_match :: "(std_string \<Rightarrow> int option) \<Rightarrow> std_string \<Rightarrow> nat" where
  \<comment> \<open>\<open>longest_match_len\<close>, over the lengths from the largest down\<close>
  "longest_match encoder rest =
     fold (\<lambda>len longest. if encoder (take len rest) \<noteq> None \<and> len > longest then len else longest) (rev [1..<Suc (length rest)]) 0"

lemma longest_match_max:
  assumes "longest_match encoder rest = n"
  shows "n \<le> length rest" "0 < n \<Longrightarrow> encoder (take n rest) \<noteq> None"
    "\<And>m. 0 < m \<Longrightarrow> m \<le> length rest \<Longrightarrow> encoder (take m rest) \<noteq> None \<Longrightarrow> m \<le> n"
proof -
  let ?f = "\<lambda>len longest. if encoder (take len rest) \<noteq> None \<and> len > longest then len else longest"
  have "(fold ?f xs a = a \<or> fold ?f xs a \<in> set xs \<and> encoder (take (fold ?f xs a) rest) \<noteq> None) \<and>
      a \<le> fold ?f xs a \<and> (\<forall>m \<in> set xs. encoder (take m rest) \<noteq> None \<longrightarrow> m \<le> fold ?f xs a)" for xs a
  proof (induction xs arbitrary: a)
    case (Cons x xs)
    show ?case using Cons [of "?f x a"] by auto
  qed simp
  from this [of "rev [1..<Suc (length rest)]" 0] assms
  show "n \<le> length rest" "0 < n \<Longrightarrow> encoder (take n rest) \<noteq> None"
    "\<And>m. 0 < m \<Longrightarrow> m \<le> length rest \<Longrightarrow> encoder (take m rest) \<noteq> None \<Longrightarrow> m \<le> n"
    by (auto simp: longest_match_def simp del: upt_Suc)
qed

function tiktoken_loop :: "(std_string \<Rightarrow> int option) \<Rightarrow> std_string \<Rightarrow> nat \<Rightarrow> int list \<Rightarrow> int list option" where
  "tiktoken_loop encoder str i ids =
     (if i < length str then
        let len = longest_match encoder (drop i str)
        in if len > 0 then do {
             id \<leftarrow> encoder (take len (drop i str));
             tiktoken_loop encoder str (i + len) (ids @ [id]) }
           else if i < 2 then None
           else Some ids
      else Some ids)"
  by pat_completeness auto
termination
  by (relation "measure (\<lambda>(_, str, i, _). length str - i)") auto

declare tiktoken_loop.simps [simp del]

definition Tiktoken_encode :: "Tiktoken \<Rightarrow> std_string \<Rightarrow> int list \<Rightarrow> int list option" where
  "Tiktoken_encode v str ids = (if str = [] then Some ids else tiktoken_loop (tk_encoder v) str 0 ids)"

text \<open>Where the loop stops, and what it has appended by then.\<close>

lemma tiktoken_loop_result:
  assumes v: "v = Tiktoken_load_vocab lines" and "i \<le> length str"
  shows "\<exists>n new. i \<le> n \<and> n \<le> length str \<and> decode_all (\<lambda>id. Some (Tiktoken_decode v id)) new = Some (take (n - i) (drop i str)) \<and>
    (if n = length str then tiktoken_loop (tk_encoder v) str i ids = Some (ids @ new)
     else (\<forall>m. 0 < m \<and> n + m \<le> length str \<longrightarrow> tk_encoder v (take m (drop n str)) = None) \<and>
       tiktoken_loop (tk_encoder v) str i ids = (if n < 2 then None else Some (ids @ new)))"
  using assms(2)
proof (induction "length str - i" arbitrary: i ids rule: less_induct)
  case less
  note unfold_loop = tiktoken_loop.simps [of "tk_encoder v" str i ids]
  let ?len = "longest_match (tk_encoder v) (drop i str)"
  note len = longest_match_max [OF refl [of ?len]]
  show ?case
  proof (cases "i < length str \<and> 0 < ?len")
    case True
    then obtain t where t: "tk_encoder v (take ?len (drop i str)) = Some t" using len(2) by blast
    have d: "Tiktoken_decode v t = take ?len (drop i str)" using Tiktoken_decode_encoder t unfolding v by blast
    have le: "i + ?len \<le> length str" using len(1) True by (simp add: le_diff_conv2 add.commute)
    have "length str - (i + ?len) < length str - i" using True by linarith
    from less.hyps [OF this le, of "ids @ [t]"] obtain n new where IH: "i + ?len \<le> n" "n \<le> length str"
        "decode_all (\<lambda>id. Some (Tiktoken_decode v id)) new = Some (take (n - (i + ?len)) (drop (i + ?len) str))"
        "if n = length str then tiktoken_loop (tk_encoder v) str (i + ?len) (ids @ [t]) = Some ((ids @ [t]) @ new)
         else (\<forall>m. 0 < m \<and> n + m \<le> length str \<longrightarrow> tk_encoder v (take m (drop n str)) = None) \<and>
           tiktoken_loop (tk_encoder v) str (i + ?len) (ids @ [t]) = (if n < 2 then None else Some ((ids @ [t]) @ new))"
      by blast
    have "take (n - i) (drop i str) = take ?len (drop i str) @ take (n - (i + ?len)) (drop (i + ?len) str)"
      using IH(1) take_add [of ?len "n - (i + ?len)" "drop i str"] by (simp add: add.commute)
    then have "decode_all (\<lambda>id. Some (Tiktoken_decode v id)) ([t] @ new) = Some (take (n - i) (drop i str))"
      using decode_all_append [of _ "[t]", OF _ IH(3)] d by simp
    moreover have "tiktoken_loop (tk_encoder v) str i ids = tiktoken_loop (tk_encoder v) str (i + ?len) (ids @ [t])"
      using True t by (simp add: unfold_loop)
    ultimately show ?thesis using IH by (intro exI [of _ n] exI [of _ "[t] @ new"]) auto
  next
    case False
    show ?thesis
    proof (cases "i = length str")
      case True
      then show ?thesis by (intro exI [of _ i] exI [of _ "[]"]) (simp add: tiktoken_loop.simps)
    next
      case ne: False
      then have l: "?len = 0" "i < length str" using False less.prems by auto
      have "tk_encoder v (take m (drop i str)) = None" if "0 < m" "i + m \<le> length str" for m
        using len(3) [of m] that l by fastforce
      then show ?thesis using l by (intro exI [of _ i] exI [of _ "[]"]) (auto simp: unfold_loop)
    qed
  qed
qed

text \<open>A vocabulary with a token for each byte of the text.\<close>

definition covers :: "std_string list \<Rightarrow> std_string \<Rightarrow> bool" where
  "covers lines s \<longleftrightarrow> (\<forall>b \<in> set s. \<exists>line \<in> set lines. base64_decode line = [b])"

lemma Tiktoken_encode_covered:
  assumes "covers lines s" "v = Tiktoken_load_vocab lines"
  shows "\<exists>new. Tiktoken_encode v s ids = Some (ids @ new) \<and> decode_all (\<lambda>id. Some (Tiktoken_decode v id)) new = Some s"
proof (cases "s = []")
  case True
  then show ?thesis by (simp add: Tiktoken_encode_def)
next
  case False
  obtain n new where n: "n \<le> length s" "decode_all (\<lambda>id. Some (Tiktoken_decode v id)) new = Some (take n s)"
      "n = length s \<Longrightarrow> tiktoken_loop (tk_encoder v) s 0 ids = Some (ids @ new)"
      "n \<noteq> length s \<Longrightarrow> \<forall>m. 0 < m \<and> n + m \<le> length s \<longrightarrow> tk_encoder v (take m (drop n s)) = None"
    using tiktoken_loop_result [OF assms(2), of 0 s ids] by (metis drop_0 le0 minus_nat.diff_0)
  have "n = length s"
  proof (rule ccontr)
    assume "n \<noteq> length s"
    then have lt: "n < length s" using n(1) by simp
    then have "take 1 (drop n s) = [s ! n]" by (simp add: take_Suc hd_drop_conv_nth)
    moreover have "tk_encoder v (take 1 (drop n s)) = None" using n(4) lt by simp
    moreover have "tk_encoder v [s ! n] \<noteq> None"
    proof -
      obtain line where "line \<in> set lines" "base64_decode line = [s ! n]" using assms(1) nth_mem [OF lt] by (auto simp: covers_def)
      then have "[s ! n] \<in> set (map base64_decode lines)" by force
      from load_table_dom [OF this] show ?thesis using assms(2) by (simp add: Tiktoken_load_vocab_def)
    qed
    ultimately show False by simp
  qed
  then show ?thesis using n False by (auto simp: Tiktoken_encode_def)
qed

interpretation tiktoken: total_codec "\<lambda>id. Some (Tiktoken_decode (Tiktoken_load_vocab lines) id)"
  "Tiktoken_encode (Tiktoken_load_vocab lines)" "covers lines" for lines
proof
  show "\<exists>new. ids' = ids @ new \<and> decode_all (\<lambda>id. Some (Tiktoken_decode (Tiktoken_load_vocab lines) id)) new = Some s"
    if "covers lines s" "Tiktoken_encode (Tiktoken_load_vocab lines) s ids = Some ids'" for s ids ids'
    using Tiktoken_encode_covered [OF that(1) refl, of ids] that(2) by auto
  show "covers lines (xs @ ys @ zs) \<Longrightarrow> covers lines ys" for xs ys zs by (auto simp: covers_def)
  show "covers lines s \<Longrightarrow> \<exists>ids'. Tiktoken_encode (Tiktoken_load_vocab lines) s ids = Some ids'" for s ids
    using Tiktoken_encode_covered [OF _ refl] by blast
qed

section \<open>Bert\<close>

lemma find_in: "List.find P xs = Some x \<Longrightarrow> x \<in> set xs \<and> P x"
  by (auto simp: find_Some_iff)

function word_loop :: "(std_string \<Rightarrow> int option) \<Rightarrow> std_string \<Rightarrow> int list \<Rightarrow> int list" where
  \<comment> \<open>the loop of \<open>word_piece\<close>; 100 is the token for what is unknown\<close>
  "word_loop encoder current ids =
     (if current = [] then ids
      else let candidate = (\<lambda>len. (if ids \<noteq> [] then ascii ''##'' else []) @ take len current)
        in case List.find (\<lambda>len. encoder (candidate len) \<noteq> None) (rev [1..<Suc (length current)]) of
          None \<Rightarrow> ids @ [100]
        | Some match_pos \<Rightarrow> word_loop encoder (drop match_pos current) (ids @ [the (encoder (candidate match_pos))]))"
  by pat_completeness auto
termination
  by (relation "measure (\<lambda>(_, current, _). length current)") (auto simp: find_Some_iff rev_nth simp del: upt_Suc)

declare word_loop.simps [simp del]

definition word_piece :: "Tiktoken \<Rightarrow> std_string \<Rightarrow> int list" where
  "word_piece v token = (case tk_encoder v token of Some i \<Rightarrow> [i] | None \<Rightarrow> word_loop (tk_encoder v) token [])"

definition is_punct :: "8 word \<Rightarrow> bool" where
  "is_punct c \<longleftrightarrow> in_chars 33 47 c \<or> in_chars 58 64 c \<or> in_chars 91 96 c \<or> in_chars 123 126 c"

function bert_tokens :: "std_string \<Rightarrow> std_string list" where
  \<comment> \<open>\<open>tokens\<close> of the text from position \<open>i\<close> on\<close>
  "bert_tokens str = (case str of
     [] \<Rightarrow> []
   | c # rest \<Rightarrow>
       if c AND 0x80 \<noteq> 0 then
         if c AND 0xE0 = 0xE0 then take 3 str # bert_tokens (drop 3 str) else bert_tokens rest
       else if is_alnum c then map to_lower (takeWhile is_alnum str) # bert_tokens (dropWhile is_alnum str)
       else if is_punct c then [c] # bert_tokens rest
       else if is_space c then bert_tokens rest
       else [c] # bert_tokens rest)"
  by pat_completeness auto
termination
  by (relation "measure length") (auto intro: le_imp_less_Suc length_dropWhile_le)

declare bert_tokens.simps [simp del]

definition BertTokenizer_encode :: "Tiktoken \<Rightarrow> std_string \<Rightarrow> int list \<Rightarrow> int list" where
  "BertTokenizer_encode v str ids = ids @ concat (map (word_piece v) (bert_tokens str))"

text \<open>The pieces of a word, in order, are the word, up to the first part that no token begins.\<close>

lemma word_loop_pieces:
  assumes v: "v = Tiktoken_load_vocab lines"
  shows "\<exists>ps rest. current = concat ps @ rest \<and> (\<forall>p \<in> set ps. p \<noteq> []) \<and>
    (\<exists>new. map (Tiktoken_decode v) new = (if ids = [] then take 1 ps @ map ((@) (ascii ''##'')) (drop 1 ps) else map ((@) (ascii ''##'')) ps) \<and>
      word_loop (tk_encoder v) current ids = ids @ new @ (if rest = [] then [] else [100]))"
proof (induction "length current" arbitrary: current ids rule: less_induct)
  case less
  let ?candidate = "\<lambda>len. (if ids \<noteq> [] then ascii ''##'' else []) @ take len current"
  let ?found = "List.find (\<lambda>len. tk_encoder v (?candidate len) \<noteq> None) (rev [1..<Suc (length current)])"
  note unfold_loop = word_loop.simps [of "tk_encoder v" current ids]
  show ?case
  proof (cases "current = [] \<or> ?found = None")
    case True
    then show ?thesis
      by (intro exI [of _ "[]"] exI [of _ current]) (auto simp: unfold_loop Let_def)
  next
    case False
    then obtain n where n: "?found = Some n" by auto
    then have "n \<in> set (rev [1..<Suc (length current)])" and e: "tk_encoder v (?candidate n) \<noteq> None"
      using find_in by fast+
    then have r: "0 < n" "n \<le> length current" by (auto simp del: upt_Suc)
    obtain t where t: "tk_encoder v (?candidate n) = Some t" using e by blast
    have d: "Tiktoken_decode v t = ?candidate n" using Tiktoken_decode_encoder t unfolding v by blast
    have "length (drop n current) < length current" using r by simp
    from less.hyps [OF this, of "ids @ [t]"] obtain ps rest new where IH: "drop n current = concat ps @ rest" "\<forall>p \<in> set ps. p \<noteq> []"
        "map (Tiktoken_decode v) new = map ((@) (ascii ''##'')) ps"
        "word_loop (tk_encoder v) (drop n current) (ids @ [t]) = (ids @ [t]) @ new @ (if rest = [] then [] else [100])"
      by auto
    have "word_loop (tk_encoder v) current ids = word_loop (tk_encoder v) (drop n current) (ids @ [t])"
      using False n t by (auto simp: unfold_loop Let_def)
    moreover have "current = concat (take n current # ps) @ rest" using IH(1) append_take_drop_id [of n current] by simp
    moreover have "map (Tiktoken_decode v) (t # new) = (if ids = [] then take 1 (take n current # ps) @ map ((@) (ascii ''##'')) (drop 1 (take n current # ps))
        else map ((@) (ascii ''##'')) (take n current # ps))" using d IH(3) by simp
    moreover have "\<forall>p \<in> set (take n current # ps). p \<noteq> []" using IH(2) r by auto
    moreover have "word_loop (tk_encoder v) (drop n current) (ids @ [t]) = ids @ (t # new) @ (if rest = [] then [] else [100])"
      using IH(4) by simp
    ultimately show ?thesis by metis
  qed
qed

end
