(* ===== verification/TokenPiece.thy ===== *)
theory TokenPiece
  imports TokenVocab
begin

unbundle bit_operations_syntax

text \<open>
  The class \<open>Sentencepiece\<close>: byte pair encoding with scores, over a doubly linked list of symbols and an agenda of pairs that
  may be stale. A \<open>string_view_\<close> into the text is its position and its length; the index -1 is \<open>None\<close>. Scores are values of
  any linear order. Which of several equal pairs \<open>std::priority_queue\<close> gives first is not specified: the position of the
  one it gives is a parameter, \<open>top_of\<close>. The dropout \<open>alpha\<close> is 0, as in the only call, and \<open>freeze\<close> is never set.
\<close>

section \<open>The vocabulary\<close>

datatype PieceType = NORMAL | UNKNOWN | CONTROL | USER_DEFINED | UNUSED | BYTE

record 's SentencePiece =
  sp_piece :: std_string
  sp_score :: 's
  sp_type :: PieceType

record 's Sentencepiece =
  unk_id :: int
  sentence_pieces :: "'s SentencePiece list"
  pieces_map :: "std_string \<Rightarrow> int option"
  reserved_id_map :: "std_string \<Rightarrow> int option"

definition load_piece :: "nat \<times> std_string \<times> 's \<times> PieceType \<Rightarrow> 's Sentencepiece \<Rightarrow> 's Sentencepiece" where
  "load_piece line m = (case line of (index, token, score, piece_type) \<Rightarrow>
     let token = base64_decode token;
         m = m\<lparr>sentence_pieces := sentence_pieces m @ [\<lparr>sp_piece = token, sp_score = score, sp_type = piece_type\<rparr>]\<rparr>
     in if piece_type = NORMAL then m\<lparr>pieces_map := map_insert (pieces_map m) token (int index)\<rparr>
        else
          let m = m\<lparr>reserved_id_map := map_insert (reserved_id_map m) token (int index)\<rparr>
          in if piece_type = UNKNOWN then m\<lparr>unk_id := int index\<rparr> else m)"

definition Sentencepiece_load_vocab :: "(std_string \<times> 's \<times> PieceType) list \<Rightarrow> 's Sentencepiece" where
  "Sentencepiece_load_vocab lines = fold load_piece (enumerate 0 lines)
     \<lparr>unk_id = 0, sentence_pieces = [], pieces_map = (\<lambda>_. None), reserved_id_map = (\<lambda>_. None)\<rparr>"

definition piece_at :: "'s Sentencepiece \<Rightarrow> int \<Rightarrow> 's SentencePiece option" where
  "piece_at m i = (if 0 \<le> i \<and> i < int (length (sentence_pieces m)) then Some (sentence_pieces m ! nat i) else None)"

definition piece_to_id :: "'s Sentencepiece \<Rightarrow> std_string \<Rightarrow> int" where
  "piece_to_id m piece = (case reserved_id_map m piece of
     Some i \<Rightarrow> i
   | None \<Rightarrow> (case pieces_map m piece of Some i \<Rightarrow> i | None \<Rightarrow> unk_id m))"

definition byte_to_piece :: "8 word \<Rightarrow> std_string" where
  \<comment> \<open>\<open><0x%02X>\<close>\<close>
  "byte_to_piece c = ascii ''<0x'' @ map (\<lambda>k. ascii ''0123456789ABCDEF'' ! k) [unat c div 16, unat c mod 16] @ ascii ''>''"

section \<open>Symbols and pairs\<close>

record Symbol =
  s_prev :: "nat option"
  s_next :: "nat option"
  s_pos :: nat
  s_len :: nat

record 's SymbolPair =
  p_left :: nat
  p_right :: nat
  p_score :: 's
  p_size :: nat

record 's Merger =
  symbols :: "Symbol list"
  agenda :: "'s SymbolPair list"
  rev_merge :: "std_string \<Rightarrow> (std_string \<times> std_string) option"

definition view :: "std_string \<Rightarrow> nat \<Rightarrow> nat \<Rightarrow> std_string" where
  "view str pos len = take len (drop pos str)"

definition symbol_text :: "std_string \<Rightarrow> Symbol \<Rightarrow> std_string" where
  "symbol_text str s = view str (s_pos s) (s_len s)"

definition MaybeAddNewSymbolPair :: "'s Sentencepiece \<Rightarrow> std_string \<Rightarrow> nat option \<Rightarrow> nat option \<Rightarrow> 's Merger \<Rightarrow> 's Merger option" where
  "MaybeAddNewSymbolPair m str left right st = (case (left, right) of
     (Some l, Some r) \<Rightarrow>
       if l \<ge> length (symbols st) \<or> r \<ge> length (symbols st) then None
       else
         let sl = symbols st ! l; sr = symbols st ! r;
             piece = view str (s_pos sl) (s_len sl + s_len sr)
         in (case pieces_map m piece of
              None \<Rightarrow> Some st
            | Some i \<Rightarrow> do {
                p \<leftarrow> piece_at m i;
                let st = st\<lparr>agenda := agenda st @ [\<lparr>p_left = l, p_right = r, p_score = sp_score p, p_size = s_len sl + s_len sr\<rparr>]\<rparr>;
                Some (if sp_type p = UNUSED
                  then st\<lparr>rev_merge := (rev_merge st)(piece \<mapsto> (symbol_text str sl, symbol_text str sr))\<rparr> else st) })
   | _ \<Rightarrow> Some st)"

function split_symbols :: "std_string \<Rightarrow> nat \<Rightarrow> nat \<Rightarrow> Symbol list" where
  \<comment> \<open>the characters from the position \<open>pos\<close> on, the first of them the symbol \<open>index\<close>\<close>
  "split_symbols str pos index =
     (if pos < length str then
        let mblen = min (length str - pos) (one_char_len (str ! pos))
        in if mblen = 0 then []
           else \<lparr>s_prev = (if index = 0 then None else Some (index - 1)),
                 s_next = (if length str \<le> pos + mblen then None else Some (index + 1)), s_pos = pos, s_len = mblen\<rparr> #
             split_symbols str (pos + mblen) (index + 1)
      else [])"
  by pat_completeness auto
termination
  by (relation "measure (\<lambda>(str, pos, _). length str - pos)") auto

declare split_symbols.simps [simp del]

definition lower :: "'s::linorder SymbolPair \<Rightarrow> 's SymbolPair \<Rightarrow> bool" where
  \<comment> \<open>\<open>SymbolPairComparator\<close>\<close>
  "lower h1 h2 \<longleftrightarrow> p_score h1 < p_score h2 \<or> p_score h1 = p_score h2 \<and> p_left h1 > p_left h2"

section \<open>The main loop\<close>

definition join_symbols :: "nat \<Rightarrow> nat \<Rightarrow> Symbol list \<Rightarrow> Symbol list option" where
  \<comment> \<open>the left symbol takes over the right one, which is empty then\<close>
  "join_symbols l r ss = (
     let ss = ss[l := (ss ! l)\<lparr>s_len := s_len (ss ! l) + s_len (ss ! r)\<rparr>];
         ss = ss[l := (ss ! l)\<lparr>s_next := s_next (ss ! r)\<rparr>]
     in do {
       ss \<leftarrow> (case s_next (ss ! r) of
           Some n \<Rightarrow> if n < length ss then Some (ss[n := (ss ! n)\<lparr>s_prev := Some l\<rparr>]) else None
         | None \<Rightarrow> Some ss);
       Some (ss[r := (ss ! r)\<lparr>s_pos := 0, s_len := 0\<rparr>]) })"

definition merge_top :: "'s Sentencepiece \<Rightarrow> std_string \<Rightarrow> 's SymbolPair \<Rightarrow> 's Merger \<Rightarrow> 's Merger option" where
  \<comment> \<open>what is done for a pair that is still there\<close>
  "merge_top m str t st = do {
     ss \<leftarrow> join_symbols (p_left t) (p_right t) (symbols st);
     st \<leftarrow> MaybeAddNewSymbolPair m str (s_prev (ss ! p_left t)) (Some (p_left t)) (st\<lparr>symbols := ss\<rparr>);
     MaybeAddNewSymbolPair m str (Some (p_left t)) (s_next (ss ! p_left t)) st }"

definition stale :: "Symbol list \<Rightarrow> 's SymbolPair \<Rightarrow> bool" where
  "stale ss t \<longleftrightarrow> s_len (ss ! p_left t) = 0 \<or> s_len (ss ! p_right t) = 0 \<or> s_len (ss ! p_left t) + s_len (ss ! p_right t) \<noteq> p_size t"

definition live_symbols :: "Symbol list \<Rightarrow> nat set" where
  "live_symbols ss = {i. i < length ss \<and> s_len (ss ! i) \<noteq> 0}"

lemma finite_live [simp]: "finite (live_symbols ss)"
  by (simp add: live_symbols_def)

lemma add_agenda: "MaybeAddNewSymbolPair m str left right st = Some st' \<Longrightarrow>
  symbols st' = symbols st \<and> length (agenda st') \<le> Suc (length (agenda st))"
  by (auto simp: MaybeAddNewSymbolPair_def Let_def bind_eq_Some_conv split: option.splits if_splits)

lemma join_symbols_len:
  assumes "join_symbols l r ss = Some ss'" "l < length ss"
  shows "length ss' = length ss" "i < length ss \<Longrightarrow> s_len (ss' ! i) = (if i = r then 0 else if i = l then s_len (ss ! l) + s_len (ss ! r) else s_len (ss ! i))"
  using assms by (auto simp: join_symbols_def Let_def nth_list_update bind_eq_Some_conv split: option.splits if_splits)

lemma merge_top_live:
  assumes "merge_top m str t st = Some st'" "\<not> stale (symbols st) t" "p_left t < length (symbols st)" "p_right t < length (symbols st)"
  shows "card (live_symbols (symbols st')) < card (live_symbols (symbols st))" "length (agenda st') \<le> length (agenda st) + 2"
proof -
  obtain ss st1 where ss: "join_symbols (p_left t) (p_right t) (symbols st) = Some ss"
    and adds: "MaybeAddNewSymbolPair m str (s_prev (ss ! p_left t)) (Some (p_left t)) (st\<lparr>symbols := ss\<rparr>) = Some st1"
      "MaybeAddNewSymbolPair m str (Some (p_left t)) (s_next (ss ! p_left t)) st1 = Some st'"
    using assms(1) by (auto simp: merge_top_def bind_eq_Some_conv)
  have "symbols st' = ss" using add_agenda [OF adds(1)] add_agenda [OF adds(2)] by simp
  then have "live_symbols (symbols st') \<subseteq> live_symbols (symbols st) - {p_right t}"
    using join_symbols_len [OF ss assms(3)] assms(2) by (auto simp: live_symbols_def stale_def split: if_splits)
  moreover have "p_right t \<in> live_symbols (symbols st)" using assms(2,4) by (simp add: live_symbols_def stale_def)
  ultimately have "live_symbols (symbols st') \<subset> live_symbols (symbols st)" by blast
  then show "card (live_symbols (symbols st')) < card (live_symbols (symbols st))" by (rule psubset_card_mono [OF finite_live])
  show "length (agenda st') \<le> length (agenda st) + 2" using add_agenda [OF adds(1)] add_agenda [OF adds(2)] by simp
qed

function agenda_loop :: "('s SymbolPair list \<Rightarrow> nat) \<Rightarrow> 's Sentencepiece \<Rightarrow> std_string \<Rightarrow> 's Merger \<Rightarrow> 's Merger option" where
  "agenda_loop top_of m str st =
     (if agenda st = [] then Some st
      else
        let k = top_of (agenda st)
        in if k \<ge> length (agenda st) then None
           else
             let t = agenda st ! k;
                 st = st\<lparr>agenda := take k (agenda st) @ drop (Suc k) (agenda st)\<rparr>
             in if p_left t \<ge> length (symbols st) \<or> p_right t \<ge> length (symbols st) then None
                else if stale (symbols st) t then agenda_loop top_of m str st
                else do {
                  st \<leftarrow> merge_top m str t st;
                  agenda_loop top_of m str st })"
  by pat_completeness auto
termination
proof (relation "measure (\<lambda>(_, _, _, st). 3 * card (live_symbols (symbols st)) + length (agenda st))", goal_cases)
  case (2 top_of m str st k t st1)
  then show ?case by (auto simp: min_def)
next
  case (3 top_of m str st k t st1 st2)
  then have "merge_top m str t st1 = Some st2" "\<not> stale (symbols st1) t" "p_left t < length (symbols st1)" "p_right t < length (symbols st1)" by auto
  from merge_top_live [OF this] 3 show ?case by (auto simp: min_def)
qed simp

declare agenda_loop.simps [simp del]

section \<open>The pieces\<close>

fun resegment :: "nat \<Rightarrow> 's Sentencepiece \<Rightarrow> (std_string \<Rightarrow> (std_string \<times> std_string) option) \<Rightarrow> std_string \<Rightarrow> (std_string \<times> int) list option" where
  \<comment> \<open>the parts of a merged piece are shorter, so its length is enough fuel\<close>
  "resegment fuel m merges w = (
     let i = piece_to_id m w
     in if i = - 1 then Some [(w, i)]
        else do {
          p \<leftarrow> piece_at m i;
          if sp_type p \<noteq> UNUSED then Some [(w, i)]
          else (case merges w of
              None \<Rightarrow> Some [(w, i)]
            | Some (a, b) \<Rightarrow> (case fuel of
                0 \<Rightarrow> None
              | Suc fuel \<Rightarrow> do {
                  xs \<leftarrow> resegment fuel m merges a;
                  ys \<leftarrow> resegment fuel m merges b;
                  Some (xs @ ys) })) })"

fun collect :: "nat \<Rightarrow> 's Sentencepiece \<Rightarrow> std_string \<Rightarrow> 's Merger \<Rightarrow> nat option \<Rightarrow> (std_string \<times> int) list option" where
  \<comment> \<open>along the links; each symbol is met at most once, so their number is enough fuel\<close>
  "collect fuel m str st None = Some []"
| "collect 0 m str st (Some index) = None"
| "collect (Suc fuel) m str st (Some index) = (
     if index \<ge> length (symbols st) then None
     else let w = symbol_text str (symbols st ! index)
       in do {
         xs \<leftarrow> resegment (length w) m (rev_merge st) w;
         ys \<leftarrow> collect fuel m str st (s_next (symbols st ! index));
         Some (xs @ ys) })"

fun add_bigrams :: "'s Sentencepiece \<Rightarrow> std_string \<Rightarrow> nat list \<Rightarrow> 's Merger \<Rightarrow> 's Merger option" where
  "add_bigrams m str [] st = Some st"
| "add_bigrams m str (i # is) st = do {
     st \<leftarrow> MaybeAddNewSymbolPair m str (Some (i - 1)) (Some i) st;
     add_bigrams m str is st }"

definition bpe_encode :: "('s SymbolPair list \<Rightarrow> nat) \<Rightarrow> 's Sentencepiece \<Rightarrow> std_string \<Rightarrow> (std_string \<times> int) list option" where
  "bpe_encode top_of m str = (
     let ss = split_symbols str 0 0
     in if ss = [] then Some []
        else do {
          st \<leftarrow> add_bigrams m str [1..<length ss] \<lparr>symbols = ss, agenda = [], rev_merge = (\<lambda>_. None)\<rparr>;
          st \<leftarrow> agenda_loop top_of m str st;
          collect (length ss) m str st (Some 0) })"

definition Sentencepiece_encode :: "('s SymbolPair list \<Rightarrow> nat) \<Rightarrow> 's Sentencepiece \<Rightarrow> std_string \<Rightarrow> int list \<Rightarrow> int list option" where
  \<comment> \<open>\<open>byte_fall_back_\<close> is set\<close>
  "Sentencepiece_encode top_of m str ids = do {
     result \<leftarrow> bpe_encode top_of m str;
     Some (ids @ concat (map (\<lambda>(w, i). if i = unk_id m then map (\<lambda>b. piece_to_id m (byte_to_piece b)) w else [i]) result)) }"

definition find_text :: "std_string \<Rightarrow> std_string \<Rightarrow> nat option" where
  "find_text pat s = List.find (\<lambda>i. take (length pat) (drop i s) = pat) [0..<length s]"

definition Sentencepiece_decode :: "'s Sentencepiece \<Rightarrow> int \<Rightarrow> std_string option" where
  \<comment> \<open>the three bytes are the character that stands for a space; the second argument of \<open>replace\<close> is a length\<close>
  "Sentencepiece_decode m i = do {
     p \<leftarrow> piece_at m i;
     let piece = sp_piece p;
     Some (case find_text [0xE2, 0x96, 0x81] piece of
         Some pos \<Rightarrow> take pos piece @ [32] @ drop (pos + (pos + 3)) piece
       | None \<Rightarrow> piece) }"

end
