(* ===== verification/TokenPieceFacts.thy ===== *)
theory TokenPieceFacts
  imports TokenPiece
begin

text \<open>
  The linked list of symbols and the agenda compute what a reference on the list of the pieces of the text computes: as long
  as two neighbours are a piece of the vocabulary, join those with the highest score, the first of them.
\<close>

section \<open>The vocabulary\<close>

definition leads_to :: "'s Sentencepiece \<Rightarrow> (std_string \<Rightarrow> int option) \<Rightarrow> (PieceType \<Rightarrow> bool) \<Rightarrow> bool" where
  "leads_to m f P \<longleftrightarrow> (\<forall>w i. f w = Some i \<longrightarrow> (\<exists>p. piece_at m i = Some p \<and> sp_piece p = w \<and> P (sp_type p)))"

definition vocab_ok :: "'s Sentencepiece \<Rightarrow> bool" where
  \<comment> \<open>the maps lead to pieces of their kinds, and there is a piece for what is unknown\<close>
  "vocab_ok m \<longleftrightarrow> leads_to m (pieces_map m) (\<lambda>t. t = NORMAL) \<and> leads_to m (reserved_id_map m) (\<lambda>t. t \<noteq> NORMAL) \<and>
     (\<exists>k. unk_id m = int k \<and> (k = 0 \<or> k < length (sentence_pieces m)))"

lemma leads_to_append:
  assumes "leads_to m f P" "sentence_pieces m' = sentence_pieces m @ ps"
  shows "leads_to m' f P"
proof -
  have "piece_at m' i = Some p" if "piece_at m i = Some p" for i p
    using that assms(2) by (auto simp: piece_at_def nth_append nat_less_iff split: if_splits)
  then show ?thesis using assms(1) unfolding leads_to_def by blast
qed

lemma leads_to_insert:
  assumes "leads_to m f P" "piece_at m i = Some p" "sp_piece p = w" "P (sp_type p)"
  shows "leads_to m (map_insert f w i) P"
  using assms by (auto simp: leads_to_def map_insert_def split: option.splits if_splits)

lemma leads_to_cong: "sentence_pieces m' = sentence_pieces m \<Longrightarrow> leads_to m' f P = leads_to m f P"
  by (simp add: leads_to_def piece_at_def)

lemma load_piece_ok:
  assumes ok: "vocab_ok m" and index: "index = length (sentence_pieces m)"
  shows "vocab_ok (load_piece (index, line) m)" "length (sentence_pieces (load_piece (index, line) m)) = Suc index"
proof -
  obtain token score type where line: "line = (token, score, type)" by (cases line)
  let ?p = "\<lparr>sp_piece = base64_decode token, sp_score = score, sp_type = type\<rparr>"
  define m1 where "m1 = m\<lparr>sentence_pieces := sentence_pieces m @ [?p]\<rparr>"
  show "length (sentence_pieces (load_piece (index, line) m)) = Suc index" using index by (simp add: load_piece_def line Let_def)
  have new: "piece_at m1 (int index) = Some ?p" using index by (simp add: piece_at_def m1_def)
  have maps: "leads_to m1 (pieces_map m) (\<lambda>t. t = NORMAL)" "leads_to m1 (reserved_id_map m) (\<lambda>t. t \<noteq> NORMAL)"
    using ok by (auto simp: vocab_ok_def m1_def intro: leads_to_append)
  have at: "leads_to (load_piece (index, line) m) f P = leads_to m1 f P" for f P
    by (rule leads_to_cong) (simp add: load_piece_def line Let_def m1_def)
  have "pieces_map (load_piece (index, line) m) = (if type = NORMAL then map_insert (pieces_map m) (base64_decode token) (int index) else pieces_map m)"
    "reserved_id_map (load_piece (index, line) m) = (if type = NORMAL then reserved_id_map m else map_insert (reserved_id_map m) (base64_decode token) (int index))"
    by (simp_all add: load_piece_def line Let_def)
  then have "leads_to (load_piece (index, line) m) (pieces_map (load_piece (index, line) m)) (\<lambda>t. t = NORMAL)"
    "leads_to (load_piece (index, line) m) (reserved_id_map (load_piece (index, line) m)) (\<lambda>t. t \<noteq> NORMAL)"
    unfolding at using maps leads_to_insert [OF maps(1) new] leads_to_insert [OF maps(2) new] by (cases "type = NORMAL"; simp)+
  moreover have "\<exists>k. unk_id (load_piece (index, line) m) = int k \<and> (k = 0 \<or> k < length (sentence_pieces (load_piece (index, line) m)))"
    using ok index by (auto simp: load_piece_def line Let_def vocab_ok_def)
  ultimately show "vocab_ok (load_piece (index, line) m)" by (simp add: vocab_ok_def)
qed

lemma load_vocab_ok:
  fixes lines :: "(std_string \<times> 'a \<times> PieceType) list"
  shows "vocab_ok (Sentencepiece_load_vocab lines)" "length (sentence_pieces (Sentencepiece_load_vocab lines)) = length lines"
proof -
  have "vocab_ok m \<Longrightarrow> n = length (sentence_pieces m) \<Longrightarrow> vocab_ok (fold load_piece (enumerate n lines) m) \<and>
      length (sentence_pieces (fold load_piece (enumerate n lines) m)) = n + length lines" for n and m :: "'a Sentencepiece"
  proof (induction lines arbitrary: n m)
    case (Cons line lines)
    note ok = load_piece_ok [OF Cons.prems, of line]
    show ?case using Cons.IH [OF ok(1) ok(2) [symmetric]] by simp
  qed simp
  moreover have "vocab_ok \<lparr>unk_id = 0, sentence_pieces = [] :: 'a SentencePiece list, pieces_map = (\<lambda>_. None), reserved_id_map = (\<lambda>_. None)\<rparr>"
    by (simp add: vocab_ok_def leads_to_def)
  ultimately show "vocab_ok (Sentencepiece_load_vocab lines)" "length (sentence_pieces (Sentencepiece_load_vocab lines)) = length lines"
    unfolding Sentencepiece_load_vocab_def by fastforce+
qed

lemma resegment_single:
  assumes "vocab_ok m" "sentence_pieces m \<noteq> []"
  shows "resegment fuel m (\<lambda>_. None) w = Some [(w, piece_to_id m w)]"
proof -
  have "\<exists>p. piece_at m i = Some p" if "reserved_id_map m w = Some i \<or> pieces_map m w = Some i" for i
    using assms(1) that unfolding vocab_ok_def leads_to_def by blast
  moreover have "\<exists>p. piece_at m (unk_id m) = Some p" using assms by (auto simp: vocab_ok_def piece_at_def)
  ultimately have "\<exists>p. piece_at m (piece_to_id m w) = Some p" by (simp add: piece_to_id_def split: option.splits)
  then show ?thesis by (cases fuel) (auto simp: Let_def)
qed

section \<open>The reference\<close>

definition neighbour_score :: "'s Sentencepiece \<Rightarrow> std_string list \<Rightarrow> nat \<Rightarrow> 's option" where
  \<comment> \<open>of the piece that the symbol and the one behind it are together\<close>
  "neighbour_score m ws k = do { i \<leftarrow> pieces_map m (ws ! k @ ws ! (k + 1)); p \<leftarrow> piece_at m i; Some (sp_score p) }"

definition better_neighbour :: "'s::linorder Sentencepiece \<Rightarrow> std_string list \<Rightarrow> nat \<Rightarrow> ('s \<times> nat) option \<Rightarrow> ('s \<times> nat) option" where
  "better_neighbour m ws k best = (case neighbour_score m ws k of
       None \<Rightarrow> best
     | Some s \<Rightarrow> (case best of None \<Rightarrow> Some (s, k) | Some (s', k') \<Rightarrow> if s' < s then Some (s, k) else best))"

definition best_neighbours :: "'s::linorder Sentencepiece \<Rightarrow> std_string list \<Rightarrow> nat option" where
  "best_neighbours m ws = map_option snd (fold (better_neighbour m ws) [0..<length ws - 1] None)"

lemma best_neighbours_fold:
  "case fold (better_neighbour m ws) [0..<n] None of
     None \<Rightarrow> \<forall>j < n. neighbour_score m ws j = None
   | Some (s, k) \<Rightarrow> k < n \<and> neighbour_score m ws k = Some s \<and>
       (\<forall>j < n. \<forall>s'. neighbour_score m ws j = Some s' \<longrightarrow> s' < s \<or> s' = s \<and> k \<le> j)"
proof (induction n)
  case (Suc n)
  obtain r where r: "fold (better_neighbour m ws) [0..<n] None = r" by simp
  have fold: "fold (better_neighbour m ws) [0..<Suc n] None = better_neighbour m ws n r" using r by simp
  show ?case
  proof (cases "neighbour_score m ws n")
    case None
    then show ?thesis using Suc unfolding fold r by (auto simp: better_neighbour_def less_Suc_eq split: option.splits)
  next
    case (Some s)
    show ?thesis
    proof (cases r)
      case None
      then show ?thesis using Suc Some unfolding fold r by (auto simp: better_neighbour_def less_Suc_eq)
    next
      case (Some p)
      obtain s' k' where p: "p = (s', k')" by (cases p)
      have IH: "k' < n" "neighbour_score m ws k' = Some s'"
          "\<And>j t. j < n \<Longrightarrow> neighbour_score m ws j = Some t \<Longrightarrow> t < s' \<or> t = s' \<and> k' \<le> j"
        using Suc unfolding r Some p by auto
      show ?thesis
      proof (cases "s' < s")
        case True
        then have "t < s" if "j < n" "neighbour_score m ws j = Some t" for j t using IH(3) [OF that] by auto
        then show ?thesis using True Some p \<open>neighbour_score m ws n = Some s\<close> unfolding fold by (auto simp: better_neighbour_def less_Suc_eq)
      next
        case False
        then have "s < s' \<or> s = s' \<and> k' \<le> n" using IH(1) by auto
        then show ?thesis using False Some p IH \<open>neighbour_score m ws n = Some s\<close> unfolding fold by (auto simp: better_neighbour_def less_Suc_eq)
      qed
    qed
  qed
qed simp

lemma best_neighbours_iff:
  "best_neighbours m ws = Some k \<longleftrightarrow> k + 1 < length ws \<and> (\<exists>s. neighbour_score m ws k = Some s \<and>
     (\<forall>j s'. j + 1 < length ws \<longrightarrow> neighbour_score m ws j = Some s' \<longrightarrow> s' < s \<or> s' = s \<and> k \<le> j))"
  "best_neighbours m ws = None \<longleftrightarrow> (\<forall>j. j + 1 < length ws \<longrightarrow> neighbour_score m ws j = None)"
proof -
  have lt: "j < length ws - 1 \<longleftrightarrow> j + 1 < length ws" for j by auto
  show "best_neighbours m ws = Some k \<longleftrightarrow> k + 1 < length ws \<and> (\<exists>s. neighbour_score m ws k = Some s \<and>
     (\<forall>j s'. j + 1 < length ws \<longrightarrow> neighbour_score m ws j = Some s' \<longrightarrow> s' < s \<or> s' = s \<and> k \<le> j))"
    using best_neighbours_fold [where m = m and ws = ws and n = "length ws - 1"] unfolding lt best_neighbours_def
    by (auto split: option.splits prod.splits) (metis less_asym' order_antisym less_irrefl)+
  show "best_neighbours m ws = None \<longleftrightarrow> (\<forall>j. j + 1 < length ws \<longrightarrow> neighbour_score m ws j = None)"
    using best_neighbours_fold [where m = m and ws = ws and n = "length ws - 1"] unfolding lt best_neighbours_def
    by (auto split: option.splits prod.splits)
qed

function piece_reference :: "'s::linorder Sentencepiece \<Rightarrow> std_string list \<Rightarrow> std_string list" where
  "piece_reference m ws = (case best_neighbours m ws of None \<Rightarrow> ws | Some k \<Rightarrow> piece_reference m (merge_at k ws))"
  by pat_completeness auto
termination
  by (relation "measure (\<lambda>(_, ws). length ws)") (auto simp: merge_at_def best_neighbours_iff)

declare piece_reference.simps [simp del]

lemma piece_reference_concat: "concat (piece_reference m ws) = concat ws"
proof (induction m ws rule: piece_reference.induct)
  case (1 m ws)
  show ?case
  proof (cases "best_neighbours m ws")
    case (Some k)
    then have "concat (merge_at k ws) = concat ws" using merge_at_concat best_neighbours_iff(1) by blast
    then show ?thesis using 1 [OF Some] Some by (simp add: piece_reference.simps [of _ ws])
  qed (simp add: piece_reference.simps [of _ ws])
qed

end
