(* ===== verification/TokenPieceRun.thy ===== *)
theory TokenPieceRun
  imports TokenPieceFacts
begin

text \<open>
  The invariant of the main loop of \<open>Sentencepiece::bpe_encode\<close>: the symbols that are not empty form a chain that covers the
  text, every pair of the agenda whose symbols are both left are neighbours, and every two neighbours that are a piece
  together are on the agenda with their present size.
\<close>

section \<open>The chain of symbols\<close>

definition head_or :: "nat list \<Rightarrow> nat option \<Rightarrow> nat option" where
  "head_or xs nx = (case xs of [] \<Rightarrow> nx | x # _ \<Rightarrow> Some x)"

definition last_or :: "nat option \<Rightarrow> nat list \<Rightarrow> nat option" where
  "last_or p xs = (if xs = [] then p else Some (last xs))"

lemma head_or_simps [simp]: "head_or [] nx = nx" "head_or (x # xs) nx = Some x" "last_or p [] = p" "last_or p (x # xs) = last_or (Some x) xs"
  by (simp_all add: head_or_def last_or_def)

lemma head_or_append [simp]: "head_or (xs @ ys) nx = head_or xs (head_or ys nx)"
  by (cases xs) simp_all

lemma last_or_snoc [simp]: "last_or p (xs @ [x]) = Some x"
  by (simp add: last_or_def)

fun chain :: "Symbol list \<Rightarrow> nat option \<Rightarrow> nat \<Rightarrow> nat list \<Rightarrow> nat option \<Rightarrow> nat \<Rightarrow> bool" where
  "chain ss p pos [] nx stop \<longleftrightarrow> pos = stop"
| "chain ss p pos (i # is) nx stop \<longleftrightarrow> i < length ss \<and> s_prev (ss ! i) = p \<and> s_next (ss ! i) = head_or is nx \<and> s_pos (ss ! i) = pos \<and>
     0 < s_len (ss ! i) \<and> chain ss (Some i) (pos + s_len (ss ! i)) is nx stop"

lemma chain_append:
  "chain ss p pos (xs @ ys) nx stop \<longleftrightarrow> (\<exists>mid. chain ss p pos xs (head_or ys nx) mid \<and> chain ss (last_or p xs) mid ys nx stop)"
  by (induction xs arbitrary: p pos) auto

lemma chain_cong:
  assumes "length ss' = length ss" "\<forall>i \<in> set is. ss' ! i = ss ! i"
  shows "chain ss' p pos is nx stop = chain ss p pos is nx stop"
  using assms(2) by (induction "is" arbitrary: p pos) (auto simp: assms(1))

lemma chain_bound: "chain ss p pos is nx stop \<Longrightarrow> \<forall>i \<in> set is. i < length ss \<and> 0 < s_len (ss ! i)"
  by (induction "is" arbitrary: p pos) auto

lemma chain_le: "chain ss p pos is nx stop \<Longrightarrow> pos \<le> stop"
  by (induction "is" arbitrary: p pos) fastforce+

definition texts :: "std_string \<Rightarrow> Symbol list \<Rightarrow> nat list \<Rightarrow> std_string list" where
  "texts str ss ls = map (\<lambda>i. symbol_text str (ss ! i)) ls"

lemma chain_concat:
  "chain ss p pos ls nx stop \<Longrightarrow> stop \<le> length str \<Longrightarrow> concat (texts str ss ls) = view str pos (stop - pos)"
proof (induction ls arbitrary: p pos)
  case (Cons i ls)
  have "concat (texts str ss ls) = view str (pos + s_len (ss ! i)) (stop - (pos + s_len (ss ! i)))" using Cons by auto
  moreover have "stop - pos = s_len (ss ! i) + (stop - (pos + s_len (ss ! i)))" using Cons.prems chain_le by fastforce
  ultimately show ?case using Cons.prems(1)
    by (simp add: texts_def symbol_text_def view_def take_add add.commute)
qed (simp add: texts_def view_def)

text \<open>Two neighbours cover the text one after the other.\<close>

lemma neighbours_text:
  assumes "s_pos (ss ! r) = s_pos (ss ! l) + s_len (ss ! l)"
  shows "symbol_text str (ss ! l) @ symbol_text str (ss ! r) = view str (s_pos (ss ! l)) (s_len (ss ! l) + s_len (ss ! r))"
  using assms by (simp add: symbol_text_def view_def take_add add.commute)

section \<open>Joining two symbols\<close>

lemma join_chain:
  assumes ch: "chain ss None 0 (xs @ l # r # ys) None stop" and d: "distinct (xs @ l # r # ys)"
  shows "\<exists>ss'. join_symbols l r ss = Some ss' \<and> length ss' = length ss \<and> chain ss' None 0 (xs @ l # ys) None stop \<and>
    (\<forall>i < length ss. s_len (ss' ! i) = (if i = r then 0 else if i = l then s_len (ss ! l) + s_len (ss ! r) else s_len (ss ! i)) \<and>
      (i \<noteq> r \<longrightarrow> s_pos (ss' ! i) = s_pos (ss ! i)) \<and> (i \<noteq> l \<longrightarrow> s_next (ss' ! i) = s_next (ss ! i)))"
proof -
  obtain a where a: "chain ss None 0 xs (Some l) a" "chain ss (last_or None xs) a (l # r # ys) None stop" using ch by (auto simp: chain_append)
  then have lr: "l < length ss" "r < length ss" "s_next (ss ! l) = Some r" "s_next (ss ! r) = head_or ys None" "0 < s_len (ss ! l)"
      "s_prev (ss ! l) = last_or None xs" "s_pos (ss ! l) = a" "chain ss (Some r) (a + s_len (ss ! l) + s_len (ss ! r)) ys None stop" by auto
  have ne: "l \<noteq> r" "l \<notin> set ys" "r \<notin> set ys" "l \<notin> set xs" "r \<notin> set xs" using d by auto
  define s2 where "s2 = ss[l := (ss ! l)\<lparr>s_len := s_len (ss ! l) + s_len (ss ! r), s_next := s_next (ss ! r)\<rparr>]"
  define s3 where "s3 = (case ys of [] \<Rightarrow> s2 | n # _ \<Rightarrow> s2[n := (s2 ! n)\<lparr>s_prev := Some l\<rparr>])"
  define s4 where "s4 = s3[r := (s3 ! r)\<lparr>s_pos := 0, s_len := 0\<rparr>]"
  have len: "length s2 = length ss" "length s3 = length ss" "length s4 = length ss" by (auto simp: s2_def s3_def s4_def split: list.splits)
  have ys: "\<forall>n \<in> set ys. n < length ss" using chain_bound [OF lr(8)] by blast
  have start: "ss[l := (ss ! l)\<lparr>s_len := s_len (ss ! l) + s_len (ss ! r)\<rparr>,
      l := (ss[l := (ss ! l)\<lparr>s_len := s_len (ss ! l) + s_len (ss ! r)\<rparr>] ! l)\<lparr>s_next := s_next (ss[l := (ss ! l)\<lparr>s_len := s_len (ss ! l) + s_len (ss ! r)\<rparr>] ! r)\<rparr>] = s2"
    using lr(1) ne(1) by (simp add: s2_def)
  have "s_next (s2 ! r) = head_or ys None" using lr(4) ne(1) by (simp add: s2_def)
  then have "join_symbols l r ss = Some s4"
    unfolding join_symbols_def Let_def start using ys len(1) by (cases ys) (simp_all add: s3_def s4_def)
  moreover
  have at: "s2 ! i = (if i = l then (ss ! l)\<lparr>s_len := s_len (ss ! l) + s_len (ss ! r), s_next := s_next (ss ! r)\<rparr> else ss ! i)"
      "s3 ! i = (if head_or ys None = Some i then (s2 ! i)\<lparr>s_prev := Some l\<rparr> else s2 ! i)"
      "s4 ! i = (if i = r then (s3 ! i)\<lparr>s_pos := 0, s_len := 0\<rparr> else s3 ! i)" if "i < length ss" for i
    using that len(1,2) ys lr(1,2) by (auto simp: s2_def s3_def s4_def nth_list_update split: list.splits)
  have other: "head_or ys None \<noteq> Some l" "head_or ys None \<noteq> Some r" using ne by (auto simp: head_or_def split: list.splits)
  have fields: "s_len (s4 ! i) = (if i = r then 0 else if i = l then s_len (ss ! l) + s_len (ss ! r) else s_len (ss ! i))"
      "i \<noteq> r \<Longrightarrow> s_pos (s4 ! i) = s_pos (ss ! i)" "i \<noteq> l \<Longrightarrow> s_next (s4 ! i) = s_next (ss ! i)" if "i < length ss" for i
    unfolding at [OF that] using other ne(1) by simp_all
  have same: "s4 ! i = ss ! i" if "i < length ss" "i \<noteq> l" "i \<noteq> r" "head_or ys None \<noteq> Some i" for i
    unfolding at [OF that(1)] using that by simp
  have "chain s4 None 0 (xs @ l # ys) None stop"
  proof -
    have "s4 ! i = ss ! i" if "i \<in> set xs" for i
    proof (rule same)
      show "i < length ss" using chain_bound [OF a(1)] that by blast
      show "head_or ys None \<noteq> Some i" using that d by (auto simp: head_or_def split: list.splits)
    qed (use that ne in auto)
    then have "chain s4 None 0 xs (Some l) a" using a(1) chain_cong [of s4 ss xs] len(3) by auto
    moreover have "s4 ! l = (ss ! l)\<lparr>s_len := s_len (ss ! l) + s_len (ss ! r), s_next := head_or ys None\<rparr>"
      unfolding at [OF lr(1)] using ne(1) other lr(4) by simp
    moreover have "chain s4 (Some l) (a + s_len (ss ! l) + s_len (ss ! r)) ys None stop"
    proof (cases ys)
      case (Cons n zs)
      have n: "n < length ss" "n \<noteq> l" "n \<noteq> r" "n \<notin> set zs" using lr(8) Cons ne d by auto
      have "s4 ! n = (ss ! n)\<lparr>s_prev := Some l\<rparr>" unfolding at [OF n(1)] using n by (simp add: Cons)
      moreover have "s4 ! i = ss ! i" if "i \<in> set zs" for i using that n ne ys by (intro same) (auto simp: Cons)
      ultimately show ?thesis using lr(8) chain_cong [of s4 ss zs] len(3) by (simp add: Cons)
    qed (use lr(8) in simp)
    ultimately show ?thesis using lr len by (simp add: chain_append) (metis add.assoc)
  qed
  ultimately show ?thesis using len(3) fields by (intro exI [of _ s4]) blast
qed

section \<open>The agenda\<close>

definition entry_ok :: "'s Sentencepiece \<Rightarrow> std_string \<Rightarrow> Symbol list \<Rightarrow> 's SymbolPair \<Rightarrow> bool" where
  "entry_ok m str ss t \<longleftrightarrow> p_left t < length ss \<and> p_right t < length ss \<and>
     (p_left t \<in> live_symbols ss \<and> p_right t \<in> live_symbols ss \<longrightarrow> s_next (ss ! p_left t) = Some (p_right t) \<and>
        (\<exists>i p. pieces_map m (view str (s_pos (ss ! p_left t)) (p_size t)) = Some i \<and> piece_at m i = Some p \<and> p_score t = sp_score p))"

definition entry_for :: "Symbol list \<Rightarrow> nat \<Rightarrow> nat \<Rightarrow> 's SymbolPair \<Rightarrow> bool" where
  "entry_for ss l r t \<longleftrightarrow> p_left t = l \<and> p_right t = r \<and> p_size t = s_len (ss ! l) + s_len (ss ! r)"

definition covered :: "'s Sentencepiece \<Rightarrow> std_string \<Rightarrow> Symbol list \<Rightarrow> 's SymbolPair list \<Rightarrow> nat \<Rightarrow> nat \<Rightarrow> bool" where
  "covered m str ss ag l r \<longleftrightarrow> pieces_map m (symbol_text str (ss ! l) @ symbol_text str (ss ! r)) \<noteq> None \<longrightarrow> (\<exists>t \<in> set ag. entry_for ss l r t)"

definition chain_inv :: "std_string \<Rightarrow> Symbol list \<Rightarrow> nat list \<Rightarrow> bool" where
  "chain_inv str ss ls \<longleftrightarrow> ls \<noteq> [] \<and> hd ls = 0 \<and> sorted_wrt (<) ls \<and> chain ss None 0 ls None (length str) \<and> live_symbols ss = set ls"

definition merger_inv :: "'s Sentencepiece \<Rightarrow> std_string \<Rightarrow> nat list \<Rightarrow> 's Merger \<Rightarrow> bool" where
  "merger_inv m str ls st \<longleftrightarrow> chain_inv str (symbols st) ls \<and> rev_merge st = (\<lambda>_. None) \<and>
     (\<forall>t \<in> set (agenda st). entry_ok m str (symbols st) t) \<and>
     (\<forall>k. k + 1 < length ls \<longrightarrow> covered m str (symbols st) (agenda st) (ls ! k) (ls ! (k + 1)))"

lemma chain_nth:
  assumes "chain ss p pos ls nx stop" "k + 1 < length ls"
  shows "ls ! k < length ss" "ls ! (k + 1) < length ss" "s_next (ss ! (ls ! k)) = Some (ls ! (k + 1))" "s_prev (ss ! (ls ! (k + 1))) = Some (ls ! k)"
    "s_pos (ss ! (ls ! (k + 1))) = s_pos (ss ! (ls ! k)) + s_len (ss ! (ls ! k))"
proof -
  have "ls = take k ls @ ls ! k # ls ! (k + 1) # drop (k + 2) ls"
    using assms(2) by (metis Cons_nth_drop_Suc Suc_eq_plus1 Suc_lessD add_2_eq_Suc' append_take_drop_id)
  then have "chain ss p pos (take k ls @ ls ! k # ls ! (k + 1) # drop (k + 2) ls) nx stop" using assms(1) by simp
  then obtain mid where "chain ss (last_or p (take k ls)) mid (ls ! k # ls ! (k + 1) # drop (k + 2) ls) nx stop" by (auto simp only: chain_append)
  then show "ls ! k < length ss" "ls ! (k + 1) < length ss" "s_next (ss ! (ls ! k)) = Some (ls ! (k + 1))" "s_prev (ss ! (ls ! (k + 1))) = Some (ls ! k)"
    "s_pos (ss ! (ls ! (k + 1))) = s_pos (ss ! (ls ! k)) + s_len (ss ! (ls ! k))" by simp_all
qed

text \<open>What adding a pair does.\<close>

lemma add_pair:
  assumes ok: "vocab_ok m" and lr: "l < length (symbols st)" "r < length (symbols st)"
    and live_symbols: "s_next (symbols st ! l) = Some r" "s_pos (symbols st ! r) = s_pos (symbols st ! l) + s_len (symbols st ! l)"
  shows "\<exists>new. MaybeAddNewSymbolPair m str (Some l) (Some r) st = Some (st\<lparr>agenda := agenda st @ new\<rparr>) \<and>
    (\<forall>t \<in> set new. entry_ok m str (symbols st) t) \<and> covered m str (symbols st) (agenda st @ new) l r"
proof -
  let ?sl = "symbols st ! l" and ?sr = "symbols st ! r"
  let ?piece = "view str (s_pos ?sl) (s_len ?sl + s_len ?sr)"
  have both: "symbol_text str ?sl @ symbol_text str ?sr = ?piece" by (rule neighbours_text [OF live_symbols(2)])
  show ?thesis
  proof (cases "pieces_map m ?piece")
    case None
    then show ?thesis using lr both
      by (intro exI [of _ "[]"]) (simp add: MaybeAddNewSymbolPair_def Let_def covered_def)
  next
    case (Some i)
    then obtain p where p: "piece_at m i = Some p" "sp_type p = NORMAL" using ok unfolding vocab_ok_def leads_to_def by blast
    let ?t = "\<lparr>p_left = l, p_right = r, p_score = sp_score p, p_size = s_len ?sl + s_len ?sr\<rparr>"
    have "MaybeAddNewSymbolPair m str (Some l) (Some r) st = Some (st\<lparr>agenda := agenda st @ [?t]\<rparr>)"
      using Some p lr by (simp add: MaybeAddNewSymbolPair_def Let_def)
    moreover have "entry_ok m str (symbols st) ?t" using Some p lr live_symbols(1) by (simp add: entry_ok_def)
    moreover have "covered m str (symbols st) (agenda st @ [?t]) l r" by (auto simp: covered_def entry_for_def)
    ultimately show ?thesis by (intro exI [of _ "[?t]"]) simp
  qed
qed

text \<open>Dropping a stale pair.\<close>

lemma drop_stale:
  assumes I: "merger_inv m str ls st" and k: "k < length (agenda st)" and s: "stale (symbols st) (agenda st ! k)"
  shows "merger_inv m str ls (st\<lparr>agenda := take k (agenda st) @ drop (Suc k) (agenda st)\<rparr>)"
proof -
  let ?ag = "take k (agenda st) @ drop (Suc k) (agenda st)"
  have ag: "agenda st = take k (agenda st) @ agenda st ! k # drop (Suc k) (agenda st)" using k by (simp add: id_take_nth_drop)
  have sub: "set (agenda st) = set ?ag \<union> {agenda st ! k}" using arg_cong [OF ag, of set] by auto
  have "covered m str (symbols st) ?ag (ls ! j) (ls ! (j + 1))" if j: "j + 1 < length ls" for j
  proof -
    have "\<not> entry_for (symbols st) (ls ! j) (ls ! (j + 1)) (agenda st ! k)"
    proof
      assume e: "entry_for (symbols st) (ls ! j) (ls ! (j + 1)) (agenda st ! k)"
      have "ls ! j \<in> live_symbols (symbols st)" "ls ! (j + 1) \<in> live_symbols (symbols st)" using I j by (auto simp: merger_inv_def chain_inv_def)
      then show False using s e by (auto simp: stale_def entry_for_def live_symbols_def)
    qed
    then show ?thesis using I j sub by (fastforce simp: merger_inv_def covered_def)
  qed
  moreover have "\<forall>t \<in> set ?ag. entry_ok m str (symbols st) t" using I sub by (auto simp: merger_inv_def)
  ultimately show ?thesis using I by (simp add: merger_inv_def)
qed

text \<open>The two pairs that are added behind a merge.\<close>

lemma chain_ends:
  assumes "chain ss p pos ls nx stop" "ls \<noteq> []"
  shows "s_prev (ss ! hd ls) = p" "s_next (ss ! last ls) = nx"
  using assms by (induction ls arbitrary: p pos; auto)+

lemma chain_last:
  assumes "chain ss p pos ls nx stop" "j < length ls" "\<not> j + 1 < length ls"
  shows "s_next (ss ! (ls ! j)) = nx"
proof -
  have "ls \<noteq> []" "j = length ls - 1" using assms(2,3) by auto
  then show ?thesis using chain_ends(2) [OF assms(1)] by (simp add: last_conv_nth)
qed

lemma add_left:
  assumes ok: "vocab_ok m" and ch: "chain (symbols st) None 0 ls None stop" and j: "j < length ls"
  shows "\<exists>new. MaybeAddNewSymbolPair m str (s_prev (symbols st ! (ls ! j))) (Some (ls ! j)) st = Some (st\<lparr>agenda := agenda st @ new\<rparr>) \<and>
    (\<forall>t \<in> set new. entry_ok m str (symbols st) t) \<and> (0 < j \<longrightarrow> covered m str (symbols st) (agenda st @ new) (ls ! (j - 1)) (ls ! j))"
proof (cases j)
  case 0
  then have "s_prev (symbols st ! (ls ! j)) = None" using chain_ends(1) [OF ch] j by (simp add: hd_conv_nth)
  then show ?thesis using 0 by (intro exI [of _ "[]"]) (simp add: MaybeAddNewSymbolPair_def)
next
  case (Suc i)
  note n = chain_nth [OF ch, of i, unfolded Suc_eq_plus1 [symmetric] Suc [symmetric], OF j]
  show ?thesis using add_pair [OF ok n(1,2,3,5), of str] n(4) Suc by simp
qed

lemma add_right:
  assumes ok: "vocab_ok m" and ch: "chain (symbols st) None 0 ls None stop" and j: "j < length ls"
  shows "\<exists>new. MaybeAddNewSymbolPair m str (Some (ls ! j)) (s_next (symbols st ! (ls ! j))) st = Some (st\<lparr>agenda := agenda st @ new\<rparr>) \<and>
    (\<forall>t \<in> set new. entry_ok m str (symbols st) t) \<and> (j + 1 < length ls \<longrightarrow> covered m str (symbols st) (agenda st @ new) (ls ! j) (ls ! (j + 1)))"
proof (cases "j + 1 < length ls")
  case False
  then show ?thesis using chain_last [OF ch j] False by (intro exI [of _ "[]"]) (simp add: MaybeAddNewSymbolPair_def)
next
  case True
  note n = chain_nth [OF ch True]
  show ?thesis using add_pair [OF ok n(1,2,3,5), of str] n(3) True by simp
qed

text \<open>A pair that is not stale is two neighbours, with the score of the piece they are together.\<close>

lemma fresh_pair:
  assumes I: "merger_inv m str ls st" and t: "t \<in> set (agenda st)" and s: "\<not> stale (symbols st) t"
  shows "\<exists>j. j + 1 < length ls \<and> p_left t = ls ! j \<and> p_right t = ls ! (j + 1) \<and> neighbour_score m (texts str (symbols st) ls) j = Some (p_score t)"
proof -
  have e: "entry_ok m str (symbols st) t" using I t by (simp add: merger_inv_def)
  have c: "chain_inv str (symbols st) ls" using I by (simp add: merger_inv_def)
  have lr: "p_left t \<in> live_symbols (symbols st)" "p_right t \<in> live_symbols (symbols st)" "p_size t = s_len (symbols st ! p_left t) + s_len (symbols st ! p_right t)"
    using e s by (auto simp: entry_ok_def live_symbols_def stale_def)
  then obtain i p where ip: "s_next (symbols st ! p_left t) = Some (p_right t)" "pieces_map m (view str (s_pos (symbols st ! p_left t)) (p_size t)) = Some i"
      "piece_at m i = Some p" "p_score t = sp_score p" using e by (auto simp: entry_ok_def)
  obtain j where j: "j < length ls" "p_left t = ls ! j" using lr(1) c by (auto simp: chain_inv_def in_set_conv_nth)
  have ch: "chain (symbols st) None 0 ls None (length str)" using c by (simp add: chain_inv_def)
  have j1: "j + 1 < length ls"
  proof (rule ccontr)
    assume "\<not> j + 1 < length ls"
    then show False using chain_last [OF ch j(1)] ip(1) j(2) by simp
  qed
  note n = chain_nth [OF ch j1]
  have r: "p_right t = ls ! (j + 1)" using n(3) ip(1) j(2) by simp
  have "symbol_text str (symbols st ! (ls ! j)) @ symbol_text str (symbols st ! (ls ! (j + 1))) = view str (s_pos (symbols st ! p_left t)) (p_size t)"
    using neighbours_text [OF n(5)] lr(3) j(2) r by simp
  then have "neighbour_score m (texts str (symbols st) ls) j = Some (p_score t)"
    using ip j1 by (simp add: neighbour_score_def texts_def)
  then show ?thesis using j1 j(2) r by blast
qed

lemma covered_score:
  assumes I: "merger_inv m str ls st" and j: "j + 1 < length ls" and s: "neighbour_score m (texts str (symbols st) ls) j = Some s"
  shows "\<exists>t \<in> set (agenda st). p_left t = ls ! j \<and> p_right t = ls ! (j + 1) \<and> p_score t = s \<and> \<not> stale (symbols st) t"
proof -
  have c: "chain_inv str (symbols st) ls" using I by (simp add: merger_inv_def)
  have "pieces_map m (symbol_text str (symbols st ! (ls ! j)) @ symbol_text str (symbols st ! (ls ! (j + 1)))) \<noteq> None"
    using s j by (auto simp: neighbour_score_def texts_def bind_eq_Some_conv)
  then obtain t where t: "t \<in> set (agenda st)" "entry_for (symbols st) (ls ! j) (ls ! (j + 1)) t"
    using I j by (auto simp: merger_inv_def covered_def)
  have "ls ! j \<in> live_symbols (symbols st)" "ls ! (j + 1) \<in> live_symbols (symbols st)" using c j by (auto simp: chain_inv_def)
  then have ns: "\<not> stale (symbols st) t" using t(2) by (auto simp: stale_def entry_for_def live_symbols_def)
  have "distinct ls" using c strict_sorted_iff by (auto simp: chain_inv_def)
  then have "p_score t = s" using fresh_pair [OF I t(1) ns] t(2) s j by (auto simp: entry_for_def nth_eq_iff_index_eq)
  then show ?thesis using t ns by (auto simp: entry_for_def)
qed

section \<open>A merge\<close>

lemma chain_invD:
  assumes "chain_inv str ss ls"
  shows "distinct ls" "live_symbols ss = set ls" "chain ss None 0 ls None (length str)" "sorted_wrt (<) ls" "ls \<noteq> []" "hd ls = 0"
  using assms strict_sorted_iff by (auto simp: chain_inv_def)

lemma covered_mono: "covered m str ss ag l r \<Longrightarrow> set ag \<subseteq> set ag' \<Longrightarrow> covered m str ss ag' l r"
  by (auto simp: covered_def)

lemma texts_join:
  assumes "symbol_text str (ss' ! l) = symbol_text str (ss ! l) @ symbol_text str (ss ! r)"
    and "\<forall>i \<in> set xs \<union> set ys. symbol_text str (ss' ! i) = symbol_text str (ss ! i)"
  shows "texts str ss' (xs @ l # ys) = merge_at (length xs) (texts str ss (xs @ l # r # ys))"
proof -
  have "texts str ss' xs = texts str ss xs" "texts str ss' ys = texts str ss ys" using assms(2) by (auto simp: texts_def)
  then show ?thesis using merge_at_parts [of "texts str ss xs"] assms(1) by (simp add: texts_def)
qed

lemma join_inv:
  assumes c: "chain_inv str ss ls" and j: "j + 1 < length ls"
  shows "\<exists>ss'. join_symbols (ls ! j) (ls ! (j + 1)) ss = Some ss' \<and> length ss' = length ss \<and>
    chain_inv str ss' (take (j + 1) ls @ drop (j + 2) ls) \<and>
    texts str ss' (take (j + 1) ls @ drop (j + 2) ls) = merge_at j (texts str ss ls) \<and>
    (\<forall>i < length ss. i \<noteq> ls ! j \<longrightarrow> i \<noteq> ls ! (j + 1) \<longrightarrow> s_len (ss' ! i) = s_len (ss ! i) \<and> s_pos (ss' ! i) = s_pos (ss ! i) \<and> s_next (ss' ! i) = s_next (ss ! i)) \<and>
    s_pos (ss' ! (ls ! j)) = s_pos (ss ! (ls ! j))"
proof -
  let ?l = "ls ! j" and ?r = "ls ! (j + 1)" and ?ls = "take (j + 1) ls @ drop (j + 2) ls"
  have parts: "ls = take j ls @ ?l # ?r # drop (j + 2) ls" "?ls = take j ls @ ?l # drop (j + 2) ls"
    using j by (metis Cons_nth_drop_Suc Suc_eq_plus1 Suc_lessD add_2_eq_Suc' append_take_drop_id, simp add: take_Suc_conv_app_nth)
  have d: "distinct ls" and s: "sorted_wrt (<) ls" and ch: "chain ss None 0 ls None (length str)" and lv: "live_symbols ss = set ls" and ls: "ls \<noteq> []" "hd ls = 0"
    using c strict_sorted_iff by (auto simp: chain_inv_def)
  obtain ss' where ss': "join_symbols ?l ?r ss = Some ss'" "length ss' = length ss" "chain ss' None 0 (take j ls @ ?l # drop (j + 2) ls) None (length str)"
      "\<And>i. i < length ss \<Longrightarrow> s_len (ss' ! i) = (if i = ?r then 0 else if i = ?l then s_len (ss ! ?l) + s_len (ss ! ?r) else s_len (ss ! i)) \<and>
        (i \<noteq> ?r \<longrightarrow> s_pos (ss' ! i) = s_pos (ss ! i)) \<and> (i \<noteq> ?l \<longrightarrow> s_next (ss' ! i) = s_next (ss ! i))"
    using join_chain [of ss "take j ls" ?l ?r "drop (j + 2) ls" "length str"] ch d parts(1) by metis
  note n = chain_nth [OF ch j]
  have lr: "?l \<in> live_symbols ss" "?r \<in> live_symbols ss" "?l \<noteq> ?r" using lv j d by (auto simp: nth_eq_iff_index_eq)
  have "live_symbols ss' = live_symbols ss - {?r}" using ss'(2,4) lr by (auto simp: live_symbols_def split: if_splits)
  moreover have "set ls - {?r} = set ?ls"
  proof -
    have "distinct (take j ls @ ?l # ?r # drop (j + 2) ls)" using d parts(1) by simp
    then show ?thesis unfolding parts(2) by (subst parts(1)) auto
  qed
  ultimately have "live_symbols ss' = set ?ls" using lv by simp
  moreover have "sorted_wrt (<) ?ls"
  proof -
    have "sorted_wrt (<) (take j ls @ ?l # ?r # drop (j + 2) ls)" using s parts(1) by simp
    then show ?thesis unfolding parts(2) by (auto simp: sorted_wrt_append)
  qed
  moreover have "?ls \<noteq> []" "hd ?ls = 0" using ls by (cases ls; simp)+
  moreover have "chain ss' None 0 ?ls None (length str)" using ss'(3) unfolding parts(2) .
  ultimately have inv: "chain_inv str ss' ?ls" unfolding chain_inv_def by blast
  have joined: "texts str ss' ?ls = merge_at j (texts str ss ls)"
  proof -
    have same: "symbol_text str (ss' ! i) = symbol_text str (ss ! i)" if "i \<in> set ls" "i \<noteq> ?l" "i \<noteq> ?r" for i
    proof -
      have "i < length ss" using that(1) unfolding lv [symmetric] live_symbols_def by simp
      from ss'(4) [OF this] show ?thesis using that(2,3) by (simp add: symbol_text_def)
    qed
    have "distinct (take j ls @ ?l # ?r # drop (j + 2) ls)" using d parts(1) by simp
    then have out: "?l \<notin> set (take j ls)" "?r \<notin> set (take j ls)" "?l \<notin> set (drop (j + 2) ls)" "?r \<notin> set (drop (j + 2) ls)" by auto
    have "symbol_text str (ss' ! ?l) = symbol_text str (ss ! ?l) @ symbol_text str (ss ! ?r)"
    proof -
      have "s_len (ss' ! ?l) = s_len (ss ! ?l) + s_len (ss ! ?r)" "s_pos (ss' ! ?l) = s_pos (ss ! ?l)" using ss'(4) [OF n(1)] lr(3) by presburger+
      then have "symbol_text str (ss' ! ?l) = view str (s_pos (ss ! ?l)) (s_len (ss ! ?l) + s_len (ss ! ?r))" by (simp only: symbol_text_def)
      then show ?thesis by (simp only: neighbours_text [OF n(5)])
    qed
    moreover have "symbol_text str (ss' ! i) = symbol_text str (ss ! i)" if "i \<in> set (take j ls) \<union> set (drop (j + 2) ls)" for i
    proof (rule same)
      show "i \<in> set ls" using that set_take_subset [of j ls] set_drop_subset [of "j + 2" ls] by blast
      show "i \<noteq> ?l" using that out by blast
      show "i \<noteq> ?r" using that out by blast
    qed
    ultimately have "texts str ss' (take j ls @ ?l # drop (j + 2) ls) = merge_at (length (take j ls)) (texts str ss (take j ls @ ?l # ?r # drop (j + 2) ls))"
      by (intro texts_join) auto
    moreover have "length (take j ls) = j" using j by simp
    ultimately show ?thesis by (simp only: parts(2) parts(1) [symmetric])
  qed
  have "s_len (ss' ! i) = s_len (ss ! i) \<and> s_pos (ss' ! i) = s_pos (ss ! i) \<and> s_next (ss' ! i) = s_next (ss ! i)"
    if "i < length ss" "i \<noteq> ?l" "i \<noteq> ?r" for i using ss'(4) [OF that(1)] that(2,3) by simp
  moreover have "s_pos (ss' ! ?l) = s_pos (ss ! ?l)" using ss'(4) [OF n(1)] lr(3) by blast
  ultimately show ?thesis by (intro exI [of _ ss'] conjI allI impI ss'(1,2) inv joined) blast+
qed

text \<open>The loop takes a pair from the agenda that is not stale.\<close>

lemma merge_fresh:
  assumes ok: "vocab_ok m" and I: "merger_inv m str ls st" and k: "k < length (agenda st)" and s: "\<not> stale (symbols st) (agenda st ! k)"
  shows "\<exists>j st'. j + 1 < length ls \<and> p_left (agenda st ! k) = ls ! j \<and> p_right (agenda st ! k) = ls ! (j + 1) \<and>
    merge_top m str (agenda st ! k) (st\<lparr>agenda := take k (agenda st) @ drop (Suc k) (agenda st)\<rparr>) = Some st' \<and>
    merger_inv m str (take (j + 1) ls @ drop (j + 2) ls) st' \<and>
    texts str (symbols st') (take (j + 1) ls @ drop (j + 2) ls) = merge_at j (texts str (symbols st) ls)"
proof -
  let ?t = "agenda st ! k" and ?ag = "take k (agenda st) @ drop (Suc k) (agenda st)" and ?ss = "symbols st"
  have t: "?t \<in> set (agenda st)" using k by simp
  have ag: "agenda st = take k (agenda st) @ ?t # drop (Suc k) (agenda st)" using k by (simp add: id_take_nth_drop)
  have sub: "set (agenda st) = set ?ag \<union> {?t}" using arg_cong [OF ag, of set] by auto
  obtain j where j: "j + 1 < length ls" "p_left ?t = ls ! j" "p_right ?t = ls ! (j + 1)" using fresh_pair [OF I t s] by blast
  let ?l = "ls ! j" and ?r = "ls ! (j + 1)" and ?ls = "take (j + 1) ls @ drop (j + 2) ls"
  have c: "chain_inv str ?ss ls" using I by (simp add: merger_inv_def)
  obtain ss' where ss': "join_symbols ?l ?r ?ss = Some ss'" "length ss' = length ?ss" "chain_inv str ss' ?ls"
      "texts str ss' ?ls = merge_at j (texts str ?ss ls)"
      "\<And>i. i < length ?ss \<Longrightarrow> i \<noteq> ?l \<Longrightarrow> i \<noteq> ?r \<Longrightarrow> s_len (ss' ! i) = s_len (?ss ! i) \<and> s_pos (ss' ! i) = s_pos (?ss ! i) \<and> s_next (ss' ! i) = s_next (?ss ! i)"
      "s_pos (ss' ! ?l) = s_pos (?ss ! ?l)"
    using join_inv [OF c j(1)] by blast
  note d = chain_invD(1) [OF c] and lv = chain_invD(2) [OF c] and ch = chain_invD(3) [OF c]
  note d' = chain_invD(1) [OF ss'(3)] and lv' = chain_invD(2) [OF ss'(3)] and ch' = chain_invD(3) [OF ss'(3)]
  note n = chain_nth [OF ch j(1)]
  have at: "?ls ! q = (if q \<le> j then ls ! q else ls ! Suc q)" if "q < length ?ls" for q
    using that j(1) by (auto simp: nth_append)
  have len: "length ?ls = length ls - 1" using j(1) by simp
  have r': "?r \<notin> set ?ls"
  proof
    assume "?r \<in> set ?ls"
    then obtain q where q: "q < length ?ls" "?ls ! q = ?r" by (auto simp only: in_set_conv_nth)
    then have "(if q \<le> j then q else Suc q) = j + 1" using at [OF q(1)] j(1) len d by (auto simp: nth_eq_iff_index_eq split: if_splits)
    then show False by (auto split: if_splits)
  qed
  have old: "covered m str ss' (((?ag) @ new1) @ new2) (ls ! q) (ls ! (q + 1))"
    if q: "q + 1 < length ls" "q \<noteq> j" "q \<noteq> j + 1" "q + 1 \<noteq> j" for q new1 new2
  proof -
    note nq = chain_nth [OF ch q(1)]
    have "ls ! q \<noteq> ?l" "ls ! q \<noteq> ?r" "ls ! (q + 1) \<noteq> ?l" "ls ! (q + 1) \<noteq> ?r" using q j(1) d by (auto simp: nth_eq_iff_index_eq)
    then have same: "symbol_text str (ss' ! (ls ! q)) = symbol_text str (?ss ! (ls ! q))" "symbol_text str (ss' ! (ls ! (q + 1))) = symbol_text str (?ss ! (ls ! (q + 1)))"
        "s_len (ss' ! (ls ! q)) = s_len (?ss ! (ls ! q))" "s_len (ss' ! (ls ! (q + 1))) = s_len (?ss ! (ls ! (q + 1)))"
      using ss'(5) [OF nq(1)] ss'(5) [OF nq(2)] by (simp_all add: symbol_text_def)
    have "covered m str ?ss (agenda st) (ls ! q) (ls ! (q + 1))" using I q(1) by (simp add: merger_inv_def)
    moreover have "\<not> entry_for ?ss (ls ! q) (ls ! (q + 1)) ?t" using \<open>ls ! q \<noteq> ?l\<close> j(2) by (simp add: entry_for_def)
    ultimately show ?thesis using sub unfolding covered_def entry_for_def same by auto
  qed
  define st1 where "st1 = st\<lparr>agenda := ?ag, symbols := ss'\<rparr>"
  have st1: "symbols st1 = ss'" "agenda st1 = ?ag" "rev_merge st1 = rev_merge st" by (simp_all add: st1_def)
  have lj: "?ls ! j = ?l" "j < length ?ls" using at [of j] len j(1) by auto
  obtain new1 where new1: "MaybeAddNewSymbolPair m str (s_prev (ss' ! ?l)) (Some ?l) st1 = Some (st1\<lparr>agenda := agenda st1 @ new1\<rparr>)"
      "\<forall>t \<in> set new1. entry_ok m str ss' t" "0 < j \<longrightarrow> covered m str ss' (agenda st1 @ new1) (?ls ! (j - 1)) ?l"
    using add_left [OF ok, of st1 ?ls "length str" j str] ch' lj st1(1) by metis
  obtain new2 where new2: "MaybeAddNewSymbolPair m str (Some ?l) (s_next (ss' ! ?l)) (st1\<lparr>agenda := agenda st1 @ new1\<rparr>) =
        Some (st1\<lparr>agenda := (agenda st1 @ new1) @ new2\<rparr>)"
      "\<forall>t \<in> set new2. entry_ok m str ss' t" "j + 1 < length ?ls \<longrightarrow> covered m str ss' ((agenda st1 @ new1) @ new2) ?l (?ls ! (j + 1))"
    using add_right [OF ok, of "st1\<lparr>agenda := agenda st1 @ new1\<rparr>" ?ls "length str" j str] ch' lj st1(1) by auto
  let ?st' = "st1\<lparr>agenda := (agenda st1 @ new1) @ new2\<rparr>"
  have "merge_top m str ?t (st\<lparr>agenda := ?ag\<rparr>) = Some ?st'"
    using ss'(1) j(2,3) new1(1) new2(1) by (simp add: merge_top_def st1_def)
  moreover have "entry_ok m str ss' t" if "t \<in> set ?ag" for t
  proof -
    have e: "entry_ok m str ?ss t" using I that sub by (simp add: merger_inv_def)
    have "s_next (ss' ! p_left t) = Some (p_right t) \<and> s_pos (ss' ! p_left t) = s_pos (?ss ! p_left t)"
      if "p_left t \<in> live_symbols ss'" "p_right t \<in> live_symbols ss'"
    proof -
      have in_ls: "p_left t \<in> set ls" "p_right t \<in> set ls" using that unfolding lv' by (auto dest: in_set_takeD in_set_dropD)
      have "p_left t \<noteq> ?r" "p_right t \<noteq> ?r" using that r' unfolding lv' by auto
      moreover have nx: "s_next (?ss ! p_left t) = Some (p_right t)" using e in_ls lv by (simp add: entry_ok_def)
      ultimately have "p_left t \<noteq> ?l" using n(3) by auto
      then show ?thesis using ss'(5) [of "p_left t"] \<open>p_left t \<noteq> ?r\<close> nx e by (simp add: entry_ok_def)
    qed
    moreover have "p_left t \<in> live_symbols ?ss \<and> p_right t \<in> live_symbols ?ss" if "p_left t \<in> live_symbols ss'" "p_right t \<in> live_symbols ss'"
      using that unfolding lv' lv by (auto dest: in_set_takeD in_set_dropD)
    ultimately show ?thesis using e ss'(2) by (simp add: entry_ok_def)
  qed
  moreover have "covered m str ss' (agenda ?st') (?ls ! q) (?ls ! (q + 1))" if q: "q + 1 < length ?ls" for q
  proof -
    consider "q = j" | "q + 1 = j" | "q + 1 < j" | "j < q" by linarith
    then show ?thesis
    proof cases
      case 1
      then show ?thesis using new2(3) q lj by simp
    next
      case 2
      then have "covered m str ss' (agenda st1 @ new1) (?ls ! q) (?ls ! (q + 1))" using new1(3) lj by auto
      then show ?thesis by (rule covered_mono) auto
    next
      case 3
      then show ?thesis using old [of q] at [of q] at [of "q + 1"] q len st1(2) by auto
    next
      case 4
      then show ?thesis using old [of "Suc q"] at [of q] at [of "q + 1"] q len st1(2) by auto
    qed
  qed
  ultimately show ?thesis using j ss'(3,4) I new1(2) new2(2) st1
    by (intro exI [of _ j] exI [of _ ?st']) (auto simp: merger_inv_def)
qed

end
