(* ===== verification/TokenPieceLoop.thy ===== *)
theory TokenPieceLoop
  imports TokenPieceRun
begin

text \<open>
  The main loop of \<open>Sentencepiece::bpe_encode\<close> from the first symbols to the pieces: it ends, and what it leaves is what the
  reference makes of the characters.
\<close>

section \<open>The loop\<close>

definition top_ok :: "('s::linorder SymbolPair list \<Rightarrow> nat) \<Rightarrow> bool" where
  \<comment> \<open>what \<open>std::priority_queue\<close> promises: \<open>top\<close> is an element that no other one is above\<close>
  "top_ok top_of \<longleftrightarrow> (\<forall>ag. ag \<noteq> [] \<longrightarrow> top_of ag < length ag \<and> (\<forall>h \<in> set ag. \<not> lower (ag ! top_of ag) h))"

lemma merge_top_length:
  assumes "merge_top m str t st = Some st'" "p_left t < length (symbols st)"
  shows "length (symbols st') = length (symbols st)"
proof -
  obtain ss st1 where ss: "join_symbols (p_left t) (p_right t) (symbols st) = Some ss"
    and adds: "MaybeAddNewSymbolPair m str (s_prev (ss ! p_left t)) (Some (p_left t)) (st\<lparr>symbols := ss\<rparr>) = Some st1"
      "MaybeAddNewSymbolPair m str (Some (p_left t)) (s_next (ss ! p_left t)) st1 = Some st'"
    using assms(1) by (auto simp: merge_top_def bind_eq_Some_conv)
  then show ?thesis using add_agenda [OF adds(1)] add_agenda [OF adds(2)] join_symbols_len(1) [OF ss assms(2)] by simp
qed

lemma finished_reference:
  assumes I: "merger_inv m str ls st" and "agenda st = []"
  shows "piece_reference m (texts str (symbols st) ls) = texts str (symbols st) ls"
proof -
  have "neighbour_score m (texts str (symbols st) ls) j = None" if "j + 1 < length (texts str (symbols st) ls)" for j
    using covered_score [OF I, of j] that assms(2) by (cases "neighbour_score m (texts str (symbols st) ls) j") (auto simp: texts_def)
  then have "best_neighbours m (texts str (symbols st) ls) = None" by (simp add: best_neighbours_iff(2))
  then show ?thesis by (simp add: piece_reference.simps [of m "texts str (symbols st) ls"])
qed

lemma top_best:
  assumes I: "merger_inv m str ls st" and top: "top_ok top_of" and ag: "agenda st \<noteq> []"
    and t: "t = agenda st ! top_of (agenda st)" and s: "\<not> stale (symbols st) t" and j: "j + 1 < length ls" "p_left t = ls ! j"
  shows "best_neighbours m (texts str (symbols st) ls) = Some j"
proof -
  let ?ws = "texts str (symbols st) ls"
  have mem: "t \<in> set (agenda st)" and high: "\<And>h. h \<in> set (agenda st) \<Longrightarrow> \<not> lower t h"
    using top ag unfolding t top_ok_def by auto
  have c: "chain_inv str (symbols st) ls" using I by (simp add: merger_inv_def)
  note d = chain_invD(1) [OF c] and sorted = chain_invD(4) [OF c]
  obtain i where i: "i + 1 < length ls" "p_left t = ls ! i" "neighbour_score m ?ws i = Some (p_score t)"
    using fresh_pair [OF I mem s] by blast
  then have "i = j" using d j nth_eq_iff_index_eq [OF d, of i j] by simp
  moreover have "s' < p_score t \<or> s' = p_score t \<and> j \<le> q" if q: "q + 1 < length ls" "neighbour_score m ?ws q = Some s'" for q s'
  proof -
    obtain h where h: "h \<in> set (agenda st)" "p_left h = ls ! q" "p_score h = s'" using covered_score [OF I q] by blast
    then have "s' < p_score t \<or> s' = p_score t \<and> ls ! j \<le> ls ! q" using high [OF h(1)] j(2) by (auto simp: lower_def)
    moreover have "ls ! q < ls ! j" if "q < j" using sorted_wrt_nth_less [OF sorted that] j(1) by simp
    ultimately show ?thesis using leI by fastforce
  qed
  moreover have "length ?ws = length ls" by (simp add: texts_def)
  ultimately show ?thesis using i(1,3) unfolding best_neighbours_iff(1) by auto
qed

lemma loop_reference:
  assumes "vocab_ok m" "top_ok top_of" "merger_inv m str ls st"
  shows "\<exists>ls' st'. agenda_loop top_of m str st = Some st' \<and> merger_inv m str ls' st' \<and> length (symbols st') = length (symbols st) \<and>
    texts str (symbols st') ls' = piece_reference m (texts str (symbols st) ls)"
  using assms
proof (induction top_of m str st arbitrary: ls rule: agenda_loop.induct)
  case (1 top_of m str st)
  note ok = 1(3) and top = 1(4) and I = 1(5)
  show ?case
  proof (cases "agenda st = []")
    case True
    then show ?thesis using I finished_reference [OF I True] by (intro exI [of _ ls] exI [of _ st]) (simp add: agenda_loop.simps)
  next
    case False
    define k where "k = top_of (agenda st)"
    define t where "t = agenda st ! k"
    define st1 where "st1 = st\<lparr>agenda := take k (agenda st) @ drop (Suc k) (agenda st)\<rparr>"
    have k: "k < length (agenda st)" using top False by (simp add: top_ok_def k_def)
    then have "t \<in> set (agenda st)" by (simp add: t_def)
    then have e: "p_left t < length (symbols st)" "p_right t < length (symbols st)" using I by (auto simp: merger_inv_def entry_ok_def)
    have st1: "symbols st1 = symbols st" by (simp add: st1_def)
    note loop = agenda_loop.simps [of top_of m str st, unfolded Let_def, folded k_def, folded t_def, folded st1_def]
    show ?thesis
    proof (cases "stale (symbols st) t")
      case True
      have I1: "merger_inv m str ls st1" unfolding st1_def by (rule drop_stale [OF I k]) (use True in \<open>simp add: t_def\<close>)
      have "agenda_loop top_of m str st = agenda_loop top_of m str st1" using loop False k e True st1 by simp
      moreover have "\<exists>ls' st'. agenda_loop top_of m str st1 = Some st' \<and> merger_inv m str ls' st' \<and> length (symbols st') = length (symbols st1) \<and>
          texts str (symbols st') ls' = piece_reference m (texts str (symbols st1) ls)"
        by (rule 1(1) [OF False k_def _ t_def st1_def _ _ ok top I1]) (use k e True st1 in auto)
      ultimately show ?thesis by (simp add: st1)
    next
      case fresh: False
      obtain j st2 where j: "j + 1 < length ls" "p_left t = ls ! j" "merge_top m str t st1 = Some st2"
          "merger_inv m str (take (j + 1) ls @ drop (j + 2) ls) st2"
          "texts str (symbols st2) (take (j + 1) ls @ drop (j + 2) ls) = merge_at j (texts str (symbols st) ls)"
        using merge_fresh [OF ok I k fresh [unfolded t_def]] unfolding t_def st1_def by blast
      have best: "best_neighbours m (texts str (symbols st) ls) = Some j"
        by (rule top_best [OF I top False _ fresh j(1,2)]) (simp add: t_def k_def)
      have len: "length (symbols st2) = length (symbols st)" using merge_top_length [OF j(3)] e(1) st1 by simp
      have "agenda_loop top_of m str st = agenda_loop top_of m str st2" using loop False k e fresh st1 j(3) by simp
      moreover have "\<exists>ls' st'. agenda_loop top_of m str st2 = Some st' \<and> merger_inv m str ls' st' \<and> length (symbols st') = length (symbols st2) \<and>
          texts str (symbols st') ls' = piece_reference m (texts str (symbols st2) (take (j + 1) ls @ drop (j + 2) ls))"
        by (rule 1(2) [OF False k_def _ t_def st1_def _ _ _ ok top j(4)]) (use k e fresh st1 j(3) in auto)
      moreover have "piece_reference m (texts str (symbols st2) (take (j + 1) ls @ drop (j + 2) ls)) = piece_reference m (texts str (symbols st) ls)"
        unfolding j(5) using best by (simp add: piece_reference.simps [of m "texts str (symbols st) ls"])
      ultimately show ?thesis by (simp add: len)
    qed
  qed
qed

section \<open>The first symbols\<close>

lemma one_char_len_pos: "0 < one_char_len c"
proof -
  have "unat c < 2 ^ 8" using unsigned_less [of c] by simp
  then have "unat (drop_bit 4 c) < 16" unfolding unsigned_drop_bit_eq by (simp add: drop_bit_eq_div take_bit_eq_mod)
  then have "unat (drop_bit 4 c) \<in> set [0..<16]" by simp
  then show ?thesis unfolding one_char_len_def by (simp add: upt_rec numeral_eq_Suc) auto
qed

fun characters :: "std_string \<Rightarrow> std_string list" where
  \<comment> \<open>the text cut by the lengths the first bytes announce\<close>
  "characters [] = []"
| "characters (b # bs) = take (one_char_len b) (b # bs) # characters (drop (one_char_len b - 1) bs)"

lemma characters_concat: "concat (characters bs) = bs"
proof (induction bs rule: characters.induct)
  case (2 b bs)
  have "take (one_char_len b) (b # bs) = b # take (one_char_len b - 1) bs" using one_char_len_pos [of b] by (cases "one_char_len b") simp_all
  then show ?case using 2 by simp
qed simp

lemma characters_drop:
  assumes "pos < length str"
  shows "characters (drop pos str) = view str pos (min (length str - pos) (one_char_len (str ! pos))) #
    characters (drop (pos + min (length str - pos) (one_char_len (str ! pos))) str)"
proof -
  let ?n = "one_char_len (str ! pos)"
  have d: "drop pos str = str ! pos # drop (Suc pos) str" using assms by (simp add: Cons_nth_drop_Suc)
  have n: "0 < ?n" by (rule one_char_len_pos)
  have "drop (?n - 1) (drop (Suc pos) str) = drop (pos + min (length str - pos) ?n) str"
    using n assms by (cases "?n \<le> length str - pos") (auto simp: min_def add.commute)
  moreover have "take ?n (drop pos str) = view str pos (min (length str - pos) ?n)" by (simp add: view_def min_def)
  ultimately show ?thesis by (simp add: d)
qed

lemma split_chain:
  assumes "pos \<le> length str" "length pre = index"
  shows "chain (pre @ split_symbols str pos index) (if index = 0 then None else Some (index - 1)) pos
      [index..<index + length (split_symbols str pos index)] None (length str) \<and>
    texts str (pre @ split_symbols str pos index) [index..<index + length (split_symbols str pos index)] = characters (drop pos str)"
  using assms
proof (induction str pos index arbitrary: pre rule: split_symbols.induct)
  case (1 str pos index)
  show ?case
  proof (cases "pos < length str")
    case False
    then have "split_symbols str pos index = []" by (simp add: split_symbols.simps [of str pos])
    then show ?thesis using 1(2) False by (simp add: texts_def)
  next
    case True
    define mblen where "mblen = min (length str - pos) (one_char_len (str ! pos))"
    have mb: "0 < mblen" "pos + mblen \<le> length str" using True one_char_len_pos [of "str ! pos"] by (simp_all add: mblen_def)
    define s where "s = \<lparr>s_prev = (if index = 0 then None else Some (index - 1)),
        s_next = (if length str \<le> pos + mblen then None else Some (index + 1)), s_pos = pos, s_len = mblen\<rparr>"
    define rest where "rest = split_symbols str (pos + mblen) (index + 1)"
    have split: "split_symbols str pos index = s # rest"
      using True mb by (simp add: split_symbols.simps [of str pos] mblen_def [symmetric] s_def rest_def)
    have IH: "chain ((pre @ [s]) @ rest) (Some index) (pos + mblen) [index + 1..<index + 1 + length rest] None (length str)"
        "texts str ((pre @ [s]) @ rest) [index + 1..<index + 1 + length rest] = characters (drop (pos + mblen) str)"
      using 1(1) [OF True mblen_def _ mb(2), of "pre @ [s]"] mb(1) 1(3) by (simp_all add: rest_def)
    have ups: "[index..<index + length (s # rest)] = index # [index + 1..<index + 1 + length rest]" by (simp add: upt_rec)
    have "rest = [] \<longleftrightarrow> length str \<le> pos + mblen"
      using one_char_len_pos [of "str ! (pos + mblen)"] by (simp add: rest_def split_symbols.simps [of str "pos + mblen"] Let_def min_def)
    then have nx: "s_next s = head_or [index + 1..<index + 1 + length rest] None" by (auto simp: s_def upt_rec)
    have at: "(pre @ s # rest) ! index = s" using 1(3) by (simp add: nth_append)
    have "chain (pre @ s # rest) (if index = 0 then None else Some (index - 1)) pos (index # [index + 1..<index + 1 + length rest]) None (length str)"
      using IH(1) nx at mb(1) 1(3) by (simp add: s_def)
    moreover have "texts str (pre @ s # rest) (index # [index + 1..<index + 1 + length rest]) = characters (drop pos str)"
      using IH(2) at characters_drop [OF True] by (simp add: texts_def symbol_text_def s_def mblen_def)
    ultimately show ?thesis unfolding split ups by simp
  qed
qed

lemma split_inv:
  assumes "str \<noteq> []"
  defines "ss \<equiv> split_symbols str 0 0"
  shows "ss \<noteq> []" "chain_inv str ss [0..<length ss]" "texts str ss [0..<length ss] = characters str"
proof -
  have c: "chain ss None 0 [0..<length ss] None (length str)" "texts str ss [0..<length ss] = characters str"
    using split_chain [of 0 str "[]" 0] by (simp_all add: ss_def)
  show ne: "ss \<noteq> []" using c(1) assms(1) by (cases ss) auto
  have "live_symbols ss = set [0..<length ss]" using chain_bound [OF c(1)] by (auto simp: live_symbols_def)
  then show "chain_inv str ss [0..<length ss]" using c(1) ne by (simp add: chain_inv_def)
  show "texts str ss [0..<length ss] = characters str" by (rule c(2))
qed

section \<open>The first pairs\<close>

lemma bigrams_added:
  assumes ok: "vocab_ok m" and ch: "chain (symbols st) None 0 [0..<n] None stop" and idx: "\<forall>i \<in> set js. 1 \<le> i \<and> i < n"
  shows "\<exists>new. add_bigrams m str js st = Some (st\<lparr>agenda := agenda st @ new\<rparr>) \<and> (\<forall>t \<in> set new. entry_ok m str (symbols st) t) \<and>
    (\<forall>i \<in> set js. covered m str (symbols st) (agenda st @ new) (i - 1) i)"
  using ch idx
proof (induction js arbitrary: st)
  case (Cons i js)
  have i: "1 \<le> i" "i < n" using Cons.prems(2) by auto
  have n: "i - 1 < length (symbols st)" "i < length (symbols st)" "s_next (symbols st ! (i - 1)) = Some i"
      "s_pos (symbols st ! i) = s_pos (symbols st ! (i - 1)) + s_len (symbols st ! (i - 1))"
    using chain_nth [OF Cons.prems(1), of "i - 1"] i by simp_all
  obtain new where new: "MaybeAddNewSymbolPair m str (Some (i - 1)) (Some i) st = Some (st\<lparr>agenda := agenda st @ new\<rparr>)"
      "\<forall>t \<in> set new. entry_ok m str (symbols st) t" "covered m str (symbols st) (agenda st @ new) (i - 1) i"
    using add_pair [OF ok n] by blast
  obtain more where more: "add_bigrams m str js (st\<lparr>agenda := agenda st @ new\<rparr>) = Some (st\<lparr>agenda := (agenda st @ new) @ more\<rparr>)"
      "\<forall>t \<in> set more. entry_ok m str (symbols st) t" "\<forall>i \<in> set js. covered m str (symbols st) ((agenda st @ new) @ more) (i - 1) i"
    using Cons.IH [of "st\<lparr>agenda := agenda st @ new\<rparr>"] Cons.prems by auto
  have "covered m str (symbols st) ((agenda st @ new) @ more) (i - 1) i" by (rule covered_mono [OF new(3)]) auto
  then show ?case using new more by (intro exI [of _ "new @ more"]) auto
qed (simp add: exI [of _ "[]"])

lemma start_inv:
  assumes ok: "vocab_ok m" and "str \<noteq> []"
  defines "ss \<equiv> split_symbols str 0 0"
  shows "\<exists>st. add_bigrams m str [1..<length ss] \<lparr>symbols = ss, agenda = [], rev_merge = (\<lambda>_. None)\<rparr> = Some st \<and>
    merger_inv m str [0..<length ss] st \<and> symbols st = ss"
proof -
  have inv: "chain_inv str ss [0..<length ss]" unfolding ss_def by (rule split_inv(2) [OF assms(2)])
  let ?st = "\<lparr>symbols = ss, agenda = [], rev_merge = (\<lambda>_. None)\<rparr> :: 'a Merger"
  obtain new where new: "add_bigrams m str [1..<length ss] ?st = Some (?st\<lparr>agenda := new\<rparr>)" "\<forall>t \<in> set new. entry_ok m str ss t"
      "\<forall>i \<in> set [1..<length ss]. covered m str ss new (i - 1) i"
    using bigrams_added [OF ok, of ?st "length ss" "length str" "[1..<length ss]" str] chain_invD(3) [OF inv] by auto
  have "covered m str ss new ([0..<length ss] ! k) ([0..<length ss] ! (k + 1))" if "k + 1 < length [0..<length ss]" for k
    using new(3) [rule_format, of "k + 1"] that by simp
  then show ?thesis using new(1,2) inv by (intro exI [of _ "?st\<lparr>agenda := new\<rparr>"]) (simp add: merger_inv_def)
qed

section \<open>The pieces\<close>

lemma collect_pieces:
  assumes "vocab_ok m" "sentence_pieces m \<noteq> []" "rev_merge st = (\<lambda>_. None)"
  shows "chain (symbols st) p pos ls None stop \<Longrightarrow> length ls \<le> fuel \<Longrightarrow>
    collect fuel m str st (head_or ls None) = Some (map (\<lambda>w. (w, piece_to_id m w)) (texts str (symbols st) ls))"
proof (induction ls arbitrary: p pos fuel)
  case (Cons i ls)
  obtain f where f: "fuel = Suc f" using Cons.prems(2) by (cases fuel) auto
  have "collect f m str st (head_or ls None) = Some (map (\<lambda>w. (w, piece_to_id m w)) (texts str (symbols st) ls))"
    using Cons.IH [of "Some i" "pos + s_len (symbols st ! i)" f] Cons.prems f by simp
  then show ?case using Cons.prems(1) resegment_single [OF assms(1,2)] assms(3) by (simp add: f texts_def Let_def)
qed (simp add: texts_def)

lemma encode_pieces:
  assumes ok: "vocab_ok m" "sentence_pieces m \<noteq> []" and top: "top_ok top_of"
  shows "bpe_encode top_of m str = Some (map (\<lambda>w. (w, piece_to_id m w)) (piece_reference m (characters str)))"
proof (cases "str = []")
  case True
  have "best_neighbours m [] = None" by (simp add: best_neighbours_iff(2))
  then show ?thesis using True by (simp add: bpe_encode_def split_symbols.simps [of "[]"] piece_reference.simps [of m "[]"])
next
  case False
  define ss where "ss = split_symbols str 0 0"
  note split = split_inv [OF False, folded ss_def]
  obtain st where st: "add_bigrams m str [1..<length ss] \<lparr>symbols = ss, agenda = [], rev_merge = (\<lambda>_. None)\<rparr> = Some st"
      "merger_inv m str [0..<length ss] st" "symbols st = ss"
    using start_inv [OF ok(1) False] unfolding ss_def by blast
  obtain ls st' where run: "agenda_loop top_of m str st = Some st'" "merger_inv m str ls st'" "length (symbols st') = length ss"
      "texts str (symbols st') ls = piece_reference m (characters str)"
    using loop_reference [OF ok(1) top st(2)] unfolding st(3) split(3) by blast
  have c: "chain_inv str (symbols st') ls" and r: "rev_merge st' = (\<lambda>_. None)" using run(2) by (simp_all add: merger_inv_def)
  note ch = chain_invD(3) [OF c]
  have "length ls \<le> length ss"
  proof -
    have "card (set ls) \<le> card {..<length ss}" using chain_bound [OF ch] run(3) by (intro card_mono) auto
    then show ?thesis using distinct_card [OF chain_invD(1) [OF c]] by simp
  qed
  moreover have "head_or ls None = Some 0" using chain_invD(5,6) [OF c] by (cases ls) simp_all
  ultimately have "collect (length ss) m str st' (Some 0) = Some (map (\<lambda>w. (w, piece_to_id m w)) (piece_reference m (characters str)))"
    using collect_pieces [OF ok r ch] run(4) by metis
  then show ?thesis using split(1) st(1) run(1) by (simp add: bpe_encode_def ss_def [symmetric] Let_def)
qed

lemma piece_reference_final: "best_neighbours m (piece_reference m ws) = None"
proof (induction m ws rule: piece_reference.induct)
  case (1 m ws)
  show ?case
  proof (cases "best_neighbours m ws")
    case None
    then show ?thesis by (simp add: piece_reference.simps [of m ws])
  next
    case (Some k)
    then show ?thesis using 1 [OF Some] by (simp add: piece_reference.simps [of m ws])
  qed
qed

section \<open>What the class computes\<close>

text \<open>One way to choose among the pairs: the first of the agenda that no other one is above.\<close>

definition first_top :: "'s::linorder SymbolPair list \<Rightarrow> nat" where
  "first_top ag = (case List.find (\<lambda>i. \<forall>h \<in> set ag. \<not> lower (ag ! i) h) [0..<length ag] of Some i \<Rightarrow> i | None \<Rightarrow> 0)"

lemma lower_trans: "lower a b \<Longrightarrow> lower b c \<Longrightarrow> lower a c"
  by (auto simp: lower_def)

lemma top_exists: "ag \<noteq> [] \<Longrightarrow> \<exists>t \<in> set ag. \<forall>h \<in> set ag. \<not> lower t h"
proof (induction ag rule: list_nonempty_induct)
  case (single x)
  then show ?case by (simp add: lower_def)
next
  case (cons x xs)
  then obtain t where t: "t \<in> set xs" "\<forall>h \<in> set xs. \<not> lower t h" by blast
  show ?case
  proof (cases "lower t x")
    case True
    then have "\<forall>h \<in> set xs. \<not> lower x h" using t(2) lower_trans by blast
    then show ?thesis by (simp add: lower_def)
  next
    case False
    then show ?thesis using t by auto
  qed
qed

lemma first_top_ok: "top_ok first_top"
proof -
  have "first_top ag < length ag \<and> (\<forall>h \<in> set ag. \<not> lower (ag ! first_top ag) h)" if ne: "ag \<noteq> []" for ag :: "'a SymbolPair list"
  proof -
    obtain t where t: "t \<in> set ag" "\<forall>h \<in> set ag. \<not> lower t h" using top_exists [OF ne] by blast
    then obtain i where "i \<in> set [0..<length ag]" "\<forall>h \<in> set ag. \<not> lower (ag ! i) h" by (auto simp: in_set_conv_nth)
    then obtain j where "List.find (\<lambda>i. \<forall>h \<in> set ag. \<not> lower (ag ! i) h) [0..<length ag] = Some j"
      by (cases "List.find (\<lambda>i. \<forall>h \<in> set ag. \<not> lower (ag ! i) h) [0..<length ag]") (auto simp: find_None_iff)
    then show ?thesis using find_in by (fastforce simp: first_top_def)
  qed
  then show ?thesis by (simp add: top_ok_def)
qed

text \<open>
  C39: \<open>Sentencepiece::encode\<close> on the linked symbols and the agenda, for any way in which \<open>std::priority_queue\<close> chooses among
  equal pairs, computes what the reference computes on the list of the characters: join the two neighbours whose text is the
  normal piece of the highest score, the first of them, until no two neighbours are a normal piece. The pieces are the text,
  in order; each gives its id, and an unknown one the ids of its bytes.
\<close>

theorem sentencepiece_reference:
  assumes "top_ok top_of" "lines \<noteq> []" "m = Sentencepiece_load_vocab lines"
  shows "\<exists>ws. ws = piece_reference m (characters str) \<and> concat ws = str \<and> best_neighbours m ws = None \<and>
    bpe_encode top_of m str = Some (map (\<lambda>w. (w, piece_to_id m w)) ws) \<and>
    Sentencepiece_encode top_of m str ids = Some (ids @ concat (map (\<lambda>w.
      if piece_to_id m w = unk_id m then map (\<lambda>b. piece_to_id m (byte_to_piece b)) w else [piece_to_id m w]) ws))"
proof -
  have "sentence_pieces m \<noteq> []" using load_vocab_ok(2) [of lines] assms(2,3) by auto
  then have "bpe_encode top_of m str = Some (map (\<lambda>w. (w, piece_to_id m w)) (piece_reference m (characters str)))"
    using encode_pieces [OF _ _ assms(1)] load_vocab_ok(1) assms(3) by blast
  then show ?thesis
    by (simp add: Sentencepiece_encode_def piece_reference_concat characters_concat piece_reference_final comp_def cong: if_cong)
qed

definition demo_vocab :: "(std_string \<times> int \<times> PieceType) list" where
  \<comment> \<open>\<open>a\<close>, \<open>b\<close>, \<open>ab\<close> and \<open>ba\<close>, behind the unknown piece\<close>
  "demo_vocab = map (\<lambda>(w, score, t). (base64_encode (ascii w), score, t))
     [(''?'', 0, UNKNOWN), (''a'', -3, NORMAL), (''b'', -3, NORMAL), (''ab'', -2, NORMAL), (''ba'', -1, NORMAL)]"

lemma demo_chars: "characters (ascii ''abab'') = [[97], [98], [97], [98]]"
  by (simp add: ascii_def one_char_len_def)

lemma demo_loaded: "Sentencepiece_load_vocab demo_vocab = \<lparr>unk_id = 0,
    sentence_pieces = map (\<lambda>(w, score, t). \<lparr>sp_piece = w, sp_score = score, sp_type = t\<rparr>)
     [([63], 0, UNKNOWN), ([97], -3, NORMAL), ([98], -3, NORMAL), ([97, 98], -2, NORMAL), ([98, 97], -1, NORMAL)],
    pieces_map = [[97] \<mapsto> 1, [98] \<mapsto> 2, [97, 98] \<mapsto> 3, [98, 97] \<mapsto> 4], reserved_id_map = [[63] \<mapsto> 0]\<rparr>"
  by (simp add: Sentencepiece_load_vocab_def demo_vocab_def load_piece_def base64_roundtrip Let_def map_insert_def ascii_def del: base64_encode.simps)
lemma demo_step:
  assumes "m = Sentencepiece_load_vocab demo_vocab"
  shows "best_neighbours m [[97], [98], [97], [98]] = Some 1" "best_neighbours m [[97], [98, 97], [98]] = None"
  unfolding assms demo_loaded
  by (simp_all add: best_neighbours_def better_neighbour_def neighbour_score_def piece_at_def upt_rec)

theorem sentencepiece_reference_witness:
  "Sentencepiece_encode first_top (Sentencepiece_load_vocab demo_vocab) (ascii ''abab'') [7] = Some [7, 1, 4, 2]"
proof -
  let ?m = "Sentencepiece_load_vocab demo_vocab"
  have "demo_vocab \<noteq> []" by (simp add: demo_vocab_def)
  moreover have "piece_reference ?m (characters (ascii ''abab'')) = [[97], [98, 97], [98]]"
    by (simp add: demo_chars piece_reference.simps [of ?m "[[97], [98], [97], [98]]"] piece_reference.simps [of ?m "[[97], [98, 97], [98]]"]
        demo_step merge_at_def)
  moreover have "unk_id ?m = 0" "piece_to_id ?m [97] = 1" "piece_to_id ?m [98, 97] = 4" "piece_to_id ?m [98] = 2"
    by (simp_all add: demo_loaded piece_to_id_def)
  ultimately show ?thesis
    using sentencepiece_reference [OF first_top_ok _ refl, of demo_vocab "ascii ''abab''" "[7]"] by simp
qed

end
