(* ===== verification/TokenBpe.thy ===== *)
theory TokenBpe
  imports TokenVocab
begin

unbundle bit_operations_syntax

text \<open>
  The class \<open>HuggingfaceTokenizer\<close>: byte pair encoding of the pieces a regular expression cuts from the text, with every
  byte written as a printable character. A \<open>wchar_t\<close> is a number, the code point of its character.
\<close>

type_synonym wstring = "nat list"

section \<open>UTF-8\<close>

text \<open>\<open>std::codecvt_utf8\<close> with \<open>std::wstring_convert\<close>: what is not well-formed raises an exception.\<close>

definition utf8_of :: "nat \<Rightarrow> std_string option" where
  "utf8_of c = map_option (map word_of_nat) (
     if c < 0x80 then Some [c]
     else if c < 0x800 then Some [0xC0 + c div 64, 0x80 + c mod 64]
     else if 0xD800 \<le> c \<and> c < 0xE000 then None
     else if c < 0x10000 then Some [0xE0 + c div 4096, 0x80 + c div 64 mod 64, 0x80 + c mod 64]
     else if c < 0x110000 then Some [0xF0 + c div 262144, 0x80 + c div 4096 mod 64, 0x80 + c div 64 mod 64, 0x80 + c mod 64]
     else None)"

fun take_cont :: "nat \<Rightarrow> nat \<Rightarrow> std_string \<Rightarrow> (nat \<times> std_string) option" where
  \<comment> \<open>so many bytes that continue a character\<close>
  "take_cont 0 v s = Some (v, s)"
| "take_cont (Suc k) v [] = None"
| "take_cont (Suc k) v (c # s) = (if 0x80 \<le> unat c \<and> unat c < 0xC0 then take_cont k (64 * v + (unat c - 0x80)) s else None)"

definition utf8_char :: "std_string \<Rightarrow> (nat \<times> std_string) option" where
  "utf8_char s = (case s of
     [] \<Rightarrow> None
   | c # s \<Rightarrow>
       let n = unat c in
       if n < 0x80 then Some (n, s)
       else if 0xC2 \<le> n \<and> n < 0xE0 then take_cont 1 (n - 0xC0) s
       else if 0xE0 \<le> n \<and> n < 0xF0 then do {
         (v, s) \<leftarrow> take_cont 2 (n - 0xE0) s;
         if v < 0x800 \<or> 0xD800 \<le> v \<and> v < 0xE000 then None else Some (v, s) }
       else if 0xF0 \<le> n \<and> n < 0xF5 then do {
         (v, s) \<leftarrow> take_cont 3 (n - 0xF0) s;
         if v < 0x10000 \<or> v \<ge> 0x110000 then None else Some (v, s) }
       else None)"

lemma take_cont_shorter: "take_cont k v s = Some (v', s') \<Longrightarrow> length s' \<le> length s"
  by (induction k v s rule: take_cont.induct) (auto split: if_splits)

lemma utf8_char_shorter: "utf8_char s = Some (c, s') \<Longrightarrow> length s' < length s"
  by (cases s) (auto simp: utf8_char_def Let_def bind_eq_Some_conv less_Suc_eq_le split: if_splits dest!: take_cont_shorter)

function utf8_to_wstring :: "std_string \<Rightarrow> wstring option" where
  "utf8_to_wstring s =
     (if s = [] then Some []
      else do {
        (c, s') \<leftarrow> utf8_char s;
        cs \<leftarrow> utf8_to_wstring s';
        Some (c # cs) })"
  by pat_completeness auto
termination
  by (relation "measure length") (auto dest: utf8_char_shorter)

declare utf8_to_wstring.simps [simp del]

definition wstring_to_utf8 :: "wstring \<Rightarrow> std_string option" where
  "wstring_to_utf8 w = map_option concat (those (map utf8_of w))"

text \<open>Reading takes back what writing made.\<close>

lemma byte_less: "unat (b :: 8 word) < 256"
  using unsigned_less [of b, where ?'a = nat] by simp

lemma byte_nat: "n < 256 \<Longrightarrow> unat (word_of_nat n :: 8 word) = n"
  by (simp add: unsigned_of_nat take_bit_nat_eq_self)

lemma take_cont_byte: "r < 64 \<Longrightarrow> take_cont (Suc k) v (word_of_nat (0x80 + r) # s) = take_cont k (64 * v + r) s"
  by (simp add: byte_nat del: of_nat_add)

lemma utf8_char_head:
  assumes "n < 256"
  shows "utf8_char (word_of_nat n # s) = (
       if n < 0x80 then Some (n, s)
       else if 0xC2 \<le> n \<and> n < 0xE0 then take_cont 1 (n - 0xC0) s
       else if 0xE0 \<le> n \<and> n < 0xF0 then do {
         (v, s) \<leftarrow> take_cont 2 (n - 0xE0) s;
         if v < 0x800 \<or> 0xD800 \<le> v \<and> v < 0xE000 then None else Some (v, s) }
       else if 0xF0 \<le> n \<and> n < 0xF5 then do {
         (v, s) \<leftarrow> take_cont 3 (n - 0xF0) s;
         if v < 0x10000 \<or> v \<ge> 0x110000 then None else Some (v, s) }
       else None)"
  using assms by (simp add: utf8_char_def byte_nat Let_def del: of_nat_add)

lemma utf8_char_of:
  assumes "utf8_of c = Some bs"
  shows "bs \<noteq> []" "utf8_char (bs @ s) = Some (c, s)"
proof -
  show "bs \<noteq> []" using assms by (auto simp: utf8_of_def split: if_splits)
  let ?r = "c mod 64" and ?q = "c div 64 mod 64" and ?p = "c div 4096 mod 64"
  have r: "?r < 64" "?q < 64" "?p < 64" by simp_all
  have parts: "64 * (c div 64) + ?r = c" "64 * (c div 4096) + ?q = c div 64" "64 * (c div 262144) + ?p = c div 4096"
    using div_mult2_eq [of c 64 64] div_mult2_eq [of c 4096 64] by simp_all
  have cont: "take_cont 1 v (word_of_nat (0x80 + a) # t) = Some (64 * v + a, t)" if "a < 64" for v a t
    using take_cont_byte [OF that, of 0 v t] by simp
  have cont2: "take_cont 2 v (word_of_nat (0x80 + a) # word_of_nat (0x80 + b) # t) = Some (64 * (64 * v + a) + b, t)" if "a < 64" "b < 64" for v a b t
    using take_cont_byte [OF that(1), of 1 v] cont [OF that(2)] by (simp add: numeral_2_eq_2)
  have cont3: "take_cont 3 v (word_of_nat (0x80 + a) # word_of_nat (0x80 + b) # word_of_nat (0x80 + d) # t) =
      Some (64 * (64 * (64 * v + a) + b) + d, t)" if "a < 64" "b < 64" "d < 64" for v a b d t
    using take_cont_byte [OF that(1), of 2 v] cont2 [OF that(2,3)] by (simp add: numeral_3_eq_3 numeral_2_eq_2)
  consider (one) "c < 0x80" | (two) "0x80 \<le> c" "c < 0x800" | (three) "0x800 \<le> c" "c < 0x10000" "\<not> (0xD800 \<le> c \<and> c < 0xE000)"
    | (four) "0x10000 \<le> c" "c < 0x110000" using assms by (auto simp: utf8_of_def split: if_splits)
  then show "utf8_char (bs @ s) = Some (c, s)"
  proof cases
    case one
    then have "bs = [word_of_nat c]" using assms by (simp add: utf8_of_def)
    then show ?thesis using one utf8_char_head [of c s] by simp
  next
    case two
    then have bs: "bs = [word_of_nat (0xC0 + c div 64), word_of_nat (0x80 + ?r)]" using assms by (simp add: utf8_of_def)
    have b: "2 \<le> c div 64" "c div 64 < 32" using two by (simp_all add: less_mult_imp_div_less div_le_mono [of 128 c 64, simplified])
    then show ?thesis unfolding bs append_Cons append_Nil
      using utf8_char_head [of "0xC0 + c div 64" "word_of_nat (0x80 + ?r) # s"] cont [OF r(1), of "c div 64" s] parts(1) by (simp del: of_nat_add)
  next
    case three
    then have bs: "bs = [word_of_nat (0xE0 + c div 4096), word_of_nat (0x80 + ?q), word_of_nat (0x80 + ?r)]"
      using assms by (auto simp: utf8_of_def simp del: of_nat_add split: if_splits)
    have b: "c div 4096 < 16" using three by (simp add: less_mult_imp_div_less)
    then show ?thesis unfolding bs append_Cons append_Nil
      using utf8_char_head [of "0xE0 + c div 4096" "word_of_nat (0x80 + ?q) # word_of_nat (0x80 + ?r) # s"]
        cont2 [OF r(2,1), of "c div 4096" s] three unfolding parts by (simp add: parts del: of_nat_add)
  next
    case four
    then have bs: "bs = [word_of_nat (0xF0 + c div 262144), word_of_nat (0x80 + ?p), word_of_nat (0x80 + ?q), word_of_nat (0x80 + ?r)]"
      using assms by (simp add: utf8_of_def)
    have b: "c div 262144 < 5" using four by (simp add: less_mult_imp_div_less)
    then show ?thesis unfolding bs append_Cons append_Nil
      using utf8_char_head [of "0xF0 + c div 262144" "word_of_nat (0x80 + ?p) # word_of_nat (0x80 + ?q) # word_of_nat (0x80 + ?r) # s"]
        cont3 [OF r(3,2,1), of "c div 262144" s] four unfolding parts by (simp add: parts del: of_nat_add)
  qed
qed

lemma utf8_roundtrip:
  assumes "wstring_to_utf8 w = Some s"
  shows "utf8_to_wstring s = Some w"
  using assms
proof (induction w arbitrary: s)
  case Nil
  then show ?case by (simp add: wstring_to_utf8_def utf8_to_wstring.simps)
next
  case (Cons c w)
  then obtain b t where b: "utf8_of c = Some b" "wstring_to_utf8 w = Some t" "s = b @ t"
    by (auto simp: wstring_to_utf8_def split: option.splits)
  then show ?case using Cons.IH utf8_char_of(1) [OF b(1)] utf8_char_of(2) [OF b(1), of t] by (simp add: utf8_to_wstring.simps [of "b @ t"])
qed

section \<open>Bytes as characters\<close>

definition insert_range :: "nat \<Rightarrow> nat \<Rightarrow> (8 word \<Rightarrow> nat option) \<Rightarrow> (8 word \<Rightarrow> nat option)" where
  "insert_range start stop m = fold (\<lambda>c m. map_insert m (word_of_nat c) c) [start..<Suc stop] m"

definition b2u :: "8 word \<Rightarrow> nat option" where
  "b2u = fst (fold (\<lambda>b (m, n). if m (word_of_nat b) = None then (map_insert m (word_of_nat b) (256 + n), n + 1) else (m, n)) [0..<256]
     (insert_range 0xAE 0xFF (insert_range 0xA1 0xAC (insert_range 0x21 0x7E (\<lambda>_. None))), 0))"

definition u2b :: "nat \<Rightarrow> 8 word option" where
  \<comment> \<open>the order of the entries does not matter, since no two have the same character\<close>
  "u2b = fold (\<lambda>b m. case b2u (word_of_nat b) of Some c \<Rightarrow> map_insert m c (word_of_nat b) | None \<Rightarrow> m) [0..<256] (\<lambda>_. None)"

definition printable :: "nat \<Rightarrow> bool" where
  "printable b \<longleftrightarrow> 0x21 \<le> b \<and> b \<le> 0x7E \<or> 0xA1 \<le> b \<and> b \<le> 0xAC \<or> 0xAE \<le> b \<and> b \<le> 0xFF"

lemma insert_range_eq:
  assumes "stop < 256" "\<forall>b. start \<le> unat b \<and> unat b \<le> stop \<longrightarrow> m b = None"
  shows "insert_range start stop m b = (if start \<le> unat b \<and> unat b \<le> stop then Some (unat b) else m b)"
proof -
  have "k \<le> Suc stop \<Longrightarrow> fold (\<lambda>c m. map_insert m (word_of_nat c) c) [start..<k] m b = (if start \<le> unat b \<and> unat b < k then Some (unat b) else m b)" for k
  proof (induction k)
    case (Suc k)
    have u: "unat (word_of_nat k :: 8 word) = k" using Suc.prems assms(1) by (simp add: unsigned_of_nat take_bit_nat_eq_self)
    show ?case
    proof (cases "b = word_of_nat k")
      case True
      then show ?thesis using Suc u assms(2) by (cases "start \<le> k") (auto simp: map_insert_def)
    next
      case False
      then have "unat b \<noteq> k" by auto
      then show ?thesis using Suc False by (cases "start \<le> k") (auto simp: map_insert_def split: option.splits)
    qed
  qed simp
  from this [of "Suc stop"] show ?thesis by (simp add: insert_range_def less_Suc_eq_le)
qed

definition hidden :: "nat \<Rightarrow> nat" where
  "hidden k = length (filter (\<lambda>b. \<not> printable b) [0..<k])"

lemma b2u_loop:
  fixes m :: "8 word \<Rightarrow> nat option"
  assumes "\<forall>b. m b = (if printable (unat b) then Some (unat b) else None)" "k \<le> 256"
  shows "\<exists>m'. fold (\<lambda>b (m, n). if m (word_of_nat b) = None then (map_insert m (word_of_nat b) (256 + n), n + 1) else (m, n)) [0..<k] (m, 0) = (m', hidden k) \<and>
    (\<forall>b. m' b = (if printable (unat b) then Some (unat b) else if unat b < k then Some (256 + hidden (unat b)) else None))"
  using assms(2)
proof (induction k)
  case 0
  then show ?case using assms(1) by (simp add: hidden_def)
next
  case (Suc k)
  then obtain m' where m': "fold (\<lambda>b (m, n). if m (word_of_nat b) = None then (map_insert m (word_of_nat b) (256 + n), n + 1) else (m, n)) [0..<k] (m, 0) = (m', hidden k)"
      "\<And>b. m' b = (if printable (unat b) then Some (unat b) else if unat b < k then Some (256 + hidden (unat b)) else None)" by auto
  have u: "unat (word_of_nat k :: 8 word) = k" using Suc.prems by (simp add: byte_nat)
  have other: "unat b = k \<longleftrightarrow> b = word_of_nat k" for b :: "8 word" using u by auto
  show ?case
  proof (cases "printable k")
    case True
    then show ?thesis using m' u by (auto simp: hidden_def less_Suc_eq intro!: exI [of _ m'])
  next
    case False
    let ?m = "map_insert m' (word_of_nat k) (256 + hidden k)"
    have new: "m' (word_of_nat k) = None" using m'(2) [of "word_of_nat k"] u False by simp
    have "?m b = (if printable (unat b) then Some (unat b) else if unat b < Suc k then Some (256 + hidden (unat b)) else None)" for b
    proof (cases "b = word_of_nat k")
      case True
      then show ?thesis using new u False by (simp add: map_insert_def)
    next
      case b: False
      then have "unat b \<noteq> k" using other by blast
      then show ?thesis using new b m'(2) [of b] by (auto simp: map_insert_def less_Suc_eq)
    qed
    moreover have "hidden (Suc k) = hidden k + 1" using False by (simp add: hidden_def)
    then have "fold (\<lambda>b (m, n). if m (word_of_nat b) = None then (map_insert m (word_of_nat b) (256 + n), n + 1) else (m, n)) [0..<Suc k] (m, 0) =
        (?m, hidden (Suc k))" using m'(1) new by simp
    ultimately show ?thesis by blast
  qed
qed

lemma b2u_eq: "b2u b = Some (if printable (unat b) then unat b else 256 + hidden (unat b))"
proof -
  have "\<forall>b. insert_range 0xAE 0xFF (insert_range 0xA1 0xAC (insert_range 0x21 0x7E (\<lambda>_. None))) b =
      (if printable (unat b) then Some (unat b) else None)"
    using byte_less by (auto simp: insert_range_eq printable_def less_Suc_eq_le [of _ 255, symmetric])
  from b2u_loop [OF this order_refl] obtain m' where m': "fst (fold (\<lambda>b (m, n). if m (word_of_nat b) = None then (map_insert m (word_of_nat b) (256 + n), n + 1) else (m, n)) [0..<256]
     (insert_range 0xAE 0xFF (insert_range 0xA1 0xAC (insert_range 0x21 0x7E (\<lambda>_. None))), 0)) = m'"
    "m' b = (if printable (unat b) then Some (unat b) else if unat b < 256 then Some (256 + hidden (unat b)) else None)" by force
  then show ?thesis using byte_less [of b] by (simp add: b2u_def)
qed

lemma hidden_less: "\<not> printable a \<Longrightarrow> a < b \<Longrightarrow> hidden a < hidden b"
proof -
  assume a: "\<not> printable a" "a < b"
  then obtain k where "b = Suc a + k" by (metis less_imp_Suc_add add_Suc_shift add_Suc)
  then have "[0..<b] = [0..<a] @ [a] @ [Suc a..<b]" using upt_add_eq_append [of 0 "Suc a" k] by simp
  then show ?thesis using a by (simp add: hidden_def)
qed

lemma b2u_inj:
  assumes "b2u a = b2u b"
  shows "a = b"
proof (rule word_unat_eq_iff [THEN iffD2], rule linorder_cases [of "unat a" "unat b"])
qed (use assms byte_less [of a] byte_less [of b] hidden_less [of "unat a" "unat b"] hidden_less [of "unat b" "unat a"] in
  \<open>auto simp: b2u_eq split: if_splits\<close>)

lemma u2b_b2u:
  assumes "b2u b = Some c"
  shows "u2b c = Some b"
proof -
  let ?f = "\<lambda>b m. case b2u (word_of_nat b) of Some c \<Rightarrow> map_insert m c (word_of_nat b) | None \<Rightarrow> m"
  have "k \<le> 256 \<Longrightarrow> fold ?f [0..<k] (\<lambda>_. None) c = (if unat b < k then Some b else None)" for k
  proof (induction k)
    case (Suc k)
    have u: "unat (word_of_nat k :: 8 word) = k" using Suc.prems by (simp add: byte_nat)
    obtain d where d: "b2u (word_of_nat k) = Some d" by (simp add: b2u_eq)
    have "c = d \<longleftrightarrow> unat b = k" using d assms u b2u_inj [of b "word_of_nat k"] by auto
    then show ?case using Suc d u by (auto simp: map_insert_def less_Suc_eq split: option.splits)
  qed simp
  from this [of 256] show ?thesis using byte_less [of b] by (simp add: u2b_def)
qed

end
