(* ===== verification/TokenMerge.thy ===== *)
theory TokenMerge
  imports TokenBpe
begin

text \<open>
  Byte pair encoding: \<open>get_pairs\<close> and \<open>HuggingfaceTokenizer::bpe\<close>. The code keeps the pairs of neighbours of the word it
  started with, and the set of the indexes that are merged; a pair that remains is updated when a neighbour is merged. The
  reference \<open>bpe_reference\<close> works on the list of symbols, where a merge joins two of them.
\<close>

type_synonym ranks = "wstring \<times> wstring \<Rightarrow> int option"

section \<open>The code\<close>

definition get_pairs :: "wstring \<Rightarrow> (wstring \<times> wstring) list" where
  "get_pairs word = (if length word < 2 then [] else map (\<lambda>i. ([word ! (i - 1)], [word ! i])) [1..<length word])"

definition left_of :: "nat \<Rightarrow> nat set \<Rightarrow> nat option" where
  \<comment> \<open>\<open>_left\<close>; \<open>None\<close> is -1\<close>
  "left_of i merged = List.find (\<lambda>j. j \<notin> merged) (rev [0..<i])"

definition right_of :: "nat \<Rightarrow> nat \<Rightarrow> nat set \<Rightarrow> nat option" where
  \<comment> \<open>\<open>_right\<close>; \<open>None\<close> is \<open>cap\<close>\<close>
  "right_of i cap merged = List.find (\<lambda>j. j \<notin> merged) [i + 1..<cap]"

definition score_of :: "ranks \<Rightarrow> wstring \<times> wstring \<Rightarrow> int" where
  \<comment> \<open>\<open>INT_MAX\<close> for a pair without a rank\<close>
  "score_of bpe_ranks p = (case bpe_ranks p of Some r \<Rightarrow> r | None \<Rightarrow> 2 ^ 31 - 1)"

definition better_pair :: "(nat \<Rightarrow> int) \<Rightarrow> nat \<Rightarrow> int \<times> nat option \<Rightarrow> int \<times> nat option" where
  \<comment> \<open>\<open>min_score\<close> and \<open>to_merge\<close>\<close>
  "better_pair score i s = (case s of (min_score, to_merge) \<Rightarrow> if score i < min_score then (score i, Some i) else (min_score, to_merge))"

definition best_pair :: "ranks \<Rightarrow> (wstring \<times> wstring) list \<Rightarrow> nat set \<Rightarrow> nat option" where
  "best_pair bpe_ranks pairs merged =
     snd (fold (\<lambda>i s. if i \<notin> merged then better_pair (\<lambda>i. score_of bpe_ranks (pairs ! i)) i s else s) [0..<length pairs] (2 ^ 31 - 1, None))"

lemma best_fold: "snd (fold (better_pair score) is (m, b)) = Some i \<Longrightarrow> b = Some i \<or> i \<in> set is"
  by (induction "is" arbitrary: m b) (auto simp: better_pair_def split: if_splits)

lemma fold_filter: "fold (\<lambda>i s. if P i then f i s else s) xs s = fold f (filter P xs) s"
  by (induction xs arbitrary: s) simp_all

lemma best_pair_filter:
  "best_pair bpe_ranks pairs merged =
    snd (fold (better_pair (\<lambda>i. score_of bpe_ranks (pairs ! i))) (filter (\<lambda>i. i \<notin> merged) [0..<length pairs]) (2 ^ 31 - 1, None))"
  by (simp add: best_pair_def fold_filter)

lemma best_pair_Some: "best_pair bpe_ranks pairs merged = Some i \<Longrightarrow> i < length pairs \<and> i \<notin> merged"
  unfolding best_pair_filter by (drule best_fold) auto

function bpe_loop :: "ranks \<Rightarrow> (wstring \<times> wstring) list \<Rightarrow> nat set \<Rightarrow> (wstring \<times> wstring) list \<times> nat set" where
  "bpe_loop bpe_ranks pairs merged = (case best_pair bpe_ranks pairs merged of
     None \<Rightarrow> (pairs, merged)
   | Some to_merge \<Rightarrow>
       let merged = insert to_merge merged;
           merge_into = fst (pairs ! to_merge) @ snd (pairs ! to_merge);
           pairs = (case left_of to_merge merged of Some l \<Rightarrow> pairs[l := (fst (pairs ! l), merge_into)] | None \<Rightarrow> pairs);
           pairs = (case right_of to_merge (length pairs) merged of Some r \<Rightarrow> pairs[r := (merge_into, snd (pairs ! r))] | None \<Rightarrow> pairs)
       in bpe_loop bpe_ranks pairs merged)"
  by pat_completeness auto
termination
proof (relation "measure (\<lambda>(_, pairs, merged). card ({..<length pairs} - merged))", goal_cases)
  case (2 bpe_ranks pairs merged to_merge x xa xb xc)
  then have "length xc = length pairs" by (auto split: option.splits)
  moreover have "{..<length pairs} - insert to_merge merged \<subset> {..<length pairs} - merged" using best_pair_Some [OF 2(1)] by auto
  ultimately show ?case using 2(2) by (auto intro: psubset_card_mono)
qed simp

declare bpe_loop.simps [simp del]

definition bpe :: "wstring \<Rightarrow> ranks \<Rightarrow> wstring list" where
  "bpe token bpe_ranks = (
     let (pairs, merged) = bpe_loop bpe_ranks (get_pairs token) {}
     in if card merged = length pairs then [token]
        else concat (map (\<lambda>i. if i \<notin> merged then (if left_of i merged = None then [fst (pairs ! i)] else []) @ [snd (pairs ! i)] else [])
          [0..<length pairs]))"

section \<open>The reference\<close>

definition best_merge :: "ranks \<Rightarrow> wstring list \<Rightarrow> nat option" where
  \<comment> \<open>the first of the neighbours with the least rank\<close>
  "best_merge bpe_ranks syms = snd (fold (better_pair (\<lambda>k. score_of bpe_ranks (syms ! k, syms ! (k + 1)))) [0..<length syms - 1] (2 ^ 31 - 1, None))"

lemma best_merge_Some: "best_merge bpe_ranks syms = Some k \<Longrightarrow> k + 1 < length syms"
  unfolding best_merge_def by (drule best_fold) auto

function bpe_reference :: "ranks \<Rightarrow> wstring list \<Rightarrow> wstring list" where
  "bpe_reference bpe_ranks syms = (case best_merge bpe_ranks syms of None \<Rightarrow> syms | Some k \<Rightarrow> bpe_reference bpe_ranks (merge_at k syms))"
  by pat_completeness auto
termination
  by (relation "measure (\<lambda>(_, syms). length syms)") (auto simp: merge_at_def dest: best_merge_Some)

declare bpe_reference.simps [simp del]

text \<open>Merging keeps the word, and ends when no two neighbours have a rank.\<close>

lemma bpe_reference_concat: "concat (bpe_reference bpe_ranks syms) = concat syms"
proof (induction bpe_ranks syms rule: bpe_reference.induct)
  case (1 bpe_ranks syms)
  show ?case
  proof (cases "best_merge bpe_ranks syms")
    case (Some k)
    then show ?thesis using 1 merge_at_concat [OF best_merge_Some [OF Some]] by (simp add: bpe_reference.simps [of _ syms])
  qed (simp add: bpe_reference.simps [of _ syms])
qed

section \<open>The code computes the reference\<close>

definition remaining :: "nat \<Rightarrow> nat set \<Rightarrow> nat list" where
  "remaining n merged = filter (\<lambda>i. i \<notin> merged) [0..<n]"

text \<open>The pairs that remain are the neighbours in the list of symbols.\<close>

definition represents :: "(wstring \<times> wstring) list \<Rightarrow> nat set \<Rightarrow> wstring list \<Rightarrow> bool" where
  "represents pairs merged syms \<longleftrightarrow> merged \<subseteq> {..<length pairs} \<and> length syms = Suc (length (remaining (length pairs) merged)) \<and>
     (\<forall>k < length (remaining (length pairs) merged). pairs ! (remaining (length pairs) merged ! k) = (syms ! k, syms ! Suc k))"

lemma remaining_split:
  assumes "k < length (remaining n merged)" "i = remaining n merged ! k"
  shows "i < n" "i \<notin> merged" "filter (\<lambda>j. j \<notin> merged) [0..<i] = take k (remaining n merged)"
    "filter (\<lambda>j. j \<notin> merged) [Suc i..<n] = drop (Suc k) (remaining n merged)"
proof -
  have "i \<in> set (remaining n merged)" using assms by simp
  then show i: "i < n" "i \<notin> merged" by (auto simp: remaining_def)
  let ?l = "filter (\<lambda>j. j \<notin> merged) [0..<i]" and ?r = "filter (\<lambda>j. j \<notin> merged) [Suc i..<n]"
  have "[0..<n] = [0..<i] @ i # [Suc i..<n]" using i(1) upt_conv_Cons [of i n] upt_add_eq_append [of 0 i "n - i"] by simp
  then have eq: "remaining n merged = ?l @ i # ?r" using i by (simp add: remaining_def)
  have "distinct (remaining n merged)" by (simp add: remaining_def)
  moreover have "remaining n merged ! length ?l = i" "length ?l < length (remaining n merged)" unfolding eq by (simp_all add: nth_append)
  ultimately have "k = length ?l" using assms nth_eq_iff_index_eq by metis
  then show "?l = take k (remaining n merged)" "?r = drop (Suc k) (remaining n merged)" unfolding eq by simp_all
qed

lemma find_rev: "List.find P (rev xs) = (if filter P xs = [] then None else Some (last (filter P xs)))"
  by (induction xs rule: rev_induct) auto

lemma find_hd: "List.find P xs = (if filter P xs = [] then None else Some (hd (filter P xs)))"
  by (induction xs) auto

lemma neighbours:
  assumes "k < length (remaining n merged)" "i = remaining n merged ! k"
  shows "left_of i (insert i merged) = (if k = 0 then None else Some (remaining n merged ! (k - 1)))"
    "left_of i merged = (if k = 0 then None else Some (remaining n merged ! (k - 1)))"
    "right_of i n (insert i merged) = (if Suc k < length (remaining n merged) then Some (remaining n merged ! Suc k) else None)"
    "remaining n (insert i merged) = take k (remaining n merged) @ drop (Suc k) (remaining n merged)"
proof -
  note at = remaining_split [OF assms]
  have l: "filter (\<lambda>j. j \<notin> insert i merged) [0..<i] = take k (remaining n merged)" 
    unfolding at(3) [symmetric] by (rule filter_cong) auto
  have r: "filter (\<lambda>j. j \<notin> insert i merged) [Suc i..<n] = drop (Suc k) (remaining n merged)" 
    unfolding at(4) [symmetric] by (rule filter_cong) auto
  show "left_of i (insert i merged) = (if k = 0 then None else Some (remaining n merged ! (k - 1)))"
    "left_of i merged = (if k = 0 then None else Some (remaining n merged ! (k - 1)))"
    using assms(1) l at(3) by (auto simp: left_of_def find_rev last_conv_nth)
  show "right_of i n (insert i merged) = (if Suc k < length (remaining n merged) then Some (remaining n merged ! Suc k) else None)"
    using assms(1) r by (auto simp: right_of_def find_hd hd_drop_conv_nth)
  have "[0..<n] = [0..<i] @ i # [Suc i..<n]" using at(1) upt_conv_Cons [of i n] upt_add_eq_append [of 0 i "n - i"] by simp
  then show "remaining n (insert i merged) = take k (remaining n merged) @ drop (Suc k) (remaining n merged)"
    using l r by (simp add: remaining_def)
qed

lemma best_fold_map:
  assumes "\<forall>k \<in> set ks. score (xs ! k) = score' k"
  shows "snd (fold (better_pair score) (map (\<lambda>k. xs ! k) ks) (m, map_option (\<lambda>k. xs ! k) b)) = map_option (\<lambda>k. xs ! k) (snd (fold (better_pair score') ks (m, b)))"
  using assms
proof (induction ks arbitrary: m b)
  case (Cons k ks)
  show ?case using Cons.prems Cons.IH [of m b] Cons.IH [of "score' k" "Some k"] by (simp add: better_pair_def)
qed simp

lemma best_pair_represents:
  assumes "represents pairs merged syms"
  shows "best_pair bpe_ranks pairs merged = map_option (\<lambda>k. remaining (length pairs) merged ! k) (best_merge bpe_ranks syms)"
proof -
  let ?us = "remaining (length pairs) merged"
  have "map (\<lambda>k. ?us ! k) [0..<length ?us] = ?us" by (rule map_nth)
  moreover have "\<forall>k \<in> set [0..<length ?us]. score_of bpe_ranks (pairs ! (?us ! k)) = score_of bpe_ranks (syms ! k, syms ! (k + 1))"
    using assms by (auto simp: represents_def)
  from best_fold_map [OF this, of "2 ^ 31 - 1" None]
  have "snd (fold (better_pair (\<lambda>i. score_of bpe_ranks (pairs ! i))) (map (\<lambda>k. ?us ! k) [0..<length ?us]) (2 ^ 31 - 1, None)) =
      map_option (\<lambda>k. ?us ! k) (snd (fold (better_pair (\<lambda>k. score_of bpe_ranks (syms ! k, syms ! (k + 1)))) [0..<length ?us] (2 ^ 31 - 1, None)))"
    by (simp del: map_nth)
  ultimately show ?thesis using assms unfolding best_pair_filter remaining_def [symmetric] by (simp add: best_merge_def represents_def)
qed

lemma represents_merge:
  assumes R: "represents pairs merged syms" and k: "k < length (remaining (length pairs) merged)" and i: "i = remaining (length pairs) merged ! k"
    and p: "p1 = (case left_of i (insert i merged) of Some l \<Rightarrow> pairs[l := (fst (pairs ! l), fst (pairs ! i) @ snd (pairs ! i))] | None \<Rightarrow> pairs)"
      "p2 = (case right_of i (length p1) (insert i merged) of Some r \<Rightarrow> p1[r := (fst (pairs ! i) @ snd (pairs ! i), snd (p1 ! r))] | None \<Rightarrow> p1)"
  shows "represents p2 (insert i merged) (merge_at k syms)"
proof -
  let ?us = "remaining (length pairs) merged"
  let ?vs = "take k ?us @ drop (Suc k) ?us" and ?m = "syms ! k @ syms ! Suc k"
  note nb = neighbours [OF k i]
  have len: "length p1 = length pairs" "length p2 = length pairs" by (auto simp: p split: option.splits)
  have syms: "length syms = Suc (length ?us)" "\<And>k. k < length ?us \<Longrightarrow> pairs ! (?us ! k) = (syms ! k, syms ! Suc k)" "merged \<subseteq> {..<length pairs}"
    using R by (simp_all add: represents_def)
  have inj: "?us ! a = ?us ! b \<longleftrightarrow> a = b" if "a < length ?us" "b < length ?us" for a b
    using that by (simp add: nth_eq_iff_index_eq remaining_def)
  have lt: "?us ! a < length pairs" if "a < length ?us" for a using remaining_split(1) [OF that refl] .
  have m: "fst (pairs ! i) @ snd (pairs ! i) = ?m" using syms(2) [OF k] i by simp
  have p1: "p1 ! (?us ! a) = (if Suc a = k then (syms ! a, ?m) else (syms ! a, syms ! Suc a))" if "a < length ?us" for a
    using that syms(2) inj lt k unfolding p(1) nb(1) m by (auto simp: nth_list_update split: if_splits)
  have p2: "p2 ! (?us ! a) = (if a = Suc k then (?m, syms ! Suc a) else if Suc a = k then (syms ! a, ?m) else (syms ! a, syms ! Suc a))" if "a < length ?us" for a
    using that p1 inj lt len(1) unfolding p(2) len(1) nb(3) m by (auto simp: nth_list_update len(1) split: if_splits)
  have merged: "merge_at k syms ! a = (if a < k then syms ! a else if a = k then ?m else syms ! Suc a)" if "a < length syms - 1" for a
    using k syms(1) that by (auto simp: merge_at_def nth_append min_def nth_Cons' Suc_diff_le)
  have "p2 ! (?vs ! a) = (merge_at k syms ! a, merge_at k syms ! Suc a)" if a: "a < length ?vs" for a
  proof -
    have "?vs ! a = ?us ! (if a < k then a else Suc a)" using a k by (auto simp: nth_append min_def)
    moreover have "a < length syms - 1" "Suc a < length syms - 1" using a k syms(1) by auto
    ultimately show ?thesis using p2 [of "if a < k then a else Suc a"] merged a k by auto
  qed
  moreover have "insert i merged \<subseteq> {..<length pairs}" using syms(3) lt [OF k] i by simp
  moreover have "length (merge_at k syms) = Suc (length ?vs)" using k syms(1) by (simp add: merge_at_def min_def)
  ultimately show ?thesis unfolding represents_def len nb(4) by blast
qed

lemma bpe_loop_reference:
  assumes "represents pairs merged syms"
  shows "\<exists>pairs' merged'. bpe_loop bpe_ranks pairs merged = (pairs', merged') \<and> represents pairs' merged' (bpe_reference bpe_ranks syms)"
  using assms
proof (induction bpe_ranks pairs merged arbitrary: syms rule: bpe_loop.induct)
  case (1 bpe_ranks pairs merged)
  note best = best_pair_represents [OF 1(2), of bpe_ranks]
  show ?case
  proof (cases "best_merge bpe_ranks syms")
    case None
    then show ?thesis using best 1(2) by (simp add: bpe_loop.simps [of _ pairs] bpe_reference.simps [of _ syms])
  next
    case (Some k)
    let ?i = "remaining (length pairs) merged ! k"
    have k: "k < length (remaining (length pairs) merged)" using best_merge_Some [OF Some] 1(2) by (simp add: represents_def)
    have bp: "best_pair bpe_ranks pairs merged = Some ?i" using best Some by simp
    note R = represents_merge [OF 1(2) k refl refl refl]
    from 1(1) [OF bp refl refl refl refl R] show ?thesis using bp Some
      by (simp add: bpe_loop.simps [of _ pairs] bpe_reference.simps [of _ syms] Let_def)
  qed
qed

lemma represents_word:
  assumes "token \<noteq> []"
  shows "represents (get_pairs token) {} (map (\<lambda>c. [c]) token)"
proof -
  have "length (get_pairs token) = length token - 1" by (simp add: get_pairs_def)
  moreover have "remaining n {} = [0..<n]" for n by (simp add: remaining_def)
  ultimately show ?thesis using assms by (auto simp: represents_def get_pairs_def)
qed

text \<open>The pieces of the result are the symbols.\<close>

lemma represents_result:
  assumes R: "represents pairs merged syms" and ne: "card merged \<noteq> length pairs"
  shows "concat (map (\<lambda>i. if i \<notin> merged then (if left_of i merged = None then [fst (pairs ! i)] else []) @ [snd (pairs ! i)] else [])
    [0..<length pairs]) = syms"
proof -
  let ?us = "remaining (length pairs) merged"
  define f where "f i = (if left_of i merged = None then [fst (pairs ! i)] else []) @ [snd (pairs ! i)]" for i
  have f: "f (?us ! k) = (if k = 0 then [syms ! 0] else []) @ [syms ! Suc k]" if "k < length ?us" for k
    using neighbours(2) [OF that refl] R that by (auto simp: represents_def f_def)
  have "concat (map f (take k ?us)) = (if k = 0 then [] else take (Suc k) syms)" if "k \<le> length ?us" for k
    using that
  proof (induction k)
    case (Suc k)
    have "take (Suc k) ?us = take k ?us @ [?us ! k]" using Suc.prems by (simp add: take_Suc_conv_app_nth)
    moreover have "Suc k < length syms" using Suc.prems R by (simp add: represents_def)
    then have "take (Suc (Suc k)) syms = take (Suc k) syms @ [syms ! Suc k]" by (simp add: take_Suc_conv_app_nth)
    moreover have "k < length ?us" using Suc.prems by simp
    note f [OF this]
    ultimately show ?case using Suc R by (cases k) (auto simp: represents_def take_Suc_conv_app_nth)
  qed simp
  from this [OF order_refl] have c: "concat (map f ?us) = (if length ?us = 0 then [] else take (Suc (length ?us)) syms)" by simp
  have "?us \<noteq> []"
  proof
    assume "?us = []"
    then have "{..<length pairs} \<subseteq> merged" by (auto simp: remaining_def filter_empty_conv)
    then have "merged = {..<length pairs}" using R by (auto simp: represents_def)
    then show False using ne by simp
  qed
  moreover have "concat (map (\<lambda>i. if i \<notin> merged then f i else []) xs) = concat (map f (filter (\<lambda>i. i \<notin> merged) xs))" for xs
    by (induction xs) auto
  ultimately show ?thesis using c R unfolding f_def [symmetric] by (simp add: remaining_def represents_def)
qed

lemma bpe_is_reference:
  assumes "token \<noteq> []"
  shows "bpe token bpe_ranks = bpe_reference bpe_ranks (map (\<lambda>c. [c]) token)"
proof -
  obtain pairs merged where l: "bpe_loop bpe_ranks (get_pairs token) {} = (pairs, merged)"
      "represents pairs merged (bpe_reference bpe_ranks (map (\<lambda>c. [c]) token))"
    using bpe_loop_reference [OF represents_word [OF assms]] by blast
  show ?thesis
  proof (cases "card merged = length pairs")
    case True
    have "merged \<subseteq> {..<length pairs}" using l(2) by (simp add: represents_def)
    then have "merged = {..<length pairs}" using True by (intro card_subset_eq) auto
    then have "length (bpe_reference bpe_ranks (map (\<lambda>c. [c]) token)) = 1" using l(2) by (simp add: represents_def remaining_def)
    moreover have "concat (bpe_reference bpe_ranks (map (\<lambda>c. [c]) token)) = token" by (simp add: bpe_reference_concat)
    ultimately have "bpe_reference bpe_ranks (map (\<lambda>c. [c]) token) = [token]"
      by (auto simp: length_Suc_conv)
    then show ?thesis using l True by (simp add: bpe_def)
  next
    case False
    then show ?thesis using l represents_result [OF l(2) False] by (simp add: bpe_def)
  qed
qed

text \<open>Only pairs with a rank are merged, and all of them that are left have none.\<close>

lemma best_fold_score:
  "snd (fold (better_pair score) is (m, b)) = Some k \<Longrightarrow> b = Some k \<or> score k < m"
proof (induction "is" arbitrary: m b)
  case (Cons i "is")
  then show ?case by (auto simp: better_pair_def split: if_splits) fastforce+
qed simp

lemma best_fold_None: "snd (fold (better_pair score) is (m, b)) = None \<longleftrightarrow> b = None \<and> (\<forall>i \<in> set is. m \<le> score i)"
  by (induction "is" arbitrary: m b) (auto simp: better_pair_def)

lemma best_merge_ranked: "best_merge bpe_ranks syms = Some k \<Longrightarrow> bpe_ranks (syms ! k, syms ! (k + 1)) \<noteq> None"
  unfolding best_merge_def by (drule best_fold_score) (auto simp: score_of_def split: option.splits)

lemma bpe_reference_final:
  assumes "k + 1 < length (bpe_reference bpe_ranks syms)"
  shows "score_of bpe_ranks (bpe_reference bpe_ranks syms ! k, bpe_reference bpe_ranks syms ! (k + 1)) \<ge> 2 ^ 31 - 1"
  using assms
proof (induction bpe_ranks syms rule: bpe_reference.induct)
  case (1 bpe_ranks syms)
  show ?case
  proof (cases "best_merge bpe_ranks syms")
    case None
    then have "\<forall>i \<in> set [0..<length syms - 1]. 2 ^ 31 - 1 \<le> score_of bpe_ranks (syms ! i, syms ! (i + 1))"
      unfolding best_merge_def best_fold_None by blast
    then show ?thesis using None 1(2) by (simp add: bpe_reference.simps [of _ syms])
  next
    case (Some j)
    then show ?thesis using 1 by (simp add: bpe_reference.simps [of _ syms])
  qed
qed

lemma bpe_reference_all:
  assumes "\<forall>p \<in> set syms. P p" "\<And>a b. bpe_ranks (a, b) \<noteq> None \<Longrightarrow> P (a @ b)"
  shows "\<forall>p \<in> set (bpe_reference bpe_ranks syms). P p"
  using assms
proof (induction bpe_ranks syms rule: bpe_reference.induct)
  case (1 bpe_ranks syms)
  show ?case
  proof (cases "best_merge bpe_ranks syms")
    case (Some k)
    have "\<forall>p \<in> set (merge_at k syms). P p"
      using 1(2,3) best_merge_ranked [OF Some] by (auto simp: merge_at_def dest: in_set_takeD in_set_dropD)
    then show ?thesis using 1(1) [OF Some _ 1(3)] Some by (simp add: bpe_reference.simps [of _ syms])
  qed (use 1 in \<open>simp add: bpe_reference.simps [of _ syms]\<close>)
qed

end
