(* ===== verification/TokenHugging.thy ===== *)
theory TokenHugging
  imports TokenMerge
begin

text \<open>
  The class \<open>HuggingfaceTokenizer\<close> as a whole. The regular expression of \<open>encode\<close> is a choice of seven alternatives, tried
  in order at the start of the text; each has at most one way back, which the definitions of its lengths spell out.
\<close>

section \<open>Cutting the text\<close>

definition is_newline :: "8 word \<Rightarrow> bool" where
  "is_newline c \<longleftrightarrow> unat c = 10 \<or> unat c = 13"

definition is_other :: "8 word \<Rightarrow> bool" where
  \<comment> \<open>\<open>[^\s[:alpha:][:digit:]]\<close>\<close>
  "is_other c \<longleftrightarrow> \<not> is_space c \<and> \<not> is_alnum c"

definition run :: "(8 word \<Rightarrow> bool) \<Rightarrow> std_string \<Rightarrow> nat" where
  \<comment> \<open>the longest part of such characters the text begins with\<close>
  "run P s = length (takeWhile P s)"

definition positive :: "nat \<Rightarrow> nat option" where
  "positive n = (if n = 0 then None else Some n)"

definition contraction :: "std_string \<Rightarrow> nat option" where
  \<comment> \<open>an apostrophe and one of \<open>s t re ve m ll d\<close>, in lower or upper case\<close>
  "contraction s = map_option length (List.find (\<lambda>w. map to_lower (take (length w) s) = w)
     (map (\<lambda>w. 0x27 # ascii w) [''s'', ''t'', ''re'', ''ve'', ''m'', ''ll'', ''d'']))"

definition letters :: "std_string \<Rightarrow> nat option" where
  \<comment> \<open>\<open>[^\r\n[:alpha:][:digit:]]?[[:alpha:]]+\<close>\<close>
  "letters s = (case s of
     [] \<Rightarrow> None
   | c # rest \<Rightarrow> if \<not> is_newline c \<and> \<not> is_alnum c \<and> 0 < run is_alpha rest then Some (1 + run is_alpha rest) else positive (run is_alpha s))"

definition digit :: "std_string \<Rightarrow> nat option" where
  "digit s = (if s \<noteq> [] \<and> is_digit (hd s) then Some 1 else None)"

definition others :: "std_string \<Rightarrow> nat option" where
  \<comment> \<open>\<open> ?[^\s[:alpha:][:digit:]]+[\r\n]*\<close>\<close>
  "others s = (
     let k = (if s \<noteq> [] \<and> unat (hd s) = 32 \<and> 0 < run is_other (tl s) then 1 else 0);
         n = run is_other (drop k s)
     in if n = 0 then None else Some (k + n + run is_newline (drop (k + n) s)))"

definition newlines :: "std_string \<Rightarrow> nat option" where
  \<comment> \<open>\<open>\s*[\r\n]+\<close>: the white space, up to its last end of a line\<close>
  "newlines s = positive (length (dropWhile (\<lambda>c. \<not> is_newline c) (rev (takeWhile is_space s))))"

definition spaces_before :: "std_string \<Rightarrow> nat option" where
  \<comment> \<open>\<open>\s+(?!\S)\<close>: the last space is left when something follows\<close>
  "spaces_before s = (let n = run is_space s in if n = length s then positive n else positive (n - 1))"

fun first_some :: "nat option list \<Rightarrow> nat option" where
  "first_some [] = None"
| "first_some (None # xs) = first_some xs"
| "first_some (Some n # xs) = Some n"

definition match_len :: "std_string \<Rightarrow> nat option" where
  \<comment> \<open>the length of the match at the start of the text\<close>
  "match_len s = first_some [contraction s, letters s, digit s, others s, newlines s, spaces_before s, positive (run is_space s)]"

lemma first_some_in: "first_some xs = Some n \<Longrightarrow> Some n \<in> set xs"
  by (induction xs rule: first_some.induct) auto

lemma first_some_None: "first_some xs = None \<longleftrightarrow> set xs \<subseteq> {None}"
  by (induction xs rule: first_some.induct) auto

lemma positive_Some [simp]: "positive n = Some m \<longleftrightarrow> n = m \<and> 0 < m"
  by (auto simp: positive_def)

lemma match_len_pos:
  assumes "match_len s = Some n"
  shows "0 < n"
proof -
  have "\<exists>x \<in> set [contraction s, letters s, digit s, others s, newlines s, spaces_before s, positive (run is_space s)]. x = Some n"
    using assms first_some_in unfolding match_len_def by blast
  moreover have "0 < n" if "contraction s = Some n" 
    using that by (auto simp: contraction_def simp del: find.simps list.map dest!: find_in)
  moreover have "0 < n" if "letters s = Some n" using that by (auto simp: letters_def split: list.splits if_splits)
  moreover have "0 < n" if "others s = Some n" using that by (auto simp: others_def Let_def split: if_splits)
  moreover have "0 < n" if "spaces_before s = Some n" using that by (auto simp: spaces_before_def Let_def split: if_splits)
  moreover have "0 < n" if "digit s = Some n" using that by (auto simp: digit_def split: if_splits)
  moreover have "0 < n" if "newlines s = Some n" using that by (simp add: newlines_def)
  ultimately show ?thesis by (simp del: neq0_conv) (metis positive_Some)
qed

lemma run_pos: "0 < run P s \<longleftrightarrow> s \<noteq> [] \<and> P (hd s)"
  by (cases s) (auto simp: run_def)

lemma match_len_total:
  assumes "s \<noteq> []"
  shows "match_len s \<noteq> None"
proof
  assume "match_len s = None"
  then have "letters s = None" "digit s = None" "others s = None" "positive (run is_space s) = None"
    unfolding match_len_def first_some_None by auto
  moreover obtain c rest where s: "s = c # rest" using assms by (cases s) auto
  ultimately have "\<not> is_alpha c" "\<not> is_digit c" "\<not> is_space c" "\<not> is_other c"
    by (auto simp: letters_def digit_def others_def positive_def run_def Let_def split: if_splits)
  then show False by (simp add: is_other_def is_alnum_def)
qed

function cut :: "std_string \<Rightarrow> std_string list" where
  \<comment> \<open>the matches of \<open>std::regex_search\<close>, each in what is left behind the one before\<close>
  "cut s = (if s = [] then []
     else case match_len s of Some n \<Rightarrow> take n s # cut (drop n s) | None \<Rightarrow> cut (tl s))"
  by pat_completeness auto
termination
  by (relation "measure length") (auto dest: match_len_pos)

declare cut.simps [simp del]

lemma cut_step: "s \<noteq> [] \<Longrightarrow> \<exists>n. match_len s = Some n \<and> 0 < n \<and> cut s = take n s # cut (drop n s)"
  using match_len_total [of s] match_len_pos [of s] by (auto simp: cut.simps [of s])

lemma cut_concat: "concat (cut s) = s \<and> (\<forall>t \<in> set (cut s). t \<noteq> [])"
proof (induction "length s" arbitrary: s rule: less_induct)
  case less
  show ?case
  proof (cases "s = []")
    case False
    then obtain n where n: "0 < n" "cut s = take n s # cut (drop n s)" using cut_step by blast
    then show ?thesis using less [of "drop n s"] False by simp
  qed (simp add: cut.simps)
qed

section \<open>The tokenizer\<close>

record HuggingfaceTokenizer =
  hf_encoder :: "std_string \<Rightarrow> int option"
  hf_decoder :: "std_string list"
  hf_ranks :: ranks

definition merge_rule :: "std_string \<Rightarrow> (wstring \<times> wstring) option" where
  \<comment> \<open>the parts before and behind the first space; without one, both are the line\<close>
  "merge_rule line = (
     let (a, b) = (if 32 \<in> set line then (takeWhile (\<lambda>c. c \<noteq> 32) line, tl (dropWhile (\<lambda>c. c \<noteq> 32) line)) else (line, line))
     in do { x \<leftarrow> utf8_to_wstring a; y \<leftarrow> utf8_to_wstring b; Some (x, y) })"

definition Huggingface_load_vocab :: "std_string list \<Rightarrow> std_string list \<Rightarrow> HuggingfaceTokenizer option" where
  "Huggingface_load_vocab lines merges = do {
     rules \<leftarrow> those (map merge_rule merges);
     Some \<lparr>hf_encoder = load_table lines, hf_decoder = lines, hf_ranks = load_table rules\<rparr> }"

definition Huggingface_encode :: "HuggingfaceTokenizer \<Rightarrow> std_string \<Rightarrow> int list \<Rightarrow> int list option" where
  \<comment> \<open>\<open>at\<close> raises an exception for a key that is missing\<close>
  "Huggingface_encode v str ids = do {
     result \<leftarrow> those (map (\<lambda>token. do {
         wtoken \<leftarrow> those (map b2u token);
         those (map wstring_to_utf8 (bpe wtoken (hf_ranks v))) }) (cut str));
     new \<leftarrow> those (map (hf_encoder v) (concat result));
     Some (ids @ new) }"

definition Huggingface_decode :: "HuggingfaceTokenizer \<Rightarrow> int \<Rightarrow> std_string option" where
  "Huggingface_decode v token =
     (if token < 0 \<or> token \<ge> int (length (hf_decoder v)) then Some []
      else do {
        w \<leftarrow> utf8_to_wstring (hf_decoder v ! nat token);
        Some (List.map_filter u2b w) })"

text \<open>What is encoded is decoded to the text again.\<close>

lemma those_Some: "those xs = Some ys \<longleftrightarrow> xs = map Some ys"
  by (induction xs arbitrary: ys) (auto split: option.splits simp: Cons_eq_map_conv)

lemma decode_pieces:
  assumes v: "Huggingface_load_vocab lines merges = Some v" and s: "those (map wstring_to_utf8 ps) = Some ss"
    and ids: "those (map (hf_encoder v) ss) = Some ids"
  shows "decode_all (Huggingface_decode v) ids = Some (List.map_filter u2b (concat ps))"
  using s ids
proof (induction ps arbitrary: ss ids)
  case (Cons p ps)
  then obtain s ss' i ids' where parts: "wstring_to_utf8 p = Some s" "those (map wstring_to_utf8 ps) = Some ss'" "ss = s # ss'"
      "hf_encoder v s = Some i" "those (map (hf_encoder v) ss') = Some ids'" "ids = i # ids'"
    by (auto split: option.splits)
  have "load_table lines s = Some i" "hf_decoder v = lines" using v parts(4) by (auto simp: Huggingface_load_vocab_def bind_eq_Some_conv)
  then have "Huggingface_decode v i = Some (List.map_filter u2b p)"
    using load_table_Some [of lines s i] utf8_roundtrip [OF parts(1)] by (simp add: Huggingface_decode_def)
  then show ?case using decode_all_append [of _ "[i]", OF _ Cons.IH [OF parts(2,5)]] parts(6) by (simp add: map_filter_def)
qed (simp add: map_filter_def)

lemma bytes_back: "those (map b2u token) = Some w \<Longrightarrow> List.map_filter u2b w = token"
proof (induction token arbitrary: w)
  case (Cons b token)
  then show ?case by (auto simp: map_filter_def u2b_b2u split: option.splits)
qed (simp add: map_filter_def)

lemma bpe_concat: "w \<noteq> [] \<Longrightarrow> concat (bpe w bpe_ranks) = w"
  by (simp add: bpe_is_reference bpe_reference_concat)

lemma Huggingface_decodes:
  assumes v: "Huggingface_load_vocab lines merges = Some v" and e: "Huggingface_encode v s ids = Some ids'"
  shows "\<exists>new. ids' = ids @ new \<and> decode_all (Huggingface_decode v) new = Some s"
proof -
  let ?piece = "\<lambda>token. do { wtoken \<leftarrow> those (map b2u token); those (map wstring_to_utf8 (bpe wtoken (hf_ranks v))) }"
  have "decode_all (Huggingface_decode v) new = Some (concat ts)"
    if "\<forall>t \<in> set ts. t \<noteq> []" "those (map ?piece ts) = Some result" "those (map (hf_encoder v) (concat result)) = Some new" for ts result new
    using that
  proof (induction ts arbitrary: result new)
    case (Cons t ts)
    then obtain r rs where r: "?piece t = Some r" "those (map ?piece ts) = Some rs" "result = r # rs" by (auto split: option.splits)
    then obtain w where w: "those (map b2u t) = Some w" "those (map wstring_to_utf8 (bpe w (hf_ranks v))) = Some r" by (auto simp: bind_eq_Some_conv)
    obtain n1 n2 where n: "those (map (hf_encoder v) r) = Some n1" "those (map (hf_encoder v) (concat rs)) = Some n2" "new = n1 @ n2"
      using Cons.prems(3) r(3) by (auto simp: those_append bind_eq_Some_conv)
    have "w \<noteq> []" using w(1) Cons.prems(1) by (auto simp: those_Some)
    then have "decode_all (Huggingface_decode v) n1 = Some t"
      using decode_pieces [OF v w(2) n(1)] bytes_back [OF w(1)] by (simp add: bpe_concat)
    from decode_all_append [OF this Cons.IH [OF _ r(2) n(2)]] show ?case using Cons.prems(1) n(3) by simp
  qed simp
  from this [of "cut s"] e cut_concat [of s] show ?thesis
    by (auto simp: Huggingface_encode_def bind_eq_Some_conv)
qed

text \<open>For a vocabulary that was loaded, this is the contract of a tokenizer.\<close>

interpretation huggingface: token_codec "Huggingface_decode v" "Huggingface_encode v" "\<lambda>_. \<exists>lines merges. Huggingface_load_vocab lines merges = Some v" for v
proof
  show "\<exists>new. ids' = ids @ new \<and> decode_all (Huggingface_decode v) new = Some s"
    if "\<exists>lines merges. Huggingface_load_vocab lines merges = Some v" "Huggingface_encode v s ids = Some ids'" for s ids ids'
    using that Huggingface_decodes by blast
qed

end
