(* ===== verification/Spec2Isabelle.thy ===== *)
theory Spec2Isabelle
  imports DeferSafety EagerClient EagerEnd ReshapeFacts SlicingFacts ConvFacts BlockFacts ShapeMisc ShapeHeads TensorArrayFacts RegionFacts PermuteFacts JoinFacts SliceFacts WeightLoad DispatchSuite PipelineSuite TokenPieceLoop TokenHugging
begin

text \<open>
  \<^bold>\<open>MNN: memory planning, shape inference, region copies, quantized weights and tokenizers.\<close>

  MNN runs a neural network in two steps. When a session is resized, the loop of
  \<open>source/geometry/GeometryComputerUtils.cpp\<close> goes over the operations of the network, asks
  \<open>SizeComputer::computeOutputSize\<close> for the shapes of their outputs, and lets the geometry computers
  turn the operations that only move data into \<^emph>\<open>regions\<close>, nested strided copies, which are fused with
  one another. The backend then takes the memory of the tensors from the allocators of
  \<open>source/core/BufferAllocator.cpp\<close>, where two tensors may share a range when they are not alive at
  the same time. The pipeline of \<open>source/core/Pipeline.cpp\<close> decides when. This development models these parts: what they compute is what decides whether a
  network reads the elements it means to read, from memory that is its own.

  \<^bold>\<open>Conventions.\<close> A class or struct is a \<open>record\<close>, an enumeration a \<open>datatype\<close>, with the names of the
  source. A pointer into a pool of nodes is the index of the node. Functions that may not succeed return
  an option; \<open>None\<close> is undefined behaviour of the program (an access outside an array, a division by
  zero, a null pointer), and for an operation that returns a \<open>bool\<close> the result is an
  option of an option, where \<open>Some None\<close> is \<open>return false\<close>. Loops over indices are \<open>loop\<close> and, with a
  body that may return false, \<open>loopC\<close> (theory \<open>Tensor\<close>). \<open>int\<close> arithmetic is unbounded, truncating
  division is \<open>sdiv\<close>. Sizes, offsets and totals of memory, \<open>size_t\<close> in the code, are natural numbers: they are taken to
  stay below \<open>2 ^ 64\<close>, so that rounding a request and adding to a total do not wrap around. What may wrap although no
  number is large is written out: differences of unsigned values (\<open>size_t_sub\<close>), the size a tensor's memory keeps as
  \<open>int\<close> (\<open>size_to_int\<close>, \<open>int_to_size\<close>), the casts of the \<open>Range\<close> and \<open>TensorArray\<close> computers. \<open>MNN_ASSERT\<close> is empty, as in a release build. Values the code
  computes in floating point, and the parameters of an operation, which generated code reads from the
  model file, are arguments of the definitions.

  \<^bold>\<open>The allocators.\<close>
  \<^item> \<open>SizeIndex\<close>: the \<open>std::multiset\<close> and \<open>std::multimap\<close> ordered by size in which both allocators keep
    their free memory, and its contract, the locale \<open>size_index\<close>.
  \<^item> \<open>DeferAllocator\<close>: \<open>DeferBufferAllocator\<close> and \<open>SingleBufferWithAllocator\<close>. Requests are recorded
    on a doubly linked list of nodes (\<open>mHead\<close>, \<open>mTail\<close>, \<open>mChunks\<close>), freed neighbours are fused into
    a tree, and \<open>compute\<close> lays out the list. \<open>DeferRefine\<close> ties the pointers to a list of blocks,
    \<open>DeferPlan\<close> states the allocator on that list, \<open>DeferLayout\<close> follows the positions of the chunks
    through later requests, \<open>DeferRun\<close> runs sequences of requests, \<open>DeferSafety\<close> holds the properties:
    refinement, chunks alive together are disjoint, alignment, bounds on the total, best fit,
    and that \<open>compute\<close> ends. The fuel of \<open>compute_loop\<close> and \<open>visiChildren\<close> is the number of nodes; each node is
    visited at most once, so it is enough (\<open>visitKids_total\<close>, \<open>defer_compute_succeeds\<close>).
  \<^item> \<open>EagerAllocator\<close>: \<open>EagerBufferAllocator\<close>, which splits blocks of a parent allocator and merges
    the parts again. \<open>EagerForest\<close> describes the nodes as a forest, \<open>EagerOps\<close> and \<open>EagerRun\<close> show that
    the operations keep it, \<open>EagerSafety\<close> and \<open>EagerClient\<close> give the client's view as a step relation, which
    records the requests the client has made: as long as none of them is below the minimal allocation size inside a group or
    is rounded up to that size (\<open>above_minimum\<close>; without a minimal size every request is allowed), the ranges it holds are
    disjoint and \<open>mTotalSize\<close> accounts for the memory. Otherwise they are not: \<open>eager_group_rest_overlap\<close>. \<open>EagerEnd\<close> shows
    that merging ends after any calls whatever (the fuel of \<open>merge_up\<close> is the number of nodes, and a parent has a
    smaller index).

  \<^bold>\<open>The memory of a pipeline.\<close> \<open>PipelineAlloc\<close> has \<open>Pipeline::_allocForTensor\<close> and \<open>Pipeline::execute\<close> with their
  helpers, \<open>CPUBackend::allocBuffer\<close> and the resize callbacks of the CPU backend, on top of
  \<open>DeferBufferAllocator\<close>: tensors are counted, acquired command by command, released at their last use,
  and laid out at the end. \<open>PipelinePool\<close> says what the allocator keeps for its clients, \<open>PipelineEvents\<close>
  takes the loop apart into events and proves their invariant \<open>ev_inv\<close>, \<open>PipelineSafety\<close> shows that tensors
  alive together end up apart, \<open>PipelinePlan\<close> and \<open>PipelineTheorems\<close> lift this to commands
  (\<open>commands_ok\<close>: each tensor is written by one command before it is read, memory an execution takes
  is its own and given back), \<open>PipelineProgress\<close> shows that a plan is found, \<open>PipelineRefine\<close>
  that executing on the planned memory refines an execution with one store per tensor. What an
  execution computes and asks for, the static allocator and the addresses of memory are parameters. \<open>PipelineSuite\<close> holds the
  properties and a pipeline of three commands as their witness. The pools of the two backends are one, as in a
  CPU session; the theorems ask that no tensor but the constants has memory when planning starts
  (\<open>start_ok\<close>), and that memory outside of the pool is apart from it (\<open>outside_apart\<close>).

  \<^bold>\<open>Shape inference.\<close> \<open>Tensor\<close> has the descriptor (\<open>include/MNN/Tensor.hpp\<close>,
  \<open>source/core/TensorUtils.cpp\<close>): extents, strides, number of dimensions, type, format and the host
  content of integer tensors. One theory per group of files of \<open>source/shape\<close> holds the computers:
  \<^item> \<open>ShapeReshape\<close> (facts in \<open>ReshapeFacts\<close>): reshaping, permuting, broadcasting;
  \<^item> \<open>ShapeSlicing\<close> (\<open>SlicingFacts\<close>): slices, tiles, padding, concatenation, packing;
  \<^item> \<open>ShapeConv\<close> (\<open>ConvFacts\<close>): convolution and pooling;
  \<^item> \<open>ShapeBlocks\<close> (\<open>BlockFacts\<close>): matrix products and block rearrangements, with
    \<open>OpCommonUtils::computeMatMulSize\<close>;
  \<^item> \<open>ShapeIndex\<close>, \<open>ShapeMisc\<close>, \<open>ShapeHeads\<close>: selection, queries, casts, resizing, detection heads,
    recurrent cells and attention;
  \<^item> \<open>ShapeTensorArray\<close> (\<open>TensorArrayFacts\<close>): tensors that stand for a sequence of tensors.

  A computer takes the inputs and its output and returns the output with the fields the code sets. The facts say
  what the extents mean (numbers of elements, of windows, of slice indices), that inverse operations
  restore the shape, and which requests return false. \<open>SizeDispatch\<close> is the dispatch of
  \<open>SizeComputer.cpp\<close> and the loop over the network; \<open>DispatchSafety\<close> states what a registered computer
  promises as the locale \<open>size_suite\<close>. \<open>DispatchSuite\<close> proves it for ten computers of the model, which it registers and on
  which it interprets the locale; its theorem on networks is for any registered computers that keep the promise, and
  \<open>flatten_grows\<close> shows one that does not.

  \<^bold>\<open>Regions.\<close> \<open>Regions\<close> has the regions of \<open>source/core/TensorUtils.hpp\<close>, the copies they stand for and their
  classification, \<open>RegionFuse\<close> the class \<open>FuseRegionStatus\<close> that replaces two copies through a middle
  tensor by one, \<open>GeometryPermute\<close> the function \<open>ComputePermuteRegion\<close>. \<open>RegionAlgebra\<close> reasons about
  nested loops as lists of axes; \<open>RegionFacts\<close> and \<open>PermuteFacts\<close> show that the regions copy what they
  should. \<open>GeometryMoves\<close> and \<open>GeometryTile\<close> have the computers of \<open>source/geometry\<close> that join, cut, reverse,
  repeat and broadcast tensors. \<open>MovesFacts\<close> states regions that fill their destination row by row as functions from
  destination to source (\<open>row_source\<close>) and shows which element repeating and broadcasting read; \<open>SliceFacts\<close> does so for
  slices with a begin; \<open>JoinFacts\<close> executes regions on memory (\<open>raster\<close>), for cutting, joining and reversing.

  \<^bold>\<open>Quantized weights.\<close> \<open>WeightBits\<close> packs indexes of a few bits into bytes and takes them apart
  (\<open>FillBuffer\<close>, \<open>SplitBufToArray\<close>), with a buffer read as a stream of bits. \<open>WeightCode\<close> has the encoder
  (\<open>source/core/IDSTEncoder.hpp\<close>), with its dense and its sparse coding, the decoder and \<open>ConvolutionCommon::load\<close>
  (\<open>source/core/ConvolutionCommon.cpp\<close>). Files are lists of bytes. The quotients of weights and scales, rounded, are
  arguments, and so is the decoder's arithmetic on \<open>float\<close> (\<open>FloatOps\<close>). \<open>WeightFacts\<close> holds what dimensions, samples
  and bit counts are, \<open>WeightDense\<close> and \<open>WeightSparse\<close> the round trips of the two codings, \<open>WeightLoad\<close> that of the table
  as a whole.

  \<^bold>\<open>Tokenizers.\<close> The classes of \<open>transformers/llm/engine/src/tokenizer.cpp\<close> turn text into ids for language models.
  \<open>TokenBase\<close> has characters and base64 (with its round trip), \<open>TokenCodec\<close> the base class, which looks for special tokens, and the locales
  \<open>token_codec\<close> and \<open>total_codec\<close> of what a derived class promises: then \<open>Tokenizer::encode\<close> decodes to the text again.
  \<open>TokenVocab\<close> has \<open>Tiktoken\<close> and \<open>BertTokenizer\<close>; \<open>TokenBpe\<close>, \<open>TokenMerge\<close> and \<open>TokenHugging\<close> have \<open>HuggingfaceTokenizer\<close>,
  whose pairs and merged indexes compute the merging of a list of symbols (\<open>bpe_is_reference\<close>). \<open>TokenPiece\<close> has \<open>Sentencepiece\<close>;
  \<open>TokenPieceFacts\<close>, \<open>TokenPieceRun\<close> and \<open>TokenPieceLoop\<close> show that its linked symbols and its agenda, with stale pairs in it,
  compute the reference \<open>piece_reference\<close> on the list of characters. The loop of the agenda has a termination proof: every round
  removes an entry, and adds two only when a symbol disappears. The fuel of \<open>collect\<close> is the number of symbols, that of \<open>resegment\<close> the length of
  the piece.

  \<^bold>\<open>Code that does not do what it means to do\<close> is modelled as it is written, and shown by theorems on
  concrete inputs: the alignment of \<open>DeferBufferAllocator\<close>, the size kept after a failed allocation, the rest of a
  fresh block in a group, \<open>Flatten\<close> in the middle and with an end before its begin, empty strided slices, three-dimensional pooling on
  \<open>NHWC\<close>, the product of two vectors, scattering behind the end of a tensor array, three cases of
  region fusion, repeating five dimensions, reversing into a tensor that has regions, and
  values the sparse coding does not clamp.

  \<^bold>\<open>Not modelled.\<close> \<open>PriorBox\<close> (floating point) and \<open>Plugin\<close> (the shape function belongs to the client);
  \<open>onComputeFlops\<close> (an estimate in floating point); the shape cache, the release of output memory and the
  execution of constant operations in the driver loop; the other geometry computers; weights in
  external files or in memory of the caller; sessions
  and schedules; the files of tokenizers; of the pipeline, the encoding of operations to commands, copies between backends and callbacks; the kernels of the backends, which are floating point, assembly and
  device programs; the expression interface; the converter and generated or third-party code.
\<close>

end
